(* ===== verification/Prelude.thy ===== *)
theory Prelude
imports Main "HOL-Library.Word"
begin

text \<open>
  What every component of the model shares: the machine integers of the source, the ways its
  code can stop (\<open>fault\<close> values), the result type with its sequencing operator, and the
  list lemmas that several components use.

  The repository's \<open>ENSURE\<close> macro traps in every build configuration, \<open>ASSERT\<close> in debug builds
  only; a trap, an out-of-range \<open>at\<close>, and an operation whose behaviour the C++ standard leaves
  undefined are different constructors, so that a property says which of them cannot happen.
\<close>

section \<open>Machine integers\<close>

type_synonym u8 = "8 word"
type_synonym u16 = "16 word"
type_synonym u32 = "32 word"
type_synonym u64 = "64 word"

section \<open>Faults and results\<close>

datatype fault =
    EnsureFailed
  | OutOfRange
  | Undefined
  | RuntimeError

type_synonym 'a res = "fault + 'a"

fun bind_res :: "'a res \<Rightarrow> ('a \<Rightarrow> 'b res) \<Rightarrow> 'b res" where
  "bind_res (Inl e) f = Inl e"
| "bind_res (Inr a) f = f a"

definition ensure :: "bool \<Rightarrow> unit res" where
  "ensure c = (if c then Inr () else Inl EnsureFailed)"

definition at_res :: "'a list \<Rightarrow> nat \<Rightarrow> 'a res" where
  "at_res xs i = (if i < length xs then Inr (xs ! i) else Inl OutOfRange)"

definition is_ok :: "'a res \<Rightarrow> bool" where
  "is_ok r = (case r of Inl _ \<Rightarrow> False | Inr _ \<Rightarrow> True)"

named_theorems res_simps

lemma ensure_True [simp, res_simps]: "ensure True = Inr ()"
  by (simp add: ensure_def)

lemma ensure_False [simp, res_simps]: "ensure False = Inl EnsureFailed"
  by (simp add: ensure_def)

lemma ensure_Inr [simp, res_simps]: "ensure c = Inr u \<longleftrightarrow> c"
  by (simp add: ensure_def)

lemma bind_res_Inr [res_simps]: "bind_res r f = Inr b \<longleftrightarrow> (\<exists>a. r = Inr a \<and> f a = Inr b)"
  by (cases r) auto

lemma bind_ensure [simp, res_simps]:
  "bind_res (ensure c) f = (if c then f () else Inl EnsureFailed)"
  by (simp add: ensure_def)

lemma bind_res_assoc: "bind_res (bind_res r f) g = bind_res r (\<lambda>a. bind_res (f a) g)"
  by (cases r) auto

lemma at_res_Inr [res_simps]: "at_res xs i = Inr x \<longleftrightarrow> i < length xs \<and> x = xs ! i"
  by (auto simp: at_res_def)

lemma at_res_ok [simp]: "i < length xs \<Longrightarrow> at_res xs i = Inr (xs ! i)"
  by (simp add: at_res_def)

lemma at_res_fault [simp]: "length xs \<le> i \<Longrightarrow> at_res xs i = Inl OutOfRange"
  by (simp add: at_res_def)

lemma is_ok_simps [simp]: "is_ok (Inr a)" "\<not> is_ok (Inl e)"
  by (simp_all add: is_ok_def)

text \<open>\<open>operator[]\<close> of a vector or span, undefined out of range, and a loop that may stop.\<close>

definition idx :: "'a list \<Rightarrow> nat \<Rightarrow> 'a res" where
  "idx xs i = (if i < length xs then Inr (xs ! i) else Inl Undefined)"

fun fold_res :: "('i \<Rightarrow> 's \<Rightarrow> 's res) \<Rightarrow> 'i list \<Rightarrow> 's \<Rightarrow> 's res" where
  "fold_res f [] s = Inr s"
| "fold_res f (i # is) s = bind_res (f i s) (fold_res f is)"

lemma idx_Inr [res_simps]: "idx xs i = Inr x \<longleftrightarrow> i < length xs \<and> x = xs ! i"
  by (auto simp: idx_def)

lemma idx_ok [simp]: "i < length xs \<Longrightarrow> idx xs i = Inr (xs ! i)"
  by (simp add: idx_def)

lemma fold_res_append [res_simps]: "fold_res f (is @ js) s = bind_res (fold_res f is s) (fold_res f js)"
proof (induction "is" arbitrary: s)
  case (Cons i "is")
  then show ?case by (cases "f i s") simp_all
qed simp

lemma fold_res_inv:
  "fold_res f is s = Inr s' \<Longrightarrow> P s \<Longrightarrow> (\<And>i s s'. i \<in> set is \<Longrightarrow> P s \<Longrightarrow> f i s = Inr s' \<Longrightarrow> P s') \<Longrightarrow> P s'"
  by (induction "is" arbitrary: s) (auto simp: bind_res_Inr)

section \<open>Lists updated and erased by index\<close>

definition erase_at :: "nat \<Rightarrow> 'a list \<Rightarrow> 'a list" where
  "erase_at i xs = take i xs @ drop (Suc i) xs"

definition insert_at :: "nat \<Rightarrow> 'a \<Rightarrow> 'a list \<Rightarrow> 'a list" where
  "insert_at i x xs = take i xs @ x # drop i xs"

lemma length_erase_at [simp]: "i < length xs \<Longrightarrow> length (erase_at i xs) = length xs - 1"
  by (simp add: erase_at_def)

lemma erase_at_append [simp]: "erase_at (length pre) (pre @ x # post) = pre @ post"
  by (simp add: erase_at_def)

lemma erase_at_append_Suc [simp]: "erase_at (Suc (length pre)) (pre @ c # x # post) = pre @ c # post"
  by (simp add: erase_at_def)

lemma length_insert_at [simp]: "length (insert_at i x xs) = Suc (length xs)"
  by (simp add: insert_at_def)

lemma insert_at_append [simp]: "insert_at (length pre) x (pre @ post) = pre @ x # post"
  by (simp add: insert_at_def)

lemma set_insert_at [simp]: "set (insert_at i x xs) = insert x (set xs)"
proof -
  have "set xs = set (take i xs @ drop i xs)" by simp
  then show ?thesis by (auto simp: insert_at_def simp del: append_take_drop_id)
qed

lemma filter_update_length:
  "t < length xs \<Longrightarrow> length (filter P (xs[t := x])) + (if P (xs ! t) then 1 else 0)
     = length (filter P xs) + (if P x then 1 else 0)"
proof (induction xs arbitrary: t)
  case (Cons y ys)
  show ?case
  proof (cases t)
    case (Suc j)
    then show ?thesis using Cons.IH [of j] Cons.prems by simp
  qed simp
qed simp

lemma filter_length_pos: "t < length xs \<Longrightarrow> P (xs ! t) \<Longrightarrow> 0 < length (filter P xs)"
  by (auto simp: filter_empty_conv intro!: nth_mem)

lemma filter_length_le: "length (filter P xs) \<le> length xs"
  by simp

lemma filter_length_0: "length (filter P xs) = 0 \<longleftrightarrow> (\<forall>x\<in>set xs. \<not> P x)"
  by (auto simp: filter_empty_conv)

lemma filter_length_two:
  assumes "i < length xs" "j < length xs" "i \<noteq> j" "P (xs ! i)" "P (xs ! j)"
  shows "2 \<le> length (filter P xs)"
proof -
  have "{i, j} \<subseteq> {k. k < length xs \<and> P (xs ! k)}" using assms by auto
  from card_mono [OF _ this] assms(3) show ?thesis by (simp add: length_filter_conv_card)
qed

lemma distinct_count_list: "distinct xs \<Longrightarrow> count_list xs x = (if x \<in> set xs then 1 else 0)"
  by (induction xs) auto

section \<open>Bytes\<close>

unbundle bit_operations_syntax

lemma unat_or_2: "unat (b OR 2 :: u8) = unat b + (if odd (unat b div 2) then 0 else 2)"
proof -
  have "n OR 2 = n + (if odd (n div 2) then 0 else 2)" for n :: nat
    using or_rec [of n 2] or_rec [of "n div 2" 1] by (auto elim!: oddE evenE)
  then show ?thesis by (simp add: unsigned_or_eq)
qed

lemma unat_and_3: "unat (b AND 3 :: u8) = unat b mod 4"
proof -
  have "n AND 3 = n mod 4" for n :: nat
    using take_bit_eq_mask [of 2 n] by (simp add: mask_eq_exp_minus_1 take_bit_eq_mod)
  then show ?thesis by (simp add: unsigned_and_eq)
qed

lemma unat_and_not_3: "unat (b AND NOT 3 :: u8) = unat b - unat b mod 4"
proof -
  have n: "n AND 252 = n - n mod 4" if "n < 256" for n :: nat
  proof -
    have "n AND 252 = 4 * (n div 4 AND 63)"
      using and_rec [of n 252] and_rec [of "n div 2" 126] by (simp add: div_mult2_eq [symmetric])
    also have "n div 4 AND 63 = take_bit 6 (n div 4)" by (simp add: take_bit_eq_mask mask_eq_exp_minus_1)
    also have "\<dots> = n div 4" using that by (simp add: take_bit_nat_eq_self)
    finally show ?thesis by (simp add: minus_mod_eq_mult_div)
  qed
  have "unat b < 256" using unsigned_less [of b] by simp
  then show ?thesis using n [of "unat b"] by (simp add: unsigned_and_eq)
qed

lemma and_3_eq_0: "(b AND 3 :: u8) = 0 \<longleftrightarrow> unat b mod 4 = 0"
proof -
  have "(b AND 3) = 0 \<longleftrightarrow> unat (b AND 3) = unat (0 :: u8)" by (simp only: unsigned_word_eqI [symmetric] word_unat_eq_iff)
  then show ?thesis by (simp add: unat_and_3)
qed

lemma unat_add_byte: "unat b + unat d < 256 \<Longrightarrow> unat (b + d :: u8) = unat b + unat d"
  by (simp add: unat_word_ariths)

lemma unat_sub_byte: "unat d \<le> unat b \<Longrightarrow> unat (b - d :: u8) = unat b - unat d"
  by (simp add: unat_sub word_le_nat_alt)

end
