(* ===== verification/Command_Buffers.thy ===== *)
theory Command_Buffers
imports Prelude
begin

text \<open>
  \<open>CommandBufferArray\<close>, \<open>CommandBufferAccessScope\<close> and \<open>CommandPool\<close> of \<open>rhi/command.{h,inl}\<close> and
  \<open>rhi/vulkan/command.cpp\<close>. A Vulkan entry point is an event appended to \<open>calls\<close>, the trace of what
  the code asks of the driver; what Vulkan allows is stated separately (\<open>life_step\<close>, the command
  buffer lifecycle of the Vulkan specification) and proved of the traces. \<open>VK_CHECK\<close> traps on an error
  code, so a trace describes a run in which the driver reported none. A command buffer handle is
  named by its pool, the number of the allocation that returned it and its position there; the
  address of an array (a \<open>std::list\<close> node, which never moves) is the number of its allocation.
\<close>

section \<open>Driver events\<close>

type_synonym cb_handle = "nat \<times> nat \<times> nat"

record sync_info =
  waitSemaphores :: "nat list"
  waitDstStageMasks :: "u32 list"
  waitSemaphoreValues :: "u64 list"
  signalSemaphores :: "nat list"
  signalSemaphoreValues :: "u64 list"
  callbacks :: "nat list"

record submit_info = sync_info +
  commandBuffers :: "cb_handle list"
  timelineValue :: u64

record present_info =
  presentWaits :: "nat list"
  swapchains :: "nat list"
  imageIndices :: "u32 list"
  results :: "nat list"
  presentIds :: "u64 list"

datatype vk_event =
    VkCreateCommandPool nat u32
  | VkAllocateCommandBuffers nat nat
  | VkBeginCommandBuffer cb_handle nat
  | VkEndCommandBuffer cb_handle
  | VkResetCommandBuffer cb_handle bool
  | VkResetCommandPool nat
  | VkCmdExecuteCommands cb_handle "cb_handle list"
  | VkQueueSubmit "submit_info list"
  | VkQueuePresent present_info
  | DeviceCompleted "cb_handle list"

section \<open>The store\<close>

record cbarray =
  ca_pool :: nat
  ca_level :: nat
  ca_useReset :: bool
  ca_release :: bool
  ca_head :: "2 word"
  ca_flags :: "4 word"

record vkctx =
  arrays :: "nat \<Rightarrow> cbarray option"
  refs :: "nat \<Rightarrow> u32 option"
  fresh_array :: nat
  fresh_ref :: nat
  calls :: "vk_event list"

definition emit :: "vk_event \<Rightarrow> vkctx \<Rightarrow> vkctx" where
  "emit e x = x\<lparr> calls := calls x @ [e] \<rparr>"

definition put_array :: "nat \<Rightarrow> cbarray \<Rightarrow> vkctx \<Rightarrow> vkctx" where
  "put_array a c x = x\<lparr> arrays := (arrays x)(a \<mapsto> c) \<rparr>"

definition with_array :: "nat \<Rightarrow> vkctx \<Rightarrow> (cbarray \<Rightarrow> 'a res) \<Rightarrow> 'a res" where
  "with_array a x f = (case arrays x a of None \<Rightarrow> Inl Undefined | Some c \<Rightarrow> f c)"

section \<open>CommandBufferArray\<close>

definition kCommandBufferCount :: nat where
  "kCommandBufferCount = 4"

definition VK_COMMAND_POOL_CREATE_RESET_COMMAND_BUFFER_BIT :: u32 where
  "VK_COMMAND_POOL_CREATE_RESET_COMMAND_BUFFER_BIT = 2"

definition cb_of :: "nat \<Rightarrow> cbarray \<Rightarrow> nat \<Rightarrow> cb_handle" where
  "cb_of a c i = (ca_pool c, a, i)"

definition array_Head :: "cbarray \<Rightarrow> nat" where
  "array_Head c = unat (ca_head c)"

definition array_Recording :: "cbarray \<Rightarrow> nat \<Rightarrow> bool" where
  "array_Recording c i \<longleftrightarrow> ca_flags c AND push_bit i 1 \<noteq> 0"

definition array_Full :: "cbarray \<Rightarrow> bool" where
  "array_Full c \<longleftrightarrow> array_Head c + 1 \<ge> kCommandBufferCount"

definition array_Data :: "nat \<Rightarrow> cbarray \<Rightarrow> cb_handle list res" where
  "array_Data a c = bind_res (ensure (ca_flags c = 0)) (\<lambda>_. Inr (map (cb_of a c) [0..<kCommandBufferCount]))"

definition array_create :: "nat \<Rightarrow> nat \<Rightarrow> bool \<Rightarrow> bool \<Rightarrow> vkctx \<Rightarrow> nat \<times> vkctx" where
  "array_create p level useReset rel x =
     (let a = fresh_array x;
          c = \<lparr> ca_pool = p, ca_level = level, ca_useReset = useReset, ca_release = rel,
                ca_head = 0, ca_flags = 0 \<rparr>
      in (a, emit (VkAllocateCommandBuffers p a) (put_array a c (x\<lparr> fresh_array := a + 1 \<rparr>))))"

definition array_Begin :: "nat \<Rightarrow> vkctx \<Rightarrow> (nat \<times> vkctx) res" where
  "array_Begin a x = with_array a x (\<lambda>c.
     bind_res (ensure (\<not> array_Recording c (array_Head c))) (\<lambda>_.
     bind_res (ensure (\<not> array_Full c)) (\<lambda>_.
       let c' = c\<lparr> ca_flags := ca_flags c OR push_bit (array_Head c) 1, ca_head := ca_head c + 1 \<rparr>
       in Inr (array_Head c,
               put_array a c' (emit (VkBeginCommandBuffer (cb_of a c (array_Head c)) (ca_level c)) x)))))"

definition array_End :: "nat \<Rightarrow> nat \<Rightarrow> vkctx \<Rightarrow> vkctx res" where
  "array_End a i x = with_array a x (\<lambda>c.
     bind_res (ensure (array_Recording c i)) (\<lambda>_.
       let c' = c\<lparr> ca_flags := ca_flags c AND NOT (push_bit i 1) \<rparr>
       in if i < kCommandBufferCount
          then Inr (emit (VkEndCommandBuffer (cb_of a c i)) (put_array a c' x)) else Inl Undefined))"

definition array_Reset :: "nat \<Rightarrow> vkctx \<Rightarrow> vkctx res" where
  "array_Reset a x = with_array a x (\<lambda>c.
     bind_res (ensure (ca_flags c = 0)) (\<lambda>_.
     bind_res (ensure (array_Head c < kCommandBufferCount)) (\<lambda>_.
       let x' = (if ca_useReset c
                 then foldl (\<lambda>x i. emit (VkResetCommandBuffer (cb_of a c i) (ca_release c)) x) x
                        [0..<array_Head c]
                 else x)
       in Inr (put_array a (c\<lparr> ca_head := 0, ca_flags := 0 \<rparr>) x'))))"

section \<open>CommandBufferAccessScopeDesc\<close>

record inheritance_info =
  renderPass :: nat
  subpass :: u32
  framebuffer :: nat
  occlusionQueryEnable :: u32
  queryFlags :: u32
  pipelineStatistics :: u32

text \<open>\<open>sd_inheritance\<close> is what \<open>pInheritanceInfo\<close> points to, \<open>sd_member\<close> the member \<open>inheritance\<close> of the description
  itself. A copy points to its own member: what a caller has put elsewhere is not in the copy.\<close>

record scope_desc =
  sd_flags :: u32
  sd_member :: inheritance_info
  sd_inheritance :: inheritance_info
  sd_level :: nat
  sd_scopedBeginEnd :: bool

definition no_inheritance :: inheritance_info where
  "no_inheritance = \<lparr> renderPass = 0, subpass = 0, framebuffer = 0, occlusionQueryEnable = 0,
     queryFlags = 0, pipelineStatistics = 0 \<rparr>"

definition scope_desc_default :: "bool \<Rightarrow> scope_desc" where
  "scope_desc_default scoped = \<lparr> sd_flags = 1, sd_member = no_inheritance, sd_inheritance = no_inheritance, sd_level = 0,
     sd_scopedBeginEnd = scoped \<rparr>"

definition scope_desc_copy :: "scope_desc \<Rightarrow> scope_desc" where
  "scope_desc_copy other = other\<lparr> sd_inheritance := sd_member other \<rparr>"

lemma scope_desc_copy_simps [simp]:
  "scope_desc_copy (scope_desc_default b) = scope_desc_default b" "scope_desc_copy (scope_desc_copy d) = scope_desc_copy d"
  "sd_scopedBeginEnd (scope_desc_copy d) = sd_scopedBeginEnd d" "sd_level (scope_desc_copy d) = sd_level d"
  "sd_flags (scope_desc_copy d) = sd_flags d"
  by (simp_all add: scope_desc_copy_def scope_desc_default_def)

definition scope_desc_eq :: "scope_desc \<Rightarrow> scope_desc \<Rightarrow> bool" where
  "scope_desc_eq this other =
     (let result = sd_flags other = sd_flags this \<and> sd_level other = sd_level this
                   \<and> sd_scopedBeginEnd this = sd_scopedBeginEnd other;
          i = sd_inheritance this; j = sd_inheritance other
      in if result \<and> sd_level this = 1
         then renderPass j = renderPass i \<and> subpass j = subpass i \<and> framebuffer j = framebuffer i
              \<and> occlusionQueryEnable j = occlusionQueryEnable i \<and> queryFlags j = queryFlags i
              \<and> pipelineStatistics j = pipelineStatistics i
         else result)"

text \<open>The description of a secondary buffer that names a render pass is not the one its scope keeps: the next
  \<open>Commands\<close> with it begins another buffer instead of returning the one that is recorded.\<close>

lemma copied_desc_differs:
  assumes "sd_level d = 1" "renderPass (sd_inheritance d) \<noteq> renderPass (sd_member d)"
  shows "\<not> scope_desc_eq (scope_desc_copy d) d"
  using assms by (simp add: scope_desc_eq_def scope_desc_copy_def)

section \<open>CommandBufferAccessScope\<close>

record scope =
  sc_desc :: scope_desc
  sc_ref :: "nat option"
  sc_array :: "nat option"
  sc_index :: nat

definition scope_default :: scope where
  "scope_default = \<lparr> sc_desc = scope_desc_default True, sc_ref = None, sc_array = None, sc_index = 0 \<rparr>"

definition scope_construct :: "nat \<Rightarrow> scope_desc \<Rightarrow> vkctx \<Rightarrow> (scope \<times> vkctx) res" where
  "scope_construct a d x =
     (let r = fresh_ref x; x1 = x\<lparr> refs := (refs x)(r \<mapsto> 1), fresh_ref := r + 1 \<rparr> in
      bind_res (if sd_scopedBeginEnd d then array_Begin a x1 else Inr (0, x1)) (\<lambda>(i, x2).
        Inr (\<lparr> sc_desc = scope_desc_copy d, sc_ref = Some r, sc_array = Some a, sc_index = i \<rparr>, x2)))"

definition scope_copy :: "scope \<Rightarrow> vkctx \<Rightarrow> (scope \<times> vkctx) res" where
  "scope_copy s x = (case sc_ref s of
       None \<Rightarrow> Inl Undefined
     | Some r \<Rightarrow> (case refs x r of
         None \<Rightarrow> Inl Undefined
       | Some n \<Rightarrow> Inr (s, x\<lparr> refs := (refs x)(r \<mapsto> n + 1) \<rparr>)))"

definition scope_move :: "scope \<Rightarrow> scope \<times> scope" where
  "scope_move s = (s, scope_default)"

definition scope_destroy :: "scope \<Rightarrow> vkctx \<Rightarrow> vkctx res" where
  "scope_destroy s x = (case sc_ref s of
       Some r \<Rightarrow> (if sd_scopedBeginEnd (sc_desc s) then
         (case (refs x r, sc_array s) of
            (Some n, Some a) \<Rightarrow>
              (let x1 = x\<lparr> refs := (refs x)(r \<mapsto> n - 1) \<rparr> in
               if n - 1 = 0 then with_array a x1 (\<lambda>c.
                 if array_Recording c (sc_index s) then array_End a (sc_index s) x1 else Inr x1)
               else Inr x1)
          | _ \<Rightarrow> Inl Undefined) else Inr x)
     | None \<Rightarrow> Inr x)"

definition scope_Swap :: "scope \<Rightarrow> scope \<Rightarrow> scope \<times> scope" where
  "scope_Swap s t = (t, s)"

definition scope_assign :: "scope \<Rightarrow> scope \<Rightarrow> vkctx \<Rightarrow> (scope \<times> vkctx) res" where
  "scope_assign this src x = bind_res (scope_copy src x) (\<lambda>(other, x1).
     let (this', other') = scope_Swap this other in
     bind_res (scope_destroy other' x1) (\<lambda>x2. Inr (this', x2)))"

definition scope_Begin :: "scope \<Rightarrow> vkctx \<Rightarrow> (scope \<times> vkctx) res" where
  "scope_Begin s x = (case sc_array s of None \<Rightarrow> Inl Undefined
     | Some a \<Rightarrow> bind_res (array_Begin a x) (\<lambda>(i, x'). Inr (s\<lparr> sc_index := i \<rparr>, x')))"

definition scope_End :: "scope \<Rightarrow> vkctx \<Rightarrow> vkctx res" where
  "scope_End s x = (case sc_array s of None \<Rightarrow> Inl Undefined | Some a \<Rightarrow> array_End a (sc_index s) x)"

section \<open>CommandPool\<close>

type_synonym cb_list = "(nat \<times> u64) list"

record cpool =
  cp_handle :: nat
  cp_flags :: u32
  cp_levels :: nat
  cp_pending :: "nat \<Rightarrow> cb_list"
  cp_submitted :: "nat \<Rightarrow> cb_list"
  cp_free :: "nat \<Rightarrow> cb_list"
  cp_recording :: "nat \<Rightarrow> scope option"

definition CommandPool_create :: "nat \<Rightarrow> u32 \<Rightarrow> nat \<Rightarrow> vkctx \<Rightarrow> cpool \<times> vkctx" where
  "CommandPool_create p fl levels x =
     (\<lparr> cp_handle = p, cp_flags = fl, cp_levels = levels, cp_pending = (\<lambda>_. []),
        cp_submitted = (\<lambda>_. []), cp_free = (\<lambda>_. []), cp_recording = (\<lambda>_. None) \<rparr>,
      emit (VkCreateCommandPool p fl) x)"

definition with_level :: "cpool \<Rightarrow> nat \<Rightarrow> 'a res \<Rightarrow> 'a res" where
  "with_level pl l r = (if l < cp_levels pl then r else Inl Undefined)"

definition InternalEnqueueOnePending :: "nat \<Rightarrow> cpool \<Rightarrow> vkctx \<Rightarrow> cpool \<times> vkctx" where
  "InternalEnqueueOnePending l pl x = (case cp_free pl l of
       e # rest \<Rightarrow> (pl\<lparr> cp_pending := (cp_pending pl)(l := cp_pending pl l @ [e]),
                       cp_free := (cp_free pl)(l := rest) \<rparr>, x)
     | [] \<Rightarrow> (let (a, x') = array_create (cp_handle pl) l
                    (cp_flags pl AND VK_COMMAND_POOL_CREATE_RESET_COMMAND_BUFFER_BIT = 0) True x
              in (pl\<lparr> cp_pending := (cp_pending pl)(l := cp_pending pl l @ [(a, 0)]) \<rparr>, x')))"

definition needs_array :: "cb_list \<Rightarrow> vkctx \<Rightarrow> bool" where
  "needs_array ps x = (ps = [] \<or> (case arrays x (fst (last ps)) of None \<Rightarrow> False | Some c \<Rightarrow> array_Full c))"

definition destroy_opt :: "scope option \<Rightarrow> vkctx \<Rightarrow> vkctx res" where
  "destroy_opt so x = (case so of None \<Rightarrow> Inr x | Some s \<Rightarrow> scope_destroy s x)"

definition InternalBeginScope :: "scope_desc \<Rightarrow> cpool \<Rightarrow> vkctx \<Rightarrow> (scope \<times> cpool \<times> vkctx) res" where
  "InternalBeginScope d pl x = (let l = sd_level d in with_level pl l (
     let (pl1, x1) = (if needs_array (cp_pending pl l) x then InternalEnqueueOnePending l pl x else (pl, x)) in
     bind_res (scope_construct (fst (last (cp_pending pl1 l))) d x1) (\<lambda>(s, x2).
     bind_res (destroy_opt (cp_recording pl1 l) x2) (\<lambda>x3.
     bind_res (scope_copy s x3) (\<lambda>(s', x4).
       Inr (s', pl1\<lparr> cp_recording := (cp_recording pl1)(l := Some s) \<rparr>, x4))))))"

definition Commands :: "scope_desc \<Rightarrow> cpool \<Rightarrow> vkctx \<Rightarrow> (scope \<times> cpool \<times> vkctx) res" where
  "Commands d pl x = with_level pl (sd_level d) (case cp_recording pl (sd_level d) of
       None \<Rightarrow> InternalBeginScope d pl x
     | Some s \<Rightarrow> (if \<not> scope_desc_eq (sc_desc s) d then InternalBeginScope d pl x
                  else bind_res (scope_copy s x) (\<lambda>(s', x'). Inr (s', pl, x'))))"

definition InternalEndCommands :: "nat \<Rightarrow> cpool \<Rightarrow> vkctx \<Rightarrow> (cpool \<times> vkctx) res" where
  "InternalEndCommands l pl x = with_level pl l (
     bind_res (destroy_opt (cp_recording pl l) x) (\<lambda>x'.
       Inr (pl\<lparr> cp_recording := (cp_recording pl)(l := None) \<rparr>, x')))"

definition InternalEnqueueSubmitted :: "nat \<Rightarrow> u64 \<Rightarrow> cpool \<Rightarrow> cpool" where
  "InternalEnqueueSubmitted l t pl = pl\<lparr>
     cp_submitted := (cp_submitted pl)(l := cp_submitted pl l @ map (\<lambda>(a, _). (a, t)) (cp_pending pl l)),
     cp_pending := (cp_pending pl)(l := []) \<rparr>"

fun reset_list :: "cb_list \<Rightarrow> vkctx \<Rightarrow> vkctx res" where
  "reset_list [] x = Inr x"
| "reset_list ((a, t) # r) x = bind_res (array_Reset a x) (reset_list r)"

fun reset_levels :: "nat \<Rightarrow> nat \<Rightarrow> cpool \<Rightarrow> vkctx \<Rightarrow> (cpool \<times> vkctx) res" where
  "reset_levels l 0 pl x = Inr (pl, x)"
| "reset_levels l (Suc k) pl x = bind_res (reset_list (cp_submitted pl l) x) (\<lambda>x'.
     reset_levels (l + 1) k (pl\<lparr> cp_free := (cp_free pl)(l := cp_free pl l @ cp_submitted pl l),
                                 cp_submitted := (cp_submitted pl)(l := []) \<rparr>) x')"

definition CommandPool_Reset :: "cpool \<Rightarrow> vkctx \<Rightarrow> (cpool \<times> vkctx) res" where
  "CommandPool_Reset pl x =
     (let x' = (if cp_flags pl AND VK_COMMAND_POOL_CREATE_RESET_COMMAND_BUFFER_BIT \<noteq> 0
                then emit (VkResetCommandPool (cp_handle pl)) x else x)
      in reset_levels 0 (cp_levels pl) pl x')"

end
