(* ===== verification/Queue_Model.thy ===== *)
theory Queue_Model
imports Command_Buffers
begin

text \<open>
  \<open>Queue\<close> of \<open>rhi/queue.{h,inl}\<close> and \<open>rhi/vulkan/queue.{inl,cpp}\<close>: two command pools used in turn, the
  batches enqueued for submission, the pending present, and the callbacks that wait for a timeline
  value. The callbacks queue is the FIFO one producer sees. The scratch memory only lays out the
  arguments of \<open>vkQueueSubmit\<close>; the event carries the batches themselves. Profiling contexts are not
  modelled.
\<close>

section \<open>State\<close>

record host_sync =
  fences :: nat
  maxTimelineValue :: u64

record queue =
  pool0 :: cpool
  pool1 :: cpool
  pendingSubmits :: "submit_info list"
  pendingPresent :: present_info
  timelineCallbacks :: "(nat list \<times> u64) list"

definition empty_sync :: sync_info where
  "empty_sync = \<lparr> waitSemaphores = [], waitDstStageMasks = [], waitSemaphoreValues = [],
     signalSemaphores = [], signalSemaphoreValues = [], callbacks = [] \<rparr>"

definition empty_submit :: submit_info where
  "empty_submit = sync_info.extend empty_sync \<lparr> commandBuffers = [], timelineValue = 0 \<rparr>"

definition empty_present :: present_info where
  "empty_present = \<lparr> presentWaits = [], swapchains = [], imageIndices = [], results = [], presentIds = [] \<rparr>"

definition Queue_create :: "nat \<Rightarrow> nat \<Rightarrow> u32 \<Rightarrow> nat \<Rightarrow> vkctx \<Rightarrow> queue \<times> vkctx" where
  "Queue_create p p' fl levels x =
     (let (pl, x1) = CommandPool_create p fl levels x;
          (pl', x2) = CommandPool_create p' fl levels x1
      in (\<lparr> pool0 = pl, pool1 = pl', pendingSubmits = [], pendingPresent = empty_present,
            timelineCallbacks = [] \<rparr>, x2))"

section \<open>Synchronisation info\<close>

definition host_sync_or :: "host_sync \<Rightarrow> host_sync \<Rightarrow> host_sync" where
  "host_sync_or a b = \<lparr> fences = fences a + fences b,
     maxTimelineValue = max (maxTimelineValue a) (maxTimelineValue b) \<rparr>"

definition present_or :: "present_info \<Rightarrow> present_info \<Rightarrow> present_info" where
  "present_or a b = \<lparr> presentWaits = presentWaits a @ presentWaits b,
     swapchains = swapchains a @ swapchains b, imageIndices = imageIndices a @ imageIndices b,
     results = results a @ results b, presentIds = presentIds a @ presentIds b \<rparr>"

section \<open>Submission\<close>

fun gather :: "cb_list \<Rightarrow> vkctx \<Rightarrow> cb_handle list res" where
  "gather [] x = Inr []"
| "gather ((a, t) # r) x = with_array a x (\<lambda>c.
     bind_res (ensure (ca_flags c = 0)) (\<lambda>_.
     bind_res (array_Data a c) (\<lambda>hs.
     bind_res (gather r x) (\<lambda>rest. Inr (take (array_Head c) hs @ rest)))))"

fun max_element :: "u64 list \<Rightarrow> u64 res" where
  "max_element [] = Inl Undefined"
| "max_element (v # vs) = Inr (foldl max v vs)"

definition InternalPrepareSubmit :: "sync_info \<Rightarrow> queue \<Rightarrow> vkctx \<Rightarrow> (submit_info \<times> queue \<times> vkctx) res" where
  "InternalPrepareSubmit si q x =
     bind_res (InternalEndCommands 0 (pool0 q) x) (\<lambda>(pl, x1).
     let q1 = q\<lparr> pool0 := pl \<rparr> in
     if cp_pending pl 0 = [] then Inr (empty_submit, q1, x1)
     else bind_res (gather (cp_pending pl 0) x1) (\<lambda>cbs.
          bind_res (max_element (signalSemaphoreValues si)) (\<lambda>t.
          Inr (sync_info.extend si \<lparr> commandBuffers = cbs, timelineValue = t \<rparr>,
               q1\<lparr> pool0 := InternalEnqueueSubmitted 0 t pl \<rparr>, x1))))"

fun EnqueueSubmit :: "sync_info list \<Rightarrow> queue \<Rightarrow> vkctx \<Rightarrow> (queue \<times> vkctx) res" where
  "EnqueueSubmit [] q x = Inr (q, x)"
| "EnqueueSubmit (si # rest) q x = bind_res (InternalPrepareSubmit si q x) (\<lambda>(sub, q', x').
     EnqueueSubmit rest (q'\<lparr> pendingSubmits := pendingSubmits q' @ [sub] \<rparr>) x')"

fun enqueue_callbacks :: "u64 \<Rightarrow> submit_info list \<Rightarrow> (nat list \<times> u64) list \<Rightarrow> u64 \<times> (nat list \<times> u64) list" where
  "enqueue_callbacks m [] cq = (m, cq)"
| "enqueue_callbacks m (s # ss) cq =
     (let m' = max m (timelineValue s) in enqueue_callbacks m' ss (cq @ [(callbacks s, m')]))"

definition Queue_Submit :: "queue \<Rightarrow> vkctx \<Rightarrow> host_sync \<times> queue \<times> vkctx" where
  "Queue_Submit q x = (if pendingSubmits q = [] then (\<lparr> fences = 0, maxTimelineValue = 0 \<rparr>, q, x)
     else (let (m, cq) = enqueue_callbacks 0 (pendingSubmits q) (timelineCallbacks q)
           in (\<lparr> fences = 1, maxTimelineValue = m \<rparr>,
               q\<lparr> pendingSubmits := [], timelineCallbacks := cq \<rparr>,
               emit (VkQueueSubmit (pendingSubmits q)) x)))"

fun dequeue_callbacks :: "u64 \<Rightarrow> (nat list \<times> u64) list \<Rightarrow> nat list list \<times> (nat list \<times> u64) list" where
  "dequeue_callbacks t [] = ([], [])"
| "dequeue_callbacks t ((cs, v) # r) = (let (ready, waiting) = dequeue_callbacks t r in
     if t \<le> v then (ready, (cs, v) # waiting) else (cs # ready, waiting))"

definition SubmitCallbacks :: "u64 \<Rightarrow> queue \<Rightarrow> nat list list \<times> queue" where
  "SubmitCallbacks t q = (let (ready, waiting) = dequeue_callbacks t (timelineCallbacks q)
     in (ready, q\<lparr> timelineCallbacks := waiting \<rparr>))"

section \<open>Presentation\<close>

definition EnqueuePresent :: "present_info list \<Rightarrow> queue \<Rightarrow> queue" where
  "EnqueuePresent ps q = q\<lparr> pendingPresent := foldl present_or (pendingPresent q) ps \<rparr>"

definition Present :: "bool \<Rightarrow> bool \<Rightarrow> queue \<Rightarrow> vkctx \<Rightarrow> (host_sync \<times> queue \<times> vkctx) res" where
  "Present supportsFence supportsId q x = (let pp = pendingPresent q in
     bind_res (ensure (\<not> supportsId \<or> length (presentIds pp) = length (swapchains pp))) (\<lambda>_.
     bind_res (ensure (length (swapchains pp) = 1)) (\<lambda>_.
     Inr (\<lparr> fences = if supportsFence then 1 else 0, maxTimelineValue = 0 \<rparr>,
          q\<lparr> pendingPresent := empty_present \<rparr>, emit (VkQueuePresent pp) x))))"

section \<open>Secondary command buffers and pool swapping\<close>

text \<open>
  The loop of \<open>Execute\<close> walks the live pending list of the level: on level 0 \<open>Commands()\<close> may append
  an array to it (at most one, the scope it begins stays recorded), hence one step of fuel more
  than the list is long.
\<close>

fun execute_loop :: "nat \<Rightarrow> nat \<Rightarrow> nat \<Rightarrow> queue \<Rightarrow> vkctx \<Rightarrow> (queue \<times> vkctx) res" where
  "execute_loop 0 i l q x = Inr (q, x)"
| "execute_loop (Suc k) i l q x = (if i \<ge> length (cp_pending (pool0 q) l) then Inr (q, x) else
     (let a = fst (cp_pending (pool0 q) l ! i) in
     bind_res (Commands (scope_desc_default True) (pool0 q) x) (\<lambda>(s, pl, x1).
     with_array a x1 (\<lambda>c.
     bind_res (array_Data a c) (\<lambda>hs.
     (case sc_array s of None \<Rightarrow> Inl Undefined | Some b \<Rightarrow> with_array b x1 (\<lambda>cb.
       bind_res (scope_destroy s
         (emit (VkCmdExecuteCommands (cb_of b cb (sc_index s)) (take (array_Head c) hs)) x1)) (\<lambda>x2.
       execute_loop k (i + 1) l (q\<lparr> pool0 := pl \<rparr>) x2))))))))"

definition Execute :: "nat \<Rightarrow> u64 \<Rightarrow> queue \<Rightarrow> vkctx \<Rightarrow> (queue \<times> vkctx) res" where
  "Execute l t q x =
     bind_res (InternalEndCommands l (pool0 q) x) (\<lambda>(pl, x1).
     bind_res (execute_loop (length (cp_pending pl l) + 1) 0 l (q\<lparr> pool0 := pl \<rparr>) x1) (\<lambda>(q2, x2).
     Inr (q2\<lparr> pool0 := InternalEnqueueSubmitted l t (pool0 q2) \<rparr>, x2)))"

definition SwapAndResetPool :: "queue \<Rightarrow> vkctx \<Rightarrow> (queue \<times> vkctx) res" where
  "SwapAndResetPool q x =
     bind_res (ensure (pendingSubmits q = [])) (\<lambda>_.
     bind_res (ensure (presentWaits (pendingPresent q) = [])) (\<lambda>_.
     bind_res (ensure (swapchains (pendingPresent q) = [])) (\<lambda>_.
     bind_res (ensure (imageIndices (pendingPresent q) = [])) (\<lambda>_.
     bind_res (ensure (results (pendingPresent q) = [])) (\<lambda>_.
     bind_res (CommandPool_Reset (pool1 q) x) (\<lambda>(pl, x').
       Inr (q\<lparr> pool0 := pl, pool1 := pool0 q \<rparr>, x')))))))"

definition Queue_move :: "queue \<Rightarrow> queue" where
  "Queue_move q = q\<lparr> pendingPresent := empty_present, timelineCallbacks := [] \<rparr>"

definition Queue_assign :: "queue \<Rightarrow> queue \<Rightarrow> queue" where
  "Queue_assign this other = this\<lparr> pool0 := pool0 other, pool1 := pool1 other,
     pendingSubmits := pendingSubmits other, timelineCallbacks := timelineCallbacks other \<rparr>"

end
