(* ===== verification/Queue_Lifecycle.thy ===== *)
theory Queue_Lifecycle
imports Queue_Model
begin

text \<open>
  The contract between the queue and the driver. \<open>life_step\<close> is the command buffer lifecycle of the
  Vulkan specification (initial, recording, executable, pending, invalid, and the calls each state
  allows) as an automaton over driver events; \<open>qexec\<close> runs a client of one queue; \<open>qop_ok\<close> is what
  the code leaves to the client. The invariant \<open>q_inv\<close> ties the arrays' bit fields and the pool's
  lists to the automaton's state. The automaton follows the primary buffers from submission to completion; the
  secondary buffers that a primary one executes stay executable in it while the primary one is pending, so it
  does not see a secondary buffer that is reset too early.
\<close>

section \<open>The lifecycle of the Vulkan specification\<close>

datatype cb_status = InitialState | RecordingState | ExecutableState | PendingState | InvalidState

record life =
  pool_flags :: "nat \<Rightarrow> u32 option"
  statuses :: "cb_handle \<Rightarrow> cb_status option"
  allocs :: "(nat \<times> nat) list"

definition life0 :: life where
  "life0 = \<lparr> pool_flags = (\<lambda>_. None), statuses = (\<lambda>_. None), allocs = [] \<rparr>"

definition resettable :: "life \<Rightarrow> nat \<Rightarrow> bool" where
  "resettable st p = (case pool_flags st p of None \<Rightarrow> False
     | Some f \<Rightarrow> f AND VK_COMMAND_POOL_CREATE_RESET_COMMAND_BUFFER_BIT \<noteq> 0)"

definition set_status :: "cb_handle \<Rightarrow> cb_status \<Rightarrow> life \<Rightarrow> life" where
  "set_status h s st = st\<lparr> statuses := (statuses st)(h \<mapsto> s) \<rparr>"

fun move_all :: "cb_status \<Rightarrow> cb_status \<Rightarrow> cb_handle list \<Rightarrow> life \<Rightarrow> life option" where
  "move_all s s' [] st = Some st"
| "move_all s s' (h # hs) st =
     (if statuses st h = Some s then move_all s s' hs (set_status h s' st) else None)"

definition pool_idle :: "life \<Rightarrow> nat \<Rightarrow> bool" where
  "pool_idle st p = list_all (\<lambda>(q, a). q = p \<longrightarrow>
     list_all (\<lambda>i. statuses st (q, a, i) \<noteq> Some PendingState) [0..<4]) (allocs st)"

fun life_step :: "life \<Rightarrow> vk_event \<Rightarrow> life option" where
  "life_step st (VkCreateCommandPool p f) =
     (if pool_flags st p = None then Some (st\<lparr> pool_flags := (pool_flags st)(p \<mapsto> f) \<rparr>) else None)"
| "life_step st (VkAllocateCommandBuffers p a) =
     (if pool_flags st p \<noteq> None \<and> (p, a) \<notin> set (allocs st)
      then Some (st\<lparr> allocs := (p, a) # allocs st,
             statuses := (\<lambda>(q, b, i). if q = p \<and> b = a \<and> i < 4 then Some InitialState
                                    else statuses st (q, b, i)) \<rparr>) else None)"
| "life_step st (VkBeginCommandBuffer h l) =
     (if statuses st h = Some InitialState
         \<or> resettable st (fst h) \<and> statuses st h \<in> {Some ExecutableState, Some InvalidState}
      then Some (set_status h RecordingState st) else None)"
| "life_step st (VkEndCommandBuffer h) =
     (if statuses st h = Some RecordingState then Some (set_status h ExecutableState st) else None)"
| "life_step st (VkResetCommandBuffer h rel) =
     (if resettable st (fst h) \<and> statuses st h \<noteq> None \<and> statuses st h \<noteq> Some PendingState
      then Some (set_status h InitialState st) else None)"
| "life_step st (VkResetCommandPool p) =
     (if pool_flags st p \<noteq> None \<and> pool_idle st p
      then Some (st\<lparr> statuses := (\<lambda>h. if fst h = p then map_option (\<lambda>_. InitialState) (statuses st h)
                                    else statuses st h) \<rparr>) else None)"
| "life_step st (VkCmdExecuteCommands h hs) =
     (if statuses st h = Some RecordingState \<and> list_all (\<lambda>g. statuses st g = Some ExecutableState) hs
      then Some st else None)"
| "life_step st (VkQueueSubmit ss) =
     move_all ExecutableState PendingState (concat (map commandBuffers ss)) st"
| "life_step st (VkQueuePresent p) = Some st"
| "life_step st (DeviceCompleted hs) = move_all PendingState InvalidState hs st"

fun life_run :: "vk_event list \<Rightarrow> life \<Rightarrow> life option" where
  "life_run [] st = Some st"
| "life_run (e # t) st = (case life_step st e of None \<Rightarrow> None | Some st' \<Rightarrow> life_run t st')"

lemma life_run_append: "life_run (t @ u) st = (case life_run t st of None \<Rightarrow> None | Some st' \<Rightarrow> life_run u st')"
  by (induction t arbitrary: st) (auto split: option.splits)

lemma life_run_snoc: "life_run t st = Some st1 \<Longrightarrow> life_run (t @ [e]) st = life_step st1 e"
  by (auto simp: life_run_append split: option.splits)

lemma move_all_distinct:
  "distinct hs \<Longrightarrow> \<forall>h\<in>set hs. statuses st h = Some s \<Longrightarrow>
     move_all s s' hs st = Some (st\<lparr> statuses := (\<lambda>h. if h \<in> set hs then Some s' else statuses st h) \<rparr>)"
proof (induction hs arbitrary: st)
  case (Cons h hs)
  then have "move_all s s' hs (set_status h s' st) = Some ((set_status h s' st)\<lparr> statuses :=
      (\<lambda>g. if g \<in> set hs then Some s' else statuses (set_status h s' st) g) \<rparr>)"
    by (intro Cons.IH) (auto simp: set_status_def)
  then show ?case using Cons.prems by (auto simp: set_status_def fun_eq_iff)
qed simp

lemma move_all_effect:
  "move_all s s' hs st = Some st' \<Longrightarrow> st' = st\<lparr> statuses := (\<lambda>h. if h \<in> set hs then Some s' else statuses st h) \<rparr>
     \<and> (s \<noteq> s' \<longrightarrow> (\<forall>h\<in>set hs. statuses st h = Some s))"
proof (induction hs arbitrary: st)
  case (Cons h hs)
  then have h: "statuses st h = Some s" and m: "move_all s s' hs (set_status h s' st) = Some st'"
    by (auto split: if_splits)
  from Cons.IH [OF m] show ?case using h
    by (auto simp: set_status_def fun_eq_iff split: if_splits)
qed auto

section \<open>A client of one queue\<close>

record qstate =
  qs_queue :: queue
  qs_ctx :: vkctx
  qs_held :: "scope list"

datatype qop =
    QCommands scope_desc
  | QCopy nat
  | QDrop nat
  | QEnqueueSubmit "sync_info list"
  | QSubmit
  | QCompleted "cb_handle list"
  | QSwapAndResetPool
  | QEnd nat
  | QExecute nat u64
  | QEnqueuePresent "present_info list"
  | QPresent bool bool

definition vkctx0 :: vkctx where
  "vkctx0 = \<lparr> arrays = (\<lambda>_. None), refs = (\<lambda>_. None), fresh_array = 0, fresh_ref = 0, calls = [] \<rparr>"

definition q_init :: "u32 \<Rightarrow> nat \<Rightarrow> qstate" where
  "q_init fl levels = (let (q, x) = Queue_create 0 1 fl levels vkctx0
     in \<lparr> qs_queue = q, qs_ctx = x, qs_held = [] \<rparr>)"

fun qexec :: "qop \<Rightarrow> qstate \<Rightarrow> qstate res" where
  "qexec (QCommands d) s = bind_res (Commands d (pool0 (qs_queue s)) (qs_ctx s)) (\<lambda>(c, pl, x).
     Inr \<lparr> qs_queue = (qs_queue s)\<lparr> pool0 := pl \<rparr>, qs_ctx = x, qs_held = qs_held s @ [c] \<rparr>)"
| "qexec (QCopy i) s = bind_res (at_res (qs_held s) i) (\<lambda>c. bind_res (scope_copy c (qs_ctx s)) (\<lambda>(c', x).
     Inr (s\<lparr> qs_ctx := x, qs_held := qs_held s @ [c'] \<rparr>)))"
| "qexec (QDrop i) s = bind_res (at_res (qs_held s) i) (\<lambda>c. bind_res (scope_destroy c (qs_ctx s)) (\<lambda>x.
     Inr (s\<lparr> qs_ctx := x, qs_held := erase_at i (qs_held s) \<rparr>)))"
| "qexec (QEnqueueSubmit ss) s = bind_res (EnqueueSubmit ss (qs_queue s) (qs_ctx s)) (\<lambda>(q, x).
     Inr (s\<lparr> qs_queue := q, qs_ctx := x \<rparr>))"
| "qexec QSubmit s = (let (h, q, x) = Queue_Submit (qs_queue s) (qs_ctx s)
     in Inr (s\<lparr> qs_queue := q, qs_ctx := x \<rparr>))"
| "qexec (QCompleted hs) s = Inr (s\<lparr> qs_ctx := emit (DeviceCompleted hs) (qs_ctx s) \<rparr>)"
| "qexec QSwapAndResetPool s = bind_res (SwapAndResetPool (qs_queue s) (qs_ctx s)) (\<lambda>(q, x).
     Inr (s\<lparr> qs_queue := q, qs_ctx := x \<rparr>))"
| "qexec (QEnd i) s = bind_res (at_res (qs_held s) i) (\<lambda>c. bind_res (scope_End c (qs_ctx s)) (\<lambda>x.
     Inr (s\<lparr> qs_ctx := x \<rparr>)))"
| "qexec (QExecute l t) s = bind_res (Execute l t (qs_queue s) (qs_ctx s)) (\<lambda>(q, x).
     Inr (s\<lparr> qs_queue := q, qs_ctx := x \<rparr>))"
| "qexec (QEnqueuePresent ps) s = Inr (s\<lparr> qs_queue := EnqueuePresent ps (qs_queue s) \<rparr>)"
| "qexec (QPresent fence ids) s = bind_res (Present fence ids (qs_queue s) (qs_ctx s)) (\<lambda>(h, q, x).
     Inr (s\<lparr> qs_queue := q, qs_ctx := x \<rparr>))"

text \<open>The buffers of a level have ended, and the primary one the pool records in, if any, is open.\<close>

definition level_ended :: "vkctx \<Rightarrow> cpool \<Rightarrow> nat \<Rightarrow> bool" where
  "level_ended x pl l \<longleftrightarrow> list_all (\<lambda>(a, t). case arrays x a of None \<Rightarrow> False | Some c \<Rightarrow> ca_flags c = 0) (cp_pending pl l)"

definition scope_open :: "vkctx \<Rightarrow> scope \<Rightarrow> bool" where
  "scope_open x s \<longleftrightarrow> (case (sc_ref s, sc_array s) of
       (Some r, Some a) \<Rightarrow> (case (refs x r, arrays x a) of
           (Some n, Some c) \<Rightarrow> n \<noteq> 0 \<and> sc_index s < 4 \<and> array_Recording c (sc_index s)
         | _ \<Rightarrow> False)
     | _ \<Rightarrow> False)"

definition primary_ready :: "cpool \<Rightarrow> vkctx \<Rightarrow> bool" where
  "primary_ready pl x \<longleftrightarrow> (case cp_recording pl 0 of None \<Rightarrow> True
     | Some s \<Rightarrow> scope_desc_eq (sc_desc s) (scope_desc_default True) \<and> sd_scopedBeginEnd (sc_desc s) \<and> scope_open x s)"

definition execute_ok :: "nat \<Rightarrow> queue \<Rightarrow> vkctx \<Rightarrow> bool" where
  "execute_ok l q x \<longleftrightarrow> l \<noteq> 0 \<and> (case InternalEndCommands l (pool0 q) x of Inl e \<Rightarrow> True
     | Inr (pl, x') \<Rightarrow> primary_ready pl x' \<and> level_ended x' pl l)"

text \<open>
  The part of the contract the code leaves to its client: a completion names work that is pending on
  the device, the pools are swapped when everything recorded has been enqueued, the pool that
  is reset has no work pending, and secondary buffers are executed when they have ended, into a primary one
  that is open.
\<close>

fun qop_ok :: "qop \<Rightarrow> qstate \<Rightarrow> bool" where
  "qop_ok (QCompleted hs) s = (case life_run (calls (qs_ctx s)) life0 of None \<Rightarrow> False
     | Some st \<Rightarrow> (case move_all PendingState InvalidState hs st of None \<Rightarrow> False | Some _ \<Rightarrow> True))"
| "qop_ok QSwapAndResetPool s = (case life_run (calls (qs_ctx s)) life0 of None \<Rightarrow> False
     | Some st \<Rightarrow> pool_idle st (cp_handle (pool1 (qs_queue s)))
         \<and> list_all (\<lambda>l. cp_pending (pool0 (qs_queue s)) l = []) [0..<cp_levels (pool0 (qs_queue s))])"
| "qop_ok (QExecute l t) s = execute_ok l (qs_queue s) (qs_ctx s)"
| "qop_ok op s = True"

fun qruns :: "qop list \<Rightarrow> qstate \<Rightarrow> qstate res" where
  "qruns [] s = Inr s"
| "qruns (op # ops) s = bind_res (qexec op s) (qruns ops)"

fun q_protocol :: "qop list \<Rightarrow> qstate \<Rightarrow> bool" where
  "q_protocol [] s = True"
| "q_protocol (op # ops) s = (qop_ok op s \<and> (case qexec op s of Inl e \<Rightarrow> True | Inr s' \<Rightarrow> q_protocol ops s'))"

definition primary_begun :: "vk_event list \<Rightarrow> cb_handle list" where
  "primary_begun t = concat (map (\<lambda>e. case e of VkBeginCommandBuffer h l \<Rightarrow> if l = 0 then [h] else [] | _ \<Rightarrow> []) t)"

definition handed_over :: "vk_event list \<Rightarrow> cb_handle list" where
  "handed_over t = concat (map (\<lambda>e. case e of VkQueueSubmit ss \<Rightarrow> concat (map commandBuffers ss) | _ \<Rightarrow> []) t)"

definition recorded_in :: "vkctx \<Rightarrow> cb_list \<Rightarrow> cb_handle list" where
  "recorded_in x ps = concat (map (\<lambda>(a, t). case arrays x a of None \<Rightarrow> []
     | Some c \<Rightarrow> map (cb_of a c) [0..<array_Head c]) ps)"

section \<open>The invariant\<close>

datatype kind = KPending | KSubmitted | KFree

definition pool_list :: "cpool \<Rightarrow> kind \<Rightarrow> nat \<Rightarrow> nat list" where
  "pool_list pl k l = map fst (case k of KPending \<Rightarrow> cp_pending pl l | KSubmitted \<Rightarrow> cp_submitted pl l
     | KFree \<Rightarrow> cp_free pl l)"

definition pool_of :: "queue \<Rightarrow> bool \<Rightarrow> cpool" where
  "pool_of q b = (if b then pool1 q else pool0 q)"

definition status_ok :: "kind \<Rightarrow> bool \<Rightarrow> bool \<Rightarrow> cb_status option \<Rightarrow> bool" where
  "status_ok k used recording s = (case (k, used) of
       (KPending, True) \<Rightarrow> s = Some (if recording then RecordingState else ExecutableState)
     | (KSubmitted, True) \<Rightarrow> \<not> recording \<and> s \<in> {Some ExecutableState, Some PendingState, Some InvalidState}
     | (KFree, True) \<Rightarrow> False
     | (_, False) \<Rightarrow> \<not> recording \<and> s = Some InitialState)"

definition array_ok :: "life \<Rightarrow> kind \<Rightarrow> nat \<Rightarrow> cbarray \<Rightarrow> bool" where
  "array_ok st k a c \<longleftrightarrow> \<not> ca_useReset c \<and>
     (\<forall>i<4. status_ok k (i < array_Head c) (bit (ca_flags c) i) (statuses st (cb_of a c i)))"

definition listed :: "queue \<Rightarrow> vkctx \<Rightarrow> life \<Rightarrow> bool \<Rightarrow> kind \<Rightarrow> nat \<Rightarrow> nat \<Rightarrow> bool" where
  "listed q x st b k l a \<longleftrightarrow> l < cp_levels (pool_of q b) \<and> (\<exists>c. arrays x a = Some c
     \<and> ca_pool c = cp_handle (pool_of q b) \<and> ca_level c = l \<and> array_ok st k a c)"

definition lists_ok :: "queue \<Rightarrow> vkctx \<Rightarrow> life \<Rightarrow> bool" where
  "lists_ok q x st \<longleftrightarrow> (\<forall>b k l a. a \<in> set (pool_list (pool_of q b) k l) \<longrightarrow> listed q x st b k l a)"

definition lists_apart :: "queue \<Rightarrow> bool" where
  "lists_apart q \<longleftrightarrow> (\<forall>b k l. distinct (pool_list (pool_of q b) k l)) \<and>
     (\<exists>place. \<forall>b k l a. a \<in> set (pool_list (pool_of q b) k l) \<longrightarrow> place a = (b, k, l))"

definition store_ok :: "queue \<Rightarrow> vkctx \<Rightarrow> life \<Rightarrow> bool" where
  "store_ok q x st \<longleftrightarrow> (\<forall>a c. arrays x a = Some c \<longrightarrow> a < fresh_array x \<and> (\<exists>b k l. a \<in> set (pool_list (pool_of q b) k l)))
     \<and> (\<forall>p a. (p, a) \<in> set (allocs st) \<longrightarrow> a < fresh_array x)
     \<and> (\<forall>p a i. statuses st (p, a, i) \<noteq> None \<longrightarrow> (p, a) \<in> set (allocs st) \<and> i < 4)"

definition pool_known :: "cpool \<Rightarrow> life \<Rightarrow> bool" where
  "pool_known pl st \<longleftrightarrow> pool_flags st (cp_handle pl) \<noteq> None
     \<and> cp_flags pl AND VK_COMMAND_POOL_CREATE_RESET_COMMAND_BUFFER_BIT \<noteq> 0"

definition pools_ok :: "queue \<Rightarrow> life \<Rightarrow> bool" where
  "pools_ok q st \<longleftrightarrow> cp_handle (pool0 q) \<noteq> cp_handle (pool1 q) \<and> pool_known (pool0 q) st
     \<and> pool_known (pool1 q) st \<and> (\<forall>l. cp_pending (pool1 q) l = [])"

definition queued :: "queue \<Rightarrow> cb_handle list" where
  "queued q = concat (map commandBuffers (pendingSubmits q))"

definition queued_ok :: "queue \<Rightarrow> life \<Rightarrow> bool" where
  "queued_ok q st \<longleftrightarrow> distinct (queued q) \<and> (\<forall>h\<in>set (queued q). statuses st h = Some ExecutableState
     \<and> (\<exists>l. fst (snd h) \<in> set (pool_list (pool0 q) KSubmitted l)))"

definition order_ok :: "queue \<Rightarrow> vkctx \<Rightarrow> bool" where
  "order_ok q x \<longleftrightarrow> primary_begun (calls x) = handed_over (calls x) @ queued q @ recorded_in x (cp_pending (pool0 q) 0)"

definition q_inv :: "queue \<Rightarrow> vkctx \<Rightarrow> life \<Rightarrow> bool" where
  "q_inv q x st \<longleftrightarrow> life_run (calls x) life0 = Some st \<and> lists_ok q x st \<and> lists_apart q \<and> store_ok q x st
     \<and> pools_ok q st \<and> queued_ok q st \<and> order_ok q x"

end
