(* ===== verification/Queue_Safety.thy ===== *)
theory Queue_Safety
imports Queue_Lifecycle
begin

text \<open>
  The queue's code respects the command buffer lifecycle: \<open>q_inv\<close> holds initially and every
  operation of a client that keeps the protocol preserves it.
\<close>

section \<open>Bit fields of an array\<close>

lemma array_Recording_bit: "array_Recording c i \<longleftrightarrow> bit (ca_flags c) i"
  by (simp add: array_Recording_def bit_iff_and_push_bit_not_eq_0)

lemma flags_zero_bits: "ca_flags c = 0 \<longleftrightarrow> (\<forall>i<4. \<not> bit (ca_flags c) i)"
  by (auto intro: bit_word_eqI)

lemma bit_begin: "h < 4 \<Longrightarrow> bit ((f :: 4 word) OR push_bit h 1) i \<longleftrightarrow> bit f i \<or> i = h"
  by (auto simp: bit_simps)

lemma bit_end: "bit ((f :: 4 word) AND NOT (push_bit h 1)) i \<longleftrightarrow> bit f i \<and> i \<noteq> h"
  by (auto simp: bit_simps dest: bit_imp_le_length)

lemmas bit_begin_end = bit_begin bit_begin [simplified] bit_end bit_end [simplified]

lemma head_inc: "unat (w :: 2 word) + 1 < 4 \<Longrightarrow> unat (w + 1) = unat w + 1"
  by (simp add: unat_word_ariths)

lemma array_Head_less: "array_Head c < 4"
  using unsigned_less [of "ca_head c"] by (simp add: array_Head_def)

lemma array_ok_recording: "array_ok st k a c \<Longrightarrow> i < 4 \<Longrightarrow> bit (ca_flags c) i \<Longrightarrow>
    k = KPending \<and> i < array_Head c \<and> statuses st (cb_of a c i) = Some RecordingState"
  by (cases k; cases "i < array_Head c") (auto simp: array_ok_def status_ok_def)

lemma array_ok_flags_zero: "array_ok st k a c \<Longrightarrow> k \<noteq> KPending \<Longrightarrow> ca_flags c = 0"
  using array_ok_recording flags_zero_bits by blast

lemma array_okD: "array_ok st k a c \<Longrightarrow> j < 4 \<Longrightarrow>
    status_ok k (j < array_Head c) (bit (ca_flags c) j) (statuses st (ca_pool c, a, j))"
  by (simp add: array_ok_def cb_of_def)

lemma array_ok_cong: "(\<And>i. statuses st' (ca_pool c, a, i) = statuses st (ca_pool c, a, i)) \<Longrightarrow>
    array_ok st k a c \<Longrightarrow> array_ok st' k a c"
  by (simp add: array_ok_def cb_of_def)

section \<open>Changing one array\<close>

lemma apart_unique: "lists_apart q \<Longrightarrow> a \<in> set (pool_list (pool_of q b) k l) \<Longrightarrow>
    a \<in> set (pool_list (pool_of q b') k' l') \<Longrightarrow> b = b' \<and> k = k' \<and> l = l'"
  unfolding lists_apart_def by (metis prod.inject)

lemma apart_distinct: "lists_apart q \<Longrightarrow> distinct (pool_list (pool_of q b) k l)"
  unfolding lists_apart_def by blast

lemma lists_ok_update:
  assumes "lists_ok q x st" "lists_apart q" "a \<in> set (pool_list (pool_of q b) k l)" "arrays x a = Some c"
    and "ca_pool c' = ca_pool c" "ca_level c' = ca_level c" "array_ok st' k a c'"
    and frame: "\<And>p d i. d \<noteq> a \<Longrightarrow> statuses st' (p, d, i) = statuses st (p, d, i)"
    and x': "arrays x' = (arrays x)(a \<mapsto> c')"
  shows "lists_ok q x' st'"
  unfolding lists_ok_def
proof (intro allI impI)
  fix b' k' l' d
  assume d: "d \<in> set (pool_list (pool_of q b') k' l')"
  with assms(1) have L: "listed q x st b' k' l' d" by (simp add: lists_ok_def)
  show "listed q x' st' b' k' l' d"
  proof (cases "d = a")
    case True
    with d assms(2,3) have "b' = b" "k' = k" "l' = l" by (auto dest: apart_unique)
    with L True assms(4-7) x' show ?thesis by (auto simp: listed_def)
  next
    case False
    with L x' show ?thesis by (auto simp: listed_def intro: array_ok_cong [OF frame])
  qed
qed

lemma store_ok_update:
  assumes "store_ok q x st" "arrays x a = Some c" "arrays x' = (arrays x)(a \<mapsto> c')"
    and "fresh_array x' = fresh_array x" "allocs st' = allocs st"
    and "\<And>h. (statuses st' h = None) = (statuses st h = None)"
  shows "store_ok q x' st'"
proof -
  have "\<exists>b k l. a \<in> set (pool_list (pool_of q b) k l)" "a < fresh_array x"
    using assms(1,2) unfolding store_ok_def by blast+
  moreover have "d < fresh_array x \<and> (\<exists>b k l. d \<in> set (pool_list (pool_of q b) k l))" if "arrays x d = Some e" for d e
    using that assms(1) unfolding store_ok_def by blast
  ultimately show ?thesis using assms(1,3-6) unfolding store_ok_def by (auto split: if_splits)
qed

lemma queued_ok_frame:
  "queued_ok q st \<Longrightarrow> (\<And>h. h \<in> set (queued q) \<Longrightarrow> statuses st' h = statuses st h) \<Longrightarrow> queued_ok q st'"
  by (simp add: queued_ok_def)

lemma queued_not_pending:
  assumes "queued_ok q st" "lists_apart q" "a \<in> set (pool_list (pool_of q b) KPending l)" "h \<in> set (queued q)"
  shows "fst (snd h) \<noteq> a"
proof
  assume "fst (snd h) = a"
  then obtain l' where "a \<in> set (pool_list (pool_of q False) KSubmitted l')"
    using assms(1,4) by (auto simp: queued_ok_def pool_of_def)
  with assms(2,3) show False using apart_unique by blast
qed

lemma recorded_in_cong:
  "(\<And>a. a \<in> fst ` set ps \<Longrightarrow> map_option (\<lambda>c. (ca_pool c, ca_head c)) (arrays x a)
       = map_option (\<lambda>c. (ca_pool c, ca_head c)) (arrays x' a)) \<Longrightarrow> recorded_in x ps = recorded_in x' ps"
  unfolding recorded_in_def
  by (rule arg_cong [where f = concat], rule map_cong [OF refl])
    (force simp: cb_of_def array_Head_def split: option.splits)

lemma recorded_in_append: "recorded_in x (ps @ qs) = recorded_in x ps @ recorded_in x qs"
  by (simp add: recorded_in_def)

section \<open>Begin and End\<close>

lemma array_Begin_cases:
  assumes "array_Begin a x = Inr (i, x')"
  obtains c where "arrays x a = Some c" "array_Head c < 3" "i = array_Head c" "\<not> bit (ca_flags c) (array_Head c)"
    "x' = put_array a (c\<lparr> ca_flags := ca_flags c OR push_bit (array_Head c) 1, ca_head := ca_head c + 1 \<rparr>)
           (emit (VkBeginCommandBuffer (cb_of a c (array_Head c)) (ca_level c)) x)"
  using assms by (auto simp: array_Begin_def with_array_def array_Recording_bit array_Full_def
      kCommandBufferCount_def split: option.splits if_splits)

lemma array_End_cases:
  assumes "array_End a i x = Inr x'"
  obtains c where "arrays x a = Some c" "bit (ca_flags c) i" "i < 4"
    "x' = emit (VkEndCommandBuffer (cb_of a c i)) (put_array a (c\<lparr> ca_flags := ca_flags c AND NOT (push_bit i 1) \<rparr>) x)"
  using assms by (auto simp: array_End_def with_array_def array_Recording_bit
      kCommandBufferCount_def split: option.splits if_splits)

lemma store_listed:
  assumes "q_inv q x st" "arrays x a = Some c"
  obtains b k l where "a \<in> set (pool_list (pool_of q b) k l)" "l < cp_levels (pool_of q b)"
    "ca_pool c = cp_handle (pool_of q b)" "ca_level c = l" "array_ok st k a c"
proof -
  from assms obtain b k l where "a \<in> set (pool_list (pool_of q b) k l)"
    unfolding q_inv_def store_ok_def by blast
  moreover from this assms have "listed q x st b k l a" unfolding q_inv_def lists_ok_def by blast
  ultimately show ?thesis using assms(2) that by (auto simp: listed_def)
qed

lemma array_End_inv:
  assumes inv: "q_inv q x st" and e: "array_End a i x = Inr x'"
  shows "\<exists>st'. q_inv q x' st'"
proof -
  from e obtain c where c: "arrays x a = Some c" "bit (ca_flags c) i" "i < 4"
    and x': "x' = emit (VkEndCommandBuffer (cb_of a c i))
                   (put_array a (c\<lparr> ca_flags := ca_flags c AND NOT (push_bit i 1) \<rparr>) x)"
    by (rule array_End_cases)
  from inv c(1) obtain b k l where m: "a \<in> set (pool_list (pool_of q b) k l)" and ok: "array_ok st k a c"
    by (rule store_listed)
  from array_ok_recording [OF ok c(3,2)] have k: "k = KPending" "i < array_Head c"
    and rec: "statuses st (cb_of a c i) = Some RecordingState" by auto
  define c' where "c' = c\<lparr> ca_flags := ca_flags c AND NOT (push_bit i 1) \<rparr>"
  define st' where "st' = set_status (cb_of a c i) ExecutableState st"
  have arr: "arrays x' = (arrays x)(a \<mapsto> c')" by (simp add: x' emit_def put_array_def c'_def)
  have run: "life_run (calls x') life0 = Some st'"
    using inv rec by (simp add: x' emit_def put_array_def life_run_snoc q_inv_def st'_def)
  have "status_ok k (j < array_Head c) (bit (ca_flags c) j \<and> j \<noteq> i) (statuses st' (ca_pool c, a, j))" if "j < 4" for j
    using array_okD [OF ok that] k
    by (cases "j = i") (auto simp: status_ok_def st'_def set_status_def cb_of_def)
  then have ok': "array_ok st' k a c'"
    using ok unfolding array_ok_def c'_def by (simp add: bit_begin_end cb_of_def array_Head_def)
  have l: "lists_ok q x' st'"
    using inv m c ok' arr
    by (rule_tac lists_ok_update [where x = x and a = a and c = c and c' = c' and st = st])
      (auto simp: q_inv_def c'_def st'_def set_status_def cb_of_def)
  have s: "store_ok q x' st'"
    using inv c rec arr by (rule_tac store_ok_update [where x = x and a = a and c = c and st = st])
      (auto simp: q_inv_def x' emit_def put_array_def st'_def set_status_def)
  have qd: "queued_ok q st'"
    using inv m k by (rule_tac queued_ok_frame [of q st])
      (auto simp: q_inv_def st'_def set_status_def cb_of_def dest!: queued_not_pending)
  have "recorded_in x' (cp_pending (pool0 q) 0) = recorded_in x (cp_pending (pool0 q) 0)"
    by (rule recorded_in_cong) (auto simp: arr c c'_def)
  then have o: "order_ok q x'"
    using inv by (simp add: q_inv_def order_ok_def x' emit_def put_array_def primary_begun_def handed_over_def)
  from run l s qd o inv show ?thesis by (auto simp: q_inv_def pools_ok_def pool_known_def st'_def set_status_def)
qed

lemma array_Begin_inv:
  assumes inv: "q_inv q x st" and e: "array_Begin a x = Inr (i, x')"
    and last: "cp_pending (pool0 q) l \<noteq> []" "a = fst (last (cp_pending (pool0 q) l))"
  shows "\<exists>st'. q_inv q x' st'"
proof -
  from e obtain c where c: "arrays x a = Some c" "array_Head c < 3" "\<not> bit (ca_flags c) (array_Head c)"
    and x': "x' = put_array a (c\<lparr> ca_flags := ca_flags c OR push_bit (array_Head c) 1, ca_head := ca_head c + 1 \<rparr>)
           (emit (VkBeginCommandBuffer (cb_of a c (array_Head c)) (ca_level c)) x)"
    by (rule array_Begin_cases)
  have m: "a \<in> set (pool_list (pool_of q False) KPending l)"
    using last by (auto simp: pool_list_def pool_of_def)
  with inv have "listed q x st False KPending l a" unfolding q_inv_def lists_ok_def by blast
  then have ok: "array_ok st KPending a c" and lv: "ca_level c = l" using c by (auto simp: listed_def)
  define h where "h = cb_of a c (array_Head c)"
  have ini: "statuses st h = Some InitialState"
    using ok c(2) array_Head_less [of c] unfolding array_ok_def status_ok_def h_def
    by (auto dest!: spec [of _ "array_Head c"])
  define c' where "c' = c\<lparr> ca_flags := ca_flags c OR push_bit (array_Head c) 1, ca_head := ca_head c + 1 \<rparr>"
  have hd: "array_Head c' = array_Head c + 1" using c(2) by (simp add: c'_def array_Head_def head_inc)
  define st' where "st' = set_status h RecordingState st"
  have arr: "arrays x' = (arrays x)(a \<mapsto> c')" by (simp add: x' emit_def put_array_def c'_def)
  have run: "life_run (calls x') life0 = Some st'"
    using inv ini by (simp add: x' emit_def put_array_def life_run_snoc q_inv_def st'_def h_def)
  have "status_ok KPending (j < array_Head c + 1) (bit (ca_flags c) j \<or> j = array_Head c)
          (statuses st' (ca_pool c, a, j))" if "j < 4" for j
    using array_okD [OF ok that] c(2)
    by (cases "j = array_Head c"; cases "j < array_Head c")
      (auto simp: status_ok_def st'_def set_status_def h_def cb_of_def)
  then have ok': "array_ok st' KPending a c'"
    using ok c(2) unfolding array_ok_def hd by (simp add: c'_def cb_of_def bit_begin_end)
  have l: "lists_ok q x' st'"
    using inv m c ok' arr
    by (rule_tac lists_ok_update [where x = x and a = a and c = c and c' = c' and st = st])
      (auto simp: q_inv_def c'_def st'_def set_status_def h_def cb_of_def)
  have s: "store_ok q x' st'"
    using inv c ini arr by (rule_tac store_ok_update [where x = x and a = a and c = c and st = st])
      (auto simp: q_inv_def x' emit_def put_array_def st'_def set_status_def)
  have qd: "queued_ok q st'"
    using inv m by (rule_tac queued_ok_frame [of q st])
      (auto simp: q_inv_def st'_def set_status_def h_def cb_of_def dest!: queued_not_pending)
  have apart: "l' = l" if "a \<in> fst ` set (cp_pending (pool0 q) l')" for l'
  proof -
    have "a \<in> set (pool_list (pool_of q False) KPending l')" using that by (simp add: pool_list_def pool_of_def)
    with m inv show ?thesis unfolding q_inv_def using apart_unique by blast
  qed
  have "recorded_in x' (cp_pending (pool0 q) 0) = recorded_in x (cp_pending (pool0 q) 0) @ (if l = 0 then [h] else [])"
  proof (cases "l = 0")
    case True
    define ps where "ps = butlast (cp_pending (pool0 q) 0)"
    obtain t where ps: "cp_pending (pool0 q) 0 = ps @ [(a, t)]"
      using last True unfolding ps_def by (metis append_butlast_last_id prod.collapse)
    have "distinct (pool_list (pool_of q False) KPending 0)" using inv by (simp add: q_inv_def apart_distinct)
    then have "a \<notin> fst ` set ps" by (simp add: pool_list_def pool_of_def ps)
    then have "recorded_in x' ps = recorded_in x ps" by (intro recorded_in_cong) (auto simp: arr)
    moreover have "map (cb_of a c') [0..<array_Head c'] = map (cb_of a c) [0..<array_Head c] @ [h]"
      unfolding hd by (simp add: h_def cb_of_def c'_def)
    then have "recorded_in x' [(a, t)] = recorded_in x [(a, t)] @ [h]"
      by (simp add: recorded_in_def arr c)
    ultimately show ?thesis using True by (simp add: ps recorded_in_append)
  next
    case False
    then have "recorded_in x' (cp_pending (pool0 q) 0) = recorded_in x (cp_pending (pool0 q) 0)"
      using apart by (intro recorded_in_cong) (auto simp: arr)
    with False show ?thesis by simp
  qed
  then have o: "order_ok q x'"
    using inv by (simp add: q_inv_def order_ok_def x' emit_def put_array_def primary_begun_def handed_over_def lv h_def)
  from run l s qd o inv show ?thesis by (auto simp: q_inv_def pools_ok_def pool_known_def st'_def set_status_def)
qed

section \<open>Scopes\<close>

lemma q_inv_ctx:
  "q_inv q x st \<Longrightarrow> arrays x' = arrays x \<Longrightarrow> fresh_array x' = fresh_array x \<Longrightarrow> calls x' = calls x \<Longrightarrow> q_inv q x' st"
  by (simp add: q_inv_def lists_ok_def listed_def store_ok_def order_ok_def recorded_in_def)

lemma q_inv_queue:
  assumes inv: "q_inv q x st" and L: "\<And>b k l. pool_list (pool_of q' b) k l = pool_list (pool_of q b) k l"
    and H: "\<And>b. cp_handle (pool_of q' b) = cp_handle (pool_of q b) \<and> cp_levels (pool_of q' b) = cp_levels (pool_of q b)
        \<and> cp_flags (pool_of q' b) = cp_flags (pool_of q b)"
    and P: "queued q' = queued q" "\<And>b. cp_pending (pool_of q' b) = cp_pending (pool_of q b)"
  shows "q_inv q' x st"
proof -
  have "lists_ok q' x st" using inv by (simp add: q_inv_def lists_ok_def listed_def L H)
  moreover have "lists_apart q'" using inv by (simp add: q_inv_def lists_apart_def L)
  moreover have "store_ok q' x st" using inv by (simp add: q_inv_def store_ok_def L)
  moreover have "pools_ok q' st"
    using inv P(2) [of True] H [of True] H [of False] by (simp add: q_inv_def pools_ok_def pool_known_def pool_of_def)
  moreover have "queued_ok q' st"
    using inv L [of False] unfolding q_inv_def queued_ok_def P(1) by (simp add: pool_of_def)
  moreover have "order_ok q' x"
    using inv P(2) [of False] unfolding q_inv_def order_ok_def P(1) by (simp add: pool_of_def)
  ultimately show ?thesis using inv by (simp add: q_inv_def)
qed

lemma q_inv_recording: "q_inv q x st \<Longrightarrow> q_inv (q\<lparr> pool0 := (pool0 q)\<lparr> cp_recording := f \<rparr> \<rparr>) x st"
  by (erule q_inv_queue) (auto simp: pool_list_def pool_of_def queued_def cong: kind.case_cong)

lemma scope_destroy_inv:
  assumes "q_inv q x st" "scope_destroy s x = Inr x'"
  shows "\<exists>st'. q_inv q x' st'"
proof -
  have "q_inv q (x\<lparr> refs := f \<rparr>) st" for f by (rule q_inv_ctx [OF assms(1)]) simp_all
  with assms show ?thesis
    by (fastforce simp: scope_destroy_def with_array_def Let_def split: option.splits if_splits dest: array_End_inv)
qed

lemma destroy_opt_inv: "q_inv q x st \<Longrightarrow> destroy_opt so x = Inr x' \<Longrightarrow> \<exists>st'. q_inv q x' st'"
  by (auto simp: destroy_opt_def scope_destroy_inv split: option.splits)

lemma scope_copy_inv: "q_inv q x st \<Longrightarrow> scope_copy s x = Inr (s', x') \<Longrightarrow> q_inv q x' st"
  by (auto simp: scope_copy_def split: option.splits intro: q_inv_ctx)

lemma scope_construct_inv:
  assumes "q_inv q x st" "scope_construct (fst (last (cp_pending (pool0 q) l))) d x = Inr (s, x')"
    and "cp_pending (pool0 q) l \<noteq> []"
  shows "\<exists>st'. q_inv q x' st'"
proof -
  have "q_inv q (x\<lparr> refs := f, fresh_ref := r \<rparr>) st" for f r by (rule q_inv_ctx [OF assms(1)]) simp_all
  then show ?thesis using assms(2,3)
    by (auto simp: scope_construct_def bind_res_Inr Let_def split: if_splits dest: array_Begin_inv)
qed

section \<open>A new pending array\<close>

lemma enqueue_free_inv:
  assumes inv: "q_inv q x st" and f: "cp_free (pool0 q) l = e # rest"
  shows "q_inv (q\<lparr> pool0 := (pool0 q)\<lparr> cp_pending := (cp_pending (pool0 q))(l := cp_pending (pool0 q) l @ [e]),
     cp_free := (cp_free (pool0 q))(l := rest) \<rparr> \<rparr>) x st" (is "q_inv ?q x st")
proof -
  obtain a t where e: "e = (a, t)" by force
  have mem: "d \<in> set (pool_list (pool_of ?q b) k j) \<longleftrightarrow>
      (if d = a then (b, k, j) = (False, KPending, l) else d \<in> set (pool_list (pool_of q b) k j))" for d b k j
  proof -
    have "a \<in> set (pool_list (pool_of q False) KFree l)" by (simp add: pool_list_def pool_of_def f e)
    then have u: "a \<in> set (pool_list (pool_of q b) k j) \<longleftrightarrow> (b, k, j) = (False, KFree, l)"
      using inv apart_unique unfolding q_inv_def by blast
    have "distinct (pool_list (pool_of q False) KFree l)" using inv by (simp add: q_inv_def apart_distinct)
    then have "a \<notin> fst ` set rest" by (simp add: pool_list_def pool_of_def f e)
    then show ?thesis using u
      by (cases b; cases k; cases "j = l") (auto simp: pool_list_def pool_of_def f e)
  qed
  have af: "a \<in> set (pool_list (pool_of q False) KFree l)" by (simp add: pool_list_def pool_of_def f e)
  then have L: "listed q x st False KFree l a" using inv by (simp add: q_inv_def lists_ok_def)
  then obtain c where c: "arrays x a = Some c" "array_ok st KFree a c" by (auto simp: listed_def)
  have head: "array_Head c = 0"
    using array_okD [OF c(2), of 0] by (cases "array_Head c") (auto simp: status_ok_def)
  have "array_ok st KPending a c"
    using c(2) unfolding array_ok_def head by (simp add: status_ok_def)
  then have L': "listed ?q x st False KPending l a" using L c by (auto simp: listed_def pool_of_def)
  have "lists_ok ?q x st"
    unfolding lists_ok_def
  proof (intro allI impI)
    fix b k j d assume d: "d \<in> set (pool_list (pool_of ?q b) k j)"
    show "listed ?q x st b k j d"
    proof (cases "d = a")
      case True with d L' show ?thesis by (auto simp: mem)
    next
      case False
      with d have "d \<in> set (pool_list (pool_of q b) k j)" by (simp only: mem if_False)
      with inv have "listed q x st b k j d" by (simp add: q_inv_def lists_ok_def)
      then show ?thesis by (auto simp: listed_def pool_of_def)
    qed
  qed
  moreover have "lists_apart ?q"
  proof -
    obtain place where p: "\<And>b k j d. d \<in> set (pool_list (pool_of q b) k j) \<Longrightarrow> place d = (b, k, j)"
      using inv unfolding q_inv_def lists_apart_def by blast
    have "(place(a := (False, KPending, l))) d = (b, k, j)" if "d \<in> set (pool_list (pool_of ?q b) k j)" for d b k j
      using that unfolding mem by (auto simp: p split: if_splits)
    moreover have "distinct (pool_list (pool_of ?q b) k j)" for b k j
    proof -
      have o: "distinct (pool_list (pool_of q b) k j)" using inv by (simp add: q_inv_def apart_distinct)
      have "a \<notin> set (pool_list (pool_of q False) KPending l)"
        using af inv apart_unique unfolding q_inv_def by blast
      then show ?thesis using o by (cases b; cases k; cases "j = l") (auto simp: pool_list_def pool_of_def f e)
    qed
    ultimately show ?thesis unfolding lists_apart_def by blast
  qed
  moreover have "store_ok ?q x st"
    using inv unfolding q_inv_def store_ok_def mem by (metis (no_types, lifting))
  moreover have "pools_ok ?q st" using inv by (simp add: q_inv_def pools_ok_def pool_known_def)
  moreover have "queued_ok ?q st" using inv by (simp add: q_inv_def queued_ok_def queued_def pool_list_def)
  moreover have "order_ok ?q x"
    using inv by (auto simp: q_inv_def order_ok_def queued_def recorded_in_append)
      (simp add: recorded_in_def e c head)
  ultimately show ?thesis using inv by (simp add: q_inv_def)
qed

lemma enqueue_new_inv:
  assumes inv: "q_inv q x st" and l: "l < cp_levels (pool0 q)"
    and a: "array_create (cp_handle (pool0 q)) l False rel x = (a, x')"
  shows "\<exists>st'. q_inv (q\<lparr> pool0 := (pool0 q)\<lparr> cp_pending := (cp_pending (pool0 q))(l := cp_pending (pool0 q) l @ [(a, 0)]) \<rparr> \<rparr>) x' st'"
    (is "\<exists>st'. q_inv ?q x' st'")
proof -
  define p where "p = cp_handle (pool0 q)"
  define c where "c = \<lparr> ca_pool = p, ca_level = l, ca_useReset = False, ca_release = rel, ca_head = 0, ca_flags = 0 \<rparr>"
  have x': "x' = emit (VkAllocateCommandBuffers p a) (put_array a c (x\<lparr> fresh_array := a + 1 \<rparr>))" "a = fresh_array x"
    using a by (auto simp: array_create_def Let_def c_def p_def)
  have new: "arrays x a = None" "\<And>q i. statuses st (q, a, i) = None" "\<And>q. (q, a) \<notin> set (allocs st)"
    using inv x'(2) unfolding q_inv_def store_ok_def by (metis less_irrefl not_Some_eq)+
  have notin: "a \<notin> set (pool_list (pool_of q b) k j)" for b k j
    using inv new(1) unfolding q_inv_def lists_ok_def listed_def by fastforce
  define st' where "st' = st\<lparr> allocs := (p, a) # allocs st,
     statuses := (\<lambda>(q, b, i). if q = p \<and> b = a \<and> i < 4 then Some InitialState else statuses st (q, b, i)) \<rparr>"
  have old: "statuses st' (r, d, i) = statuses st (r, d, i)" if "d \<noteq> a" for r d i using that by (simp add: st'_def)
  have pf: "pool_flags st p \<noteq> None" using inv by (simp add: q_inv_def pools_ok_def pool_known_def p_def)
  have run: "life_run (calls x') life0 = Some st'"
    using inv pf new(3) by (simp add: x'(1) emit_def put_array_def life_run_snoc q_inv_def st'_def)
  have arr: "arrays x' = (arrays x)(a \<mapsto> c)" by (simp add: x'(1) emit_def put_array_def)
  have mem: "d \<in> set (pool_list (pool_of ?q b) k j) \<longleftrightarrow>
      (if d = a then (b, k, j) = (False, KPending, l) else d \<in> set (pool_list (pool_of q b) k j))" for d b k j
    using notin [of b k j] by (cases b; cases k; cases "j = l") (auto simp: pool_list_def pool_of_def)
  have "array_ok st' KPending a c"
    by (simp add: array_ok_def status_ok_def c_def array_Head_def cb_of_def st'_def)
  then have L': "listed ?q x' st' False KPending l a" using l by (auto simp: listed_def pool_of_def arr c_def p_def)
  have "lists_ok ?q x' st'"
    unfolding lists_ok_def
  proof (intro allI impI)
    fix b k j d assume d: "d \<in> set (pool_list (pool_of ?q b) k j)"
    show "listed ?q x' st' b k j d"
    proof (cases "d = a")
      case True with d L' show ?thesis by (auto simp: mem)
    next
      case False
      with d have "d \<in> set (pool_list (pool_of q b) k j)" by (simp only: mem if_False)
      with inv have "listed q x st b k j d" by (simp add: q_inv_def lists_ok_def)
      then show ?thesis using False
        by (auto simp: listed_def pool_of_def arr intro: array_ok_cong [OF old])
    qed
  qed
  moreover have "lists_apart ?q"
  proof -
    obtain place where p: "\<And>b k j d. d \<in> set (pool_list (pool_of q b) k j) \<Longrightarrow> place d = (b, k, j)"
      using inv unfolding q_inv_def lists_apart_def by blast
    have "(place(a := (False, KPending, l))) d = (b, k, j)" if "d \<in> set (pool_list (pool_of ?q b) k j)" for d b k j
      using that unfolding mem by (auto simp: p split: if_splits)
    moreover have "distinct (pool_list (pool_of ?q b) k j)" for b k j
    proof -
      have o: "distinct (pool_list (pool_of q b) k j)" using inv by (simp add: q_inv_def apart_distinct)
      then show ?thesis using notin [of False KPending l]
        by (cases b; cases k; cases "j = l") (auto simp: pool_list_def pool_of_def)
    qed
    ultimately show ?thesis unfolding lists_apart_def by blast
  qed
  moreover have "store_ok ?q x' st'"
  proof -
    have "d < fresh_array x' \<and> (\<exists>b k j. d \<in> set (pool_list (pool_of ?q b) k j))" if "arrays x' d = Some e" for d e
    proof (cases "d = a")
      case True then show ?thesis unfolding mem by (auto simp: x'(1) emit_def put_array_def)
    next
      case False
      with that have "arrays x d = Some e" by (simp add: arr)
      with inv have "d < fresh_array x" "\<exists>b k j. d \<in> set (pool_list (pool_of q b) k j)"
        unfolding q_inv_def store_ok_def by blast+
      then show ?thesis unfolding mem using False by (auto simp: x' emit_def put_array_def)
    qed
    then show ?thesis using inv unfolding q_inv_def store_ok_def
      by (auto simp: st'_def x' emit_def put_array_def less_Suc_eq split: if_splits)
  qed
  moreover have "pools_ok ?q st'" using inv by (simp add: q_inv_def pools_ok_def pool_known_def st'_def)
  moreover have "queued_ok ?q st'"
  proof -
    have "fst (snd h) \<noteq> a" if "h \<in> set (queued q)" for h
      using inv that notin [of False KSubmitted] unfolding q_inv_def queued_ok_def pool_of_def by fastforce
    then have "queued_ok q st'" using inv unfolding q_inv_def
      by (elim conjE, rule_tac queued_ok_frame [of q st]) (auto simp: old)
    then show ?thesis by (simp add: queued_ok_def queued_def pool_list_def)
  qed
  moreover have "order_ok ?q x'"
  proof -
    have "recorded_in x' (cp_pending (pool0 q) 0) = recorded_in x (cp_pending (pool0 q) 0)"
      using notin [of False KPending 0] by (intro recorded_in_cong) (auto simp: arr pool_list_def pool_of_def)
    then show ?thesis using inv
      by (auto simp: q_inv_def order_ok_def queued_def recorded_in_append x'(1) emit_def put_array_def
          primary_begun_def handed_over_def) (simp add: recorded_in_def c_def array_Head_def)
  qed
  ultimately show ?thesis using run unfolding q_inv_def by blast
qed

section \<open>Commands\<close>

lemma InternalEnqueueOnePending_inv:
  assumes inv: "q_inv q x st" and l: "l < cp_levels (pool0 q)"
    and e: "InternalEnqueueOnePending l (pool0 q) x = (pl, x')"
  shows "\<exists>st'. q_inv (q\<lparr> pool0 := pl \<rparr>) x' st'" "cp_pending pl l \<noteq> []" "cp_recording pl = cp_recording (pool0 q)"
proof -
  have r: "cp_flags (pool0 q) AND VK_COMMAND_POOL_CREATE_RESET_COMMAND_BUFFER_BIT \<noteq> 0"
    using inv by (simp add: q_inv_def pools_ok_def pool_known_def)
  show "\<exists>st'. q_inv (q\<lparr> pool0 := pl \<rparr>) x' st'"
  proof (cases "cp_free (pool0 q) l")
    case Nil
    with e r enqueue_new_inv [OF inv l] show ?thesis
      by (auto simp: InternalEnqueueOnePending_def split: prod.splits)
  next
    case (Cons f rest)
    have "\<exists>st'. q_inv (q\<lparr> pool0 := (pool0 q)\<lparr> cp_pending := (cp_pending (pool0 q))(l := cp_pending (pool0 q) l @ [f]),
       cp_free := (cp_free (pool0 q))(l := rest) \<rparr> \<rparr>) x st'"
      by (intro exI, rule enqueue_free_inv [OF inv Cons])
    with e Cons show ?thesis by (auto simp: InternalEnqueueOnePending_def)
  qed
  show "cp_pending pl l \<noteq> []" "cp_recording pl = cp_recording (pool0 q)"
    using e by (auto simp: InternalEnqueueOnePending_def split: list.splits prod.splits)
qed

lemma InternalBeginScope_inv:
  assumes inv: "q_inv q x st" and b: "InternalBeginScope d (pool0 q) x = Inr (s, pl, x')"
  shows "\<exists>st'. q_inv (q\<lparr> pool0 := pl \<rparr>) x' st'"
proof -
  define l where "l = sd_level d"
  obtain pl1 x1 where p1: "(if needs_array (cp_pending (pool0 q) l) x then InternalEnqueueOnePending l (pool0 q) x
      else (pool0 q, x)) = (pl1, x1)" by force
  from b have l: "l < cp_levels (pool0 q)"
    by (auto simp: InternalBeginScope_def with_level_def l_def Let_def split: if_splits)
  from b p1 obtain s0 x2 x3 where
    c: "scope_construct (fst (last (cp_pending pl1 l))) d x1 = Inr (s0, x2)"
    and ds: "destroy_opt (cp_recording pl1 l) x2 = Inr x3" and cp: "scope_copy s0 x3 = Inr (s, x')"
    and pl: "pl = pl1\<lparr> cp_recording := (cp_recording pl1)(l := Some s0) \<rparr>"
    using l by (auto simp: InternalBeginScope_def with_level_def l_def [symmetric] Let_def bind_res_Inr)
  obtain st1 where i1: "q_inv (q\<lparr> pool0 := pl1 \<rparr>) x1 st1" and ne: "cp_pending pl1 l \<noteq> []"
  proof (cases "needs_array (cp_pending (pool0 q) l) x")
    case True
    with p1 InternalEnqueueOnePending_inv [OF inv l, of pl1 x1] that show ?thesis by auto
  next
    case False
    then have "pl1 = pool0 q" "x1 = x" using p1 by auto
    with that [of st] inv False show ?thesis by (simp add: needs_array_def)
  qed
  obtain st2 where "q_inv (q\<lparr> pool0 := pl1 \<rparr>) x2 st2"
    using scope_construct_inv [OF i1, of l d s0 x2] c ne by auto
  from destroy_opt_inv [OF this ds] obtain st3 where "q_inv (q\<lparr> pool0 := pl1 \<rparr>) x3 st3" by blast
  from scope_copy_inv [OF this cp] have "q_inv (q\<lparr> pool0 := pl1 \<rparr>) x' st3" .
  from q_inv_recording [OF this] show ?thesis unfolding pl by auto
qed

lemma Commands_inv:
  assumes "q_inv q x st" "Commands d (pool0 q) x = Inr (s, pl, x')"
  shows "\<exists>st'. q_inv (q\<lparr> pool0 := pl \<rparr>) x' st'"
proof -
  from assms(2) consider "InternalBeginScope d (pool0 q) x = Inr (s, pl, x')"
    | t where "scope_copy t x = Inr (s, x')" "pl = pool0 q"
    by (auto simp: Commands_def with_level_def bind_res_Inr split: if_splits option.splits)
  then show ?thesis
  proof cases
    case 1 then show ?thesis by (rule InternalBeginScope_inv [OF assms(1)])
  next
    case 2
    then have "q_inv (q\<lparr> pool0 := pl \<rparr>) x' st" using scope_copy_inv [OF assms(1) 2(1)] by simp
    then show ?thesis by blast
  qed
qed

lemma InternalEndCommands_inv:
  assumes "q_inv q x st" "InternalEndCommands l (pool0 q) x = Inr (pl, x')"
  shows "\<exists>st'. q_inv (q\<lparr> pool0 := pl \<rparr>) x' st'"
proof -
  from assms(2) have d: "destroy_opt (cp_recording (pool0 q) l) x = Inr x'"
    and pl: "pl = (pool0 q)\<lparr> cp_recording := (cp_recording (pool0 q))(l := None) \<rparr>"
    by (auto simp: InternalEndCommands_def with_level_def bind_res_Inr split: if_splits)
  from destroy_opt_inv [OF assms(1) d] show ?thesis unfolding pl using q_inv_recording by blast
qed

section \<open>Enqueueing for submission\<close>

lemma gather_recorded:
  "gather ps x = Inr cbs \<Longrightarrow> cbs = recorded_in x ps \<and> (\<forall>a\<in>fst ` set ps. \<exists>c. arrays x a = Some c \<and> ca_flags c = 0)"
proof (induction ps arbitrary: cbs)
  case Nil then show ?case by (simp add: recorded_in_def)
next
  case (Cons p ps)
  obtain a t where p: "p = (a, t)" by force
  from Cons.prems obtain c rest where c: "arrays x a = Some c" "ca_flags c = 0" "gather ps x = Inr rest"
    and cbs: "cbs = take (array_Head c) (map (cb_of a c) [0..<4]) @ rest"
    by (auto simp: p with_array_def array_Data_def bind_res_Inr kCommandBufferCount_def split: option.splits if_splits)
  have "take (array_Head c) (map (cb_of a c) [0..<4]) = map (cb_of a c) [0..<array_Head c]"
    using array_Head_less [of c] by (simp add: take_map take_upt)
  with Cons.IH [OF c(3)] c cbs show ?case by (auto simp: p recorded_in_def)
qed

lemma recorded_in_mem:
  "h \<in> set (recorded_in x ps) \<longleftrightarrow> (\<exists>a c i. a \<in> fst ` set ps \<and> arrays x a = Some c \<and> i < array_Head c \<and> h = cb_of a c i)"
  by (force simp: recorded_in_def split: option.splits)

lemma recorded_in_distinct: "distinct (map fst ps) \<Longrightarrow> distinct (recorded_in x ps)"
proof (induction ps)
  case (Cons p ps)
  have "distinct (recorded_in x [p])"
    by (auto simp: recorded_in_def distinct_map inj_on_def cb_of_def split: prod.splits option.splits)
  moreover have "set (recorded_in x [p]) \<inter> set (recorded_in x ps) = {}"
    using Cons.prems by (auto simp: recorded_in_mem cb_of_def)
  ultimately show ?case using Cons recorded_in_append [of x "[p]" ps] by simp
qed (simp add: recorded_in_def)

section \<open>The pending arrays of a level become submitted\<close>

abbreviation submitted_level :: "nat \<Rightarrow> u64 \<Rightarrow> submit_info list \<Rightarrow> queue \<Rightarrow> queue" where
  "submitted_level l t ps q \<equiv> q\<lparr> pool0 := InternalEnqueueSubmitted l t (pool0 q), pendingSubmits := ps \<rparr>"

lemma level_endedD: "level_ended x pl l \<Longrightarrow> a \<in> fst ` set (cp_pending pl l) \<Longrightarrow> \<exists>c. arrays x a = Some c \<and> ca_flags c = 0"
  by (force simp: level_ended_def list_all_iff split: option.splits)

lemma level_ended_executable:
  assumes "q_inv q x st" "level_ended x (pool0 q) l" "a \<in> fst ` set (cp_pending (pool0 q) l)" "arrays x a = Some c" "i < array_Head c"
  shows "statuses st (cb_of a c i) = Some ExecutableState" "\<not> bit (ca_flags c) i"
proof -
  have "a \<in> set (pool_list (pool_of q False) KPending l)" using assms(3) by (simp add: pool_list_def pool_of_def)
  then have "listed q x st False KPending l a" using assms(1) by (simp add: q_inv_def lists_ok_def)
  then have "array_ok st KPending a c" using assms(4) by (auto simp: listed_def)
  moreover have "ca_flags c = 0" using level_endedD [OF assms(2,3)] assms(4) by auto
  moreover have "i < 4" using assms(5) array_Head_less [of c] by simp
  ultimately show "statuses st (cb_of a c i) = Some ExecutableState" "\<not> bit (ca_flags c) i"
    using array_okD [of st KPending a c i] assms(5) by (auto simp: status_ok_def cb_of_def)
qed

lemma submitted_mem:
  assumes "q_inv q x st"
  shows "d \<in> set (pool_list (pool_of (submitted_level l t ps q) b) k j) \<longleftrightarrow>
      (if d \<in> fst ` set (cp_pending (pool0 q) l) then (b, k, j) = (False, KSubmitted, l) else d \<in> set (pool_list (pool_of q b) k j))"
proof -
  have only: "(b, k, j) = (False, KPending, l)"
    if "d \<in> fst ` set (cp_pending (pool0 q) l)" "d \<in> set (pool_list (pool_of q b) k j)" for b k j
  proof -
    have "d \<in> set (pool_list (pool_of q False) KPending l)" using that(1) by (simp add: pool_list_def pool_of_def)
    then show ?thesis using assms that(2) apart_unique unfolding q_inv_def by blast
  qed
  show ?thesis using only [of b k j]
    by (cases b; cases k; cases "j = l")
      (auto simp: pool_list_def pool_of_def InternalEnqueueSubmitted_def image_def split: prod.splits)
qed

lemma submitted_lists:
  assumes inv: "q_inv q x st" and ended: "level_ended x (pool0 q) l"
  shows "lists_ok (submitted_level l t ps q) x st" "lists_apart (submitted_level l t ps q)"
    "store_ok (submitted_level l t ps q) x st" "pools_ok (submitted_level l t ps q) st"
proof -
  let ?q = "submitted_level l t ps q" and ?A = "fst ` set (cp_pending (pool0 q) l)"
  note mem = submitted_mem [OF inv]
  have A: "?A = set (pool_list (pool_of q False) KPending l)" by (simp add: pool_list_def pool_of_def)
  show "lists_ok ?q x st"
    unfolding lists_ok_def
  proof (intro allI impI)
    fix b k j d assume d: "d \<in> set (pool_list (pool_of ?q b) k j)"
    show "listed ?q x st b k j d"
    proof (cases "d \<in> ?A")
      case True
      with d have j: "b = False" "k = KSubmitted" "j = l" by (auto simp: mem)
      have L: "listed q x st False KPending l d" using inv True by (simp add: q_inv_def lists_ok_def A)
      then obtain c where c: "arrays x d = Some c" "array_ok st KPending d c" by (auto simp: listed_def)
      have "status_ok KSubmitted (i < array_Head c) (bit (ca_flags c) i) (statuses st (cb_of d c i))" if "i < 4" for i
        using array_okD [OF c(2) that] level_ended_executable [OF inv ended True c(1), of i]
        by (cases "i < array_Head c") (auto simp: status_ok_def cb_of_def)
      then have "array_ok st KSubmitted d c" using c(2) by (simp add: array_ok_def)
      then show ?thesis using L c unfolding j by (auto simp: listed_def pool_of_def InternalEnqueueSubmitted_def)
    next
      case False
      with d have "d \<in> set (pool_list (pool_of q b) k j)" by (simp only: mem if_False)
      with inv have "listed q x st b k j d" by (simp add: q_inv_def lists_ok_def)
      then show ?thesis by (auto simp: listed_def pool_of_def InternalEnqueueSubmitted_def)
    qed
  qed
  show "lists_apart ?q"
  proof -
    obtain place where p: "\<And>b k j d. d \<in> set (pool_list (pool_of q b) k j) \<Longrightarrow> place d = (b, k, j)"
      using inv unfolding q_inv_def lists_apart_def by blast
    have "(if d \<in> ?A then (False, KSubmitted, l) else place d) = (b, k, j)"
      if "d \<in> set (pool_list (pool_of ?q b) k j)" for d b k j
      using that unfolding mem by (auto simp: p split: if_splits)
    then have "\<exists>place. \<forall>b k l a. a \<in> set (pool_list (pool_of ?q b) k l) \<longrightarrow> place a = (b, k, l)"
      by (intro exI [of _ "\<lambda>d. if d \<in> ?A then (False, KSubmitted, l) else place d"]) blast
    moreover have "distinct (pool_list (pool_of ?q b) k j)" for b k j
    proof -
      have o: "distinct (pool_list (pool_of q b) k j)" for b k j using inv by (simp add: q_inv_def apart_distinct)
      have "set (pool_list (pool_of q False) KSubmitted l) \<inter> ?A = {}"
        using inv apart_unique unfolding q_inv_def A by blast
      moreover have "map fst (map (\<lambda>(a, _). (a, t)) ps) = map fst ps" for ps :: cb_list by (auto split: prod.splits)
      ultimately show ?thesis using o [of b k j] o [of False KPending l]
        by (cases b; cases k; cases "j = l")
          (auto simp: pool_list_def pool_of_def InternalEnqueueSubmitted_def simp del: map_map)
    qed
    ultimately show ?thesis unfolding lists_apart_def by blast
  qed
  show "store_ok ?q x st"
    using inv unfolding q_inv_def store_ok_def mem by (metis (no_types, lifting))
  show "pools_ok ?q st" using inv by (simp add: q_inv_def pools_ok_def pool_known_def InternalEnqueueSubmitted_def)
qed

section \<open>A batch is prepared\<close>

lemma prepared_inv:
  assumes inv: "q_inv q x st" and g: "gather (cp_pending (pool0 q) 0) x = Inr cbs" and sub: "commandBuffers sub = cbs"
  shows "q_inv (q\<lparr> pool0 := InternalEnqueueSubmitted 0 t (pool0 q), pendingSubmits := pendingSubmits q @ [sub] \<rparr>) x st"
    (is "q_inv ?q x st")
proof -
  define A where "A = fst ` set (cp_pending (pool0 q) 0)"
  have A: "A = set (pool_list (pool_of q False) KPending 0)" by (simp add: A_def pool_list_def pool_of_def)
  from gather_recorded [OF g] have cbs: "cbs = recorded_in x (cp_pending (pool0 q) 0)" and ended: "level_ended x (pool0 q) 0"
    by (force simp: level_ended_def list_all_iff split: option.splits)+
  note mem = submitted_mem [OF inv, where l = 0 and t = t and ps = "pendingSubmits q @ [sub]", folded A_def]
  note exec = level_ended_executable [OF inv ended, folded A_def]
  have "queued_ok ?q st"
  proof -
    have q: "queued ?q = queued q @ cbs" by (simp add: queued_def sub)
    have m: "\<exists>a c i. a \<in> A \<and> arrays x a = Some c \<and> i < array_Head c \<and> h = cb_of a c i" if "h \<in> set cbs" for h
      using that by (simp add: cbs recorded_in_mem A_def)
    have "distinct cbs" unfolding cbs
      using inv apart_distinct [of q False KPending 0] by (intro recorded_in_distinct) (simp add: q_inv_def pool_list_def pool_of_def)
    moreover have "fst (snd h) \<notin> A" if "h \<in> set (queued q)" for h
      using inv that queued_not_pending unfolding A q_inv_def by blast
    moreover have inA: "fst (snd h) \<in> A" if "h \<in> set cbs" for h using m [OF that] by (auto simp: cb_of_def)
    ultimately have "distinct cbs" "set (queued q) \<inter> set cbs = {}" by blast+
    then have "distinct (queued ?q)" using inv unfolding q by (simp add: q_inv_def queued_ok_def)
    moreover have "\<exists>l. fst (snd h) \<in> set (pool_list (pool0 ?q) KSubmitted l)" if "h \<in> set (queued ?q)" for h
    proof (cases "fst (snd h) \<in> A")
      case True
      then have "fst (snd h) \<in> set (pool_list (pool_of ?q False) KSubmitted 0)" unfolding mem by simp
      then show ?thesis unfolding pool_of_def by auto
    next
      case False
      then have "h \<in> set (queued q)" using that inA [of h] unfolding q by auto
      then obtain l where "fst (snd h) \<in> set (pool_list (pool_of q False) KSubmitted l)"
        using inv by (auto simp: q_inv_def queued_ok_def pool_of_def)
      then have "fst (snd h) \<in> set (pool_list (pool_of ?q False) KSubmitted l)" unfolding mem using False by simp
      then show ?thesis unfolding pool_of_def by auto
    qed
    moreover have "statuses st h = Some ExecutableState" if "h \<in> set (queued ?q)" for h
    proof (cases "h \<in> set cbs")
      case True
      then obtain a c i where "a \<in> A" "arrays x a = Some c" "i < array_Head c" "h = cb_of a c i" using m by blast
      then show ?thesis using exec(1) by simp
    next
      case False
      then show ?thesis using that inv unfolding q by (auto simp: q_inv_def queued_ok_def)
    qed
    ultimately show ?thesis unfolding queued_ok_def by blast
  qed
  moreover have "order_ok ?q x"
  proof -
    have "cp_pending (pool0 ?q) 0 = []" "queued ?q = queued q @ cbs"
      by (simp_all add: queued_def sub InternalEnqueueSubmitted_def)
    then show ?thesis using inv by (simp add: q_inv_def order_ok_def cbs) (simp add: recorded_in_def)
  qed
  ultimately show ?thesis
    using submitted_lists [OF inv ended, where t = t and ps = "pendingSubmits q @ [sub]"] inv unfolding q_inv_def by blast
qed

lemma EnqueueSubmit_inv:
  "q_inv q x st \<Longrightarrow> EnqueueSubmit ss q x = Inr (q', x') \<Longrightarrow> \<exists>st'. q_inv q' x' st'"
proof (induction ss arbitrary: q x st)
  case (Cons si ss)
  from Cons.prems(2) obtain sub q1 x1 where p: "InternalPrepareSubmit si q x = Inr (sub, q1, x1)"
    and r: "EnqueueSubmit ss (q1\<lparr> pendingSubmits := pendingSubmits q1 @ [sub] \<rparr>) x1 = Inr (q', x')"
    by (auto simp: bind_res_Inr)
  from p obtain pl where e: "InternalEndCommands 0 (pool0 q) x = Inr (pl, x1)"
    by (auto simp: InternalPrepareSubmit_def Let_def bind_res_Inr split: if_splits)
  from InternalEndCommands_inv [OF Cons.prems(1) e] obtain st1 where i: "q_inv (q\<lparr> pool0 := pl \<rparr>) x1 st1" by blast
  have "\<exists>st2. q_inv (q1\<lparr> pendingSubmits := pendingSubmits q1 @ [sub] \<rparr>) x1 st2"
  proof (cases "cp_pending pl 0 = []")
    case True
    then have q1: "q1 = q\<lparr> pool0 := pl \<rparr>" "commandBuffers sub = []"
      using p e by (auto simp: InternalPrepareSubmit_def Let_def empty_submit_def sync_info.defs submit_info.defs)
    have "q_inv (q1\<lparr> pendingSubmits := pendingSubmits q1 @ [sub] \<rparr>) x1 st1"
      unfolding q1(1) by (rule q_inv_queue [OF i]) (simp_all add: queued_def q1(2) pool_of_def)
    then show ?thesis by blast
  next
    case False
    then obtain cbs t where g: "gather (cp_pending pl 0) x1 = Inr cbs"
      and sub: "sub = sync_info.extend si \<lparr> commandBuffers = cbs, timelineValue = t \<rparr>"
      and q1: "q1 = q\<lparr> pool0 := InternalEnqueueSubmitted 0 t pl \<rparr>"
      using p e by (auto simp: InternalPrepareSubmit_def Let_def bind_res_Inr)
    have "commandBuffers sub = cbs" by (simp add: sub sync_info.defs)
    with prepared_inv [OF i, of cbs sub t] g show ?thesis unfolding q1 by auto
  qed
  with Cons.IH r show ?case by blast
qed auto

section \<open>Submission and completion\<close>

lemma statuses_step_inv:
  assumes inv: "q_inv q x st"
    and st': "st' = st\<lparr> statuses := (\<lambda>h. if h \<in> H then Some s' else statuses st h) \<rparr>"
    and H: "\<And>h. h \<in> H \<Longrightarrow> statuses st h = Some s"
    and ok: "\<And>b k l a c i. a \<in> set (pool_list (pool_of q b) k l) \<Longrightarrow> cb_of a c i \<in> H \<Longrightarrow>
        status_ok k (i < array_Head c) (bit (ca_flags c) i) (Some s) \<Longrightarrow>
        status_ok k (i < array_Head c) (bit (ca_flags c) i) (Some s')"
  shows "lists_ok q x st'" "store_ok q x st'" "pools_ok q st'"
proof -
  show "lists_ok q x st'"
    unfolding lists_ok_def
  proof (intro allI impI)
    fix b k l a assume a: "a \<in> set (pool_list (pool_of q b) k l)"
    with inv obtain c where c: "arrays x a = Some c" "array_ok st k a c" and L: "listed q x st b k l a"
      unfolding q_inv_def lists_ok_def listed_def by blast
    have "status_ok k (i < array_Head c) (bit (ca_flags c) i) (statuses st' (cb_of a c i))" if "i < 4" for i
    proof (cases "cb_of a c i \<in> H")
      case True
      from array_okD [OF c(2) that] H [OF True] have "status_ok k (i < array_Head c) (bit (ca_flags c) i) (Some s)"
        by (simp add: cb_of_def)
      from ok [OF a True this] show ?thesis using True by (simp add: st')
    next
      case False
      with array_okD [OF c(2) that] show ?thesis by (simp add: st' cb_of_def)
    qed
    then have "array_ok st' k a c" using c(2) by (simp add: array_ok_def)
    with L c show "listed q x st' b k l a" by (auto simp: listed_def)
  qed
  show "store_ok q x st'" using inv H by (fastforce simp: q_inv_def store_ok_def st')
  show "pools_ok q st'" using inv by (simp add: q_inv_def pools_ok_def pool_known_def st')
qed

lemma Queue_Submit_inv:
  assumes inv: "q_inv q x st" and e: "Queue_Submit q x = (h, q', x')"
  shows "\<exists>st'. q_inv q' x' st'"
proof (cases "pendingSubmits q = []")
  case True then show ?thesis using inv e by (auto simp: Queue_Submit_def)
next
  case False
  then have x': "x' = emit (VkQueueSubmit (pendingSubmits q)) x"
    and q': "pool0 q' = pool0 q" "pool1 q' = pool1 q" "pendingSubmits q' = []"
    using e by (auto simp: Queue_Submit_def split: prod.splits)
  have qo: "queued_ok q st" using inv by (simp add: q_inv_def)
  define st' where "st' = st\<lparr> statuses := (\<lambda>h. if h \<in> set (queued q) then Some PendingState else statuses st h) \<rparr>"
  have run: "life_run (calls x') life0 = Some st'"
    using inv qo by (auto simp: x' emit_def life_run_snoc q_inv_def queued_def [symmetric] queued_ok_def st'_def
        intro: move_all_distinct)
  have ok: "status_ok k (i < array_Head c) (bit (ca_flags c) i) (Some PendingState)"
    if a: "a \<in> set (pool_list (pool_of q b) k l)" and h: "cb_of a c i \<in> set (queued q)"
      and o: "status_ok k (i < array_Head c) (bit (ca_flags c) i) (Some ExecutableState)" for b k l a c i
  proof -
    from qo h obtain l' where "a \<in> set (pool_list (pool_of q False) KSubmitted l')"
      by (force simp: queued_ok_def cb_of_def pool_of_def)
    with a inv have "k = KSubmitted" using apart_unique unfolding q_inv_def by blast
    with o show ?thesis by (auto simp: status_ok_def split: bool.splits)
  qed
  have s: "lists_ok q x st'" "store_ok q x st'" "pools_ok q st'"
    using qo by (auto intro!: statuses_step_inv [OF inv st'_def] ok simp: queued_ok_def)
  have pq: "pool_of q' b = pool_of q b" for b by (simp add: pool_of_def q')
  have "lists_ok q' x' st'" using s(1) by (simp add: lists_ok_def listed_def pq x' emit_def)
  moreover have "lists_apart q'" using inv by (simp add: q_inv_def lists_apart_def pq)
  moreover have "store_ok q' x' st'" using s(2) by (simp add: store_ok_def pq x' emit_def)
  moreover have "pools_ok q' st'" using s(3) by (simp add: pools_ok_def q')
  moreover have "queued_ok q' st'" by (simp add: queued_ok_def queued_def q')
  moreover have "order_ok q' x'"
    using inv by (simp add: q_inv_def order_ok_def queued_def q' x' emit_def primary_begun_def handed_over_def recorded_in_def)
  ultimately show ?thesis using run by (auto simp: q_inv_def)
qed

lemma Completed_inv:
  assumes inv: "q_inv q x st" and m: "move_all PendingState InvalidState hs st = Some st'"
  shows "q_inv q (emit (DeviceCompleted hs) x) st'"
proof -
  from move_all_effect [OF m] have st': "st' = st\<lparr> statuses := (\<lambda>h. if h \<in> set hs then Some InvalidState else statuses st h) \<rparr>"
    and H: "\<And>h. h \<in> set hs \<Longrightarrow> statuses st h = Some PendingState" by auto
  have ok: "status_ok k u r (Some PendingState) \<Longrightarrow> status_ok k u r (Some InvalidState)" for k u r
    by (auto simp: status_ok_def split: bool.splits kind.splits if_splits)
  have s: "lists_ok q x st'" "store_ok q x st'" "pools_ok q st'"
    by (rule statuses_step_inv [OF inv st' H ok], assumption+)+
  have "queued_ok q st'"
    using inv H by (auto simp: q_inv_def queued_ok_def st')
  moreover have "life_run (calls (emit (DeviceCompleted hs) x)) life0 = Some st'"
    using inv m by (simp add: q_inv_def emit_def life_run_snoc)
  ultimately show ?thesis using inv s
    by (simp add: q_inv_def lists_ok_def listed_def store_ok_def order_ok_def emit_def primary_begun_def
        handed_over_def recorded_in_def)
qed

section \<open>Swapping and resetting\<close>

definition zero_bits :: "cbarray \<Rightarrow> cbarray" where
  "zero_bits c = c\<lparr> ca_head := 0, ca_flags := 0 \<rparr>"

definition zero_arrays :: "nat set \<Rightarrow> vkctx \<Rightarrow> vkctx" where
  "zero_arrays A x = x\<lparr> arrays := (\<lambda>a. if a \<in> A then map_option zero_bits (arrays x a) else arrays x a) \<rparr>"

lemma zero_arrays_Un: "zero_arrays B (zero_arrays A x) = zero_arrays (A \<union> B) x"
proof -
  have "zero_bits (zero_bits c) = zero_bits c" for c by (simp add: zero_bits_def)
  then show ?thesis
    by (intro vkctx.equality) (auto simp: zero_arrays_def fun_eq_iff option.map_comp comp_def)
qed

lemma reset_list_effect:
  "reset_list ps x = Inr x' \<Longrightarrow> (\<And>a c. a \<in> fst ` set ps \<Longrightarrow> arrays x a = Some c \<Longrightarrow> \<not> ca_useReset c) \<Longrightarrow>
     x' = zero_arrays (fst ` set ps) x"
proof (induction ps arbitrary: x)
  case Nil then show ?case by (simp add: zero_arrays_def)
next
  case (Cons p ps)
  obtain a t where p: "p = (a, t)" by force
  from Cons.prems(1) obtain x1 where r: "array_Reset a x = Inr x1" "reset_list ps x1 = Inr x'"
    by (auto simp: p bind_res_Inr)
  then obtain c where c: "arrays x a = Some c" by (auto simp: array_Reset_def with_array_def split: option.splits)
  then have "\<not> ca_useReset c" using Cons.prems(2) [of a c] p by simp
  with r c have x1: "x1 = zero_arrays {a} x"
    by (auto simp: array_Reset_def with_array_def put_array_def zero_arrays_def zero_bits_def fun_eq_iff Let_def
        split: if_splits intro!: vkctx.equality)
  have "\<not> ca_useReset e" if d: "d \<in> fst ` set ps" "arrays x1 d = Some e" for d e
  proof -
    obtain e0 where "arrays x d = Some e0" "ca_useReset e = ca_useReset e0"
      using d(2) by (auto simp: x1 zero_arrays_def zero_bits_def split: if_splits)
    moreover have "d \<in> fst ` set (p # ps)" using d(1) by simp
    ultimately show ?thesis using Cons.prems(2) by metis
  qed
  from Cons.IH [OF r(2) this] have "x' = zero_arrays (fst ` set ps) x1" .
  then show ?case by (simp add: x1 zero_arrays_Un p)
qed

lemma reset_levels_effect:
  "reset_levels l k pl x = Inr (pl', x') \<Longrightarrow>
     (\<And>j a c. a \<in> fst ` set (cp_submitted pl j) \<Longrightarrow> arrays x a = Some c \<Longrightarrow> \<not> ca_useReset c) \<Longrightarrow>
     pl' = pl\<lparr> cp_free := (\<lambda>j. if l \<le> j \<and> j < l + k then cp_free pl j @ cp_submitted pl j else cp_free pl j),
               cp_submitted := (\<lambda>j. if l \<le> j \<and> j < l + k then [] else cp_submitted pl j) \<rparr>
     \<and> x' = zero_arrays (\<Union>j\<in>{l..<l + k}. fst ` set (cp_submitted pl j)) x"
proof (induction k arbitrary: l pl x)
  case 0 then show ?case by (auto simp: zero_arrays_def fun_eq_iff intro!: cpool.equality)
next
  case (Suc k)
  let ?pl1 = "pl\<lparr> cp_free := (cp_free pl)(l := cp_free pl l @ cp_submitted pl l), cp_submitted := (cp_submitted pl)(l := []) \<rparr>"
  from Suc.prems(1) obtain x1 where r: "reset_list (cp_submitted pl l) x = Inr x1"
    and r2: "reset_levels (l + 1) k ?pl1 x1 = Inr (pl', x')"
    by (auto simp: bind_res_Inr)
  have x1: "x1 = zero_arrays (fst ` set (cp_submitted pl l)) x"
    using Suc.prems(2) by (rule_tac reset_list_effect [OF r]) blast
  have use: "\<And>j a c. a \<in> fst ` set (cp_submitted ?pl1 j) \<Longrightarrow> arrays x1 a = Some c \<Longrightarrow> \<not> ca_useReset c"
    unfolding x1 zero_arrays_def using Suc.prems(2)
    by (force simp: zero_bits_def split: if_splits)
  define S where "S j = fst ` set (cp_submitted pl j)" for j
  have "{l..<Suc (l + k)} = insert l {Suc l..<Suc (l + k)}" by auto
  then have u: "\<Union> (S ` {l..<Suc (l + k)}) = S l \<union> \<Union> (S ` {Suc l..<Suc (l + k)})" by simp
  have v: "(\<Union>j\<in>{l + 1..<l + 1 + k}. fst ` set (cp_submitted ?pl1 j)) = \<Union> (S ` {Suc l..<Suc (l + k)})"
    by (auto simp: S_def)
  have pl': "pl' = ?pl1\<lparr> cp_free := (\<lambda>j. if l + 1 \<le> j \<and> j < l + 1 + k then cp_free ?pl1 j @ cp_submitted ?pl1 j else cp_free ?pl1 j),
               cp_submitted := (\<lambda>j. if l + 1 \<le> j \<and> j < l + 1 + k then [] else cp_submitted ?pl1 j) \<rparr>"
    and x': "x' = zero_arrays (\<Union>j\<in>{l + 1..<l + 1 + k}. fst ` set (cp_submitted ?pl1 j)) x1"
    using Suc.IH [OF r2] use by blast+
  have "x' = zero_arrays (\<Union> (S ` {l..<Suc (l + k)})) x" unfolding x' v u x1 zero_arrays_Un by (simp add: S_def)
  moreover have "pl' = pl\<lparr> cp_free := (\<lambda>j. if l \<le> j \<and> j < l + Suc k then cp_free pl j @ cp_submitted pl j else cp_free pl j),
               cp_submitted := (\<lambda>j. if l \<le> j \<and> j < l + Suc k then [] else cp_submitted pl j) \<rparr>"
    unfolding pl' by (rule cpool.equality) (auto simp: fun_eq_iff)
  ultimately show ?case by (simp add: S_def)
qed

lemma SwapAndResetPool_inv:
  assumes inv: "q_inv q x st" and e: "SwapAndResetPool q x = Inr (q', x')"
    and idle: "pool_idle st (cp_handle (pool1 q))" and emp: "\<And>l. l < cp_levels (pool0 q) \<Longrightarrow> cp_pending (pool0 q) l = []"
  shows "\<exists>st'. q_inv q' x' st'"
proof -
  define p where "p = cp_handle (pool1 q)"
  define x1 where "x1 = emit (VkResetCommandPool p) x"
  have no0: "cp_pending (pool0 q) l = []" for l
  proof (rule ccontr)
    assume "cp_pending (pool0 q) l \<noteq> []"
    then obtain a where "a \<in> set (pool_list (pool_of q False) KPending l)"
      by (cases "cp_pending (pool0 q) l") (auto simp: pool_list_def pool_of_def)
    with inv have "l < cp_levels (pool0 q)" unfolding q_inv_def lists_ok_def listed_def pool_of_def by fastforce
    with emp \<open>cp_pending (pool0 q) l \<noteq> []\<close> show False by blast
  qed
  have no1: "cp_pending (pool1 q) l = []" for l using inv by (simp add: q_inv_def pools_ok_def)
  have no2: "cp_submitted (pool1 q) l = []" if "\<not> l < cp_levels (pool1 q)" for l
  proof (rule ccontr)
    assume "cp_submitted (pool1 q) l \<noteq> []"
    then obtain a where "a \<in> set (pool_list (pool_of q True) KSubmitted l)"
      by (cases "cp_submitted (pool1 q) l") (auto simp: pool_list_def pool_of_def)
    with inv that show False unfolding q_inv_def lists_ok_def listed_def pool_of_def by fastforce
  qed
  from e inv obtain pl where ps: "pendingSubmits q = []" and q': "q' = q\<lparr> pool0 := pl, pool1 := pool0 q \<rparr>"
    and r: "reset_levels 0 (cp_levels (pool1 q)) (pool1 q) x1 = Inr (pl, x')"
    by (auto simp: SwapAndResetPool_def CommandPool_Reset_def bind_res_Inr q_inv_def pools_ok_def pool_known_def
        x1_def p_def split: if_splits)
  have use: "\<not> ca_useReset c" if "a \<in> fst ` set (cp_submitted (pool1 q) j)" "arrays x1 a = Some c" for j a c
  proof -
    have "listed q x st True KSubmitted j a"
      using inv that(1) unfolding q_inv_def lists_ok_def by (auto simp: pool_list_def pool_of_def)
    then show ?thesis using that(2) by (auto simp: listed_def array_ok_def x1_def emit_def)
  qed
  define A where "A = (\<Union>j\<in>{0..<0 + cp_levels (pool1 q)}. fst ` set (cp_submitted (pool1 q) j))"
  from reset_levels_effect [OF r use] no2 have pl: "pl = (pool1 q)\<lparr> cp_free := \<lambda>j. cp_free (pool1 q) j @ cp_submitted (pool1 q) j,
      cp_submitted := \<lambda>j. [] \<rparr>" and x': "x' = zero_arrays A x1"
    by (auto simp: A_def fun_eq_iff intro!: cpool.equality)
  have inA: "d \<in> A \<longleftrightarrow> (\<exists>j. d \<in> set (pool_list (pool_of q True) KSubmitted j))" for d
  proof -
    have "j < cp_levels (pool1 q)" if "z \<in> set (cp_submitted (pool1 q) j)" for j z
      using no2 [of j] that by (cases "j < cp_levels (pool1 q)") auto
    then show ?thesis by (force simp: A_def pool_list_def pool_of_def)
  qed
  define st' where "st' = st\<lparr> statuses := (\<lambda>h. if fst h = p then map_option (\<lambda>_. InitialState) (statuses st h) else statuses st h) \<rparr>"
  have run: "life_run (calls x') life0 = Some st'"
    using inv idle by (auto simp: x' zero_arrays_def x1_def emit_def life_run_snoc q_inv_def pools_ok_def pool_known_def
        st'_def p_def)
  have mem: "d \<in> set (pool_list (pool_of q' b) k j) \<longleftrightarrow> (if b then d \<in> set (pool_list (pool_of q False) k j)
      else k = KFree \<and> (d \<in> set (pool_list (pool_of q True) KFree j) \<or> d \<in> set (pool_list (pool_of q True) KSubmitted j)))"
    for d b k j
    by (cases b; cases k) (auto simp: pool_list_def pool_of_def q' pl no1)
  have arr: "arrays x' = (\<lambda>a. if a \<in> A then map_option zero_bits (arrays x a) else arrays x a)"
    by (simp add: x' zero_arrays_def x1_def emit_def fun_eq_iff)
  have "lists_ok q' x' st'"
    unfolding lists_ok_def
  proof (intro allI impI)
    fix b k j d assume d: "d \<in> set (pool_list (pool_of q' b) k j)"
    show "listed q' x' st' b k j d"
    proof (cases b)
      case True
      with d have m: "d \<in> set (pool_list (pool_of q False) k j)" by (simp add: mem)
      with inv have L: "listed q x st False k j d" by (simp add: q_inv_def lists_ok_def)
      have "d \<notin> A" using m inv apart_unique unfolding inA q_inv_def by blast
      moreover have "cp_handle (pool0 q) \<noteq> p" using inv by (simp add: q_inv_def pools_ok_def p_def)
      ultimately show ?thesis using L True
        by (auto simp: listed_def pool_of_def q' arr array_ok_def st'_def cb_of_def)
    next
      case False
      with d have k: "k = KFree" and m: "d \<in> set (pool_list (pool_of q True) KFree j) \<or> d \<in> set (pool_list (pool_of q True) KSubmitted j)"
        by (simp_all add: mem)
      then obtain k0 where k0: "d \<in> set (pool_list (pool_of q True) k0 j)" "k0 = KFree \<or> k0 = KSubmitted" by blast
      with inv have L: "listed q x st True k0 j d" by (simp add: q_inv_def lists_ok_def)
      then obtain c where c: "arrays x d = Some c" "array_ok st k0 d c" "ca_pool c = p"
        by (auto simp: listed_def pool_of_def p_def)
      define c' where "c' = (if d \<in> A then zero_bits c else c)"
      have some: "statuses st (p, d, i) \<noteq> None" "\<not> bit (ca_flags c) i" if "i < 4" for i
        using array_okD [OF c(2) that] k0(2) c(3) by (auto simp: status_ok_def split: bool.splits)
      have "array_Head c' = 0"
      proof (cases "d \<in> A")
        case False
        then have "k0 = KFree" using k0 inA by blast
        with array_okD [OF c(2), of 0] False show ?thesis
          by (cases "array_Head c") (auto simp: c'_def status_ok_def)
      qed (simp add: c'_def zero_bits_def array_Head_def)
      moreover have "\<not> bit (ca_flags c') i" if "i < 4" for i using some(2) [OF that] by (simp add: c'_def zero_bits_def)
      moreover have "ca_pool c' = p" "ca_level c' = ca_level c" "ca_useReset c' = ca_useReset c"
        using c(3) by (auto simp: c'_def zero_bits_def)
      ultimately have "array_ok st' KFree d c'"
        using c(2) some(1) by (auto simp: array_ok_def status_ok_def st'_def cb_of_def)
      moreover have "arrays x' d = Some c'" by (simp add: arr c'_def c)
      ultimately show ?thesis using L c \<open>ca_pool c' = p\<close> \<open>ca_level c' = ca_level c\<close> False
        by (auto simp: listed_def pool_of_def q' pl k p_def)
    qed
  qed
  moreover have "lists_apart q'"
  proof -
    obtain place where pp: "\<And>b k j d. d \<in> set (pool_list (pool_of q b) k j) \<Longrightarrow> place d = (b, k, j)"
      using inv unfolding q_inv_def lists_apart_def by blast
    have "(case place d of (b, k, j) \<Rightarrow> if b then (False, KFree, j) else (True, k, j)) = (b, k, j)"
      if "d \<in> set (pool_list (pool_of q' b) k j)" for d b k j
      using that unfolding mem by (cases b) (auto dest: pp)
    then have "\<exists>place. \<forall>b k l a. a \<in> set (pool_list (pool_of q' b) k l) \<longrightarrow> place a = (b, k, l)"
      by (intro exI [of _ "\<lambda>d. case place d of (b, k, j) \<Rightarrow> if b then (False, KFree, j) else (True, k, j)"]) blast
    moreover have "distinct (pool_list (pool_of q' b) k j)" for b k j
    proof -
      have o: "distinct (pool_list (pool_of q b) k j)" for b k j using inv by (simp add: q_inv_def apart_distinct)
      have "set (pool_list (pool_of q True) KFree j) \<inter> set (pool_list (pool_of q True) KSubmitted j) = {}"
        using inv apart_unique unfolding q_inv_def by blast
      then show ?thesis using o [of False k j] o [of True KFree j] o [of True KSubmitted j]
        by (cases b; cases k) (auto simp: pool_list_def pool_of_def q' pl no1)
    qed
    ultimately show ?thesis unfolding lists_apart_def by blast
  qed
  moreover have "store_ok q' x' st'"
  proof -
    have "d < fresh_array x \<and> (\<exists>b k j. d \<in> set (pool_list (pool_of q' b) k j))" if "arrays x' d = Some c" for d c
    proof -
      from that obtain c0 where "arrays x d = Some c0" by (auto simp: arr split: if_splits)
      with inv obtain b k j where m: "d \<in> set (pool_list (pool_of q b) k j)" "d < fresh_array x"
        unfolding q_inv_def store_ok_def by blast
      have "\<exists>b k j. d \<in> set (pool_list (pool_of q' b) k j)"
      proof (cases b)
        case True
        then have "k = KFree \<or> k = KSubmitted" using m(1) by (cases k) (auto simp: pool_list_def pool_of_def no1)
        then have "d \<in> set (pool_list (pool_of q' False) KFree j)" using m(1) True by (auto simp: mem)
        then show ?thesis by blast
      next
        case False
        then have "d \<in> set (pool_list (pool_of q' True) k j)" using m(1) by (simp add: mem)
        then show ?thesis by blast
      qed
      with m(2) show ?thesis by blast
    qed
    moreover have "fresh_array x' = fresh_array x" by (simp add: x' zero_arrays_def x1_def emit_def)
    moreover have "allocs st' = allocs st" "\<And>h. statuses st' h = None \<longleftrightarrow> statuses st h = None" by (auto simp: st'_def)
    ultimately show ?thesis using inv unfolding q_inv_def store_ok_def by metis
  qed
  moreover have "pools_ok q' st'" using inv no0 by (simp add: q_inv_def pools_ok_def pool_known_def q' pl st'_def)
  moreover have "queued_ok q' st'" by (simp add: queued_ok_def queued_def q' ps)
  moreover have "order_ok q' x'"
    using inv no0 by (simp add: q_inv_def order_ok_def queued_def q' pl ps no1 recorded_in_def x' zero_arrays_def x1_def
        emit_def primary_begun_def handed_over_def)
  ultimately show ?thesis using run by (auto simp: q_inv_def)
qed

end
