(* ===== verification/Queue_Execute.thy ===== *)
theory Queue_Execute
imports Queue_Safety
begin

text \<open>
  Secondary command buffers: what \<open>Queue::Execute\<close> does to the lists of a level, and that it keeps the
  invariant of the queue when the buffers of the level have ended and the primary one is still open. With the
  other operations, a client that keeps the protocol keeps the invariant.
\<close>

section \<open>The secondary buffers of a level\<close>

lemma submitted_inv:
  assumes inv: "q_inv q x st" and "level_ended x (pool0 q) l" "l \<noteq> 0"
  shows "q_inv (q\<lparr> pool0 := InternalEnqueueSubmitted l t (pool0 q) \<rparr>) x st"
proof -
  let ?q = "submitted_level l t (pendingSubmits q) q"
  have same: "queued ?q = queued q" "cp_pending (pool0 ?q) 0 = cp_pending (pool0 q) 0"
    using assms(3) by (simp_all add: queued_def InternalEnqueueSubmitted_def)
  have "\<exists>j. fst (snd h) \<in> set (pool_list (pool0 ?q) KSubmitted j)" if "h \<in> set (queued q)" for h
  proof -
    have "\<exists>j. fst (snd h) \<in> set (pool_list (pool_of q False) KSubmitted j)"
      using inv that by (simp add: q_inv_def queued_ok_def pool_of_def)
    then obtain j where j: "fst (snd h) \<in> set (pool_list (pool_of q False) KSubmitted j)" ..
    have "fst (snd h) \<in> set (pool_list (pool_of ?q False) KSubmitted (if fst (snd h) \<in> fst ` set (cp_pending (pool0 q) l) then l else j))"
      using j unfolding submitted_mem [OF inv] by simp
    then show ?thesis unfolding pool_of_def by auto
  qed
  then have "queued_ok ?q st" using inv unfolding q_inv_def queued_ok_def same by blast
  moreover have "order_ok ?q x" using inv unfolding q_inv_def order_ok_def same by blast
  ultimately have "q_inv ?q x st"
    using submitted_lists [OF assms(1,2), where t = t and ps = "pendingSubmits q"] inv unfolding q_inv_def by blast
  then show ?thesis by (cases q) simp
qed

section \<open>The open primary command buffer\<close>

lemma scope_openD:
  assumes "scope_open x s"
  obtains r a n c where "sc_ref s = Some r" "sc_array s = Some a" "refs x r = Some n" "arrays x a = Some c"
    "n \<noteq> 0" "sc_index s < 4" "bit (ca_flags c) (sc_index s)"
  using assms by (auto simp: scope_open_def array_Recording_bit split: option.splits)

text \<open>What \<open>Commands\<close> hands out at level 0: a second reference to the scope the pool records in.\<close>

lemma Commands_primary:
  assumes inv: "q_inv q x st" and ready: "primary_ready (pool0 q) x"
    and run: "Commands (scope_desc_default True) (pool0 q) x = Inr (s, pl, x1)"
  shows "cp_recording pl 0 = Some s \<and> sd_scopedBeginEnd (sc_desc s) \<and> scope_desc_eq (sc_desc s) (scope_desc_default True)
     \<and> (\<exists>r a n c. sc_ref s = Some r \<and> sc_array s = Some a \<and> refs x1 r = Some n \<and> n - 1 \<noteq> 0 \<and> arrays x1 a = Some c
         \<and> sc_index s < 4 \<and> bit (ca_flags c) (sc_index s))
     \<and> cp_levels pl = cp_levels (pool0 q)
     \<and> (\<forall>l. l \<noteq> 0 \<longrightarrow> cp_pending pl l = cp_pending (pool0 q) l
          \<and> (\<forall>a \<in> fst ` set (cp_pending (pool0 q) l). arrays x1 a = arrays x a))"
proof (cases "cp_recording (pool0 q) 0")
  case (Some s0)
  then have s0: "scope_desc_eq (sc_desc s0) (scope_desc_default True)" "sd_scopedBeginEnd (sc_desc s0)" "scope_open x s0"
    using ready by (simp_all add: primary_ready_def)
  obtain r a n c where o: "sc_ref s0 = Some r" "sc_array s0 = Some a" "refs x r = Some n" "arrays x a = Some c"
    "n \<noteq> 0" "sc_index s0 < 4" "bit (ca_flags c) (sc_index s0)" by (rule scope_openD [OF s0(3)])
  have "s = s0" "pl = pool0 q" "x1 = x\<lparr> refs := (refs x)(r \<mapsto> n + 1) \<rparr>"
    using run Some s0(1) o by (auto simp: Commands_def with_level_def scope_desc_default_def scope_copy_def split: if_splits)
  then show ?thesis using s0 o Some by simp
next
  case None
  let ?d = "scope_desc_default True"
  have lv: "sd_level ?d = 0" "sd_scopedBeginEnd ?d" by (simp_all add: scope_desc_default_def)
  obtain pl1 x0 where p1: "(if needs_array (cp_pending (pool0 q) 0) x then InternalEnqueueOnePending 0 (pool0 q) x
      else (pool0 q, x)) = (pl1, x0)" by force
  have l: "0 < cp_levels (pool0 q)" using run by (auto simp: Commands_def with_level_def lv split: if_splits)
  have r1: "cp_recording pl1 = cp_recording (pool0 q)" "cp_levels pl1 = cp_levels (pool0 q)" "refs x0 = refs x" "fresh_ref x0 = fresh_ref x"
    "\<And>l. l \<noteq> 0 \<Longrightarrow> cp_pending pl1 l = cp_pending (pool0 q) l" "\<And>a. a < fresh_array x \<Longrightarrow> arrays x0 a = arrays x a"
    using p1 by (auto simp: InternalEnqueueOnePending_def array_create_def put_array_def emit_def Let_def split: if_splits list.splits prod.splits)
  obtain s1 x2 where b: "scope_construct (fst (last (cp_pending pl1 0))) ?d x0 = Inr (s1, x2)"
    and cp: "scope_copy s1 x2 = Inr (s, x1)" and pl: "pl = pl1\<lparr> cp_recording := (cp_recording pl1)(0 := Some s1) \<rparr>"
    using run None p1 l r1(1) by (auto simp: Commands_def InternalBeginScope_def with_level_def lv Let_def bind_res_Inr destroy_opt_def)
  let ?a = "fst (last (cp_pending pl1 0))" and ?r = "fresh_ref x0"
  obtain i where ab: "array_Begin ?a (x0\<lparr> refs := (refs x0)(?r \<mapsto> 1), fresh_ref := ?r + 1 \<rparr>) = Inr (i, x2)"
    and s1: "s1 = \<lparr> sc_desc = ?d, sc_ref = Some ?r, sc_array = Some ?a, sc_index = i \<rparr>"
    using b by (auto simp: scope_construct_def Let_def lv bind_res_Inr)
  let ?x = "x0\<lparr> refs := (refs x0)(?r \<mapsto> 1), fresh_ref := ?r + 1 \<rparr>"
  obtain c where c: "arrays ?x ?a = Some c" "array_Head c < 3" "i = array_Head c" "\<not> bit (ca_flags c) (array_Head c)"
    "x2 = put_array ?a (c\<lparr> ca_flags := ca_flags c OR push_bit (array_Head c) 1, ca_head := ca_head c + 1 \<rparr>)
           (emit (VkBeginCommandBuffer (cb_of ?a c (array_Head c)) (ca_level c)) ?x)"
    by (rule array_Begin_cases [OF ab])
  let ?c = "c\<lparr> ca_flags := ca_flags c OR push_bit (array_Head c) 1, ca_head := ca_head c + 1 \<rparr>"
  have s: "s = s1" and x1: "arrays x1 = (arrays x0)(?a \<mapsto> ?c)" "refs x1 ?r = Some 2"
    using cp by (auto simp: scope_copy_def s1 c(5) put_array_def emit_def)
  have open1: "sc_ref s = Some ?r" "sc_array s = Some ?a" "sc_desc s = ?d" "sc_index s < 4" "bit (ca_flags ?c) (sc_index s)"
    using c(2,3) bit_begin [of "array_Head c" "ca_flags c" "array_Head c"] by (simp_all add: s s1)
  obtain st1 where i1: "q_inv (q\<lparr> pool0 := pl1 \<rparr>) x0 st1" and ne: "cp_pending pl1 0 \<noteq> []"
  proof (cases "needs_array (cp_pending (pool0 q) 0) x")
    case True
    with p1 InternalEnqueueOnePending_inv [OF inv l, of pl1 x0] that show ?thesis by auto
  next
    case False
    then have "pl1 = pool0 q" "x0 = x" using p1 by auto
    with that [of st] inv False show ?thesis by (simp add: needs_array_def)
  qed
  have frame: "arrays x1 a = arrays x a" if "l \<noteq> 0" "a \<in> fst ` set (cp_pending (pool0 q) l)" for l a
  proof -
    have m: "a \<in> set (pool_list (pool_of q False) KPending l)" using that(2) by (simp add: pool_list_def pool_of_def)
    then have "\<exists>c. arrays x a = Some c" using inv unfolding q_inv_def lists_ok_def listed_def by blast
    then have "a < fresh_array x" using inv unfolding q_inv_def store_ok_def by blast
    moreover have "a \<in> set (pool_list (pool_of (q\<lparr> pool0 := pl1 \<rparr>) False) KPending l)"
      "?a \<in> set (pool_list (pool_of (q\<lparr> pool0 := pl1 \<rparr>) False) KPending 0)"
      using that ne r1(5) by (simp_all add: pool_list_def pool_of_def)
    then have "a \<noteq> ?a" using i1 that(1) apart_unique unfolding q_inv_def by blast
    ultimately show ?thesis using r1(6) by (simp add: x1)
  qed
  have rec: "cp_recording pl 0 = Some s" "cp_levels pl = cp_levels (pool0 q)" "\<And>l. l \<noteq> 0 \<Longrightarrow> cp_pending pl l = cp_pending (pool0 q) l"
    using pl s r1(2,5) by simp_all
  have "refs x1 ?r = Some 2 \<and> (2 :: u32) - 1 \<noteq> 0 \<and> arrays x1 ?a = Some ?c" using x1 by simp
  moreover have "sd_scopedBeginEnd (sc_desc s)" "scope_desc_eq (sc_desc s) ?d"
    using open1(3) lv by (simp_all add: scope_desc_eq_def Let_def)
  ultimately show ?thesis using rec frame open1 by blast
qed

section \<open>Executing the buffers of a level\<close>

lemma emit_execute_inv:
  assumes "q_inv q x st" "statuses st h = Some RecordingState" "\<forall>g \<in> set hs. statuses st g = Some ExecutableState"
  shows "q_inv q (emit (VkCmdExecuteCommands h hs) x) st"
  using assms by (simp add: q_inv_def lists_ok_def listed_def store_ok_def order_ok_def recorded_in_def emit_def
    life_run_snoc list_all_iff primary_begun_def handed_over_def)

lemma execute_step_inv:
  assumes inv: "q_inv q x st" and ready: "primary_ready (pool0 q) x" and ended: "level_ended x (pool0 q) l" and l: "l \<noteq> 0"
    and run: "Commands (scope_desc_default True) (pool0 q) x = Inr (s, pl, x1)"
    and a: "a \<in> fst ` set (cp_pending (pool0 q) l)" "arrays x1 a = Some c" "array_Data a c = Inr hs"
    and b: "sc_array s = Some b" "arrays x1 b = Some cb"
    and d: "scope_destroy s (emit (VkCmdExecuteCommands (cb_of b cb (sc_index s)) (take (array_Head c) hs)) x1) = Inr x2"
  shows "(\<exists>st'. q_inv (q\<lparr> pool0 := pl \<rparr>) x2 st') \<and> primary_ready pl x2 \<and> level_ended x2 pl l
     \<and> cp_pending pl l = cp_pending (pool0 q) l"
proof -
  let ?q = "q\<lparr> pool0 := pl \<rparr>" and ?h = "cb_of b cb (sc_index s)" and ?e = "emit (VkCmdExecuteCommands (cb_of b cb (sc_index s)) (take (array_Head c) hs)) x1"
  note P = Commands_primary [OF inv ready run]
  obtain r n where o: "cp_recording pl 0 = Some s" "sd_scopedBeginEnd (sc_desc s)" "scope_desc_eq (sc_desc s) (scope_desc_default True)"
    "sc_ref s = Some r" "refs x1 r = Some n" "n - 1 \<noteq> 0" "sc_index s < 4" "bit (ca_flags cb) (sc_index s)"
    using P b by auto
  have frame: "cp_pending pl l = cp_pending (pool0 q) l" "\<And>a. a \<in> fst ` set (cp_pending (pool0 q) l) \<Longrightarrow> arrays x1 a = arrays x a"
    using P l by auto
  have ended1: "level_ended x1 pl l" unfolding level_ended_def frame(1) list_all_iff
    using level_endedD [OF ended] frame(2) by (force split: option.splits)
  obtain st1 where i1: "q_inv ?q x1 st1" using Commands_inv [OF inv run] by blast
  obtain b0 k0 l0 where "b \<in> set (pool_list (pool_of ?q b0) k0 l0)" "array_ok st1 k0 b cb"
    using store_listed [OF i1 b(2)] by metis
  from array_ok_recording [OF this(2) o(7,8)] have rec: "statuses st1 ?h = Some RecordingState" by simp
  have hs: "take (array_Head c) hs = map (cb_of a c) [0..<array_Head c]"
    using a(3) array_Head_less [of c] by (auto simp: array_Data_def bind_res_Inr kCommandBufferCount_def take_map take_upt split: if_splits)
  have "statuses st1 (cb_of a c i) = Some ExecutableState" if "i < array_Head c" for i
    using level_ended_executable(1) [OF i1, of l a c i] ended1 a(1,2) that frame(1) by simp
  then have "\<forall>g \<in> set (take (array_Head c) hs). statuses st1 g = Some ExecutableState" by (auto simp: hs)
  from emit_execute_inv [OF i1 rec this] have i2: "q_inv ?q ?e st1" .
  have x2: "x2 = ?e\<lparr> refs := (refs x1)(r \<mapsto> n - 1) \<rparr>"
    using d o b by (simp add: scope_destroy_def emit_def split: if_splits)
  have "q_inv ?q x2 st1" by (rule q_inv_ctx [OF i2]) (simp_all add: x2)
  moreover have "primary_ready pl x2" using o b by (simp add: primary_ready_def scope_open_def x2 emit_def array_Recording_bit)
  moreover have "level_ended x2 pl l" using ended1 by (simp add: level_ended_def x2 emit_def)
  ultimately show ?thesis using frame(1) by blast
qed

lemma with_array_Inr: "with_array a x f = Inr y \<longleftrightarrow> (\<exists>c. arrays x a = Some c \<and> f c = Inr y)"
  by (auto simp: with_array_def split: option.splits)

lemma execute_loop_inv:
  "q_inv q x st \<Longrightarrow> primary_ready (pool0 q) x \<Longrightarrow> level_ended x (pool0 q) l \<Longrightarrow> l \<noteq> 0 \<Longrightarrow> execute_loop k i l q x = Inr (q', x')
    \<Longrightarrow> (\<exists>st'. q_inv q' x' st') \<and> primary_ready (pool0 q') x' \<and> level_ended x' (pool0 q') l \<and> cp_pending (pool0 q') l = cp_pending (pool0 q) l"
proof (induction k arbitrary: i q x st)
  case (Suc k)
  show ?case
  proof (cases "i \<ge> length (cp_pending (pool0 q) l)")
    case True
    then show ?thesis using Suc.prems by auto
  next
    case False
    let ?a = "fst (cp_pending (pool0 q) l ! i)"
    have mem: "?a \<in> fst ` set (cp_pending (pool0 q) l)" using False by simp
    obtain s pl x1 c hs b cb x2 where run: "Commands (scope_desc_default True) (pool0 q) x = Inr (s, pl, x1)"
      and a: "arrays x1 ?a = Some c" "array_Data ?a c = Inr hs" and b: "sc_array s = Some b" "arrays x1 b = Some cb"
      and d: "scope_destroy s (emit (VkCmdExecuteCommands (cb_of b cb (sc_index s)) (take (array_Head c) hs)) x1) = Inr x2"
      and rest: "execute_loop k (i + 1) l (q\<lparr> pool0 := pl \<rparr>) x2 = Inr (q', x')"
      using Suc.prems(5) False by (auto simp: Let_def bind_res_Inr with_array_Inr split: option.split_asm)
    from execute_step_inv [OF Suc.prems(1-4) run mem a b d] obtain st' where
      "q_inv (q\<lparr> pool0 := pl \<rparr>) x2 st'" "primary_ready pl x2" "level_ended x2 pl l" "cp_pending pl l = cp_pending (pool0 q) l" by blast
    then show ?thesis using Suc.IH [OF _ _ _ Suc.prems(4) rest] by simp
  qed
qed auto

lemma Execute_inv:
  assumes inv: "q_inv q x st" and ok: "execute_ok l q x" and e: "Execute l t q x = Inr (q', x')"
  shows "\<exists>st'. q_inv q' x' st'"
proof -
  obtain pl x1 q2 where c: "InternalEndCommands l (pool0 q) x = Inr (pl, x1)"
    and lo: "execute_loop (length (cp_pending pl l) + 1) 0 l (q\<lparr> pool0 := pl \<rparr>) x1 = Inr (q2, x')"
    and q': "q' = q2\<lparr> pool0 := InternalEnqueueSubmitted l t (pool0 q2) \<rparr>"
    using e by (auto simp: Execute_def bind_res_Inr)
  have r: "l \<noteq> 0" "primary_ready pl x1" "level_ended x1 pl l" using ok c by (simp_all add: execute_ok_def)
  obtain st1 where i1: "q_inv (q\<lparr> pool0 := pl \<rparr>) x1 st1" using InternalEndCommands_inv [OF inv c] by blast
  obtain st2 where "q_inv q2 x' st2" "level_ended x' (pool0 q2) l"
    using execute_loop_inv [OF i1 _ _ r(1) lo] r(2,3) by auto
  then show ?thesis unfolding q' using submitted_inv [OF _ _ r(1)] by blast
qed

section \<open>Ending and presenting\<close>

lemma scope_End_inv: "q_inv q x st \<Longrightarrow> scope_End s x = Inr x' \<Longrightarrow> \<exists>st'. q_inv q x' st'"
  by (auto simp: scope_End_def dest: array_End_inv split: option.split_asm)

lemma present_inv:
  assumes "q_inv q x st"
  shows "q_inv (q\<lparr> pendingPresent := p \<rparr>) x st" "q_inv q (emit (VkQueuePresent p) x) st"
proof -
  show "q_inv (q\<lparr> pendingPresent := p \<rparr>) x st"
    by (rule q_inv_queue [OF assms]) (simp_all add: pool_of_def queued_def)
  show "q_inv q (emit (VkQueuePresent p) x) st"
    using assms by (simp add: q_inv_def lists_ok_def listed_def store_ok_def order_ok_def recorded_in_def emit_def
      life_run_snoc primary_begun_def handed_over_def)
qed

lemma EnqueuePresent_inv: "q_inv q x st \<Longrightarrow> q_inv (EnqueuePresent ps q) x st"
  by (simp add: EnqueuePresent_def present_inv)

lemma Present_inv: "q_inv q x st \<Longrightarrow> Present f i q x = Inr (h, q', x') \<Longrightarrow> q_inv q' x' st"
  by (auto simp: Present_def Let_def bind_res_Inr present_inv split: if_splits)

section \<open>Every client\<close>

lemma qexec_inv:
  assumes inv: "q_inv (qs_queue s) (qs_ctx s) st" and ok: "qop_ok op s" and e: "qexec op s = Inr s'"
  shows "\<exists>st'. q_inv (qs_queue s') (qs_ctx s') st'"
proof (cases op)
  case (QCommands d)
  with e Commands_inv [OF inv] show ?thesis by (auto simp: bind_res_Inr)
next
  case (QCopy i)
  with e scope_copy_inv [OF inv] have "q_inv (qs_queue s') (qs_ctx s') st" by (auto simp: bind_res_Inr)
  then show ?thesis by blast
next
  case (QDrop i)
  with e show ?thesis using scope_destroy_inv [OF inv] by (auto simp: bind_res_Inr)
next
  case (QEnqueueSubmit ss)
  with e EnqueueSubmit_inv [OF inv] show ?thesis by (auto simp: bind_res_Inr)
next
  case QSubmit
  with e Queue_Submit_inv [OF inv] show ?thesis by (auto split: prod.splits)
next
  case (QCompleted hs)
  with e ok inv Completed_inv [OF inv] show ?thesis by (auto simp: q_inv_def split: option.splits)
next
  case QSwapAndResetPool
  with e ok inv SwapAndResetPool_inv [OF inv] show ?thesis
    by (auto simp: bind_res_Inr q_inv_def list_all_iff)
next
  case (QEnd i)
  with e show ?thesis using scope_End_inv [OF inv] by (auto simp: bind_res_Inr)
next
  case (QExecute l t)
  with e ok show ?thesis using Execute_inv [OF inv] by (auto simp: bind_res_Inr)
next
  case (QEnqueuePresent ps)
  with e show ?thesis using EnqueuePresent_inv [OF inv, of ps] by auto
next
  case (QPresent fence ids)
  with e show ?thesis using Present_inv [OF inv, of fence ids] by (fastforce simp: bind_res_Inr)
qed

lemma q_init_inv:
  assumes "fl AND VK_COMMAND_POOL_CREATE_RESET_COMMAND_BUFFER_BIT \<noteq> 0"
  shows "\<exists>st. q_inv (qs_queue (q_init fl levels)) (qs_ctx (q_init fl levels)) st"
proof -
  have e: "pool_list (pool_of (qs_queue (q_init fl levels)) b) k l = []" for b k l
    by (cases k) (auto simp: q_init_def Queue_create_def CommandPool_create_def pool_list_def pool_of_def)
  show ?thesis using assms
    by (simp add: q_inv_def lists_ok_def lists_apart_def store_ok_def e)
      (auto simp: q_init_def Queue_create_def CommandPool_create_def vkctx0_def emit_def life0_def pools_ok_def
        pool_known_def queued_ok_def queued_def order_ok_def primary_begun_def handed_over_def recorded_in_def)
qed

lemma qruns_inv:
  "q_inv (qs_queue s) (qs_ctx s) st \<Longrightarrow> q_protocol ops s \<Longrightarrow> qruns ops s = Inr s' \<Longrightarrow>
     \<exists>st'. q_inv (qs_queue s') (qs_ctx s') st'"
proof (induction ops arbitrary: s st)
  case (Cons op ops)
  then obtain s1 where s1: "qexec op s = Inr s1" "qruns ops s1 = Inr s'" by (auto simp: bind_res_Inr)
  with Cons.prems qexec_inv obtain st1 where "q_inv (qs_queue s1) (qs_ctx s1) st1" by (metis q_protocol.simps(2))
  with Cons.IH Cons.prems(2) s1 show ?case by auto
qed auto

end
