(* ===== verification/Queue_Progress.thy ===== *)
theory Queue_Progress
imports Queue_Execute
begin

text \<open>
  When the operations of a queue succeed, and what they leave behind: recording at a level where nothing is
  pending, ending and dropping a scope, executing a level that has ended, enqueueing the one primary buffer
  of a frame, and swapping the pools of a queue that is at rest.
\<close>

section \<open>Recording\<close>

lemma commands_fresh:
  assumes inv: "q_inv q x st" and l: "sd_level d < cp_levels (pool0 q)" and rec: "cp_recording (pool0 q) (sd_level d) = None"
    and pend: "cp_pending (pool0 q) (sd_level d) = []" and sc: "sd_scopedBeginEnd d"
  shows "\<exists>s pl x1 a t c. Commands d (pool0 q) x = Inr (s, pl, x1)
    \<and> s = \<lparr> sc_desc = scope_desc_copy d, sc_ref = Some (fresh_ref x), sc_array = Some a, sc_index = 0 \<rparr>
    \<and> cp_recording pl = (cp_recording (pool0 q))(sd_level d \<mapsto> s) \<and> cp_pending pl = (cp_pending (pool0 q))(sd_level d := [(a, t)])
    \<and> cp_levels pl = cp_levels (pool0 q) \<and> refs x1 = (refs x)(fresh_ref x \<mapsto> 2) \<and> fresh_ref x1 = Suc (fresh_ref x)
    \<and> arrays x1 = (arrays x)(a \<mapsto> c) \<and> ca_flags c = 1 \<and> array_Head c = 1 \<and> (\<forall>j. a \<notin> fst ` set (cp_pending (pool0 q) j))"
proof -
  let ?l = "sd_level d"
  obtain pl0 x0 a t c0 where e: "InternalEnqueueOnePending ?l (pool0 q) x = (pl0, x0)"
    and p0: "cp_recording pl0 = cp_recording (pool0 q)" "cp_pending pl0 = (cp_pending (pool0 q))(?l := [(a, t)])" "cp_levels pl0 = cp_levels (pool0 q)"
    and x0: "refs x0 = refs x" "fresh_ref x0 = fresh_ref x" "arrays x0 = (arrays x)(a \<mapsto> c0)"
    and c0: "ca_flags c0 = 0" "ca_head c0 = 0" and new: "\<forall>j. a \<notin> fst ` set (cp_pending (pool0 q) j)"
  proof (cases "cp_free (pool0 q) ?l")
    case Nil
    let ?a = "fresh_array x"
    have "?a \<notin> fst ` set (cp_pending (pool0 q) j)" for j
    proof
      assume "?a \<in> fst ` set (cp_pending (pool0 q) j)"
      then have "?a \<in> set (pool_list (pool_of q False) KPending j)" by (simp add: pool_list_def pool_of_def)
      then obtain c where "arrays x ?a = Some c" using inv unfolding q_inv_def lists_ok_def listed_def by blast
      then show False using inv unfolding q_inv_def store_ok_def by blast
    qed
    then show ?thesis using that [of "(pool0 q)\<lparr> cp_pending := (cp_pending (pool0 q))(?l := [(?a, 0)]) \<rparr>"] Nil pend
      by (auto simp: InternalEnqueueOnePending_def array_create_def put_array_def emit_def Let_def)
  next
    case (Cons e rest)
    obtain a t where at: "e = (a, t)" by fastforce
    have m: "a \<in> set (pool_list (pool_of q False) KFree ?l)" using Cons at by (simp add: pool_list_def pool_of_def)
    then obtain c where c: "arrays x a = Some c" "array_ok st KFree a c" using inv unfolding q_inv_def lists_ok_def listed_def by blast
    have "array_Head c = 0" using array_okD [OF c(2), of 0] by (cases "array_Head c") (auto simp: status_ok_def)
    then have z: "ca_head c = 0" "ca_flags c = 0" using array_ok_flags_zero [OF c(2)] by (simp_all add: array_Head_def unat_eq_0)
    have "a \<notin> fst ` set (cp_pending (pool0 q) j)" for j
    proof
      assume "a \<in> fst ` set (cp_pending (pool0 q) j)"
      then have "a \<in> set (pool_list (pool_of q False) KPending j)" by (simp add: pool_list_def pool_of_def)
      then show False using m inv apart_unique unfolding q_inv_def by blast
    qed
    then show ?thesis using that [of _ x a t c] Cons at pend c z by (auto simp: InternalEnqueueOnePending_def fun_upd_idem)
  qed
  let ?s = "\<lparr> sc_desc = scope_desc_copy d, sc_ref = Some (fresh_ref x), sc_array = Some a, sc_index = 0 \<rparr>"
  let ?c = "c0\<lparr> ca_flags := 1, ca_head := 1 \<rparr>"
  have b: "scope_construct a d x0 = Inr (?s, put_array a ?c (emit (VkBeginCommandBuffer (cb_of a c0 0) (ca_level c0))
      (x0\<lparr> refs := (refs x0)(fresh_ref x \<mapsto> 1), fresh_ref := Suc (fresh_ref x) \<rparr>)))" (is "_ = Inr (_, ?x2)")
    using sc x0 c0 by (simp add: scope_construct_def Let_def array_Begin_def with_array_def array_Recording_def array_Full_def
      array_Head_def kCommandBufferCount_def)
  let ?x1 = "?x2\<lparr> refs := (refs ?x2)(fresh_ref x \<mapsto> 2) \<rparr>"
  have cp: "scope_copy ?s ?x2 = Inr (?s, ?x1)" by (simp add: scope_copy_def put_array_def emit_def)
  have "Commands d (pool0 q) x = Inr (?s, pl0\<lparr> cp_recording := (cp_recording pl0)(?l := Some ?s) \<rparr>, ?x1)"
    using l rec pend e p0 b cp by (simp add: Commands_def InternalBeginScope_def with_level_def needs_array_def destroy_opt_def Let_def)
  moreover have "arrays ?x1 = (arrays x)(a \<mapsto> ?c)" "refs ?x1 = (refs x)(fresh_ref x \<mapsto> 2)" "fresh_ref ?x1 = Suc (fresh_ref x)"
    using x0 by (simp_all add: put_array_def emit_def)
  ultimately show ?thesis using p0 new
    by (intro exI [of _ ?s] exI [of _ "pl0\<lparr> cp_recording := (cp_recording pl0)(?l := Some ?s) \<rparr>"] exI [of _ ?x1] exI [of _ a] exI [of _ t] exI [of _ ?c])
      (simp add: array_Head_def)
qed

lemma scope_End_open:
  assumes "sc_array s = Some a" "sc_index s = 0" "arrays x a = Some c" "ca_flags c = 1"
  shows "\<exists>x'. scope_End s x = Inr x' \<and> arrays x' = (arrays x)(a \<mapsto> c\<lparr> ca_flags := 0 \<rparr>) \<and> refs x' = refs x \<and> fresh_ref x' = fresh_ref x"
  using assms by (simp add: scope_End_def array_End_def with_array_def array_Recording_def kCommandBufferCount_def put_array_def emit_def Let_def)

lemma scope_destroy_ended:
  assumes "sc_ref s = Some r" "refs x r = Some n" "sc_array s = Some a" "arrays x a = Some c" "ca_flags c = 0" "sd_scopedBeginEnd (sc_desc s)"
  shows "scope_destroy s x = Inr (x\<lparr> refs := (refs x)(r \<mapsto> n - 1) \<rparr>)"
  using assms by (simp add: scope_destroy_def with_array_def array_Recording_def Let_def)

lemma scope_destroy_shared:
  assumes "sc_ref s = Some r" "refs x r = Some n" "n - 1 \<noteq> 0" "sc_array s = Some a" "sd_scopedBeginEnd (sc_desc s)"
  shows "scope_destroy s x = Inr (x\<lparr> refs := (refs x)(r \<mapsto> n - 1) \<rparr>)"
  using assms by (simp add: scope_destroy_def Let_def)

section \<open>Executing\<close>

definition primary_open :: "cpool \<Rightarrow> vkctx \<Rightarrow> scope \<Rightarrow> u32 \<Rightarrow> bool" where
  "primary_open pl x s n \<longleftrightarrow> 0 < cp_levels pl \<and> cp_recording pl 0 = Some s \<and> scope_desc_eq (sc_desc s) (scope_desc_default True)
     \<and> sd_scopedBeginEnd (sc_desc s) \<and> n \<noteq> 0 \<and> sc_index s = 0
     \<and> (\<exists>r a c. sc_ref s = Some r \<and> refs x r = Some n \<and> sc_array s = Some a \<and> arrays x a = Some c \<and> ca_flags c = 1)"

definition level_over :: "cpool \<Rightarrow> vkctx \<Rightarrow> nat \<Rightarrow> nat \<Rightarrow> bool" where
  "level_over pl x r0 l \<longleftrightarrow> level_ended x pl l \<and> (case cp_recording pl l of None \<Rightarrow> True
     | Some s \<Rightarrow> sd_scopedBeginEnd (sc_desc s) \<and> (\<exists>r n a c. sc_ref s = Some r \<and> r \<noteq> r0 \<and> refs x r = Some n
         \<and> sc_array s = Some a \<and> arrays x a = Some c \<and> ca_flags c = 0))"

lemma commands_shared:
  assumes "primary_open pl x s n"
  shows "Commands (scope_desc_default True) pl x = Inr (s, pl, x\<lparr> refs := (refs x)(the (sc_ref s) \<mapsto> n + 1) \<rparr>)"
  using assms by (auto simp: primary_open_def Commands_def with_level_def scope_desc_default_def scope_copy_def)

lemma execute_loop_effect:
  assumes "primary_open (pool0 q) x s n" "level_ended x (pool0 q) l"
  shows "\<exists>x'. execute_loop k i l q x = Inr (q, x') \<and> arrays x' = arrays x \<and> refs x' = refs x \<and> fresh_ref x' = fresh_ref x"
  using assms
proof (induction k arbitrary: i x)
  case (Suc k)
  show ?case
  proof (cases "i \<ge> length (cp_pending (pool0 q) l)")
    case False
    let ?a = "fst (cp_pending (pool0 q) l ! i)"
    obtain c where c: "arrays x ?a = Some c" "ca_flags c = 0" using level_endedD [OF Suc.prems(2), of ?a] False by auto
    obtain r b cb where o: "sc_ref s = Some r" "refs x r = Some n" "sc_array s = Some b" "arrays x b = Some cb" "n \<noteq> 0" "sd_scopedBeginEnd (sc_desc s)"
      using Suc.prems(1) by (auto simp: primary_open_def)
    let ?e = "emit (VkCmdExecuteCommands (cb_of b cb (sc_index s)) (take (array_Head c) (map (cb_of ?a c) [0..<kCommandBufferCount])))
        (x\<lparr> refs := (refs x)(r \<mapsto> n + 1) \<rparr>)"
    let ?x = "?e\<lparr> refs := refs x \<rparr>"
    have "scope_destroy s ?e = Inr ?x"
      using scope_destroy_shared [of s r ?e "n + 1" b] o by (simp add: emit_def fun_upd_idem)
    then have "execute_loop (Suc k) i l q x = execute_loop k (i + 1) l q ?x"
      using False commands_shared [OF Suc.prems(1)] o c by (simp add: Let_def with_array_def array_Data_def)
    moreover have "primary_open (pool0 q) ?x s n" "level_ended ?x (pool0 q) l"
      using Suc.prems by (simp_all add: primary_open_def level_ended_def emit_def)
    ultimately show ?thesis using Suc.IH [of ?x "i + 1"] by (simp add: emit_def)
  qed simp
qed simp

lemma InternalEndCommands_over:
  assumes "level_over (pool0 q) x r0 l" "l < cp_levels (pool0 q)"
  shows "\<exists>x'. InternalEndCommands l (pool0 q) x = Inr ((pool0 q)\<lparr> cp_recording := (cp_recording (pool0 q))(l := None) \<rparr>, x')
    \<and> arrays x' = arrays x \<and> (\<forall>r. refs x' r = None \<longleftrightarrow> refs x r = None) \<and> refs x' r0 = refs x r0 \<and> fresh_ref x' = fresh_ref x"
proof (cases "cp_recording (pool0 q) l")
  case None
  then show ?thesis using assms(2) by (simp add: InternalEndCommands_def with_level_def destroy_opt_def)
next
  case (Some s)
  then obtain r n a c where "sc_ref s = Some r" "r \<noteq> r0" "refs x r = Some n" "sc_array s = Some a" "arrays x a = Some c" "ca_flags c = 0"
    "sd_scopedBeginEnd (sc_desc s)" using assms(1) by (auto simp: level_over_def)
  then show ?thesis using Some assms(2) scope_destroy_ended [of s r x n a c]
    by (simp add: InternalEndCommands_def with_level_def destroy_opt_def)
qed

lemma execute_effect:
  assumes o: "primary_open (pool0 q) x s n" and v: "level_over (pool0 q) x (the (sc_ref s)) l" and l: "l < cp_levels (pool0 q)" "l \<noteq> 0"
  shows "execute_ok l q x"
    and "\<exists>q' x'. Execute l t q x = Inr (q', x')
      \<and> q' = q\<lparr> pool0 := InternalEnqueueSubmitted l t ((pool0 q)\<lparr> cp_recording := (cp_recording (pool0 q))(l := None) \<rparr>) \<rparr>
      \<and> arrays x' = arrays x \<and> (\<forall>r. refs x' r = None \<longleftrightarrow> refs x r = None) \<and> refs x' (the (sc_ref s)) = refs x (the (sc_ref s)) \<and> fresh_ref x' = fresh_ref x"
proof -
  let ?pl = "(pool0 q)\<lparr> cp_recording := (cp_recording (pool0 q))(l := None) \<rparr>" and ?r = "the (sc_ref s)"
  obtain x1 where e: "InternalEndCommands l (pool0 q) x = Inr (?pl, x1)" and x1: "arrays x1 = arrays x"
    "\<forall>r. refs x1 r = None \<longleftrightarrow> refs x r = None" "refs x1 ?r = refs x ?r" "fresh_ref x1 = fresh_ref x"
    using InternalEndCommands_over [OF v l(1)] by blast
  have o1: "primary_open ?pl x1 s n" using o l(2) x1 by (auto simp: primary_open_def)
  have v1: "level_ended x1 ?pl l" using v by (simp add: level_over_def level_ended_def x1)
  have "primary_ready ?pl x1" using o1 by (auto simp: primary_ready_def primary_open_def scope_open_def array_Recording_def)
  then show "execute_ok l q x" using e v1 l(2) by (simp add: execute_ok_def)
  have "\<exists>x2. execute_loop (length (cp_pending ?pl l) + 1) 0 l (q\<lparr> pool0 := ?pl \<rparr>) x1 = Inr (q\<lparr> pool0 := ?pl \<rparr>, x2)
      \<and> arrays x2 = arrays x1 \<and> refs x2 = refs x1 \<and> fresh_ref x2 = fresh_ref x1"
    by (rule execute_loop_effect [where s = s and n = n]) (use o1 v1 in simp_all)
  then obtain x2 where "execute_loop (length (cp_pending ?pl l) + 1) 0 l (q\<lparr> pool0 := ?pl \<rparr>) x1 = Inr (q\<lparr> pool0 := ?pl \<rparr>, x2)"
    "arrays x2 = arrays x1" "refs x2 = refs x1" "fresh_ref x2 = fresh_ref x1" by blast
  then show "\<exists>q' x'. Execute l t q x = Inr (q', x') \<and> q' = q\<lparr> pool0 := InternalEnqueueSubmitted l t ?pl \<rparr>
      \<and> arrays x' = arrays x \<and> (\<forall>r. refs x' r = None \<longleftrightarrow> refs x r = None) \<and> refs x' ?r = refs x ?r \<and> fresh_ref x' = fresh_ref x"
    using e x1 by (simp add: Execute_def del: execute_loop.simps One_nat_def add_Suc_right Suc_eq_plus1_left)
qed

section \<open>Enqueueing the primary buffer\<close>

text \<open>The primary buffer has ended; the scope that records it is still shared with the client.\<close>

definition primary_ended :: "cpool \<Rightarrow> vkctx \<Rightarrow> scope \<Rightarrow> u32 \<Rightarrow> bool" where
  "primary_ended pl x s n \<longleftrightarrow> 0 < cp_levels pl \<and> cp_recording pl 0 = Some s \<and> sd_scopedBeginEnd (sc_desc s)
     \<and> (\<exists>r a t c. sc_ref s = Some r \<and> refs x r = Some n \<and> sc_array s = Some a \<and> arrays x a = Some c \<and> ca_flags c = 0
         \<and> array_Head c = 1 \<and> cp_pending pl 0 = [(a, t)])"

lemma enqueue_effect:
  assumes "primary_ended (pool0 q) x s n" "signalSemaphoreValues si = v # vs"
  shows "\<exists>h. EnqueueSubmit [si] q x = Inr (q\<lparr> pool0 := InternalEnqueueSubmitted 0 (foldl max v vs) ((pool0 q)\<lparr> cp_recording := (cp_recording (pool0 q))(0 := None) \<rparr>),
       pendingSubmits := pendingSubmits q @ [sync_info.extend si \<lparr> commandBuffers = [h], timelineValue = foldl max v vs \<rparr>] \<rparr>,
     x\<lparr> refs := (refs x)(the (sc_ref s) \<mapsto> n - 1) \<rparr>)"
proof -
  obtain r a t c where o: "cp_recording (pool0 q) 0 = Some s" "0 < cp_levels (pool0 q)" "sc_ref s = Some r" "refs x r = Some n" "sc_array s = Some a"
    "arrays x a = Some c" "ca_flags c = 0" "array_Head c = 1" "cp_pending (pool0 q) 0 = [(a, t)]" "sd_scopedBeginEnd (sc_desc s)"
    using assms(1) by (auto simp: primary_ended_def)
  let ?pl = "(pool0 q)\<lparr> cp_recording := (cp_recording (pool0 q))(0 := None) \<rparr>" and ?x = "x\<lparr> refs := (refs x)(r \<mapsto> n - 1) \<rparr>"
  have e: "InternalEndCommands 0 (pool0 q) x = Inr (?pl, ?x)"
    using o scope_destroy_ended [of s r x n a c] by (simp add: InternalEndCommands_def with_level_def destroy_opt_def)
  have "gather [(a, t)] ?x = Inr [cb_of a c 0]" using o by (simp add: with_array_def array_Data_def kCommandBufferCount_def upt_rec)
  then show ?thesis using e o assms(2) by (intro exI [of _ "cb_of a c 0"]) (simp add: InternalPrepareSubmit_def Let_def)
qed

section \<open>What the device has\<close>

fun in_flight :: "vk_event list \<Rightarrow> cb_handle list \<Rightarrow> cb_handle list" where
  "in_flight [] hs = hs"
| "in_flight (VkQueueSubmit ss # t) hs = in_flight t (hs @ concat (map commandBuffers ss))"
| "in_flight (DeviceCompleted gs # t) hs = in_flight t (filter (\<lambda>h. h \<notin> set gs) hs)"
| "in_flight (_ # t) hs = in_flight t hs"

lemma in_flight_snoc: "in_flight (t @ [e]) hs = in_flight [e] (in_flight t hs)"
  by (induction t hs rule: in_flight.induct) auto

section \<open>Swapping the pools\<close>

lemma reset_list_ok:
  "(\<And>a. a \<in> fst ` set ps \<Longrightarrow> \<exists>c. arrays x a = Some c \<and> ca_flags c = 0) \<Longrightarrow>
     \<exists>x'. reset_list ps x = Inr x' \<and> (\<forall>a c. arrays x a = Some c \<and> ca_flags c = 0 \<longrightarrow> (\<exists>c'. arrays x' a = Some c' \<and> ca_flags c' = 0))
       \<and> in_flight (calls x') [] = in_flight (calls x) []"
proof (induction ps arbitrary: x)
  case (Cons p ps)
  obtain a t where p: "p = (a, t)" by fastforce
  obtain c where c: "arrays x a = Some c" "ca_flags c = 0" using Cons.prems [of a] by (auto simp: p)
  have keep: "arrays (foldl (\<lambda>x i. emit (VkResetCommandBuffer (g i) b) x) x is) = arrays x
      \<and> in_flight (calls (foldl (\<lambda>x i. emit (VkResetCommandBuffer (g i) b) x) x is)) [] = in_flight (calls x) []" for g b "is"
    by (induction "is" arbitrary: x) (simp_all add: emit_def in_flight_snoc)
  obtain x1 where x1: "array_Reset a x = Inr x1" "arrays x1 = (arrays x)(a \<mapsto> c\<lparr> ca_head := 0, ca_flags := 0 \<rparr>)"
    "in_flight (calls x1) [] = in_flight (calls x) []"
    using c array_Head_less [of c] by (simp add: array_Reset_def with_array_def kCommandBufferCount_def put_array_def Let_def keep)
  have k: "\<exists>c'. arrays x1 b = Some c' \<and> ca_flags c' = 0" if "arrays x b = Some d" "ca_flags d = 0" for b d
    using that by (cases "b = a") (simp_all add: x1(2))
  have "\<exists>c. arrays x1 b = Some c \<and> ca_flags c = 0" if "b \<in> fst ` set ps" for b
    using Cons.prems [of b] that k by fastforce
  then obtain x' where x': "reset_list ps x1 = Inr x'"
    "\<forall>a c. arrays x1 a = Some c \<and> ca_flags c = 0 \<longrightarrow> (\<exists>c'. arrays x' a = Some c' \<and> ca_flags c' = 0)"
    "in_flight (calls x') [] = in_flight (calls x1) []" using Cons.IH [of x1] by blast
  show ?case using x1(1,3) x'(1,3) k x'(2) by (auto simp: p)
qed auto

lemma reset_levels_ok:
  "(\<And>j a. a \<in> fst ` set (cp_submitted pl j) \<Longrightarrow> \<exists>c. arrays x a = Some c \<and> ca_flags c = 0) \<Longrightarrow>
     \<exists>pl' x'. reset_levels l k pl x = Inr (pl', x') \<and> cp_pending pl' = cp_pending pl \<and> cp_recording pl' = cp_recording pl
       \<and> cp_levels pl' = cp_levels pl \<and> cp_handle pl' = cp_handle pl \<and> in_flight (calls x') [] = in_flight (calls x) []"
proof (induction k arbitrary: l pl x)
  case (Suc k)
  let ?pl = "pl\<lparr> cp_free := (cp_free pl)(l := cp_free pl l @ cp_submitted pl l), cp_submitted := (cp_submitted pl)(l := []) \<rparr>"
  obtain x1 where x1: "reset_list (cp_submitted pl l) x = Inr x1"
    "\<forall>a c. arrays x a = Some c \<and> ca_flags c = 0 \<longrightarrow> (\<exists>c'. arrays x1 a = Some c' \<and> ca_flags c' = 0)"
    "in_flight (calls x1) [] = in_flight (calls x) []"
    using reset_list_ok [of "cp_submitted pl l" x] Suc.prems by blast
  have "\<exists>c. arrays x1 a = Some c \<and> ca_flags c = 0" if "a \<in> fst ` set (cp_submitted ?pl j)" for j a
  proof -
    have "a \<in> fst ` set (cp_submitted pl j)" using that by (auto split: if_splits)
    then show ?thesis using Suc.prems x1(2) by blast
  qed
  from Suc.IH [of ?pl x1 "l + 1", OF this] show ?case using x1(1,3) by auto
qed simp

lemma swap_effect:
  assumes inv: "q_inv q x st" and "pendingSubmits q = []" "pendingPresent q = empty_present"
  shows "\<exists>pl x'. SwapAndResetPool q x = Inr (q\<lparr> pool0 := pl, pool1 := pool0 q \<rparr>, x') \<and> cp_pending pl = cp_pending (pool1 q)
     \<and> cp_recording pl = cp_recording (pool1 q) \<and> cp_levels pl = cp_levels (pool1 q) \<and> in_flight (calls x') [] = in_flight (calls x) []"
proof -
  let ?x = "emit (VkResetCommandPool (cp_handle (pool1 q))) x"
  have flags: "\<exists>c. arrays ?x a = Some c \<and> ca_flags c = 0" if "a \<in> fst ` set (cp_submitted (pool1 q) j)" for j a
  proof -
    have "a \<in> set (pool_list (pool_of q True) KSubmitted j)" using that by (simp add: pool_list_def pool_of_def)
    then obtain c where "arrays x a = Some c" "array_ok st KSubmitted a c" using inv unfolding q_inv_def lists_ok_def listed_def by blast
    then show ?thesis using array_ok_flags_zero [of st KSubmitted a c] by (simp add: emit_def)
  qed
  have "cp_flags (pool1 q) AND VK_COMMAND_POOL_CREATE_RESET_COMMAND_BUFFER_BIT \<noteq> 0"
    using inv by (simp add: q_inv_def pools_ok_def pool_known_def)
  moreover obtain pl x' where "reset_levels 0 (cp_levels (pool1 q)) (pool1 q) ?x = Inr (pl, x')" "cp_pending pl = cp_pending (pool1 q)"
    "cp_recording pl = cp_recording (pool1 q)" "cp_levels pl = cp_levels (pool1 q)" "in_flight (calls x') [] = in_flight (calls ?x) []"
    using reset_levels_ok [where pl = "pool1 q" and x = ?x and l = 0 and k = "cp_levels (pool1 q)"] flags by blast
  ultimately show ?thesis using assms(2,3)
    by (intro exI [of _ pl] exI [of _ x']) (simp add: SwapAndResetPool_def CommandPool_Reset_def empty_present_def emit_def in_flight_snoc)
qed

lemma move_all_distinct_from:
  "move_all s s' hs st = Some st' \<Longrightarrow> s \<noteq> s' \<Longrightarrow> distinct hs \<and> (\<forall>h \<in> set hs. statuses st h = Some s)"
proof (induction hs arbitrary: st)
  case (Cons h hs)
  then have h: "statuses st h = Some s" and m: "move_all s s' hs (set_status h s' st) = Some st'" by (auto split: if_splits)
  have "distinct hs" "\<forall>g \<in> set hs. statuses (set_status h s' st) g = Some s" using Cons.IH [OF m] Cons.prems(2) by simp_all
  moreover from this(2) have "h \<notin> set hs" using Cons.prems(2) by (auto simp: set_status_def)
  ultimately show ?case using h by (auto simp: set_status_def split: if_splits)
qed simp

definition flight_ok :: "cb_handle list \<Rightarrow> life \<Rightarrow> bool" where
  "flight_ok hs st \<longleftrightarrow> distinct hs \<and> set hs = {h. statuses st h = Some PendingState}
     \<and> (\<forall>p a i. statuses st (p, a, i) \<noteq> None \<longrightarrow> (p, a) \<in> set (allocs st) \<and> i < 4)"

lemma flight_ok_set:
  assumes "flight_ok hs st" "statuses st h \<noteq> None" "statuses st h \<noteq> Some PendingState" "s \<noteq> PendingState"
  shows "flight_ok hs (set_status h s st)"
proof -
  have "{g. statuses (set_status h s st) g = Some PendingState} = {g. statuses st g = Some PendingState}"
    using assms(3,4) by (auto simp: set_status_def)
  moreover have "statuses (set_status h s st) g = None \<longleftrightarrow> statuses st g = None" for g
    using assms(2) by (cases "g = h") (auto simp: set_status_def)
  moreover have "allocs (set_status h s st) = allocs st" by (simp add: set_status_def)
  ultimately show ?thesis using assms(1) unfolding flight_ok_def by simp
qed

text \<open>After any log the driver accepts, exactly the buffers in flight are pending.\<close>

lemma in_flight_pending:
  assumes "life_run t life0 = Some st"
  shows "flight_ok (in_flight t []) st"
  using assms
proof (induction t arbitrary: st rule: rev_induct)
  case Nil
  then show ?case by (auto simp: flight_ok_def life0_def)
next
  case (snoc e t)
  obtain s1 where s1: "life_run t life0 = Some s1" "life_step s1 e = Some st"
    using snoc.prems by (auto simp: life_run_append split: option.splits)
  have ok: "flight_ok (in_flight t []) s1" by (rule snoc.IH [OF s1(1)])
  then have IH: "distinct (in_flight t [])" "set (in_flight t []) = {h. statuses s1 h = Some PendingState}"
    "\<forall>p a i. statuses s1 (p, a, i) \<noteq> None \<longrightarrow> (p, a) \<in> set (allocs s1) \<and> i < 4" by (auto simp: flight_ok_def)
  note sn = in_flight_snoc [of t e "[]"]
  show ?case
  proof (cases e)
    case (VkQueueSubmit ss)
    let ?hs = "concat (map commandBuffers ss)"
    have m: "move_all ExecutableState PendingState ?hs s1 = Some st" using s1(2) VkQueueSubmit by simp
    from move_all_distinct_from [OF m] have d: "distinct ?hs" "\<forall>h \<in> set ?hs. statuses s1 h = Some ExecutableState" by simp_all
    from move_all_effect [OF m] have st: "st = s1\<lparr> statuses := (\<lambda>h. if h \<in> set ?hs then Some PendingState else statuses s1 h) \<rparr>" by blast
    have "set (in_flight t []) \<inter> set ?hs = {}" using d(2) IH(2) by auto
    then have "distinct (in_flight t [] @ ?hs)" using d(1) IH(1) by simp
    moreover have "set (in_flight t [] @ ?hs) = {h. statuses st h = Some PendingState}" using IH(2) unfolding st by auto
    moreover have "statuses st h = None \<longleftrightarrow> statuses s1 h = None" for h
      using d(2) by (cases "h \<in> set ?hs") (simp_all add: st del: set_concat)
    moreover have "allocs st = allocs s1" by (simp add: st)
    ultimately show ?thesis using sn IH(3) unfolding VkQueueSubmit flight_ok_def by simp
  next
    case (DeviceCompleted gs)
    have m: "move_all PendingState InvalidState gs s1 = Some st" using s1(2) DeviceCompleted by simp
    from move_all_distinct_from [OF m] have d: "\<forall>h \<in> set gs. statuses s1 h = Some PendingState" by simp
    from move_all_effect [OF m] have st: "st = s1\<lparr> statuses := (\<lambda>h. if h \<in> set gs then Some InvalidState else statuses s1 h) \<rparr>" by blast
    have "distinct (filter (\<lambda>h. h \<notin> set gs) (in_flight t []))" using IH(1) by simp
    moreover have "set (filter (\<lambda>h. h \<notin> set gs) (in_flight t [])) = {h. statuses st h = Some PendingState}" using IH(2) unfolding st by auto
    moreover have "statuses st h = None \<longleftrightarrow> statuses s1 h = None" for h using d by (cases "h \<in> set gs") (simp_all add: st)
    moreover have "allocs st = allocs s1" by (simp add: st)
    ultimately show ?thesis using sn IH(3) unfolding DeviceCompleted flight_ok_def by simp
  next
    case (VkAllocateCommandBuffers p a)
    then have n: "(p, a) \<notin> set (allocs s1)" and st: "st = s1\<lparr> allocs := (p, a) # allocs s1,
        statuses := (\<lambda>(q, b, i). if q = p \<and> b = a \<and> i < 4 then Some InitialState else statuses s1 (q, b, i)) \<rparr>"
      using s1(2) by (auto split: if_splits)
    have "statuses s1 (p, a, i) = None" for i using n IH(3) by blast
    then have "{h. statuses st h = Some PendingState} = {h. statuses s1 h = Some PendingState}" unfolding st by (auto split: if_splits)
    then show ?thesis using sn IH unfolding VkAllocateCommandBuffers flight_ok_def st by (auto split: if_splits)
  next
    case (VkResetCommandPool p)
    then have i: "pool_idle s1 p" and st: "st = s1\<lparr> statuses := (\<lambda>h. if fst h = p then map_option (\<lambda>_. InitialState) (statuses s1 h) else statuses s1 h) \<rparr>"
      using s1(2) by (auto split: if_splits)
    have "fst h \<noteq> p" if "statuses s1 h = Some PendingState" for h
    proof
      assume "fst h = p"
      obtain q a j where h: "h = (q, a, j)" by (metis surj_pair)
      have "(q, a) \<in> set (allocs s1)" "j < 4" using IH(3) that h by (metis option.distinct(1))+
      then show False using i that h \<open>fst h = p\<close> by (auto simp: pool_idle_def list_all_iff)
    qed
    then have "{h. statuses st h = Some PendingState} = {h. statuses s1 h = Some PendingState}" unfolding st by (auto split: if_splits)
    then show ?thesis using sn IH unfolding VkResetCommandPool flight_ok_def st by (auto split: if_splits)
  next
    case (VkCreateCommandPool p f)
    then have "st = s1\<lparr> pool_flags := (pool_flags s1)(p \<mapsto> f) \<rparr>" using s1(2) by (auto split: if_splits)
    then show ?thesis using sn ok VkCreateCommandPool by (simp add: flight_ok_def)
  next
    case (VkBeginCommandBuffer h l)
    then show ?thesis using s1(2) sn flight_ok_set [OF ok, of h RecordingState] by (auto split: if_splits)
  next
    case (VkEndCommandBuffer h)
    then show ?thesis using s1(2) sn flight_ok_set [OF ok, of h ExecutableState] by (auto split: if_splits)
  next
    case (VkResetCommandBuffer h r)
    then show ?thesis using s1(2) sn flight_ok_set [OF ok, of h InitialState] by (auto split: if_splits)
  qed (use s1(2) sn ok in \<open>auto simp: flight_ok_def split: if_splits\<close>)
qed

end
