(* ===== verification/Frame_Phases.thy ===== *)
theory Frame_Phases
imports Queue_Progress
begin

text \<open>
  The phases a queue goes through in a frame: at rest, recording the primary buffer (with some levels of
  secondary buffers recorded and not executed yet), ended, enqueued. Each operation of a frame succeeds in its
  phase and leads to the next.
\<close>

definition queue_calm :: "nat \<Rightarrow> queue \<Rightarrow> bool" where
  "queue_calm levels q \<longleftrightarrow> cp_levels (pool0 q) = levels \<and> cp_levels (pool1 q) = levels \<and> 0 < levels
     \<and> (\<forall>l. cp_recording (pool1 q) l = None) \<and> pendingPresent q = empty_present"

definition queue_rest :: "nat \<Rightarrow> qstate \<Rightarrow> bool" where
  "queue_rest levels s \<longleftrightarrow> (\<exists>st. q_inv (qs_queue s) (qs_ctx s) st) \<and> queue_calm levels (qs_queue s) \<and> qs_held s = []
     \<and> (\<forall>l. cp_recording (pool0 (qs_queue s)) l = None \<and> cp_pending (pool0 (qs_queue s)) l = []) \<and> pendingSubmits (qs_queue s) = []"

definition primary_alone :: "queue \<Rightarrow> vkctx \<Rightarrow> scope \<Rightarrow> bool" where
  "primary_alone q x p \<longleftrightarrow> (\<exists>r a t c. sc_ref p = Some r \<and> r < fresh_ref x \<and> sc_array p = Some a \<and> arrays x a = Some c
     \<and> array_Head c = 1 \<and> cp_pending (pool0 q) 0 = [(a, t)])"

definition queue_recording :: "nat \<Rightarrow> nat set \<Rightarrow> scope \<Rightarrow> qstate \<Rightarrow> bool" where
  "queue_recording levels L p s \<longleftrightarrow> (\<exists>st. q_inv (qs_queue s) (qs_ctx s) st) \<and> queue_calm levels (qs_queue s) \<and> qs_held s = [p]
     \<and> primary_open (pool0 (qs_queue s)) (qs_ctx s) p 2 \<and> primary_alone (qs_queue s) (qs_ctx s) p
     \<and> (\<forall>l. 0 < l \<longrightarrow> level_over (pool0 (qs_queue s)) (qs_ctx s) (the (sc_ref p)) l)
     \<and> (\<forall>l. 0 < l \<and> l \<notin> L \<longrightarrow> cp_recording (pool0 (qs_queue s)) l = None \<and> cp_pending (pool0 (qs_queue s)) l = [])
     \<and> pendingSubmits (qs_queue s) = []"

lemma level_over_idle: "cp_recording pl l = None \<Longrightarrow> cp_pending pl l = [] \<Longrightarrow> level_over pl x r l"
  by (simp add: level_over_def level_ended_def)

lemma phase_begin:
  assumes "queue_rest levels s"
  shows "\<exists>s' p. qexec (QCommands (scope_desc_default True)) s = Inr s' \<and> queue_recording levels {} p s'"
proof -
  let ?d = "scope_desc_default True" and ?q = "qs_queue s" and ?x = "qs_ctx s"
  obtain st where inv: "q_inv ?q ?x st" using assms by (auto simp: queue_rest_def)
  have lv: "sd_level ?d = 0" "sd_scopedBeginEnd ?d" "scope_desc_eq ?d ?d" by (simp_all add: scope_desc_default_def scope_desc_eq_def)
  have q: "queue_calm levels ?q" "qs_held s = []" "\<And>l. cp_recording (pool0 ?q) l = None" "\<And>l. cp_pending (pool0 ?q) l = []" "pendingSubmits ?q = []"
    using assms by (simp_all add: queue_rest_def)
  obtain p pl x1 a t c where c: "Commands ?d (pool0 ?q) ?x = Inr (p, pl, x1)"
    and p: "p = \<lparr> sc_desc = ?d, sc_ref = Some (fresh_ref ?x), sc_array = Some a, sc_index = 0 \<rparr>"
    and pl: "cp_recording pl = (cp_recording (pool0 ?q))(0 \<mapsto> p)" "cp_pending pl = (cp_pending (pool0 ?q))(0 := [(a, t)])"
      "cp_levels pl = cp_levels (pool0 ?q)"
    and x1: "refs x1 = (refs ?x)(fresh_ref ?x \<mapsto> 2)" "fresh_ref x1 = Suc (fresh_ref ?x)" "arrays x1 = (arrays ?x)(a \<mapsto> c)" "ca_flags c = 1" "array_Head c = 1"
    using commands_fresh [OF inv, of ?d] q lv by (auto simp: queue_calm_def)
  let ?s = "\<lparr> qs_queue = ?q\<lparr> pool0 := pl \<rparr>, qs_ctx = x1, qs_held = [p] \<rparr>"
  have "qexec (QCommands ?d) s = Inr ?s" using c q(2) by simp
  moreover have "queue_recording levels {} p ?s"
  proof -
    have "\<exists>st'. q_inv (?q\<lparr> pool0 := pl \<rparr>) x1 st'" by (rule Commands_inv [OF inv c])
    moreover have "primary_open pl x1 p 2" using q(1) lv pl x1 by (simp add: primary_open_def queue_calm_def p)
    moreover have "primary_alone (?q\<lparr> pool0 := pl \<rparr>) x1 p" using pl x1 by (simp add: primary_alone_def p)
    moreover have "cp_recording pl l = None" "cp_pending pl l = []" if "0 < l" for l using that pl q by simp_all
    ultimately show ?thesis using q pl by (simp add: queue_recording_def queue_calm_def level_over_idle)
  qed
  ultimately show ?thesis by blast
qed

lemma phase_thread:
  assumes "queue_recording levels L p s" "sd_level d = l" "0 < l" "l < levels" "l \<notin> L" "sd_scopedBeginEnd d"
  shows "\<exists>s'. fold_res qexec [QCommands d, QEnd 1, QDrop 1] s = Inr s' \<and> queue_recording levels (insert l L) p s'"
proof -
  let ?q = "qs_queue s" and ?x = "qs_ctx s"
  obtain st where inv: "q_inv ?q ?x st" using assms(1) by (auto simp: queue_recording_def)
  have q: "queue_calm levels ?q" "qs_held s = [p]" "primary_open (pool0 ?q) ?x p 2" "pendingSubmits ?q = []"
    "\<And>l. 0 < l \<Longrightarrow> level_over (pool0 ?q) ?x (the (sc_ref p)) l"
    "\<And>l. 0 < l \<Longrightarrow> l \<notin> L \<Longrightarrow> cp_recording (pool0 ?q) l = None \<and> cp_pending (pool0 ?q) l = []"
    using assms(1) by (simp_all add: queue_recording_def)
  obtain r0 a0 t0 c0 where p0: "sc_ref p = Some r0" "r0 < fresh_ref ?x" "sc_array p = Some a0" "arrays ?x a0 = Some c0" "array_Head c0 = 1"
    "cp_pending (pool0 ?q) 0 = [(a0, t0)]" using assms(1) by (auto simp: queue_recording_def primary_alone_def)
  obtain z pl x1 a t c where c: "Commands d (pool0 ?q) ?x = Inr (z, pl, x1)"
    and z: "z = \<lparr> sc_desc = scope_desc_copy d, sc_ref = Some (fresh_ref ?x), sc_array = Some a, sc_index = 0 \<rparr>"
    and pl: "cp_recording pl = (cp_recording (pool0 ?q))(l \<mapsto> z)" "cp_pending pl = (cp_pending (pool0 ?q))(l := [(a, t)])"
      "cp_levels pl = cp_levels (pool0 ?q)"
    and x1: "refs x1 = (refs ?x)(fresh_ref ?x \<mapsto> 2)" "fresh_ref x1 = Suc (fresh_ref ?x)" "arrays x1 = (arrays ?x)(a \<mapsto> c)" "ca_flags c = 1"
    and new: "\<forall>j. a \<notin> fst ` set (cp_pending (pool0 ?q) j)"
    using commands_fresh [OF inv, of d] q(1,6) assms(2-6) by (auto simp: queue_calm_def)
  obtain x2 where x2: "scope_End z x1 = Inr x2" "arrays x2 = (arrays x1)(a \<mapsto> c\<lparr> ca_flags := 0 \<rparr>)" "refs x2 = refs x1" "fresh_ref x2 = fresh_ref x1"
    using scope_End_open [of z a x1 c] x1 z by auto
  let ?x3 = "x2\<lparr> refs := (refs x2)(fresh_ref ?x \<mapsto> 1) \<rparr>"
  have d: "scope_destroy z x2 = Inr ?x3"
    using scope_destroy_ended [of z "fresh_ref ?x" x2 2 a "c\<lparr> ca_flags := 0 \<rparr>"] x2 x1 z assms(6) by simp
  let ?q' = "?q\<lparr> pool0 := pl \<rparr>"
  let ?s = "\<lparr> qs_queue = ?q', qs_ctx = ?x3, qs_held = [p] \<rparr>"
  have run: "fold_res qexec [QCommands d, QEnd 1, QDrop 1] s = Inr ?s"
    using c q(2) x2(1) d by (simp add: erase_at_def)
  obtain st1 where "q_inv ?q' x1 st1" using Commands_inv [OF inv c] by blast
  then obtain st2 where "q_inv ?q' x2 st2" using scope_End_inv x2(1) by blast
  then obtain st3 where i3: "q_inv ?q' ?x3 st3" using scope_destroy_inv d by blast
  have a: "a \<noteq> a0" using spec [OF new, of 0] p0(6) by simp
  have arr: "arrays ?x3 = (arrays ?x)(a \<mapsto> c\<lparr> ca_flags := 0 \<rparr>)" and ref: "refs ?x3 = (refs ?x)(fresh_ref ?x \<mapsto> 1)" "fresh_ref ?x3 = Suc (fresh_ref ?x)"
    using x1 x2 by simp_all
  have "primary_open pl ?x3 p 2" using q(3) p0 a pl assms(3) by (auto simp: primary_open_def arr ref)
  moreover have "primary_alone ?q' ?x3 p" using p0 a pl assms(3) by (auto simp: primary_alone_def arr ref)
  moreover have "level_over pl ?x3 (the (sc_ref p)) j" if "0 < j" for j
  proof (cases "j = l")
    case True
    then show ?thesis using pl z p0(1,2) assms(6) by (auto simp: level_over_def level_ended_def arr ref)
  next
    case False
    have e: "level_ended ?x3 pl j" using q(5) [OF that] new False pl
      by (auto simp: level_over_def level_ended_def arr list_all_iff image_iff split: option.splits)
    show ?thesis
    proof (cases "cp_recording (pool0 ?q) j")
      case None
      then show ?thesis using e False pl by (simp add: level_over_def)
    next
      case (Some y)
      then obtain r n b e1 where y: "sd_scopedBeginEnd (sc_desc y)" "sc_ref y = Some r" "r \<noteq> the (sc_ref p)" "refs ?x r = Some n"
        "sc_array y = Some b" "arrays ?x b = Some e1" "ca_flags e1 = 0" using q(5) [OF \<open>0 < j\<close>] by (auto simp: level_over_def)
      have "\<exists>m. refs ?x3 r = Some m" "\<exists>e2. arrays ?x3 b = Some e2 \<and> ca_flags e2 = 0" using y by (simp_all add: arr ref)
      then show ?thesis using e Some False pl y by (auto simp: level_over_def)
    qed
  qed
  moreover have "cp_recording pl j = None \<and> cp_pending pl j = []" if "0 < j" "j \<notin> insert l L" for j using that q(6) pl by simp
  ultimately have "queue_recording levels (insert l L) p ?s" using q(1,4) pl i3 by (simp add: queue_recording_def queue_calm_def) blast
  then show ?thesis using run by blast
qed

lemma phase_execute:
  assumes "queue_recording levels L p s" "0 < l" "l < levels"
  shows "\<exists>s'. qexec (QExecute l t) s = Inr s' \<and> queue_recording levels (L - {l}) p s'"
proof -
  let ?q = "qs_queue s" and ?x = "qs_ctx s"
  obtain st where inv: "q_inv ?q ?x st" using assms(1) by (auto simp: queue_recording_def)
  have q: "queue_calm levels ?q" "qs_held s = [p]" "primary_open (pool0 ?q) ?x p 2" "primary_alone ?q ?x p" "pendingSubmits ?q = []"
    "\<And>l. 0 < l \<Longrightarrow> level_over (pool0 ?q) ?x (the (sc_ref p)) l"
    "\<And>l. 0 < l \<Longrightarrow> l \<notin> L \<Longrightarrow> cp_recording (pool0 ?q) l = None \<and> cp_pending (pool0 ?q) l = []"
    using assms(1) by (simp_all add: queue_recording_def)
  have l: "l < cp_levels (pool0 ?q)" using q(1) assms(3) by (simp add: queue_calm_def)
  let ?pl = "InternalEnqueueSubmitted l t ((pool0 ?q)\<lparr> cp_recording := (cp_recording (pool0 ?q))(l := None) \<rparr>)"
  let ?q' = "?q\<lparr> pool0 := ?pl \<rparr>"
  note E = execute_effect [OF q(3) q(6) l]
  obtain x' where e: "Execute l t ?q ?x = Inr (?q', x')" and x': "arrays x' = arrays ?x" "\<forall>r. refs x' r = None \<longleftrightarrow> refs ?x r = None"
    "refs x' (the (sc_ref p)) = refs ?x (the (sc_ref p))" "fresh_ref x' = fresh_ref ?x"
    using E(2) assms(2) by auto
  let ?s = "s\<lparr> qs_queue := ?q', qs_ctx := x' \<rparr>"
  have run: "qexec (QExecute l t) s = Inr ?s" using e by simp
  have i: "\<exists>st'. q_inv ?q' x' st'" using Execute_inv [OF inv E(1) e] assms(2) by simp
  have pl: "cp_recording ?pl = (cp_recording (pool0 ?q))(l := None)" "cp_pending ?pl = (cp_pending (pool0 ?q))(l := [])"
    "cp_levels ?pl = cp_levels (pool0 ?q)" by (simp_all add: InternalEnqueueSubmitted_def)
  obtain r where r: "sc_ref p = Some r" using q(4) by (auto simp: primary_alone_def)
  have "primary_open ?pl x' p 2" using q(3) assms(2) x' r by (auto simp: primary_open_def pl)
  moreover have "primary_alone ?q' x' p" using q(4) assms(2) x' by (auto simp: primary_alone_def pl)
  moreover have "level_over ?pl x' (the (sc_ref p)) j" if "0 < j" for j
  proof (cases "j = l")
    case True
    then show ?thesis by (intro level_over_idle) (simp_all add: pl)
  next
    case False
    have "level_ended x' ?pl j" using q(6) [OF that] False by (simp add: level_over_def level_ended_def pl x'(1))
    moreover have "\<exists>n. refs x' r = Some n" if "refs ?x r = Some m" for r m using x'(2) that by (metis not_Some_eq)
    ultimately show ?thesis using q(6) [OF that] False by (fastforce simp: level_over_def pl x'(1) split: option.splits)
  qed
  moreover have "cp_recording ?pl j = None \<and> cp_pending ?pl j = []" if "0 < j" "j \<notin> L - {l}" for j using that q(7) pl by auto
  ultimately have "queue_recording levels (L - {l}) p ?s" using q(1,2,5) i pl by (simp add: queue_recording_def queue_calm_def)
  then show ?thesis using run by blast
qed

text \<open>Nothing is left at the other levels, and the primary buffer has ended.\<close>

definition queue_ended :: "nat \<Rightarrow> scope \<Rightarrow> qstate \<Rightarrow> bool" where
  "queue_ended levels p s \<longleftrightarrow> (\<exists>st. q_inv (qs_queue s) (qs_ctx s) st) \<and> queue_calm levels (qs_queue s) \<and> qs_held s = [p]
     \<and> primary_ended (pool0 (qs_queue s)) (qs_ctx s) p 2 \<and> pendingSubmits (qs_queue s) = []
     \<and> (\<forall>l. 0 < l \<longrightarrow> cp_recording (pool0 (qs_queue s)) l = None \<and> cp_pending (pool0 (qs_queue s)) l = [])"

lemma phase_end:
  assumes "queue_recording levels {} p s"
  shows "\<exists>s'. qexec (QEnd 0) s = Inr s' \<and> queue_ended levels p s'"
proof -
  let ?q = "qs_queue s" and ?x = "qs_ctx s"
  obtain st where inv: "q_inv ?q ?x st" using assms by (auto simp: queue_recording_def)
  obtain r a t c where p: "sc_ref p = Some r" "sc_array p = Some a" "arrays ?x a = Some c" "ca_flags c = 1" "array_Head c = 1"
    "cp_pending (pool0 ?q) 0 = [(a, t)]" "refs ?x r = Some 2" "sc_index p = 0" "sd_scopedBeginEnd (sc_desc p)" "0 < cp_levels (pool0 ?q)"
    "cp_recording (pool0 ?q) 0 = Some p"
    using assms by (auto simp: queue_recording_def primary_open_def primary_alone_def)
  obtain x' where x': "scope_End p ?x = Inr x'" "arrays x' = (arrays ?x)(a \<mapsto> c\<lparr> ca_flags := 0 \<rparr>)" "refs x' = refs ?x"
    using scope_End_open [OF p(2,8,3,4)] by blast
  have "qexec (QEnd 0) s = Inr (s\<lparr> qs_ctx := x' \<rparr>)" using assms x'(1) by (simp add: queue_recording_def)
  moreover have "\<exists>st'. q_inv ?q x' st'" by (rule scope_End_inv [OF inv x'(1)])
  moreover have "primary_ended (pool0 ?q) x' p 2" using p x' by (simp add: primary_ended_def array_Head_def)
  ultimately show ?thesis using assms by (simp add: queue_recording_def queue_ended_def)
qed

text \<open>The batch is enqueued; the client still holds the scope of the buffer.\<close>

definition queue_enqueued :: "nat \<Rightarrow> scope \<Rightarrow> submit_info list \<Rightarrow> qstate \<Rightarrow> bool" where
  "queue_enqueued levels p ss s \<longleftrightarrow> (\<exists>st. q_inv (qs_queue s) (qs_ctx s) st) \<and> queue_calm levels (qs_queue s) \<and> qs_held s = [p]
     \<and> pendingSubmits (qs_queue s) = ss \<and> (\<exists>r a c. sc_ref p = Some r \<and> refs (qs_ctx s) r = Some 1 \<and> sc_array p = Some a
         \<and> arrays (qs_ctx s) a = Some c \<and> ca_flags c = 0 \<and> sd_scopedBeginEnd (sc_desc p))
     \<and> (\<forall>l. cp_recording (pool0 (qs_queue s)) l = None \<and> cp_pending (pool0 (qs_queue s)) l = [])"

lemma phase_enqueue:
  assumes "queue_ended levels p s" "signalSemaphoreValues si = v # vs"
  shows "\<exists>s' h. qexec (QEnqueueSubmit [si]) s = Inr s'
    \<and> queue_enqueued levels p [sync_info.extend si \<lparr> commandBuffers = [h], timelineValue = foldl max v vs \<rparr>] s'
    \<and> calls (qs_ctx s') = calls (qs_ctx s)"
proof -
  let ?q = "qs_queue s" and ?x = "qs_ctx s"
  obtain st where inv: "q_inv ?q ?x st" using assms(1) by (auto simp: queue_ended_def)
  have q: "queue_calm levels ?q" "qs_held s = [p]" "primary_ended (pool0 ?q) ?x p 2" "pendingSubmits ?q = []"
    "\<And>l. 0 < l \<Longrightarrow> cp_recording (pool0 ?q) l = None \<and> cp_pending (pool0 ?q) l = []" using assms(1) by (simp_all add: queue_ended_def)
  obtain h where e: "EnqueueSubmit [si] ?q ?x = Inr (?q\<lparr> pool0 := InternalEnqueueSubmitted 0 (foldl max v vs) ((pool0 ?q)\<lparr> cp_recording := (cp_recording (pool0 ?q))(0 := None) \<rparr>),
       pendingSubmits := pendingSubmits ?q @ [sync_info.extend si \<lparr> commandBuffers = [h], timelineValue = foldl max v vs \<rparr>] \<rparr>,
     ?x\<lparr> refs := (refs ?x)(the (sc_ref p) \<mapsto> 2 - 1) \<rparr>)" (is "_ = Inr (?q', ?x')")
    using enqueue_effect [OF q(3) assms(2)] by blast
  have run: "qexec (QEnqueueSubmit [si]) s = Inr (s\<lparr> qs_queue := ?q', qs_ctx := ?x' \<rparr>)" using e by (simp del: EnqueueSubmit.simps)
  have i: "\<exists>st'. q_inv ?q' ?x' st'" by (rule EnqueueSubmit_inv [OF inv e])
  have "queue_calm levels ?q'" using q(1) by (simp add: queue_calm_def InternalEnqueueSubmitted_def)
  moreover have "cp_recording (pool0 ?q') l = None \<and> cp_pending (pool0 ?q') l = []" for l
    using q(5) [of l] by (simp add: InternalEnqueueSubmitted_def)
  moreover have "\<exists>r a c. sc_ref p = Some r \<and> refs ?x' r = Some 1 \<and> sc_array p = Some a \<and> arrays ?x' a = Some c \<and> ca_flags c = 0
      \<and> sd_scopedBeginEnd (sc_desc p)" using q(3) by (auto simp: primary_ended_def)
  ultimately have "queue_enqueued levels p [sync_info.extend si \<lparr> commandBuffers = [h], timelineValue = foldl max v vs \<rparr>]
      (s\<lparr> qs_queue := ?q', qs_ctx := ?x' \<rparr>)" using i q(2,4) by (simp add: queue_enqueued_def)
  then show ?thesis using run by (intro exI [of _ "s\<lparr> qs_queue := ?q', qs_ctx := ?x' \<rparr>"] exI [of _ h]) simp
qed

lemma phase_submit:
  assumes "queue_enqueued levels p [sub] s"
  shows "\<exists>s'. qexec QSubmit s = Inr s' \<and> queue_enqueued levels p [] s' \<and> calls (qs_ctx s') = calls (qs_ctx s) @ [VkQueueSubmit [sub]]
    \<and> fst (Queue_Submit (qs_queue s) (qs_ctx s)) = \<lparr> fences = 1, maxTimelineValue = max 0 (timelineValue sub) \<rparr>"
proof -
  obtain st where inv: "q_inv (qs_queue s) (qs_ctx s) st" using assms by (auto simp: queue_enqueued_def)
  obtain h q' x' where e: "Queue_Submit (qs_queue s) (qs_ctx s) = (h, q', x')" by (metis surj_pair)
  have ps: "pendingSubmits (qs_queue s) = [sub]" using assms by (simp add: queue_enqueued_def)
  have h: "h = \<lparr> fences = 1, maxTimelineValue = max 0 (timelineValue sub) \<rparr>" "x' = emit (VkQueueSubmit [sub]) (qs_ctx s)"
    "pendingSubmits q' = []" "pool0 q' = pool0 (qs_queue s)" "pool1 q' = pool1 (qs_queue s)" "pendingPresent q' = pendingPresent (qs_queue s)"
    using e ps by (auto simp: Queue_Submit_def Let_def)
  have "\<exists>st'. q_inv q' x' st'" by (rule Queue_Submit_inv [OF inv e])
  then have "queue_enqueued levels p [] (s\<lparr> qs_queue := q', qs_ctx := x' \<rparr>)"
    using assms by (simp add: queue_enqueued_def queue_calm_def h emit_def)
  then show ?thesis using e h by (simp add: emit_def)
qed

lemma phase_present:
  assumes inv: "\<exists>st. q_inv (qs_queue s) (qs_ctx s) st" and calm: "queue_calm levels (qs_queue s)"
    and pr: "swapchains pr = [sw]" "ids \<longrightarrow> length (presentIds pr) = 1"
  shows "\<exists>s' t. fold_res qexec [QEnqueuePresent [pr], QPresent fence ids] s = Inr s' \<and> (\<exists>st. q_inv (qs_queue s') (qs_ctx s') st)
    \<and> qs_queue s' = qs_queue s \<and> qs_held s' = qs_held s \<and> qs_ctx s' = emit (VkQueuePresent t) (qs_ctx s)"
proof -
  let ?q = "qs_queue s" and ?x = "qs_ctx s" and ?t = "present_or empty_present pr"
  obtain st where i: "q_inv ?q ?x st" using inv by blast
  have e: "pendingPresent ?q = empty_present" using calm by (simp add: queue_calm_def)
  then have q: "?q\<lparr> pendingPresent := empty_present \<rparr> = ?q" by (cases ?q) simp
  have "Present fence ids (EnqueuePresent [pr] ?q) ?x
      = Inr (\<lparr> fences = if fence then 1 else 0, maxTimelineValue = 0 \<rparr>, ?q, emit (VkQueuePresent ?t) ?x)"
    using pr e q by (simp add: Present_def EnqueuePresent_def present_or_def empty_present_def Let_def)
  then have "fold_res qexec [QEnqueuePresent [pr], QPresent fence ids] s = Inr (s\<lparr> qs_ctx := emit (VkQueuePresent ?t) ?x \<rparr>)" by simp
  moreover have "q_inv ?q (emit (VkQueuePresent ?t) ?x) st" by (rule present_inv(2) [OF i])
  ultimately show ?thesis by (intro exI [of _ "s\<lparr> qs_ctx := emit (VkQueuePresent ?t) ?x \<rparr>"] exI [of _ ?t]) auto
qed

lemma phase_drop:
  assumes "queue_enqueued levels p [] s"
  shows "\<exists>s'. qexec (QDrop 0) s = Inr s' \<and> queue_rest levels s' \<and> calls (qs_ctx s') = calls (qs_ctx s)"
proof -
  let ?q = "qs_queue s" and ?x = "qs_ctx s"
  obtain st where inv: "q_inv ?q ?x st" using assms by (auto simp: queue_enqueued_def)
  obtain r a c where p: "sc_ref p = Some r" "refs ?x r = Some 1" "sc_array p = Some a" "arrays ?x a = Some c" "ca_flags c = 0"
    "sd_scopedBeginEnd (sc_desc p)" "qs_held s = [p]" using assms by (auto simp: queue_enqueued_def)
  have d: "scope_destroy p ?x = Inr (?x\<lparr> refs := (refs ?x)(r \<mapsto> 1 - 1) \<rparr>)" (is "_ = Inr ?x'") by (rule scope_destroy_ended [OF p(1-6)])
  have "qexec (QDrop 0) s = Inr (s\<lparr> qs_ctx := ?x', qs_held := [] \<rparr>)" using d p(7) by (simp add: erase_at_def)
  moreover have "\<exists>st'. q_inv ?q ?x' st'" by (rule scope_destroy_inv [OF inv d])
  ultimately show ?thesis using assms by (simp add: queue_rest_def queue_enqueued_def)
qed

section \<open>The fences of a queue have been waited for\<close>

lemma no_flight:
  assumes "q_inv q x st"
  shows "in_flight (calls x) [] = [] \<longleftrightarrow> (\<forall>h. statuses st h \<noteq> Some PendingState)"
proof -
  have "set (in_flight (calls x) []) = {h. statuses st h = Some PendingState}"
    using in_flight_pending [of "calls x" st] assms by (auto simp: q_inv_def flight_ok_def)
  then show ?thesis by (metis (mono_tags, lifting) Collect_empty_eq set_empty2)
qed

lemma phase_wait:
  assumes "queue_rest levels s"
  shows "\<exists>s'. qexec (QCompleted (in_flight (calls (qs_ctx s)) [])) s = Inr s' \<and> queue_rest levels s' \<and> in_flight (calls (qs_ctx s')) [] = []"
proof -
  let ?q = "qs_queue s" and ?x = "qs_ctx s" and ?hs = "in_flight (calls (qs_ctx s)) []"
  obtain st where inv: "q_inv ?q ?x st" using assms by (auto simp: queue_rest_def)
  have ok: "flight_ok ?hs st" using in_flight_pending [of "calls ?x" st] inv by (simp add: q_inv_def)
  have "move_all PendingState InvalidState ?hs st = Some (st\<lparr> statuses := (\<lambda>h. if h \<in> set ?hs then Some InvalidState else statuses st h) \<rparr>)"
    using ok by (intro move_all_distinct) (auto simp: flight_ok_def)
  then have "\<exists>st'. q_inv ?q (emit (DeviceCompleted ?hs) ?x) st'" using Completed_inv [OF inv] by blast
  moreover have "in_flight (calls (emit (DeviceCompleted ?hs) ?x)) [] = []" by (simp add: emit_def in_flight_snoc)
  ultimately show ?thesis using assms by (simp add: queue_rest_def)
qed

lemma phase_swap:
  assumes "queue_rest levels s" "in_flight (calls (qs_ctx s)) [] = []"
  shows "\<exists>s'. qexec QSwapAndResetPool s = Inr s' \<and> queue_rest levels s' \<and> in_flight (calls (qs_ctx s')) [] = []"
proof -
  let ?q = "qs_queue s" and ?x = "qs_ctx s"
  obtain st where inv: "q_inv ?q ?x st" using assms by (auto simp: queue_rest_def)
  have q: "queue_calm levels ?q" "qs_held s = []" "\<And>l. cp_recording (pool0 ?q) l = None" "\<And>l. cp_pending (pool0 ?q) l = []" "pendingSubmits ?q = []"
    using assms by (simp_all add: queue_rest_def)
  obtain pl x' where e: "SwapAndResetPool ?q ?x = Inr (?q\<lparr> pool0 := pl, pool1 := pool0 ?q \<rparr>, x')" (is "_ = Inr (?q', _)")
    and pl: "cp_pending pl = cp_pending (pool1 ?q)" "cp_recording pl = cp_recording (pool1 ?q)" "cp_levels pl = cp_levels (pool1 ?q)"
    and f: "in_flight (calls x') [] = in_flight (calls ?x) []"
    using swap_effect [OF inv q(5)] q(1) by (auto simp: queue_calm_def)
  have "pool_idle st (cp_handle (pool1 ?q))" using no_flight [OF inv] assms(2) by (simp add: pool_idle_def list_all_iff)
  then have "\<exists>st'. q_inv ?q' x' st'" by (rule SwapAndResetPool_inv [OF inv e]) (simp add: q(4))
  moreover have "cp_pending (pool1 ?q) l = []" for l using inv by (simp add: q_inv_def pools_ok_def)
  ultimately have "queue_rest levels (s\<lparr> qs_queue := ?q', qs_ctx := x' \<rparr>)" using q pl by (simp add: queue_rest_def queue_calm_def)
  then show ?thesis using e f assms(2) by simp
qed

end
