(* ===== verification/Circular_Container.thy ===== *)
theory Circular_Container
imports Prelude
begin

text \<open>
  \<open>CircularContainer\<close> (\<open>core/circularcontainer.h\<close>): a vector with a head that wraps around.
  \<open>FetchAdd\<close> adds to the head with one atomic access and then brings it back into range with a
  compare-exchange loop; \<open>fa_exec\<close> is one such access of one thread, \<open>FetchAdd\<close> a call that runs alone.
  The head is a \<open>size_t\<close>, wrapped where the code adds to it.
\<close>

section \<open>A call that runs alone\<close>

record 'a circular =
  cc_items :: "'a list"
  cc_head :: nat

definition wrap64 :: "nat \<Rightarrow> nat" where
  "wrap64 x = x mod 2 ^ 64"

definition circular_of :: "'a list \<Rightarrow> 'a circular" where
  "circular_of xs = \<lparr> cc_items = xs, cc_head = 0 \<rparr>"

text \<open>Assigning a vector replaces the items only.\<close>

definition circular_assign :: "'a list \<Rightarrow> 'a circular \<Rightarrow> 'a circular" where
  "circular_assign xs c = c\<lparr> cc_items := xs \<rparr>"

definition circular_Empty :: "'a circular \<Rightarrow> bool" where
  "circular_Empty c = (cc_items c = [])"

definition circular_Get :: "'a circular \<Rightarrow> 'a res" where
  "circular_Get c = at_res (cc_items c) (cc_head c)"

definition FetchAdd :: "nat \<Rightarrow> 'a circular \<Rightarrow> (nat \<times> 'a circular) res" where
  "FetchAdd offset c = (let index = cc_head c; over = wrap64 (index + offset) in
     if cc_items c = [] then Inl Undefined
     else bind_res (at_res (cc_items c) index) (\<lambda>_. Inr (index, c\<lparr> cc_head := over mod length (cc_items c) \<rparr>)))"

section \<open>Calls that overlap\<close>

text \<open>A thread in the loop of \<open>FetchAdd\<close>: the index it fetched and the head it expects.\<close>

datatype fa_thread = FaIdle | FaLoop nat nat

datatype fa_event = FaStart nat nat | FaCas nat bool

record fa_state =
  fa_head :: nat
  fa_threads :: "fa_thread list"
  fa_given :: "nat list"

definition fa_exec :: "nat \<Rightarrow> fa_event \<Rightarrow> fa_state \<Rightarrow> fa_state option" where
  "fa_exec n ev s = (case ev of
       FaStart t offset \<Rightarrow> (if t < length (fa_threads s) \<and> fa_threads s ! t = FaIdle
         then Some (s\<lparr> fa_head := wrap64 (fa_head s + offset),
                       fa_threads := (fa_threads s)[t := FaLoop (fa_head s) (wrap64 (fa_head s + offset))] \<rparr>)
         else None)
     | FaCas t spurious \<Rightarrow> (if t < length (fa_threads s) then (case fa_threads s ! t of
         FaIdle \<Rightarrow> None
       | FaLoop index expected \<Rightarrow> Some (if fa_head s = expected \<and> \<not> spurious
           then s\<lparr> fa_head := expected mod n, fa_threads := (fa_threads s)[t := FaIdle], fa_given := fa_given s @ [index] \<rparr>
           else s\<lparr> fa_threads := (fa_threads s)[t := FaLoop index (fa_head s)] \<rparr>)) else None))"

fun fa_run :: "nat \<Rightarrow> fa_event list \<Rightarrow> fa_state \<Rightarrow> fa_state option" where
  "fa_run n [] s = Some s"
| "fa_run n (ev # evs) s = Option.bind (fa_exec n ev s) (fa_run n evs)"

section \<open>Properties\<close>

lemma FetchAdd_ok: "cc_head c < length (cc_items c) \<Longrightarrow> length (cc_items c) < 2 ^ 64 \<Longrightarrow>
    FetchAdd 1 c = Inr (cc_head c, c\<lparr> cc_head := Suc (cc_head c) mod length (cc_items c) \<rparr>)"
  by (auto simp: FetchAdd_def wrap64_def Let_def)

lemma FetchAdd_steps:
  assumes "0 < n"
  shows "fa_run n [FaStart 0 offset, FaCas 0 False] \<lparr> fa_head = h, fa_threads = [FaIdle], fa_given = [] \<rparr>
    = Some \<lparr> fa_head = wrap64 (h + offset) mod n, fa_threads = [FaIdle], fa_given = [h] \<rparr>"
  by (simp add: fa_exec_def)

text \<open>\<open>k\<close> calls one after the other.\<close>

fun fetch_many :: "nat \<Rightarrow> 'a circular \<Rightarrow> (nat list \<times> 'a circular) res" where
  "fetch_many 0 c = Inr ([], c)"
| "fetch_many (Suc k) c = bind_res (FetchAdd 1 c) (\<lambda>(i, c'). bind_res (fetch_many k c') (\<lambda>(is, c''). Inr (i # is, c'')))"

lemma fetch_many_ok: "cc_head c < length (cc_items c) \<Longrightarrow> length (cc_items c) < 2 ^ 64 \<Longrightarrow>
    fetch_many k c = Inr (map (\<lambda>i. (cc_head c + i) mod length (cc_items c)) [0..<k],
      c\<lparr> cc_head := (cc_head c + k) mod length (cc_items c) \<rparr>)"
proof (induction k arbitrary: c)
  case (Suc k)
  let ?n = "length (cc_items c)"
  have m: "(Suc (cc_head c) mod ?n + i) mod ?n = (cc_head c + Suc i) mod ?n" for i by (simp add: mod_add_left_eq)
  have e: "[0..<Suc k] = 0 # map Suc [0..<k]" by (simp add: upt_conv_Cons map_Suc_upt)
  have "0 < ?n" using Suc.prems(1) by (cases "cc_items c") auto
  then show ?case using Suc.IH [of "c\<lparr> cc_head := Suc (cc_head c) mod ?n \<rparr>"] Suc.prems m
    by (simp add: FetchAdd_ok [simplified] e comp_def del: upt_Suc)
qed simp

definition fa_busy :: "fa_state \<Rightarrow> nat" where
  "fa_busy s = length (filter (\<lambda>t. t \<noteq> FaIdle) (fa_threads s))"

definition fa_starts :: "fa_event list \<Rightarrow> nat" where
  "fa_starts evs = length (filter (\<lambda>ev. case ev of FaStart _ _ \<Rightarrow> True | _ \<Rightarrow> False) evs)"

definition by_one :: "fa_event \<Rightarrow> bool" where
  "by_one ev = (case ev of FaStart _ offset \<Rightarrow> offset = 1 | _ \<Rightarrow> True)"

lemma fa_exec_inv:
  assumes "fa_exec n ev s = Some s'" "by_one ev" "0 < n" "n + length (fa_threads s) < 2 ^ 64" "fa_head s < n + fa_busy s"
  shows "fa_head s' < n + fa_busy s' \<and> length (fa_threads s') = length (fa_threads s)
    \<and> fa_head s' mod n = (fa_head s + fa_starts [ev]) mod n"
proof (cases ev)
  case (FaStart t offset)
  then have t: "t < length (fa_threads s)" "fa_threads s ! t = FaIdle" "offset = 1"
    and s': "s' = s\<lparr> fa_head := wrap64 (fa_head s + 1),
      fa_threads := (fa_threads s)[t := FaLoop (fa_head s) (wrap64 (fa_head s + 1))] \<rparr>"
    using assms(1,2) by (auto simp: fa_exec_def by_one_def split: if_splits)
  have "fa_busy s \<le> length (fa_threads s)" by (simp add: fa_busy_def)
  then have w: "wrap64 (fa_head s + 1) = fa_head s + 1" using assms(4,5) by (simp add: wrap64_def)
  have "fa_busy s' = fa_busy s + 1" using filter_update_length [OF t(1), of "\<lambda>t. t \<noteq> FaIdle"] t(2)
    by (simp add: s' fa_busy_def)
  then show ?thesis using assms(5) w s' FaStart by (simp add: fa_starts_def)
next
  case (FaCas t spurious)
  then obtain index expected where t: "t < length (fa_threads s)" "fa_threads s ! t = FaLoop index expected"
    and s': "s' = (if fa_head s = expected \<and> \<not> spurious
           then s\<lparr> fa_head := expected mod n, fa_threads := (fa_threads s)[t := FaIdle], fa_given := fa_given s @ [index] \<rparr>
           else s\<lparr> fa_threads := (fa_threads s)[t := FaLoop index (fa_head s)] \<rparr>)"
    using assms(1) by (auto simp: fa_exec_def split: if_splits fa_thread.splits)
  show ?thesis
  proof (cases "fa_head s = expected \<and> \<not> spurious")
    case True
    then show ?thesis using s' assms(3) FaCas by (simp add: fa_starts_def trans_less_add1)
  next
    case False
    have "fa_busy s' = fa_busy s" using filter_update_length [OF t(1), of "\<lambda>t. t \<noteq> FaIdle" "FaLoop index (fa_head s)"] t(2) s' False
      by (simp add: fa_busy_def)
    then show ?thesis using s' False assms(5) FaCas by (auto simp: fa_starts_def)
  qed
qed

lemma fa_run_inv:
  "fa_run n evs s = Some s' \<Longrightarrow> list_all by_one evs \<Longrightarrow> 0 < n \<Longrightarrow> n + length (fa_threads s) < 2 ^ 64 \<Longrightarrow> fa_head s < n + fa_busy s \<Longrightarrow>
     fa_head s' < n + fa_busy s' \<and> fa_head s' mod n = (fa_head s + fa_starts evs) mod n"
proof (induction evs arbitrary: s)
  case (Cons ev evs)
  obtain s1 where s1: "fa_exec n ev s = Some s1" "fa_run n evs s1 = Some s'" using Cons.prems(1) by (cases "fa_exec n ev s") auto
  note i = fa_exec_inv [OF s1(1) _ Cons.prems(3-5)]
  have "(fa_head s1 + fa_starts evs) mod n = (fa_head s + fa_starts [ev] + fa_starts evs) mod n"
    using i Cons.prems(2) by simp (metis mod_add_left_eq)
  moreover have "fa_starts (ev # evs) = fa_starts [ev] + fa_starts evs" by (simp add: fa_starts_def)
  ultimately show ?case using Cons.IH [OF s1(2)] i Cons.prems(2-4) by (simp add: add.assoc)
qed (simp add: fa_starts_def)

text \<open>C32: Calls of \<open>FetchAdd\<close> one after the other hand out the items in turn. However the accesses of
  several calls interleave, once all of them have returned the head is in range and has advanced by one
  per call; but a call that starts while another has not brought the head back can be handed the index
  one past the end, which \<open>at\<close> refuses.\<close>
theorem circular_fetch_add:
  assumes "cc_head c < length (cc_items c)" "length (cc_items c) + length ts < 2 ^ 64"
    "set ts \<subseteq> {FaIdle}" "list_all by_one evs"
    "fa_run (length (cc_items c)) evs \<lparr> fa_head = cc_head c, fa_threads = ts, fa_given = [] \<rparr> = Some s"
  shows "fetch_many k c = Inr (map (\<lambda>i. (cc_head c + i) mod length (cc_items c)) [0..<k],
      c\<lparr> cc_head := (cc_head c + k) mod length (cc_items c) \<rparr>)
    \<and> (set (fa_threads s) \<subseteq> {FaIdle} \<longrightarrow> fa_head s = (cc_head c + fa_starts evs) mod length (cc_items c))
    \<and> (\<exists>s'. fa_run 2 [FaStart 0 1, FaStart 1 1, FaCas 1 False, FaCas 0 False, FaCas 0 False]
           \<lparr> fa_head = 1, fa_threads = [FaIdle, FaIdle], fa_given = [] \<rparr> = Some s'
         \<and> fa_given s' = [2, 1] \<and> at_res [x, y] 2 = Inl OutOfRange)"
proof -
  let ?n = "length (cc_items c)"
  have n: "0 < ?n" using assms(1) by (cases "cc_items c") auto
  have "fa_head s < ?n + fa_busy s \<and> fa_head s mod ?n = (cc_head c + fa_starts evs) mod ?n"
    using fa_run_inv [OF assms(5,4) n] assms(1,2) by (simp add: trans_less_add1)
  moreover have "fa_busy s = 0" if "set (fa_threads s) \<subseteq> {FaIdle}" using that by (auto simp: fa_busy_def filter_empty_conv)
  ultimately have "set (fa_threads s) \<subseteq> {FaIdle} \<longrightarrow> fa_head s = (cc_head c + fa_starts evs) mod ?n" by auto
  moreover have "fa_run 2 [FaStart 0 1, FaStart 1 1, FaCas 1 False, FaCas 0 False, FaCas 0 False]
      \<lparr> fa_head = 1, fa_threads = [FaIdle, FaIdle], fa_given = [] \<rparr> = Some \<lparr> fa_head = 1, fa_threads = [FaIdle, FaIdle], fa_given = [2, 1] \<rparr>"
    by (simp add: fa_exec_def wrap64_def)
  ultimately show ?thesis using fetch_many_ok [of c k] assms(1,2) by (simp add: at_res_def)
qed

theorem circular_fetch_add_witness:
  "\<exists>s. fa_run 2 [FaStart 0 1, FaCas 0 False] \<lparr> fa_head = 1, fa_threads = [FaIdle], fa_given = [] \<rparr> = Some s
    \<and> fetch_many 3 \<lparr> cc_items = [True, False], cc_head = 1 \<rparr> = Inr ([1, 0, 1], \<lparr> cc_items = [True, False], cc_head = 0 \<rparr>)"
proof -
  let ?c = "\<lparr> cc_items = [True, False], cc_head = 1 \<rparr>"
  obtain s where r: "fa_run 2 [FaStart 0 1, FaCas 0 False] \<lparr> fa_head = 1, fa_threads = [FaIdle], fa_given = [] \<rparr> = Some s"
    by (simp add: fa_exec_def wrap64_def)
  have l: "[0..<3] = [0, 1, 2 :: nat]" by code_simp
  have m: "(1 + 2) mod 2 = (1 :: nat)" "(1 + 3) mod 2 = (0 :: nat)" by simp_all
  have "fetch_many 3 ?c = Inr (map (\<lambda>i. (cc_head ?c + i) mod length (cc_items ?c)) [0..<3],
      ?c\<lparr> cc_head := (cc_head ?c + 3) mod length (cc_items ?c) \<rparr>)"
    using circular_fetch_add [where c = ?c and k = 3 and ts = "[FaIdle]" and evs = "[FaStart 0 1, FaCas 0 False]" and s = s] r
    by (simp add: by_one_def numeral_2_eq_2 [symmetric] del: fetch_many.simps fa_run.simps)
  then show ?thesis using r m by (simp add: l numeral_2_eq_2 [symmetric] del: fetch_many.simps fa_run.simps)
qed

end
