(* ===== verification/Window_Views.thy ===== *)
theory Window_Views
imports Prelude
begin

text \<open>
  The views of a window (\<open>rhi/window.h\<close>, \<open>rhi/vulkan/window.cpp\<close>, \<open>gfx/camera.*\<close>): a grid of cameras that
  share the window, the camera under the mouse, and the matrices written to the view buffer of each frame.
  Vectors and matrices are type variables and the operations of glm on them parameters, as is the
  floating-point arithmetic that finds the grid cell under the mouse.
\<close>

section \<open>Cameras\<close>

record camera_viewport =
  cv_x :: u16
  cv_y :: u16
  cv_width :: u16
  cv_height :: u16

record ('v, 'm) camera =
  cam_position :: 'v
  cam_rotation :: 'v
  cam_viewport :: camera_viewport
  cam_view :: 'm
  cam_projection :: 'm

record ('v, 'm) glm_ops =
  g_default :: "('v, 'm) camera"
  g_view :: "'v \<Rightarrow> 'v \<Rightarrow> 'm"
  g_projection :: "u16 \<Rightarrow> u16 \<Rightarrow> 'm"
  g_mul :: "'m \<Rightarrow> 'm \<Rightarrow> 'm"

definition UpdateViewMatrix :: "('v, 'm) glm_ops \<Rightarrow> ('v, 'm) camera \<Rightarrow> ('v, 'm) camera" where
  "UpdateViewMatrix g c = c\<lparr> cam_view := g_view g (cam_position c) (cam_rotation c) \<rparr>"

definition UpdateProjectionMatrix :: "('v, 'm) glm_ops \<Rightarrow> ('v, 'm) camera \<Rightarrow> ('v, 'm) camera" where
  "UpdateProjectionMatrix g c =
     c\<lparr> cam_projection := g_projection g (cv_width (cam_viewport c)) (cv_height (cam_viewport c)) \<rparr>"

definition Camera_UpdateAll :: "('v, 'm) glm_ops \<Rightarrow> ('v, 'm) camera \<Rightarrow> ('v, 'm) camera" where
  "Camera_UpdateAll g c = UpdateProjectionMatrix g (UpdateViewMatrix g c)"

section \<open>The views of a window\<close>

record ('v, 'm) window_views =
  wv_grid :: "u32 \<times> u32"
  wv_extent :: "u32 \<times> u32"
  wv_cameras :: "('v, 'm) camera list"
  wv_active :: "nat option"
  wv_buffers :: "'m list list"
  wv_updates :: nat

definition SHADER_TYPES_FRAME_COUNT :: nat where "SHADER_TYPES_FRAME_COUNT = 4"
definition SHADER_TYPES_VIEW_COUNT :: nat where "SHADER_TYPES_VIEW_COUNT = 16"

definition resize_list :: "nat \<Rightarrow> 'a \<Rightarrow> 'a list \<Rightarrow> 'a list" where
  "resize_list n d xs = take n xs @ replicate (n - length xs) d"

definition set_view :: "('v, 'm) glm_ops \<Rightarrow> u32 \<Rightarrow> u32 \<Rightarrow> u32 \<Rightarrow> nat \<times> nat \<Rightarrow> ('v, 'm) camera list \<Rightarrow> ('v, 'm) camera list res" where
  "set_view g gridWidth width height = (\<lambda>(j, i) cs.
     let k = unat (of_nat j * gridWidth + of_nat i) in
     bind_res (idx cs k) (\<lambda>c. Inr (cs[k := Camera_UpdateAll g (c\<lparr> cam_viewport :=
       \<lparr> cv_x = ucast (of_nat i * width :: u32), cv_y = ucast (of_nat j * height :: u32), cv_width = ucast width, cv_height = ucast height \<rparr> \<rparr>)])))"

definition InternalInitializeViews :: "('v, 'm) glm_ops \<Rightarrow> ('v, 'm) window_views \<Rightarrow> ('v, 'm) window_views res" where
  "InternalInitializeViews g w = (let (gw, gh) = wv_grid w; cs = resize_list (unat gw * unat gh) (g_default g) (wv_cameras w) in
     if gw = 0 \<or> gh = 0 then Inl Undefined
     else bind_res (fold_res (set_view g gw (fst (wv_extent w) div gw) (snd (wv_extent w) div gh))
            (concat (map (\<lambda>j. map (Pair j) [0..<unat gw]) [0..<unat gh])) cs) (\<lambda>cs'. Inr (w\<lparr> wv_cameras := cs' \<rparr>)))"

definition OnResizeSplitScreenGrid :: "('v, 'm) glm_ops \<Rightarrow> u32 \<Rightarrow> u32 \<Rightarrow> ('v, 'm) window_views \<Rightarrow> ('v, 'm) window_views res" where
  "OnResizeSplitScreenGrid g width height w = InternalInitializeViews g (w\<lparr> wv_grid := (width, height) \<rparr>)"

text \<open>\<open>OnResizeFramebuffer\<close> after the new swapchain has been made, whose extent the surface dictates.\<close>

definition resize_views :: "('v, 'm) glm_ops \<Rightarrow> u32 \<times> u32 \<Rightarrow> ('v, 'm) window_views \<Rightarrow> ('v, 'm) window_views res" where
  "resize_views g extent w = InternalInitializeViews g (w\<lparr> wv_extent := extent \<rparr>)"

definition write_views :: "('v, 'm) glm_ops \<Rightarrow> nat \<Rightarrow> nat \<Rightarrow> ('v, 'm) window_views \<Rightarrow> ('v, 'm) window_views res" where
  "write_views g viewCount frame w = bind_res (idx (wv_buffers w) frame) (\<lambda>b.
     bind_res (ensure (viewCount \<le> SHADER_TYPES_VIEW_COUNT)) (\<lambda>_.
     bind_res (fold_res (\<lambda>k b. bind_res (idx (wv_cameras w) k) (\<lambda>c. Inr (b[k := g_mul g (cam_projection c) (cam_view c)]))) [0..<viewCount] b)
       (\<lambda>b'. Inr (w\<lparr> wv_buffers := (wv_buffers w)[frame := b'] \<rparr>))))"

definition InternalUpdateViewBuffer :: "('v, 'm) glm_ops \<Rightarrow> nat list \<Rightarrow> ('v, 'm) window_views \<Rightarrow> ('v, 'm) window_views res" where
  "InternalUpdateViewBuffer g frames w =
     fold_res (write_views g (unat (fst (wv_grid w) * snd (wv_grid w)))) frames w"

section \<open>Input\<close>

text \<open>What the code reads of an \<open>InputState\<close>: the cell under the mouse of a grid in a window, the keys, whether the
  mouse has moved, and how position and rotation change.\<close>

record ('v, 'm) view_input =
  in_inside :: bool
  in_leftDown :: bool
  in_cell :: "u32 \<times> u32 \<Rightarrow> u32 \<times> u32 \<Rightarrow> nat \<times> nat"
  in_keys :: "bool list"
  in_moved :: bool
  in_move :: "'m \<Rightarrow> int \<Rightarrow> int \<Rightarrow> 'v \<Rightarrow> 'v"
  in_rotate :: "u16 \<Rightarrow> u16 \<Rightarrow> 'v \<Rightarrow> 'v"

definition size_less_one :: "'a list \<Rightarrow> nat" where
  "size_less_one xs = (if xs = [] then 2 ^ 64 - 1 else length xs - 1)"

definition select_camera :: "('v, 'm) view_input \<Rightarrow> ('v, 'm) window_views \<Rightarrow> ('v, 'm) window_views" where
  "select_camera i w = (if in_inside i \<and> \<not> in_leftDown i
     then (case in_cell i (wv_grid w) (wv_extent w) of (x, y) \<Rightarrow>
       w\<lparr> wv_active := Some (min ((y * unat (fst (wv_grid w)) + x) mod 2 ^ 64) (size_less_one (wv_cameras w))) \<rparr>)
     else if \<not> in_leftDown i then w\<lparr> wv_active := None \<rparr> else w)"

text \<open>\<open>GLFW_KEY_W\<close>, \<open>S\<close>, \<open>A\<close> and \<open>D\<close>; the last pressed key in the order of the codes decides.\<close>

definition key_delta :: "nat \<Rightarrow> int \<times> int \<Rightarrow> int \<times> int" where
  "key_delta key = (\<lambda>(x, z). if key = 87 then (x, -1) else if key = 83 then (x, 1)
     else if key = 65 then (-1, z) else if key = 68 then (1, z) else (x, z))"

definition keys_delta :: "bool list \<Rightarrow> int \<times> int" where
  "keys_delta keys = fold (\<lambda>k d. if keys ! k then key_delta k d else d) [0..<length keys] (0, 0)"

definition move_camera :: "('v, 'm) glm_ops \<Rightarrow> ('v, 'm) view_input \<Rightarrow> ('v, 'm) camera \<Rightarrow> ('v, 'm) camera" where
  "move_camera g i c = (let (x, z) = keys_delta (in_keys i); moves = (x \<noteq> 0 \<or> z \<noteq> 0); turns = (in_leftDown i \<and> in_moved i);
     c1 = (if moves then c\<lparr> cam_position := in_move i (cam_view c) x z (cam_position c) \<rparr> else c);
     c2 = (if turns then c1\<lparr> cam_rotation := in_rotate i (cv_width (cam_viewport c)) (cv_height (cam_viewport c)) (cam_rotation c1) \<rparr> else c1)
   in if moves \<or> turns then UpdateViewMatrix g c2 else c2)"

text \<open>The update of the buffers is left to the draw thread when there is an application.\<close>

definition InternalUpdateViews :: "('v, 'm) glm_ops \<Rightarrow> bool \<Rightarrow> ('v, 'm) view_input \<Rightarrow> ('v, 'm) window_views \<Rightarrow> ('v, 'm) window_views res" where
  "InternalUpdateViews g app i w = (let w1 = select_camera i w; w2 = (case wv_active w1 of None \<Rightarrow> Inr w1
       | Some k \<Rightarrow> bind_res (idx (wv_cameras w1) k) (\<lambda>c. Inr (w1\<lparr> wv_cameras := (wv_cameras w1)[k := move_camera g i c] \<rparr>)))
     in bind_res w2 (\<lambda>w'. Inr (if app then w'\<lparr> wv_updates := wv_updates w' + 1 \<rparr> else w')))"

definition Window_new :: "('v, 'm) glm_ops \<Rightarrow> u32 \<times> u32 \<Rightarrow> u32 \<times> u32 \<Rightarrow> 'm list list \<Rightarrow> ('v, 'm) window_views res" where
  "Window_new g grid extent memory = InternalInitializeViews g
     \<lparr> wv_grid = grid, wv_extent = extent, wv_cameras = [], wv_active = None, wv_buffers = memory, wv_updates = 0 \<rparr>"

datatype ('v, 'm) view_op =
    VResize "u32 \<times> u32"
  | VGrid u32 u32
  | VInput bool "('v, 'm) view_input"
  | VUpdate "nat list"

fun view_exec :: "('v, 'm) glm_ops \<Rightarrow> ('v, 'm) view_op \<Rightarrow> ('v, 'm) window_views \<Rightarrow> ('v, 'm) window_views res" where
  "view_exec g (VResize extent) w = resize_views g extent w"
| "view_exec g (VGrid gw gh) w = OnResizeSplitScreenGrid g gw gh w"
| "view_exec g (VInput app i) w = InternalUpdateViews g app i w"
| "view_exec g (VUpdate frames) w = InternalUpdateViewBuffer g frames w"

section \<open>Every pixel has its view\<close>

definition cell_viewport :: "u32 \<times> u32 \<Rightarrow> u32 \<times> u32 \<Rightarrow> nat \<Rightarrow> camera_viewport" where
  "cell_viewport grid extent k = (let width = fst extent div fst grid; height = snd extent div snd grid;
       i = k mod unat (fst grid); j = k div unat (fst grid)
     in \<lparr> cv_x = ucast (of_nat i * width :: u32), cv_y = ucast (of_nat j * height :: u32), cv_width = ucast width, cv_height = ucast height \<rparr>)"

definition views_ok :: "('v, 'm) glm_ops \<Rightarrow> ('v, 'm) window_views \<Rightarrow> bool" where
  "views_ok g w \<longleftrightarrow> fst (wv_grid w) \<noteq> 0 \<and> snd (wv_grid w) \<noteq> 0
     \<and> length (wv_cameras w) = unat (fst (wv_grid w)) * unat (snd (wv_grid w))
     \<and> (\<forall>k < length (wv_cameras w). let c = wv_cameras w ! k in cam_viewport c = cell_viewport (wv_grid w) (wv_extent w) k
          \<and> cam_view c = g_view g (cam_position c) (cam_rotation c)
          \<and> cam_projection c = g_projection g (cv_width (cam_viewport c)) (cv_height (cam_viewport c)))"

definition small_grid :: "u32 \<times> u32 \<Rightarrow> bool" where
  "small_grid grid \<longleftrightarrow> unat (fst grid) * unat (snd grid) < 2 ^ 32"

definition covers :: "camera_viewport \<Rightarrow> nat \<Rightarrow> nat \<Rightarrow> bool" where
  "covers v x y \<longleftrightarrow> unat (cv_x v) \<le> x \<and> x < unat (cv_x v) + unat (cv_width v)
     \<and> unat (cv_y v) \<le> y \<and> y < unat (cv_y v) + unat (cv_height v)"

text \<open>A loop that replaces the elements from the front, each by a value of its index and itself.\<close>

lemma fold_set_front:
  assumes "\<And>k. k < n \<Longrightarrow> f k = (\<lambda>xs. bind_res (idx xs k) (\<lambda>x. Inr (xs[k := F k x])))" "n \<le> length xs"
  shows "fold_res f [0..<n] xs = Inr (map (\<lambda>k. F k (xs ! k)) [0..<n] @ drop n xs)"
  using assms
proof (induction n)
  case (Suc n)
  have n: "fold_res f [0..<n] xs = Inr (map (\<lambda>k. F k (xs ! k)) [0..<n] @ drop n xs)"
    using Suc by simp
  have "drop n xs = xs ! n # drop (Suc n) xs" using Suc.prems(2) by (simp add: Cons_nth_drop_Suc)
  then show ?case using n Suc.prems by (simp add: fold_res_append list_update_append nth_append)
qed simp

lemma fold_res_map: "fold_res f (map h xs) s = fold_res (f \<circ> h) xs s"
proof (induction xs arbitrary: s)
  case (Cons a xs)
  then show ?case by (cases "f (h a) s") simp_all
qed simp

lemma fold_res_cong: "(\<And>x. x \<in> set xs \<Longrightarrow> f x = g x) \<Longrightarrow> fold_res f xs s = fold_res g xs s"
proof (induction xs arbitrary: s)
  case (Cons a xs)
  then show ?case by (cases "g a s") simp_all
qed simp

lemma grid_pairs: "map (\<lambda>(j, i). j * n + i) (concat (map (\<lambda>j. map (Pair j) [0..<n]) [0..<m])) = [0..<m * n]" for n m :: nat
proof (induction m)
  case (Suc m)
  have "map ((\<lambda>(j, i). j * n + i) \<circ> Pair m) [0..<n] = [m * n..<Suc m * n]"
    by (intro nth_equalityI) auto
  moreover have "[0..<Suc m * n] = [0..<m * n] @ [m * n..<Suc m * n]"
    by (metis le0 le_add2 mult_Suc upt_add_eq_append le_add_diff_inverse add.left_neutral)
  ultimately show ?case using Suc by simp
qed simp

lemma cell_less: "j < m \<Longrightarrow> i < n \<Longrightarrow> j * n + i < m * n" for i j m n :: nat
proof -
  assume "j < m" "i < n"
  then have "j * n + i < Suc j * n" "Suc j * n \<le> m * n" by (simp, intro mult_le_mono1, simp)
  then show "j * n + i < m * n" by linarith
qed

lemma set_view_index:
  assumes "small_grid (gw, gh)" "j < unat gh" "i < unat gw"
  shows "set_view g gw width height (j, i) = (\<lambda>cs. let k = j * unat gw + i in bind_res (idx cs k) (\<lambda>c. Inr (cs[k := Camera_UpdateAll g (c\<lparr> cam_viewport :=
    \<lparr> cv_x = ucast (of_nat i * width :: u32), cv_y = ucast (of_nat j * height :: u32), cv_width = ucast width, cv_height = ucast height \<rparr> \<rparr>)])))"
proof -
  have "j * unat gw + i < unat gh * unat gw" by (rule cell_less [OF assms(2,3)])
  then have l: "j * unat gw + i < 2 ^ 32" using assms(1) by (simp add: small_grid_def mult.commute)
  have "unat (of_nat j * gw + of_nat i :: u32) = unat (of_nat (j * unat gw + i) :: u32)" by simp
  also have "\<dots> = j * unat gw + i" using l by (simp only: unat_of_nat) simp
  finally have "unat (of_nat j * gw + of_nat i :: u32) = j * unat gw + i" .
  then show ?thesis by (auto simp: set_view_def Let_def fun_eq_iff)
qed

lemma InternalInitializeViews_cameras:
  assumes "InternalInitializeViews g w = Inr w'" "small_grid (wv_grid w)"
  shows "views_ok g w' \<and> wv_grid w' = wv_grid w \<and> wv_extent w' = wv_extent w \<and> wv_active w' = wv_active w \<and> wv_buffers w' = wv_buffers w"
proof -
  obtain gw gh where grid: "wv_grid w = (gw, gh)" by fastforce
  let ?width = "fst (wv_extent w) div gw" and ?height = "snd (wv_extent w) div gh" and ?n = "unat gw" and ?m = "unat gh"
  let ?cs = "resize_list (?n * ?m) (g_default g) (wv_cameras w)"
  let ?F = "\<lambda>k c. Camera_UpdateAll g (c\<lparr> cam_viewport := cell_viewport (gw, gh) (wv_extent w) k \<rparr>)"
  let ?f = "\<lambda>k cs. bind_res (idx cs k) (\<lambda>c. Inr (cs[k := ?F k c]))"
  have nz: "gw \<noteq> 0" "gh \<noteq> 0" using assms(1) grid by (auto simp: InternalInitializeViews_def Let_def split: if_splits)
  have len: "length ?cs = ?m * ?n" by (simp add: resize_list_def mult.commute)
  have eq: "set_view g gw ?width ?height x = (?f \<circ> (\<lambda>(j, i). j * ?n + i)) x"
    if "x \<in> set (concat (map (\<lambda>j. map (Pair j) [0..<?n]) [0..<?m]))" for x
  proof -
    obtain j i where x: "x = (j, i)" "j < ?m" "i < ?n" using \<open>x \<in> _\<close> by auto
    have "cell_viewport (gw, gh) (wv_extent w) (j * ?n + i) = \<lparr> cv_x = ucast (of_nat i * ?width :: u32),
        cv_y = ucast (of_nat j * ?height :: u32), cv_width = ucast ?width, cv_height = ucast ?height \<rparr>"
      using x(3) by (simp add: cell_viewport_def Let_def)
    then show ?thesis using set_view_index [OF _ x(2,3)] assms(2) grid by (simp add: x(1) Let_def fun_eq_iff)
  qed
  have "fold_res (set_view g gw ?width ?height) (concat (map (\<lambda>j. map (Pair j) [0..<?n]) [0..<?m])) ?cs
      = fold_res ?f (map (\<lambda>(j, i). j * ?n + i) (concat (map (\<lambda>j. map (Pair j) [0..<?n]) [0..<?m]))) ?cs"
    unfolding fold_res_map by (rule fold_res_cong) (rule eq)
  also have "\<dots> = Inr (map (\<lambda>k. ?F k (?cs ! k)) [0..<?m * ?n])"
    unfolding grid_pairs using fold_set_front [of "?m * ?n" ?f ?F ?cs] len by simp
  finally have "w' = w\<lparr> wv_cameras := map (\<lambda>k. ?F k (?cs ! k)) [0..<?m * ?n] \<rparr>"
    using assms(1) nz grid by (simp add: InternalInitializeViews_def Let_def)
  then show ?thesis using nz
    by (simp add: views_ok_def grid Let_def Camera_UpdateAll_def UpdateViewMatrix_def UpdateProjectionMatrix_def mult.commute)
qed

lemma write_views_keeps: "write_views g n f w = Inr w' \<Longrightarrow> \<exists>b. w' = w\<lparr> wv_buffers := b \<rparr>"
  by (auto simp: write_views_def bind_res_Inr split: if_splits)

lemma update_buffer_keeps:
  "InternalUpdateViewBuffer g frames w = Inr w' \<Longrightarrow> \<exists>b. w' = w\<lparr> wv_buffers := b \<rparr>"
  unfolding InternalUpdateViewBuffer_def
proof (induction frames arbitrary: w)
  case Nil
  then have "w' = w\<lparr> wv_buffers := wv_buffers w \<rparr>" by simp
  then show ?case by blast
next
  case (Cons f fs)
  then obtain w1 where 1: "write_views g (unat (fst (wv_grid w) * snd (wv_grid w))) f w = Inr w1"
      "fold_res (write_views g (unat (fst (wv_grid w) * snd (wv_grid w)))) fs w1 = Inr w'" by (auto simp: bind_res_Inr)
  obtain b where "w1 = w\<lparr> wv_buffers := b \<rparr>" using write_views_keeps [OF 1(1)] by blast
  then show ?case using Cons.IH [of w1] 1(2) by auto
qed

definition small_extent :: "u32 \<times> u32 \<Rightarrow> bool" where
  "small_extent e \<longleftrightarrow> unat (fst e) < 2 ^ 16 \<and> unat (snd e) < 2 ^ 16"

fun view_op_small :: "('v, 'm) view_op \<Rightarrow> bool" where
  "view_op_small (VResize e) = small_extent e"
| "view_op_small (VGrid gw gh) = small_grid (gw, gh)"
| "view_op_small _ = True"

definition window_ok :: "('v, 'm) glm_ops \<Rightarrow> ('v, 'm) window_views \<Rightarrow> bool" where
  "window_ok g w \<longleftrightarrow> views_ok g w \<and> small_grid (wv_grid w) \<and> small_extent (wv_extent w)"

lemma move_camera_ok:
  "cam_viewport (move_camera g i c) = cam_viewport c \<and> cam_projection (move_camera g i c) = cam_projection c
   \<and> (cam_view c = g_view g (cam_position c) (cam_rotation c)
      \<longrightarrow> cam_view (move_camera g i c) = g_view g (cam_position (move_camera g i c)) (cam_rotation (move_camera g i c)))"
  by (auto simp: move_camera_def Let_def UpdateViewMatrix_def split: prod.splits)

lemma InternalUpdateViews_ok:
  assumes "InternalUpdateViews g app i w = Inr w'" "views_ok g w"
  shows "views_ok g w' \<and> wv_grid w' = wv_grid w \<and> wv_extent w' = wv_extent w \<and> wv_buffers w' = wv_buffers w"
proof -
  have s: "wv_cameras (select_camera i w) = wv_cameras w" "wv_grid (select_camera i w) = wv_grid w"
    "wv_extent (select_camera i w) = wv_extent w" "wv_buffers (select_camera i w) = wv_buffers w"
    by (auto simp: select_camera_def split: prod.splits)
  show ?thesis
  proof (cases "wv_active (select_camera i w)")
    case None
    then show ?thesis using assms s by (cases app) (simp_all add: InternalUpdateViews_def Let_def views_ok_def, auto)
  next
    case (Some k)
    then have k: "k < length (wv_cameras w)" using assms(1) s by (auto simp: InternalUpdateViews_def Let_def bind_res_Inr idx_Inr)
    let ?cs = "(wv_cameras w)[k := move_camera g i (wv_cameras w ! k)]"
    have w': "wv_cameras w' = ?cs" "wv_grid w' = wv_grid w" "wv_extent w' = wv_extent w" "wv_buffers w' = wv_buffers w"
      using assms(1) s Some k by (auto simp: InternalUpdateViews_def Let_def)
    have "let c = ?cs ! n in cam_viewport c = cell_viewport (wv_grid w) (wv_extent w) n
          \<and> cam_view c = g_view g (cam_position c) (cam_rotation c)
          \<and> cam_projection c = g_projection g (cv_width (cam_viewport c)) (cv_height (cam_viewport c))"
      if "n < length ?cs" for n
      using assms(2) that move_camera_ok [of g i "wv_cameras w ! k"] by (cases "n = k") (simp_all add: views_ok_def Let_def)
    then show ?thesis using assms(2) by (simp add: views_ok_def w')
  qed
qed

lemma view_exec_ok:
  assumes "view_exec g op w = Inr w'" "window_ok g w" "view_op_small op"
  shows "window_ok g w'"
proof (cases op)
  case (VResize e)
  then show ?thesis using assms InternalInitializeViews_cameras [of g "w\<lparr> wv_extent := e \<rparr>" w']
    by (simp add: resize_views_def window_ok_def)
next
  case (VGrid gw gh)
  then show ?thesis using assms InternalInitializeViews_cameras [of g "w\<lparr> wv_grid := (gw, gh) \<rparr>" w']
    by (simp add: OnResizeSplitScreenGrid_def window_ok_def)
next
  case (VInput app i)
  then show ?thesis using assms InternalUpdateViews_ok by (fastforce simp: window_ok_def)
next
  case (VUpdate frames)
  then show ?thesis using assms update_buffer_keeps [of g frames w w'] by (auto simp: window_ok_def views_ok_def)
qed

lemma window_run_ok:
  assumes "Window_new g grid extent memory = Inr w0" "fold_res (view_exec g) ops w0 = Inr w"
    "small_grid grid" "small_extent extent" "list_all view_op_small ops"
  shows "window_ok g w"
proof (rule fold_res_inv [OF assms(2), where P = "window_ok g"])
  show "window_ok g w0" using InternalInitializeViews_cameras [OF assms(1) [unfolded Window_new_def]] assms(3,4)
    by (simp add: window_ok_def)
  fix op s s' assume "op \<in> set ops" "window_ok g s" "view_exec g op s = Inr s'"
  then show "window_ok g s'" using view_exec_ok [of g op s s'] assms(5) by (simp add: list_all_iff)
qed

lemma in_cell_div: "i * d \<le> x \<and> x < i * d + d \<longleftrightarrow> 0 < d \<and> x div d = i" for i d x :: nat
proof (cases "d = 0")
  case False
  then show ?thesis by (auto simp: div_nat_eqI mult.commute) (metis add.commute dividend_less_times_div)
qed simp

lemma cell_number: "0 < n \<Longrightarrow> k < m * n \<and> k mod n = i \<and> k div n = j \<longleftrightarrow> i < n \<and> j < m \<and> k = j * n + i" for i j k m n :: nat
proof
  assume "0 < n" "k < m * n \<and> k mod n = i \<and> k div n = j"
  then show "i < n \<and> j < m \<and> k = j * n + i" using less_mult_imp_div_less [of k m n] by auto
qed (use cell_less in auto)

lemma cell_bounds:
  assumes "small_extent e" "fst grid \<noteq> 0" "k div unat (fst grid) < unat (snd grid)"
  shows "k mod unat (fst grid) * unat (fst e div fst grid) < 2 ^ 16" "k div unat (fst grid) * unat (snd e div snd grid) < 2 ^ 16"
    "unat (fst e div fst grid) < 2 ^ 16" "unat (snd e div snd grid) < 2 ^ 16"
proof -
  obtain gw gh where g: "grid = (gw, gh)" by fastforce
  let ?dx = "unat (fst e div gw)" and ?dy = "unat (snd e div gh)" and ?i = "k mod unat gw" and ?j = "k div unat gw"
  have n: "0 < unat gw" using assms(2) by (simp add: g unat_gt_0)
  have dx: "?dx * unat gw \<le> unat (fst e)" "?dy * unat gh \<le> unat (snd e)" by (simp_all add: unat_div)
  have "?i * ?dx \<le> unat gw * ?dx" by (rule mult_le_mono1) (use n in simp)
  then have x: "?i * ?dx \<le> unat (fst e)" by (rule le_trans) (use dx(1) in \<open>simp add: mult.commute\<close>)
  have "?j * ?dy \<le> unat gh * ?dy" by (rule mult_le_mono1) (use assms(3) g in simp)
  then have y: "?j * ?dy \<le> unat (snd e)" by (rule le_trans) (use dx(2) in \<open>simp add: mult.commute\<close>)
  show "k mod unat (fst grid) * unat (fst e div fst grid) < 2 ^ 16" "k div unat (fst grid) * unat (snd e div snd grid) < 2 ^ 16"
    "unat (fst e div fst grid) < 2 ^ 16" "unat (snd e div snd grid) < 2 ^ 16"
    using x y assms(1) by (auto simp: g small_extent_def unat_div intro: le_less_trans [OF div_le_dividend])
qed

lemma unat_product:
  assumes "a * unat v < 2 ^ 16"
  shows "unat (of_nat a * v :: u32) = a * unat v" and "unat (ucast (of_nat a * v :: u32) :: u16) = a * unat v"
proof -
  have "of_nat a * v = (of_nat (a * unat v) :: u32)" by simp
  then have "unat (of_nat a * v) = unat (of_nat (a * unat v) :: u32)" by simp
  also have "\<dots> = a * unat v" using assms by (simp only: unat_of_nat) simp
  finally show *: "unat (of_nat a * v) = a * unat v" .
  show "unat (ucast (of_nat a * v :: u32) :: u16) = a * unat v"
    using * assms by (simp add: unsigned_ucast_eq unsigned_take_bit_eq take_bit_nat_eq_self)
qed

lemma unat_low: "unat (v :: u32) < 2 ^ 16 \<Longrightarrow> unat (ucast v :: u16) = unat v"
  by (simp add: unsigned_ucast_eq unsigned_take_bit_eq take_bit_nat_eq_self)

lemma cell_viewport_nat:
  assumes "small_extent e" "fst grid \<noteq> 0" "k div unat (fst grid) < unat (snd grid)"
  shows "covers (cell_viewport grid e k) x y \<longleftrightarrow>
    (let dx = unat (fst e div fst grid); dy = unat (snd e div snd grid) in
       0 < dx \<and> x div dx = k mod unat (fst grid) \<and> 0 < dy \<and> y div dy = k div unat (fst grid))"
proof -
  note b = cell_bounds [OF assms]
  show ?thesis using in_cell_div [of "k mod unat (fst grid)" "unat (fst e div fst grid)" x]
      in_cell_div [of "k div unat (fst grid)" "unat (snd e div snd grid)" y]
    by (simp add: covers_def cell_viewport_def Let_def unat_product(2) [OF b(1)] unat_product(2) [OF b(2)] unat_low [OF b(3)] unat_low [OF b(4)]) blast
qed

definition gridded :: "nat \<Rightarrow> nat \<Rightarrow> nat" where
  "gridded s n = s div n * n"

lemma div_less_gridded: "0 < n \<Longrightarrow> 0 < s div n \<and> x div (s div n) < n \<longleftrightarrow> x < gridded s n" for n s x :: nat
  by (cases "s div n = 0") (auto simp: gridded_def div_less_iff_less_mult mult.commute)

text \<open>C23: Whatever the user does - resize the window to an extent below 2 ^ 16, change the grid, move - the cameras share the window: every
  pixel of the part of the window that the grid divides evenly is in the viewport of exactly one camera,
  the others in none, and the matrices of every camera are those of its position, rotation and viewport.\<close>
theorem views_share_window:
  assumes "Window_new g grid extent memory = Inr w0" and "fold_res (view_exec g) ops w0 = Inr w"
    and "small_grid grid" and "small_extent extent" and "list_all view_op_small ops"
  shows "let cs = wv_cameras w; (gw, gh) = wv_grid w; (W, H) = wv_extent w in
     (\<forall>x y. if x < gridded (unat W) (unat gw) \<and> y < gridded (unat H) (unat gh)
        then \<exists>!k. k < length cs \<and> covers (cam_viewport (cs ! k)) x y
        else \<forall>k < length cs. \<not> covers (cam_viewport (cs ! k)) x y)
     \<and> list_all (\<lambda>c. cam_view c = g_view g (cam_position c) (cam_rotation c)
          \<and> cam_projection c = g_projection g (cv_width (cam_viewport c)) (cv_height (cam_viewport c))) cs"
proof -
  obtain gw gh W H where g: "wv_grid w = (gw, gh)" "wv_extent w = (W, H)" by (cases "wv_grid w"; cases "wv_extent w")
  have ok: "window_ok g w" by (rule window_run_ok [OF assms])
  let ?n = "unat gw" and ?m = "unat gh" and ?cs = "wv_cameras w" and ?dx = "unat W div unat gw" and ?dy = "unat H div unat gh"
  have n: "0 < ?n" "0 < ?m" using ok by (auto simp: window_ok_def views_ok_def g unat_gt_0)
  have len: "length ?cs = ?m * ?n" using ok by (simp add: window_ok_def views_ok_def g mult.commute)
  have cov: "k < length ?cs \<and> covers (cam_viewport (?cs ! k)) x y
      \<longleftrightarrow> 0 < ?dx \<and> x div ?dx < ?n \<and> 0 < ?dy \<and> y div ?dy < ?m \<and> k = y div ?dy * ?n + x div ?dx" for k x y
  proof (cases "k < ?m * ?n")
    case True
    then have "k div ?n < ?m" by (rule less_mult_imp_div_less)
    then have "covers (cam_viewport (?cs ! k)) x y \<longleftrightarrow> 0 < ?dx \<and> x div ?dx = k mod ?n \<and> 0 < ?dy \<and> y div ?dy = k div ?n"
      using cell_viewport_nat [of "(W, H)" "(gw, gh)" k x y] ok True n len
      by (auto simp: window_ok_def views_ok_def g Let_def unat_div unat_gt_0)
    then show ?thesis using cell_number [OF n(1), of k ?m "x div ?dx" "y div ?dy"] True len by auto
  next
    case False
    then show ?thesis using cell_less [of "y div ?dy" ?m "x div ?dx" ?n] len by auto
  qed
  have tile: "if x < gridded (unat W) ?n \<and> y < gridded (unat H) ?m then \<exists>!k. k < length ?cs \<and> covers (cam_viewport (?cs ! k)) x y
      else \<forall>k < length ?cs. \<not> covers (cam_viewport (?cs ! k)) x y" for x y
  proof -
    have xy: "x < gridded (unat W) ?n \<longleftrightarrow> 0 < ?dx \<and> x div ?dx < ?n" "y < gridded (unat H) ?m \<longleftrightarrow> 0 < ?dy \<and> y div ?dy < ?m"
      using div_less_gridded n by simp_all
    show ?thesis
    proof (cases "x < gridded (unat W) ?n \<and> y < gridded (unat H) ?m")
      case True
      then have "k < length ?cs \<and> covers (cam_viewport (?cs ! k)) x y \<longleftrightarrow> k = y div ?dy * ?n + x div ?dx" for k
        using cov [of k x y] xy by simp
      then show ?thesis using True by simp
    next
      case False
      then have "\<not> (k < length ?cs \<and> covers (cam_viewport (?cs ! k)) x y)" for k unfolding cov xy by blast
      then show ?thesis using False by auto
    qed
  qed
  have "list_all (\<lambda>c. cam_view c = g_view g (cam_position c) (cam_rotation c)
      \<and> cam_projection c = g_projection g (cv_width (cam_viewport c)) (cv_height (cam_viewport c))) ?cs"
    using ok by (simp add: window_ok_def views_ok_def list_all_length Let_def)
  then show ?thesis unfolding g Let_def prod.case using tile by blast
qed

definition ex_glm :: "(int, int) glm_ops" where
  "ex_glm = \<lparr> g_default = \<lparr> cam_position = 0, cam_rotation = 0,
       cam_viewport = \<lparr> cv_x = 0, cv_y = 0, cv_width = 0, cv_height = 0 \<rparr>, cam_view = 1, cam_projection = 1 \<rparr>,
     g_view = (\<lambda>p r. 10 * p + r), g_projection = (\<lambda>w h. int (unat w) + int (unat h)), g_mul = (*) \<rparr>"

definition ex_view_ops :: "(int, int) view_op list" where
  "ex_view_ops = [VResize (101, 60), VGrid 2 1, VUpdate [0]]"

lemmas ex_view_simps = ex_view_ops_def Window_new_def InternalInitializeViews_def resize_views_def OnResizeSplitScreenGrid_def
  set_view_def resize_list_def idx_def Let_def

theorem views_share_window_witness:
  "\<exists>w0 w. Window_new ex_glm (1, 1) (80, 60) [[0, 0]] = Inr w0 \<and> fold_res (view_exec ex_glm) ex_view_ops w0 = Inr w
     \<and> wv_grid w = (2, 1) \<and> wv_extent w = (101, 60)
     \<and> (\<exists>!k. k < length (wv_cameras w) \<and> covers (cam_viewport (wv_cameras w ! k)) 99 59)
     \<and> \<not> (\<exists>k < length (wv_cameras w). covers (cam_viewport (wv_cameras w ! k)) 100 0)"
proof -
  have "\<exists>w0 w. Window_new ex_glm (1, 1) (80, 60) [[0, 0]] = Inr w0 \<and> fold_res (view_exec ex_glm) ex_view_ops w0 = Inr w
     \<and> wv_grid w = (2, 1) \<and> wv_extent w = (101, 60)"
    by (simp add: ex_view_simps upt_rec InternalUpdateViewBuffer_def write_views_def SHADER_TYPES_VIEW_COUNT_def)
  then obtain w0 w where w: "Window_new ex_glm (1, 1) (80, 60) [[0, 0]] = Inr w0" "fold_res (view_exec ex_glm) ex_view_ops w0 = Inr w"
     "wv_grid w = (2, 1)" "wv_extent w = (101, 60)" by blast
  have s: "small_grid (1, 1)" "small_extent (80, 60)" "list_all view_op_small ex_view_ops"
    by (simp_all add: small_grid_def small_extent_def ex_view_ops_def)
  have "gridded 101 2 = 100" "gridded 60 1 = 60" by (simp_all add: gridded_def)
  then have "\<exists>!k. k < length (wv_cameras w) \<and> covers (cam_viewport (wv_cameras w ! k)) 99 59"
    "\<forall>k < length (wv_cameras w). \<not> covers (cam_viewport (wv_cameras w ! k)) 100 0"
    using views_share_window [OF w(1,2) s] w(3,4) by (auto simp: Let_def dest!: spec [of _ "99 :: nat"] spec [of _ "59 :: nat"]
      spec [of _ "100 :: nat"] spec [of _ "0 :: nat"])
  then show ?thesis using w by blast
qed

text \<open>The grid shrinks while the button is held: the camera under the mouse is no longer there.\<close>

theorem active_camera_dangles:
  fixes w :: "('v, 'm) window_views" and i :: "('v, 'm) view_input"
  assumes "InternalInitializeViews g (w\<lparr> wv_grid := (1, 1), wv_active := Some 3 \<rparr>) = Inr w'" "in_leftDown i"
  shows "InternalUpdateViews g app i w' = Inl Undefined"
proof -
  have "wv_active w' = Some 3" "length (wv_cameras w') = 1"
    using InternalInitializeViews_cameras [OF assms(1)] by (auto simp: small_grid_def views_ok_def)
  then show ?thesis using assms(2) by (simp add: InternalUpdateViews_def select_camera_def idx_def)
qed

end
