(* ===== verification/View_Drawing.thy ===== *)
theory View_Drawing
imports Window_Views "HOL-Library.Multiset"
begin

text \<open>
  The views of the main pass (\<open>DrawMainPass\<close> of \<open>rhi/vulkan/rhiapplication.cpp\<close>): threads take views from a
  shared counter and record them into command buffers of their own level; \<open>draw_exec\<close> is one access to the
  counter by one thread, with the recording that follows it. \<open>std::for_each_n\<close> runs them one after the
  other; the theorems hold for any order. The render area \<open>dn_area\<close> is that of the render image sets: those of the first
  \<open>ConstructWindowDependentObjects\<close>, with the window's first extent, since later ones are appended behind them.
\<close>

section \<open>What is recorded\<close>

record push_constants =
  pc_frameIndex :: u32
  pc_viewAndMaterialId :: u32
  pc_modelInstanceId :: u32

datatype draw_cmd =
    CmdBindVertexBuffer nat
  | CmdBindIndexBuffer nat
  | CmdBindSetAuto nat
  | CmdBindPipelineAuto
  | CmdSetViewport int int u32 u32
  | CmdSetScissor int int u32 u32
  | CmdPushConstants push_constants
  | CmdDrawIndexed u32
  | CmdEnd

record draw_env =
  dn_grid :: "u32 \<times> u32"
  dn_area :: "u32 \<times> u32"
  dn_frame :: u16
  dn_vertexBuffer :: nat
  dn_indexBuffer :: nat
  dn_indexCount :: u32
  dn_levels :: u32

definition SHADER_TYPES_MATERIAL_INDEX_BITS :: nat where "SHADER_TYPES_MATERIAL_INDEX_BITS = 10"
definition kDefaultModelInstanceId :: u32 where "kDefaultModelInstanceId = 666"
definition kMaterialIndex :: u32 where "kMaterialIndex = 0"

text \<open>The sets of the categories buffers, samplers, textures, view, material and model instances.\<close>

definition bind_state :: "draw_env \<Rightarrow> draw_cmd list" where
  "bind_state E = [CmdBindVertexBuffer (dn_vertexBuffer E), CmdBindIndexBuffer (dn_indexBuffer E)]
     @ map CmdBindSetAuto [1, 4, 2, 5, 6, 7] @ [CmdBindPipelineAuto]"

definition setViewportAndScissor :: "int \<Rightarrow> int \<Rightarrow> u32 \<Rightarrow> u32 \<Rightarrow> draw_cmd list" where
  "setViewportAndScissor x y w h = [CmdSetViewport x y w h, CmdSetScissor x y w h]"

definition draw_delta :: "draw_env \<Rightarrow> u32 \<times> u32" where
  "draw_delta E = (fst (dn_area E) div fst (dn_grid E), snd (dn_area E) div snd (dn_grid E))"

definition drawView :: "draw_env \<Rightarrow> u16 \<Rightarrow> draw_cmd list" where
  "drawView E viewIt = (let (deltaX, deltaY) = draw_delta E; gw = fst (dn_grid E);
       col = ucast viewIt mod gw; row = ucast viewIt div gw;
       viewAndMaterialId = push_bit SHADER_TYPES_MATERIAL_INDEX_BITS (ucast viewIt) OR kMaterialIndex
     in setViewportAndScissor (sint (col * deltaX)) (sint (row * deltaY)) deltaX deltaY
        @ [CmdPushConstants \<lparr> pc_frameIndex = ucast (dn_frame E), pc_viewAndMaterialId = viewAndMaterialId,
             pc_modelInstanceId = kDefaultModelInstanceId \<rparr>, CmdDrawIndexed (dn_indexCount E)])"

section \<open>Threads that take views\<close>

datatype draw_pc = DrawIdle | DrawHolds u32 | DrawOver

record draw_sys =
  dw_counter :: u32
  dw_threads :: "draw_pc list"
  dw_cmds :: "draw_cmd list list"

definition drawCount :: "draw_env \<Rightarrow> u32" where
  "drawCount E = fst (dn_grid E) * snd (dn_grid E)"

definition drawThreadCount :: "draw_env \<Rightarrow> u32" where
  "drawThreadCount E = min (drawCount E) (dn_levels E)"

definition draw_exec :: "draw_env \<Rightarrow> nat \<Rightarrow> draw_sys \<Rightarrow> draw_sys res" where
  "draw_exec E t s = (let v = dw_counter s; s1 = s\<lparr> dw_counter := v + 1 \<rparr> in
     bind_res (idx (dw_threads s) t) (\<lambda>pc. bind_res (idx (dw_cmds s) t) (\<lambda>cmds. case pc of
       DrawIdle \<Rightarrow> if v \<ge> drawCount E then Inr (s1\<lparr> dw_threads := (dw_threads s)[t := DrawOver] \<rparr>)
         else bind_res (ensure (fst (draw_delta E) > 0 \<and> snd (draw_delta E) > 0))
           (\<lambda>_. Inr (s1\<lparr> dw_threads := (dw_threads s)[t := DrawHolds v], dw_cmds := (dw_cmds s)[t := bind_state E] \<rparr>))
     | DrawHolds drawIt \<Rightarrow> let cmds' = cmds @ drawView E (ucast drawIt) in
         if v < drawCount E then Inr (s1\<lparr> dw_threads := (dw_threads s)[t := DrawHolds v], dw_cmds := (dw_cmds s)[t := cmds'] \<rparr>)
         else Inr (s1\<lparr> dw_threads := (dw_threads s)[t := DrawOver], dw_cmds := (dw_cmds s)[t := cmds' @ [CmdEnd]] \<rparr>)
     | DrawOver \<Rightarrow> Inl Undefined)))"

definition draw_start :: "nat \<Rightarrow> draw_sys" where
  "draw_start n = \<lparr> dw_counter = 0, dw_threads = replicate n DrawIdle, dw_cmds = replicate n [] \<rparr>"

section \<open>What a command buffer draws\<close>

text \<open>The state that the commands set, and the draws as the shaders see them: the number of the view, as read
  from the push constants, with the viewport and the scissor rectangle.\<close>

type_synonym screen_rect = "int \<times> int \<times> u32 \<times> u32"

fun drawn :: "screen_rect \<Rightarrow> screen_rect \<Rightarrow> nat \<Rightarrow> draw_cmd list \<Rightarrow> (nat \<times> screen_rect \<times> screen_rect) list" where
  "drawn v sc i [] = []"
| "drawn v sc i (CmdSetViewport x y w h # cs) = drawn (x, y, w, h) sc i cs"
| "drawn v sc i (CmdSetScissor x y w h # cs) = drawn v (x, y, w, h) i cs"
| "drawn v sc i (CmdPushConstants pc # cs) = drawn v sc (unat (drop_bit 10 (pc_viewAndMaterialId pc))) cs"
| "drawn v sc i (CmdDrawIndexed n # cs) = (i, v, sc) # drawn v sc i cs"
| "drawn v sc i (_ # cs) = drawn v sc i cs"

definition buffer_draws :: "draw_cmd list \<Rightarrow> (nat \<times> screen_rect \<times> screen_rect) list" where
  "buffer_draws cs = drawn (0, 0, 0, 0) (0, 0, 0, 0) 0 cs"

definition view_rect :: "draw_env \<Rightarrow> nat \<Rightarrow> screen_rect" where
  "view_rect E k = (let (deltaX, deltaY) = draw_delta E; gw = fst (dn_grid E) in
     (sint (of_nat k mod gw * deltaX), sint (of_nat k div gw * deltaY), deltaX, deltaY))"

definition view_draw :: "draw_env \<Rightarrow> nat \<Rightarrow> nat \<times> screen_rect \<times> screen_rect" where
  "view_draw E k = (k, view_rect E k, view_rect E k)"

fun held_draws :: "draw_env \<Rightarrow> draw_pc \<Rightarrow> (nat \<times> screen_rect \<times> screen_rect) list" where
  "held_draws E (DrawHolds v) = [view_draw E (unat v)]"
| "held_draws E _ = []"

lemma low_view:
  assumes "unat (v :: u32) < 2 ^ 16"
  shows "ucast (ucast v :: u16) = v" and "unat (drop_bit 10 (push_bit 10 v)) = unat v"
proof -
  show "ucast (ucast v :: u16) = v" by (rule word_eq_iff_unsigned [where 'a = nat, THEN iffD2])
    (use assms in \<open>simp add: unsigned_ucast_eq unsigned_take_bit_eq take_bit_nat_eq_self\<close>)
  have "unat (push_bit 10 v) = unat v * 1024"
    using assms by (simp add: push_bit_eq_mult unat_word_ariths)
  then show "unat (drop_bit 10 (push_bit 10 v)) = unat v" unfolding unat_drop_bit_eq by (simp add: drop_bit_eq_div)
qed

lemma drawn_end [simp]: "drawn v sc i (cs @ [CmdEnd]) = drawn v sc i cs"
  by (induction v sc i cs rule: drawn.induct) auto

lemma drawn_view:
  assumes "unat (k :: u32) < 2 ^ 16"
  shows "drawn v sc i (cs @ drawView E (ucast k)) = drawn v sc i cs @ [view_draw E (unat k)]"
proof (induction v sc i cs rule: drawn.induct)
  case (1 v sc i)
  then show ?case using low_view [OF assms]
    by (simp add: drawView_def setViewportAndScissor_def Let_def SHADER_TYPES_MATERIAL_INDEX_BITS_def
      kMaterialIndex_def view_draw_def view_rect_def split_beta)
qed simp_all

lemma buffer_draws_simps [simp]: "buffer_draws [] = []" "buffer_draws (bind_state E) = []"
  "buffer_draws (cs @ [CmdEnd]) = buffer_draws cs"
  "unat (k :: u32) < 2 ^ 16 \<Longrightarrow> buffer_draws (cs @ drawView E (ucast k)) = buffer_draws cs @ [view_draw E (unat k)]"
  by (simp_all add: buffer_draws_def bind_state_def drawn_view)

lemma mset_concat_update:
  "t < length xs \<Longrightarrow> mset (concat (map f (xs[t := y]))) + mset (f (xs ! t)) = mset (concat (map f xs)) + mset (f y)"
proof (induction xs arbitrary: t)
  case (Cons x xs)
  show ?case
  proof (cases t)
    case 0
    then show ?thesis by (simp add: ac_simps)
  next
    case (Suc u)
    then show ?thesis using Cons.IH [of u] Cons.prems by (simp add: add.assoc)
  qed
qed simp

lemma union_swap:
  fixes a a' b b' x y z w :: "'a multiset"
  assumes "a' + x = a + y" "b' + z = b + w"
  shows "a' + b' + (x + z) = a + b + (y + w)"
proof -
  have "(a' + x) + (b' + z) = (a + y) + (b + w)" using assms by simp
  then show ?thesis by (simp add: ac_simps)
qed

lemma length_filter_update:
  "t < length xs \<Longrightarrow> length (filter P (xs[t := y])) + (if P (xs ! t) then 1 else 0) = length (filter P xs) + (if P y then 1 else 0)"
proof (induction xs arbitrary: t)
  case (Cons x xs)
  then show ?case by (cases t) (auto split: if_splits)
qed simp

section \<open>Each view is drawn once\<close>

text \<open>After \<open>k\<close> accesses to the counter: \<open>k\<close> views are taken, or all of them and one access more for each thread
  that is done.\<close>

fun thread_ok :: "draw_env \<Rightarrow> draw_pc \<Rightarrow> draw_cmd list \<Rightarrow> bool" where
  "thread_ok E DrawIdle cs \<longleftrightarrow> cs = []"
| "thread_ok E (DrawHolds v) cs \<longleftrightarrow> v < drawCount E"
| "thread_ok E DrawOver cs \<longleftrightarrow> True"

definition draw_inv :: "draw_env \<Rightarrow> nat \<Rightarrow> nat \<Rightarrow> draw_sys \<Rightarrow> bool" where
  "draw_inv E n k s \<longleftrightarrow> length (dw_threads s) = n \<and> length (dw_cmds s) = n \<and> unat (dw_counter s) = k
     \<and> k = min k (unat (drawCount E)) + length (filter (\<lambda>p. p = DrawOver) (dw_threads s))
     \<and> mset (concat (map buffer_draws (dw_cmds s))) + mset (concat (map (held_draws E) (dw_threads s)))
         = mset (map (view_draw E) [0..<min k (unat (drawCount E))])
     \<and> (\<forall>t < n. thread_ok E (dw_threads s ! t) (dw_cmds s ! t))"

lemma min_steps: "k < c \<Longrightarrow> min (Suc k) c = Suc (min k c)" "\<not> k < c \<Longrightarrow> min (Suc k) c = min k c" for k c :: nat
  by auto

lemma draw_inv_step:
  assumes "draw_inv E n k s" "t < n" "dw_threads s ! t \<noteq> DrawOver" "unat (drawCount E) + n < 2 ^ 32"
    and draws: "mset (buffer_draws cs) + mset (held_draws E q) = mset (buffer_draws (dw_cmds s ! t)) + mset (held_draws E (dw_threads s ! t))
      + (if k < unat (drawCount E) then {#view_draw E k#} else {#})"
    and q: "if k < unat (drawCount E) then q = DrawHolds (dw_counter s) else q = DrawOver"
  shows "draw_inv E n (Suc k) (s\<lparr> dw_counter := dw_counter s + 1, dw_threads := (dw_threads s)[t := q], dw_cmds := (dw_cmds s)[t := cs] \<rparr>)"
proof -
  let ?c = "unat (drawCount E)" and ?over = "\<lambda>p. p = DrawOver"
  have len: "length (dw_threads s) = n" "length (dw_cmds s) = n" and k: "unat (dw_counter s) = k"
    using assms(1) by (simp_all add: draw_inv_def)
  then have t: "t < length (dw_threads s)" "t < length (dw_cmds s)" using assms(2) by simp_all
  have "length (filter ?over (dw_threads s)) < n"
    using assms(3) t len by (metis (mono_tags, lifting) length_filter_less nth_mem)
  then have "k < ?c + n" using assms(1) by (auto simp: draw_inv_def)
  then have k1: "unat (dw_counter s + 1) = Suc k" using k assms(4) by (simp add: unat_word_ariths)
  have all: "\<forall>u < n. thread_ok E ((dw_threads s)[t := q] ! u) ((dw_cmds s)[t := cs] ! u)"
  proof (intro allI impI)
    fix u assume "u < n"
    then have "thread_ok E (dw_threads s ! u) (dw_cmds s ! u)"
      using assms(1) by (simp add: draw_inv_def)
    then show "thread_ok E ((dw_threads s)[t := q] ! u) ((dw_cmds s)[t := cs] ! u)"
      using q t by (cases "t = u") (auto simp: word_less_nat_alt k split: if_splits draw_pc.splits)
  qed
  have "mset (concat (map buffer_draws ((dw_cmds s)[t := cs]))) + mset (concat (map (held_draws E) ((dw_threads s)[t := q])))
      + (mset (buffer_draws (dw_cmds s ! t)) + mset (held_draws E (dw_threads s ! t)))
    = mset (concat (map buffer_draws (dw_cmds s))) + mset (concat (map (held_draws E) (dw_threads s))) + (mset (buffer_draws cs) + mset (held_draws E q))"
    by (rule union_swap [OF mset_concat_update [OF t(2)] mset_concat_update [OF t(1)]])
  then have "mset (concat (map buffer_draws ((dw_cmds s)[t := cs]))) + mset (concat (map (held_draws E) ((dw_threads s)[t := q])))
    = mset (concat (map buffer_draws (dw_cmds s))) + mset (concat (map (held_draws E) (dw_threads s))) + (if k < ?c then {#view_draw E k#} else {#})"
    unfolding draws by (simp add: ac_simps)
  then show ?thesis using assms(1) length_filter_update [OF t(1), of ?over q] assms(3) q k1 all
    by (cases "k < ?c") (auto simp: draw_inv_def len min_steps)
qed

lemma draw_exec_inv:
  assumes "draw_exec E t s = Inr s'" "draw_inv E n k s" "unat (drawCount E) + n < 2 ^ 32" "unat (drawCount E) < 2 ^ 16"
  shows "draw_inv E n (Suc k) s'"
proof -
  let ?v = "dw_counter s"
  have k: "unat ?v = k" and len: "length (dw_threads s) = n" "length (dw_cmds s) = n" using assms(2) by (simp_all add: draw_inv_def)
  have t: "t < n" and nover: "dw_threads s ! t \<noteq> DrawOver"
    using assms(1) len by (auto simp: draw_exec_def Let_def bind_res_Inr idx_Inr)
  have pc: "thread_ok E (dw_threads s ! t) (dw_cmds s ! t)"
    using assms(2) t by (simp add: draw_inv_def)
  have lt: "?v < drawCount E \<longleftrightarrow> k < unat (drawCount E)" "drawCount E \<le> ?v \<longleftrightarrow> \<not> k < unat (drawCount E)"
    by (simp_all add: word_less_nat_alt word_le_nat_alt k not_less)
  note step = draw_inv_step [OF assms(2) t nover assms(3)]
  show ?thesis
  proof (cases "dw_threads s ! t")
    case DrawIdle
    show ?thesis
    proof (cases "k < unat (drawCount E)")
      case True
      then have "s' = s\<lparr> dw_counter := ?v + 1, dw_threads := (dw_threads s)[t := DrawHolds ?v], dw_cmds := (dw_cmds s)[t := bind_state E] \<rparr>"
        using assms(1) DrawIdle t lt len by (simp add: draw_exec_def Let_def idx_def split: if_splits)
      then show ?thesis using step [of "bind_state E" "DrawHolds ?v"] True pc DrawIdle k by simp
    next
      case False
      then have "s' = s\<lparr> dw_counter := ?v + 1, dw_threads := (dw_threads s)[t := DrawOver], dw_cmds := (dw_cmds s)[t := dw_cmds s ! t] \<rparr>"
        using assms(1) DrawIdle t lt len by (cases s) (auto simp: draw_exec_def Let_def idx_def)
      then show ?thesis using step [of "dw_cmds s ! t" DrawOver] False pc DrawIdle by simp
    qed
  next
    case (DrawHolds u)
    then have u: "unat u < 2 ^ 16" using pc assms(4) by (simp add: word_less_nat_alt)
    let ?cs = "dw_cmds s ! t @ drawView E (ucast u)"
    show ?thesis
    proof (cases "k < unat (drawCount E)")
      case True
      then have "s' = s\<lparr> dw_counter := ?v + 1, dw_threads := (dw_threads s)[t := DrawHolds ?v], dw_cmds := (dw_cmds s)[t := ?cs] \<rparr>"
        using assms(1) DrawHolds t lt len by (simp add: draw_exec_def Let_def idx_def)
      then show ?thesis using step [of ?cs "DrawHolds ?v"] True u DrawHolds k by simp
    next
      case False
      then have "s' = s\<lparr> dw_counter := ?v + 1, dw_threads := (dw_threads s)[t := DrawOver], dw_cmds := (dw_cmds s)[t := ?cs @ [CmdEnd]] \<rparr>"
        using assms(1) DrawHolds t lt len by (simp add: draw_exec_def Let_def idx_def)
      then show ?thesis using step [of "?cs @ [CmdEnd]" DrawOver] False u DrawHolds by (simp flip: append_assoc)
    qed
  qed (use nover in simp)
qed

lemma draw_run_inv:
  "fold_res (draw_exec E) ts s = Inr s' \<Longrightarrow> draw_inv E n k s \<Longrightarrow> unat (drawCount E) + n < 2 ^ 32 \<Longrightarrow> unat (drawCount E) < 2 ^ 16
    \<Longrightarrow> draw_inv E n (k + length ts) s'"
proof (induction ts arbitrary: s k)
  case (Cons t ts)
  then obtain s1 where "draw_exec E t s = Inr s1" "fold_res (draw_exec E) ts s1 = Inr s'" by (auto simp: bind_res_Inr)
  then show ?case using Cons.IH [of s1 "Suc k"] Cons.prems draw_exec_inv [of E t s s1 n k] by simp
qed simp

lemma draw_start_inv: "draw_inv E n 0 (draw_start n)"
  by (simp add: draw_inv_def draw_start_def map_replicate_const concat_replicate_trivial)

lemma draw_exec_progress:
  assumes "draw_inv E n k s" "t < n" "dw_threads s ! t \<noteq> DrawOver" "0 < fst (draw_delta E)" "0 < snd (draw_delta E)"
  shows "\<exists>s'. draw_exec E t s = Inr s'"
proof -
  have "t < length (dw_threads s)" "t < length (dw_cmds s)" using assms(1,2) by (simp_all add: draw_inv_def)
  then show ?thesis using assms(3-5) by (cases "dw_threads s ! t") (simp_all add: draw_exec_def Let_def idx_def)
qed

lemma filter_full: "length (filter P xs) = length xs \<longleftrightarrow> list_all P xs"
proof (induction xs)
  case (Cons x xs)
  have "length (filter P xs) \<noteq> Suc (length xs)" using length_filter_le [of P xs] by linarith
  then show ?case using Cons.IH by auto
qed simp

definition all_over :: "draw_sys \<Rightarrow> bool" where
  "all_over s \<longleftrightarrow> list_all (\<lambda>p. p = DrawOver) (dw_threads s)"

lemma draw_inv_over:
  assumes "draw_inv E n k s" "0 < n"
  shows "k \<le> unat (drawCount E) + n" "all_over s \<longleftrightarrow> k = unat (drawCount E) + n"
    "all_over s \<Longrightarrow> mset (concat (map buffer_draws (dw_cmds s))) = mset (map (view_draw E) [0..<unat (drawCount E)])"
proof -
  let ?c = "unat (drawCount E)" and ?f = "filter (\<lambda>p. p = DrawOver) (dw_threads s)"
  have k: "k = min k ?c + length ?f" and n: "length (dw_threads s) = n" using assms(1) by (simp_all add: draw_inv_def)
  have f: "length ?f \<le> n" "length ?f = n \<longleftrightarrow> all_over s" using length_filter_le [of "\<lambda>p. p = DrawOver" "dw_threads s"] n
      filter_full [of "\<lambda>p. p = DrawOver" "dw_threads s"] by (simp_all add: all_over_def)
  show "k \<le> ?c + n" using k f(1) by linarith
  have e: "k = ?c + n" if "length ?f = n" using k that assms(2) by linarith
  have "length ?f = n" if "k = ?c + n" using k that f(1) assms(2) by linarith
  then show "all_over s \<longleftrightarrow> k = ?c + n" using e f(2) by blast
  assume o: "all_over s"
  have "dw_threads s = replicate n DrawOver" using o n by (auto simp: all_over_def list_all_iff intro: replicate_eqI)
  then have "concat (map (held_draws E) (dw_threads s)) = []" by (simp only: map_replicate held_draws.simps concat_replicate_trivial)
  moreover have "min k ?c = ?c" using e f(2) o by simp
  moreover have "mset (concat (map buffer_draws (dw_cmds s))) + mset (concat (map (held_draws E) (dw_threads s)))
      = mset (map (view_draw E) [0..<min k ?c])" using assms(1) unfolding draw_inv_def by blast
  ultimately show "mset (concat (map buffer_draws (dw_cmds s))) = mset (map (view_draw E) [0..<?c])"
    by (simp only: mset.simps add_0_right)
qed

definition camera_rect :: "camera_viewport \<Rightarrow> screen_rect" where
  "camera_rect v = (int (unat (cv_x v)), int (unat (cv_y v)), ucast (cv_width v), ucast (cv_height v))"

lemma sint_small: "unat (v :: u32) < 2 ^ 16 \<Longrightarrow> sint v = int (unat v)"
proof -
  assume v: "unat v < 2 ^ 16"
  have u: "int (unat v) = uint v" by simp
  have "int (unat v) < int (2 ^ 16)" unfolding of_nat_less_iff by (rule v)
  then have "uint v < 2 ^ 16" unfolding u by simp
  moreover have "0 \<le> uint v" by simp
  ultimately show "sint v = int (unat v)" unfolding sint_uint u by (intro signed_take_bit_int_eq_self) (auto intro: order_trans [of _ 0])
qed

text \<open>A cell of an area, with the numbers as integers: the view \<open>k\<close> is in column \<open>k mod width\<close> and row
  \<open>k div width\<close> of the grid.\<close>

definition cell_size :: "u32 \<times> u32 \<Rightarrow> u32 \<times> u32 \<Rightarrow> u32 \<times> u32" where
  "cell_size grid area = (fst area div fst grid, snd area div snd grid)"

definition cell_rect :: "u32 \<times> u32 \<Rightarrow> u32 \<times> u32 \<Rightarrow> nat \<Rightarrow> screen_rect" where
  "cell_rect grid area k = (let (width, height) = cell_size grid area; columns = unat (fst grid)
     in (int (k mod columns * unat width), int (k div columns * unat height), width, height))"

lemma cell_rects:
  assumes "fst grid \<noteq> 0" "unat (fst grid) * unat (snd grid) < 2 ^ 32" "k < unat (fst grid) * unat (snd grid)" "small_extent area"
  shows "dn_grid E = grid \<Longrightarrow> dn_area E = area \<Longrightarrow> view_rect E k = cell_rect grid area k"
    and "camera_rect (cell_viewport grid area k) = cell_rect grid area k"
proof -
  obtain gw gh where g: "grid = (gw, gh)" by fastforce
  let ?dx = "fst area div gw" and ?dy = "snd area div gh" and ?i = "k mod unat gw" and ?j = "k div unat gw"
  have "?j < unat gh" using assms(3) g by (metis fst_conv snd_conv less_mult_imp_div_less mult.commute)
  then have b: "?i * unat ?dx < 2 ^ 16" "?j * unat ?dy < 2 ^ 16" "unat ?dx < 2 ^ 16" "unat ?dy < 2 ^ 16"
    using cell_bounds [OF assms(4), of "(gw, gh)" k] assms(1) g by simp_all
  have small: "unat (of_nat m :: u32) = m" if "m \<le> k" for m using that assms(2,3) by (simp only: unat_of_nat) simp
  note index_small = small [OF le_refl] small [OF mod_less_eq_dividend] small [OF div_le_dividend]
  have ij: "of_nat k mod gw = (of_nat ?i :: u32)" "of_nat k div gw = (of_nat ?j :: u32)"
    by (simp_all add: word_eq_iff_unsigned [where ?'a = nat] unat_div unat_mod index_small)
  note product = unat_product [OF b(1)] unat_product [OF b(2)]
  show "view_rect E k = cell_rect grid area k" if "dn_grid E = grid" "dn_area E = area"
    using b product that by (simp add: view_rect_def draw_delta_def g cell_rect_def cell_size_def Let_def ij sint_small)
  show "camera_rect (cell_viewport grid area k) = cell_rect grid area k"
    using b product by (simp add: g camera_rect_def cell_viewport_def cell_rect_def cell_size_def Let_def low_view)
qed

lemma cell_rect_eq_iff: "cell_rect grid area k = cell_rect grid area' k \<longleftrightarrow> cell_size grid area = cell_size grid area'"
  by (auto simp: cell_rect_def Let_def split: prod.splits)

lemma window_grid:
  assumes "window_ok g w"
  shows "fst (wv_grid w) \<noteq> 0" "unat (fst (wv_grid w)) * unat (snd (wv_grid w)) < 2 ^ 32"
    "length (wv_cameras w) = unat (fst (wv_grid w)) * unat (snd (wv_grid w))"
  using assms by (simp_all add: window_ok_def views_ok_def small_grid_def)

lemma camera_cell:
  assumes "window_ok g w" "k < length (wv_cameras w)"
  shows "camera_rect (cam_viewport (wv_cameras w ! k)) = cell_rect (wv_grid w) (wv_extent w) k"
proof -
  have "cam_viewport (wv_cameras w ! k) = cell_viewport (wv_grid w) (wv_extent w) k" "small_extent (wv_extent w)"
    using assms by (simp_all add: window_ok_def views_ok_def Let_def)
  then show ?thesis using cell_rects(2) [OF window_grid(1,2) [OF assms(1)]] assms(2) window_grid(3) [OF assms(1)] by simp
qed

text \<open>C24: The threads of the main pass share the views of the window, fewer than 2 ^ 16 with extents below 2 ^ 16: whatever the order in which they access the
  counter, they access it at most once for each view and once more for each thread, and all are done
  after exactly so many accesses; then the command buffers of all threads together draw every view exactly once,
  with its number in the push constants and its cell of the render area as viewport and scissor rectangle.
  The render area is that of the render images, which keep the extent with which the window was created: the
  rectangle is the viewport of the view's camera exactly when the present extent of the window gives cells of the
  same size, so not after a resize that changes them. As long as the cells are not empty, a thread that is not
  done can go on.\<close>
theorem views_drawn_once:
  assumes "Window_new g grid extent memory = Inr w0" and "fold_res (view_exec g) ops w0 = Inr w"
    and "small_grid grid" and "small_extent extent" and "list_all view_op_small ops"
    and "dn_grid E = wv_grid w" and "dn_area E = extent" and "unat (drawCount E) < 2 ^ 16"
    and "fold_res (draw_exec E) ts (draw_start n) = Inr s" and "0 < n" and "n < 2 ^ 31"
  shows "let c = length (wv_cameras w); rect = cell_rect (wv_grid w) extent; (width, height) = cell_size (wv_grid w) extent in
     length ts \<le> c + n \<and> (all_over s \<longleftrightarrow> length ts = c + n)
     \<and> (all_over s \<longrightarrow> mset (concat (map buffer_draws (dw_cmds s))) = mset (map (\<lambda>k. (k, rect k, rect k)) [0..<c]))
     \<and> (\<forall>k < c. rect k = camera_rect (cam_viewport (wv_cameras w ! k)) \<longleftrightarrow> cell_size (wv_grid w) (wv_extent w) = (width, height))
     \<and> (0 < width \<and> 0 < height \<longrightarrow> (\<forall>t < n. dw_threads s ! t \<noteq> DrawOver \<longrightarrow> (\<exists>s'. draw_exec E t s = Inr s')))"
proof -
  have ok: "window_ok g w" by (rule window_run_ok [OF assms(1-5)])
  note grid = window_grid [OF ok]
  have "unat (drawCount E) = unat (fst (wv_grid w)) * unat (snd (wv_grid w))"
    using grid(2) by (simp add: drawCount_def assms(6) unat_word_ariths)
  then have c: "unat (drawCount E) = length (wv_cameras w)" using grid(3) by simp
  have inv: "draw_inv E n (length ts) s"
    using draw_run_inv [OF assms(9) draw_start_inv] assms(8,11) by simp
  have delta: "draw_delta E = cell_size (wv_grid w) extent" by (simp add: draw_delta_def cell_size_def assms(6,7))
  have "map (view_draw E) [0..<length (wv_cameras w)]
      = map (\<lambda>k. (k, cell_rect (wv_grid w) extent k, cell_rect (wv_grid w) extent k)) [0..<length (wv_cameras w)]"
    using cell_rects(1) [OF grid(1,2) _ assms(4,6,7)] by (simp add: view_draw_def grid(3))
  note over = draw_inv_over [OF inv assms(10), unfolded c this]
  have cams: "cell_rect (wv_grid w) extent k = camera_rect (cam_viewport (wv_cameras w ! k))
      \<longleftrightarrow> cell_size (wv_grid w) (wv_extent w) = cell_size (wv_grid w) extent" if "k < length (wv_cameras w)" for k
    unfolding camera_cell [OF ok that] cell_rect_eq_iff by (rule eq_commute)
  obtain width height where size: "cell_size (wv_grid w) extent = (width, height)" by fastforce
  show ?thesis unfolding Let_def size split_conv
    by (intro conjI impI allI over(1,2) over(3) cams [unfolded size] draw_exec_progress [OF inv]) (simp_all add: delta size)
qed

definition ex_draw_env :: draw_env where
  "ex_draw_env = \<lparr> dn_grid = (2, 1), dn_area = (80, 60), dn_frame = 7, dn_vertexBuffer = 1, dn_indexBuffer = 2,
     dn_indexCount = 36, dn_levels = 15 \<rparr>"

text \<open>A window of 80 by 60 pixels with one view, resized to 101 by 60 and split into two: the cameras' viewports are
  50 pixels wide, the draws 40.\<close>
theorem views_drawn_once_witness:
  "\<exists>w0 w s. Window_new ex_glm (1, 1) (80, 60) [[0, 0]] = Inr w0 \<and> fold_res (view_exec ex_glm) ex_view_ops w0 = Inr w
     \<and> fold_res (draw_exec ex_draw_env) [1, 0, 1, 0] (draw_start 2) = Inr s \<and> all_over s
     \<and> mset (concat (map buffer_draws (dw_cmds s))) = {#(0, (0, 0, 40, 60), (0, 0, 40, 60)), (1, (40, 0, 40, 60), (40, 0, 40, 60))#}
     \<and> camera_rect (cam_viewport (wv_cameras w ! 1)) = (50, 0, 50, 60)"
proof -
  have "\<exists>w0 w. Window_new ex_glm (1, 1) (80, 60) [[0, 0]] = Inr w0 \<and> fold_res (view_exec ex_glm) ex_view_ops w0 = Inr w
     \<and> wv_grid w = (2, 1) \<and> wv_extent w = (101, 60) \<and> map (camera_rect \<circ> cam_viewport) (wv_cameras w) = [(0, 0, 50, 60), (50, 0, 50, 60)]"
    by (simp add: ex_view_simps upt_rec InternalUpdateViewBuffer_def write_views_def SHADER_TYPES_VIEW_COUNT_def camera_rect_def
      Camera_UpdateAll_def UpdateProjectionMatrix_def UpdateViewMatrix_def)
  then obtain w0 w where w: "Window_new ex_glm (1, 1) (80, 60) [[0, 0]] = Inr w0" "fold_res (view_exec ex_glm) ex_view_ops w0 = Inr w"
     "wv_grid w = (2, 1)" "wv_extent w = (101, 60)" and cams: "map (camera_rect \<circ> cam_viewport) (wv_cameras w) = [(0, 0, 50, 60), (50, 0, 50, 60)]" by (elim exE conjE)
  have s: "small_grid (1, 1)" "small_extent (80, 60)" "list_all view_op_small ex_view_ops"
    by (simp_all add: small_grid_def small_extent_def ex_view_ops_def)
  have E: "dn_grid ex_draw_env = wv_grid w" "dn_area ex_draw_env = (80, 60)" "unat (drawCount ex_draw_env) < 2 ^ 16"
    by (simp_all add: ex_draw_env_def w(3) drawCount_def)
  have "draw_start 2 = \<lparr> dw_counter = 0, dw_threads = [DrawIdle, DrawIdle], dw_cmds = [[], []] \<rparr>"
    by (simp add: draw_start_def numeral_2_eq_2)
  then have "\<exists>s. fold_res (draw_exec ex_draw_env) [1, 0, 1, 0] (draw_start 2) = Inr s"
    by (simp add: draw_exec_def Let_def idx_def draw_delta_def ex_draw_env_def drawCount_def word_le_nat_alt)
  then obtain s where run: "fold_res (draw_exec ex_draw_env) [1, 0, 1, 0] (draw_start 2) = Inr s" by blast
  have c: "length (wv_cameras w) = 2" using cams by (metis length_map length_Cons list.size(3) numeral_2_eq_2)
  have cam: "camera_rect (cam_viewport (wv_cameras w ! 1)) = (50, 0, 50, 60)"
    using arg_cong [OF cams, of "\<lambda>xs. xs ! 1"] c by simp
  have "all_over s \<and> mset (concat (map buffer_draws (dw_cmds s))) =
      mset (map (\<lambda>k. (k, cell_rect (2, 1) (80, 60) k, cell_rect (2, 1) (80, 60) k)) [0..<2])"
    using views_drawn_once [OF w(1,2) s E run] c w(3) by (simp add: Let_def split_beta del: mset_map)
  then have "all_over s \<and> mset (concat (map buffer_draws (dw_cmds s))) =
      {#(0, (0, 0, 40, 60), (0, 0, 40, 60)), (1, (40, 0, 40, 60), (40, 0, 40, 60))#}"
    by (simp add: upt_rec cell_rect_def cell_size_def)
  then show ?thesis using w run cam by blast
qed

end
