(* ===== verification/Frame_Draw.thy ===== *)
theory Frame_Draw
imports Frame_Phases Circular_Container View_Drawing
begin

text \<open>
  The frame loop (\<open>RHIApplication::Draw\<close> of \<open>rhi/vulkan/rhiapplication.cpp\<close>): every frame takes the next queue
  of its family, waits for what was submitted there before, records and submits one primary buffer with the
  secondary ones of the views, and presents. Between frames the other users of the graphics queue appear: the
  transition of a loaded image (\<open>image.cpp\<close>) and the objects of a window (\<open>rhi.cpp\<close>). Each queue has its own
  command pools, hence its own log of driver calls.
\<close>

section \<open>Queues with what was submitted to them\<close>

record slot =
  sl_state :: qstate
  sl_sync :: host_sync

definition no_sync :: host_sync where
  "no_sync = \<lparr> fences = 0, maxTimelineValue = 0 \<rparr>"

fun sync_of :: "qop \<Rightarrow> qstate \<Rightarrow> host_sync" where
  "sync_of QSubmit s = fst (Queue_Submit (qs_queue s) (qs_ctx s))"
| "sync_of (QPresent fence ids) s = (case Present fence ids (qs_queue s) (qs_ctx s) of Inl e \<Rightarrow> no_sync | Inr (h, q, x) \<Rightarrow> h)"
| "sync_of _ s = no_sync"

definition slot_exec :: "qop \<Rightarrow> slot \<Rightarrow> slot res" where
  "slot_exec op sl = bind_res (qexec op (sl_state sl)) (\<lambda>s.
     Inr \<lparr> sl_state = s, sl_sync = host_sync_or (sl_sync sl) (sync_of op (sl_state sl)) \<rparr>)"

text \<open>Waiting for the fences of all submits completes what the device still has of this queue.\<close>

definition wait_fences :: "slot \<Rightarrow> slot res" where
  "wait_fences sl = (if fences (sl_sync sl) = 0 then Inr sl
     else slot_exec (QCompleted (in_flight (calls (qs_ctx (sl_state sl))) [])) sl)"

definition recycle :: "slot \<Rightarrow> slot res" where
  "recycle sl = bind_res (wait_fences sl) (\<lambda>sl1. slot_exec QSwapAndResetPool (sl1\<lparr> sl_sync := no_sync \<rparr>))"

section \<open>One frame\<close>

record transition =
  tr_semaphore :: nat
  tr_value :: u64
  tr_callbacks :: "nat list"

record frame_env =
  fr_flipped :: bool
  fr_semaphore :: nat
  fr_transitions :: "transition list"
  fr_threads :: nat
  fr_busy :: "nat list"
  fr_pass :: inheritance_info
  fr_acquired :: nat
  fr_finished :: nat
  fr_callbacks :: "nat list"
  fr_swapchain :: nat
  fr_image :: u32
  fr_presentId :: u64
  fr_presentFence :: bool
  fr_presentIds :: bool

record draw_state =
  ds_graphics :: "slot circular"
  ds_compute :: "slot circular option"
  ds_timeline :: u64
  ds_ready :: "nat list list"

definition one_batch :: "sync_info \<Rightarrow> slot \<Rightarrow> slot res" where
  "one_batch si = fold_res slot_exec [QCommands (scope_desc_default True), QEnd 0, QEnqueueSubmit [si], QSubmit, QDrop 0]"

definition transition_sync :: "nat \<Rightarrow> transition \<Rightarrow> u64 \<Rightarrow> sync_info" where
  "transition_sync semaphore tr timeline = \<lparr> waitSemaphores = [tr_semaphore tr], waitDstStageMasks = [0x1000],
     waitSemaphoreValues = [tr_value tr], signalSemaphores = [semaphore], signalSemaphoreValues = [timeline],
     callbacks = tr_callbacks tr \<rparr>"

definition run_transition :: "nat \<Rightarrow> transition \<Rightarrow> u64 \<times> slot \<Rightarrow> (u64 \<times> slot) res" where
  "run_transition semaphore tr = (\<lambda>(timeline, sl).
     bind_res (one_batch (transition_sync semaphore tr (timeline + 1)) sl) (\<lambda>sl'. Inr (timeline + 1, sl')))"

definition window_sync :: "nat \<Rightarrow> u64 \<Rightarrow> sync_info" where
  "window_sync semaphore timeline = \<lparr> waitSemaphores = [], waitDstStageMasks = [], waitSemaphoreValues = [],
     signalSemaphores = [semaphore], signalSemaphoreValues = [timeline], callbacks = [] \<rparr>"

definition thread_desc :: "frame_env \<Rightarrow> nat \<Rightarrow> scope_desc" where
  "thread_desc E threadIt = \<lparr> sd_flags = 1 OR 2, sd_member = no_inheritance, sd_inheritance = fr_pass E, sd_level = threadIt + 1, sd_scopedBeginEnd = True \<rparr>"

text \<open>The threads that found a view record a buffer of their level; every level of a thread is executed.\<close>

definition record_frame :: "frame_env \<Rightarrow> u64 \<Rightarrow> slot \<Rightarrow> slot res" where
  "record_frame E timeline = fold_res slot_exec ([QCommands (scope_desc_default True)]
     @ concat (map (\<lambda>t. [QCommands (thread_desc E t), QEnd 1, QDrop 1]) (fr_busy E))
     @ map (\<lambda>level. QExecute level timeline) [1..<fr_threads E + 1] @ [QEnd 0])"

definition frame_sync :: "frame_env \<Rightarrow> u64 \<Rightarrow> u64 \<Rightarrow> sync_info" where
  "frame_sync E lastValue timeline = \<lparr> waitSemaphores = [fr_semaphore E, fr_acquired E], waitDstStageMasks = [0x8000, 0],
     waitSemaphoreValues = [lastValue, 1], signalSemaphores = [fr_semaphore E, fr_finished E],
     signalSemaphoreValues = [timeline, 1], callbacks = fr_callbacks E \<rparr>"

definition frame_present :: "frame_env \<Rightarrow> present_info" where
  "frame_present E = \<lparr> presentWaits = [fr_finished E], swapchains = [fr_swapchain E], imageIndices = [fr_image E], results = [],
     presentIds = (if fr_presentIds E then [fr_presentId E] else []) \<rparr>"

definition present_ops :: "frame_env \<Rightarrow> qop list" where
  "present_ops E = [QEnqueuePresent [frame_present E], QPresent (fr_presentFence E) (fr_presentIds E)]"

text \<open>On the next queue of a dedicated compute family, if there is one.\<close>

definition present_frame :: "frame_env \<Rightarrow> slot \<times> slot circular option \<Rightarrow> (slot \<times> slot circular option) res" where
  "present_frame E = (\<lambda>(sl, compute). case compute of
       None \<Rightarrow> bind_res (fold_res slot_exec (present_ops E) sl) (\<lambda>sl'. Inr (sl', None))
     | Some c \<Rightarrow> bind_res (FetchAdd 1 c) (\<lambda>(i, c1). bind_res (idx (cc_items c) i) (\<lambda>p. bind_res (recycle p) (\<lambda>p1.
         bind_res (fold_res slot_exec (present_ops E) p1) (\<lambda>p2. Inr (sl, Some (c1\<lparr> cc_items := (cc_items c1)[i := p2] \<rparr>)))))))"

definition Draw :: "frame_env \<Rightarrow> draw_state \<Rightarrow> draw_state res" where
  "Draw E s = (if \<not> fr_flipped E then Inr s else
     bind_res (FetchAdd 1 (ds_graphics s)) (\<lambda>(lastIndex, g).
     bind_res (circular_Get g) (\<lambda>sl.
     bind_res (recycle sl) (\<lambda>sl1.
     bind_res (fold_res (run_transition (fr_semaphore E)) (fr_transitions E) (ds_timeline s, sl1)) (\<lambda>(timeline, sl2).
     bind_res (record_frame E timeline sl2) (\<lambda>sl3.
     bind_res (idx ((cc_items g)[cc_head g := sl3]) lastIndex) (\<lambda>lastSlot.
     bind_res (fold_res slot_exec [QEnqueueSubmit [frame_sync E (maxTimelineValue (sl_sync lastSlot)) (timeline + 1)], QSubmit] sl3) (\<lambda>sl4.
     bind_res (present_frame E (sl4, ds_compute s)) (\<lambda>(sl5, compute).
     bind_res (slot_exec (QDrop 0) sl5) (\<lambda>sl6.
       Inr (s\<lparr> ds_graphics := g\<lparr> cc_items := (cc_items g)[cc_head g := sl6] \<rparr>, ds_compute := compute, ds_timeline := timeline + 1 \<rparr>)))))))))))"

section \<open>Frames and what happens between them\<close>

text \<open>A run: frames, the task that hands the callbacks of a queue to the executor once the semaphore has reached a
  value, and the creation of the objects of a window.\<close>

datatype frame_op =
    FrameDraw frame_env
  | FrameCallbacks nat u64
  | FrameWindow nat

definition submit_callbacks :: "nat \<Rightarrow> u64 \<Rightarrow> draw_state \<Rightarrow> draw_state res" where
  "submit_callbacks i v s = bind_res (idx (cc_items (ds_graphics s)) i) (\<lambda>sl.
     let (ready, q) = SubmitCallbacks v (qs_queue (sl_state sl)); sl' = sl\<lparr> sl_state := (sl_state sl)\<lparr> qs_queue := q \<rparr> \<rparr>
     in Inr (s\<lparr> ds_graphics := (ds_graphics s)\<lparr> cc_items := (cc_items (ds_graphics s))[i := sl'] \<rparr>, ds_ready := ds_ready s @ ready \<rparr>))"

definition ConstructWindowDependentObjects :: "nat \<Rightarrow> draw_state \<Rightarrow> draw_state res" where
  "ConstructWindowDependentObjects semaphore s = (let g = ds_graphics s in bind_res (circular_Get g) (\<lambda>sl.
     bind_res (one_batch (window_sync semaphore (ds_timeline s + 1)) sl) (\<lambda>sl'.
       Inr (s\<lparr> ds_graphics := g\<lparr> cc_items := (cc_items g)[cc_head g := sl'] \<rparr>, ds_timeline := ds_timeline s + 1 \<rparr>))))"

fun frame_exec :: "frame_op \<Rightarrow> draw_state \<Rightarrow> draw_state res" where
  "frame_exec (FrameDraw E) s = Draw E s"
| "frame_exec (FrameCallbacks i v) s = submit_callbacks i v s"
| "frame_exec (FrameWindow semaphore) s = ConstructWindowDependentObjects semaphore s"

text \<open>As the queues are created: their pools have 15 and 1 levels.\<close>

definition new_slot :: "u32 \<Rightarrow> nat \<Rightarrow> slot" where
  "new_slot flags levels = \<lparr> sl_state = q_init flags levels, sl_sync = no_sync \<rparr>"

definition frame_start :: "u32 \<Rightarrow> nat \<Rightarrow> nat \<Rightarrow> draw_state" where
  "frame_start flags n m = \<lparr> ds_graphics = circular_of (replicate n (new_slot flags 15)),
     ds_compute = (if m = 0 then None else Some (circular_of (replicate m (new_slot flags 1)))), ds_timeline = 0, ds_ready = [] \<rparr>"

section \<open>One queue\<close>

fun quiet_op :: "qop \<Rightarrow> bool" where
  "quiet_op QSubmit = False"
| "quiet_op (QPresent _ _) = False"
| "quiet_op _ = True"

lemma sync_or_none [simp]: "host_sync_or h no_sync = h"
  by (cases h) (simp add: host_sync_or_def no_sync_def)

lemma sync_of_quiet [simp]: "quiet_op op \<Longrightarrow> sync_of op s = no_sync"
  by (cases op) simp_all

lemma slot_exec_quiet: "qexec op (sl_state sl) = Inr s \<Longrightarrow> quiet_op op \<Longrightarrow> slot_exec op sl = Inr (sl\<lparr> sl_state := s \<rparr>)"
  by (cases sl) (simp add: slot_exec_def)

lemma slot_run_quiet:
  "fold_res qexec ops (sl_state sl) = Inr s \<Longrightarrow> list_all quiet_op ops \<Longrightarrow> fold_res slot_exec ops sl = Inr (sl\<lparr> sl_state := s \<rparr>)"
proof (induction ops arbitrary: sl)
  case (Cons op ops)
  then obtain s1 where s1: "qexec op (sl_state sl) = Inr s1" "fold_res qexec ops s1 = Inr s" by (auto simp: bind_res_Inr)
  then show ?case using Cons.IH [of "sl\<lparr> sl_state := s1 \<rparr>"] Cons.prems(2) slot_exec_quiet [OF s1(1)] by simp
qed simp

definition slot_rest :: "nat \<Rightarrow> slot \<Rightarrow> bool" where
  "slot_rest levels sl \<longleftrightarrow> queue_rest levels (sl_state sl)
     \<and> (fences (sl_sync sl) = 0 \<longrightarrow> in_flight (calls (qs_ctx (sl_state sl))) [] = [])"

lemma recycle_rest:
  assumes "slot_rest levels sl"
  shows "\<exists>sl'. recycle sl = Inr sl' \<and> slot_rest levels sl' \<and> sl_sync sl' = no_sync"
proof -
  obtain s1 where s1: "wait_fences sl = Inr (sl\<lparr> sl_state := s1 \<rparr>)" "queue_rest levels s1" "in_flight (calls (qs_ctx s1)) [] = []"
  proof (cases "fences (sl_sync sl) = 0")
    case True
    then show ?thesis using that [of "sl_state sl"] assms by (simp add: wait_fences_def slot_rest_def)
  next
    case False
    obtain s1 where "qexec (QCompleted (in_flight (calls (qs_ctx (sl_state sl))) [])) (sl_state sl) = Inr s1"
      "queue_rest levels s1" "in_flight (calls (qs_ctx s1)) [] = []"
      using phase_wait [of levels "sl_state sl"] assms by (auto simp: slot_rest_def simp del: qexec.simps)
    then show ?thesis using that [of s1] False slot_exec_quiet [of _ sl s1] by (simp add: wait_fences_def del: qexec.simps)
  qed
  obtain s2 where s2: "qexec QSwapAndResetPool s1 = Inr s2" "queue_rest levels s2" "in_flight (calls (qs_ctx s2)) [] = []"
    using phase_swap [OF s1(2,3)] by blast
  have "recycle sl = Inr (sl\<lparr> sl_state := s2, sl_sync := no_sync \<rparr>)"
    using s1(1) s2(1) slot_exec_quiet [of QSwapAndResetPool "sl\<lparr> sl_state := s1, sl_sync := no_sync \<rparr>" s2]
    by (cases sl) (simp add: recycle_def del: qexec.simps)
  then show ?thesis using s2 by (simp add: slot_rest_def)
qed

text \<open>The batches handed to a queue, in order.\<close>

definition submits :: "vk_event list \<Rightarrow> submit_info list" where
  "submits t = concat (map (\<lambda>e. case e of VkQueueSubmit ss \<Rightarrow> ss | _ \<Rightarrow> []) t)"

lemma submits_append [simp]: "submits (t @ u) = submits t @ submits u"
  by (simp add: submits_def)

definition last_batch :: "sync_info \<Rightarrow> slot \<Rightarrow> bool" where
  "last_batch si sl \<longleftrightarrow> (\<exists>bs b. submits (calls (qs_ctx (sl_state sl))) = bs @ [b] \<and> length (commandBuffers b) = 1
     \<and> waitSemaphoreValues b = waitSemaphoreValues si \<and> signalSemaphoreValues b = signalSemaphoreValues si)"

text \<open>Enqueueing and submitting one batch.\<close>

lemma submit_batch:
  assumes "queue_ended levels p (sl_state sl)" "signalSemaphoreValues si = v # vs"
  shows "\<exists>s' h. fold_res slot_exec [QEnqueueSubmit [si], QSubmit] sl = Inr \<lparr> sl_state = s',
      sl_sync = host_sync_or (sl_sync sl) \<lparr> fences = 1, maxTimelineValue = max 0 (foldl max v vs) \<rparr> \<rparr>
    \<and> queue_enqueued levels p [] s'
    \<and> calls (qs_ctx s') = calls (qs_ctx (sl_state sl)) @ [VkQueueSubmit [sync_info.extend si \<lparr> commandBuffers = [h], timelineValue = foldl max v vs \<rparr>]]"
proof -
  obtain s1 h where s1: "qexec (QEnqueueSubmit [si]) (sl_state sl) = Inr s1"
    "queue_enqueued levels p [sync_info.extend si \<lparr> commandBuffers = [h], timelineValue = foldl max v vs \<rparr>] s1"
    "calls (qs_ctx s1) = calls (qs_ctx (sl_state sl))" using phase_enqueue [OF assms] by blast
  obtain s2 where s2: "qexec QSubmit s1 = Inr s2" "queue_enqueued levels p [] s2"
    "calls (qs_ctx s2) = calls (qs_ctx s1) @ [VkQueueSubmit [sync_info.extend si \<lparr> commandBuffers = [h], timelineValue = foldl max v vs \<rparr>]]"
    "fst (Queue_Submit (qs_queue s1) (qs_ctx s1)) = \<lparr> fences = 1, maxTimelineValue = max 0 (foldl max v vs) \<rparr>"
    using phase_submit [OF s1(2)] by (auto simp: sync_info.defs)
  have "slot_exec (QEnqueueSubmit [si]) sl = Inr (sl\<lparr> sl_state := s1 \<rparr>)" by (rule slot_exec_quiet [OF s1(1)]) simp
  moreover have "slot_exec QSubmit (sl\<lparr> sl_state := s1 \<rparr>) = Inr \<lparr> sl_state = s2,
      sl_sync = host_sync_or (sl_sync sl) \<lparr> fences = 1, maxTimelineValue = max 0 (foldl max v vs) \<rparr> \<rparr>"
    using s2(1,4) by (simp add: slot_exec_def del: qexec.simps)
  ultimately show ?thesis using s1(3) s2 by (intro exI [of _ s2] exI [of _ h]) (simp del: qexec.simps)
qed

lemma one_batch_rest:
  assumes "slot_rest levels sl" "signalSemaphoreValues si = [v]"
  shows "\<exists>sl'. one_batch si sl = Inr sl' \<and> slot_rest levels sl'
    \<and> sl_sync sl' = host_sync_or (sl_sync sl) \<lparr> fences = 1, maxTimelineValue = max 0 v \<rparr> \<and> last_batch si sl'"
proof -
  have rest: "queue_rest levels (sl_state sl)" using assms(1) by (simp add: slot_rest_def)
  obtain s1 p where s1: "qexec (QCommands (scope_desc_default True)) (sl_state sl) = Inr s1" "queue_recording levels {} p s1"
    using phase_begin [OF rest] by blast
  obtain s2 where s2: "qexec (QEnd 0) s1 = Inr s2" "queue_ended levels p s2" using phase_end [OF s1(2)] by blast
  let ?sl = "sl\<lparr> sl_state := s2 \<rparr>"
  obtain s3 h where s3: "fold_res slot_exec [QEnqueueSubmit [si], QSubmit] ?sl = Inr \<lparr> sl_state = s3,
      sl_sync = host_sync_or (sl_sync sl) \<lparr> fences = 1, maxTimelineValue = max 0 v \<rparr> \<rparr>" "queue_enqueued levels p [] s3"
    "calls (qs_ctx s3) = calls (qs_ctx s2) @ [VkQueueSubmit [sync_info.extend si \<lparr> commandBuffers = [h], timelineValue = v \<rparr>]]"
    using submit_batch [of levels p ?sl si v "[]"] s2(2) assms(2) by auto
  obtain s4 where s4: "qexec (QDrop 0) s3 = Inr s4" "queue_rest levels s4" "calls (qs_ctx s4) = calls (qs_ctx s3)"
    using phase_drop [OF s3(2)] by blast
  have a: "fold_res slot_exec [QCommands (scope_desc_default True), QEnd 0] sl = Inr ?sl"
    by (rule slot_run_quiet) (use s1(1) s2(1) in \<open>simp_all del: qexec.simps\<close>)
  let ?sl' = "\<lparr> sl_state = s4, sl_sync = host_sync_or (sl_sync sl) \<lparr> fences = 1, maxTimelineValue = max 0 v \<rparr> \<rparr>"
  have d: "slot_exec (QDrop 0) \<lparr> sl_state = s3, sl_sync = host_sync_or (sl_sync sl) \<lparr> fences = 1, maxTimelineValue = max 0 v \<rparr> \<rparr> = Inr ?sl'"
    using slot_exec_quiet [of "QDrop 0" "\<lparr> sl_state = s3, sl_sync = host_sync_or (sl_sync sl) \<lparr> fences = 1, maxTimelineValue = max 0 v \<rparr> \<rparr>" s4] s4(1)
    by (simp del: qexec.simps)
  have "one_batch si = fold_res slot_exec ([QCommands (scope_desc_default True), QEnd 0] @ [QEnqueueSubmit [si], QSubmit] @ [QDrop 0])"
    by (simp add: one_batch_def fun_eq_iff)
  then have "one_batch si sl = Inr ?sl'" using a s3(1) d by (simp only: fold_res_append bind_res.simps fold_res.simps)
  moreover have "last_batch si ?sl'" using s3(3) s4(3) by (auto simp: last_batch_def submits_def sync_info.defs)
  ultimately show ?thesis using s4(2) by (simp add: slot_rest_def host_sync_or_def)
qed

section \<open>The views\<close>

lemma record_threads:
  assumes "queue_recording levels {} p s" "distinct ts" "\<forall>t \<in> set ts. t + 1 < levels"
  shows "\<exists>s'. fold_res qexec (concat (map (\<lambda>t. [QCommands (thread_desc E t), QEnd 1, QDrop 1]) ts)) s = Inr s'
    \<and> queue_recording levels (Suc ` set ts) p s'"
  using assms(2,3)
proof (induction ts rule: rev_induct)
  case Nil
  then show ?case using assms(1) by simp
next
  case (snoc t ts)
  obtain s1 where s1: "fold_res qexec (concat (map (\<lambda>t. [QCommands (thread_desc E t), QEnd 1, QDrop 1]) ts)) s = Inr s1"
    "queue_recording levels (Suc ` set ts) p s1" using snoc.IH snoc.prems by auto
  have d: "sd_level (thread_desc E t) = Suc t" "sd_scopedBeginEnd (thread_desc E t)" by (simp_all add: thread_desc_def)
  have "Suc t \<notin> Suc ` set ts" using snoc.prems(1) by auto
  then obtain s2 where "fold_res qexec [QCommands (thread_desc E t), QEnd 1, QDrop 1] s1 = Inr s2"
    "queue_recording levels (insert (Suc t) (Suc ` set ts)) p s2"
    using phase_thread [OF s1(2) d(1) _ _ _ d(2)] snoc.prems(2) by auto
  then show ?case using s1(1) by (simp add: fold_res_append del: qexec.simps)
qed

lemma execute_levels:
  assumes "queue_recording levels L p s" "set ls \<subseteq> {0<..<levels}" "L \<subseteq> set ls"
  shows "\<exists>s'. fold_res qexec (map (\<lambda>l. QExecute l t) ls) s = Inr s' \<and> queue_recording levels {} p s'"
  using assms
proof (induction ls arbitrary: L s)
  case (Cons l ls)
  obtain s1 where s1: "qexec (QExecute l t) s = Inr s1" "queue_recording levels (L - {l}) p s1"
    using phase_execute [OF Cons.prems(1), of l t] Cons.prems(2) by auto
  moreover have "L - {l} \<subseteq> set ls" using Cons.prems(3) by auto
  ultimately show ?case using Cons.IH [OF s1(2)] Cons.prems(2) by (simp del: qexec.simps)
qed simp

definition frame_env_ok :: "nat \<Rightarrow> frame_env \<Rightarrow> bool" where
  "frame_env_ok levels E \<longleftrightarrow> fr_threads E < levels \<and> distinct (fr_busy E) \<and> list_all (\<lambda>t. t < fr_threads E) (fr_busy E)"

lemma record_frame_ended:
  assumes "slot_rest levels sl" "frame_env_ok levels E"
  shows "\<exists>s' p. record_frame E timeline sl = Inr (sl\<lparr> sl_state := s' \<rparr>) \<and> queue_ended levels p s'"
proof -
  let ?th = "concat (map (\<lambda>t. [QCommands (thread_desc E t), QEnd 1, QDrop 1]) (fr_busy E))" and ?ls = "[1..<fr_threads E + 1]"
  have rest: "queue_rest levels (sl_state sl)" using assms(1) by (simp add: slot_rest_def)
  obtain s1 p where s1: "qexec (QCommands (scope_desc_default True)) (sl_state sl) = Inr s1" "queue_recording levels {} p s1"
    using phase_begin [OF rest] by blast
  have busy: "distinct (fr_busy E)" "\<forall>t \<in> set (fr_busy E). t + 1 < levels"
    using assms(2) by (auto simp: frame_env_ok_def list_all_iff)
  obtain s2 where s2: "fold_res qexec ?th s1 = Inr s2" "queue_recording levels (Suc ` set (fr_busy E)) p s2"
    using record_threads [OF s1(2) busy] by blast
  have "Suc ` set (fr_busy E) \<subseteq> set ?ls" "set ?ls \<subseteq> {0<..<levels}" using assms(2) by (auto simp: frame_env_ok_def list_all_iff)
  then obtain s3 where s3: "fold_res qexec (map (\<lambda>level. QExecute level timeline) ?ls) s2 = Inr s3" "queue_recording levels {} p s3"
    using execute_levels [OF s2(2)] by blast
  obtain s4 where s4: "qexec (QEnd 0) s3 = Inr s4" "queue_ended levels p s4" using phase_end [OF s3(2)] by blast
  have "record_frame E timeline sl = Inr (sl\<lparr> sl_state := s4 \<rparr>)"
    unfolding record_frame_def
  proof (rule slot_run_quiet)
    show "fold_res qexec ([QCommands (scope_desc_default True)] @ ?th @ map (\<lambda>level. QExecute level timeline) ?ls @ [QEnd 0]) (sl_state sl) = Inr s4"
      using s1(1) s2(1) s3(1) s4(1) by (simp only: fold_res_append bind_res.simps fold_res.simps)
    show "list_all quiet_op ([QCommands (scope_desc_default True)] @ ?th @ map (\<lambda>level. QExecute level timeline) ?ls @ [QEnd 0])"
      by (auto simp: list_all_iff)
  qed
  then show ?thesis using s4(2) by blast
qed

section \<open>Presenting\<close>

lemma slot_run_syncs:
  "fold_res qexec ops (sl_state sl) = Inr s \<Longrightarrow> QSubmit \<notin> set ops \<Longrightarrow> \<exists>h. fold_res slot_exec ops sl = Inr \<lparr> sl_state = s, sl_sync = h \<rparr>
     \<and> maxTimelineValue h = maxTimelineValue (sl_sync sl) \<and> fences (sl_sync sl) \<le> fences h"
proof (induction ops arbitrary: sl)
  case (Cons op ops)
  then obtain s1 where s1: "qexec op (sl_state sl) = Inr s1" "fold_res qexec ops s1 = Inr s" by (auto simp: bind_res_Inr)
  have "maxTimelineValue (sync_of op (sl_state sl)) = 0" using Cons.prems(2)
    by (cases op) (auto simp: no_sync_def Present_def Let_def split: sum.splits if_splits)
  moreover have "slot_exec op sl = Inr \<lparr> sl_state = s1, sl_sync = host_sync_or (sl_sync sl) (sync_of op (sl_state sl)) \<rparr>" (is "_ = Inr ?sl")
    using s1(1) by (simp add: slot_exec_def)
  ultimately show ?case using Cons.IH [of ?sl] s1(2) Cons.prems(2) by (auto simp: host_sync_or_def)
next
  case Nil
  then show ?case by (intro exI [of _ "sl_sync sl"]) simp
qed

lemma present_slot:
  assumes "\<exists>st. q_inv (qs_queue (sl_state sl)) (qs_ctx (sl_state sl)) st" "queue_calm levels (qs_queue (sl_state sl))"
  shows "\<exists>sl' t. fold_res slot_exec (present_ops E) sl = Inr sl' \<and> (\<exists>st. q_inv (qs_queue (sl_state sl')) (qs_ctx (sl_state sl')) st)
    \<and> qs_queue (sl_state sl') = qs_queue (sl_state sl) \<and> qs_held (sl_state sl') = qs_held (sl_state sl)
    \<and> qs_ctx (sl_state sl') = emit (VkQueuePresent t) (qs_ctx (sl_state sl))
    \<and> maxTimelineValue (sl_sync sl') = maxTimelineValue (sl_sync sl) \<and> fences (sl_sync sl) \<le> fences (sl_sync sl')"
proof -
  have pr: "swapchains (frame_present E) = [fr_swapchain E]" "fr_presentIds E \<longrightarrow> length (presentIds (frame_present E)) = 1"
    by (simp_all add: frame_present_def)
  obtain s' t where p: "fold_res qexec (present_ops E) (sl_state sl) = Inr s'" "\<exists>st. q_inv (qs_queue s') (qs_ctx s') st"
    "qs_queue s' = qs_queue (sl_state sl)" "qs_held s' = qs_held (sl_state sl)" "qs_ctx s' = emit (VkQueuePresent t) (qs_ctx (sl_state sl))"
    using phase_present [OF assms pr] unfolding present_ops_def by blast
  have "QSubmit \<notin> set (present_ops E)" by (simp add: present_ops_def)
  from slot_run_syncs [OF p(1) this] obtain h where "fold_res slot_exec (present_ops E) sl = Inr \<lparr> sl_state = s', sl_sync = h \<rparr>"
    "maxTimelineValue h = maxTimelineValue (sl_sync sl)" "fences (sl_sync sl) \<le> fences h" by blast
  then show ?thesis using p(2-5) by (intro exI [of _ "\<lparr> sl_state = s', sl_sync = h \<rparr>"] exI [of _ t]) simp
qed

definition slots_ok :: "nat \<Rightarrow> slot circular \<Rightarrow> bool" where
  "slots_ok levels c \<longleftrightarrow> cc_head c < length (cc_items c) \<and> length (cc_items c) < 2 ^ 64 \<and> list_all (slot_rest levels) (cc_items c)"

lemma FetchAdd_slots:
  assumes "slots_ok levels c"
  shows "FetchAdd 1 c = Inr (cc_head c, c\<lparr> cc_head := Suc (cc_head c) mod length (cc_items c) \<rparr>)"
    "Suc (cc_head c) mod length (cc_items c) < length (cc_items c)"
  using assms FetchAdd_ok [of c] by (auto simp: slots_ok_def intro: mod_less_divisor)

lemma slots_ok_update: "slots_ok levels c \<Longrightarrow> slot_rest levels sl \<Longrightarrow> k < length (cc_items c) \<Longrightarrow>
    slots_ok levels (c\<lparr> cc_head := k, cc_items := (cc_items c)[i := sl] \<rparr>)"
  unfolding slots_ok_def list_all_iff using set_update_subset_insert [of "cc_items c" i sl] by auto

lemma present_frame_ok:
  assumes en: "queue_enqueued levels p [] (sl_state sl)" and c: "case compute of None \<Rightarrow> True | Some c \<Rightarrow> slots_ok 1 c"
  shows "\<exists>sl' compute' t. present_frame E (sl, compute) = Inr (sl', compute') \<and> queue_enqueued levels p [] (sl_state sl')
    \<and> (case compute' of None \<Rightarrow> True | Some c \<Rightarrow> slots_ok 1 c)
    \<and> maxTimelineValue (sl_sync sl') = maxTimelineValue (sl_sync sl) \<and> fences (sl_sync sl) \<le> fences (sl_sync sl')
    \<and> (calls (qs_ctx (sl_state sl')) = calls (qs_ctx (sl_state sl)) \<or> calls (qs_ctx (sl_state sl')) = calls (qs_ctx (sl_state sl)) @ [VkQueuePresent t])"
proof (cases compute)
  case None
  have "\<exists>st. q_inv (qs_queue (sl_state sl)) (qs_ctx (sl_state sl)) st" "queue_calm levels (qs_queue (sl_state sl))"
    using en by (simp_all add: queue_enqueued_def)
  from present_slot [OF this, of E] obtain sl' t where p: "fold_res slot_exec (present_ops E) sl = Inr sl'"
    "\<exists>st. q_inv (qs_queue (sl_state sl')) (qs_ctx (sl_state sl')) st" "qs_queue (sl_state sl') = qs_queue (sl_state sl)"
    "qs_held (sl_state sl') = qs_held (sl_state sl)" "qs_ctx (sl_state sl') = emit (VkQueuePresent t) (qs_ctx (sl_state sl))"
    "maxTimelineValue (sl_sync sl') = maxTimelineValue (sl_sync sl)" "fences (sl_sync sl) \<le> fences (sl_sync sl')" by blast
  have "queue_enqueued levels p [] (sl_state sl')" using en p(2-5) by (simp add: queue_enqueued_def emit_def)
  then show ?thesis using None p by (intro exI [of _ sl'] exI [of _ None] exI [of _ t]) (simp add: present_frame_def emit_def)
next
  case (Some c)
  have ok: "slots_ok 1 c" using Some assms(2) by simp
  let ?k = "Suc (cc_head c) mod length (cc_items c)"
  note F = FetchAdd_slots [OF ok]
  have i: "cc_head c < length (cc_items c)" using ok by (simp add: slots_ok_def)
  have "slot_rest 1 (cc_items c ! cc_head c)" using ok i by (simp add: slots_ok_def list_all_length)
  from recycle_rest [OF this] obtain p1 where p1: "recycle (cc_items c ! cc_head c) = Inr p1" "slot_rest 1 p1" "sl_sync p1 = no_sync" by blast
  have "\<exists>st. q_inv (qs_queue (sl_state p1)) (qs_ctx (sl_state p1)) st" "queue_calm 1 (qs_queue (sl_state p1))"
    using p1(2) by (simp_all add: slot_rest_def queue_rest_def)
  from present_slot [OF this, of E] obtain p2 t where p2: "fold_res slot_exec (present_ops E) p1 = Inr p2"
    "\<exists>st. q_inv (qs_queue (sl_state p2)) (qs_ctx (sl_state p2)) st" "qs_queue (sl_state p2) = qs_queue (sl_state p1)"
    "qs_held (sl_state p2) = qs_held (sl_state p1)" "qs_ctx (sl_state p2) = emit (VkQueuePresent t) (qs_ctx (sl_state p1))" by blast
  have "slot_rest 1 p2" using p1(2,3) p2(2-5) by (simp add: slot_rest_def queue_rest_def no_sync_def emit_def in_flight_snoc)
  from slots_ok_update [OF ok this F(2)] have "slots_ok 1 (c\<lparr> cc_head := ?k, cc_items := (cc_items c)[cc_head c := p2] \<rparr>)" .
  then show ?thesis using Some F(1) i p1(1) p2(1) en
    by (intro exI [of _ sl] exI [of _ "Some (c\<lparr> cc_head := ?k, cc_items := (cc_items c)[cc_head c := p2] \<rparr>)"]) (simp add: present_frame_def)
qed

section \<open>Every run of the frame loop\<close>

definition draw_ok :: "draw_state \<Rightarrow> bool" where
  "draw_ok s \<longleftrightarrow> slots_ok 15 (ds_graphics s) \<and> (case ds_compute s of None \<Rightarrow> True | Some c \<Rightarrow> slots_ok 1 c)
     \<and> maxTimelineValue (sl_sync (cc_items (ds_graphics s) ! cc_head (ds_graphics s))) = ds_timeline s"

lemma u64_next:
  assumes "unat (v :: u64) + k < 2 ^ 64" "0 < k"
  shows "max v (v + 1) = v + 1" "max (v + 1) 1 = v + 1" "unat (v + 1) = unat v + 1"
proof -
  show u: "unat (v + 1) = unat v + 1" using assms by (simp add: unat_word_ariths)
  then show "max v (v + 1) = v + 1" by (simp add: max_def word_le_nat_alt)
  show "max (v + 1) 1 = v + 1" using u by (simp add: max_def word_le_nat_alt unat_eq_0)
qed

lemma u64_add:
  assumes "unat (v :: u64) + k < 2 ^ 64"
  shows "unat (v + of_nat k) = unat v + k"
proof -
  have "unat (of_nat k :: u64) = k" using assms by (simp only: unat_of_nat) simp
  then show ?thesis using assms by (simp add: unat_word_ariths)
qed

lemma run_transitions_ok:
  assumes "slot_rest levels sl" "maxTimelineValue (sl_sync sl) \<le> v" "unat v + length trs < 2 ^ 64"
  shows "\<exists>sl'. fold_res (run_transition semaphore) trs (v, sl) = Inr (v + of_nat (length trs), sl') \<and> slot_rest levels sl'
    \<and> maxTimelineValue (sl_sync sl') \<le> v + of_nat (length trs)"
  using assms
proof (induction trs arbitrary: v sl)
  case (Cons tr trs)
  have u: "max v (v + 1) = v + 1" "unat (v + 1) = unat v + 1" using u64_next [of v "length (tr # trs)"] Cons.prems(3) by simp_all
  obtain sl1 where sl1: "one_batch (transition_sync semaphore tr (v + 1)) sl = Inr sl1" "slot_rest levels sl1"
    "sl_sync sl1 = host_sync_or (sl_sync sl) \<lparr> fences = 1, maxTimelineValue = max 0 (v + 1) \<rparr>"
    using one_batch_rest [OF Cons.prems(1), of "transition_sync semaphore tr (v + 1)" "v + 1"] by (auto simp: transition_sync_def)
  have "v \<le> v + 1" using u(1) by (metis max.cobounded1)
  then have "maxTimelineValue (sl_sync sl) \<le> v + 1" using Cons.prems(2) by (rule order_trans [rotated])
  then have "maxTimelineValue (sl_sync sl1) \<le> v + 1" by (simp add: sl1(3) host_sync_or_def)
  moreover have "unat (v + 1) + length trs < 2 ^ 64" using Cons.prems(3) u(2) by simp
  ultimately obtain sl2 where "fold_res (run_transition semaphore) trs (v + 1, sl1) = Inr (v + 1 + of_nat (length trs), sl2)"
    "slot_rest levels sl2" "maxTimelineValue (sl_sync sl2) \<le> v + 1 + of_nat (length trs)" using Cons.IH [OF sl1(2)] by blast
  moreover have "run_transition semaphore tr (v, sl) = Inr (v + 1, sl1)" using sl1(1) by (simp add: run_transition_def)
  moreover have "v + of_nat (length (tr # trs)) = v + 1 + of_nat (length trs)" by simp
  ultimately show ?case by (simp only: fold_res.simps bind_res.simps) blast
qed simp

definition frame_submitted :: "u64 \<Rightarrow> u64 \<Rightarrow> nat \<Rightarrow> submit_info \<Rightarrow> bool" where
  "frame_submitted before after k b \<longleftrightarrow> signalSemaphoreValues b = [after, 1] \<and> length (commandBuffers b) = 1
     \<and> timelineValue b = after \<and> (1 < k \<longrightarrow> waitSemaphoreValues b = [before, 1])"

lemma Draw_ok:
  assumes s: "draw_ok s" and E: "frame_env_ok 15 E" "fr_flipped E" and v: "unat (ds_timeline s) + length (fr_transitions E) + 1 < 2 ^ 64"
  shows "\<exists>s' b. Draw E s = Inr s' \<and> draw_ok s' \<and> length (cc_items (ds_graphics s')) = length (cc_items (ds_graphics s))
    \<and> ds_timeline s' = ds_timeline s + of_nat (length (fr_transitions E) + 1)
    \<and> (\<exists>bs. submits (calls (qs_ctx (sl_state (cc_items (ds_graphics s') ! cc_head (ds_graphics s'))))) = bs @ [b])
    \<and> frame_submitted (ds_timeline s) (ds_timeline s') (length (cc_items (ds_graphics s))) b"
proof -
  let ?g = "ds_graphics s" and ?n = "length (cc_items (ds_graphics s))" and ?tl = "ds_timeline s + of_nat (length (fr_transitions E))"
  let ?k = "Suc (cc_head ?g) mod ?n"
  let ?g1 = "?g\<lparr> cc_head := ?k \<rparr>"
  have ok: "slots_ok 15 ?g" and comp: "case ds_compute s of None \<Rightarrow> True | Some c \<Rightarrow> slots_ok 1 c"
    and last: "maxTimelineValue (sl_sync (cc_items ?g ! cc_head ?g)) = ds_timeline s" using s by (simp_all add: draw_ok_def)
  note F = FetchAdd_slots [OF ok]
  have h: "cc_head ?g < ?n" using ok by (simp add: slots_ok_def)
  have "slot_rest 15 (cc_items ?g ! ?k)" using ok F(2) by (simp add: slots_ok_def list_all_length)
  from recycle_rest [OF this] obtain sl1 where sl1: "recycle (cc_items ?g ! ?k) = Inr sl1" "slot_rest 15 sl1" "sl_sync sl1 = no_sync" by blast
  obtain sl2 where sl2: "fold_res (run_transition (fr_semaphore E)) (fr_transitions E) (ds_timeline s, sl1) = Inr (?tl, sl2)"
    "slot_rest 15 sl2" "maxTimelineValue (sl_sync sl2) \<le> ?tl"
    using run_transitions_ok [OF sl1(2), of "ds_timeline s" "fr_transitions E" "fr_semaphore E"] v by (auto simp: sl1(3) no_sync_def)
  obtain s3 p where s3: "record_frame E ?tl sl2 = Inr (sl2\<lparr> sl_state := s3 \<rparr>)" "queue_ended 15 p s3"
    using record_frame_ended [OF sl2(2) E(1)] by blast
  let ?sl3 = "sl2\<lparr> sl_state := s3 \<rparr>"
  define lastSlot where "lastSlot = (cc_items ?g)[?k := ?sl3] ! cc_head ?g"
  let ?si = "frame_sync E (maxTimelineValue (sl_sync lastSlot)) (?tl + 1)"
  have ut: "unat ?tl + 1 < 2 ^ 64" using u64_add [of "ds_timeline s" "length (fr_transitions E)"] v by simp
  note u = u64_next [OF ut zero_less_one]
  have si: "signalSemaphoreValues ?si = (?tl + 1) # [1]" by (simp add: frame_sync_def)
  have m: "foldl max (?tl + 1) [1] = ?tl + 1" using u(2) by simp
  obtain s4 hd where s4: "fold_res slot_exec [QEnqueueSubmit [?si], QSubmit] ?sl3 = Inr \<lparr> sl_state = s4,
      sl_sync = host_sync_or (sl_sync sl2) \<lparr> fences = 1, maxTimelineValue = max 0 (?tl + 1) \<rparr> \<rparr>" (is "_ = Inr ?sl4")
    "queue_enqueued 15 p [] s4"
    "calls (qs_ctx s4) = calls (qs_ctx s3) @ [VkQueueSubmit [sync_info.extend ?si \<lparr> commandBuffers = [hd], timelineValue = ?tl + 1 \<rparr>]]"
    using submit_batch [of 15 p ?sl3 ?si "?tl + 1" "[1]", unfolded m] s3(2) si by auto
  let ?b = "sync_info.extend ?si \<lparr> commandBuffers = [hd], timelineValue = ?tl + 1 \<rparr>"
  obtain sl5 compute t where sl5: "present_frame E (?sl4, ds_compute s) = Inr (sl5, compute)" "queue_enqueued 15 p [] (sl_state sl5)"
    "case compute of None \<Rightarrow> True | Some c \<Rightarrow> slots_ok 1 c" "maxTimelineValue (sl_sync sl5) = maxTimelineValue (sl_sync ?sl4)"
    "fences (sl_sync ?sl4) \<le> fences (sl_sync sl5)"
    "calls (qs_ctx (sl_state sl5)) = calls (qs_ctx (sl_state ?sl4)) \<or> calls (qs_ctx (sl_state sl5)) = calls (qs_ctx (sl_state ?sl4)) @ [VkQueuePresent t]"
    using present_frame_ok [of 15 p ?sl4 "ds_compute s" E] s4(2) comp by auto
  obtain s6 where s6: "qexec (QDrop 0) (sl_state sl5) = Inr s6" "queue_rest 15 s6" "calls (qs_ctx s6) = calls (qs_ctx (sl_state sl5))"
    using phase_drop [OF sl5(2)] by blast
  let ?sl6 = "sl5\<lparr> sl_state := s6 \<rparr>"
  let ?g2 = "?g1\<lparr> cc_items := (cc_items ?g)[?k := ?sl6] \<rparr>"
  let ?s' = "s\<lparr> ds_graphics := ?g2, ds_compute := compute, ds_timeline := ?tl + 1 \<rparr>"
  have run: "Draw E s = Inr ?s'"
    using E(2) F h sl1(1) sl2(1) s3(1) s4(1) sl5(1) slot_exec_quiet [OF s6(1)]
    by (simp add: Draw_def circular_Get_def lastSlot_def del: fold_res.simps qexec.simps)
  have rest: "slot_rest 15 ?sl6" using s6(2) sl5(5) by (simp add: slot_rest_def host_sync_or_def)
  have max: "maxTimelineValue (sl_sync ?sl6) = ?tl + 1"
  proof -
    have "?tl \<le> ?tl + 1" using u(1) by (metis max.cobounded1)
    then have "maxTimelineValue (sl_sync sl2) \<le> ?tl + 1" using sl2(3) by (rule order_trans [rotated])
    then show ?thesis using sl5(4) by (simp add: host_sync_or_def max_absorb2)
  qed
  have "draw_ok ?s'" using slots_ok_update [OF ok rest F(2)] sl5(3) max F(2) by (simp add: draw_ok_def)
  moreover have "\<exists>bs. submits (calls (qs_ctx (sl_state (cc_items (ds_graphics ?s') ! cc_head (ds_graphics ?s'))))) = bs @ [?b]"
    using F(2) s6(3) sl5(6) s4(3) by (auto simp: submits_def)
  moreover have "frame_submitted (ds_timeline s) (ds_timeline ?s') ?n ?b"
  proof -
    have "cc_head ?g \<noteq> ?k" if "1 < ?n"
      using h that by (cases "Suc (cc_head ?g) = ?n") simp_all
    then have "maxTimelineValue (sl_sync lastSlot) = ds_timeline s" if "1 < ?n" using that last by (simp add: lastSlot_def)
    then show ?thesis by (simp add: frame_submitted_def frame_sync_def sync_info.defs)
  qed
  ultimately show ?thesis using run by (intro exI [of _ ?s'] exI [of _ ?b]) (simp add: ac_simps)
qed

lemma ConstructWindowDependentObjects_ok:
  assumes s: "draw_ok s" and v: "unat (ds_timeline s) + 1 < 2 ^ 64"
  shows "\<exists>s'. ConstructWindowDependentObjects semaphore s = Inr s' \<and> draw_ok s'
    \<and> length (cc_items (ds_graphics s')) = length (cc_items (ds_graphics s)) \<and> ds_timeline s' = ds_timeline s + 1"
proof -
  let ?g = "ds_graphics s" and ?v = "ds_timeline s"
  have ok: "slots_ok 15 ?g" and last: "maxTimelineValue (sl_sync (cc_items ?g ! cc_head ?g)) = ?v" using s by (simp_all add: draw_ok_def)
  have h: "cc_head ?g < length (cc_items ?g)" using ok by (simp add: slots_ok_def)
  have "slot_rest 15 (cc_items ?g ! cc_head ?g)" using ok h by (simp add: slots_ok_def list_all_length)
  then obtain sl where sl: "one_batch (window_sync semaphore (?v + 1)) (cc_items ?g ! cc_head ?g) = Inr sl" "slot_rest 15 sl"
    "sl_sync sl = host_sync_or (sl_sync (cc_items ?g ! cc_head ?g)) \<lparr> fences = 1, maxTimelineValue = max 0 (?v + 1) \<rparr>"
    using one_batch_rest [of 15 _ "window_sync semaphore (?v + 1)" "?v + 1"] by (auto simp: window_sync_def)
  let ?s = "s\<lparr> ds_graphics := ?g\<lparr> cc_items := (cc_items ?g)[cc_head ?g := sl] \<rparr>, ds_timeline := ?v + 1 \<rparr>"
  have "ConstructWindowDependentObjects semaphore s = Inr ?s"
    using h sl(1) by (simp add: ConstructWindowDependentObjects_def circular_Get_def Let_def)
  moreover have "maxTimelineValue (sl_sync sl) = ?v + 1" using u64_next(1) [OF v] last by (simp add: sl(3) host_sync_or_def)
  then have "draw_ok ?s" using s slots_ok_update [OF ok sl(2) h, of "cc_head ?g"] h by (simp add: draw_ok_def)
  ultimately show ?thesis by simp
qed

lemma submit_callbacks_ok:
  assumes s: "draw_ok s" and i: "i < length (cc_items (ds_graphics s))"
  shows "\<exists>s'. submit_callbacks i v s = Inr s' \<and> draw_ok s'
    \<and> length (cc_items (ds_graphics s')) = length (cc_items (ds_graphics s)) \<and> ds_timeline s' = ds_timeline s"
proof -
  let ?g = "ds_graphics s" and ?sl = "cc_items (ds_graphics s) ! i"
  obtain ready waiting where d: "dequeue_callbacks v (timelineCallbacks (qs_queue (sl_state ?sl))) = (ready, waiting)" by fastforce
  let ?q = "(qs_queue (sl_state ?sl))\<lparr> timelineCallbacks := waiting \<rparr>"
  let ?sl' = "?sl\<lparr> sl_state := (sl_state ?sl)\<lparr> qs_queue := ?q \<rparr> \<rparr>"
  have ok: "slots_ok 15 ?g" using s by (simp add: draw_ok_def)
  have r: "slot_rest 15 ?sl" using ok i by (simp add: slots_ok_def list_all_length)
  have "\<exists>st. q_inv ?q (qs_ctx (sl_state ?sl)) st"
  proof -
    obtain st where "q_inv (qs_queue (sl_state ?sl)) (qs_ctx (sl_state ?sl)) st" using r by (auto simp: slot_rest_def queue_rest_def)
    then have "q_inv ?q (qs_ctx (sl_state ?sl)) st" by (rule q_inv_queue) (simp_all add: pool_of_def queued_def)
    then show ?thesis by blast
  qed
  then have "slot_rest 15 ?sl'" using r by (simp add: slot_rest_def queue_rest_def queue_calm_def)
  then have "slots_ok 15 (?g\<lparr> cc_items := (cc_items ?g)[i := ?sl'] \<rparr>)"
    using slots_ok_update [OF ok, of ?sl' "cc_head ?g" i] ok by (simp add: slots_ok_def)
  moreover have "sl_sync ((cc_items ?g)[i := ?sl'] ! cc_head ?g) = sl_sync (cc_items ?g ! cc_head ?g)"
    using i by (cases "i = cc_head ?g") simp_all
  ultimately have "draw_ok (s\<lparr> ds_graphics := ?g\<lparr> cc_items := (cc_items ?g)[i := ?sl'] \<rparr>, ds_ready := ds_ready s @ ready \<rparr>)"
    using s by (simp add: draw_ok_def)
  then show ?thesis using i d by (simp add: submit_callbacks_def SubmitCallbacks_def Let_def)
qed

text \<open>How far an operation moves the timeline, and what it has to respect: no more threads than the pool has levels
  besides the primary one, each recording once.\<close>

fun frame_ticks :: "frame_op \<Rightarrow> nat" where
  "frame_ticks (FrameDraw E) = (if fr_flipped E then length (fr_transitions E) + 1 else 0)"
| "frame_ticks (FrameCallbacks i v) = 0"
| "frame_ticks (FrameWindow semaphore) = 1"

fun frame_op_ok :: "nat \<Rightarrow> frame_op \<Rightarrow> bool" where
  "frame_op_ok n (FrameDraw E) \<longleftrightarrow> frame_env_ok 15 E"
| "frame_op_ok n (FrameCallbacks i v) \<longleftrightarrow> i < n"
| "frame_op_ok n (FrameWindow semaphore) \<longleftrightarrow> True"

lemma frame_exec_ok:
  assumes "draw_ok s" "frame_op_ok (length (cc_items (ds_graphics s))) op" "unat (ds_timeline s) + frame_ticks op < 2 ^ 64"
  shows "\<exists>s'. frame_exec op s = Inr s' \<and> draw_ok s' \<and> length (cc_items (ds_graphics s')) = length (cc_items (ds_graphics s))
    \<and> ds_timeline s' = ds_timeline s + of_nat (frame_ticks op)"
proof (cases op)
  case (FrameDraw E)
  show ?thesis
  proof (cases "fr_flipped E")
    case True
    have v: "unat (ds_timeline s) + length (fr_transitions E) + 1 < 2 ^ 64" using assms(3) FrameDraw True by simp
    have E: "frame_env_ok 15 E" using assms(2) FrameDraw by simp
    from Draw_ok [OF assms(1) E True v] show ?thesis using FrameDraw True by auto
  next
    case False
    then show ?thesis using assms(1) FrameDraw by (simp add: Draw_def)
  qed
next
  case (FrameCallbacks i v)
  then show ?thesis using submit_callbacks_ok [OF assms(1)] assms(2) by simp
next
  case (FrameWindow semaphore)
  then show ?thesis using ConstructWindowDependentObjects_ok [OF assms(1)] assms(3) by simp
qed

lemma frame_run_ok:
  assumes "draw_ok s" "list_all (frame_op_ok (length (cc_items (ds_graphics s)))) ops" "unat (ds_timeline s) + sum_list (map frame_ticks ops) < 2 ^ 64"
  shows "\<exists>s'. fold_res frame_exec ops s = Inr s' \<and> draw_ok s' \<and> length (cc_items (ds_graphics s')) = length (cc_items (ds_graphics s))
    \<and> ds_timeline s' = ds_timeline s + of_nat (sum_list (map frame_ticks ops))"
  using assms
proof (induction ops arbitrary: s)
  case (Cons op ops)
  obtain s1 where s1: "frame_exec op s = Inr s1" "draw_ok s1" "length (cc_items (ds_graphics s1)) = length (cc_items (ds_graphics s))"
    "ds_timeline s1 = ds_timeline s + of_nat (frame_ticks op)"
    using frame_exec_ok [OF Cons.prems(1), of op] Cons.prems(2,3) by auto
  have "unat (ds_timeline s1) = unat (ds_timeline s) + frame_ticks op" unfolding s1(4) by (rule u64_add) (use Cons.prems(3) in simp)
  then obtain s2 where "fold_res frame_exec ops s1 = Inr s2" "draw_ok s2" "length (cc_items (ds_graphics s2)) = length (cc_items (ds_graphics s1))"
    "ds_timeline s2 = ds_timeline s1 + of_nat (sum_list (map frame_ticks ops))" using Cons.IH [OF s1(2)] Cons.prems(2,3) s1(3) by auto
  then show ?case using s1 by (intro exI [of _ s2]) (simp add: ac_simps)
qed simp

lemma q_init_rest:
  assumes "flags AND VK_COMMAND_POOL_CREATE_RESET_COMMAND_BUFFER_BIT \<noteq> 0" "0 < levels"
  shows "slot_rest levels (new_slot flags levels)"
proof -
  have "queue_rest levels (q_init flags levels)" unfolding queue_rest_def
  proof (intro conjI)
    show "\<exists>st. q_inv (qs_queue (q_init flags levels)) (qs_ctx (q_init flags levels)) st" by (rule q_init_inv [OF assms(1)])
  qed (use assms(2) in \<open>simp_all add: queue_calm_def q_init_def Queue_create_def CommandPool_create_def\<close>)
  moreover have "in_flight (calls (qs_ctx (q_init flags levels))) [] = []"
    by (simp add: q_init_def Queue_create_def CommandPool_create_def vkctx0_def emit_def)
  ultimately show ?thesis by (simp add: slot_rest_def new_slot_def)
qed

lemma frame_start_ok:
  assumes "flags AND VK_COMMAND_POOL_CREATE_RESET_COMMAND_BUFFER_BIT \<noteq> 0" "0 < n" "n < 2 ^ 64" "m < 2 ^ 64"
  shows "draw_ok (frame_start flags n m)"
proof -
  have "slot_rest 15 (new_slot flags 15)" "slot_rest 1 (new_slot flags 1)" by (rule q_init_rest [OF assms(1)], simp)+
  then show ?thesis using assms(2-4)
    by (simp add: draw_ok_def frame_start_def slots_ok_def circular_of_def list_all_iff) (simp add: new_slot_def no_sync_def)
qed

section \<open>What the frame loop guarantees\<close>

definition all_slots :: "draw_state \<Rightarrow> slot list" where
  "all_slots s = cc_items (ds_graphics s) @ (case ds_compute s of None \<Rightarrow> [] | Some c \<Rightarrow> cc_items c)"

lemma slot_rest_lawful:
  assumes "slot_rest levels sl"
  shows "life_run (calls (qs_ctx (sl_state sl))) life0 \<noteq> None
    \<and> primary_begun (calls (qs_ctx (sl_state sl))) = handed_over (calls (qs_ctx (sl_state sl)))"
proof -
  obtain st where "q_inv (qs_queue (sl_state sl)) (qs_ctx (sl_state sl)) st" using assms by (auto simp: slot_rest_def queue_rest_def)
  moreover have "queued (qs_queue (sl_state sl)) = []" "recorded_in (qs_ctx (sl_state sl)) (cp_pending (pool0 (qs_queue (sl_state sl))) 0) = []"
    using assms by (simp_all add: slot_rest_def queue_rest_def queued_def recorded_in_def)
  ultimately show ?thesis by (simp add: q_inv_def order_ok_def)
qed

text \<open>C1: The frame loop never fails, however frames, image transitions, window changes and callback tasks follow each
  other, with any number of graphics queues and with or without compute queues of their own: no \<open>ENSURE\<close> of the
  queues, pools and arrays fires, on no queue does the driver see a command buffer misused or a pool reset while
  the device still has its work, between frames every primary buffer begun has been submitted once and in
  order, and the timeline has moved by one for each batch.\<close>
theorem frames_never_fail:
  assumes "flags AND VK_COMMAND_POOL_CREATE_RESET_COMMAND_BUFFER_BIT \<noteq> 0" and "0 < n" and "n < 2 ^ 64" and "m < 2 ^ 64"
    and "list_all (frame_op_ok n) ops" and "sum_list (map frame_ticks ops) < 2 ^ 64"
  shows "\<exists>s. fold_res frame_exec ops (frame_start flags n m) = Inr s \<and> ds_timeline s = of_nat (sum_list (map frame_ticks ops))
    \<and> (\<forall>sl \<in> set (all_slots s). life_run (calls (qs_ctx (sl_state sl))) life0 \<noteq> None
         \<and> primary_begun (calls (qs_ctx (sl_state sl))) = handed_over (calls (qs_ctx (sl_state sl))))"
proof -
  have start: "length (cc_items (ds_graphics (frame_start flags n m))) = n" "ds_timeline (frame_start flags n m) = 0"
    by (simp_all add: frame_start_def circular_of_def)
  from frame_run_ok [OF frame_start_ok [OF assms(1-4)], of ops, unfolded start] assms(5,6)
  obtain s where s: "fold_res frame_exec ops (frame_start flags n m) = Inr s" "draw_ok s"
    "ds_timeline s = of_nat (sum_list (map frame_ticks ops))" by auto
  have "\<exists>levels. slot_rest levels sl" if "sl \<in> set (all_slots s)" for sl
    using s(2) that by (auto simp: all_slots_def draw_ok_def slots_ok_def list_all_iff split: option.splits)
  then show ?thesis using s(1,3) slot_rest_lawful by blast
qed

definition ex_frame :: frame_env where
  "ex_frame = \<lparr> fr_flipped = True, fr_semaphore = 1, fr_transitions = [\<lparr> tr_semaphore = 2, tr_value = 5, tr_callbacks = [8] \<rparr>],
     fr_threads = 2, fr_busy = [0], fr_pass = no_inheritance, fr_acquired = 3, fr_finished = 4, fr_callbacks = [9, 10],
     fr_swapchain = 6, fr_image = 0, fr_presentId = 7, fr_presentFence = True, fr_presentIds = True \<rparr>"

definition ex_frame_ops :: "frame_op list" where
  "ex_frame_ops = [FrameWindow 1, FrameDraw ex_frame, FrameCallbacks 1 3, FrameDraw (ex_frame\<lparr> fr_transitions := [] \<rparr>), FrameDraw ex_frame]"

lemma ex_frame_ok: "list_all (frame_op_ok 2) ex_frame_ops" "sum_list (map frame_ticks ex_frame_ops) = 6"
  by (simp_all add: ex_frame_ops_def ex_frame_def frame_env_ok_def)

theorem frames_never_fail_witness:
  "\<exists>s. fold_res frame_exec ex_frame_ops (frame_start 2 2 1) = Inr s \<and> ds_timeline s = 6
    \<and> (\<forall>sl \<in> set (all_slots s). life_run (calls (qs_ctx (sl_state sl))) life0 \<noteq> None)"
  using frames_never_fail [of 2 2 1 ex_frame_ops] ex_frame_ok by (auto simp: VK_COMMAND_POOL_CREATE_RESET_COMMAND_BUFFER_BIT_def)

text \<open>C10: With at least two graphics queues each frame submits, last on its queue, one batch with one primary buffer that
  waits on the timeline for what was signalled by the frame before it and signals the value the timeline has
  after it; so the frames run on the device one after the other although they go to different queues.\<close>
theorem frame_waits_for_last:
  assumes "flags AND VK_COMMAND_POOL_CREATE_RESET_COMMAND_BUFFER_BIT \<noteq> 0" and "1 < n" and "n < 2 ^ 64" and "m < 2 ^ 64"
    and "list_all (frame_op_ok n) (ops @ [FrameDraw E])" and "sum_list (map frame_ticks (ops @ [FrameDraw E])) < 2 ^ 64"
    and "fold_res frame_exec ops (frame_start flags n m) = Inr s" and "fr_flipped E"
  shows "\<exists>s' b bs. Draw E s = Inr s'
    \<and> submits (calls (qs_ctx (sl_state (cc_items (ds_graphics s') ! cc_head (ds_graphics s'))))) = bs @ [b]
    \<and> length (commandBuffers b) = 1 \<and> waitSemaphoreValues b = [ds_timeline s, 1] \<and> signalSemaphoreValues b = [ds_timeline s', 1]"
proof -
  have start: "length (cc_items (ds_graphics (frame_start flags n m))) = n" "ds_timeline (frame_start flags n m) = 0"
    by (simp_all add: frame_start_def circular_of_def)
  have n: "0 < n" using assms(2) by simp
  let ?k = "sum_list (map frame_ticks ops)"
  have k: "?k + (length (fr_transitions E) + 1) < 2 ^ 64" using assms(6,8) by simp
  from frame_run_ok [OF frame_start_ok [OF assms(1) n assms(3,4)], of ops, unfolded start] assms(5,7) k
  have s: "draw_ok s" "ds_timeline s = of_nat ?k" "length (cc_items (ds_graphics s)) = n" by auto
  have "unat (ds_timeline s) = ?k" using u64_add [of 0 ?k] k s(2) by simp
  moreover have "frame_env_ok 15 E" using assms(5) by simp
  ultimately show ?thesis using Draw_ok [OF s(1) _ assms(8)] k assms(2) s(3) by (fastforce simp: frame_submitted_def)
qed

theorem frame_waits_for_last_witness:
  "\<exists>s s' b bs. fold_res frame_exec ex_frame_ops (frame_start 2 2 1) = Inr s \<and> Draw ex_frame s = Inr s'
    \<and> submits (calls (qs_ctx (sl_state (cc_items (ds_graphics s') ! cc_head (ds_graphics s'))))) = bs @ [b]
    \<and> waitSemaphoreValues b = [ds_timeline s, 1]"
proof -
  have f: "(2 :: u32) AND VK_COMMAND_POOL_CREATE_RESET_COMMAND_BUFFER_BIT \<noteq> 0"
    by (simp add: VK_COMMAND_POOL_CREATE_RESET_COMMAND_BUFFER_BIT_def)
  have "list_all (frame_op_ok 2) (ex_frame_ops @ [FrameDraw ex_frame])" "sum_list (map frame_ticks (ex_frame_ops @ [FrameDraw ex_frame])) < 2 ^ 64"
    "fr_flipped ex_frame" using ex_frame_ok by (simp_all add: ex_frame_def frame_env_ok_def)
  moreover obtain s where "fold_res frame_exec ex_frame_ops (frame_start 2 2 1) = Inr s"
    using frame_run_ok [OF frame_start_ok [OF f], of 2 1 ex_frame_ops] ex_frame_ok by (auto simp: frame_start_def circular_of_def)
  ultimately show ?thesis using frame_waits_for_last [OF f, of 2 1 ex_frame_ops ex_frame s] by auto
qed

section \<open>As many threads as levels\<close>

text \<open>The pool has 15 levels, the primary buffer takes level 0, and the number of threads is bounded by 15: with
  a grid of 15 or 16 views the last level executed is one the pool does not have.\<close>

lemma record_frame_fails:
  assumes "slot_rest levels sl" "fr_threads E = levels" "1 < levels" "fr_busy E = [0]"
  shows "record_frame E timeline sl = Inl Undefined"
proof -
  let ?ops = "[QCommands (scope_desc_default True)] @ [QCommands (thread_desc E 0), QEnd 1, QDrop 1] @ map (\<lambda>level. QExecute level timeline) [1..<levels]"
  have rest: "queue_rest levels (sl_state sl)" using assms(1) by (simp add: slot_rest_def)
  obtain s1 p where s1: "qexec (QCommands (scope_desc_default True)) (sl_state sl) = Inr s1" "queue_recording levels {} p s1"
    using phase_begin [OF rest] by blast
  have "distinct [0 :: nat]" "\<forall>t \<in> set [0]. t + 1 < levels" using assms(3) by simp_all
  from record_threads [OF s1(2) this, of E] obtain s2 where s2: "fold_res qexec [QCommands (thread_desc E 0), QEnd 1, QDrop 1] s1 = Inr s2"
    "queue_recording levels {1} p s2" by (auto simp del: qexec.simps)
  have "set [1..<levels] \<subseteq> {0<..<levels}" "{1} \<subseteq> set [1..<levels]" using assms(3) by auto
  from execute_levels [OF s2(2) this] obtain s3 where s3: "fold_res qexec (map (\<lambda>level. QExecute level timeline) [1..<levels]) s2 = Inr s3"
    "queue_recording levels {} p s3" by blast
  have "fold_res slot_exec ?ops sl = Inr (sl\<lparr> sl_state := s3 \<rparr>)"
  proof (rule slot_run_quiet)
    show "fold_res qexec ?ops (sl_state sl) = Inr s3" using s1(1) s2(1) s3(1) by (simp only: fold_res_append bind_res.simps fold_res.simps)
  qed (auto simp: list_all_iff)
  moreover have "cp_levels (pool0 (qs_queue s3)) = levels" using s3(2) by (simp add: queue_recording_def queue_calm_def)
  then have "slot_exec (QExecute levels timeline) (sl\<lparr> sl_state := s3 \<rparr>) = Inl Undefined"
    by (simp add: slot_exec_def Execute_def InternalEndCommands_def with_level_def)
  moreover have "[1..<levels + 1] = [1..<levels] @ [levels]" using assms(3) by simp
  then have "record_frame E timeline sl = fold_res slot_exec (?ops @ [QExecute levels timeline] @ [QEnd 0]) sl"
    unfolding record_frame_def assms(2,4) by simp
  ultimately show ?thesis by (simp only: fold_res_append bind_res.simps fold_res.simps)
qed

text \<open>C38: Whatever happened before, the frame fails when the grid has at least 15 cells, because the level of the
  fifteenth thread does not exist.\<close>
theorem fifteen_threads_fail:
  assumes "flags AND VK_COMMAND_POOL_CREATE_RESET_COMMAND_BUFFER_BIT \<noteq> 0" and "0 < n" and "n < 2 ^ 64" and "m < 2 ^ 64"
    and "list_all (frame_op_ok n) ops" and "sum_list (map frame_ticks ops) + length (fr_transitions E) < 2 ^ 64"
    and "fold_res frame_exec ops (frame_start flags n m) = Inr s" and "fr_flipped E" and "fr_busy E = [0]"
    and "15 \<le> unat (drawCount V)" and "dn_levels V = 15" and "fr_threads E = unat (drawThreadCount V)"
  shows "Draw E s = Inl Undefined"
proof -
  have start: "length (cc_items (ds_graphics (frame_start flags n m))) = n" "ds_timeline (frame_start flags n m) = 0"
    by (simp_all add: frame_start_def circular_of_def)
  let ?k = "sum_list (map frame_ticks ops)" and ?g = "ds_graphics s"
  from frame_run_ok [OF frame_start_ok [OF assms(1-4)], of ops, unfolded start] assms(5-7)
  have s: "draw_ok s" "ds_timeline s = of_nat ?k" by auto
  have ok: "slots_ok 15 ?g" using s(1) by (simp add: draw_ok_def)
  note F = FetchAdd_slots [OF ok]
  let ?i = "Suc (cc_head ?g) mod length (cc_items ?g)"
  have "slot_rest 15 (cc_items ?g ! ?i)" using ok F(2) by (simp add: slots_ok_def list_all_length)
  from recycle_rest [OF this] obtain sl1 where sl1: "recycle (cc_items ?g ! ?i) = Inr sl1" "slot_rest 15 sl1" "sl_sync sl1 = no_sync" by blast
  have "unat (ds_timeline s) = ?k" using u64_add [of 0 ?k] assms(6) s(2) by simp
  then obtain sl2 where sl2: "fold_res (run_transition (fr_semaphore E)) (fr_transitions E) (ds_timeline s, sl1)
      = Inr (ds_timeline s + of_nat (length (fr_transitions E)), sl2)" "slot_rest 15 sl2"
    using run_transitions_ok [OF sl1(2), of "ds_timeline s" "fr_transitions E" "fr_semaphore E"] assms(6) by (auto simp: sl1(3) no_sync_def)
  have "fr_threads E = 15" using assms(10-12) by (simp add: drawThreadCount_def min_def word_le_nat_alt)
  then have "record_frame E t sl2 = Inl Undefined" for t by (rule record_frame_fails [OF sl2(2)]) (use assms(9) in simp_all)
  then show ?thesis using assms(8) F sl1(1) sl2(1) by (simp add: Draw_def circular_Get_def)
qed

theorem fifteen_threads_fail_witness:
  "Draw (ex_frame\<lparr> fr_transitions := [], fr_threads := 15 \<rparr>) (frame_start 2 1 0) = Inl Undefined"
proof -
  have f: "(2 :: u32) AND VK_COMMAND_POOL_CREATE_RESET_COMMAND_BUFFER_BIT \<noteq> 0"
    by (simp add: VK_COMMAND_POOL_CREATE_RESET_COMMAND_BUFFER_BIT_def)
  let ?V = "ex_draw_env\<lparr> dn_grid := (4, 4) \<rparr>"
  have V: "unat (drawCount ?V) = 16" "dn_levels ?V = 15" "unat (drawThreadCount ?V) = 15"
    by (simp_all add: drawCount_def drawThreadCount_def ex_draw_env_def min_def)
  show ?thesis
    by (rule fifteen_threads_fail [OF f, where n = 1 and m = 0 and ops = "[]" and V = ?V]) (use V in \<open>simp_all add: ex_frame_def\<close>)
qed

end
