(* ===== verification/Vertex_Memory.thy ===== *)
theory Vertex_Memory
imports Prelude
begin

text \<open>
  The vertex memory of \<open>gfx/vertex.{h,cpp}\<close>: a vector of bytes that is handed out in units of a stride, and
  the typed access of a \<open>Vertex\<close>. A pointer is an offset into the vector, \<open>None\<close> the null pointer; the unlocked
  checks of \<open>Reserve\<close> and \<open>SetStride\<close> are \<open>ASSERT\<close>s. A float is its 32 bits, stored with the low byte first.
  XXH64 is not in the repository: it is the argument of \<open>Vertex_Hash\<close>. The thread-local scope is not modelled:
  the allocator of the scope is the allocator at hand.
\<close>

section \<open>Floats in memory\<close>

definition le_bytes :: "u32 \<Rightarrow> u8 list" where
  "le_bytes x = [ucast x, ucast (drop_bit 8 x), ucast (drop_bit 16 x), ucast (drop_bit 24 x)]"

fun le_word :: "u8 list \<Rightarrow> u32" where
  "le_word [a, b, c, d] = ucast a OR push_bit 8 (ucast b) OR push_bit 16 (ucast c) OR push_bit 24 (ucast d)"
| "le_word _ = 0"

section \<open>The allocator\<close>

record vertex_allocator =
  va_data :: "u8 list"
  va_stride :: nat
  va_locked :: bool

definition vertex_allocator_new :: vertex_allocator where
  "vertex_allocator_new = \<lparr> va_data = [], va_stride = 0, va_locked = False \<rparr>"

definition va_Lock :: "vertex_allocator \<Rightarrow> vertex_allocator" where
  "va_Lock a = a\<lparr> va_locked := True \<rparr>"

definition va_Unlock :: "vertex_allocator \<Rightarrow> vertex_allocator" where
  "va_Unlock a = a\<lparr> va_locked := False \<rparr>"

definition SetStride :: "nat \<Rightarrow> vertex_allocator \<Rightarrow> vertex_allocator" where
  "SetStride n a = a\<lparr> va_stride := n \<rparr>"

definition va_Size :: "vertex_allocator \<Rightarrow> nat res" where
  "va_Size a = (if va_stride a = 0 then Inl Undefined else Inr (length (va_data a) div va_stride a))"

definition va_Allocate :: "nat \<Rightarrow> vertex_allocator \<Rightarrow> nat option \<times> vertex_allocator" where
  "va_Allocate count a = (let bytes = count * va_stride a; d = va_data a @ replicate bytes 0
     in (Some (length d - bytes), a\<lparr> va_data := d \<rparr>))"

definition va_Free :: "nat option \<Rightarrow> nat \<Rightarrow> vertex_allocator \<Rightarrow> vertex_allocator res" where
  "va_Free ptr count a = (case ptr of None \<Rightarrow> Inl EnsureFailed | Some p \<Rightarrow>
     let fin = length (va_data a); bytes = count * va_stride a; nxt = p + bytes
     in bind_res (ensure (bytes > 0)) (\<lambda>_.
       if nxt = fin then Inr (a\<lparr> va_data := take (fin - bytes) (va_data a) \<rparr>)
       else if nxt mod va_stride a \<noteq> 0 \<and> nxt < fin \<and> nxt > 0
       then Inr (a\<lparr> va_data := take p (va_data a) @ drop nxt (va_data a) \<rparr>)
       else Inr a))"

definition va_Clear :: "vertex_allocator \<Rightarrow> vertex_allocator" where
  "va_Clear a = vertex_allocator_new"

section \<open>A vertex\<close>

definition store_floats :: "nat option \<Rightarrow> nat \<Rightarrow> u32 list \<Rightarrow> vertex_allocator \<Rightarrow> vertex_allocator res" where
  "store_floats ptr offset fs a = (case ptr of None \<Rightarrow> Inl Undefined | Some p \<Rightarrow>
     if p + offset + 4 * length fs \<le> length (va_data a)
     then Inr (a\<lparr> va_data := take (p + offset) (va_data a) @ concat (map le_bytes fs)
            @ drop (p + offset + 4 * length fs) (va_data a) \<rparr>)
     else Inl Undefined)"

fun floats_at :: "u8 list \<Rightarrow> nat \<Rightarrow> nat \<Rightarrow> u32 list" where
  "floats_at d p 0 = []"
| "floats_at d p (Suc n) = le_word (take 4 (drop p d)) # floats_at d (p + 4) n"

definition kDefaultSeed :: u64 where "kDefaultSeed = 42"

definition Vertex_Hash :: "(u8 list \<Rightarrow> u64 \<Rightarrow> u64) \<Rightarrow> nat option \<Rightarrow> vertex_allocator \<Rightarrow> u64 res" where
  "Vertex_Hash XXH64 ptr a = (case ptr of None \<Rightarrow> Inl Undefined | Some p \<Rightarrow>
     if p + va_stride a \<le> length (va_data a)
     then Inr (XXH64 (take (va_stride a) (drop p (va_data a))) kDefaultSeed) else Inl Undefined)"

section \<open>Facts about the memory\<close>

lemma length_le_bytes [simp]: "length (le_bytes x) = 4"
  by (simp add: le_bytes_def)

lemma le_word_bytes [simp]: "le_word (le_bytes x) = x"
proof (rule bit_word_eqI)
  fix n assume "n < LENGTH(32)"
  moreover have "24 + (n - 24) = n" if "\<not> n - 16 < 8" using that by simp
  moreover have "16 + (n - 16) = n" if "\<not> n - 8 < 8" using that by simp
  ultimately show "bit (le_word (le_bytes x)) n = bit x n"
    by (cases "n - 16 < 8"; cases "n - 8 < 8") (auto simp: le_bytes_def bit_simps)
qed

lemma length_concat_bytes [simp]: "length (concat (map le_bytes fs)) = 4 * length fs"
  by (induction fs) simp_all

lemma floats_at_bytes: "floats_at (pre @ concat (map le_bytes fs) @ post) (length pre) (length fs) = fs"
proof (induction fs arbitrary: pre)
  case (Cons x xs)
  have "floats_at (pre @ concat (map le_bytes (x # xs)) @ post) (length pre + 4) (length xs) = xs"
    using Cons.IH [of "pre @ le_bytes x"] by simp
  then show ?case by simp
qed simp

text \<open>Vertices of the stride: \<open>holds_vertices a vs\<close> says that the memory holds exactly the vertices \<open>vs\<close>.\<close>

definition holds_vertices :: "vertex_allocator \<Rightarrow> u8 list list \<Rightarrow> bool" where
  "holds_vertices a vs \<longleftrightarrow> va_data a = concat vs \<and> (\<forall>v\<in>set vs. length v = va_stride a) \<and> 0 < va_stride a"

lemma length_concat_const: "(\<forall>v\<in>set vs. length v = n) \<Longrightarrow> length (concat vs) = length vs * n"
  by (induction vs) auto

lemma holds_vertices_length: "holds_vertices a vs \<Longrightarrow> length (va_data a) = length vs * va_stride a"
  by (simp add: holds_vertices_def length_concat_const)

lemma holds_vertices_Size: "holds_vertices a vs \<Longrightarrow> va_Size a = Inr (length vs)"
  by (simp add: va_Size_def holds_vertices_length) (simp add: holds_vertices_def)

lemma holds_vertices_nth:
  assumes "holds_vertices a vs" "k < length vs"
  shows "take (va_stride a) (drop (k * va_stride a) (va_data a)) = vs ! k"
proof -
  have vs: "vs = take k vs @ vs ! k # drop (Suc k) vs" using assms(2) by (rule id_take_nth_drop)
  have "length (concat (take k vs)) = k * va_stride a"
    using assms by (subst length_concat_const [where n = "va_stride a"]) (auto simp: holds_vertices_def dest: in_set_takeD)
  moreover have "va_data a = concat (take k vs) @ vs ! k @ concat (drop (Suc k) vs)"
    using assms(1) vs by (metis holds_vertices_def concat_append concat.simps(2))
  moreover have "length (vs ! k) = va_stride a" using assms by (simp add: holds_vertices_def)
  ultimately show ?thesis by simp
qed

lemma va_Allocate_one:
  "va_Allocate (Suc 0) a = (Some (length (va_data a)), a\<lparr> va_data := va_data a @ replicate (va_stride a) 0 \<rparr>)"
  by (simp add: va_Allocate_def)

text \<open>Writing at an offset of the last vertex changes that vertex alone.\<close>

definition overwrite :: "nat \<Rightarrow> u32 list \<Rightarrow> u8 list \<Rightarrow> u8 list" where
  "overwrite offset fs v = take offset v @ concat (map le_bytes fs) @ drop (offset + 4 * length fs) v"

lemma length_overwrite [simp]: "offset + 4 * length fs \<le> length v \<Longrightarrow> length (overwrite offset fs v) = length v"
  by (simp add: overwrite_def)

lemma store_floats_last:
  assumes "offset + 4 * length fs \<le> length v"
  shows "store_floats (Some (length d)) offset fs (a\<lparr> va_data := d @ v \<rparr>) = Inr (a\<lparr> va_data := d @ overwrite offset fs v \<rparr>)"
proof -
  have [simp]: "length d + offset + 4 * length fs - length d = offset + 4 * length fs" by simp
  show ?thesis using assms by (simp add: store_floats_def overwrite_def)
qed

lemma Hash_last: "length v = va_stride a \<Longrightarrow>
  Vertex_Hash X (Some (length d)) (a\<lparr> va_data := d @ v \<rparr>) = Inr (X v kDefaultSeed)"
  by (simp add: Vertex_Hash_def)

lemma Free_last: "length v = va_stride a \<Longrightarrow> 0 < va_stride a \<Longrightarrow>
  va_Free (Some (length d)) (Suc 0) (a\<lparr> va_data := d @ v \<rparr>) = Inr (a\<lparr> va_data := d \<rparr>)"
  by (simp add: va_Free_def)

text \<open>Any other vertex is not freed: its end is at a multiple of the stride, where the test is for the opposite.\<close>

lemma Free_inner_does_nothing:
  assumes "holds_vertices a vs" "k < length vs" "Suc k \<noteq> length vs"
  shows "va_Free (Some (k * va_stride a)) 1 a = Inr a"
proof -
  have "k * va_stride a + va_stride a = Suc k * va_stride a" by simp
  moreover have s: "0 < va_stride a" using assms(1) by (simp add: holds_vertices_def)
  moreover have "Suc k * va_stride a \<noteq> length vs * va_stride a" using s assms(3) by (simp only: mult_cancel2) simp
  moreover have "length (va_data a) = length vs * va_stride a" by (rule holds_vertices_length [OF assms(1)])
  ultimately show ?thesis by (simp add: va_Free_def)
qed

end
