(* ===== verification/Vulkan_Utils.thy ===== *)
theory Vulkan_Utils
imports Prelude
begin

text \<open>
  The helpers of \<open>rhi/vulkan/utils.cpp\<close>: format and memory-type tables, the access and stage masks
  of an image layout, and the functions that create buffers, images, views, render passes and frame
  buffers or record layout transitions. Flag words are sets of the flags the source names, handles are
  natural numbers with \<open>VK_NULL_HANDLE\<close> as 0. What the program asks of the driver is a list of
  \<open>vk_call\<close>s, oldest first; the handles the driver answers with are the functions of a \<open>driver\<close>, which
  may depend on all calls made so far. Every call succeeds, as \<open>VK_CHECK\<close> only logs a failure.
\<close>

section \<open>Enumerations\<close>

datatype vk_format =
    FORMAT_UNDEFINED
  | FORMAT_BC1_RGBA_UNORM | FORMAT_BC1_RGBA_SRGB | FORMAT_BC1_RGB_UNORM | FORMAT_BC1_RGB_SRGB
  | FORMAT_BC4_UNORM | FORMAT_BC4_SNORM
  | FORMAT_BC2_UNORM | FORMAT_BC2_SRGB | FORMAT_BC3_UNORM | FORMAT_BC3_SRGB | FORMAT_BC5_SNORM
  | FORMAT_BC6H_UFLOAT | FORMAT_BC5_UNORM | FORMAT_BC6H_SFLOAT | FORMAT_BC7_UNORM | FORMAT_BC7_SRGB
  | FORMAT_R8G8B8_UNORM | FORMAT_R8G8B8A8_UNORM
  | FORMAT_R32G32_SFLOAT | FORMAT_R32G32B32_SFLOAT | FORMAT_R32G32B32A32_SFLOAT
  | FORMAT_S8_UINT | FORMAT_D16_UNORM | FORMAT_D32_SFLOAT | FORMAT_X8_D24_UNORM_PACK32
  | FORMAT_D16_UNORM_S8_UINT | FORMAT_D24_UNORM_S8_UINT | FORMAT_D32_SFLOAT_S8_UINT
  | OtherFormat nat

datatype image_layout =
    LAYOUT_UNDEFINED | LAYOUT_GENERAL
  | LAYOUT_COLOR_ATTACHMENT | LAYOUT_DEPTH_STENCIL_ATTACHMENT | LAYOUT_DEPTH_STENCIL_READ_ONLY
  | LAYOUT_SHADER_READ_ONLY | LAYOUT_TRANSFER_SRC | LAYOUT_TRANSFER_DST | LAYOUT_PRESENT_SRC
  | OtherLayout nat

datatype aspect = ColorAspect | DepthAspect | StencilAspect

type_synonym aspects = "aspect set"

datatype access2 =
    IndirectCommandRead | IndexRead | VertexAttributeRead | UniformRead | InputAttachmentRead
  | ShaderRead | ShaderWrite | ColorAttachmentRead | ColorAttachmentWrite
  | DepthStencilAttachmentRead | DepthStencilAttachmentWrite | TransferRead | TransferWrite
  | HostRead | HostWrite

datatype stage2 =
    HostStage | AllGraphicsStage | AllCommandsStage | ColorAttachmentOutputStage
  | LateFragmentTestsStage | EarlyFragmentTestsStage | VertexShaderStage | FragmentShaderStage
  | ComputeShaderStage | TransferStage

datatype usage =
    UsageTransferSrc | UsageTransferDst | UsageSampled | UsageStorage | UsageColorAttachment | OtherUsage nat

datatype mem_flag = DeviceLocal | HostVisible | HostCoherent | OtherMemFlag nat

datatype load_op = LoadOpDontCare | LoadOpLoad | LoadOpClear
datatype bind_point = BindGraphics | BindCompute
datatype store_op = StoreOpDontCare | StoreOpStore

section \<open>What the program asks of the driver\<close>

record image_barrier =
  ib_srcAccess :: "access2 set"
  ib_srcStage :: "stage2 set"
  ib_dstAccess :: "access2 set"
  ib_dstStage :: "stage2 set"
  ib_oldLayout :: image_layout
  ib_newLayout :: image_layout
  ib_image :: nat
  ib_aspects :: aspects
  ib_levelCount :: nat

record copy_region =
  cr_bufferOffset :: nat
  cr_mipLevel :: nat
  cr_width :: nat
  cr_height :: nat

record buffer_info =
  bi_size :: nat
  bi_usage :: "usage set"
  bi_gpuOnly :: bool
  bi_required :: "mem_flag set"
  bi_name :: string

record image_info =
  ii_width :: nat
  ii_height :: nat
  ii_mipLevels :: nat
  ii_format :: vk_format
  ii_tiling :: nat
  ii_usage :: "usage set"
  ii_initialLayout :: image_layout
  ii_gpuOnly :: bool
  ii_required :: "mem_flag set"
  ii_name :: string

record view_info =
  vi_flags :: nat
  vi_image :: nat
  vi_format :: vk_format
  vi_aspects :: aspects
  vi_levelCount :: nat

record attachment_desc =
  ad_format :: vk_format
  ad_loadOp :: load_op
  ad_storeOp :: store_op
  ad_stencilLoadOp :: load_op
  ad_stencilStoreOp :: store_op
  ad_initialLayout :: image_layout
  ad_finalLayout :: image_layout

record attachment_ref =
  ar_attachment :: nat
  ar_layout :: image_layout
  ar_aspects :: aspects

text \<open>The pointers of a subpass description into the array of references are positions in it.\<close>

record subpass_desc =
  sp_bindPoint :: bind_point
  sp_colorCount :: nat
  sp_colorAttachments :: nat
  sp_depthStencil :: "nat option"

record subpass_dep =
  sd_dstSubpass :: nat
  sd_srcStage :: "stage2 set"
  sd_dstStage :: "stage2 set"
  sd_srcAccess :: "access2 set"
  sd_dstAccess :: "access2 set"
  sd_byRegion :: bool

record render_pass_info =
  rp_attachments :: "attachment_desc list"
  rp_subpasses :: "subpass_desc list"
  rp_dependencies :: "subpass_dep list"

record framebuffer_info =
  fb_renderPass :: nat
  fb_attachments :: "nat list"
  fb_width :: nat
  fb_height :: nat
  fb_layers :: nat

record attachment_info =
  ai_view :: nat
  ai_layout :: image_layout
  ai_loadOp :: load_op
  ai_storeOp :: store_op
  ai_clear :: nat

datatype subpass_contents = ContentsInline | ContentsSecondary

record rendering_info =
  ri_secondary :: bool
  ri_width :: nat
  ri_height :: nat
  ri_color :: "attachment_info list"
  ri_depth :: "attachment_info option"
  ri_stencil :: "attachment_info option"

record pass_begin_info =
  pb_renderPass :: nat
  pb_framebuffer :: nat
  pb_width :: nat
  pb_height :: nat
  pb_clears :: "nat list"

record swapchain_info =
  si_surface :: nat
  si_minImageCount :: nat
  si_format :: vk_format
  si_colorSpace :: nat
  si_width :: nat
  si_height :: nat
  si_usage :: "usage set"
  si_presentMode :: nat
  si_oldSwapchain :: nat

datatype vk_call =
    CreateBufferCall buffer_info nat
  | HostWriteCall nat "u8 list"
  | DestroyBufferCall nat
  | CreateImageCall image_info nat
  | DestroyImageCall nat
  | CreateImageViewCall view_info nat
  | DestroyImageViewCall nat
  | CreateRenderPassCall render_pass_info nat
  | DestroyRenderPassCall nat
  | CreateFramebufferCall framebuffer_info nat
  | DestroyFramebufferCall nat
  | CreateSwapchainCall swapchain_info nat
  | DestroySwapchainCall nat
  | DestroySurfaceCall nat
  | CmdCopyBuffer nat nat nat
  | CmdPipelineBarrier image_barrier
  | CmdCopyBufferToImage nat nat image_layout "copy_region list"
  | CmdClearColorImage nat image_layout nat aspects
  | CmdClearDepthStencilImage nat image_layout nat aspects
  | CmdClearAttachments "(aspects \<times> nat \<times> nat) list" nat nat nat
  | CmdBlitImage nat image_layout nat image_layout nat "nat \<times> nat" nat "nat \<times> nat" nat
  | CmdCopyImage nat image_layout nat image_layout nat nat "nat \<times> nat"
  | CmdBeginRendering rendering_info
  | CmdEndRendering
  | CmdBeginRenderPass pass_begin_info subpass_contents
  | CmdEndRenderPass
  | CmdNextSubpass subpass_contents

type_synonym vk = "vk_call list"

text \<open>The handles a driver answers with, after the calls made so far.\<close>

record driver =
  dv_buffer :: "vk \<Rightarrow> nat \<times> nat"
  dv_image :: "vk \<Rightarrow> nat \<times> nat"
  dv_view :: "vk \<Rightarrow> nat"
  dv_renderPass :: "vk \<Rightarrow> nat"
  dv_framebuffer :: "vk \<Rightarrow> nat"
  dv_swapchain :: "vk \<Rightarrow> nat"
  dv_swapchainImages :: "vk \<Rightarrow> nat list"

section \<open>Formats and memory types\<close>

text \<open>The size and the divisor it is counted in; the default case is an \<open>ASSERT\<close> and then 0.\<close>

fun GetFormatSize :: "vk_format \<Rightarrow> nat \<times> nat" where
  "GetFormatSize FORMAT_BC1_RGBA_UNORM = (1, 2)"
| "GetFormatSize FORMAT_BC1_RGBA_SRGB = (1, 2)"
| "GetFormatSize FORMAT_BC1_RGB_UNORM = (1, 2)"
| "GetFormatSize FORMAT_BC1_RGB_SRGB = (1, 2)"
| "GetFormatSize FORMAT_BC4_UNORM = (1, 2)"
| "GetFormatSize FORMAT_BC4_SNORM = (1, 2)"
| "GetFormatSize FORMAT_BC2_UNORM = (1, 1)"
| "GetFormatSize FORMAT_BC2_SRGB = (1, 1)"
| "GetFormatSize FORMAT_BC3_UNORM = (1, 1)"
| "GetFormatSize FORMAT_BC3_SRGB = (1, 1)"
| "GetFormatSize FORMAT_BC5_SNORM = (1, 1)"
| "GetFormatSize FORMAT_BC6H_UFLOAT = (1, 1)"
| "GetFormatSize FORMAT_BC5_UNORM = (1, 1)"
| "GetFormatSize FORMAT_BC6H_SFLOAT = (1, 1)"
| "GetFormatSize FORMAT_BC7_UNORM = (1, 1)"
| "GetFormatSize FORMAT_BC7_SRGB = (1, 1)"
| "GetFormatSize FORMAT_R8G8B8_UNORM = (3, 1)"
| "GetFormatSize FORMAT_R8G8B8A8_UNORM = (4, 1)"
| "GetFormatSize FORMAT_R32G32_SFLOAT = (8, 1)"
| "GetFormatSize FORMAT_R32G32B32_SFLOAT = (12, 1)"
| "GetFormatSize FORMAT_R32G32B32A32_SFLOAT = (16, 1)"
| "GetFormatSize _ = (0, 1)"

definition HasStencilComponent :: "vk_format \<Rightarrow> bool" where
  "HasStencilComponent f = (f \<in> {FORMAT_S8_UINT, FORMAT_D16_UNORM_S8_UINT, FORMAT_D24_UNORM_S8_UINT,
     FORMAT_D32_SFLOAT_S8_UINT})"

definition HasDepthComponent :: "vk_format \<Rightarrow> bool" where
  "HasDepthComponent f = (f \<in> {FORMAT_D16_UNORM, FORMAT_D32_SFLOAT, FORMAT_D16_UNORM_S8_UINT,
     FORMAT_X8_D24_UNORM_PACK32, FORMAT_D24_UNORM_S8_UINT, FORMAT_D32_SFLOAT_S8_UINT})"

definition HasColorComponent :: "vk_format \<Rightarrow> bool" where
  "HasColorComponent f = (\<not> HasDepthComponent f \<and> \<not> HasStencilComponent f)"

text \<open>The memory types of the device are given by their flags; the filter is a bit per type.\<close>

fun find_memory_type :: "u32 \<Rightarrow> 'm set \<Rightarrow> nat \<Rightarrow> 'm set list \<Rightarrow> nat" where
  "find_memory_type typeFilter properties i [] = 0"
| "find_memory_type typeFilter properties i (f # fs) =
     (if bit typeFilter i \<and> f \<inter> properties \<noteq> {} then i else find_memory_type typeFilter properties (i + 1) fs)"

definition FindMemoryType :: "'m set list \<Rightarrow> u32 \<Rightarrow> 'm set \<Rightarrow> nat" where
  "FindMemoryType memoryTypes typeFilter properties = find_memory_type typeFilter properties 0 memoryTypes"

datatype tiling = TilingOptimal | TilingLinear | OtherTiling nat

text \<open>\<open>props\<close> gives the linear and the optimal tiling features of a format.\<close>

fun FindSupportedFormat :: "(vk_format \<Rightarrow> 'f set \<times> 'f set) \<Rightarrow> vk_format list \<Rightarrow> tiling \<Rightarrow> 'f set \<Rightarrow> vk_format" where
  "FindSupportedFormat props [] t features = FORMAT_UNDEFINED"
| "FindSupportedFormat props (f # fs) t features =
     (if t = TilingLinear \<and> fst (props f) \<inter> features = features then f
      else if t = TilingOptimal \<and> snd (props f) \<inter> features = features then f
      else FindSupportedFormat props fs t features)"

section \<open>Extensions\<close>

text \<open>The static flag and the static map of extension names by device. \<open>ext_names\<close> is what
  \<open>vkEnumerateDeviceExtensionProperties\<close> reports; looking a device up in the map adds it, with no names.\<close>

type_synonym ext_cache = "bool \<times> (nat \<Rightarrow> string list)"

definition ext_cache_new :: ext_cache where
  "ext_cache_new = (False, \<lambda>_. [])"

definition SupportsExtension :: "(nat \<Rightarrow> string list) \<Rightarrow> string \<Rightarrow> nat \<Rightarrow> ext_cache \<Rightarrow> bool \<times> ext_cache" where
  "SupportsExtension ext_names name device c =
     (let c' = (if fst c then c else (True, (snd c)(device := ext_names device)))
      in (name \<in> set (snd c' device), c'))"

section \<open>Buffers\<close>

definition CopyBuffer :: "nat \<Rightarrow> nat \<Rightarrow> nat \<Rightarrow> vk \<Rightarrow> vk" where
  "CopyBuffer srcBuffer dstBuffer size' v = v @ [CmdCopyBuffer srcBuffer dstBuffer size']"

definition CreateBuffer :: "driver \<Rightarrow> nat \<Rightarrow> usage set \<Rightarrow> mem_flag set \<Rightarrow> string \<Rightarrow> vk \<Rightarrow> (nat \<times> nat) \<times> vk" where
  "CreateBuffer d size' usage flags name v =
     (let info = \<lparr> bi_size = size', bi_usage = usage, bi_gpuOnly = (DeviceLocal \<in> flags), bi_required = flags, bi_name = name \<rparr>;
          (buffer, memory) = dv_buffer d v
      in ((buffer, memory), v @ [CreateBufferCall info buffer]))"

definition CreateBuffer_staged ::
  "driver \<Rightarrow> nat \<Rightarrow> nat \<Rightarrow> usage set \<Rightarrow> mem_flag set \<Rightarrow> string \<Rightarrow> vk \<Rightarrow> ((nat \<times> nat) \<times> vk) res" where
  "CreateBuffer_staged d stagingBuffer bufferSize usage memoryFlags name v =
     bind_res (ensure (bufferSize > 0)) (\<lambda>_.
       if stagingBuffer \<noteq> 0
       then (let ((buffer, memory), v1) = CreateBuffer d bufferSize (usage \<union> {UsageTransferDst}) memoryFlags name v
             in Inr ((buffer, memory), CopyBuffer stagingBuffer buffer bufferSize v1))
       else Inr (CreateBuffer d bufferSize usage memoryFlags name v))"

definition CreateStagingBuffer :: "driver \<Rightarrow> u8 list \<Rightarrow> nat \<Rightarrow> string \<Rightarrow> vk \<Rightarrow> ((nat \<times> nat) \<times> vk) res" where
  "CreateStagingBuffer d srcData srcDataSize name v =
     (let ((buffer, memory), v1) = CreateBuffer d srcDataSize {UsageTransferSrc} {HostVisible, HostCoherent} name v
      in if length srcData < srcDataSize then Inl Undefined
         else Inr ((buffer, memory), v1 @ [HostWriteCall buffer (take srcDataSize srcData)]))"

section \<open>Layout transitions\<close>

text \<open>The out parameters keep their value for a layout the switch does not list (an \<open>ASSERT\<close>).\<close>

fun SetDefaultAccessAndStageMasks :: "image_layout \<Rightarrow> access2 set \<times> stage2 set \<Rightarrow> access2 set \<times> stage2 set" where
  "SetDefaultAccessAndStageMasks LAYOUT_GENERAL _ =
     ({IndirectCommandRead, IndexRead, VertexAttributeRead, UniformRead, InputAttachmentRead, ShaderRead, ShaderWrite,
       ColorAttachmentRead, ColorAttachmentWrite, DepthStencilAttachmentRead, DepthStencilAttachmentWrite,
       TransferRead, TransferWrite, HostRead, HostWrite},
      {HostStage, AllGraphicsStage, AllCommandsStage})"
| "SetDefaultAccessAndStageMasks LAYOUT_COLOR_ATTACHMENT _ =
     ({ColorAttachmentRead, ColorAttachmentWrite}, {ColorAttachmentOutputStage})"
| "SetDefaultAccessAndStageMasks LAYOUT_DEPTH_STENCIL_ATTACHMENT _ =
     ({DepthStencilAttachmentRead, DepthStencilAttachmentWrite}, {LateFragmentTestsStage})"
| "SetDefaultAccessAndStageMasks LAYOUT_DEPTH_STENCIL_READ_ONLY _ =
     ({DepthStencilAttachmentRead}, {EarlyFragmentTestsStage})"
| "SetDefaultAccessAndStageMasks LAYOUT_SHADER_READ_ONLY _ =
     ({ShaderRead}, {VertexShaderStage, FragmentShaderStage, ComputeShaderStage})"
| "SetDefaultAccessAndStageMasks LAYOUT_TRANSFER_SRC _ = ({TransferRead}, {TransferStage})"
| "SetDefaultAccessAndStageMasks LAYOUT_TRANSFER_DST _ = ({TransferWrite}, {TransferStage})"
| "SetDefaultAccessAndStageMasks LAYOUT_PRESENT_SRC _ = ({}, {})"
| "SetDefaultAccessAndStageMasks LAYOUT_UNDEFINED _ = ({}, {})"
| "SetDefaultAccessAndStageMasks (OtherLayout _) masks = masks"

definition TransitionImageLayout :: "nat \<Rightarrow> image_layout \<Rightarrow> image_layout \<Rightarrow> nat \<Rightarrow> aspects \<Rightarrow> vk \<Rightarrow> vk" where
  "TransitionImageLayout img oldLayout newLayout mipLevels' aspectFlags v =
     (let (srcAccess, srcStage) = SetDefaultAccessAndStageMasks oldLayout ({}, {});
          (dstAccess, dstStage) = SetDefaultAccessAndStageMasks newLayout ({}, {})
      in v @ [CmdPipelineBarrier \<lparr> ib_srcAccess = srcAccess, ib_srcStage = srcStage, ib_dstAccess = dstAccess,
                ib_dstStage = dstStage, ib_oldLayout = oldLayout, ib_newLayout = newLayout, ib_image = img,
                ib_aspects = aspectFlags, ib_levelCount = mipLevels' \<rparr>])"

section \<open>Images and views\<close>

text \<open>Shifting a 32-bit value by 32 or more is undefined.\<close>

definition shr32 :: "nat \<Rightarrow> nat \<Rightarrow> nat res" where
  "shr32 x i = (if i < 32 then Inr (x div 2 ^ i) else Inl Undefined)"

text \<open>\<open>mipOffsets\<close> is the memory from the offset of the first level on, in words, and \<open>stride\<close> the
  words of a level's description.\<close>

fun copy_regions :: "nat \<Rightarrow> nat \<Rightarrow> (nat \<Rightarrow> nat res) \<Rightarrow> nat \<Rightarrow> nat list \<Rightarrow> copy_region list res" where
  "copy_regions width height mipOffsets stride [] = Inr []"
| "copy_regions width height mipOffsets stride (mipIt # its) =
     bind_res (shr32 width mipIt) (\<lambda>mipWidth. bind_res (shr32 height mipIt) (\<lambda>mipHeight.
     bind_res (mipOffsets (mipIt * stride)) (\<lambda>o'.
     bind_res (copy_regions width height mipOffsets stride its) (\<lambda>rs.
       Inr (\<lparr> cr_bufferOffset = o', cr_mipLevel = mipIt, cr_width = mipWidth, cr_height = mipHeight \<rparr> # rs)))))"

definition CopyBufferToImage ::
  "nat \<Rightarrow> nat \<Rightarrow> nat \<Rightarrow> nat \<Rightarrow> nat \<Rightarrow> (nat \<Rightarrow> nat res) \<Rightarrow> nat \<Rightarrow> vk \<Rightarrow> vk res" where
  "CopyBufferToImage buffer img width height mipLevels' mipOffsets stride v =
     bind_res (copy_regions width height mipOffsets stride [0..<mipLevels']) (\<lambda>regions.
       Inr (v @ [CmdCopyBufferToImage buffer img LAYOUT_TRANSFER_DST regions]))"

definition CreateImage2D ::
  "driver \<Rightarrow> nat \<Rightarrow> nat \<Rightarrow> nat \<Rightarrow> vk_format \<Rightarrow> nat \<Rightarrow> usage set \<Rightarrow> mem_flag set \<Rightarrow> string \<Rightarrow> image_layout \<Rightarrow> vk
     \<Rightarrow> (nat \<times> nat) \<times> vk" where
  "CreateImage2D d width height mipLevels' format til usage memoryFlags name initialLayout v =
     (let info = \<lparr> ii_width = width, ii_height = height, ii_mipLevels = mipLevels', ii_format = format, ii_tiling = til,
                ii_usage = usage, ii_initialLayout = initialLayout, ii_gpuOnly = (DeviceLocal \<in> memoryFlags),
                ii_required = memoryFlags, ii_name = name \<rparr>;
          (img, memory) = dv_image d v
      in ((img, memory), v @ [CreateImageCall info img]))"

definition CreateImage2D_staged ::
  "driver \<Rightarrow> nat \<Rightarrow> nat \<Rightarrow> nat \<Rightarrow> nat \<Rightarrow> (nat \<Rightarrow> nat res) \<Rightarrow> nat \<Rightarrow> vk_format \<Rightarrow> nat \<Rightarrow> usage set \<Rightarrow> mem_flag set \<Rightarrow> aspects
     \<Rightarrow> string \<Rightarrow> image_layout \<Rightarrow> vk \<Rightarrow> ((nat \<times> nat) \<times> vk) res" where
  "CreateImage2D_staged d stagingBuffer width height mipLevels' mipOffsets stride format til usage memoryFlags aspectFlags
     name initialLayout v =
     bind_res (ensure (stagingBuffer \<noteq> 0)) (\<lambda>_.
       let ((img, memory), v1) =
             CreateImage2D d width height mipLevels' format til (usage \<union> {UsageTransferDst}) memoryFlags name initialLayout v;
           v2 = TransitionImageLayout img initialLayout LAYOUT_TRANSFER_DST mipLevels' aspectFlags v1
       in bind_res (CopyBufferToImage stagingBuffer img width height mipLevels' mipOffsets stride v2) (\<lambda>v3.
            Inr ((img, memory), v3)))"

definition CreateImageView2D :: "driver \<Rightarrow> nat \<Rightarrow> nat \<Rightarrow> vk_format \<Rightarrow> aspects \<Rightarrow> nat \<Rightarrow> vk \<Rightarrow> nat \<times> vk" where
  "CreateImageView2D d flags img format aspectFlags mipLevels' v =
     (let info = \<lparr> vi_flags = flags, vi_image = img, vi_format = format, vi_aspects = aspectFlags, vi_levelCount = mipLevels' \<rparr>;
          view = dv_view d v
      in (view, v @ [CreateImageViewCall info view]))"

section \<open>Render passes and frame buffers\<close>

definition CreateFramebuffer :: "driver \<Rightarrow> nat \<Rightarrow> nat list \<Rightarrow> nat \<Rightarrow> nat \<Rightarrow> nat \<Rightarrow> vk \<Rightarrow> nat \<times> vk" where
  "CreateFramebuffer d renderPass attachments width height layers v =
     (let info = \<lparr> fb_renderPass = renderPass, fb_attachments = attachments, fb_width = width, fb_height = height,
                fb_layers = layers \<rparr>;
          frameBuffer = dv_framebuffer d v
      in (frameBuffer, v @ [CreateFramebufferCall info frameBuffer]))"

definition CreateRenderPass ::
  "driver \<Rightarrow> attachment_desc list \<Rightarrow> subpass_desc list \<Rightarrow> subpass_dep list \<Rightarrow> vk \<Rightarrow> nat \<times> vk" where
  "CreateRenderPass d attachments subpasses dependencies v =
     (let info = \<lparr> rp_attachments = attachments, rp_subpasses = subpasses, rp_dependencies = dependencies \<rparr>;
          renderPass = dv_renderPass d v
      in (renderPass, v @ [CreateRenderPassCall info renderPass]))"

end
