(* ===== verification/File_Assets.thy ===== *)
theory File_Assets
imports Prelude "HOL-Library.AList"
begin

text \<open>
  The asset cache of \<open>core/file.{h,inl,cpp}\<close>: file records, binary loading and saving, the asset
  manifest and \<open>LoadAsset\<close>, over a file system whose nodes are an association list from paths
  (component lists) to directories or files with a content and a write time. What is not in the
  repository is the argument \<open>env\<close>: the memory mapping of mio (\<open>map_source\<close>, \<open>map_sink\<close>), picosha2, the
  zpp::bits encoding of a manifest, the system's uuid generator, \<open>strftime\<close> and \<open>relative\<close>. A client's
  load and save functions act on the client's own state \<open>'c\<close>. mio refuses to map an empty file: where a theorem supposes
  that every regular file can be mapped, it speaks of runs without empty ones.
\<close>

section \<open>Files, errors and sequencing\<close>

type_synonym path = "string list"
type_synonym bytes = "u8 list"

datatype node = Directory | File bytes nat

record fsys =
  nodes :: "(path \<times> node) list"
  now :: nat
  uuid_count :: nat

datatype errc =
    NoSuchFile
  | NotADirectory
  | DirectoryNotEmpty
  | InvalidArgument
  | MapError nat
  | SerializerError nat
  | ClientError nat
  | FilesystemException

type_synonym ('a, 'c) fop = "fsys \<times> 'c \<Rightarrow> (errc + 'a) \<times> (fsys \<times> 'c)"

definition ret :: "'a \<Rightarrow> ('a, 'c) fop" where
  "ret a s = (Inr a, s)"

definition fail :: "errc \<Rightarrow> ('a, 'c) fop" where
  "fail e s = (Inl e, s)"

definition andThen :: "('a, 'c) fop \<Rightarrow> ('a \<Rightarrow> ('b, 'c) fop) \<Rightarrow> ('b, 'c) fop" where
  "andThen m f s = (case m s of (Inl e, s') \<Rightarrow> (Inl e, s') | (Inr a, s') \<Rightarrow> f a s')"

definition look :: "(fsys \<Rightarrow> errc + 'a) \<Rightarrow> ('a, 'c) fop" where
  "look g s = (g (fst s), s)"

definition node_at :: "fsys \<Rightarrow> path \<Rightarrow> node option" where
  "node_at fs p = map_of (nodes fs) p"

definition put_node :: "path \<Rightarrow> node \<Rightarrow> fsys \<Rightarrow> fsys" where
  "put_node p n fs = fs\<lparr> nodes := AList.update p n (nodes fs) \<rparr>"

fun create_directories_from :: "path \<Rightarrow> path \<Rightarrow> fsys \<Rightarrow> errc + fsys" where
  "create_directories_from pre [] fs = Inr fs"
| "create_directories_from pre (c # cs) fs = (let p = pre @ [c] in
     case node_at fs p of
       Some (File _ _) \<Rightarrow> Inl NotADirectory
     | Some Directory \<Rightarrow> create_directories_from p cs fs
     | None \<Rightarrow> create_directories_from p cs (put_node p Directory fs))"

definition create_directories :: "path \<Rightarrow> (unit, 'c) fop" where
  "create_directories p s = (case create_directories_from [] p (fst s) of
       Inl e \<Rightarrow> (Inl e, s) | Inr fs \<Rightarrow> (Inr (), (fs, snd s)))"

definition remove_path :: "path \<Rightarrow> (unit, 'c) fop" where
  "remove_path p s = (case node_at (fst s) p of
       None \<Rightarrow> (Inr (), s)
     | Some (File _ _) \<Rightarrow> (Inr (), ((fst s)\<lparr> nodes := AList.delete p (nodes (fst s)) \<rparr>, snd s))
     | Some Directory \<Rightarrow> (if list_ex (\<lambda>(q, _). take (length p) q = p \<and> length p < length q) (nodes (fst s))
         then (Inl DirectoryNotEmpty, s)
         else (Inr (), ((fst s)\<lparr> nodes := AList.delete p (nodes (fst s)) \<rparr>, snd s))))"

section \<open>The parameters\<close>

record fileRecord =
  fr_path :: path
  fr_timeStamp :: string
  fr_sha2 :: string
  fr_size :: nat

record assetManifest =
  assetFileInfo :: fileRecord
  cacheFileInfo :: fileRecord

record env =
  map_source :: "fsys \<Rightarrow> path \<Rightarrow> errc option"
  map_sink :: "fsys \<Rightarrow> path \<Rightarrow> errc option"
  hash256_hex :: "bytes \<Rightarrow> string"
  encode :: "assetManifest \<Rightarrow> errc + bytes"
  decode :: "bytes \<Rightarrow> errc + assetManifest"
  uuid_str :: "nat \<Rightarrow> string"
  strftime_c :: "nat \<Rightarrow> string option"
  relative_to :: "path \<Rightarrow> path \<Rightarrow> errc + path"

type_synonym 'c load_fn = "bytes \<Rightarrow> 'c \<Rightarrow> errc option \<times> 'c"
type_synonym 'c save_fn = "'c \<Rightarrow> (errc + bytes) \<times> 'c"

section \<open>Records\<close>

definition GetTimeStamp :: "env \<Rightarrow> path \<Rightarrow> fsys \<Rightarrow> errc + string" where
  "GetTimeStamp e p fs = (case node_at fs p of
       None \<Rightarrow> Inl NoSuchFile
     | Some n \<Rightarrow> (case strftime_c e (case n of File _ t \<Rightarrow> t | Directory \<Rightarrow> 0) of
         None \<Rightarrow> Inl InvalidArgument
       | Some s \<Rightarrow> (if s = [] then Inl InvalidArgument else Inr s)))"

definition GetRecord :: "env \<Rightarrow> bool \<Rightarrow> path \<Rightarrow> fsys \<Rightarrow> errc + fileRecord" where
  "GetRecord e sha p fs = (case node_at fs p of
       Some (File bs t) \<Rightarrow> (case GetTimeStamp e p fs of
           Inl er \<Rightarrow> Inl er
         | Inr ts \<Rightarrow> (let r = \<lparr> fr_path = p, fr_timeStamp = ts, fr_sha2 = [], fr_size = length bs \<rparr> in
             if sha then (case map_source e fs p of Some er \<Rightarrow> Inl er
                          | None \<Rightarrow> Inr (r\<lparr> fr_sha2 := hash256_hex e bs \<rparr>))
             else Inr r))
     | _ \<Rightarrow> Inl NoSuchFile)"

section \<open>Loading and saving\<close>

definition content :: "fsys \<Rightarrow> path \<Rightarrow> bytes" where
  "content fs p = (case node_at fs p of Some (File bs _) \<Rightarrow> bs | _ \<Rightarrow> [])"

definition LoadBinary :: "env \<Rightarrow> bool \<Rightarrow> path \<Rightarrow> 'c load_fn \<Rightarrow> (fileRecord, 'c) fop" where
  "LoadBinary e sha p loadOp s = (case GetRecord e sha p (fst s) of
       Inl er \<Rightarrow> (Inl er, s)
     | Inr info \<Rightarrow> (case map_source e (fst s) (fr_path info) of
         Some er \<Rightarrow> (Inl er, s)
       | None \<Rightarrow> (case loadOp (content (fst s) (fr_path info)) (snd s) of
           (Some er, c) \<Rightarrow> (Inl er, (fst s, c))
         | (None, c) \<Rightarrow> (Inr info, (fst s, c)))))"

definition write_file :: "path \<Rightarrow> bytes \<Rightarrow> fsys \<Rightarrow> fsys" where
  "write_file p bs fs = put_node p (File bs (now fs)) fs"

definition touch_sink :: "path \<Rightarrow> fsys \<Rightarrow> fsys" where
  "touch_sink p fs = (case node_at fs p of None \<Rightarrow> write_file p [] fs | Some _ \<Rightarrow> fs)"

definition SaveBinary :: "env \<Rightarrow> bool \<Rightarrow> path \<Rightarrow> 'c save_fn \<Rightarrow> (fileRecord, 'c) fop" where
  "SaveBinary e sha p saveOp s = (case map_sink e (fst s) p of
       Some er \<Rightarrow> (Inl er, s)
     | None \<Rightarrow> (case saveOp (snd s) of
         (Inl er, c) \<Rightarrow> (Inl er, (touch_sink p (fst s), c))
       | (Inr bs, c) \<Rightarrow> (let fs = write_file p bs (fst s) in (GetRecord e sha p fs, (fs, c)))))"

section \<open>The manifest\<close>

datatype manifest_error = KMissing | KInvalidLocation | KInvalidSourceFile | KInvalidCacheFile | SystemError errc

definition record_matches :: "bool \<Rightarrow> (errc + fileRecord) \<Rightarrow> fileRecord \<Rightarrow> bool" where
  "record_matches sha actual r = (case actual of Inl _ \<Rightarrow> False
     | Inr a \<Rightarrow> fr_size a = fr_size r \<and> fr_timeStamp a = fr_timeStamp r \<and> (sha \<longrightarrow> fr_sha2 a = fr_sha2 r))"

definition LoadAssetManifest :: "env \<Rightarrow> bool \<Rightarrow> bytes \<Rightarrow> fsys \<Rightarrow> manifest_error + assetManifest" where
  "LoadAssetManifest e sha buffer fs = (case decode e buffer of
       Inl er \<Rightarrow> Inl (SystemError er)
     | Inr m \<Rightarrow> (if \<not> record_matches sha (GetRecord e sha (fr_path (assetFileInfo m)) fs) (assetFileInfo m)
         then Inl KInvalidSourceFile
         else if \<not> record_matches sha (GetRecord e sha (fr_path (cacheFileInfo m)) fs) (cacheFileInfo m)
         then Inl KInvalidCacheFile
         else Inr m))"

definition is_directory :: "fsys \<Rightarrow> path \<Rightarrow> bool" where
  "is_directory fs p = (node_at fs p = Some Directory)"

definition is_regular_file :: "fsys \<Rightarrow> path \<Rightarrow> bool" where
  "is_regular_file fs p = (case node_at fs p of Some (File _ _) \<Rightarrow> True | _ \<Rightarrow> False)"

definition make_directory :: "path \<Rightarrow> (unit, 'c) fop" where
  "make_directory p s = (if is_directory (fst s) p then (Inr (), s) else create_directories p s)"

definition throwing :: "('a, 'c) fop \<Rightarrow> ('a, 'c) fop" where
  "throwing m s = (case m s of (Inl e, s') \<Rightarrow> (Inl FilesystemException, s') | (Inr a, s') \<Rightarrow> (Inr a, s'))"

definition next_uuid :: "env \<Rightarrow> (string, 'c) fop" where
  "next_uuid e s = (Inr (uuid_str e (uuid_count (fst s))), ((fst s)\<lparr> uuid_count := uuid_count (fst s) + 1 \<rparr>, snd s))"

definition open_sink :: "env \<Rightarrow> path \<Rightarrow> (unit, 'c) fop" where
  "open_sink e p s = (case map_sink e (fst s) p of
       Some er \<Rightarrow> (Inl er, s) | None \<Rightarrow> (Inr (), (touch_sink p (fst s), snd s)))"

definition write_manifest :: "env \<Rightarrow> path \<Rightarrow> assetManifest \<Rightarrow> (assetManifest, 'c) fop" where
  "write_manifest e p m s = (case encode e m of
       Inl er \<Rightarrow> (Inl er, s)
     | Inr bs \<Rightarrow> (Inr m, (write_file p bs (fst s), snd s)))"

definition importSourceFile :: "env \<Rightarrow> path \<Rightarrow> path \<Rightarrow> path \<Rightarrow> 'c load_fn \<Rightarrow> 'c save_fn \<Rightarrow> (assetManifest, 'c) fop" where
  "importSourceFile e cacheDir manifestPath asset loadSource saveCache =
     andThen (next_uuid e) (\<lambda>uuid.
     andThen (make_directory (butlast manifestPath)) (\<lambda>_.
     andThen (open_sink e manifestPath) (\<lambda>_.
     andThen (LoadBinary e True asset loadSource) (\<lambda>a.
     andThen (SaveBinary e True (cacheDir @ [uuid]) saveCache) (\<lambda>c.
     write_manifest e manifestPath \<lparr> assetFileInfo = a, cacheFileInfo = c \<rparr>)))))"

definition manifest_path :: "env \<Rightarrow> path \<Rightarrow> path \<Rightarrow> path \<Rightarrow> string \<Rightarrow> errc + path" where
  "manifest_path e rootPath cacheDir asset hash = (case relative_to e asset rootPath of
       Inl er \<Rightarrow> Inl er | Inr r \<Rightarrow> Inr (cacheDir @ r @ [hash @ ''.manifest.bin'']))"

definition find_manifest :: "env \<Rightarrow> path \<Rightarrow> (manifest_error + assetManifest, 'c) fop" where
  "find_manifest e mp s = (if is_regular_file (fst s) mp
     then (case map_source e (fst s) mp of
         Some er \<Rightarrow> (Inl er, s)
       | None \<Rightarrow> (Inr (LoadAssetManifest e False (content (fst s) mp) (fst s)), s))
     else (Inr (Inl KMissing), s))"

definition LoadAsset :: "env \<Rightarrow> path \<Rightarrow> path \<Rightarrow> path \<Rightarrow> 'c load_fn \<Rightarrow> 'c load_fn \<Rightarrow> 'c save_fn \<Rightarrow> string \<Rightarrow> (fileRecord, 'c) fop" where
  "LoadAsset e rootPath cacheDir asset loadSource loadCache saveCache hash =
     andThen (throwing (make_directory cacheDir)) (\<lambda>_.
     andThen (look (\<lambda>_. manifest_path e rootPath cacheDir asset hash)) (\<lambda>mp.
     andThen (find_manifest e mp) (\<lambda>found.
     case found of
       Inr m \<Rightarrow> LoadBinary e False (fr_path (cacheFileInfo m)) loadCache
     | Inl _ \<Rightarrow>
         andThen (remove_path mp) (\<lambda>_.
         andThen (importSourceFile e cacheDir mp asset loadSource saveCache) (\<lambda>m.
         ret (cacheFileInfo m))))))"

end
