(* ===== verification/Model_Loading.thy ===== *)
theory Model_Loading
imports Vertex_Memory Vulkan_Utils File_Assets
begin

text \<open>
  Loading a model (\<open>rhi/vulkan/model.cpp\<close>, \<open>rhi/model.h\<close>, \<open>gfx/bounds.h\<close>): the import of a Wavefront file into
  a vertex and an index buffer without duplicate vertices, the binding description of its attributes, and the
  binary form that the asset cache keeps. What the repository does not hold is the argument \<open>model_env\<close>: tinyobjloader
  (\<open>me_obj\<close>), XXH64, the zpp::bits encoding, the driver, and the arithmetic on floats (\<open>1 - x\<close> of the language,
  \<open>min\<close> and \<open>max\<close> of glm), which works on their 32 bits. \<open>progress\<close> only informs the user and is left out.
\<close>

section \<open>Bounds\<close>

record bounds3 =
  myMin :: "u32 list"
  myMax :: "u32 list"

definition bounds3_zero :: bounds3 where
  "bounds3_zero = \<lparr> myMin = [0, 0, 0], myMax = [0, 0, 0] \<rparr>"

definition Bounds_Merge :: "(u32 \<Rightarrow> u32 \<Rightarrow> u32) \<Rightarrow> (u32 \<Rightarrow> u32 \<Rightarrow> u32) \<Rightarrow> u32 list \<Rightarrow> bounds3 \<Rightarrow> bounds3" where
  "Bounds_Merge fmin fmax point b = b\<lparr> myMin := map2 fmin (myMin b) point, myMax := map2 fmax (myMax b) point \<rparr>"

section \<open>What a model is made of\<close>

record vertex_attribute =
  at_location :: u32
  at_binding :: u32
  at_format :: vk_format
  at_offset :: u32

record model_desc =
  md_bounds :: bounds3
  md_indexCount :: u32
  md_vertexCount :: u32
  md_attributes :: "vertex_attribute list"

definition model_desc_default :: model_desc where
  "model_desc_default = \<lparr> md_bounds = bounds3_zero, md_indexCount = 0, md_vertexCount = 0, md_attributes = [] \<rparr>"

text \<open>\<open>VertexP3fN3fT014fC4f\<close>: four members of 16 bytes.\<close>

definition offset_position :: nat where "offset_position = 0"
definition offset_normal :: nat where "offset_normal = 16"
definition offset_texCoord01 :: nat where "offset_texCoord01 = 32"
definition offset_color :: nat where "offset_color = 48"
definition sizeof_vertex :: nat where "sizeof_vertex = 64"

section \<open>The binding description of the attributes\<close>

text \<open>The ordered map from locations to formats and offsets: the last attribute of a location wins.\<close>

definition attribute_map :: "vertex_attribute list \<Rightarrow> (u32 \<times> vk_format \<times> u32) list" where
  "attribute_map attrs = sort_key fst (fold (\<lambda>a m. AList.update (at_location a) (at_format a, at_offset a) m) attrs [])"

fun input_stride :: "int \<Rightarrow> u32 \<Rightarrow> u32 \<Rightarrow> u32 \<Rightarrow> (u32 \<times> vk_format \<times> u32) list \<Rightarrow> u32 option" where
  "input_stride lastLocation lastOffset lastSize stride [] = Some stride"
| "input_stride lastLocation lastOffset lastSize stride ((location, form, offset) # m) =
     (if uint location \<noteq> lastLocation + 1 then None
      else if offset < lastOffset + lastSize then None
      else let s = of_nat (fst (GetFormatSize form)) in input_stride (uint location) offset s (offset + s) m)"

text \<open>Binding number, stride and input rate (0 is per vertex).\<close>

definition CalculateInputBindingDescriptions :: "vertex_attribute list \<Rightarrow> (u32 \<times> u32 \<times> nat) list" where
  "CalculateInputBindingDescriptions attrs = (case input_stride (- 1) 0 0 0 (attribute_map attrs) of
       None \<Rightarrow> [] | Some stride \<Rightarrow> [(0, stride, 0)])"

section \<open>Importing a Wavefront file\<close>

record obj_attrib =
  oa_vertices :: "u32 list"
  oa_normals :: "u32 list"
  oa_texcoords :: "u32 list"
  oa_colors :: "u32 list"

record obj_index =
  vertex_index :: int
  normal_index :: int
  texcoord_index :: int

record codec =
  put_desc :: "model_desc \<Rightarrow> errc + bytes"
  get_desc :: "bytes \<Rightarrow> errc + (model_desc \<times> bytes)"
  put_span :: "bytes \<Rightarrow> errc + bytes"
  get_span :: "nat \<Rightarrow> bytes \<Rightarrow> errc + (bytes \<times> bytes)"

record model_env =
  me_obj :: "path \<Rightarrow> (obj_attrib \<times> obj_index list list) option"
  me_XXH64 :: "bytes \<Rightarrow> u64 \<Rightarrow> u64"
  me_one_minus :: "u32 \<Rightarrow> u32"
  me_min :: "u32 \<Rightarrow> u32 \<Rightarrow> u32"
  me_max :: "u32 \<Rightarrow> u32 \<Rightarrow> u32"
  me_codec :: codec
  me_driver :: driver

definition add_attribute :: "bool \<Rightarrow> vk_format \<Rightarrow> nat \<Rightarrow> vertex_attribute list \<Rightarrow> vertex_attribute list" where
  "add_attribute absent form offset attrs = (if absent then attrs else attrs @
     [\<lparr> at_location = of_nat (length attrs), at_binding = 0, at_format = form, at_offset = of_nat offset \<rparr>])"

definition obj_attributes :: "obj_attrib \<Rightarrow> vertex_attribute list \<Rightarrow> vertex_attribute list" where
  "obj_attributes att attrs =
     add_attribute (oa_colors att = []) FORMAT_R32G32B32A32_SFLOAT offset_color
    (add_attribute (oa_texcoords att = []) FORMAT_R32G32B32A32_SFLOAT offset_texCoord01
    (add_attribute (oa_normals att = []) FORMAT_R32G32B32_SFLOAT offset_normal
    (add_attribute (oa_vertices att = []) FORMAT_R32G32B32_SFLOAT offset_position attrs)))"

text \<open>\<open>3UL * i\<close>: a negative index is converted to 64 bits without sign first.\<close>

definition scaled :: "u64 \<Rightarrow> int \<Rightarrow> nat" where
  "scaled k i = unat (k * word_of_int i)"

definition three_of :: "u32 list \<Rightarrow> int \<Rightarrow> u32 list res" where
  "three_of xs i = (if scaled 3 i + 3 \<le> length xs then Inr (take 3 (drop (scaled 3 i) xs)) else Inl Undefined)"

definition uvs_of :: "(u32 \<Rightarrow> u32) \<Rightarrow> u32 list \<Rightarrow> int \<Rightarrow> u32 list res" where
  "uvs_of one_minus xs i = bind_res (idx xs (scaled 2 i)) (\<lambda>u.
     bind_res (idx xs (unat (2 * word_of_int i + 1 :: u64))) (\<lambda>v. Inr [u, one_minus v]))"

definition copy_attribute :: "bool \<Rightarrow> u32 list res \<Rightarrow> nat option \<Rightarrow> nat \<Rightarrow> vertex_allocator \<Rightarrow> vertex_allocator res" where
  "copy_attribute absent xs ptr offset a = (if absent then Inr a else bind_res xs (\<lambda>fs. store_floats ptr offset fs a))"

record import_state =
  is_vertices :: vertex_allocator
  is_unique :: "(u64 \<times> u32) list"
  is_indices :: "u32 list"
  is_bounds :: bounds3

definition vertex_position :: "nat option \<Rightarrow> vertex_allocator \<Rightarrow> u32 list" where
  "vertex_position ptr a = (case ptr of None \<Rightarrow> [] | Some p \<Rightarrow> floats_at (va_data a) (p + offset_position) 3)"

definition fill_vertex :: "model_env \<Rightarrow> obj_attrib \<Rightarrow> obj_index \<Rightarrow> nat option \<Rightarrow> vertex_allocator \<Rightarrow> vertex_allocator res" where
  "fill_vertex E att i ptr a =
     bind_res (copy_attribute (oa_vertices att = []) (three_of (oa_vertices att) (vertex_index i)) ptr offset_position a) (\<lambda>a1.
     bind_res (copy_attribute (oa_normals att = []) (three_of (oa_normals att) (normal_index i)) ptr offset_normal a1) (\<lambda>a2.
     bind_res (copy_attribute (oa_texcoords att = []) (uvs_of (me_one_minus E) (oa_texcoords att) (texcoord_index i))
       ptr offset_texCoord01 a2) (\<lambda>a3.
     copy_attribute (oa_colors att = []) (three_of (oa_colors att) (vertex_index i)) ptr offset_color a3)))"

definition import_index :: "model_env \<Rightarrow> obj_attrib \<Rightarrow> obj_index \<Rightarrow> import_state \<Rightarrow> import_state res" where
  "import_index E att i s = (let (ptr, a) = va_Allocate 1 (is_vertices s) in
     bind_res (fill_vertex E att i ptr a) (\<lambda>a1.
     bind_res (Vertex_Hash (me_XXH64 E) ptr a1) (\<lambda>h.
     case map_of (is_unique s) h of
       None \<Rightarrow> bind_res (va_Size a1) (\<lambda>n. let k = of_nat (n - 1) in
         Inr (s\<lparr> is_vertices := a1, is_unique := AList.update h k (is_unique s), is_indices := is_indices s @ [k],
              is_bounds := (if oa_vertices att = [] then is_bounds s
                            else Bounds_Merge (me_min E) (me_max E) (vertex_position ptr a1) (is_bounds s)) \<rparr>))
     | Some k \<Rightarrow> bind_res (va_Free ptr 1 a1) (\<lambda>a2.
         Inr (s\<lparr> is_vertices := a2, is_indices := is_indices s @ [k] \<rparr>)))))"

definition import_start :: "bounds3 \<Rightarrow> import_state" where
  "import_start b = \<lparr> is_vertices = va_Lock (SetStride sizeof_vertex vertex_allocator_new), is_unique = [], is_indices = [],
     is_bounds = b \<rparr>"

definition import_shapes :: "model_env \<Rightarrow> obj_attrib \<Rightarrow> obj_index list list \<Rightarrow> bounds3 \<Rightarrow> import_state res" where
  "import_shapes E att shapes b = fold_res (fold_res (import_index E att)) shapes (import_start b)"

section \<open>The two staging buffers\<close>

text \<open>The handles of the buffers and their memory, what the mapped memory holds, and the description.\<close>

record model_load =
  lo_calls :: vk
  lo_host :: "(nat \<times> bytes) list"
  lo_ib :: "nat \<times> nat"
  lo_vb :: "nat \<times> nat"
  lo_desc :: model_desc

definition model_load_new :: "vk \<Rightarrow> model_load" where
  "model_load_new v = \<lparr> lo_calls = v, lo_host = [], lo_ib = (0, 0), lo_vb = (0, 0), lo_desc = model_desc_default \<rparr>"

definition filename :: "path \<Rightarrow> string" where
  "filename p = (if p = [] then [] else last p)"

definition staging :: "model_env \<Rightarrow> nat \<Rightarrow> string \<Rightarrow> model_load \<Rightarrow> (nat \<times> nat) \<times> model_load" where
  "staging E n name s = (let (bm, v) = CreateBuffer (me_driver E) n {UsageTransferSrc} {HostVisible, HostCoherent} name (lo_calls s)
     in (bm, s\<lparr> lo_calls := v \<rparr>))"

definition host_write :: "nat \<Rightarrow> bytes \<Rightarrow> model_load \<Rightarrow> model_load" where
  "host_write memory bs s = s\<lparr> lo_host := AList.update memory bs (lo_host s) \<rparr>"

definition host_read :: "nat \<Rightarrow> nat \<Rightarrow> model_load \<Rightarrow> bytes res" where
  "host_read memory n s = (case map_of (lo_host s) memory of
       None \<Rightarrow> Inl Undefined
     | Some bs \<Rightarrow> (if n \<le> length bs then Inr (take n bs) else Inl Undefined))"

definition ib_size :: "model_load \<Rightarrow> nat" where
  "ib_size s = unat (md_indexCount (lo_desc s)) * 4"

definition vb_size :: "model_load \<Rightarrow> nat" where
  "vb_size s = unat (md_vertexCount (lo_desc s)) * sizeof_vertex"

type_synonym 'a model_op = "model_load \<Rightarrow> ((errc + 'a) \<times> model_load) res"


text \<open>An error of the codec leaves the buffers made so far without their handles in the result.\<close>

definition decoded :: "errc + ('a \<times> bytes) \<Rightarrow> model_load \<Rightarrow> ('a \<Rightarrow> bytes \<Rightarrow> unit model_op) \<Rightarrow> ((errc + unit) \<times> model_load) res" where
  "decoded r s f = (case r of Inl e \<Rightarrow> Inr (Inl e, s) | Inr (a, rest) \<Rightarrow> f a rest s)"

definition loadBin :: "model_env \<Rightarrow> path \<Rightarrow> bytes \<Rightarrow> unit model_op" where
  "loadBin E modelFile inStream s = decoded (get_desc (me_codec E) inStream) s (\<lambda>desc rest s0.
     let s1 = s0\<lparr> lo_desc := desc \<rparr>; (ib, s2) = staging E (ib_size s1) (filename modelFile @ ''_staging_ib'') s1
     in decoded (get_span (me_codec E) (ib_size s2) rest) s2 (\<lambda>ibData rest' s3.
       let s4 = (host_write (snd ib) ibData s3)\<lparr> lo_ib := ib \<rparr>;
           (vb, s5) = staging E (vb_size s4) (filename modelFile @ ''_staging_vb'') s4
       in decoded (get_span (me_codec E) (vb_size s5) rest') s5 (\<lambda>vbData rest'' s6.
         Inr (Inr (), (host_write (snd vb) vbData s6)\<lparr> lo_vb := vb \<rparr>))))"

definition saveBin :: "model_env \<Rightarrow> bytes model_op" where
  "saveBin E s = (case put_desc (me_codec E) (lo_desc s) of Inl e \<Rightarrow> Inr (Inl e, s) | Inr b1 \<Rightarrow>
     bind_res (host_read (snd (lo_ib s)) (ib_size s) s) (\<lambda>ibData. case put_span (me_codec E) ibData of Inl e \<Rightarrow> Inr (Inl e, s) | Inr b2 \<Rightarrow>
     bind_res (host_read (snd (lo_vb s)) (vb_size s) s) (\<lambda>vbData. case put_span (me_codec E) vbData of Inl e \<Rightarrow> Inr (Inl e, s) | Inr b3 \<Rightarrow>
     Inr (Inr (b1 @ b2 @ b3), s))))"

definition memcpy_from :: "bytes \<Rightarrow> nat \<Rightarrow> bytes res" where
  "memcpy_from bs n = (if n \<le> length bs then Inr (take n bs) else Inl Undefined)"

definition loadOBJ :: "model_env \<Rightarrow> path \<Rightarrow> bytes \<Rightarrow> unit model_op" where
  "loadOBJ E modelFile inStream s = (case me_obj E modelFile of None \<Rightarrow> Inl EnsureFailed | Some (att, shapes) \<Rightarrow>
     bind_res (import_shapes E att shapes (md_bounds (lo_desc s))) (\<lambda>im.
     bind_res (va_Size (is_vertices im)) (\<lambda>n.
     let desc = \<lparr> md_bounds = is_bounds im, md_indexCount = of_nat (length (is_indices im)), md_vertexCount = of_nat n,
           md_attributes = obj_attributes att (md_attributes (lo_desc s)) \<rparr>;
         s1 = s\<lparr> lo_desc := desc \<rparr>;
         (ib, s2) = staging E (ib_size s1) (filename modelFile @ ''_staging_ib'') s1
     in bind_res (memcpy_from (concat (map le_bytes (is_indices im))) (ib_size s2)) (\<lambda>ibData.
     let s3 = (host_write (snd ib) ibData s2)\<lparr> lo_ib := ib \<rparr>;
         (vb, s4) = staging E (vb_size s3) (filename modelFile @ ''_staging_vb'') s3
     in bind_res (memcpy_from (va_data (is_vertices im)) (vb_size s4)) (\<lambda>vbData.
     Inr (Inr (), (host_write (snd vb) vbData s4)\<lparr> lo_vb := vb \<rparr>))))))"

section \<open>Through the asset cache\<close>

text \<open>A fault inside a callback ends the program: what \<open>LoadAsset\<close> would do with the error afterwards is dropped by
  \<open>model_Load\<close>.\<close>

definition as_load :: "(bytes \<Rightarrow> unit model_op) \<Rightarrow> model_load res load_fn" where
  "as_load f bs r = (case bind_res r (f bs) of
       Inl x \<Rightarrow> (Some (ClientError 0), Inl x)
     | Inr (Inl e, s) \<Rightarrow> (Some e, Inr s)
     | Inr (Inr _, s) \<Rightarrow> (None, Inr s))"

definition as_save :: "bytes model_op \<Rightarrow> model_load res save_fn" where
  "as_save f r = (case bind_res r f of
       Inl x \<Rightarrow> (Inl (ClientError 0), Inl x)
     | Inr (a, s) \<Rightarrow> (a, Inr s))"

definition model_params :: "env \<Rightarrow> string" where
  "model_params e = hash256_hex e (map of_char ''tinyobjloader-2.0.15'')"

definition model_Load :: "env \<Rightarrow> path \<Rightarrow> path \<Rightarrow> model_env \<Rightarrow> path \<Rightarrow> fsys \<times> vk \<Rightarrow> (model_load \<times> fsys) res" where
  "model_Load e rootPath cacheDir E modelFile st =
     (let (r, (fs, c)) = LoadAsset e rootPath cacheDir modelFile (as_load (loadOBJ E modelFile)) (as_load (loadBin E modelFile))
            (as_save (saveBin E)) (model_params e) (fst st, Inr (model_load_new (snd st)))
      in bind_res c (\<lambda>s. bind_res (ensure ((case r of Inl _ \<Rightarrow> False | Inr _ \<Rightarrow> True) \<and> fst (lo_vb s) \<noteq> 0 \<and> fst (lo_ib s) \<noteq> 0))
           (\<lambda>_. Inr (s, fs))))"

end
