(* ===== verification/Image_Model.thy ===== *)
theory Image_Model
imports Vulkan_Utils
begin

text \<open>
  \<open>Image\<close> and the image loader of \<open>rhi/vulkan/image.cpp\<close>: an image object tracks the layout and the
  aspects its handle is in, and records a barrier whenever a transition changes one of them; the loader
  lays the mip chain out in a staging buffer and compresses it block by block on several threads.
  32-bit sizes are natural numbers, wrapped where the code multiplies or adds.
\<close>

section \<open>Image objects\<close>

record mip_level =
  ml_width :: nat
  ml_height :: nat
  ml_size :: nat
  ml_offset :: nat

record image_desc =
  mipLevels :: "mip_level list"
  im_format :: vk_format
  im_tiling :: nat
  im_usage :: "usage set"
  im_memory :: "mem_flag set"
  im_aspects :: aspects
  im_initialLayout :: image_layout
  im_name :: string

definition image_desc_empty :: image_desc where
  "image_desc_empty = \<lparr> mipLevels = [], im_format = FORMAT_UNDEFINED, im_tiling = 0, im_usage = {}, im_memory = {},
     im_aspects = {}, im_initialLayout = LAYOUT_UNDEFINED, im_name = [] \<rparr>"

record image_obj =
  io_image :: nat
  io_memory :: nat
  io_layout :: image_layout
  io_aspects :: aspects
  io_desc :: image_desc

definition image_empty :: image_obj where
  "image_empty = \<lparr> io_image = 0, io_memory = 0, io_layout = LAYOUT_UNDEFINED, io_aspects = {}, io_desc = image_desc_empty \<rparr>"

definition first_level :: "image_desc \<Rightarrow> mip_level res" where
  "first_level desc = (case mipLevels desc of [] \<Rightarrow> Inl Undefined | l # _ \<Rightarrow> Inr l)"

section \<open>Transitions and clears\<close>

definition all_aspects :: "vk_format \<Rightarrow> aspects" where
  "all_aspects f = (if HasColorComponent f then {ColorAspect}
     else (if HasDepthComponent f then {DepthAspect} else {}) \<union> (if HasStencilComponent f then {StencilAspect} else {}))"

definition Image_Transition :: "image_layout \<Rightarrow> aspects \<Rightarrow> image_obj \<Rightarrow> vk \<Rightarrow> image_obj \<times> vk" where
  "Image_Transition layout aspectFlags io v =
     (let a = (if aspectFlags = {} then all_aspects (im_format (io_desc io)) else aspectFlags)
      in if io_layout io \<noteq> layout \<or> io_aspects io \<noteq> a
         then (io\<lparr> io_layout := layout, io_aspects := a \<rparr>,
               TransitionImageLayout (io_image io) (io_layout io) layout (length (mipLevels (io_desc io))) a v)
         else (io, v))"

text \<open>\<open>kDefaultRange\<close> is a static local: the aspects of the first image that was ever cleared.\<close>

definition Image_Clear :: "nat \<Rightarrow> aspects option \<Rightarrow> image_obj \<Rightarrow> aspects option \<Rightarrow> vk \<Rightarrow> (aspects option \<times> vk) res" where
  "Image_Clear val rng io kDefaultRange v =
     (let dflt = (case kDefaultRange of None \<Rightarrow> io_aspects io | Some a \<Rightarrow> a);
          a = (case rng of None \<Rightarrow> dflt | Some r \<Rightarrow> r)
      in if ColorAspect \<in> io_aspects io
         then Inr (Some dflt, v @ [CmdClearColorImage (io_image io) (io_layout io) val a])
         else if DepthAspect \<in> io_aspects io \<or> StencilAspect \<in> io_aspects io
         then Inr (Some dflt, v @ [CmdClearDepthStencilImage (io_image io) (io_layout io) val a])
         else Inl EnsureFailed)"

section \<open>Construction, moves, destruction\<close>

definition image_CreateImage2D :: "driver \<Rightarrow> image_desc \<Rightarrow> vk \<Rightarrow> ((nat \<times> nat) \<times> vk) res" where
  "image_CreateImage2D d desc v = bind_res (first_level desc) (\<lambda>l.
     Inr (CreateImage2D d (ml_width l) (ml_height l) (length (mipLevels desc)) (im_format desc) (im_tiling desc)
            (im_usage desc) (im_memory desc) (im_name desc) (im_initialLayout desc) v))"

text \<open>The words of the mip levels, from the offset of the first one: four per level.\<close>

definition level_words :: "mip_level list \<Rightarrow> nat \<Rightarrow> nat res" where
  "level_words ls w = (let i = (w + 3) div 4 in
     if i < length ls
     then Inr ([ml_width (ls ! i), ml_height (ls ! i), ml_size (ls ! i), ml_offset (ls ! i)] ! ((w + 3) mod 4))
     else Inl Undefined)"

definition image_CreateImage2D_staged :: "driver \<Rightarrow> nat \<Rightarrow> image_desc \<Rightarrow> vk \<Rightarrow> ((nat \<times> nat) \<times> vk) res" where
  "image_CreateImage2D_staged d buffer desc v = bind_res (first_level desc) (\<lambda>l.
     CreateImage2D_staged d buffer (ml_width l) (ml_height l) (length (mipLevels desc)) (level_words (mipLevels desc)) 4
       (im_format desc) (im_tiling desc) (im_usage desc) (im_memory desc) (im_aspects desc) (im_name desc)
       (im_initialLayout desc) v)"

definition Image_new :: "driver \<Rightarrow> image_desc \<Rightarrow> vk \<Rightarrow> (image_obj \<times> vk) res" where
  "Image_new d desc v = bind_res (image_CreateImage2D d desc v) (\<lambda>((img, memory), v').
     Inr (\<lparr> io_image = img, io_memory = memory, io_layout = im_initialLayout desc, io_aspects = im_aspects desc,
            io_desc = desc \<rparr>, v'))"

text \<open>The image that is filled from a buffer, and the task that frees the buffer later.\<close>

definition Image_upload :: "driver \<Rightarrow> nat \<Rightarrow> image_desc \<Rightarrow> vk \<Rightarrow> (image_obj \<times> vk_call list \<times> vk) res" where
  "Image_upload d buffer desc v = bind_res (image_CreateImage2D_staged d buffer desc v) (\<lambda>((img, memory), v').
     Inr (\<lparr> io_image = img, io_memory = memory, io_layout = im_initialLayout desc, io_aspects = im_aspects desc,
            io_desc = desc \<rparr>, [DestroyBufferCall buffer], v'))"

definition Image_from_data :: "driver \<Rightarrow> image_desc \<Rightarrow> u8 list \<Rightarrow> nat \<Rightarrow> vk \<Rightarrow> (image_obj \<times> vk_call list \<times> vk) res" where
  "Image_from_data d desc initialData initialDataSize v =
     bind_res (CreateStagingBuffer d initialData initialDataSize (im_name desc) v) (\<lambda>((buffer, memory), v').
       Image_upload d buffer desc v')"

text \<open>The move constructor leaves an empty image behind; assignment leaves the old handle there, for
  the destructor of the source to free.\<close>

definition Image_move :: "image_obj \<Rightarrow> image_obj \<times> image_obj" where
  "Image_move other = (other, image_empty)"

definition Image_assign :: "image_obj \<Rightarrow> image_obj \<Rightarrow> image_obj \<times> image_obj" where
  "Image_assign this other = (other, this\<lparr> io_desc := image_desc_empty \<rparr>)"

definition Image_destroy :: "image_obj \<Rightarrow> vk \<Rightarrow> vk" where
  "Image_destroy io v = (if io_image io \<noteq> 0 then v @ [DestroyImageCall (io_image io)] else v)"

section \<open>The mip chain of a loaded image\<close>

definition wrap32 :: "nat \<Rightarrow> nat" where
  "wrap32 x = x mod 2 ^ 32"

text \<open>\<open>RoundUp\<close> of \<open>core/math.cpp\<close>.\<close>

definition RoundUp :: "nat \<Rightarrow> nat \<Rightarrow> nat" where
  "RoundUp numToRound multiple =
     (if multiple = 0 then numToRound
      else if numToRound mod multiple = 0 then numToRound
      else wrap32 (numToRound + multiple - numToRound mod multiple))"

fun floor_log2 :: "nat \<Rightarrow> nat" where
  "floor_log2 n = (if n < 2 then 0 else Suc (floor_log2 (n div 2)))"

declare floor_log2.simps [simp del]

definition mip_size :: "bool \<Rightarrow> nat \<Rightarrow> nat \<Rightarrow> nat" where
  "mip_size hasAlpha w h = (let s = wrap32 (RoundUp w 4 * RoundUp h 4) in if hasAlpha then s else s div 2)"

fun mip_levels :: "bool \<Rightarrow> nat \<Rightarrow> nat \<Rightarrow> nat \<Rightarrow> nat list \<Rightarrow> mip_level list \<times> nat" where
  "mip_levels hasAlpha width height mipOffset [] = ([], mipOffset)"
| "mip_levels hasAlpha width height mipOffset (mipIt # its) =
     (let w = width div 2 ^ mipIt; h = height div 2 ^ mipIt; s = mip_size hasAlpha w h;
          (ls, total') = mip_levels hasAlpha width height (wrap32 (mipOffset + s)) its
      in (\<lparr> ml_width = w, ml_height = h, ml_size = s, ml_offset = mipOffset \<rparr> # ls, total'))"

definition mip_count :: "nat \<Rightarrow> nat \<Rightarrow> nat" where
  "mip_count width height = floor_log2 (max width height) + 1"

definition load_levels :: "bool \<Rightarrow> nat \<Rightarrow> nat \<Rightarrow> mip_level list \<times> nat" where
  "load_levels hasAlpha width height = mip_levels hasAlpha width height 0 [0..<mip_count width height]"

definition load_format :: "nat \<Rightarrow> vk_format" where
  "load_format channelCount = (if channelCount = 4 then FORMAT_BC3_UNORM else FORMAT_BC1_RGB_UNORM)"

definition compressed_block_size :: "bool \<Rightarrow> nat" where
  "compressed_block_size hasAlpha = (if hasAlpha then 16 else 8)"

definition block_count :: "mip_level \<Rightarrow> nat" where
  "block_count l = wrap32 ((ml_height l div 4) * (ml_width l div 4))"

section \<open>Compressing the blocks of a level\<close>

text \<open>The four rows of a block; \<open>dxt\<close> is \<open>stb_compress_dxt_block\<close>. Rows are bytes of 4 per pixel.\<close>

definition extractBlock :: "u8 list \<Rightarrow> nat \<Rightarrow> nat \<Rightarrow> u8 list res" where
  "extractBlock src at width =
     (if at + 3 * (width * 4) + 16 \<le> length src
      then Inr (concat (map (\<lambda>rowIt. take 16 (drop (at + rowIt * (width * 4)) src)) [0..<4]))
      else Inl Undefined)"

definition src_offset :: "mip_level \<Rightarrow> nat \<Rightarrow> nat" where
  "src_offset l blockIt = (let blockColCount = ml_width l div 4;
     rowIt = 4 * (blockIt div blockColCount); colIt = 4 * (blockIt mod blockColCount)
     in wrap32 ((rowIt * ml_width l + colIt) * 4))"

definition compress_block ::
  "(bool \<Rightarrow> u8 list \<Rightarrow> u8 list) \<Rightarrow> bool \<Rightarrow> u8 list \<Rightarrow> mip_level \<Rightarrow> nat \<Rightarrow> nat \<Rightarrow> u8 option list \<Rightarrow> u8 option list res" where
  "compress_block dxt hasAlpha src l dst blockIt buf =
     bind_res (extractBlock src (src_offset l blockIt) (ml_width l)) (\<lambda>block.
       let out = dxt hasAlpha block; o' = dst + wrap32 (blockIt * compressed_block_size hasAlpha)
       in if o' + length out \<le> length buf
          then Inr (take o' buf @ map Some out @ drop (o' + length out) buf) else Inl Undefined)"

text \<open>The threads of \<open>for_each_n\<close>: each fetches the next block number from \<open>blockAtomic\<close>, and stops at
  the first one past the end. A run is the list of the threads that take the next step.\<close>

datatype block_worker = WorkerStart | WorkerAt nat | WorkerDone

record compress_state =
  blockAtomic :: nat
  block_workers :: "block_worker list"
  compressed :: "nat list"

definition fetch_block :: "nat \<Rightarrow> nat \<Rightarrow> compress_state \<Rightarrow> compress_state" where
  "fetch_block blockCount t s = s\<lparr> blockAtomic := wrap32 (blockAtomic s + 1),
     block_workers := (block_workers s)[t := (if blockAtomic s < blockCount then WorkerAt (blockAtomic s) else WorkerDone)] \<rparr>"

definition block_worker_step :: "nat \<Rightarrow> nat \<Rightarrow> compress_state \<Rightarrow> compress_state option" where
  "block_worker_step blockCount t s = (if t < length (block_workers s) then (case block_workers s ! t of
       WorkerStart \<Rightarrow> Some (fetch_block blockCount t s)
     | WorkerAt b \<Rightarrow> Some (fetch_block blockCount t (s\<lparr> compressed := compressed s @ [b] \<rparr>))
     | WorkerDone \<Rightarrow> None) else None)"

fun block_worker_run :: "nat \<Rightarrow> nat list \<Rightarrow> compress_state \<Rightarrow> compress_state option" where
  "block_worker_run blockCount [] s = Some s"
| "block_worker_run blockCount (t # ts) s = Option.bind (block_worker_step blockCount t s) (block_worker_run blockCount ts)"

definition compress_start :: "nat \<Rightarrow> compress_state" where
  "compress_start threadCount = \<lparr> blockAtomic = 0, block_workers = replicate threadCount WorkerStart, compressed = [] \<rparr>"

text \<open>A level compressed in some order of its blocks.\<close>

fun compress_in_order ::
  "(bool \<Rightarrow> u8 list \<Rightarrow> u8 list) \<Rightarrow> bool \<Rightarrow> u8 list \<Rightarrow> mip_level \<Rightarrow> nat \<Rightarrow> nat list \<Rightarrow> u8 option list \<Rightarrow> u8 option list res" where
  "compress_in_order dxt hasAlpha src l dst [] buf = Inr buf"
| "compress_in_order dxt hasAlpha src l dst (b # bs) buf =
     bind_res (compress_block dxt hasAlpha src l dst b buf) (compress_in_order dxt hasAlpha src l dst bs)"

text \<open>The levels one after the other: the destination moves on by the bytes the blocks take, and
  \<open>resize\<close> stands for \<open>stbir_resize_uint8_linear\<close> from one level to the next.\<close>

definition mip_buffer_size :: "mip_level \<Rightarrow> nat" where
  "mip_buffer_size l = max (ml_width l) 4 * max (ml_height l) 4 * 4"

fun compress_levels ::
  "(bool \<Rightarrow> u8 list \<Rightarrow> u8 list) \<Rightarrow> (u8 list \<Rightarrow> mip_level \<Rightarrow> mip_level \<Rightarrow> u8 list) \<Rightarrow> bool \<Rightarrow> u8 list \<Rightarrow> mip_level \<Rightarrow> mip_level list
     \<Rightarrow> nat \<Rightarrow> u8 option list \<Rightarrow> (nat \<times> u8 option list) res" where
  "compress_levels dxt resize hasAlpha src l ls dst buf =
     bind_res (compress_in_order dxt hasAlpha src l dst [0..<block_count l] buf) (\<lambda>buf'.
       let dst' = dst + wrap32 (block_count l * compressed_block_size hasAlpha)
       in case ls of [] \<Rightarrow> Inr (dst', buf')
          | l' # ls' \<Rightarrow> compress_levels dxt resize hasAlpha (resize src l l') l' ls' dst' buf')"

definition compress_image ::
  "(bool \<Rightarrow> u8 list \<Rightarrow> u8 list) \<Rightarrow> (u8 list \<Rightarrow> mip_level \<Rightarrow> mip_level \<Rightarrow> u8 list) \<Rightarrow> bool \<Rightarrow> nat \<Rightarrow> nat \<Rightarrow> u8 list
     \<Rightarrow> (nat \<times> u8 option list) res" where
  "compress_image dxt resize hasAlpha width height pixels =
     (let (ls, total') = load_levels hasAlpha width height
      in compress_levels dxt resize hasAlpha pixels (hd ls) (tl ls) 0 (replicate total' None))"

end
