(* ===== verification/Render_Target.thy ===== *)
theory Render_Target
imports Image_Model
begin

text \<open>
  \<open>RenderTarget\<close> (\<open>rhi/vulkan/rendertarget.cpp\<close>) and its two kinds: \<open>Frame\<close>, one swapchain image whose
  layout the frame tracks itself, and \<open>RenderImageSet\<close>, whose images track their layouts. The virtual
  functions a render target calls on itself (\<open>GetRenderTargetDesc\<close>, \<open>GetLayout\<close>, \<open>Transition\<close>) are the
  fields of a class record, which each kind fills. Clear values, filters and subresources are opaque
  numbers; pointers into a target's own vectors are copies of what they point to when they are used.
\<close>

section \<open>State\<close>

record rt_desc =
  rtd_width :: nat
  rtd_height :: nat
  imageFormats :: "vk_format list"
  imageLayouts :: "image_layout list"
  imageAspectFlags :: "aspects list"
  rtd_images :: "nat list"
  clearValues :: "nat list"
  layerCount :: nat
  useDynamicRendering :: bool

text \<open>The default clear values, a colour and a depth.\<close>

definition rt_desc_default :: rt_desc where
  "rt_desc_default = \<lparr> rtd_width = 0, rtd_height = 0, imageFormats = [], imageLayouts = [], imageAspectFlags = [],
     rtd_images = [], clearValues = [0, 1], layerCount = 1, useDynamicRendering = True \<rparr>"

record rendering_inheritance =
  inh_secondary :: bool
  inh_colorFormats :: "vk_format list"
  inh_depthFormat :: vk_format
  inh_stencilFormat :: vk_format

datatype begin_info =
    DynamicRenderingInfo rendering_info rendering_inheritance
  | RenderPassBeginInfo pass_begin_info

record pipeline_rendering_info =
  pri_colorFormats :: "vk_format list"
  pri_depthFormat :: vk_format
  pri_stencilFormat :: vk_format

record render_target =
  attachments :: "nat list"
  attachmentDescs :: "attachment_desc list"
  attachmentRefs :: "attachment_ref list"
  subPassDescs :: "subpass_desc list"
  subPassDeps :: "subpass_dep list"
  beginInfo :: "begin_info option"
  pipelineRenderingInfo :: "pipeline_rendering_info option"
  colorInfos :: "attachment_info list"
  depthInfo :: "attachment_info option"
  stencilInfo :: "attachment_info option"
  colorFormats :: "vk_format list"
  depthFormat :: "vk_format option"
  stencilFormat :: "vk_format option"
  passCache :: "(u64 \<times> nat \<times> nat) list"

definition render_target_empty :: render_target where
  "render_target_empty = \<lparr> attachments = [], attachmentDescs = [], attachmentRefs = [], subPassDescs = [], subPassDeps = [],
     beginInfo = None, pipelineRenderingInfo = None, colorInfos = [], depthInfo = None, stencilInfo = None,
     colorFormats = [], depthFormat = None, stencilFormat = None, passCache = [] \<rparr>"

section \<open>Construction\<close>

definition depth_only :: "aspects \<Rightarrow> aspects" where
  "depth_only a = (if a = {DepthAspect, StencilAspect} then {DepthAspect} else a)"

definition init_attachment :: "driver \<Rightarrow> rt_desc \<Rightarrow> nat \<Rightarrow> render_target \<times> vk \<Rightarrow> (render_target \<times> vk) res" where
  "init_attachment d desc i = (\<lambda>(rt, v).
     bind_res (idx (imageFormats desc) i) (\<lambda>fmt. bind_res (idx (rtd_images desc) i) (\<lambda>img.
     bind_res (idx (imageAspectFlags desc) i) (\<lambda>asp. bind_res (idx (imageLayouts desc) i) (\<lambda>lay.
       let finalLayout = (if HasColorComponent fmt then LAYOUT_COLOR_ATTACHMENT else LAYOUT_DEPTH_STENCIL_ATTACHMENT);
           (view, v1) = CreateImageView2D d 0 img fmt asp 1 v
       in Inr (rt\<lparr> attachments := attachments rt @ [view],
            attachmentDescs := attachmentDescs rt @ [\<lparr> ad_format = fmt, ad_loadOp = LoadOpDontCare, ad_storeOp = StoreOpDontCare,
              ad_stencilLoadOp = LoadOpDontCare, ad_stencilStoreOp = StoreOpDontCare, ad_initialLayout = lay,
              ad_finalLayout = finalLayout \<rparr>],
            attachmentRefs := attachmentRefs rt @ [\<lparr> ar_attachment = i, ar_layout = finalLayout, ar_aspects = depth_only asp \<rparr>] \<rparr>, v1))))))"

definition InternalInitializeAttachments :: "driver \<Rightarrow> rt_desc \<Rightarrow> render_target \<times> vk \<Rightarrow> (render_target \<times> vk) res" where
  "InternalInitializeAttachments d desc = (\<lambda>(rt, v).
     bind_res (fold_res (init_attachment d desc) [0..<length (rtd_images desc)] (rt\<lparr> attachments := [] \<rparr>, v)) (\<lambda>(rt1, v1).
     bind_res (ensure (length (rtd_images desc) = length (attachmentRefs rt1))) (\<lambda>_. Inr (rt1, v1))))"

definition AddSubpassDescription :: "subpass_desc \<Rightarrow> render_target \<Rightarrow> render_target" where
  "AddSubpassDescription sp rt = rt\<lparr> subPassDescs := subPassDescs rt @ [sp] \<rparr>"

definition AddSubpassDependency :: "subpass_dep \<Rightarrow> render_target \<Rightarrow> render_target" where
  "AddSubpassDependency dp rt = rt\<lparr> subPassDeps := subPassDeps rt @ [dp] \<rparr>"

definition ResetSubpasses :: "render_target \<Rightarrow> render_target" where
  "ResetSubpasses rt = rt\<lparr> subPassDescs := [], subPassDeps := [] \<rparr>"

definition InternalInitializeDefaultRenderPass :: "rt_desc \<Rightarrow> render_target \<Rightarrow> render_target" where
  "InternalInitializeDefaultRenderPass desc rt =
     (let hasDepth = list_ex HasDepthComponent (imageFormats desc);
          hasStencil = list_ex HasStencilComponent (imageFormats desc);
          n = length (attachmentRefs rt)
      in if hasDepth \<and> hasStencil
         then AddSubpassDependency \<lparr> sd_dstSubpass = 0,
                sd_srcStage = {ColorAttachmentOutputStage, EarlyFragmentTestsStage},
                sd_dstStage = {ColorAttachmentOutputStage, EarlyFragmentTestsStage},
                sd_srcAccess = {DepthStencilAttachmentRead},
                sd_dstAccess = {ColorAttachmentWrite, DepthStencilAttachmentWrite}, sd_byRegion = True \<rparr>
              (AddSubpassDescription \<lparr> sp_bindPoint = BindGraphics, sp_colorCount = n - 1, sp_colorAttachments = 0,
                sp_depthStencil = Some (n - 1) \<rparr> rt)
         else AddSubpassDependency \<lparr> sd_dstSubpass = 0, sd_srcStage = {ColorAttachmentOutputStage},
                sd_dstStage = {ColorAttachmentOutputStage}, sd_srcAccess = {}, sd_dstAccess = {ColorAttachmentWrite},
                sd_byRegion = False \<rparr>
              (AddSubpassDescription \<lparr> sp_bindPoint = BindGraphics, sp_colorCount = n, sp_colorAttachments = 0,
                sp_depthStencil = None \<rparr> rt))"

section \<open>The cache of render passes\<close>

text \<open>What is hashed: the attachments, the descriptions, the references, the subpasses with their
  dependencies, and the extent. \<open>hash\<close> is the 64-bit xxHash of the bytes.\<close>

type_synonym pass_key = "nat list \<times> attachment_desc list \<times> attachment_ref list \<times> subpass_desc list \<times> subpass_dep list \<times> nat \<times> nat"

definition pass_key_of :: "rt_desc \<Rightarrow> render_target \<Rightarrow> pass_key" where
  "pass_key_of desc rt = (attachments rt, attachmentDescs rt, attachmentRefs rt, subPassDescs rt, subPassDeps rt,
     rtd_width desc, rtd_height desc)"

definition InternalCreateRenderPassAndFrameBuffer :: "driver \<Rightarrow> rt_desc \<Rightarrow> render_target \<Rightarrow> vk \<Rightarrow> (nat \<times> nat) \<times> vk" where
  "InternalCreateRenderPassAndFrameBuffer d desc rt v =
     (let (renderPass, v1) = CreateRenderPass d (attachmentDescs rt) (subPassDescs rt) (subPassDeps rt) v;
          (frameBuffer, v2) = CreateFramebuffer d renderPass (attachments rt) (rtd_width desc) (rtd_height desc) (layerCount desc) v1
      in ((renderPass, frameBuffer), v2))"

definition InternalUpdateMap ::
  "driver \<Rightarrow> (pass_key \<Rightarrow> u64) \<Rightarrow> rt_desc \<Rightarrow> render_target \<Rightarrow> vk \<Rightarrow> (nat \<times> nat) \<times> render_target \<times> vk" where
  "InternalUpdateMap d hash desc rt v =
     (let key = hash (pass_key_of desc rt) in
      case map_of (passCache rt) key of
        Some rpfb \<Rightarrow> (rpfb, rt, v)
      | None \<Rightarrow> (let (rpfb, v1) = InternalCreateRenderPassAndFrameBuffer d desc rt v
                 in (rpfb, rt\<lparr> passCache := (key, rpfb) # passCache rt \<rparr>, v1)))"

definition RenderTarget_new :: "driver \<Rightarrow> (pass_key \<Rightarrow> u64) \<Rightarrow> rt_desc \<Rightarrow> vk \<Rightarrow> (render_target \<times> vk) res" where
  "RenderTarget_new d hash desc v =
     bind_res (InternalInitializeAttachments d desc (render_target_empty, v)) (\<lambda>(rt, v1).
       if useDynamicRendering desc then Inr (rt, v1)
       else Inr (snd (InternalUpdateMap d hash desc (InternalInitializeDefaultRenderPass desc rt) v1)))"

section \<open>Updating the attachments\<close>

definition update_layout :: "image_layout \<Rightarrow> nat \<Rightarrow> render_target \<Rightarrow> render_target" where
  "update_layout layout i rt = (let ad = attachmentDescs rt ! i in
     if layout \<noteq> ad_initialLayout ad
     then rt\<lparr> attachmentDescs := (attachmentDescs rt)[i := ad\<lparr> ad_initialLayout := layout \<rparr>] \<rparr> else rt)"

definition update_view ::
  "driver \<Rightarrow> nat \<Rightarrow> vk_format \<Rightarrow> aspects \<Rightarrow> nat \<Rightarrow> render_target \<times> vk \<Rightarrow> (render_target \<times> vk) res" where
  "update_view d img fmt asp i = (\<lambda>(rt, v). let ar = attachmentRefs rt ! i in
     if asp \<noteq> ar_aspects ar
     then bind_res (idx (attachments rt) i) (\<lambda>old.
       let v1 = (if old \<noteq> 0 then v @ [DestroyImageViewCall old] else v);
           (view, v2) = CreateImageView2D d 0 img fmt (depth_only asp) 1 v1
       in Inr (rt\<lparr> attachmentRefs := (attachmentRefs rt)[i := ar\<lparr> ar_aspects := depth_only asp \<rparr>],
                   attachments := (attachments rt)[i := view] \<rparr>, v2))
     else Inr (rt, v))"

definition update_attachment ::
  "driver \<Rightarrow> (nat \<Rightarrow> image_layout res) \<Rightarrow> rt_desc \<Rightarrow> nat \<Rightarrow> render_target \<times> vk \<Rightarrow> (render_target \<times> vk) res" where
  "update_attachment d getLayout desc i = (\<lambda>(rt, v).
     bind_res (idx (attachmentDescs rt) i) (\<lambda>_. bind_res (idx (attachmentRefs rt) i) (\<lambda>_.
     bind_res (getLayout i) (\<lambda>layout. bind_res (idx (imageAspectFlags desc) i) (\<lambda>asp.
     bind_res (idx (rtd_images desc) i) (\<lambda>img. bind_res (idx (imageFormats desc) i) (\<lambda>fmt.
       update_view d img fmt asp i (update_layout layout i rt, v))))))))"

definition attachment_info_of :: "nat \<Rightarrow> image_layout \<Rightarrow> attachment_desc \<Rightarrow> nat \<Rightarrow> attachment_info" where
  "attachment_info_of view layout ad clear =
     \<lparr> ai_view = view, ai_layout = layout, ai_loadOp = ad_loadOp ad, ai_storeOp = ad_storeOp ad, ai_clear = clear \<rparr>"

definition update_info :: "(nat \<Rightarrow> image_layout res) \<Rightarrow> rt_desc \<Rightarrow> nat \<Rightarrow> render_target \<Rightarrow> render_target res" where
  "update_info getLayout desc i rt =
     bind_res (idx (attachments rt) i) (\<lambda>view. bind_res (idx (attachmentDescs rt) i) (\<lambda>ad.
     bind_res (idx (clearValues desc) i) (\<lambda>clear. bind_res (getLayout i) (\<lambda>layout.
       let info = attachment_info_of view layout ad clear in
       if HasColorComponent (ad_format ad)
       then Inr (rt\<lparr> colorInfos := colorInfos rt @ [info], colorFormats := colorFormats rt @ [ad_format ad] \<rparr>)
       else if HasDepthComponent (ad_format ad)
       then Inr (rt\<lparr> depthInfo := Some info, depthFormat := Some (ad_format ad) \<rparr>)
       else if HasStencilComponent (ad_format ad)
       then Inr (rt\<lparr> stencilInfo := Some info, stencilFormat := Some (ad_format ad) \<rparr>)
       else Inr rt))))"

definition or_undefined :: "vk_format option \<Rightarrow> vk_format" where
  "or_undefined f = (case f of None \<Rightarrow> FORMAT_UNDEFINED | Some x \<Rightarrow> x)"

definition clear_infos :: "render_target \<Rightarrow> render_target" where
  "clear_infos rt = rt\<lparr> colorInfos := [], depthInfo := None, stencilInfo := None, colorFormats := [],
     depthFormat := None, stencilFormat := None \<rparr>"

definition set_pipeline_info :: "render_target \<Rightarrow> render_target" where
  "set_pipeline_info rt = rt\<lparr> pipelineRenderingInfo := Some \<lparr> pri_colorFormats = colorFormats rt,
     pri_depthFormat = or_undefined (depthFormat rt), pri_stencilFormat = or_undefined (stencilFormat rt) \<rparr> \<rparr>"

definition update_infos :: "(nat \<Rightarrow> image_layout res) \<Rightarrow> rt_desc \<Rightarrow> render_target \<Rightarrow> render_target res" where
  "update_infos getLayout desc rt =
     bind_res (ensure (length (clearValues desc) = length (attachments rt))) (\<lambda>_.
     bind_res (fold_res (update_info getLayout desc) [0..<length (attachments rt)] (clear_infos rt)) (\<lambda>rt1.
       Inr (set_pipeline_info rt1)))"

definition InternalUpdateAttachments ::
  "driver \<Rightarrow> (nat \<Rightarrow> image_layout res) \<Rightarrow> rt_desc \<Rightarrow> render_target \<times> vk \<Rightarrow> (render_target \<times> vk) res" where
  "InternalUpdateAttachments d getLayout desc s =
     bind_res (fold_res (update_attachment d getLayout desc) [0..<length (rtd_images desc)] s) (\<lambda>(rt, v).
       if useDynamicRendering desc then bind_res (update_infos getLayout desc rt) (\<lambda>rt1. Inr (rt1, v)) else Inr (rt, v))"

text \<open>\<open>SetRenderTarget\<close> and the conversion to a pass handle; dynamic rendering has no pass.\<close>

definition InternalGetValues ::
  "driver \<Rightarrow> (pass_key \<Rightarrow> u64) \<Rightarrow> (nat \<Rightarrow> image_layout res) \<Rightarrow> rt_desc \<Rightarrow> render_target \<times> vk
     \<Rightarrow> ((nat \<times> nat) \<times> render_target \<times> vk) res" where
  "InternalGetValues d hash getLayout desc s =
     bind_res (InternalUpdateAttachments d getLayout desc s) (\<lambda>(rt, v).
       if useDynamicRendering desc then Inr ((0, 0), rt, v) else Inr (InternalUpdateMap d hash desc rt v))"

section \<open>Begin and end\<close>

definition dynamic_info :: "rt_desc \<Rightarrow> subpass_contents \<Rightarrow> render_target \<Rightarrow> rendering_info" where
  "dynamic_info desc contents rt = \<lparr> ri_secondary = (contents = ContentsSecondary), ri_width = rtd_width desc,
     ri_height = rtd_height desc, ri_color = colorInfos rt, ri_depth = depthInfo rt, ri_stencil = stencilInfo rt \<rparr>"

definition RenderTarget_Begin ::
  "driver \<Rightarrow> (pass_key \<Rightarrow> u64) \<Rightarrow> (nat \<Rightarrow> image_layout res) \<Rightarrow> rt_desc \<Rightarrow> subpass_contents \<Rightarrow> render_target \<times> vk
     \<Rightarrow> (render_target \<times> vk) res" where
  "RenderTarget_Begin d hash getLayout desc contents = (\<lambda>(rt, v).
     bind_res (ensure (beginInfo rt = None)) (\<lambda>_.
       if useDynamicRendering desc
       then (let info = dynamic_info desc contents rt;
                 inh = \<lparr> inh_secondary = (contents = ContentsSecondary), inh_colorFormats = colorFormats rt,
                         inh_depthFormat = or_undefined (depthFormat rt), inh_stencilFormat = or_undefined (stencilFormat rt) \<rparr>
             in Inr (rt\<lparr> beginInfo := Some (DynamicRenderingInfo info inh) \<rparr>, v @ [CmdBeginRendering info]))
       else bind_res (ensure (length (clearValues desc) = length (attachments rt))) (\<lambda>_.
            bind_res (InternalGetValues d hash getLayout desc (rt, v)) (\<lambda>((renderPass, frameBuffer), rt1, v1).
              let info = \<lparr> pb_renderPass = renderPass, pb_framebuffer = frameBuffer, pb_width = rtd_width desc,
                           pb_height = rtd_height desc, pb_clears = clearValues desc \<rparr>
              in Inr (rt1\<lparr> beginInfo := Some (RenderPassBeginInfo info) \<rparr>, v1 @ [CmdBeginRenderPass info contents])))))"

definition RenderTarget_End :: "rt_desc \<Rightarrow> render_target \<times> vk \<Rightarrow> (render_target \<times> vk) res" where
  "RenderTarget_End desc = (\<lambda>(rt, v). bind_res (ensure (beginInfo rt \<noteq> None)) (\<lambda>_.
     Inr (rt\<lparr> beginInfo := None \<rparr>, v @ [if useDynamicRendering desc then CmdEndRendering else CmdEndRenderPass])))"

definition NextSubpass :: "subpass_contents \<Rightarrow> vk \<Rightarrow> vk" where
  "NextSubpass contents v = v @ [CmdNextSubpass contents]"

definition SetLoadOp :: "rt_desc \<Rightarrow> load_op \<Rightarrow> nat \<Rightarrow> load_op \<Rightarrow> render_target \<Rightarrow> render_target res" where
  "SetLoadOp desc loadOp index stencilLoadOp rt =
     bind_res (idx (attachmentDescs rt) index) (\<lambda>ad. bind_res (idx (imageFormats desc) index) (\<lambda>fmt.
       let ad1 = ad\<lparr> ad_loadOp := loadOp \<rparr>;
           ad2 = (if HasStencilComponent fmt then ad1\<lparr> ad_stencilLoadOp := stencilLoadOp \<rparr> else ad1)
       in Inr (rt\<lparr> attachmentDescs := (attachmentDescs rt)[index := ad2] \<rparr>)))"

definition SetStoreOp :: "rt_desc \<Rightarrow> store_op \<Rightarrow> nat \<Rightarrow> store_op \<Rightarrow> render_target \<Rightarrow> render_target res" where
  "SetStoreOp desc storeOp index stencilStoreOp rt =
     bind_res (idx (attachmentDescs rt) index) (\<lambda>ad. bind_res (idx (imageFormats desc) index) (\<lambda>fmt.
       let ad1 = ad\<lparr> ad_storeOp := storeOp \<rparr>;
           ad2 = (if HasStencilComponent fmt then ad1\<lparr> ad_stencilStoreOp := stencilStoreOp \<rparr> else ad1)
       in Inr (rt\<lparr> attachmentDescs := (attachmentDescs rt)[index := ad2] \<rparr>)))"

section \<open>Destruction and moves\<close>

definition RenderTarget_destroy :: "render_target \<Rightarrow> vk \<Rightarrow> vk res" where
  "RenderTarget_destroy rt v = bind_res (ensure (beginInfo rt = None)) (\<lambda>_.
     Inr (v @ concat (map (\<lambda>(_, rp, fb). [DestroyRenderPassCall rp, DestroyFramebufferCall fb]) (passCache rt))
            @ map DestroyImageViewCall (attachments rt)))"

text \<open>The parts the moves and \<open>Swap\<close> exchange: not the begin info and not what dynamic rendering uses.\<close>

definition take_parts :: "render_target \<Rightarrow> render_target \<Rightarrow> render_target" where
  "take_parts other rt = rt\<lparr> attachments := attachments other, attachmentDescs := attachmentDescs other,
     attachmentRefs := attachmentRefs other, subPassDescs := subPassDescs other, subPassDeps := subPassDeps other,
     passCache := passCache other \<rparr>"

definition RenderTarget_move :: "render_target \<Rightarrow> render_target \<times> render_target" where
  "RenderTarget_move other = (take_parts other render_target_empty, take_parts render_target_empty other)"

definition RenderTarget_assign :: "render_target \<Rightarrow> render_target \<Rightarrow> (render_target \<times> render_target) res" where
  "RenderTarget_assign this other = bind_res (ensure (beginInfo this = None)) (\<lambda>_.
     Inr (take_parts other this, (take_parts render_target_empty other)\<lparr> attachments := attachments this, passCache := passCache this \<rparr>))"

definition RenderTarget_Swap :: "render_target \<Rightarrow> render_target \<Rightarrow> (render_target \<times> render_target) res" where
  "RenderTarget_Swap this rhs = bind_res (ensure (beginInfo this = None)) (\<lambda>_. Inr (take_parts rhs this, take_parts this rhs))"

section \<open>What a render target calls on itself\<close>

record 's rt_class =
  rtc_desc :: "'s \<Rightarrow> rt_desc"
  rtc_layout :: "'s \<Rightarrow> nat \<Rightarrow> image_layout res"
  rtc_transition :: "image_layout \<Rightarrow> aspects \<Rightarrow> nat \<Rightarrow> 's \<times> vk \<Rightarrow> ('s \<times> vk) res"

definition Blit ::
  "'s rt_class \<Rightarrow> rt_desc \<Rightarrow> (nat \<Rightarrow> image_layout res) \<Rightarrow> nat \<Rightarrow> nat \<Rightarrow> nat \<Rightarrow> nat \<Rightarrow> nat \<Rightarrow> 's \<times> vk \<Rightarrow> ('s \<times> vk) res" where
  "Blit c srcDesc srcLayout srcSubresource srcIndex dstSubresource dstIndex filt = (\<lambda>(s, v).
     bind_res (idx (imageFormats (rtc_desc c s)) srcIndex) (\<lambda>fmt.
     bind_res (rtc_transition c LAYOUT_TRANSFER_DST (all_aspects fmt) dstIndex (s, v)) (\<lambda>(s1, v1).
     bind_res (idx (rtd_images srcDesc) srcIndex) (\<lambda>src. bind_res (srcLayout srcIndex) (\<lambda>sl.
     bind_res (idx (rtd_images (rtc_desc c s1)) dstIndex) (\<lambda>dst.
       Inr (s1, v1 @ [CmdBlitImage src sl dst LAYOUT_TRANSFER_DST srcSubresource (rtd_width srcDesc, rtd_height srcDesc)
         dstSubresource (rtd_width (rtc_desc c s), rtd_height (rtc_desc c s)) filt])))))))"

definition Copy ::
  "'s rt_class \<Rightarrow> rt_desc \<Rightarrow> (nat \<Rightarrow> image_layout res) \<Rightarrow> nat \<Rightarrow> nat \<Rightarrow> nat \<Rightarrow> nat \<Rightarrow> 's \<times> vk \<Rightarrow> ('s \<times> vk) res" where
  "Copy c srcDesc srcLayout srcSubresource srcIndex dstSubresource dstIndex = (\<lambda>(s, v).
     bind_res (idx (imageFormats (rtc_desc c s)) srcIndex) (\<lambda>fmt.
     bind_res (rtc_transition c LAYOUT_TRANSFER_DST (all_aspects fmt) dstIndex (s, v)) (\<lambda>(s1, v1).
     bind_res (idx (rtd_images srcDesc) srcIndex) (\<lambda>src. bind_res (srcLayout srcIndex) (\<lambda>sl.
     bind_res (idx (rtd_images (rtc_desc c s1)) dstIndex) (\<lambda>dst.
       Inr (s1, v1 @ [CmdCopyImage src sl dst LAYOUT_TRANSFER_DST srcSubresource dstSubresource
         (rtd_width srcDesc, rtd_height srcDesc)])))))))"

definition clear_attachment :: "rt_desc \<Rightarrow> nat list \<Rightarrow> nat \<Rightarrow> (aspects \<times> nat \<times> nat) list \<Rightarrow> (aspects \<times> nat \<times> nat) list res" where
  "clear_attachment desc values i cs = bind_res (idx (imageFormats desc) i) (\<lambda>fmt. bind_res (idx values i) (\<lambda>val.
     Inr (cs @ [(all_aspects fmt, i, val)])))"

definition ClearAll :: "rt_desc \<Rightarrow> nat list \<Rightarrow> vk \<Rightarrow> vk res" where
  "ClearAll desc values v = bind_res (fold_res (clear_attachment desc values) [0..<length (rtd_images desc)] []) (\<lambda>cs.
     Inr (v @ [CmdClearAttachments cs (rtd_width desc) (rtd_height desc) (layerCount desc)]))"

definition Clear :: "'s rt_class \<Rightarrow> nat \<Rightarrow> nat \<Rightarrow> 's \<times> vk \<Rightarrow> ('s \<times> vk) res" where
  "Clear c val index = (\<lambda>(s, v).
     bind_res (idx (imageFormats (rtc_desc c s)) index) (\<lambda>fmt.
     bind_res (rtc_transition c LAYOUT_TRANSFER_DST (all_aspects fmt) index (s, v)) (\<lambda>(s1, v1).
     bind_res (idx (rtd_images (rtc_desc c s1)) index) (\<lambda>img. bind_res (rtc_layout c s1 index) (\<lambda>layout.
       Inr (s1, v1 @ [if HasColorComponent fmt then CmdClearColorImage img layout val (all_aspects fmt)
                      else CmdClearDepthStencilImage img layout val (all_aspects fmt)]))))))"

section \<open>Frames\<close>

record frame =
  fr_target :: render_target
  fr_desc :: rt_desc
  fr_index :: nat
  fr_layout :: image_layout

definition Frame_new :: "driver \<Rightarrow> (pass_key \<Rightarrow> u64) \<Rightarrow> rt_desc \<Rightarrow> nat \<Rightarrow> vk \<Rightarrow> (frame \<times> vk) res" where
  "Frame_new d hash desc index v = bind_res (RenderTarget_new d hash desc v) (\<lambda>(rt, v1).
     Inr (\<lparr> fr_target = rt, fr_desc = desc, fr_index = index, fr_layout = LAYOUT_UNDEFINED \<rparr>, v1))"

definition Frame_GetLayout :: "frame \<Rightarrow> nat \<Rightarrow> image_layout res" where
  "Frame_GetLayout fr i = Inr (fr_layout fr)"

definition Frame_Begin :: "driver \<Rightarrow> (pass_key \<Rightarrow> u64) \<Rightarrow> subpass_contents \<Rightarrow> frame \<times> vk \<Rightarrow> (frame \<times> vk) res" where
  "Frame_Begin d hash contents = (\<lambda>(fr, v).
     bind_res (RenderTarget_Begin d hash (Frame_GetLayout fr) (fr_desc fr) contents (fr_target fr, v)) (\<lambda>(rt, v1).
       Inr (fr\<lparr> fr_target := rt \<rparr>, v1)))"

definition Frame_End :: "frame \<times> vk \<Rightarrow> (frame \<times> vk) res" where
  "Frame_End = (\<lambda>(fr, v). bind_res (RenderTarget_End (fr_desc fr) (fr_target fr, v)) (\<lambda>(rt, v1).
     bind_res (idx (attachmentDescs rt) 0) (\<lambda>ad.
       Inr (fr\<lparr> fr_target := rt, fr_layout := ad_finalLayout ad \<rparr>, v1))))"

definition Frame_Transition :: "image_layout \<Rightarrow> aspects \<Rightarrow> nat \<Rightarrow> frame \<times> vk \<Rightarrow> (frame \<times> vk) res" where
  "Frame_Transition layout aspectFlags index = (\<lambda>(fr, v). bind_res (ensure (index = 0)) (\<lambda>_.
     if fr_layout fr \<noteq> layout
     then bind_res (idx (rtd_images (fr_desc fr)) index) (\<lambda>img. bind_res (idx (imageFormats (fr_desc fr)) index) (\<lambda>_.
       Inr (fr\<lparr> fr_layout := layout \<rparr>, TransitionImageLayout img (fr_layout fr) layout 1 aspectFlags v)))
     else Inr (fr, v)))"

definition Frame_PreparePresent :: "frame \<Rightarrow> nat list" where
  "Frame_PreparePresent fr = [fr_index fr]"

definition frame_class :: "frame rt_class" where
  "frame_class = \<lparr> rtc_desc = fr_desc, rtc_layout = Frame_GetLayout, rtc_transition = Frame_Transition \<rparr>"

section \<open>Sets of images\<close>

record image_set =
  is_target :: render_target
  is_desc :: rt_desc
  is_images :: "image_obj list"

definition add_image :: "image_obj \<Rightarrow> rt_desc \<Rightarrow> rt_desc res" where
  "add_image io desc = bind_res (first_level (io_desc io)) (\<lambda>l.
     bind_res (ensure (rtd_width desc = ml_width l)) (\<lambda>_. bind_res (ensure (rtd_height desc = ml_height l)) (\<lambda>_.
       Inr (desc\<lparr> imageFormats := imageFormats desc @ [im_format (io_desc io)],
                  imageLayouts := imageLayouts desc @ [io_layout io],
                  imageAspectFlags := imageAspectFlags desc @ [io_aspects io],
                  rtd_images := rtd_images desc @ [io_image io] \<rparr>))))"

definition CreateRenderTargetCreateDesc :: "image_obj list \<Rightarrow> rt_desc res" where
  "CreateRenderTargetCreateDesc images' = (case images' of [] \<Rightarrow> Inl EnsureFailed
     | io # _ \<Rightarrow> bind_res (first_level (io_desc io)) (\<lambda>l.
         bind_res (fold_res add_image images' (rt_desc_default\<lparr> rtd_width := ml_width l, rtd_height := ml_height l \<rparr>)) (\<lambda>desc.
           Inr (desc\<lparr> layerCount := 1, useDynamicRendering := True \<rparr>))))"

definition RenderImageSet_new :: "driver \<Rightarrow> (pass_key \<Rightarrow> u64) \<Rightarrow> image_obj list \<Rightarrow> vk \<Rightarrow> (image_set \<times> vk) res" where
  "RenderImageSet_new d hash images' v = bind_res (CreateRenderTargetCreateDesc images') (\<lambda>desc.
     bind_res (RenderTarget_new d hash desc v) (\<lambda>(rt, v1).
       Inr (\<lparr> is_target = rt, is_desc = desc, is_images = images' \<rparr>, v1)))"

definition RenderImageSet_GetLayout :: "image_set \<Rightarrow> nat \<Rightarrow> image_layout res" where
  "RenderImageSet_GetLayout s i = bind_res (idx (is_images s) i) (\<lambda>io. Inr (io_layout io))"

definition RenderImageSet_Begin :: "driver \<Rightarrow> (pass_key \<Rightarrow> u64) \<Rightarrow> subpass_contents \<Rightarrow> image_set \<times> vk \<Rightarrow> (image_set \<times> vk) res" where
  "RenderImageSet_Begin d hash contents = (\<lambda>(s, v).
     bind_res (RenderTarget_Begin d hash (RenderImageSet_GetLayout s) (is_desc s) contents (is_target s, v)) (\<lambda>(rt, v1).
       Inr (s\<lparr> is_target := rt \<rparr>, v1)))"

definition set_final_layout :: "nat \<Rightarrow> image_set \<Rightarrow> image_set res" where
  "set_final_layout i s = bind_res (idx (is_images s) i) (\<lambda>io. bind_res (idx (attachmentDescs (is_target s)) i) (\<lambda>ad.
     Inr (s\<lparr> is_images := (is_images s)[i := io\<lparr> io_layout := ad_finalLayout ad \<rparr>] \<rparr>)))"

definition RenderImageSet_End :: "image_set \<times> vk \<Rightarrow> (image_set \<times> vk) res" where
  "RenderImageSet_End = (\<lambda>(s, v). bind_res (RenderTarget_End (is_desc s) (is_target s, v)) (\<lambda>(rt, v1).
     bind_res (fold_res set_final_layout [0..<length (is_images s)] (s\<lparr> is_target := rt \<rparr>)) (\<lambda>s1. Inr (s1, v1))))"

definition RenderImageSet_Transition :: "driver \<Rightarrow> image_layout \<Rightarrow> aspects \<Rightarrow> nat \<Rightarrow> image_set \<times> vk \<Rightarrow> (image_set \<times> vk) res" where
  "RenderImageSet_Transition d layout aspectFlags index = (\<lambda>(s, v). bind_res (idx (is_images s) index) (\<lambda>io.
     let (io1, v1) = Image_Transition layout aspectFlags io v;
         s1 = s\<lparr> is_images := (is_images s)[index := io1] \<rparr>
     in bind_res (idx (imageAspectFlags (is_desc s1)) index) (\<lambda>_.
        let s2 = s1\<lparr> is_desc := (is_desc s1)\<lparr> imageAspectFlags := (imageAspectFlags (is_desc s1))[index := aspectFlags] \<rparr> \<rparr>
        in bind_res (InternalUpdateAttachments d (RenderImageSet_GetLayout s2) (is_desc s2) (is_target s2, v1)) (\<lambda>(rt, v2).
             Inr (s2\<lparr> is_target := rt \<rparr>, v2)))))"

definition image_set_class :: "driver \<Rightarrow> image_set rt_class" where
  "image_set_class d = \<lparr> rtc_desc = is_desc, rtc_layout = RenderImageSet_GetLayout, rtc_transition = RenderImageSet_Transition d \<rparr>"

end
