(* ===== verification/Range_Set.thy ===== *)
theory Range_Set
imports Prelude "HOL-Library.Multiset"
begin

text \<open>
  \<open>RangeSet<T>\<close> of \<open>core/utils.h\<close>: a set of half-open ranges kept in an ordered map from the low
  end to the high end. The underlying \<open>std::flat_map\<close> (or \<open>std::map\<close>) is the list of its
  entries in key order and an iterator is an index into that list, so \<open>end()\<close> is the length.
  The key type \<open>T\<close> is any linear order.
\<close>

section \<open>The operation\<close>

type_synonym 'a ranges = "('a \<times> 'a) list"

text \<open>\<open>std::upper_bound\<close> with the comparator of \<open>insert\<close>: the first entry whose key is above.\<close>

definition upper_bound :: "'a::linorder \<Rightarrow> 'a ranges \<Rightarrow> nat" where
  "upper_bound low xs = length (takeWhile (\<lambda>r. \<not> low < fst r) xs)"

text \<open>The loop that swallows the ranges the inserted one now reaches.\<close>

function absorb :: "'a::linorder \<Rightarrow> 'a ranges \<Rightarrow> nat \<Rightarrow> nat \<Rightarrow> 'a ranges" where
  "absorb high xs i after =
     (if after < length xs \<and> high \<ge> fst (xs ! after)
      then absorb high
             (erase_at after (xs[i := (fst (xs ! i), max (snd (xs ! after)) (snd (xs ! i)))])) i after
      else xs)"
  by pat_completeness auto
termination by (relation "measure (\<lambda>(h, xs, i, a). length xs)") auto

declare absorb.simps [simp del]

definition range_insert :: "('a::linorder \<times> 'a) \<Rightarrow> 'a ranges \<Rightarrow> ('a ranges \<times> nat \<times> bool) res" where
  "range_insert rng xs = bind_res (ensure (fst rng < snd rng)) (\<lambda>_.
     let low = fst rng; high = snd rng;
         after = upper_bound low xs;
         isBegin = (after = 0);
         prev = (if isBegin then after else after - 1)
     in if isBegin \<or> snd (xs ! prev) < low
        then Inr (absorb high (insert_at after rng xs) after (Suc after), after, True)
        else if snd (xs ! prev) \<ge> high then Inr (xs, prev, False)
        else Inr (absorb high (xs[prev := (fst (xs ! prev), high)]) prev after, prev, True))"

section \<open>Invariant and abstraction\<close>

text \<open>Every range is non-empty and a gap separates it from the next one.\<close>

fun wf_ranges :: "'a::linorder ranges \<Rightarrow> bool" where
  "wf_ranges [] = True"
| "wf_ranges [r] = (fst r < snd r)"
| "wf_ranges (r # s # rs) = (fst r < snd r \<and> snd r < fst s \<and> wf_ranges (s # rs))"

definition covered :: "'a::linorder ranges \<Rightarrow> 'a set" where
  "covered xs = (\<Union>r\<in>set xs. {fst r..<snd r})"

lemma covered_simps [simp]:
  "covered [] = {}"
  "covered (r # xs) = {fst r..<snd r} \<union> covered xs"
  "covered (xs @ ys) = covered xs \<union> covered ys"
  by (auto simp: covered_def)

lemma wf_ranges_tl: "wf_ranges (r # rs) \<Longrightarrow> wf_ranges rs"
  by (cases rs) auto

lemma wf_ranges_hd: "wf_ranges (r # rs) \<Longrightarrow> fst r < snd r"
  by (cases rs) auto

lemma wf_ranges_Cons:
  "wf_ranges (r # rs) \<longleftrightarrow> fst r < snd r \<and> (\<forall>s\<in>set rs. snd r < fst s) \<and> wf_ranges rs"
proof (induction rs arbitrary: r)
  case (Cons s rs)
  show ?case
    using Cons.IH [of s] by (auto intro: less_trans)
qed simp

lemma wf_ranges_append:
  "wf_ranges (xs @ ys) \<longleftrightarrow>
     wf_ranges xs \<and> wf_ranges ys \<and> (\<forall>r\<in>set xs. \<forall>s\<in>set ys. snd r < fst s)"
  by (induction xs) (auto simp: wf_ranges_Cons)

lemma wf_ranges_all: "wf_ranges xs \<Longrightarrow> r \<in> set xs \<Longrightarrow> fst r < snd r"
  by (induction xs) (auto simp: wf_ranges_Cons)

lemma upper_bound_split:
  assumes "wf_ranges xs"
  obtains pre post where "xs = pre @ post" "upper_bound low xs = length pre"
    "\<forall>r\<in>set pre. fst r \<le> low" "\<forall>r\<in>set post. low < fst r"
proof -
  let ?P = "\<lambda>r. \<not> low < fst r"
  have a: "xs = takeWhile ?P xs @ dropWhile ?P xs" by simp
  have b: "\<forall>r\<in>set (takeWhile ?P xs). fst r \<le> low"
    by (auto dest: set_takeWhileD)
  have c: "\<forall>r\<in>set (dropWhile ?P xs). low < fst r"
  proof (cases "dropWhile ?P xs")
    case (Cons s ss)
    then have hd: "low < fst s" by (metis dropWhile_eq_Cons_conv)
    have "wf_ranges (s # ss)" using assms Cons a by (metis wf_ranges_append)
    then show ?thesis using Cons hd by (auto simp: wf_ranges_Cons intro: less_trans)
  next
    case Nil
    then show ?thesis by (simp only: list.set ball_empty)
  qed
  show ?thesis using that [OF a _ b c] by (simp add: upper_bound_def)
qed

text \<open>What the absorbing loop computes, on the list split at the range that grows.\<close>

lemma absorb_spec:
  assumes "wf_ranges rest" "fst c < high" "high \<le> snd c"
    and "\<forall>s\<in>set rest. fst c < fst s" and "\<forall>s\<in>set rest. snd c > high \<longrightarrow> snd c < fst s"
  shows "\<exists>hi rest'. absorb high (pre @ c # rest) (length pre) (Suc (length pre)) = pre @ (fst c, hi) # rest'
      \<and> high \<le> hi \<and> wf_ranges ((fst c, hi) # rest') \<and> set rest' \<subseteq> set rest
      \<and> {fst c..<hi} \<union> covered rest' = {fst c..<snd c} \<union> covered rest"
  using assms
proof (induction rest arbitrary: c)
  case Nil
  have "absorb high (pre @ [c]) (length pre) (Suc (length pre)) = pre @ [c]"
    by (subst absorb.simps) simp
  then show ?case using Nil by (auto intro!: exI [of _ "snd c"])
next
  case (Cons s rest)
  have s: "fst s < snd s" "wf_ranges rest" "\<forall>t\<in>set rest. snd s < fst t"
    using Cons.prems(1) by (auto simp: wf_ranges_Cons)
  show ?case
  proof (cases "fst s \<le> high")
    case True
    let ?c = "(fst c, max (snd s) (snd c))"
    have "\<not> high < snd c" using Cons.prems(5) True by auto
    then have eq: "snd c = high" using Cons.prems(3) by simp
    have step: "absorb high (pre @ c # s # rest) (length pre) (Suc (length pre))
        = absorb high (pre @ ?c # rest) (length pre) (Suc (length pre))"
      using True by (subst absorb.simps) (simp add: nth_append)
    have "\<exists>hi rest'. absorb high (pre @ ?c # rest) (length pre) (Suc (length pre)) = pre @ (fst ?c, hi) # rest'
      \<and> high \<le> hi \<and> wf_ranges ((fst ?c, hi) # rest') \<and> set rest' \<subseteq> set rest
      \<and> {fst ?c..<hi} \<union> covered rest' = {fst ?c..<snd ?c} \<union> covered rest"
    proof (rule Cons.IH)
      show "\<forall>t\<in>set rest. high < snd ?c \<longrightarrow> snd ?c < fst t"
        using s(3) eq by (auto simp: max_def)
    qed (use Cons.prems eq s in \<open>auto simp: le_max_iff_disj\<close>)
    moreover have "{fst c..<max (snd s) (snd c)} = {fst c..<snd c} \<union> {fst s..<snd s}"
      using True eq Cons.prems(2,4) s(1) by (auto simp: max_def)
    ultimately show ?thesis unfolding step by (fastforce simp: Un_assoc)
  next
    case False
    have step: "absorb high (pre @ c # s # rest) (length pre) (Suc (length pre)) = pre @ c # s # rest"
      using False by (subst absorb.simps) (simp add: nth_append)
    have "snd c < fst t" if "t \<in> set (s # rest)" for t
    proof (cases "high < snd c")
      case False
      then have "snd c = high" using Cons.prems(3) by simp
      moreover have "high < fst t"
        using that \<open>\<not> fst s \<le> high\<close> s by (auto dest: bspec)
      ultimately show ?thesis by simp
    qed (use Cons.prems(5) that in blast)
    then have "wf_ranges (c # s # rest)"
      using Cons.prems(1,2,3) by (auto simp: wf_ranges_Cons)
    then show ?thesis unfolding step using Cons.prems(3)
      by (intro exI [of _ "snd c"] exI [of _ "s # rest"]) (auto simp del: wf_ranges.simps)
  qed
qed

section \<open>What an insertion does\<close>

text \<open>The contract: the new list is well formed, covers exactly the old points and the new range,
  and the returned iterator is the entry that holds the range.\<close>

definition range_insert_post :: "'a::linorder \<Rightarrow> 'a \<Rightarrow> 'a ranges \<Rightarrow> ('a ranges \<times> nat \<times> bool) \<Rightarrow> bool" where
  "range_insert_post low high xs out = (case out of (ys, it, fresh) \<Rightarrow>
     wf_ranges ys \<and> covered ys = covered xs \<union> {low..<high} \<and> it < length ys
     \<and> fst (ys ! it) \<le> low \<and> high \<le> snd (ys ! it)
     \<and> (fresh \<longleftrightarrow> \<not> {low..<high} \<subseteq> covered xs))"

lemma absorb_post:
  assumes wf: "wf_ranges (pre @ rest)" and c: "fst c < high" "high \<le> snd c" "snd c = high"
    and pre: "\<forall>r\<in>set pre. snd r < fst c" and rest: "\<forall>s\<in>set rest. fst c < fst s"
  shows "\<exists>hi rest'. absorb high (pre @ c # rest) (length pre) (Suc (length pre)) = pre @ (fst c, hi) # rest'
      \<and> high \<le> hi \<and> wf_ranges (pre @ (fst c, hi) # rest')
      \<and> covered (pre @ (fst c, hi) # rest') = covered (pre @ c # rest)"
proof -
  have wr: "wf_ranges rest" and wp: "wf_ranges pre" and pr: "\<forall>r\<in>set pre. \<forall>s\<in>set rest. snd r < fst s"
    using wf by (auto simp: wf_ranges_append)
  obtain hi rest' where *: "absorb high (pre @ c # rest) (length pre) (Suc (length pre)) = pre @ (fst c, hi) # rest'"
    "high \<le> hi" "wf_ranges ((fst c, hi) # rest')" "set rest' \<subseteq> set rest"
    "{fst c..<hi} \<union> covered rest' = {fst c..<snd c} \<union> covered rest"
    using absorb_spec [OF wr c(1,2) rest, of pre] c(3) by auto
  have "wf_ranges (pre @ (fst c, hi) # rest')"
    using wp *(3,4) pre pr by (auto simp: wf_ranges_append)
  then show ?thesis using * by auto
qed

lemma before_last:
  "wf_ranges (pre @ [p]) \<Longrightarrow> r \<in> set pre \<Longrightarrow> snd r < fst p"
  by (auto simp: wf_ranges_append)

lemma not_covered_point:
  assumes "wf_ranges (pre @ post)" "\<forall>r\<in>set pre. snd r \<le> x" "\<forall>s\<in>set post. x < fst s"
  shows "x \<notin> covered (pre @ post)"
  using assms by (fastforce simp: covered_def)

text \<open>The three branches, each on the list split at the position \<open>upper_bound\<close> finds.\<close>

lemma insert_fresh_range:
  assumes wf: "wf_ranges (pre @ post)" and lh: "low < high" and ub: "upper_bound low (pre @ post) = length pre"
    and lt: "\<forall>r\<in>set pre. snd r < low" and gt: "\<forall>r\<in>set post. low < fst r"
  shows "\<exists>out. range_insert (low, high) (pre @ post) = Inr out \<and> range_insert_post low high (pre @ post) out"
proof -
  have guard: "length pre = 0 \<or> snd ((pre @ post) ! (length pre - 1)) < low"
    using lt by (cases pre rule: rev_cases) auto
  obtain hi rest' where *: "absorb high (pre @ (low, high) # post) (length pre) (Suc (length pre)) = pre @ (low, hi) # rest'"
    "high \<le> hi" "wf_ranges (pre @ (low, hi) # rest')"
    "covered (pre @ (low, hi) # rest') = covered (pre @ (low, high) # post)"
    using absorb_post [of pre post "(low, high)" high] wf lh lt gt by auto
  have run: "range_insert (low, high) (pre @ post) = Inr (pre @ (low, hi) # rest', length pre, True)"
    using guard lh ub *(1) by (auto simp: range_insert_def Let_def)
  have "low \<notin> covered (pre @ post)"
    by (rule not_covered_point) (use wf lt gt in auto)
  moreover have "low \<in> {low..<high}" using lh by simp
  ultimately have "\<not> {low..<high} \<subseteq> covered (pre @ post)" by blast
  then show ?thesis using run * by (auto simp: range_insert_post_def)
qed

lemma insert_inside_range:
  assumes wf: "wf_ranges (pre @ p # post)" and lh: "low < high"
    and ub: "upper_bound low (pre @ p # post) = Suc (length pre)" and p: "fst p \<le> low" "high \<le> snd p"
  shows "\<exists>out. range_insert (low, high) (pre @ p # post) = Inr out \<and> range_insert_post low high (pre @ p # post) out"
proof -
  have run: "range_insert (low, high) (pre @ p # post) = Inr (pre @ p # post, length pre, False)"
    using lh ub p by (simp add: range_insert_def Let_def)
  have "{low..<high} \<subseteq> {fst p..<snd p}" using p by auto
  then show ?thesis using run wf p by (auto simp: range_insert_post_def)
qed

lemma insert_extend_range:
  assumes wf: "wf_ranges (pre @ p # post)" and lh: "low < high"
    and ub: "upper_bound low (pre @ p # post) = Suc (length pre)" and p: "fst p \<le> low" "low \<le> snd p" "snd p < high"
    and gt: "\<forall>r\<in>set post. low < fst r"
  shows "\<exists>out. range_insert (low, high) (pre @ p # post) = Inr out \<and> range_insert_post low high (pre @ p # post) out"
proof -
  have w: "\<forall>r\<in>set pre. snd r < fst p" "\<forall>s\<in>set post. snd p < fst s" "fst p < snd p" "wf_ranges (pre @ post)"
    using wf by (auto simp: wf_ranges_append wf_ranges_Cons)
  obtain hi rest' where *: "absorb high (pre @ (fst p, high) # post) (length pre) (Suc (length pre)) = pre @ (fst p, hi) # rest'"
    "high \<le> hi" "wf_ranges (pre @ (fst p, hi) # rest')"
    "covered (pre @ (fst p, hi) # rest') = covered (pre @ (fst p, high) # post)"
    using absorb_post [of pre post "(fst p, high)" high, OF w(4)] p(1) lh w(1) gt by (force intro: le_less_trans)
  have run: "range_insert (low, high) (pre @ p # post) = Inr (pre @ (fst p, hi) # rest', length pre, True)"
    using p lh ub *(1) by (auto simp: range_insert_def Let_def)
  have "snd p \<notin> covered ((pre @ [p]) @ post)"
    by (rule not_covered_point) (use wf w in \<open>auto intro: less_imp_le less_trans\<close>)
  moreover have "snd p \<in> {low..<high}" using p by simp
  ultimately have "\<not> {low..<high} \<subseteq> covered (pre @ p # post)" by auto
  moreover have "{fst p..<high} = {fst p..<snd p} \<union> {low..<high}" using p w(3) by auto
  ultimately show ?thesis using run * p(1) by (auto simp: range_insert_post_def)
qed

lemma range_insert_ok:
  assumes wf: "wf_ranges xs" and lh: "low < high"
  shows "\<exists>out. range_insert (low, high) xs = Inr out \<and> range_insert_post low high xs out"
proof -
  obtain pre post where xs: "xs = pre @ post" and ub: "upper_bound low xs = length pre"
    and le: "\<forall>r\<in>set pre. fst r \<le> low" and gt: "\<forall>r\<in>set post. low < fst r"
    using upper_bound_split [OF wf] by blast
  show ?thesis
  proof (cases "\<forall>r\<in>set pre. snd r < low")
    case True
    then show ?thesis using insert_fresh_range [of pre post low high] wf lh ub gt xs by simp
  next
    case False
    then obtain pre' p where pre: "pre = pre' @ [p]" by (cases pre rule: rev_cases) auto
    have w: "wf_ranges (pre' @ p # post)" and u: "upper_bound low (pre' @ p # post) = Suc (length pre')"
      and p: "fst p \<le> low" using wf ub xs pre le by auto
    have lp: "low \<le> snd p"
    proof (rule ccontr)
      assume "\<not> low \<le> snd p"
      then have "\<forall>r\<in>set pre. snd r < low"
        using w pre by (auto simp: wf_ranges_append wf_ranges_Cons intro: less_trans)
      then show False using False by blast
    qed
    show ?thesis
      using insert_inside_range [OF w lh u p] insert_extend_range [OF w lh u p lp _ gt] xs pre
      by (cases "high \<le> snd p") auto
  qed
qed

section \<open>The representation is canonical\<close>

lemma covered_above: "wf_ranges (r # rs) \<Longrightarrow> x \<in> covered rs \<Longrightarrow> snd r < x"
  by (fastforce simp: wf_ranges_Cons covered_def)

lemma covered_from: "wf_ranges (r # rs) \<Longrightarrow> x \<in> covered (r # rs) \<Longrightarrow> fst r \<le> x"
  using covered_above [of r rs x] wf_ranges_hd [of r rs] by auto

lemma covered_rest: "wf_ranges (r # rs) \<Longrightarrow> covered rs = {x \<in> covered (r # rs). snd r < x}"
  by (auto dest: covered_above)

lemma covered_hd: "wf_ranges (r # rs) \<Longrightarrow> fst r \<in> covered (r # rs)"
  by (auto dest: wf_ranges_hd)

lemma covered_end: "wf_ranges (r # rs) \<Longrightarrow> snd r \<notin> covered (r # rs)"
  by (auto dest: covered_above)

lemma end_not_less:
  assumes "wf_ranges (r # rs)" "wf_ranges (s # ss)" "covered (r # rs) = covered (s # ss)" "fst r = fst s"
  shows "\<not> snd r < snd s"
proof
  assume "snd r < snd s"
  then have "snd r \<in> covered (s # ss)" using wf_ranges_hd [OF assms(1)] assms(4) by auto
  then show False using covered_end [OF assms(1), unfolded assms(3)] by blast
qed

lemma wf_ranges_unique:
  "wf_ranges xs \<Longrightarrow> wf_ranges ys \<Longrightarrow> covered xs = covered ys \<Longrightarrow> xs = ys"
proof (induction xs arbitrary: ys)
  case Nil
  then show ?case by (cases ys) (use covered_hd in \<open>force simp del: covered_simps(2)\<close>)+
next
  case (Cons r rs)
  obtain s ss where ys: "ys = s # ss"
    using Cons.prems covered_hd [OF Cons.prems(1)] by (cases ys) auto
  note p = Cons.prems [unfolded ys]
  have f: "fst r = fst s"
  proof (rule antisym)
    show "fst r \<le> fst s" using covered_from [OF p(1)] covered_hd [OF p(2)] p(3) by blast
    show "fst s \<le> fst r" using covered_from [OF p(2)] covered_hd [OF p(1)] p(3) by blast
  qed
  have g: "snd r = snd s"
    using end_not_less [OF p f] end_not_less [OF p(2,1) p(3) [symmetric] f [symmetric]] by simp
  have "covered rs = covered ss"
    unfolding covered_rest [OF p(1)] covered_rest [OF p(2)] p(3) g ..
  then have "rs = ss" using Cons.IH wf_ranges_tl p(1,2) by blast
  then show ?case using f g ys by (simp add: prod_eq_iff)
qed

section \<open>A sequence of insertions\<close>

fun range_insert_all :: "('a::linorder \<times> 'a) list \<Rightarrow> 'a ranges \<Rightarrow> 'a ranges res" where
  "range_insert_all [] xs = Inr xs"
| "range_insert_all (r # rs) xs = bind_res (range_insert r xs) (\<lambda>(ys, it, fresh). range_insert_all rs ys)"

lemma range_insert_all_ok:
  assumes "wf_ranges xs" "\<forall>r\<in>set rs. fst r < snd r"
  shows "\<exists>ys. range_insert_all rs xs = Inr ys \<and> wf_ranges ys \<and> covered ys = covered xs \<union> (\<Union>r\<in>set rs. {fst r..<snd r})"
  using assms
proof (induction rs arbitrary: xs)
  case (Cons r rs)
  obtain ys it fresh where *: "range_insert r xs = Inr (ys, it, fresh)"
    "wf_ranges ys" "covered ys = covered xs \<union> {fst r..<snd r}"
    using range_insert_ok [OF Cons.prems(1), of "fst r" "snd r"] Cons.prems(2)
    by (auto simp: range_insert_post_def)
  from Cons.IH [OF *(2)] Cons.prems(2) show ?case using *(1,3) by auto
qed simp

section \<open>Properties\<close>

text \<open>C20: Inserting a non-empty range into a well-formed range set never traps; the result is
  well formed again (ranges non-empty, ordered, with gaps between them), it covers exactly the old
  points and the new range, the returned iterator designates the entry that contains the whole new
  range, and the returned flag is false exactly when the range was already covered.\<close>

theorem range_insert_correct:
  assumes "wf_ranges xs" "low < high"
  shows "\<exists>ys it fresh. range_insert (low, high) xs = Inr (ys, it, fresh)
    \<and> wf_ranges ys \<and> covered ys = covered xs \<union> {low..<high}
    \<and> it < length ys \<and> fst (ys ! it) \<le> low \<and> high \<le> snd (ys ! it)
    \<and> (fresh \<longleftrightarrow> \<not> {low..<high} \<subseteq> covered xs)"
  using range_insert_ok [OF assms] by (auto simp: range_insert_post_def)

theorem range_insert_correct_witness:
  "\<exists>ys it fresh. range_insert (3, 9) [(1::nat, 4), (6, 7), (12, 15)] = Inr (ys, it, fresh)
    \<and> wf_ranges ys \<and> covered ys = covered [(1::nat, 4), (6, 7), (12, 15)] \<union> {3..<9}
    \<and> it < length ys \<and> fst (ys ! it) \<le> 3 \<and> 9 \<le> snd (ys ! it)
    \<and> (fresh \<longleftrightarrow> \<not> {3..<9} \<subseteq> covered [(1::nat, 4), (6, 7), (12, 15)])"
  by (rule range_insert_correct) simp_all

text \<open>The order of insertions does not matter: two sequences of insertions of the same non-empty
  ranges into the same well-formed set end in the same entries, because the representation of a set of points
  by a well-formed range set is unique.\<close>

theorem range_insert_order_irrelevant:
  assumes "wf_ranges xs" "\<forall>r\<in>set rs. fst r < snd r" "set rs = set rs'"
  shows "range_insert_all rs xs = range_insert_all rs' xs \<and> is_ok (range_insert_all rs xs)"
proof -
  obtain ys where ys: "range_insert_all rs xs = Inr ys" "wf_ranges ys"
    "covered ys = covered xs \<union> (\<Union>r\<in>set rs. {fst r..<snd r})"
    using range_insert_all_ok [OF assms(1,2)] by blast
  obtain zs where zs: "range_insert_all rs' xs = Inr zs" "wf_ranges zs"
    "covered zs = covered xs \<union> (\<Union>r\<in>set rs'. {fst r..<snd r})"
    using range_insert_all_ok [OF assms(1), of rs'] assms(2,3) by auto
  have "ys = zs" by (rule wf_ranges_unique [OF ys(2) zs(2)]) (simp only: ys(3) zs(3) assms(3))
  then show ?thesis using ys(1) zs(1) by simp
qed

theorem range_insert_order_irrelevant_witness:
  "range_insert_all [(5, 8), (1, 3), (2, 6)] [] = range_insert_all [(2, 6), (5, 8), (1, 3::nat)] []
   \<and> is_ok (range_insert_all [(5, 8), (1, 3), (2, 6::nat)] [])"
  by (rule range_insert_order_irrelevant) auto

end
