(* ===== verification/Descriptor_Data.thy ===== *)
theory Descriptor_Data
imports Range_Set
begin

text \<open>
  The descriptor data of \<open>Pipeline::SetDescriptorData\<close> (\<open>rhi/vulkan/pipeline.inl\<close>) and the update
  template of \<open>Pipeline::InternalUpdateDescriptorSetTemplate\<close>. A set's values lie in one vector
  (\<open>bindingsData\<close>); a flat map (\<open>bindingsMap\<close>, sorted by binding) records for each binding its offset
  there, its count, its type and the array elements it covers, in a \<open>RangeSet\<close>. 32-bit indices are
  natural numbers, wrapped where the code adds to one.
\<close>

section \<open>State\<close>

datatype binding_variant =
    DescriptorBufferInfo nat nat nat
  | DescriptorImageInfo nat nat nat
  | BufferViewValue nat
  | AccelerationStructureValue nat
  | InlineUniformBlock nat nat

fun variant_index :: "binding_variant \<Rightarrow> nat" where
  "variant_index (DescriptorBufferInfo _ _ _) = 0"
| "variant_index (DescriptorImageInfo _ _ _) = 1"
| "variant_index (BufferViewValue _) = 2"
| "variant_index (AccelerationStructureValue _) = 3"
| "variant_index (InlineUniformBlock _ _) = 4"

record bindingValue =
  b_offset :: nat
  b_count :: nat
  b_type :: u32
  b_ranges :: "nat ranges"

type_synonym bindingsMap = "(nat \<times> bindingValue) list"

record template_entry =
  dstBinding :: nat
  dstArrayElement :: nat
  te_count :: nat
  te_type :: u32
  te_offset :: nat

datatype descriptor_set_status = KDirty | KReady

record set_data =
  setState :: descriptor_set_status
  bMap :: bindingsMap
  bData :: "binding_variant list"
  templateEntries :: "template_entry list"

definition set_data_new :: set_data where
  "set_data_new = \<lparr> setState = KReady, bMap = [], bData = [], templateEntries = [] \<rparr>"

section \<open>The flat map\<close>

definition flat_lower_bound :: "nat \<Rightarrow> bindingsMap \<Rightarrow> nat" where
  "flat_lower_bound k m = length (takeWhile (\<lambda>e. fst e < k) m)"

text \<open>\<open>flat_map::emplace\<close>: the position of the key, whether it was inserted, and the map.\<close>

definition flat_emplace :: "nat \<Rightarrow> bindingValue \<Rightarrow> bindingsMap \<Rightarrow> nat \<times> bool \<times> bindingsMap" where
  "flat_emplace k v m = (let i = flat_lower_bound k m in
     if i < length m \<and> fst (m ! i) = k then (i, False, m) else (i, True, insert_at i (k, v) m))"

definition put_value :: "nat \<Rightarrow> bindingValue \<Rightarrow> bindingsMap \<Rightarrow> bindingsMap" where
  "put_value i v m = m[i := (fst (m ! i), v)]"

text \<open>The loop after the comment \<open>prefix sum offset\<close>, from the entry that changed.\<close>

fun resum :: "bindingsMap \<Rightarrow> bindingsMap" where
  "resum [] = []"
| "resum [e] = [e]"
| "resum (e # (k, f) # r) = e # resum ((k, f\<lparr> b_offset := b_offset (snd e) + b_count (snd e) \<rparr>) # r)"

definition resum_at :: "nat \<Rightarrow> bindingsMap \<Rightarrow> bindingsMap" where
  "resum_at i m = take i m @ resum (drop i m)"

definition offset_after_prev :: "nat \<Rightarrow> bindingsMap \<Rightarrow> nat" where
  "offset_after_prev i m = (if i = 0 then 0 else b_offset (snd (m ! (i - 1))) + b_count (snd (m ! (i - 1))))"

definition insert_values :: "nat \<Rightarrow> 'a list \<Rightarrow> 'a list \<Rightarrow> 'a list" where
  "insert_values o' vs xs = take o' xs @ vs @ drop o' xs"

definition erase_values :: "nat \<Rightarrow> nat \<Rightarrow> 'a list \<Rightarrow> 'a list" where
  "erase_values i j xs = take i xs @ drop j xs"

definition copy_values :: "nat \<Rightarrow> 'a list \<Rightarrow> 'a list \<Rightarrow> 'a list" where
  "copy_values o' vs xs = take o' xs @ vs @ drop (o' + length vs) xs"

section \<open>The update template\<close>

fun range_entries :: "nat \<Rightarrow> bindingValue \<Rightarrow> nat \<Rightarrow> nat ranges \<Rightarrow> template_entry list" where
  "range_entries k b ro [] = []"
| "range_entries k b ro ((low, high) # r) =
     \<lparr> dstBinding = k, dstArrayElement = low, te_count = high - low, te_type = b_type b,
       te_offset = b_offset b + ro \<rparr> # range_entries k b (ro + (high - low)) r"

definition template_of :: "bindingsMap \<Rightarrow> template_entry list" where
  "template_of m = concat (map (\<lambda>(k, b). range_entries k b 0 (b_ranges b)) m)"

definition finish_set :: "bindingsMap \<Rightarrow> binding_variant list \<Rightarrow> set_data \<Rightarrow> set_data" where
  "finish_set m d s = s\<lparr> setState := KDirty, bMap := m, bData := d, templateEntries := template_of m \<rparr>"

section \<open>SetDescriptorData\<close>

definition new_binding :: "u32 \<Rightarrow> bindingValue" where
  "new_binding ty = \<lparr> b_offset = 0, b_count = 0, b_type = ty, b_ranges = [] \<rparr>"

text \<open>A binding that was just emplaced gets its values: count, ranges, offset, data, prefix sums.\<close>

definition fill_new :: "nat \<Rightarrow> bindingsMap \<Rightarrow> nat \<times> nat \<Rightarrow> binding_variant list \<Rightarrow> set_data \<Rightarrow> set_data res" where
  "fill_new i m rng vs s = (let b = snd (m ! i) in
     bind_res (range_insert rng (b_ranges b)) (\<lambda>(rs, _, _).
       let o' = offset_after_prev i m;
           b' = b\<lparr> b_count := length vs, b_ranges := rs, b_offset := o' \<rparr>
       in Inr (finish_set (resum_at i (put_value i b' m)) (insert_values o' vs (bData s)) s)))"

definition get_and_assign :: "nat \<Rightarrow> binding_variant \<Rightarrow> binding_variant list \<Rightarrow> binding_variant list res" where
  "get_and_assign i v d = (if i \<ge> length d then Inl Undefined
     else if variant_index (d ! i) \<noteq> variant_index v then Inl RuntimeError else Inr (d[i := v]))"

definition SetDescriptorData_one :: "nat \<Rightarrow> u32 \<Rightarrow> binding_variant \<Rightarrow> set_data \<Rightarrow> set_data res" where
  "SetDescriptorData_one k ty v s = (let (i, fresh, m) = flat_emplace k (new_binding ty) (bMap s) in
     if fresh then fill_new i m (0, 1) [v] s
     else (let b = snd (m ! i) in
       bind_res (ensure (b_count b = 1)) (\<lambda>_.
       bind_res (get_and_assign (b_offset b) v (bData s)) (\<lambda>d. Inr (finish_set m d s)))))"

definition SetDescriptorData_vector :: "nat \<Rightarrow> u32 \<Rightarrow> nat \<Rightarrow> binding_variant list \<Rightarrow> set_data \<Rightarrow> set_data res" where
  "SetDescriptorData_vector k ty descriptorCount vs s =
     bind_res (ensure (length vs \<le> descriptorCount)) (\<lambda>_.
     let (i, fresh, m) = flat_emplace k (new_binding ty) (bMap s) in
     if fresh then fill_new i m (0, length vs) vs s
     else (let b = snd (m ! i); n = b_count b; o' = b_offset b in
       bind_res (ensure (n > 0)) (\<lambda>_.
       if n = length vs then Inr (finish_set m (copy_values o' vs (bData s)) s)
       else (let minCount = min (length vs) n;
                 d = copy_values o' (take minCount vs) (bData s);
                 d' = (if n < length vs then insert_values (o' + minCount) (drop minCount vs) d
                       else erase_values (o' + minCount) (o' + n) d)
             in bind_res (range_insert (0, length vs) []) (\<lambda>(rs, _, _).
                let b' = b\<lparr> b_count := length vs, b_ranges := rs \<rparr>
                in Inr (finish_set (resum_at i (put_value i b' m)) d' s))))))"

text \<open>The search of the indexed variant: the range that holds the index, if any, and the running offset.\<close>

fun find_index :: "nat \<Rightarrow> nat \<Rightarrow> nat ranges \<Rightarrow> bool \<times> nat" where
  "find_index index io [] = (False, io)"
| "find_index index io ((low, high) # r) =
     (if index \<ge> low \<and> index < high then (True, io + (index - low)) else find_index index (io + (high - low)) r)"

definition u32_succ :: "nat \<Rightarrow> nat" where
  "u32_succ i = (i + 1) mod 2 ^ 32"

definition SetDescriptorData_indexed :: "nat \<Rightarrow> u32 \<Rightarrow> binding_variant \<Rightarrow> nat \<Rightarrow> set_data \<Rightarrow> set_data res" where
  "SetDescriptorData_indexed k ty v index s = (let (i, fresh, m) = flat_emplace k (new_binding ty) (bMap s) in
     if fresh then fill_new i m (index, u32_succ index) [v] s
     else (let b = snd (m ! i) in
       bind_res (ensure (b_count b > 0)) (\<lambda>_.
       let (found, io) = find_index index 0 (b_ranges b) in
       if found
       then bind_res (get_and_assign (b_offset b + io) v (bData s)) (\<lambda>d. Inr (finish_set m d s))
       else bind_res (range_insert (index, u32_succ index) (b_ranges b)) (\<lambda>(rs, _, _).
              let b' = b\<lparr> b_count := b_count b + 1, b_ranges := rs \<rparr>
              in Inr (finish_set (resum_at i (put_value i b' m))
                        (insert_values (b_offset b + io) [v] (bData s)) s)))))"

section \<open>What a set holds\<close>

fun rank :: "nat ranges \<Rightarrow> nat \<Rightarrow> nat option" where
  "rank [] i = None"
| "rank ((low, high) # r) i = (if low \<le> i \<and> i < high then Some (i - low) else map_option ((+) (high - low)) (rank r i))"

definition element :: "set_data \<Rightarrow> nat \<Rightarrow> nat \<Rightarrow> binding_variant option" where
  "element s k i = (case map_of (bMap s) k of None \<Rightarrow> None
     | Some b \<Rightarrow> map_option (\<lambda>r. bData s ! (b_offset b + r)) (rank (b_ranges b) i))"

text \<open>What the driver writes with a template (\<open>vkUpdateDescriptorSetWithTemplate\<close>): entry by entry,
  \<open>count\<close> consecutive values from \<open>offset\<close> into consecutive array elements.\<close>

fun template_writes :: "template_entry list \<Rightarrow> binding_variant list \<Rightarrow> nat \<Rightarrow> nat \<Rightarrow> binding_variant option" where
  "template_writes [] d k i = None"
| "template_writes (e # es) d k i =
     (if dstBinding e = k \<and> dstArrayElement e \<le> i \<and> i < dstArrayElement e + te_count e
      then Some (d ! (te_offset e + (i - dstArrayElement e))) else template_writes es d k i)"

fun range_total :: "nat ranges \<Rightarrow> nat" where
  "range_total [] = 0"
| "range_total ((low, high) # r) = (high - low) + range_total r"

fun offsets_from :: "nat \<Rightarrow> bindingsMap \<Rightarrow> bool" where
  "offsets_from o' [] = True"
| "offsets_from o' ((k, b) # r) = (b_offset b = o' \<and> offsets_from (o' + b_count b) r)"

definition set_data_ok :: "set_data \<Rightarrow> bool" where
  "set_data_ok s \<longleftrightarrow> sorted_wrt (<) (map fst (bMap s)) \<and> offsets_from 0 (bMap s)
     \<and> length (bData s) = sum_list (map (b_count \<circ> snd) (bMap s))
     \<and> (\<forall>(k, b)\<in>set (bMap s). wf_ranges (b_ranges b) \<and> range_total (b_ranges b) = b_count b \<and> b_count b > 0)
     \<and> templateEntries s = template_of (bMap s)"

end
