(* ===== verification/Driver_Calls.thy ===== *)
theory Driver_Calls
imports Render_Target Descriptor_Data
begin

text \<open>
  The calls to the driver that create and destroy device objects (\<open>rhi/vulkan/device.cpp\<close> and the classes
  that wrap a handle), update and bind descriptor sets, and bind pipelines, with the structures they take.
  A call names the command buffer, the handles and the values it is given.
\<close>

section \<open>Calls and handles\<close>

datatype handle_kind = HSampler | HSemaphore | HFence | HBuffer | HImage | HBufferView | HSetLayout | HDescriptorSet
  | HTemplate | HPipelineLayout | HShaderModule | HPipeline | HPipelineCache | HDescriptorPool

record sampler_info =
  smp_flags :: u32
  smp_filters :: "nat \<times> nat \<times> nat"
  smp_addressModes :: "nat \<times> nat \<times> nat"
  smp_anisotropy :: bool
  smp_compareOp :: nat

record layout_binding =
  lb_binding :: nat
  lb_type :: nat
  lb_count :: nat
  lb_stages :: u32
  lb_immutableSamplers :: "nat list"

record template_info =
  ti_push :: bool
  ti_setLayout :: nat
  ti_bindPoint :: bind_point
  ti_pipelineLayout :: nat
  ti_set :: nat

section \<open>What a pipeline is made of\<close>

text \<open>Enumerations are their Vulkan values; the floating-point numbers that occur are whole.\<close>

record stage_info =
  st_stage :: u32
  st_module :: nat
  st_name :: string

record vertex_input =
  vi_bindings :: "(nat \<times> nat \<times> nat) list"
  vi_attributes :: "(nat \<times> nat \<times> nat \<times> nat) list"

record viewport =
  vp_x :: nat
  vp_y :: nat
  vp_width :: nat
  vp_height :: nat
  vp_minDepth :: nat
  vp_maxDepth :: nat

record rect =
  rc_x :: nat
  rc_y :: nat
  rc_width :: nat
  rc_height :: nat

record rasterization_state =
  rs_depthClamp :: bool
  rs_discard :: bool
  rs_polygonMode :: nat
  rs_cullMode :: nat
  rs_frontFace :: nat
  rs_depthBias :: bool
  rs_lineWidth :: nat

record multisample_state =
  mss_samples :: nat
  mss_sampleShading :: bool
  mss_minSampleShading :: nat
  mss_alphaToCoverage :: bool
  mss_alphaToOne :: bool

record depth_stencil_state =
  dss_depthTest :: bool
  dss_depthWrite :: bool
  dss_compareOp :: nat
  dss_boundsTest :: bool
  dss_stencilTest :: bool
  dss_minDepth :: nat
  dss_maxDepth :: nat

record blend_attachment =
  ba_enable :: bool
  ba_color :: "nat \<times> nat \<times> nat"
  ba_alpha :: "nat \<times> nat \<times> nat"
  ba_writeMask :: u32

text \<open>\<open>Pipeline::GraphicsState\<close>; the pointer to the rendering info of a render target is the target.\<close>

record gfx_state =
  gs_shaderStages :: "stage_info list"
  gs_stageFlags :: u32
  gs_vertexInput :: vertex_input
  gs_topology :: nat
  gs_primitiveRestart :: bool
  gs_viewports :: "viewport list"
  gs_scissorRects :: "rect list"
  gs_rasterization :: rasterization_state
  gs_multisample :: multisample_state
  gs_depthStencil :: depth_stencil_state
  gs_blendAttachments :: "blend_attachment list"
  gs_logicOp :: "bool \<times> nat"
  gs_dynamicStates :: "nat list"
  gs_dynamicRendering :: "nat option"

record gfx_pipeline_info =
  gpi_state :: gfx_state
  gpi_rendering :: "pipeline_rendering_info option"
  gpi_layout :: nat
  gpi_renderPass :: nat

section \<open>Calls\<close>

datatype object_info =
    SamplerInfo sampler_info
  | SemaphoreInfo nat u32
  | FenceInfo u32
  | BufferViewInfo nat vk_format nat nat
  | SetLayoutInfo u32 "layout_binding list" "u32 list"
  | DescriptorSetsInfo nat "nat list"
  | TemplateInfo template_info "template_entry list"
  | PipelineLayoutInfo "nat list" "(u32 \<times> nat \<times> nat) list"
  | ShaderModuleInfo "u8 list"
  | DescriptorPoolInfo "(nat \<times> nat) list" nat nat u32
  | PipelineCacheInfo "u8 list"
  | GraphicsPipelineInfo nat gfx_pipeline_info
  | ComputePipelineInfo nat stage_info nat

fun kind_of :: "object_info \<Rightarrow> handle_kind" where
  "kind_of (SamplerInfo _) = HSampler"
| "kind_of (SemaphoreInfo _ _) = HSemaphore"
| "kind_of (FenceInfo _) = HFence"
| "kind_of (BufferViewInfo _ _ _ _) = HBufferView"
| "kind_of (SetLayoutInfo _ _ _) = HSetLayout"
| "kind_of (DescriptorSetsInfo _ _) = HDescriptorSet"
| "kind_of (TemplateInfo _ _) = HTemplate"
| "kind_of (PipelineLayoutInfo _ _) = HPipelineLayout"
| "kind_of (ShaderModuleInfo _) = HShaderModule"
| "kind_of (DescriptorPoolInfo _ _ _ _) = HDescriptorPool"
| "kind_of (PipelineCacheInfo _) = HPipelineCache"
| "kind_of (GraphicsPipelineInfo _ _) = HPipeline"
| "kind_of (ComputePipelineInfo _ _ _) = HPipeline"

text \<open>Descriptor sets belong to a pool; other handles are of pool 0.\<close>

fun info_pool :: "object_info \<Rightarrow> nat" where
  "info_pool (DescriptorSetsInfo pool _) = pool"
| "info_pool _ = 0"

datatype obj_call =
    VkCall vk_call
  | ObjCreate object_info "nat list"
  | ObjDestroy handle_kind nat nat "nat list"
  | UpdateDescriptorSetCall nat nat "binding_variant list"
  | CmdBindDescriptorSet nat nat bind_point nat nat "nat option"
  | CmdPushDescriptorSet nat nat nat nat "binding_variant list"
  | CmdBindPipeline nat bind_point nat

end
