(* ===== verification/Device_Objects.thy ===== *)
theory Device_Objects
imports Driver_Calls "HOL-Library.Multiset"
begin

text \<open>
  Objects that own handles of the device: the base class \<open>DeviceObject\<close> and the registry of named handles
  (\<open>rhi/device.h\<close>, \<open>rhi/vulkan/device.cpp\<close>), and the classes that own one kind of handle each
  (\<open>rhi/vulkan/semaphore.cpp\<close>, \<open>fence.cpp\<close>, \<open>sampler.cpp\<close>, \<open>buffer.cpp\<close>). A moved-from or default
  constructed object has no device. Uuids are numbers, 0 the nil uuid; the hash of a uuid is a parameter.
\<close>

section \<open>The registry of named handles\<close>

record object_name =
  on_type :: nat
  on_handle :: nat
  on_name :: string

record registry =
  reg_infos :: "u64 \<Rightarrow> object_name list"
  reg_counts :: "nat \<Rightarrow> u32"

definition registry_new :: registry where
  "registry_new = \<lparr> reg_infos = (\<lambda>_. []), reg_counts = (\<lambda>_. 0) \<rparr>"

definition AddOwnedObjectHandle :: "u64 \<Rightarrow> nat \<Rightarrow> nat \<Rightarrow> string \<Rightarrow> registry \<Rightarrow> registry" where
  "AddOwnedObjectHandle ownerIdHash type handle name r = (if handle = 0 then r
     else \<lparr> reg_infos = (reg_infos r)(ownerIdHash := reg_infos r ownerIdHash
              @ [\<lparr> on_type = type, on_handle = handle, on_name = name \<rparr>]),
            reg_counts = (reg_counts r)(type := reg_counts r type + 1) \<rparr>)"

fun erase_first :: "nat \<Rightarrow> object_name list \<Rightarrow> object_name option \<times> object_name list" where
  "erase_first handle [] = (None, [])"
| "erase_first handle (i # is) = (if on_handle i = handle then (Some i, is)
     else (let (found, is') = erase_first handle is in (found, i # is')))"

definition EraseOwnedObjectHandle :: "u64 \<Rightarrow> nat \<Rightarrow> registry \<Rightarrow> registry" where
  "EraseOwnedObjectHandle ownerIdHash handle r = (if handle = 0 then r
     else (case erase_first handle (reg_infos r ownerIdHash) of
         (None, _) \<Rightarrow> r
       | (Some i, is) \<Rightarrow> \<lparr> reg_infos = (reg_infos r)(ownerIdHash := is),
                            reg_counts = (reg_counts r)(on_type i := reg_counts r (on_type i) - 1) \<rparr>))"

definition ClearOwnedObjectHandles :: "u64 \<Rightarrow> registry \<Rightarrow> registry" where
  "ClearOwnedObjectHandles ownerIdHash r =
     \<lparr> reg_infos = (reg_infos r)(ownerIdHash := []),
       reg_counts = fold (\<lambda>i c. c(on_type i := c (on_type i) - 1)) (reg_infos r ownerIdHash) (reg_counts r) \<rparr>"

definition GetTypeCount :: "nat \<Rightarrow> registry \<Rightarrow> u32" where
  "GetTypeCount type r = reg_counts r type"

section \<open>The environment\<close>

text \<open>The validation level, the hash of a uuid, the answers of the driver and the generated uuids.\<close>

record world =
  w_calls :: "obj_call list"
  w_registry :: registry

definition world_new :: world where
  "world_new = \<lparr> w_calls = [], w_registry = registry_new \<rparr>"

record obj_env =
  oe_validation :: bool
  oe_hash :: "nat \<Rightarrow> u64"
  oe_object :: "obj_call list \<Rightarrow> object_info \<Rightarrow> nat"
  oe_sets :: "obj_call list \<Rightarrow> object_info \<Rightarrow> nat \<Rightarrow> nat"
  oe_driver :: driver
  oe_uuid :: "world \<Rightarrow> nat"

definition call :: "obj_call \<Rightarrow> world \<Rightarrow> world" where
  "call c w = w\<lparr> w_calls := w_calls w @ [c] \<rparr>"

definition create_object :: "obj_env \<Rightarrow> object_info \<Rightarrow> world \<Rightarrow> nat \<times> world" where
  "create_object e info w = (let h = oe_object e (w_calls w) info in (h, call (ObjCreate info [h]) w))"

text \<open>\<open>uuid_system_generator\<close> never answers with the nil uuid.\<close>

definition new_uuid :: "obj_env \<Rightarrow> world \<Rightarrow> nat" where
  "new_uuid e w = Suc (oe_uuid e w)"

fun vk_calls :: "obj_call list \<Rightarrow> vk" where
  "vk_calls [] = []"
| "vk_calls (VkCall c # cs) = c # vk_calls cs"
| "vk_calls (_ # cs) = vk_calls cs"

text \<open>Runs an operation of \<open>rhi/vulkan/utils.cpp\<close> and appends the calls it makes.\<close>

definition lift_vk :: "(vk \<Rightarrow> ('a \<times> vk) res) \<Rightarrow> world \<Rightarrow> ('a \<times> world) res" where
  "lift_vk f w = bind_res (f (vk_calls (w_calls w))) (\<lambda>(a, v).
     Inr (a, w\<lparr> w_calls := w_calls w @ map VkCall (drop (length (vk_calls (w_calls w))) v) \<rparr>))"

section \<open>DeviceObject\<close>

record device_object =
  do_device :: "nat option"
  do_name :: string
  do_uuid :: nat

definition device_object_default :: device_object where
  "device_object_default = \<lparr> do_device = None, do_name = [], do_uuid = 0 \<rparr>"

definition IsValid :: "'a device_object_scheme \<Rightarrow> bool" where
  "IsValid o' \<longleftrightarrow> do_uuid o' \<noteq> 0"

text \<open>\<open>std::format("{}{}", name, count)\<close>.\<close>

fun dec_string :: "nat \<Rightarrow> string" where
  "dec_string n = (if n < 10 then [char_of (48 + n)] else dec_string (n div 10) @ [char_of (48 + n mod 10)])"

declare dec_string.simps [simp del]

definition DeviceObject_new :: "nat \<Rightarrow> string \<Rightarrow> nat \<Rightarrow> device_object" where
  "DeviceObject_new dev name uuid = \<lparr> do_device = Some dev, do_name = name, do_uuid = uuid \<rparr>"

definition register_handles :: "obj_env \<Rightarrow> nat \<Rightarrow> string \<Rightarrow> nat \<Rightarrow> nat list \<Rightarrow> world \<Rightarrow> world" where
  "register_handles e uuid name type handles w = (if oe_validation e
     then w\<lparr> w_registry := fold (\<lambda>h r. AddOwnedObjectHandle (oe_hash e uuid) type h
                (name @ dec_string (unat (GetTypeCount type r))) r) handles (w_registry w) \<rparr>
     else w)"

definition DeviceObject_named :: "obj_env \<Rightarrow> nat \<Rightarrow> string \<Rightarrow> nat \<Rightarrow> nat list \<Rightarrow> world \<Rightarrow> device_object \<times> world" where
  "DeviceObject_named e dev name type handles w = (let uuid = new_uuid e w in
     (DeviceObject_new dev name uuid, register_handles e uuid name type handles w))"

definition DeviceObject_destroy :: "obj_env \<Rightarrow> 'a device_object_scheme \<Rightarrow> world \<Rightarrow> world" where
  "DeviceObject_destroy e o' w = (if oe_validation e \<and> do_device o' \<noteq> None
     then w\<lparr> w_registry := ClearOwnedObjectHandles (oe_hash e (do_uuid o')) (w_registry w) \<rparr> else w)"

text \<open>The parts that a move takes from the other object and that it leaves there; for the constructor
  \<open>this\<close> is default constructed. \<open>Swap\<close> also leaves the name.\<close>

definition take_base :: "'a device_object_scheme \<Rightarrow> 'b device_object_scheme \<Rightarrow> 'a device_object_scheme" where
  "take_base this other = this\<lparr> do_device := do_device other, do_name := do_name other, do_uuid := do_uuid other \<rparr>"

definition left_base :: "'a device_object_scheme \<Rightarrow> 'b device_object_scheme \<Rightarrow> 'b device_object_scheme" where
  "left_base this other = other\<lparr> do_device := do_device this, do_name := [], do_uuid := do_uuid this \<rparr>"

text \<open>Destroying a handle uses the device of the object.\<close>

definition destroy_handles :: "handle_kind \<Rightarrow> nat \<Rightarrow> 'a device_object_scheme \<Rightarrow> nat list \<Rightarrow> world \<Rightarrow> world res" where
  "destroy_handles k pool o' hs w = (case do_device o' of None \<Rightarrow> Inl Undefined
     | Some dev \<Rightarrow> Inr (call (ObjDestroy k dev pool hs) w))"

section \<open>Waiting\<close>

datatype vk_result = VK_SUCCESS | VK_TIMEOUT | VK_ERROR nat

text \<open>\<open>VK_CHECK_RESULT\<close> only looks at the result when the profiling level is above 0.\<close>

definition waited :: "bool \<Rightarrow> vk_result \<Rightarrow> bool res" where
  "waited checks r = (if r = VK_SUCCESS then Inr True
     else if checks \<and> r \<noteq> VK_TIMEOUT then Inl RuntimeError else Inr False)"

record wait_info =
  wi_semaphores :: "nat list"
  wi_values :: "u64 list option"
  wi_timeout :: u64

section \<open>Semaphores\<close>

definition SEMAPHORE_TYPE_BINARY :: nat where "SEMAPHORE_TYPE_BINARY = 0"
definition SEMAPHORE_TYPE_TIMELINE :: nat where "SEMAPHORE_TYPE_TIMELINE = 1"

record semaphore = device_object +
  sem_handle :: nat
  sem_type :: nat
  sem_flags :: u32

definition semaphore_default :: semaphore where
  "semaphore_default = \<lparr> do_device = None, do_name = [], do_uuid = 0, sem_handle = 0, sem_type = 0, sem_flags = 0 \<rparr>"

definition OBJECT_TYPE_SEMAPHORE :: nat where "OBJECT_TYPE_SEMAPHORE = 5"

definition Semaphore_new :: "obj_env \<Rightarrow> nat \<Rightarrow> nat \<times> u32 \<Rightarrow> world \<Rightarrow> (semaphore \<times> world) res" where
  "Semaphore_new e dev desc w = (let (h, w1) = create_object e (SemaphoreInfo (fst desc) (snd desc)) w;
      (b, w2) = DeviceObject_named e dev ''_Semaphore'' OBJECT_TYPE_SEMAPHORE [h] w1
    in Inr (take_base (semaphore_default\<lparr> sem_handle := h, sem_type := fst desc, sem_flags := snd desc \<rparr>) b, w2))"

definition Semaphore_assign :: "semaphore \<Rightarrow> semaphore \<Rightarrow> semaphore \<times> semaphore" where
  "Semaphore_assign this other =
     ((take_base this other)\<lparr> sem_handle := sem_handle other, sem_type := sem_type other, sem_flags := sem_flags other \<rparr>,
      (left_base this other)\<lparr> sem_handle := sem_handle this, sem_type := 0, sem_flags := 0 \<rparr>)"

definition Semaphore_move :: "semaphore \<Rightarrow> semaphore \<times> semaphore" where
  "Semaphore_move other = Semaphore_assign semaphore_default other"

text \<open>\<open>Swap\<close> does not exchange the descriptions.\<close>

definition Semaphore_Swap :: "semaphore \<Rightarrow> semaphore \<Rightarrow> semaphore \<times> semaphore" where
  "Semaphore_Swap this rhs = ((take_base this rhs)\<lparr> sem_handle := sem_handle rhs \<rparr>,
                              (take_base rhs this)\<lparr> sem_handle := sem_handle this \<rparr>)"

definition Semaphore_destroy :: "obj_env \<Rightarrow> semaphore \<Rightarrow> world \<Rightarrow> world res" where
  "Semaphore_destroy e s w = bind_res (if sem_handle s \<noteq> 0 then destroy_handles HSemaphore 0 s [sem_handle s] w else Inr w)
     (\<lambda>w'. Inr (DeviceObject_destroy e s w'))"

definition Semaphore_wait_info :: "semaphore \<Rightarrow> u64 \<Rightarrow> u64 \<Rightarrow> wait_info" where
  "Semaphore_wait_info s timelineValue timeout = \<lparr> wi_semaphores = [sem_handle s],
     wi_values = (if sem_type s = SEMAPHORE_TYPE_TIMELINE then Some [timelineValue] else None), wi_timeout = timeout \<rparr>"

definition Semaphore_Wait :: "bool \<Rightarrow> (wait_info \<Rightarrow> vk_result) \<Rightarrow> semaphore \<Rightarrow> u64 \<Rightarrow> u64 \<Rightarrow> bool res" where
  "Semaphore_Wait checks driver' s timelineValue timeout = (case do_device s of None \<Rightarrow> Inl Undefined
     | Some _ \<Rightarrow> waited checks (driver' (Semaphore_wait_info s timelineValue timeout)))"

definition Semaphore_Wait_all :: "bool \<Rightarrow> (wait_info \<Rightarrow> vk_result) \<Rightarrow> nat list \<Rightarrow> u64 list \<Rightarrow> u64 \<Rightarrow> bool res" where
  "Semaphore_Wait_all checks driver' semaphores values timeout =
     waited checks (driver' \<lparr> wi_semaphores = semaphores, wi_values = Some values, wi_timeout = timeout \<rparr>)"

section \<open>Fences\<close>

record fence = device_object +
  fen_handle :: nat

definition fence_default :: fence where
  "fence_default = \<lparr> do_device = None, do_name = [], do_uuid = 0, fen_handle = 0 \<rparr>"

definition OBJECT_TYPE_FENCE :: nat where "OBJECT_TYPE_FENCE = 7"

definition Fence_new :: "obj_env \<Rightarrow> nat \<Rightarrow> string \<times> u32 \<Rightarrow> world \<Rightarrow> (fence \<times> world) res" where
  "Fence_new e dev desc w = (let (h, w1) = create_object e (FenceInfo (snd desc)) w;
      (b, w2) = DeviceObject_named e dev (fst desc) OBJECT_TYPE_FENCE [h] w1
    in Inr (take_base (fence_default\<lparr> fen_handle := h \<rparr>) b, w2))"

definition Fence_assign :: "fence \<Rightarrow> fence \<Rightarrow> fence \<times> fence" where
  "Fence_assign this other = ((take_base this other)\<lparr> fen_handle := fen_handle other \<rparr>,
                              (left_base this other)\<lparr> fen_handle := fen_handle this \<rparr>)"

definition Fence_move :: "fence \<Rightarrow> fence \<times> fence" where
  "Fence_move other = Fence_assign fence_default other"

definition Fence_Swap :: "fence \<Rightarrow> fence \<Rightarrow> fence \<times> fence" where
  "Fence_Swap this rhs = ((take_base this rhs)\<lparr> fen_handle := fen_handle rhs \<rparr>,
                          (take_base rhs this)\<lparr> fen_handle := fen_handle this \<rparr>)"

definition Fence_destroy :: "obj_env \<Rightarrow> fence \<Rightarrow> world \<Rightarrow> world res" where
  "Fence_destroy e f w = bind_res (if fen_handle f \<noteq> 0 then destroy_handles HFence 0 f [fen_handle f] w else Inr w)
     (\<lambda>w'. Inr (DeviceObject_destroy e f w'))"

definition Fence_Wait :: "bool \<Rightarrow> (nat list \<Rightarrow> bool \<Rightarrow> u64 \<Rightarrow> vk_result) \<Rightarrow> fence \<Rightarrow> u64 \<Rightarrow> bool res" where
  "Fence_Wait checks driver' f timeout = (case do_device f of None \<Rightarrow> Inl Undefined
     | Some _ \<Rightarrow> waited checks (driver' [fen_handle f] True timeout))"

definition Fence_Wait_all :: "bool \<Rightarrow> (nat list \<Rightarrow> bool \<Rightarrow> u64 \<Rightarrow> vk_result) \<Rightarrow> nat list \<Rightarrow> bool \<Rightarrow> u64 \<Rightarrow> bool res" where
  "Fence_Wait_all checks driver' fences waitAll timeout = waited checks (driver' fences waitAll timeout)"

section \<open>Samplers\<close>

record sampler_vector = device_object +
  smp_handles :: "nat list"

definition sampler_vector_default :: sampler_vector where
  "sampler_vector_default = \<lparr> do_device = None, do_name = [], do_uuid = 0, smp_handles = [] \<rparr>"

definition OBJECT_TYPE_SAMPLER :: nat where "OBJECT_TYPE_SAMPLER = 21"

fun create_samplers :: "obj_env \<Rightarrow> sampler_info list \<Rightarrow> world \<Rightarrow> nat list \<times> world" where
  "create_samplers e [] w = ([], w)"
| "create_samplers e (i # is) w = (let (h, w1) = create_object e (SamplerInfo i) w; (hs, w2) = create_samplers e is w1
     in (h # hs, w2))"

definition SamplerVector_new :: "obj_env \<Rightarrow> nat \<Rightarrow> sampler_info list \<Rightarrow> world \<Rightarrow> (sampler_vector \<times> world) res" where
  "SamplerVector_new e dev infos w = (let (hs, w1) = create_samplers e infos w;
      (b, w2) = DeviceObject_named e dev ''_Sampler'' OBJECT_TYPE_SAMPLER hs w1
    in Inr (take_base (sampler_vector_default\<lparr> smp_handles := hs \<rparr>) b, w2))"

definition SamplerVector_assign :: "sampler_vector \<Rightarrow> sampler_vector \<Rightarrow> sampler_vector \<times> sampler_vector" where
  "SamplerVector_assign this other = ((take_base this other)\<lparr> smp_handles := smp_handles other \<rparr>,
                                      (left_base this other)\<lparr> smp_handles := smp_handles this \<rparr>)"

definition SamplerVector_move :: "sampler_vector \<Rightarrow> sampler_vector \<times> sampler_vector" where
  "SamplerVector_move other = SamplerVector_assign sampler_vector_default other"

definition SamplerVector_Swap :: "sampler_vector \<Rightarrow> sampler_vector \<Rightarrow> sampler_vector \<times> sampler_vector" where
  "SamplerVector_Swap this rhs = ((take_base this rhs)\<lparr> smp_handles := smp_handles rhs \<rparr>,
                                  (take_base rhs this)\<lparr> smp_handles := smp_handles this \<rparr>)"

definition SamplerVector_destroy :: "obj_env \<Rightarrow> sampler_vector \<Rightarrow> world \<Rightarrow> world res" where
  "SamplerVector_destroy e s w = bind_res (fold_res (\<lambda>h. destroy_handles HSampler 0 s [h]) (smp_handles s) w)
     (\<lambda>w'. Inr (DeviceObject_destroy e s w'))"

section \<open>Buffers\<close>

text \<open>The name of a description is a view of a string and is not kept here.\<close>

record buffer_desc =
  bd_size :: nat
  bd_usage :: "usage set"
  bd_memory :: "mem_flag set"

definition buffer_desc_default :: buffer_desc where
  "buffer_desc_default = \<lparr> bd_size = 0, bd_usage = {}, bd_memory = {} \<rparr>"

record buffer_obj = device_object +
  buf_buffer :: nat
  buf_memory :: nat
  buf_desc :: buffer_desc

definition buffer_default :: buffer_obj where
  "buffer_default = \<lparr> do_device = None, do_name = [], do_uuid = 0, buf_buffer = 0, buf_memory = 0,
     buf_desc = buffer_desc_default \<rparr>"

definition OBJECT_TYPE_BUFFER :: nat where "OBJECT_TYPE_BUFFER = 9"

definition Buffer_of :: "obj_env \<Rightarrow> nat \<Rightarrow> nat \<times> nat \<Rightarrow> string \<Rightarrow> buffer_desc \<Rightarrow> world \<Rightarrow> buffer_obj \<times> world" where
  "Buffer_of e dev bm name desc w = (let (b, w') = DeviceObject_named e dev name OBJECT_TYPE_BUFFER [fst bm] w
     in (take_base (buffer_default\<lparr> buf_buffer := fst bm, buf_memory := snd bm, buf_desc := desc \<rparr>) b, w'))"

definition Buffer_new :: "obj_env \<Rightarrow> nat \<Rightarrow> string \<times> buffer_desc \<Rightarrow> world \<Rightarrow> (buffer_obj \<times> world) res" where
  "Buffer_new e dev nd w = (case nd of (name, desc) \<Rightarrow>
     bind_res (lift_vk (\<lambda>v. Inr (CreateBuffer (oe_driver e) (bd_size desc) (bd_usage desc) (bd_memory desc) name v)) w)
       (\<lambda>(bm, w1). Inr (Buffer_of e dev bm name desc w1)))"

text \<open>A buffer filled from a staging buffer, and the task that frees the staging buffer later.\<close>

definition Buffer_upload :: "obj_env \<Rightarrow> nat \<Rightarrow> nat \<Rightarrow> string \<Rightarrow> buffer_desc \<Rightarrow> world \<Rightarrow> (buffer_obj \<times> obj_call list \<times> world) res" where
  "Buffer_upload e dev staging name desc w =
     bind_res (lift_vk (CreateBuffer_staged (oe_driver e) staging (bd_size desc) (bd_usage desc) (bd_memory desc) name) w)
       (\<lambda>(bm, w1). let (o', w2) = Buffer_of e dev bm name desc w1 in Inr (o', [VkCall (DestroyBufferCall staging)], w2))"

definition Buffer_from_data ::
  "obj_env \<Rightarrow> nat \<Rightarrow> string \<Rightarrow> buffer_desc \<Rightarrow> u8 list \<Rightarrow> world \<Rightarrow> (buffer_obj \<times> obj_call list \<times> world) res" where
  "Buffer_from_data e dev name desc initialData w =
     bind_res (lift_vk (CreateStagingBuffer (oe_driver e) initialData (bd_size desc) name) w)
       (\<lambda>((staging, memory), w1). Buffer_upload e dev staging name desc w1)"

definition Buffer_assign :: "buffer_obj \<Rightarrow> buffer_obj \<Rightarrow> buffer_obj \<times> buffer_obj" where
  "Buffer_assign this other =
     ((take_base this other)\<lparr> buf_buffer := buf_buffer other, buf_memory := buf_memory other, buf_desc := buf_desc other \<rparr>,
      (left_base this other)\<lparr> buf_buffer := buf_buffer this, buf_memory := buf_memory this, buf_desc := buffer_desc_default \<rparr>)"

definition Buffer_move :: "buffer_obj \<Rightarrow> buffer_obj \<times> buffer_obj" where
  "Buffer_move other = Buffer_assign buffer_default other"

definition Buffer_Swap :: "buffer_obj \<Rightarrow> buffer_obj \<Rightarrow> buffer_obj \<times> buffer_obj" where
  "Buffer_Swap this rhs =
     ((take_base this rhs)\<lparr> buf_buffer := buf_buffer rhs, buf_memory := buf_memory rhs, buf_desc := buf_desc rhs \<rparr>,
      (take_base rhs this)\<lparr> buf_buffer := buf_buffer this, buf_memory := buf_memory this, buf_desc := buf_desc this \<rparr>)"

definition Buffer_destroy :: "obj_env \<Rightarrow> buffer_obj \<Rightarrow> world \<Rightarrow> world res" where
  "Buffer_destroy e b w = bind_res (if buf_buffer b = 0 then Inr w
       else case do_device b of None \<Rightarrow> Inl Undefined | Some _ \<Rightarrow> Inr (call (VkCall (DestroyBufferCall (buf_buffer b))) w))
     (\<lambda>w'. Inr (DeviceObject_destroy e b w'))"

record buffer_view = device_object +
  bv_view :: nat

definition buffer_view_default :: buffer_view where
  "buffer_view_default = \<lparr> do_device = None, do_name = [], do_uuid = 0, bv_view = 0 \<rparr>"

definition OBJECT_TYPE_BUFFER_VIEW :: nat where "OBJECT_TYPE_BUFFER_VIEW = 13"

definition BufferView_new :: "obj_env \<Rightarrow> nat \<Rightarrow> nat \<times> vk_format \<times> nat \<times> nat \<Rightarrow> world \<Rightarrow> (buffer_view \<times> world) res" where
  "BufferView_new e dev desc w = (case desc of (buffer, format, offset, rng) \<Rightarrow>
     let (h, w1) = create_object e (BufferViewInfo buffer format offset rng) w;
         (b, w2) = DeviceObject_named e dev ''_View'' OBJECT_TYPE_BUFFER_VIEW [h] w1
     in Inr (take_base (buffer_view_default\<lparr> bv_view := h \<rparr>) b, w2))"

definition BufferView_assign :: "buffer_view \<Rightarrow> buffer_view \<Rightarrow> buffer_view \<times> buffer_view" where
  "BufferView_assign this other = ((take_base this other)\<lparr> bv_view := bv_view other \<rparr>,
                                   (left_base this other)\<lparr> bv_view := bv_view this \<rparr>)"

definition BufferView_move :: "buffer_view \<Rightarrow> buffer_view \<times> buffer_view" where
  "BufferView_move other = BufferView_assign buffer_view_default other"

definition BufferView_Swap :: "buffer_view \<Rightarrow> buffer_view \<Rightarrow> buffer_view \<times> buffer_view" where
  "BufferView_Swap this rhs = ((take_base this rhs)\<lparr> bv_view := bv_view rhs \<rparr>,
                               (take_base rhs this)\<lparr> bv_view := bv_view this \<rparr>)"

definition BufferView_destroy :: "obj_env \<Rightarrow> buffer_view \<Rightarrow> world \<Rightarrow> world res" where
  "BufferView_destroy e b w = bind_res (if bv_view b \<noteq> 0 then destroy_handles HBufferView 0 b [bv_view b] w else Inr w)
     (\<lambda>w'. Inr (DeviceObject_destroy e b w'))"

section \<open>The counts of the registry\<close>

datatype reg_op = RegAdd u64 nat nat string | RegErase u64 nat | RegClear u64

fun reg_exec :: "reg_op \<Rightarrow> registry \<Rightarrow> registry" where
  "reg_exec (RegAdd k type h name) r = AddOwnedObjectHandle k type h name r"
| "reg_exec (RegErase k h) r = EraseOwnedObjectHandle k h r"
| "reg_exec (RegClear k) r = ClearOwnedObjectHandles k r"

definition typed :: "nat \<Rightarrow> object_name list \<Rightarrow> nat" where
  "typed type is = length (filter (\<lambda>i. on_type i = type) is)"

definition registered :: "nat \<Rightarrow> registry \<Rightarrow> nat" where
  "registered type r = (\<Sum>k\<in>UNIV. typed type (reg_infos r k))"

lemma registered_update:
  "registered type \<lparr> reg_infos = (reg_infos r)(k := is), reg_counts = c \<rparr> + typed type (reg_infos r k) = registered type r + typed type is"
proof -
  have "(\<Sum>x\<in>UNIV. typed type (((reg_infos r)(k := is)) x)) = typed type is + (\<Sum>x\<in>UNIV - {k}. typed type (reg_infos r x))"
    by (subst sum.remove [of UNIV k]) (auto intro!: arg_cong2 [of _ _ _ _ "(+)"] sum.cong)
  moreover have "(\<Sum>x\<in>UNIV. typed type (reg_infos r x)) = typed type (reg_infos r k) + (\<Sum>x\<in>UNIV - {k}. typed type (reg_infos r x))"
    by (rule sum.remove) auto
  ultimately show ?thesis by (simp add: registered_def)
qed

lemma erase_first_typed:
  "erase_first h is = (Some i, is') \<Longrightarrow> typed t is = typed t is' + (if on_type i = t then 1 else 0)"
  by (induction "is" arbitrary: is') (auto simp: typed_def split: if_splits prod.splits)

lemma fold_counts:
  "fold (\<lambda>i c. c(on_type i := c (on_type i) - (1 :: u32))) is c t = c t - of_nat (typed t is)"
  by (induction "is" arbitrary: c) (auto simp: typed_def)

lemma reg_exec_counts:
  assumes "\<And>t. reg_counts r t = of_nat (registered t r)"
  shows "reg_counts (reg_exec op r) t = of_nat (registered t (reg_exec op r))"
proof (cases op)
  case (RegAdd k type h name)
  have "registered t (reg_exec op r) = registered t r + (if h \<noteq> 0 \<and> t = type then 1 else 0)"
    using registered_update [of t r k "reg_infos r k @ [\<lparr> on_type = type, on_handle = h, on_name = name \<rparr>]"]
    by (auto simp: RegAdd AddOwnedObjectHandle_def typed_def)
  then show ?thesis using assms by (simp add: RegAdd AddOwnedObjectHandle_def)
next
  case (RegErase k h)
  obtain found is' where f: "erase_first h (reg_infos r k) = (found, is')" by fastforce
  show ?thesis
  proof (cases "h = 0 \<or> found = None")
    case True
    then show ?thesis using assms f by (auto simp: RegErase EraseOwnedObjectHandle_def)
  next
    case False
    then obtain i where i: "found = Some i" "h \<noteq> 0" by auto
    have "registered t r = registered t (reg_exec op r) + (if on_type i = t then 1 else 0)"
      using registered_update [of t r k is'] erase_first_typed [of h "reg_infos r k" i is' t] f i
      by (auto simp: RegErase EraseOwnedObjectHandle_def)
    then show ?thesis using assms [of t] f i by (auto simp: RegErase EraseOwnedObjectHandle_def diff_eq_eq)
  qed
next
  case (RegClear k)
  have "registered t r = registered t (reg_exec op r) + typed t (reg_infos r k)"
    using registered_update [of t r k "[]"] by (simp add: RegClear ClearOwnedObjectHandles_def typed_def)
  then show ?thesis using assms [of t] by (simp add: RegClear ClearOwnedObjectHandles_def fold_counts)
qed

text \<open>After any history of named, forgotten and cleared handles the count of a type is the number of
  handles of that type that are still registered, under whichever owner.\<close>
theorem registry_counts:
  "GetTypeCount t (fold reg_exec ops registry_new) = of_nat (registered t (fold reg_exec ops registry_new))"
proof -
  have "(\<forall>t. reg_counts r t = of_nat (registered t r)) \<Longrightarrow>
      (\<forall>t. reg_counts (fold reg_exec ops r) t = of_nat (registered t (fold reg_exec ops r)))" for r
    by (induction ops arbitrary: r) (use reg_exec_counts in auto)
  then show ?thesis by (simp add: GetTypeCount_def registry_new_def registered_def typed_def)
qed

end
