(* ===== verification/Transfer_Loading.thy ===== *)
theory Transfer_Loading
imports Frame_Draw Model_Loading Device_Objects
begin

text \<open>
  Loading on the transfer queue: the construction of a \<open>Model\<close> from its two staging buffers and \<open>LoadModel\<close>
  (\<open>rhi/vulkan/model.cpp\<close>), and the transfer part of \<open>LoadImage\<close> (\<open>rhi/vulkan/image.cpp\<close>). A load takes the
  queue, submits one batch that signals the next value of the timeline, and leaves the tasks that free the staging
  memory to that value.
\<close>

section \<open>A model on the device\<close>

record model_obj =
  mo_indexBuffer :: buffer_obj
  mo_vertexBuffer :: buffer_obj
  mo_bindings :: "(u32 \<times> u32 \<times> nat) list"
  mo_desc :: model_desc

definition UsageIndexBuffer :: usage where "UsageIndexBuffer = OtherUsage 0x40"
definition UsageVertexBuffer :: usage where "UsageVertexBuffer = OtherUsage 0x80"
definition UsageStorageBuffer :: usage where "UsageStorageBuffer = OtherUsage 0x20"

text \<open>The buffers are filled from the staging buffers; the two tasks free those later.\<close>

definition Model_new :: "obj_env \<Rightarrow> nat \<Rightarrow> model_load \<Rightarrow> world \<Rightarrow> (model_obj \<times> obj_call list list \<times> world) res" where
  "Model_new e dev initialData w =
     bind_res (Buffer_upload e dev (fst (lo_ib initialData)) ''IndexBuffer''
        \<lparr> bd_size = ib_size initialData, bd_usage = {UsageIndexBuffer}, bd_memory = {DeviceLocal} \<rparr> w) (\<lambda>(ib, t0, w1).
     bind_res (Buffer_upload e dev (fst (lo_vb initialData)) ''VertexBuffer''
        \<lparr> bd_size = vb_size initialData, bd_usage = {UsageVertexBuffer, UsageStorageBuffer}, bd_memory = {DeviceLocal} \<rparr> w1) (\<lambda>(vb, t1, w2).
     Inr (\<lparr> mo_indexBuffer = ib, mo_vertexBuffer = vb,
            mo_bindings = CalculateInputBindingDescriptions (md_attributes (lo_desc initialData)), mo_desc = lo_desc initialData \<rparr>,
          [t0, t1], w2)))"

definition Model_Swap :: "model_obj \<Rightarrow> model_obj \<Rightarrow> model_obj \<times> model_obj" where
  "Model_Swap this rhs = (let (ib, ib') = Buffer_Swap (mo_indexBuffer this) (mo_indexBuffer rhs);
       (vb, vb') = Buffer_Swap (mo_vertexBuffer this) (mo_vertexBuffer rhs)
     in (\<lparr> mo_indexBuffer = ib, mo_vertexBuffer = vb, mo_bindings = mo_bindings rhs, mo_desc = mo_desc rhs \<rparr>,
         \<lparr> mo_indexBuffer = ib', mo_vertexBuffer = vb', mo_bindings = mo_bindings this, mo_desc = mo_desc this \<rparr>))"

section \<open>The transfer queue\<close>

record transfer_state =
  ts_slot :: slot
  ts_timeline :: u64

definition model_sync :: "nat \<Rightarrow> u64 \<Rightarrow> u64 \<Rightarrow> nat list \<Rightarrow> sync_info" where
  "model_sync semaphore lastValue timeline tasks = \<lparr> waitSemaphores = [semaphore], waitDstStageMasks = [0x1000],
     waitSemaphoreValues = [lastValue], signalSemaphores = [semaphore], signalSemaphoreValues = [timeline], callbacks = tasks \<rparr>"

definition LoadModel :: "nat \<Rightarrow> nat list \<Rightarrow> transfer_state \<Rightarrow> transfer_state res" where
  "LoadModel semaphore tasks s =
     bind_res (one_batch (model_sync semaphore (maxTimelineValue (sl_sync (ts_slot s))) (ts_timeline s + 1) tasks) (ts_slot s))
       (\<lambda>sl. Inr \<lparr> ts_slot = sl, ts_timeline = ts_timeline s + 1 \<rparr>)"

text \<open>The scope of an image is a temporary: its client is gone before the batch is enqueued.\<close>

definition image_sync :: "nat \<Rightarrow> u64 \<Rightarrow> nat list \<Rightarrow> sync_info" where
  "image_sync semaphore timeline tasks = \<lparr> waitSemaphores = [], waitDstStageMasks = [], waitSemaphoreValues = [],
     signalSemaphores = [semaphore], signalSemaphoreValues = [timeline], callbacks = tasks \<rparr>"

definition LoadImage :: "nat \<Rightarrow> nat list \<Rightarrow> transfer_state \<Rightarrow> transfer_state res" where
  "LoadImage semaphore tasks s =
     bind_res (fold_res slot_exec [QCommands (scope_desc_default True), QDrop 0,
         QEnqueueSubmit [image_sync semaphore (ts_timeline s + 1) tasks], QSubmit] (ts_slot s))
       (\<lambda>sl. Inr \<lparr> ts_slot = sl, ts_timeline = ts_timeline s + 1 \<rparr>)"

datatype transfer_op = TransferModel nat "nat list" | TransferImage nat "nat list"

fun transfer_exec :: "transfer_op \<Rightarrow> transfer_state \<Rightarrow> transfer_state res" where
  "transfer_exec (TransferModel semaphore tasks) s = LoadModel semaphore tasks s"
| "transfer_exec (TransferImage semaphore tasks) s = LoadImage semaphore tasks s"

definition transfer_start :: "u32 \<Rightarrow> transfer_state" where
  "transfer_start flags = \<lparr> ts_slot = new_slot flags 1, ts_timeline = 0 \<rparr>"

section \<open>A buffer whose client is gone\<close>

definition queue_dropped :: "nat \<Rightarrow> scope \<Rightarrow> qstate \<Rightarrow> bool" where
  "queue_dropped levels p s \<longleftrightarrow> (\<exists>st. q_inv (qs_queue s) (qs_ctx s) st) \<and> queue_calm levels (qs_queue s) \<and> qs_held s = []
     \<and> primary_open (pool0 (qs_queue s)) (qs_ctx s) p 1 \<and> primary_alone (qs_queue s) (qs_ctx s) p \<and> pendingSubmits (qs_queue s) = []
     \<and> (\<forall>l. 0 < l \<longrightarrow> cp_recording (pool0 (qs_queue s)) l = None \<and> cp_pending (pool0 (qs_queue s)) l = [])"

lemma phase_leave:
  assumes "queue_recording levels {} p s"
  shows "\<exists>s'. qexec (QDrop 0) s = Inr s' \<and> queue_dropped levels p s' \<and> calls (qs_ctx s') = calls (qs_ctx s)"
proof -
  let ?q = "qs_queue s" and ?x = "qs_ctx s"
  obtain st where inv: "q_inv ?q ?x st" using assms by (auto simp: queue_recording_def)
  have o: "primary_open (pool0 ?q) ?x p 2" "qs_held s = [p]" "primary_alone ?q ?x p" using assms by (simp_all add: queue_recording_def)
  then obtain r a c where p: "sc_ref p = Some r" "refs ?x r = Some 2" "sc_array p = Some a" "arrays ?x a = Some c" "sd_scopedBeginEnd (sc_desc p)"
    by (auto simp: primary_open_def)
  have d: "scope_destroy p ?x = Inr (?x\<lparr> refs := (refs ?x)(r \<mapsto> 2 - 1) \<rparr>)" (is "_ = Inr ?x'")
    using p by (intro scope_destroy_shared) simp_all
  have "qexec (QDrop 0) s = Inr (s\<lparr> qs_ctx := ?x', qs_held := [] \<rparr>)" using d o(2) by (simp add: erase_at_def)
  moreover have "\<exists>st'. q_inv ?q ?x' st'" by (rule scope_destroy_inv [OF inv d])
  moreover have "primary_open (pool0 ?q) ?x' p 1" "primary_alone ?q ?x' p" using o p by (simp_all add: primary_open_def primary_alone_def)
  ultimately show ?thesis using assms by (simp add: queue_recording_def queue_dropped_def)
qed

text \<open>Enqueueing ends the buffer, since the pool has the last share of the scope.\<close>

lemma phase_enqueue_dropped:
  assumes "queue_dropped levels p s" "signalSemaphoreValues si = v # vs"
  shows "\<exists>s' h. fold_res qexec [QEnqueueSubmit [si]] s = Inr s' \<and> queue_calm levels (qs_queue s') \<and> qs_held s' = []
    \<and> (\<exists>st. q_inv (qs_queue s') (qs_ctx s') st) \<and> (\<forall>l. cp_recording (pool0 (qs_queue s')) l = None \<and> cp_pending (pool0 (qs_queue s')) l = [])
    \<and> pendingSubmits (qs_queue s') = [sync_info.extend si \<lparr> commandBuffers = [h], timelineValue = foldl max v vs \<rparr>]"
proof -
  let ?q = "qs_queue s" and ?x = "qs_ctx s"
  obtain st where inv: "q_inv ?q ?x st" using assms by (auto simp: queue_dropped_def)
  have q: "queue_calm levels ?q" "qs_held s = []" "pendingSubmits ?q = []"
    "\<And>l. 0 < l \<Longrightarrow> cp_recording (pool0 ?q) l = None \<and> cp_pending (pool0 ?q) l = []" using assms by (simp_all add: queue_dropped_def)
  obtain r a t c where p: "cp_recording (pool0 ?q) 0 = Some p" "0 < cp_levels (pool0 ?q)" "sc_ref p = Some r" "refs ?x r = Some 1"
    "sc_array p = Some a" "arrays ?x a = Some c" "ca_flags c = 1" "array_Head c = 1" "cp_pending (pool0 ?q) 0 = [(a, t)]"
    "sd_scopedBeginEnd (sc_desc p)" "sc_index p = 0"
    using assms by (auto simp: queue_dropped_def primary_open_def primary_alone_def)
  let ?pl = "(pool0 ?q)\<lparr> cp_recording := (cp_recording (pool0 ?q))(0 := None) \<rparr>" and ?c = "c\<lparr> ca_flags := 0 \<rparr>"
  obtain x1 where x1: "scope_End p (?x\<lparr> refs := (refs ?x)(r \<mapsto> 0) \<rparr>) = Inr x1" "arrays x1 = (arrays ?x)(a \<mapsto> ?c)"
    using scope_End_open [of p a "?x\<lparr> refs := (refs ?x)(r \<mapsto> 0) \<rparr>" c] p by auto
  have e: "InternalEndCommands 0 (pool0 ?q) ?x = Inr (?pl, x1)"
    using p x1(1) by (simp add: InternalEndCommands_def with_level_def destroy_opt_def scope_destroy_def with_array_def array_Recording_def
        Let_def scope_End_def)
  have "gather [(a, t)] x1 = Inr [cb_of a ?c 0]"
    using p(8) x1(2) by (simp add: with_array_def array_Data_def kCommandBufferCount_def upt_rec array_Head_def)
  then have en: "EnqueueSubmit [si] ?q ?x = Inr (?q\<lparr> pool0 := InternalEnqueueSubmitted 0 (foldl max v vs) ?pl,
       pendingSubmits := pendingSubmits ?q @ [sync_info.extend si \<lparr> commandBuffers = [cb_of a ?c 0], timelineValue = foldl max v vs \<rparr>] \<rparr>, x1)"
      (is "_ = Inr (?q', _)")
    using e p assms(2) by (simp add: InternalPrepareSubmit_def Let_def)
  have "\<exists>st'. q_inv ?q' x1 st'" by (rule EnqueueSubmit_inv [OF inv en])
  moreover have "queue_calm levels ?q'" using q(1) by (simp add: queue_calm_def InternalEnqueueSubmitted_def)
  moreover have "cp_recording (pool0 ?q') l = None \<and> cp_pending (pool0 ?q') l = []" for l
    using q(4) [of l] by (simp add: InternalEnqueueSubmitted_def)
  moreover have "fold_res qexec [QEnqueueSubmit [si]] s = Inr (s\<lparr> qs_queue := ?q', qs_ctx := x1 \<rparr>)" using en by (simp del: EnqueueSubmit.simps)
  ultimately show ?thesis using q(2,3)
    by (intro exI [of _ "s\<lparr> qs_queue := ?q', qs_ctx := x1 \<rparr>"] exI [of _ "cb_of a ?c 0"]) simp
qed

lemma phase_submit_dropped:
  assumes calm: "queue_calm levels (qs_queue s)" "qs_held s = []" "\<exists>st. q_inv (qs_queue s) (qs_ctx s) st"
    "\<forall>l. cp_recording (pool0 (qs_queue s)) l = None \<and> cp_pending (pool0 (qs_queue s)) l = []" and ps: "pendingSubmits (qs_queue s) = [sub]"
  shows "\<exists>s'. qexec QSubmit s = Inr s' \<and> queue_rest levels s' \<and> calls (qs_ctx s') = calls (qs_ctx s) @ [VkQueueSubmit [sub]]
    \<and> fst (Queue_Submit (qs_queue s) (qs_ctx s)) = \<lparr> fences = 1, maxTimelineValue = max 0 (timelineValue sub) \<rparr>"
proof -
  obtain st where inv: "q_inv (qs_queue s) (qs_ctx s) st" using calm(3) by blast
  obtain h q' x' where e: "Queue_Submit (qs_queue s) (qs_ctx s) = (h, q', x')" by (metis surj_pair)
  have h: "h = \<lparr> fences = 1, maxTimelineValue = max 0 (timelineValue sub) \<rparr>" "x' = emit (VkQueueSubmit [sub]) (qs_ctx s)"
    "pendingSubmits q' = []" "pool0 q' = pool0 (qs_queue s)" "pool1 q' = pool1 (qs_queue s)" "pendingPresent q' = pendingPresent (qs_queue s)"
    using e ps by (auto simp: Queue_Submit_def Let_def)
  have "\<exists>st'. q_inv q' x' st'" by (rule Queue_Submit_inv [OF inv e])
  then have "queue_rest levels (s\<lparr> qs_queue := q', qs_ctx := x' \<rparr>)"
    using calm(1,2,4) by (simp add: queue_rest_def queue_calm_def h emit_def)
  then show ?thesis using e h by (simp add: emit_def)
qed

lemma image_batch_rest:
  assumes "slot_rest levels sl" "signalSemaphoreValues si = [v]"
  shows "\<exists>sl'. fold_res slot_exec [QCommands (scope_desc_default True), QDrop 0, QEnqueueSubmit [si], QSubmit] sl = Inr sl'
    \<and> slot_rest levels sl' \<and> sl_sync sl' = host_sync_or (sl_sync sl) \<lparr> fences = 1, maxTimelineValue = max 0 v \<rparr> \<and> last_batch si sl'"
proof -
  have rest: "queue_rest levels (sl_state sl)" using assms(1) by (simp add: slot_rest_def)
  obtain s1 p where s1: "qexec (QCommands (scope_desc_default True)) (sl_state sl) = Inr s1" "queue_recording levels {} p s1"
    using phase_begin [OF rest] by blast
  obtain s2 where s2: "qexec (QDrop 0) s1 = Inr s2" "queue_dropped levels p s2" using phase_leave [OF s1(2)] by blast
  obtain s3 h where s3: "fold_res qexec [QEnqueueSubmit [si]] s2 = Inr s3" "queue_calm levels (qs_queue s3)" "qs_held s3 = []"
    "\<exists>st. q_inv (qs_queue s3) (qs_ctx s3) st" "\<forall>l. cp_recording (pool0 (qs_queue s3)) l = None \<and> cp_pending (pool0 (qs_queue s3)) l = []"
    "pendingSubmits (qs_queue s3) = [sync_info.extend si \<lparr> commandBuffers = [h], timelineValue = v \<rparr>]"
    using phase_enqueue_dropped [OF s2(2) assms(2)] unfolding foldl.simps by blast
  obtain s4 where s4: "qexec QSubmit s3 = Inr s4" "queue_rest levels s4"
    "calls (qs_ctx s4) = calls (qs_ctx s3) @ [VkQueueSubmit [sync_info.extend si \<lparr> commandBuffers = [h], timelineValue = v \<rparr>]]"
    "fst (Queue_Submit (qs_queue s3) (qs_ctx s3)) = \<lparr> fences = 1, maxTimelineValue = max 0 v \<rparr>"
    using phase_submit_dropped [OF s3(2-6)] by (auto simp: sync_info.defs)
  let ?sl = "sl\<lparr> sl_state := s3 \<rparr>" and ?sl' = "\<lparr> sl_state = s4, sl_sync = host_sync_or (sl_sync sl) \<lparr> fences = 1, maxTimelineValue = max 0 v \<rparr> \<rparr>"
  have "fold_res qexec ([QCommands (scope_desc_default True)] @ [QDrop 0] @ [QEnqueueSubmit [si]]) (sl_state sl) = Inr s3"
    using s1(1) s2(1) s3(1) by (simp only: fold_res_append bind_res.simps fold_res.simps)
  then have a: "fold_res slot_exec ([QCommands (scope_desc_default True)] @ [QDrop 0] @ [QEnqueueSubmit [si]]) sl = Inr ?sl"
    by (rule slot_run_quiet) simp
  have b: "slot_exec QSubmit ?sl = Inr ?sl'" using s4(1,4) by (simp add: slot_exec_def del: qexec.simps)
  have "fold_res slot_exec [QCommands (scope_desc_default True), QDrop 0, QEnqueueSubmit [si], QSubmit]
      = fold_res slot_exec (([QCommands (scope_desc_default True)] @ [QDrop 0] @ [QEnqueueSubmit [si]]) @ [QSubmit])" by simp
  then have "fold_res slot_exec [QCommands (scope_desc_default True), QDrop 0, QEnqueueSubmit [si], QSubmit] sl = Inr ?sl'"
    using a b by (simp only: fold_res_append [of _ _ "[QSubmit]"] bind_res.simps fold_res.simps)
  moreover have "slot_rest levels ?sl'" using s4(2) by (simp add: slot_rest_def host_sync_or_def)
  moreover have "last_batch si ?sl'" using s4(3) by (auto simp: last_batch_def submits_def sync_info.defs)
  ultimately show ?thesis by (intro exI [of _ ?sl']) simp
qed

section \<open>Every run of loads\<close>

definition transfer_ok :: "transfer_state \<Rightarrow> bool" where
  "transfer_ok s \<longleftrightarrow> slot_rest 1 (ts_slot s) \<and> maxTimelineValue (sl_sync (ts_slot s)) = ts_timeline s"

lemma synced_next:
  assumes "unat v + 1 < 2 ^ 64" "maxTimelineValue h = v"
  shows "maxTimelineValue (host_sync_or h \<lparr> fences = 1, maxTimelineValue = max 0 (v + 1) \<rparr>) = v + 1"
  using u64_next(1) [OF assms(1)] assms(2) by (simp add: host_sync_or_def)

lemma LoadModel_ok:
  assumes s: "transfer_ok s" and v: "unat (ts_timeline s) + 1 < 2 ^ 64"
  shows "\<exists>s'. LoadModel semaphore tasks s = Inr s' \<and> transfer_ok s' \<and> ts_timeline s' = ts_timeline s + 1
    \<and> last_batch (model_sync semaphore (ts_timeline s) (ts_timeline s + 1) tasks) (ts_slot s')"
proof -
  let ?si = "model_sync semaphore (ts_timeline s) (ts_timeline s + 1) tasks"
  obtain sl where sl: "one_batch ?si (ts_slot s) = Inr sl" "slot_rest 1 sl"
    "sl_sync sl = host_sync_or (sl_sync (ts_slot s)) \<lparr> fences = 1, maxTimelineValue = max 0 (ts_timeline s + 1) \<rparr>" "last_batch ?si sl"
    using one_batch_rest [of 1 "ts_slot s" ?si "ts_timeline s + 1"] s by (auto simp: transfer_ok_def model_sync_def)
  moreover have "maxTimelineValue (sl_sync sl) = ts_timeline s + 1"
    unfolding sl(3) using s by (intro synced_next v) (simp add: transfer_ok_def)
  ultimately show ?thesis using s by (simp add: LoadModel_def transfer_ok_def)
qed

lemma LoadImage_ok:
  assumes s: "transfer_ok s" and v: "unat (ts_timeline s) + 1 < 2 ^ 64"
  shows "\<exists>s'. LoadImage semaphore tasks s = Inr s' \<and> transfer_ok s' \<and> ts_timeline s' = ts_timeline s + 1"
proof -
  let ?si = "image_sync semaphore (ts_timeline s + 1) tasks"
  have r: "slot_rest 1 (ts_slot s)" using s by (simp add: transfer_ok_def)
  have si: "signalSemaphoreValues ?si = [ts_timeline s + 1]" by (simp add: image_sync_def)
  obtain sl where sl: "fold_res slot_exec [QCommands (scope_desc_default True), QDrop 0, QEnqueueSubmit [?si], QSubmit] (ts_slot s) = Inr sl"
    "slot_rest 1 sl" "sl_sync sl = host_sync_or (sl_sync (ts_slot s)) \<lparr> fences = 1, maxTimelineValue = max 0 (ts_timeline s + 1) \<rparr>"
    using image_batch_rest [OF r si] by blast
  moreover have "maxTimelineValue (sl_sync sl) = ts_timeline s + 1"
    unfolding sl(3) using s by (intro synced_next v) (simp add: transfer_ok_def)
  ultimately show ?thesis by (simp add: LoadImage_def transfer_ok_def del: fold_res.simps)
qed

lemma transfer_run_ok:
  assumes "transfer_ok s" "unat (ts_timeline s) + length ops < 2 ^ 64"
  shows "\<exists>s'. fold_res transfer_exec ops s = Inr s' \<and> transfer_ok s' \<and> ts_timeline s' = ts_timeline s + of_nat (length ops)"
  using assms
proof (induction ops arbitrary: s)
  case (Cons op ops)
  have v: "unat (ts_timeline s) + 1 < 2 ^ 64" using Cons.prems(2) by simp
  obtain s1 where s1: "transfer_exec op s = Inr s1" "transfer_ok s1" "ts_timeline s1 = ts_timeline s + 1"
    using LoadModel_ok [OF Cons.prems(1) v] LoadImage_ok [OF Cons.prems(1) v] by (cases op) (simp, blast)+
  have "unat (ts_timeline s1) = unat (ts_timeline s) + 1" unfolding s1(3) by (rule u64_next(3) [OF v]) simp
  then obtain s2 where "fold_res transfer_exec ops s1 = Inr s2" "transfer_ok s2" "ts_timeline s2 = ts_timeline s1 + of_nat (length ops)"
    using Cons.IH [OF s1(2)] Cons.prems(2) by auto
  then show ?case using s1 by (intro exI [of _ s2]) (simp add: ac_simps)
qed simp

lemma transfer_start_ok:
  assumes "flags AND VK_COMMAND_POOL_CREATE_RESET_COMMAND_BUFFER_BIT \<noteq> 0"
  shows "transfer_ok (transfer_start flags)"
  using q_init_rest [OF assms, of 1] by (simp add: transfer_ok_def transfer_start_def) (simp add: new_slot_def no_sync_def)

text \<open>C13: Models and images can be loaded one after the other in any order without a failure of the transfer queue or a
  misuse of its command buffers, and a model always waits for the load before it: its batch has one command
  buffer, waits for the value that load signals (the number of loads so far) and signals the next one.\<close>
theorem loads_follow_each_other:
  assumes "flags AND VK_COMMAND_POOL_CREATE_RESET_COMMAND_BUFFER_BIT \<noteq> 0" and "length ops + 1 < 2 ^ 64"
  shows "\<exists>s s' bs b. fold_res transfer_exec ops (transfer_start flags) = Inr s \<and> LoadModel semaphore tasks s = Inr s'
    \<and> submits (calls (qs_ctx (sl_state (ts_slot s')))) = bs @ [b] \<and> length (commandBuffers b) = 1
    \<and> waitSemaphoreValues b = [of_nat (length ops)] \<and> signalSemaphoreValues b = [of_nat (length ops) + 1]
    \<and> life_run (calls (qs_ctx (sl_state (ts_slot s')))) life0 \<noteq> None"
proof -
  have z: "ts_timeline (transfer_start flags) = 0" by (simp add: transfer_start_def)
  obtain s where s: "fold_res transfer_exec ops (transfer_start flags) = Inr s" "transfer_ok s" "ts_timeline s = of_nat (length ops)"
    using transfer_run_ok [OF transfer_start_ok [OF assms(1)], of ops] assms(2) by (auto simp: z)
  have "unat (ts_timeline s) + 1 < 2 ^ 64" using u64_add [of 0 "length ops"] assms(2) by (simp add: s(3))
  from LoadModel_ok [OF s(2) this, of semaphore tasks] obtain s' where s': "LoadModel semaphore tasks s = Inr s'" "transfer_ok s'"
    "last_batch (model_sync semaphore (ts_timeline s) (ts_timeline s + 1) tasks) (ts_slot s')" by blast
  have "life_run (calls (qs_ctx (sl_state (ts_slot s')))) life0 \<noteq> None"
    using s'(2) slot_rest_lawful [of 1 "ts_slot s'"] unfolding transfer_ok_def by blast
  then show ?thesis using s(1,3) s'(1,3) by (fastforce simp: last_batch_def model_sync_def)
qed

theorem loads_follow_each_other_witness:
  "\<exists>s s' bs b. fold_res transfer_exec [TransferModel 1 [2, 3], TransferImage 1 [4]] (transfer_start 2) = Inr s \<and> LoadModel 1 [5] s = Inr s'
    \<and> submits (calls (qs_ctx (sl_state (ts_slot s')))) = bs @ [b] \<and> waitSemaphoreValues b = [2] \<and> signalSemaphoreValues b = [3]"
  using loads_follow_each_other [of 2 "[TransferModel 1 [2, 3], TransferImage 1 [4]]" 1 "[5]"]
  by (auto simp: VK_COMMAND_POOL_CREATE_RESET_COMMAND_BUFFER_BIT_def simp del: fold_res.simps)

end
