(* ===== verification/File_Properties.thy ===== *)
theory File_Properties
imports File_Assets
begin

text \<open>
  What \<open>LoadAsset\<close> promises: an imported asset is found again through its manifest, the cache is only
  served for a source file whose size and time stamp are those of the import, and a failed import
  neither leaves a cache file nor a manifest that would be believed.
\<close>

section \<open>Sequencing and nodes\<close>

lemma andThen_Inr: "andThen m f s = (Inr b, s2) \<longleftrightarrow> (\<exists>a s1. m s = (Inr a, s1) \<and> f a s1 = (Inr b, s2))"
  by (auto simp: andThen_def split: prod.splits sum.splits)

lemma andThen_step [simp]: "m s = (Inr a, s1) \<Longrightarrow> andThen m f s = f a s1"
  by (simp add: andThen_def)

lemma node_at_put [simp]: "node_at (put_node p n fs) q = (if q = p then Some n else node_at fs q)"
  by (simp add: node_at_def put_node_def update_conv')

lemma node_at_write [simp]: "node_at (write_file p bs fs) q = (if q = p then Some (File bs (now fs)) else node_at fs q)"
  by (simp add: write_file_def)

lemma now_put [simp]: "now (put_node p n fs) = now fs" "uuid_count (put_node p n fs) = uuid_count fs"
  by (simp_all add: put_node_def)

lemma node_at_uuid [simp]: "node_at (fs\<lparr> uuid_count := n \<rparr>) q = node_at fs q"
  by (simp add: node_at_def)

lemma create_directories_from_nodes:
  "create_directories_from pre cs fs = Inr fs' \<Longrightarrow>
     (node_at fs q \<noteq> None \<longrightarrow> node_at fs' q = node_at fs q)
     \<and> (node_at fs q = None \<longrightarrow> node_at fs' q = None \<or> node_at fs' q = Some Directory \<and> length q \<le> length (pre @ cs))
     \<and> (cs \<noteq> [] \<longrightarrow> node_at fs' (pre @ cs) = Some Directory)
     \<and> now fs' = now fs \<and> uuid_count fs' = uuid_count fs"
proof (induction pre cs fs rule: create_directories_from.induct)
  case (2 pre c cs fs)
  show ?case
  proof (cases "node_at fs (pre @ [c])")
    case None
    with "2.prems" have "create_directories_from (pre @ [c]) cs (put_node (pre @ [c]) Directory fs) = Inr fs'"
      by (simp add: Let_def)
    with "2.IH"(1) [OF refl None] None show ?thesis by (cases cs) (auto split: if_splits)
  next
    case (Some n)
    with "2.prems" have n: "n = Directory" "create_directories_from (pre @ [c]) cs fs = Inr fs'"
      by (auto simp: Let_def split: node.splits)
    with "2.IH"(2) [OF refl Some] n Some show ?thesis by (cases cs) auto
  qed
qed auto

definition dir_step :: "path \<Rightarrow> fsys \<Rightarrow> fsys \<Rightarrow> bool" where
  "dir_step p fs fs' \<longleftrightarrow> (\<forall>q. (node_at fs q \<noteq> None \<longrightarrow> node_at fs' q = node_at fs q)
     \<and> (node_at fs q = None \<longrightarrow> node_at fs' q = None \<or> node_at fs' q = Some Directory \<and> length q \<le> length p))
     \<and> (p \<noteq> [] \<longrightarrow> node_at fs' p = Some Directory) \<and> now fs' = now fs \<and> uuid_count fs' = uuid_count fs"

lemma make_directory_step:
  assumes "make_directory p s = (Inr u, s')"
  shows "dir_step p (fst s) (fst s')" "snd s' = snd s"
proof -
  have "dir_step p (fst s) (fst s') \<and> snd s' = snd s"
  proof (cases "is_directory (fst s) p")
    case True
    with assms have "s' = s" by (simp add: make_directory_def)
    with True show ?thesis by (simp add: dir_step_def is_directory_def)
  next
    case False
    then obtain fs where fs: "create_directories_from [] p (fst s) = Inr fs" "s' = (fs, snd s)"
      using assms by (cases "create_directories_from [] p (fst s)") (simp_all add: make_directory_def create_directories_def)
    then show ?thesis using create_directories_from_nodes [OF fs(1)] unfolding dir_step_def by simp
  qed
  then show "dir_step p (fst s) (fst s')" "snd s' = snd s" by simp_all
qed

lemma dir_stepD:
  assumes "dir_step p fs fs'"
  shows "node_at fs q = Some n \<Longrightarrow> node_at fs' q = Some n"
    "node_at fs q = None \<Longrightarrow> length p < length q \<Longrightarrow> node_at fs' q = None"
    "p \<noteq> [] \<Longrightarrow> node_at fs' p = Some Directory" "now fs' = now fs" "uuid_count fs' = uuid_count fs"
  using assms unfolding dir_step_def by (metis option.discI, metis not_less, blast+)

lemma make_directory_again: "node_at (fst s) p = Some Directory \<Longrightarrow> make_directory p s = (Inr (), s)"
  by (simp add: make_directory_def is_directory_def)

lemma GetRecord_cong: "node_at fs p = node_at fs' p \<Longrightarrow> GetRecord e False p fs = GetRecord e False p fs'"
  by (simp add: GetRecord_def GetTimeStamp_def split: option.splits node.splits)

lemma GetRecord_fields: "GetRecord e sha p fs = Inr r \<Longrightarrow> fr_path r = p \<and> is_regular_file fs p
    \<and> record_matches False (GetRecord e False p fs) r \<and> GetRecord e False p fs = Inr (r\<lparr> fr_sha2 := [] \<rparr>)"
  by (auto simp: GetRecord_def record_matches_def is_regular_file_def Let_def
      split: option.splits node.splits sum.splits if_splits)

lemma LoadBinary_Inr:
  "LoadBinary e sha p f s = (Inr r, s') \<Longrightarrow> GetRecord e sha p (fst s) = Inr r \<and> fst s' = fst s"
  by (auto simp: LoadBinary_def split: sum.splits option.splits prod.splits)

lemma LoadBinary_client:
  "LoadBinary e sha p f s = (Inr r, s') \<Longrightarrow> \<exists>bs. f bs (snd s) = (None, snd s')"
  by (auto simp: LoadBinary_def split: sum.splits option.splits prod.splits)

lemma LoadBinary_content:
  "LoadBinary e sha p f s = (Inr r, s') \<Longrightarrow> f (content (fst s) p) (snd s) = (None, snd s')"
  by (auto simp: LoadBinary_def Let_def dest: GetRecord_fields split: sum.splits option.splits prod.splits)

lemma SaveBinary_Inr:
  "SaveBinary e sha p f s = (Inr r, s') \<Longrightarrow> \<exists>bs c. f (snd s) = (Inr bs, c)
     \<and> s' = (write_file p bs (fst s), c) \<and> GetRecord e sha p (fst s') = Inr r"
  by (auto simp: SaveBinary_def Let_def split: sum.splits option.splits prod.splits)

section \<open>One import\<close>

lemma throwing_Inr [simp]: "throwing m s = (Inr a, s') \<longleftrightarrow> m s = (Inr a, s')"
  by (auto simp: throwing_def split: prod.splits sum.splits)

lemma manifest_path_length: "manifest_path e root cd asset h = Inr mp \<Longrightarrow> length cd < length mp"
  by (auto simp: manifest_path_def split: sum.splits)

lemma importSourceFile_Inr:
  assumes i: "importSourceFile e cd mp asset ls sv (fs, c) = (Inr m, (fs1, c1))" and new: "node_at fs mp = None"
    and mp: "mp \<noteq> []"
  obtains src bs c0 mbs fs2 where
    "ls src c = (None, c0)" "sv c0 = (Inr bs, c1)" "encode e m = Inr mbs" "fs1 = write_file mp mbs (write_file (cd @ [uuid_str e (uuid_count fs)]) bs fs2)"
    "GetRecord e True asset fs2 = Inr (assetFileInfo m)"
    "GetRecord e True (cd @ [uuid_str e (uuid_count fs)]) (write_file (cd @ [uuid_str e (uuid_count fs)]) bs fs2) = Inr (cacheFileInfo m)"
    "\<And>q. node_at fs q \<noteq> None \<Longrightarrow> q \<noteq> mp \<Longrightarrow> node_at fs2 q = node_at fs q"
proof -
  define u where "u = uuid_str e (uuid_count fs)"
  define fs0 where "fs0 = fs\<lparr> uuid_count := uuid_count fs + 1 \<rparr>"
  from i obtain s1 s2 a s3 k s4 where
    d: "make_directory (butlast mp) (fs0, c) = (Inr (), s1)" and o: "open_sink e mp s1 = (Inr (), s2)"
    and l: "LoadBinary e True asset ls s2 = (Inr a, s3)" and sv: "SaveBinary e True (cd @ [u]) sv s3 = (Inr k, s4)"
    and w: "write_manifest e mp \<lparr> assetFileInfo = a, cacheFileInfo = k \<rparr> s4 = (Inr m, (fs1, c1))"
    unfolding importSourceFile_def by (auto simp: andThen_Inr next_uuid_def u_def fs0_def)
  from SaveBinary_Inr [OF sv] obtain bs c4 where b: "sv (snd s3) = (Inr bs, c4)" "s4 = (write_file (cd @ [u]) bs (fst s3), c4)"
    "GetRecord e True (cd @ [u]) (fst s4) = Inr k" by blast
  from w obtain mbs where m: "m = \<lparr> assetFileInfo = a, cacheFileInfo = k \<rparr>" "encode e m = Inr mbs"
    "fs1 = write_file mp mbs (fst s4)" "c1 = snd s4"
    by (auto simp: write_manifest_def split: sum.splits)
  from LoadBinary_Inr [OF l] have l': "GetRecord e True asset (fst s2) = Inr a" "fst s3 = fst s2" by auto
  have n: "node_at (fst s2) q = node_at fs q" if "node_at fs q \<noteq> None" "q \<noteq> mp" for q
  proof -
    from that(1) obtain nd where nd: "node_at fs q = Some nd" by blast
    then have "node_at (fst s1) q = Some nd"
      using dir_stepD(1) [OF make_directory_step(1) [OF d], of q nd] by (simp add: fs0_def)
    moreover have "node_at (fst s2) q = node_at (fst s1) q"
      using o that(2) by (auto simp: open_sink_def touch_sink_def split: option.splits)
    ultimately show ?thesis using nd by simp
  qed
  have "snd s2 = c"
    using o make_directory_step(2) [OF d] by (auto simp: open_sink_def split: option.splits)
  then obtain src where "ls src c = (None, snd s3)" using LoadBinary_client [OF l] by metis
  then show ?thesis
    by (rule that [of src "snd s3" bs mbs "fst s2"]) (use b m l' n in \<open>simp_all add: u_def\<close>)
qed

lemma LoadAsset_imports:
  assumes mp: "manifest_path e root cd asset h = Inr mp" and new: "node_at fs mp = None"
    and r: "LoadAsset e root cd asset ls lc sv h (fs, c) = (Inr r, (fs1, c1))"
  obtains fs0 m where "importSourceFile e cd mp asset ls sv (fs0, c) = (Inr m, (fs1, c1))" "r = cacheFileInfo m"
    "dir_step cd fs fs0" "node_at fs0 mp = None"
proof -
  from r mp obtain s1 where d: "make_directory cd (fs, c) = (Inr (), s1)" and
    rest: "andThen (find_manifest e mp) (\<lambda>found. case found of
       Inr m \<Rightarrow> LoadBinary e False (fr_path (cacheFileInfo m)) lc
     | Inl _ \<Rightarrow> andThen (remove_path mp) (\<lambda>_. andThen (importSourceFile e cd mp asset ls sv) (\<lambda>m. ret (cacheFileInfo m)))) s1
      = (Inr r, (fs1, c1))"
    unfolding LoadAsset_def by (auto simp: andThen_Inr look_def)
  have st: "dir_step cd fs (fst s1)" and c: "snd s1 = c" using make_directory_step [OF d] by simp_all
  have none: "node_at (fst s1) mp = None" using dir_stepD(2) [OF st new manifest_path_length [OF mp]] .
  then have f: "find_manifest e mp s1 = (Inr (Inl KMissing), s1)" by (simp add: find_manifest_def is_regular_file_def)
  have rm: "remove_path mp s1 = (Inr (), s1)" using none by (simp add: remove_path_def)
  from rest obtain m where "importSourceFile e cd mp asset ls sv s1 = (Inr m, (fs1, c1))" "r = cacheFileInfo m"
    by (auto simp: f rm andThen_Inr ret_def)
  with st none c show ?thesis by (intro that [of "fst s1" m]) (simp_all flip: c)
qed

section \<open>A load after an import\<close>

text \<open>The bytes of the cache file are those the saver made of what the source loader left, and the next load gives
  them to the cache loader.\<close>

lemma import_then_load:
  assumes codec: "\<And>m bs. encode e m = Inr bs \<Longrightarrow> decode e bs = Inr m"
    and readable: "\<And>fs p. is_regular_file fs p \<Longrightarrow> map_source e fs p = None"
    and mp: "manifest_path e root cd asset h = Inr mp" and new: "node_at fs mp = None"
    and apart: "asset \<noteq> mp" "asset \<noteq> cd @ [uuid_str e (uuid_count fs)]" "mp \<noteq> cd @ [uuid_str e (uuid_count fs)]"
    and first: "LoadAsset e root cd asset ls lc sv h (fs, c) = (Inr r, (fs1, c1))"
  shows "\<exists>src bs c0. ls src c = (None, c0) \<and> sv c0 = (Inr bs, c1) \<and> LoadAsset e root cd asset ls' lc sv' h (fs1, c2) =
    (case lc bs c2 of (Some er, c3) \<Rightarrow> (Inl er, (fs1, c3)) | (None, c3) \<Rightarrow> (Inr (r\<lparr> fr_sha2 := [] \<rparr>), (fs1, c3)))"
proof -
  from LoadAsset_imports [OF mp new first] obtain fs0 m where
    i: "importSourceFile e cd mp asset ls sv (fs0, c) = (Inr m, (fs1, c1))" and r: "r = cacheFileInfo m"
    and st: "dir_step cd fs fs0" and none: "node_at fs0 mp = None" .
  have ne: "mp \<noteq> []" using manifest_path_length [OF mp] by auto
  have uc: "uuid_count fs0 = uuid_count fs" by (rule dir_stepD(5) [OF st])
  define cp where "cp = cd @ [uuid_str e (uuid_count fs)]"
  from importSourceFile_Inr [OF i none ne] obtain src bs c0 mbs fs2 where
    src: "ls src c = (None, c0)" and sv: "sv c0 = (Inr bs, c1)" and enc: "encode e m = Inr mbs" and fs1: "fs1 = write_file mp mbs (write_file cp bs fs2)"
    and ra: "GetRecord e True asset fs2 = Inr (assetFileInfo m)"
    and rc: "GetRecord e True cp (write_file cp bs fs2) = Inr (cacheFileInfo m)"
    and old: "\<And>q. node_at fs0 q \<noteq> None \<Longrightarrow> q \<noteq> mp \<Longrightarrow> node_at fs2 q = node_at fs0 q"
    unfolding cp_def uc by metis
  have cd: "make_directory cd (fs1, c2) = (Inr (), (fs1, c2))"
  proof (cases "cd = []")
    case True then show ?thesis by (simp add: make_directory_def create_directories_def)
  next
    case False
    have "node_at fs0 cd = Some Directory" by (rule dir_stepD(3) [OF st False])
    moreover have "cd \<noteq> mp" "cd \<noteq> cp" using manifest_path_length [OF mp] by (auto simp: cp_def)
    ultimately have "node_at fs1 cd = Some Directory" using old [of cd] by (simp add: fs1)
    then show ?thesis by (intro make_directory_again) simp
  qed
  have mf: "content fs1 mp = mbs" "is_regular_file fs1 mp" by (simp_all add: fs1 content_def is_regular_file_def)
  have cf: "content fs1 cp = bs" "is_regular_file fs1 cp"
    using apart(3) by (simp_all add: fs1 content_def is_regular_file_def cp_def)
  have an: "node_at fs1 asset = node_at fs2 asset" "node_at fs1 cp = node_at (write_file cp bs fs2) cp"
    using apart by (simp_all add: fs1 cp_def)
  have pa: "fr_path (assetFileInfo m) = asset" "fr_path (cacheFileInfo m) = cp"
    using GetRecord_fields [OF ra] GetRecord_fields [OF rc] by simp_all
  have ma: "record_matches False (GetRecord e False asset fs1) (assetFileInfo m)"
    using GetRecord_fields [OF ra] GetRecord_cong [OF an(1)] by (simp add: record_matches_def)
  have mc: "record_matches False (GetRecord e False cp fs1) (cacheFileInfo m)" "GetRecord e False cp fs1 = Inr (r\<lparr> fr_sha2 := [] \<rparr>)"
    using GetRecord_fields [OF rc] GetRecord_cong [OF an(2)] r by (simp_all add: record_matches_def)
  have "LoadAssetManifest e False mbs fs1 = Inr m"
    using codec [OF enc] ma mc(1) by (simp add: LoadAssetManifest_def pa)
  then have f: "find_manifest e mp (fs1, c2) = (Inr (Inr m), (fs1, c2))"
    using mf readable [OF mf(2)] by (simp add: find_manifest_def)
  have "LoadAsset e root cd asset ls' lc sv' h (fs1, c2) = LoadBinary e False cp lc (fs1, c2)"
    using cd f mp by (simp add: LoadAsset_def andThen_def throwing_def look_def pa)
  also have "\<dots> = (case lc bs c2 of (Some er, c3) \<Rightarrow> (Inl er, (fs1, c3)) | (None, c3) \<Rightarrow> (Inr (r\<lparr> fr_sha2 := [] \<rparr>), (fs1, c3)))"
    using mc(2) cf readable [OF cf(2)] r pa(2) by (auto simp: LoadBinary_def split: option.splits prod.splits)
  finally show ?thesis using src sv by blast
qed

text \<open>C26: An asset that \<open>LoadAsset\<close> has just imported is served from the cache the next time, whatever
  the client state is then: the source loader and the saver are not used, the cache loader gets exactly
  the bytes the saver produced, and the record is the same apart from the checksum.\<close>
theorem LoadAsset_second_load_hits_cache:
  assumes codec: "\<And>m bs. encode e m = Inr bs \<Longrightarrow> decode e bs = Inr m"
    and readable: "\<And>fs p. is_regular_file fs p \<Longrightarrow> map_source e fs p = None"
    and mp: "manifest_path e root cd asset h = Inr mp" and new: "node_at fs mp = None"
    and apart: "asset \<noteq> mp" "asset \<noteq> cd @ [uuid_str e (uuid_count fs)]" "mp \<noteq> cd @ [uuid_str e (uuid_count fs)]"
    and first: "LoadAsset e root cd asset ls lc sv h (fs, c) = (Inr r, (fs1, c1))"
  shows "\<exists>bs c0. sv c0 = (Inr bs, c1) \<and> LoadAsset e root cd asset ls' lc sv' h (fs1, c2) =
    (case lc bs c2 of (Some er, c3) \<Rightarrow> (Inl er, (fs1, c3)) | (None, c3) \<Rightarrow> (Inr (r\<lparr> fr_sha2 := [] \<rparr>), (fs1, c3)))"
  using import_then_load [OF assms] by blast

section \<open>Witness environment\<close>

definition ex_env :: env where
  "ex_env = \<lparr> map_source = (\<lambda>fs p. None), map_sink = (\<lambda>fs p. None), hash256_hex = (\<lambda>bs. ''h''),
     encode = (\<lambda>m. if m = \<lparr> assetFileInfo = \<lparr> fr_path = [''r'', ''m.obj''], fr_timeStamp = ''t'', fr_sha2 = ''h'', fr_size = 2 \<rparr>,
        cacheFileInfo = \<lparr> fr_path = [''u'', ''0''], fr_timeStamp = ''t'', fr_sha2 = ''h'', fr_size = 1 \<rparr> \<rparr>
        then Inr [1] else Inl (SerializerError 0)),
     decode = (\<lambda>bs. if bs = [1] then Inr \<lparr> assetFileInfo = \<lparr> fr_path = [''r'', ''m.obj''], fr_timeStamp = ''t'', fr_sha2 = ''h'', fr_size = 2 \<rparr>,
        cacheFileInfo = \<lparr> fr_path = [''u'', ''0''], fr_timeStamp = ''t'', fr_sha2 = ''h'', fr_size = 1 \<rparr> \<rparr>
        else Inl (SerializerError 1)),
     uuid_str = (\<lambda>n. ''0''), strftime_c = (\<lambda>t. Some ''t''), relative_to = (\<lambda>a r. Inr (drop (length r) a)) \<rparr>"

definition ex_fs :: fsys where
  "ex_fs = \<lparr> nodes = [([''r''], Directory), ([''r'', ''m.obj''], File [7, 8] 3)], now = 5, uuid_count = 0 \<rparr>"

definition ex_load :: "bytes load_fn" where
  "ex_load bs c = (None, bs)"

definition ex_save :: "bytes save_fn" where
  "ex_save c = (Inr (take 1 c), c)"

lemmas file_eval = ex_env_def ex_fs_def ex_load_def ex_save_def LoadAsset_def andThen_def throwing_def look_def ret_def
  make_directory_def is_directory_def create_directories_def node_at_def put_node_def manifest_path_def find_manifest_def
  is_regular_file_def remove_path_def importSourceFile_def next_uuid_def open_sink_def touch_sink_def write_file_def
  LoadBinary_def SaveBinary_def GetRecord_def GetTimeStamp_def content_def write_manifest_def LoadAssetManifest_def
  record_matches_def

lemma ex_first: "\<exists>r fs1. LoadAsset ex_env [''r''] [''u''] [''r'', ''m.obj''] ex_load ex_load ex_save ''x'' (ex_fs, [])
    = (Inr r, (fs1, [7, 8]))"
  by (simp add: file_eval)

theorem LoadAsset_second_load_hits_cache_witness:
  "\<exists>r fs1 bs. LoadAsset ex_env [''r''] [''u''] [''r'', ''m.obj''] ex_load ex_load ex_save ''x'' (ex_fs, []) = (Inr r, (fs1, [7, 8]))
     \<and> LoadAsset ex_env [''r''] [''u''] [''r'', ''m.obj''] (\<lambda>_ c. (Some NoSuchFile, c)) ex_load ex_save ''x'' (fs1, [])
       = (Inr (r\<lparr> fr_sha2 := [] \<rparr>), (fs1, bs))"
proof -
  from ex_first obtain r fs1 where f: "LoadAsset ex_env [''r''] [''u''] [''r'', ''m.obj''] ex_load ex_load ex_save ''x''
      (ex_fs, []) = (Inr r, (fs1, [7, 8]))" by blast
  have mp: "manifest_path ex_env [''r''] [''u''] [''r'', ''m.obj''] ''x'' = Inr [''u'', ''m.obj'', ''x.manifest.bin'']"
    by (simp add: manifest_path_def ex_env_def)
  have "\<exists>bs c0. ex_save c0 = (Inr bs, [7, 8])
     \<and> LoadAsset ex_env [''r''] [''u''] [''r'', ''m.obj''] (\<lambda>_ c. (Some NoSuchFile, c)) ex_load ex_save ''x'' (fs1, [])
     = (case ex_load bs [] of (Some er, c3) \<Rightarrow> (Inl er, (fs1, c3)) | (None, c3) \<Rightarrow> (Inr (r\<lparr> fr_sha2 := [] \<rparr>), (fs1, c3)))"
    by (rule LoadAsset_second_load_hits_cache [OF _ _ mp _ _ _ _ f])
      (auto simp: ex_env_def ex_fs_def node_at_def split: if_splits)
  with f show ?thesis by (auto simp: ex_load_def)
qed

section \<open>Stale caches and failed imports\<close>

lemma dir_step_file:
  assumes "dir_step p fs fs'" "is_regular_file fs' q"
  shows "node_at fs' q = node_at fs q"
proof (rule ccontr)
  assume ne: "node_at fs' q \<noteq> node_at fs q"
  then have "node_at fs q = None" using dir_stepD(1) [OF assms(1)] by (cases "node_at fs q") auto
  with assms have "node_at fs' q = None \<or> node_at fs' q = Some Directory" unfolding dir_step_def by blast
  with assms(2) show False by (auto simp: is_regular_file_def)
qed

lemma dir_step_GetRecord:
  assumes "dir_step p fs fs'" "GetRecord e False q fs' = Inr r"
  shows "GetRecord e False q fs = Inr r"
proof -
  have "node_at fs' q = node_at fs q" using dir_step_file [OF assms(1)] GetRecord_fields [OF assms(2)] by blast
  with GetRecord_cong [of fs' q fs e] assms(2) show ?thesis by simp
qed

lemma record_matches_Inr: "record_matches False g r \<Longrightarrow> \<exists>a. g = Inr a"
  by (auto simp: record_matches_def split: sum.splits)

lemma LoadBinary_failing:
  assumes "\<And>bs c. fst (f bs c) \<noteq> None"
  shows "\<exists>x c. LoadBinary e sha p f s = (Inl x, (fst s, c))"
proof (cases "GetRecord e sha p (fst s)")
  case (Inl x)
  then show ?thesis by (cases s) (simp add: LoadBinary_def)
next
  case (Inr info)
  obtain x c where "f (content (fst s) (fr_path info)) (snd s) = (Some x, c)"
    using assms [of "content (fst s) (fr_path info)" "snd s"] by (cases "f (content (fst s) (fr_path info)) (snd s)") auto
  with Inr show ?thesis by (cases s; cases "map_source e (fst s) (fr_path info)") (auto simp: LoadBinary_def)
qed

definition nothing_new :: "path \<Rightarrow> fsys \<Rightarrow> fsys \<Rightarrow> bool" where
  "nothing_new mp fs fs' \<longleftrightarrow> (\<forall>p. is_regular_file fs' p \<longrightarrow> node_at fs' p = node_at fs p \<or> p = mp \<and> content fs' mp = [])"

lemma nothing_new_uuid [simp]: "nothing_new mp (fs\<lparr> uuid_count := n \<rparr>) fs' = nothing_new mp fs fs'"
  by (simp add: nothing_new_def)

lemma nothing_new_dir: "dir_step p fs fs' \<Longrightarrow> nothing_new mp fs fs'"
  by (simp add: nothing_new_def dir_step_file)

lemma nothing_new_pre: "dir_step p fs fs1 \<Longrightarrow> nothing_new mp fs1 fs2 \<Longrightarrow> nothing_new mp fs fs2"
  unfolding nothing_new_def using dir_step_file [of p fs fs1]
  by (metis (mono_tags, lifting) is_regular_file_def)

lemma make_directory_Inl: "make_directory p s = (Inl x, s') \<Longrightarrow> s' = s"
  by (auto simp: make_directory_def create_directories_def split: if_splits sum.splits)

lemma andThen_Inl [simp]: "m s = (Inl x, s1) \<Longrightarrow> andThen m f s = (Inl x, s1)"
  by (simp add: andThen_def)

lemma importSourceFile_failing:
  assumes ls: "\<And>bs c. fst (ls bs c) \<noteq> None" and new: "node_at (fst s) mp = None" "mp \<noteq> []"
  shows "\<exists>x fs1 c1. importSourceFile e cd mp asset ls sv s = (Inl x, (fs1, c1)) \<and> nothing_new mp (fst s) fs1"
proof -
  define s0 where "s0 = ((fst s)\<lparr> uuid_count := uuid_count (fst s) + 1 \<rparr>, snd s)"
  have u: "next_uuid e s = (Inr (uuid_str e (uuid_count (fst s))), s0)" by (simp add: next_uuid_def s0_def)
  have i: "importSourceFile e cd mp asset ls sv s = andThen (make_directory (butlast mp)) (\<lambda>_.
     andThen (open_sink e mp) (\<lambda>_. andThen (LoadBinary e True asset ls) (\<lambda>a.
     andThen (SaveBinary e True (cd @ [uuid_str e (uuid_count (fst s))]) sv) (\<lambda>c.
     write_manifest e mp \<lparr> assetFileInfo = a, cacheFileInfo = c \<rparr>)))) s0"
    by (simp add: importSourceFile_def u)
  obtain res s1 where m: "make_directory (butlast mp) s0 = (res, s1)" by (cases "make_directory (butlast mp) s0") auto
  show ?thesis
  proof (cases res)
    case (Inl x)
    with m have d: "make_directory (butlast mp) s0 = (Inl x, s0)" using make_directory_Inl by blast
    have "nothing_new mp (fst s) (fst s0)" by (simp add: nothing_new_def s0_def)
    then show ?thesis by (simp add: i d) (metis prod.collapse)
  next
    case (Inr v)
    with m have d: "make_directory (butlast mp) s0 = (Inr v, s1)" by simp
    have st: "dir_step (butlast mp) (fst s0) (fst s1)" by (rule make_directory_step(1) [OF d])
    have n1: "node_at (fst s1) mp = None" using dir_stepD(2) [OF st, of mp] new by (simp add: s0_def)
    show ?thesis
    proof (cases "map_sink e (fst s1) mp")
      case (Some x)
      then have "open_sink e mp s1 = (Inl x, s1)" by (simp add: open_sink_def)
      moreover have "nothing_new mp (fst s) (fst s1)" using nothing_new_dir [OF st, of mp] by (simp add: s0_def)
      ultimately show ?thesis by (cases s1) (simp add: i d)
    next
      case None
      define s2 where "s2 = (write_file mp [] (fst s1), snd s1)"
      have o: "open_sink e mp s1 = (Inr (), s2)" using None n1 by (simp add: open_sink_def touch_sink_def s2_def)
      obtain x c where l: "LoadBinary e True asset ls s2 = (Inl x, (fst s2, c))" using LoadBinary_failing [where f = ls, OF ls] by blast
      have "nothing_new mp (fst s1) (fst s2)"
        by (auto simp: nothing_new_def s2_def content_def)
      with nothing_new_pre [OF st] have "nothing_new mp (fst s0) (fst s2)" by blast
      then have "nothing_new mp (fst s) (fst s2)" by (simp add: s0_def)
      then show ?thesis by (simp add: i d o l)
    qed
  qed
qed

text \<open>When an asset has no manifest and its source loader fails, \<open>LoadAsset\<close> fails, writes no file
  but possibly an empty manifest, and changes no file that was there: nothing of the failed import can
  be served later.\<close>
theorem LoadAsset_failed_import:
  assumes "\<And>bs c. fst (ls bs c) \<noteq> None" and mp: "manifest_path e root cd asset h = Inr mp" and new: "node_at fs mp = None"
  shows "\<exists>x fs1 c1. LoadAsset e root cd asset ls lc sv h (fs, c) = (Inl x, (fs1, c1))
     \<and> (\<forall>p. is_regular_file fs1 p \<longrightarrow> node_at fs1 p = node_at fs p \<or> p = mp \<and> content fs1 mp = [])"
proof -
  obtain res s1 where m: "make_directory cd (fs, c) = (res, s1)" by (cases "make_directory cd (fs, c)") auto
  show ?thesis
  proof (cases res)
    case (Inl x)
    with m have "throwing (make_directory cd) (fs, c) = (Inl FilesystemException, (fs, c))"
      using make_directory_Inl by (fastforce simp: throwing_def)
    then show ?thesis unfolding LoadAsset_def by (simp add: andThen_Inl)
  next
    case (Inr v)
    with m have d: "make_directory cd (fs, c) = (Inr v, s1)" by simp
    have st: "dir_step cd fs (fst s1)" using make_directory_step(1) [OF d] by simp
    have none: "node_at (fst s1) mp = None" using dir_stepD(2) [OF st new manifest_path_length [OF mp]] .
    obtain x fs1 c1 where i: "importSourceFile e cd mp asset ls sv s1 = (Inl x, (fs1, c1))" "nothing_new mp (fst s1) fs1"
      using importSourceFile_failing [where ls = ls and s = s1 and mp = mp, OF assms(1) none] manifest_path_length [OF mp] by fastforce
    have t: "throwing (make_directory cd) (fs, c) = (Inr v, s1)" using d by simp
    have k: "look (\<lambda>_. manifest_path e root cd asset h) s1 = (Inr mp, s1)" by (simp add: look_def mp)
    have f: "find_manifest e mp s1 = (Inr (Inl KMissing), s1)" using none by (simp add: find_manifest_def is_regular_file_def)
    have r: "remove_path mp s1 = (Inr (), s1)" using none by (simp add: remove_path_def)
    have "LoadAsset e root cd asset ls lc sv h (fs, c) = (Inl x, (fs1, c1))"
      by (simp add: LoadAsset_def t k f r i(1) del: throwing_Inr)
    with nothing_new_pre [OF st i(2)] show ?thesis unfolding nothing_new_def by blast
  qed
qed

theorem LoadAsset_failed_import_witness:
  "\<exists>x fs1 c1. LoadAsset ex_env [''r''] [''u''] [''r'', ''m.obj''] (\<lambda>_ c. (Some NoSuchFile, c)) ex_load ex_save ''x'' (ex_fs, [])
      = (Inl x, (fs1, c1))
     \<and> (\<forall>p. is_regular_file fs1 p \<longrightarrow> node_at fs1 p = node_at ex_fs p
          \<or> p = [''u'', ''m.obj'', ''x.manifest.bin''] \<and> content fs1 [''u'', ''m.obj'', ''x.manifest.bin''] = [])"
  by (rule LoadAsset_failed_import) (simp_all add: manifest_path_def ex_env_def ex_fs_def node_at_def)

text \<open>The file of a record is unchanged: it is a regular file with the size and the printed time stamp of the
  record.\<close>

definition unchanged_file :: "env \<Rightarrow> fsys \<Rightarrow> fileRecord \<Rightarrow> bool" where
  "unchanged_file e fs k \<longleftrightarrow> (\<exists>bs t. node_at fs (fr_path k) = Some (File bs t) \<and> length bs = fr_size k
     \<and> strftime_c e t = Some (fr_timeStamp k))"

lemma record_matches_file:
  "record_matches False (GetRecord e False (fr_path k) fs) k \<Longrightarrow> unchanged_file e fs k"
  by (auto simp: record_matches_def GetRecord_def GetTimeStamp_def unchanged_file_def split: sum.splits option.splits node.splits if_splits)

lemma unchanged_record:
  assumes "GetRecord e False (fr_path k) fs = Inr r" "unchanged_file e fs k"
  shows "r = k\<lparr> fr_sha2 := [] \<rparr>"
  using assms by (auto simp: GetRecord_def GetTimeStamp_def unchanged_file_def split: if_splits)

text \<open>C27: When the source loader cannot be what produced the result (it always fails), \<open>LoadAsset\<close> succeeds
  only from a manifest that decodes and whose two files, the source and the cache, are regular files that
  still have the size and the time stamp that the manifest records; the result is the manifest's record of
  the cache file, without a checksum, and what the client got is what its loader made of that file's bytes. The checksums of the manifest are not compared.\<close>
theorem LoadAsset_serves_fresh_cache_only:
  assumes ls: "\<And>bs c. fst (ls bs c) \<noteq> None" and ok: "LoadAsset e root cd asset ls lc sv h (fs, c) = (Inr r, s')"
  shows "\<exists>mp m. manifest_path e root cd asset h = Inr mp \<and> decode e (content fs mp) = Inr m
     \<and> (\<forall>k \<in> {assetFileInfo m, cacheFileInfo m}. \<exists>bs t. node_at fs (fr_path k) = Some (File bs t)
          \<and> length bs = fr_size k \<and> strftime_c e t = Some (fr_timeStamp k))
     \<and> r = (cacheFileInfo m)\<lparr> fr_sha2 := [] \<rparr> \<and> lc (content fs (fr_path (cacheFileInfo m))) c = (None, snd s')"
proof -
  from ok obtain v s1 s2 s3 mp found where d: "make_directory cd (fs, c) = (Inr v, s1)"
    and l: "look (\<lambda>_. manifest_path e root cd asset h) s1 = (Inr mp, s2)" and f3: "find_manifest e mp s2 = (Inr found, s3)"
    and rest3: "(case found of
       Inr m \<Rightarrow> LoadBinary e False (fr_path (cacheFileInfo m)) lc
     | Inl _ \<Rightarrow> andThen (remove_path mp) (\<lambda>_. andThen (importSourceFile e cd mp asset ls sv) (\<lambda>m. ret (cacheFileInfo m)))) s3
      = (Inr r, s')"
    unfolding LoadAsset_def by (auto simp only: andThen_Inr throwing_Inr)
  have s3: "s3 = s2" using f3 by (auto simp: find_manifest_def split: if_splits option.splits)
  have mp: "manifest_path e root cd asset h = Inr mp" "s2 = s1" using l by (auto simp: look_def)
  have f: "find_manifest e mp s1 = (Inr found, s1)" using f3 s3 mp(2) by simp
  have rest: "(case found of
       Inr m \<Rightarrow> LoadBinary e False (fr_path (cacheFileInfo m)) lc
     | Inl _ \<Rightarrow> andThen (remove_path mp) (\<lambda>_. andThen (importSourceFile e cd mp asset ls sv) (\<lambda>m. ret (cacheFileInfo m)))) s1
      = (Inr r, s')" using rest3 s3 mp(2) by simp
  have st: "dir_step cd fs (fst s1)" using make_directory_step(1) [OF d] by simp
  show ?thesis
  proof (cases found)
    case (Inl x)
    with rest obtain s3 m s4 where r: "remove_path mp s1 = (Inr (), s3)"
      and i: "importSourceFile e cd mp asset ls sv s3 = (Inr m, s4)" by (auto simp: andThen_Inr)
    have "node_at (fst s3) mp = None"
      using r by (auto simp: remove_path_def node_at_def delete_conv' split: option.splits node.splits if_splits)
    moreover have "mp \<noteq> []" using manifest_path_length [OF mp(1)] by auto
    ultimately have "\<exists>x fs1 c1. importSourceFile e cd mp asset ls sv s3 = (Inl x, (fs1, c1))"
      using importSourceFile_failing [where ls = ls and s = s3 and mp = mp and sv = sv and cd = cd and e = e and asset = asset] ls
      by blast
    with i show ?thesis by simp
  next
    case (Inr m)
    with f have l: "LoadAssetManifest e False (content (fst s1) mp) (fst s1) = Inr m" "is_regular_file (fst s1) mp"
      by (auto simp: find_manifest_def split: if_splits option.splits)
    then have dm: "decode e (content (fst s1) mp) = Inr m"
      and ra: "record_matches False (GetRecord e False (fr_path (assetFileInfo m)) (fst s1)) (assetFileInfo m)"
      and rc: "record_matches False (GetRecord e False (fr_path (cacheFileInfo m)) (fst s1)) (cacheFileInfo m)"
      by (auto simp: LoadAssetManifest_def split: sum.splits if_splits)
    have g: "record_matches False (GetRecord e False q fs) k" if "record_matches False (GetRecord e False q (fst s1)) k" for q k
      using that dir_step_GetRecord [OF st] record_matches_Inr [OF that] by metis
    have "GetRecord e False (fr_path (cacheFileInfo m)) (fst s1) = Inr r"
      using rest Inr LoadBinary_Inr [of e False "fr_path (cacheFileInfo m)" lc s1 r s'] by simp
    moreover have "content fs mp = content (fst s1) mp" using dir_step_file [OF st l(2)] by (simp add: content_def)
    moreover have "unchanged_file e fs (assetFileInfo m)" "unchanged_file e fs (cacheFileInfo m)"
      using record_matches_file g [OF ra] g [OF rc] by blast+
    ultimately have "decode e (content fs mp) = Inr m" "r = (cacheFileInfo m)\<lparr> fr_sha2 := [] \<rparr>"
      "unchanged_file e fs (assetFileInfo m)" "unchanged_file e fs (cacheFileInfo m)"
      using dm unchanged_record [OF dir_step_GetRecord [OF st]] by simp_all
    moreover have "lc (content fs (fr_path (cacheFileInfo m))) c = (None, snd s')"
    proof -
      obtain bs t where "node_at (fst s1) (fr_path (cacheFileInfo m)) = Some (File bs t)"
        using record_matches_file [OF rc] unfolding unchanged_file_def by blast
      then have "node_at (fst s1) (fr_path (cacheFileInfo m)) = node_at fs (fr_path (cacheFileInfo m))"
        using dir_step_file [OF st, of "fr_path (cacheFileInfo m)"] by (simp add: is_regular_file_def)
      then show ?thesis
        using LoadBinary_content [of e False "fr_path (cacheFileInfo m)" lc s1 r s'] rest Inr make_directory_step(2) [OF d]
        by (simp add: content_def)
    qed
    ultimately show ?thesis using mp(1) unfolding unchanged_file_def by (intro exI [of _ mp] exI [of _ m]) simp
  qed
qed

definition ex_fs2 :: fsys where
  "ex_fs2 = \<lparr> nodes = [([''r''], Directory), ([''r'', ''m.obj''], File [7, 8] 3), ([''u''], Directory), ([''u'', ''m.obj''], Directory),
     ([''u'', ''0''], File [7] 5), ([''u'', ''m.obj'', ''x.manifest.bin''], File [1] 5)], now = 6, uuid_count = 1 \<rparr>"

theorem LoadAsset_serves_fresh_cache_only_witness:
  "\<exists>r s'. LoadAsset ex_env [''r''] [''u''] [''r'', ''m.obj''] (\<lambda>_ c. (Some NoSuchFile, c)) ex_load ex_save ''x'' (ex_fs2, []) = (Inr r, s')
     \<and> (\<exists>mp m. decode ex_env (content ex_fs2 mp) = Inr m \<and> r = (cacheFileInfo m)\<lparr> fr_sha2 := [] \<rparr>
          \<and> (\<exists>bs t. node_at ex_fs2 (fr_path (cacheFileInfo m)) = Some (File bs t) \<and> length bs = fr_size (cacheFileInfo m)))"
proof -
  have "\<exists>r s'. LoadAsset ex_env [''r''] [''u''] [''r'', ''m.obj''] (\<lambda>_ c. (Some NoSuchFile, c)) ex_load ex_save ''x'' (ex_fs2, []) = (Inr r, s')"
    by (simp add: file_eval ex_fs2_def)
  then obtain r s' where l: "LoadAsset ex_env [''r''] [''u''] [''r'', ''m.obj''] (\<lambda>_ c. (Some NoSuchFile, c)) ex_load ex_save ''x''
      (ex_fs2, []) = (Inr r, s')" by blast
  from LoadAsset_serves_fresh_cache_only [OF _ l] l show ?thesis by fastforce
qed

end
