(* ===== verification/Model_Properties.thy ===== *)
theory Model_Properties
imports Model_Loading File_Properties
begin

text \<open>
  What loading a model guarantees: an import keeps every corner of every face (\<open>import_keeps_corners\<close>) inside the
  bounds it computes, and a model that comes from the asset cache is the one that was imported.
\<close>

section \<open>The vertex of a corner\<close>

definition padded :: "u32 list \<Rightarrow> u32 list" where
  "padded ws = ws @ replicate (4 - length ws) 0"

definition three_at :: "u32 list \<Rightarrow> int \<Rightarrow> u32 list" where
  "three_at xs i = (if xs = [] then [] else take 3 (drop (3 * nat i) xs))"

definition corner_words :: "model_env \<Rightarrow> obj_attrib \<Rightarrow> obj_index \<Rightarrow> u32 list" where
  "corner_words E att i = padded (three_at (oa_vertices att) (vertex_index i)) @ padded (three_at (oa_normals att) (normal_index i))
     @ padded (if oa_texcoords att = [] then [] else
         [oa_texcoords att ! (2 * nat (texcoord_index i)), me_one_minus E (oa_texcoords att ! (2 * nat (texcoord_index i) + 1))])
     @ padded (three_at (oa_colors att) (vertex_index i))"

definition corner_vertex :: "model_env \<Rightarrow> obj_attrib \<Rightarrow> obj_index \<Rightarrow> bytes" where
  "corner_vertex E att i = concat (map le_bytes (corner_words E att i))"

text \<open>The indices of a corner are in the ranges of the attributes the file has.\<close>

definition within :: "u32 list \<Rightarrow> nat \<Rightarrow> int \<Rightarrow> bool" where
  "within xs n i \<longleftrightarrow> xs = [] \<or> 0 \<le> i \<and> n * nat i + n \<le> length xs"

definition corner_ok :: "obj_attrib \<Rightarrow> obj_index \<Rightarrow> bool" where
  "corner_ok att i \<longleftrightarrow> within (oa_vertices att) 3 (vertex_index i) \<and> within (oa_normals att) 3 (normal_index i)
     \<and> within (oa_texcoords att) 2 (texcoord_index i) \<and> within (oa_colors att) 3 (vertex_index i)"

definition attrib_ok :: "obj_attrib \<Rightarrow> bool" where
  "attrib_ok att \<longleftrightarrow> length (oa_vertices att) < 2 ^ 63 \<and> length (oa_normals att) < 2 ^ 63
     \<and> length (oa_texcoords att) < 2 ^ 63 \<and> length (oa_colors att) < 2 ^ 63"

lemma scaled_nat:
  assumes "0 \<le> i" "unat k * nat i < 2 ^ 64"
  shows "scaled k i = unat k * nat i"
proof -
  have "word_of_int i = (of_nat (nat i) :: u64)" using assms(1) by simp
  then have "k * word_of_int i = (of_nat (unat k * nat i) :: u64)" by simp
  moreover have "unat (of_nat (unat k * nat i) :: u64) = unat k * nat i mod 2 ^ 64"
    by (simp only: unat_of_nat) simp
  ultimately show ?thesis using assms(2) by (simp add: scaled_def)
qed

lemma three_of_within:
  assumes "xs \<noteq> []" "within xs 3 i" "length xs < 2 ^ 63"
  shows "three_of xs i = Inr (three_at xs i)" "length (three_at xs i) = 3"
proof -
  have "scaled 3 i = 3 * nat i" using assms by (subst scaled_nat) (auto simp: within_def)
  then show "three_of xs i = Inr (three_at xs i)" "length (three_at xs i) = 3"
    using assms by (auto simp: three_of_def three_at_def within_def)
qed

text \<open>tinyobjloader gives a corner without a normal the index -1.\<close>

lemma missing_index_undefined: "length xs < 2 ^ 63 \<Longrightarrow> three_of xs (- 1) = Inl Undefined"
  by (simp add: three_of_def scaled_def)

lemma uvs_of_within:
  assumes "xs \<noteq> []" "within xs 2 i" "length xs < 2 ^ 63"
  shows "uvs_of f xs i = Inr [xs ! (2 * nat i), f (xs ! (2 * nat i + 1))]"
proof -
  have l: "2 * nat i + 2 \<le> length xs" "0 \<le> i" using assms by (auto simp: within_def)
  have s: "scaled 2 i = 2 * nat i" using l assms(3) by (subst scaled_nat) auto
  have e: "2 * word_of_int i + 1 = (of_nat (2 * nat i + 1) :: u64)" using l(2) by simp
  have "unat (of_nat (2 * nat i + 1) :: u64) = (2 * nat i + 1) mod 2 ^ 64"
    by (simp only: unat_of_nat) simp
  also have "\<dots> = 2 * nat i + 1" using l assms(3) by simp
  finally have "unat (2 * word_of_int i + 1 :: u64) = 2 * nat i + 1" by (simp only: e)
  then show ?thesis using l by (simp add: uvs_of_def s)
qed

section \<open>Filling the last vertex\<close>

lemma overwrite_words:
  assumes "n + length fs \<le> length ws"
  shows "overwrite (4 * n) fs (concat (map le_bytes ws)) = concat (map le_bytes (take n ws @ fs @ drop (n + length fs) ws))"
proof -
  have t: "take (4 * m) (concat (map le_bytes ws)) = concat (map le_bytes (take m ws))"
    "drop (4 * m) (concat (map le_bytes ws)) = concat (map le_bytes (drop m ws))" if "m \<le> length ws" for m
  proof -
    have e: "concat (map le_bytes ws) = concat (map le_bytes (take m ws)) @ concat (map le_bytes (drop m ws))"
      by (metis append_take_drop_id concat_append map_append)
    have l: "length (concat (map le_bytes (take m ws))) = 4 * m" using that by simp
    show "take (4 * m) (concat (map le_bytes ws)) = concat (map le_bytes (take m ws))"
      "drop (4 * m) (concat (map le_bytes ws)) = concat (map le_bytes (drop m ws))"
      unfolding e using append_eq_conv_conj [THEN iffD1, OF refl] l by metis+
  qed
  have "4 * n + 4 * length fs = 4 * (n + length fs)" by simp
  then show ?thesis using t [of n] t [of "n + length fs"] assms by (simp add: overwrite_def del: add_mult_distrib2)
qed

lemma copy_attribute_last:
  assumes "\<not> absent \<Longrightarrow> xs = Inr fs" "absent \<Longrightarrow> fs = []" "offset = 4 * n" "n + length fs \<le> length ws"
  shows "copy_attribute absent xs (Some (length d)) offset (a\<lparr> va_data := d @ concat (map le_bytes ws) \<rparr>)
    = Inr (a\<lparr> va_data := d @ concat (map le_bytes (take n ws @ fs @ drop (n + length fs) ws)) \<rparr>)"
proof (cases absent)
  case True
  then show ?thesis using assms(2) by (simp add: copy_attribute_def flip: concat_append map_append)
next
  case False
  have "store_floats (Some (length d)) offset fs (a\<lparr> va_data := d @ concat (map le_bytes ws) \<rparr>)
    = Inr (a\<lparr> va_data := d @ overwrite offset fs (concat (map le_bytes ws)) \<rparr>)"
    using assms(3,4) by (intro store_floats_last) simp
  then show ?thesis using False assms overwrite_words [OF assms(4)] by (simp add: copy_attribute_def)
qed

lemma length_three: "xs = [] \<Longrightarrow> three_at xs i = []"
  by (simp add: three_at_def)

lemma list3: "length xs = 3 \<Longrightarrow> \<exists>a b c. xs = [a, b, c]"
  by (auto simp: numeral_3_eq_3 length_Suc_conv)

lemma zero_words: "replicate 64 0 = concat (map le_bytes (replicate 16 0))"
  by (simp add: le_bytes_def numeral_eq_Suc)

text \<open>The words of the vertex after each of the four copies.\<close>

lemma padded_over: "length fs \<le> 4 \<Longrightarrow> length pre = n \<Longrightarrow>
  take n (pre @ replicate 4 0 @ post) @ fs @ drop (n + length fs) (pre @ replicate 4 0 @ post) = pre @ padded fs @ post"
  by (simp add: padded_def)

lemma length_padded: "length fs \<le> 4 \<Longrightarrow> length (padded fs) = 4"
  by (simp add: padded_def)

lemma copy_padded:
  assumes "\<not> absent \<Longrightarrow> xs = Inr fs" "absent \<Longrightarrow> fs = []" "offset = 4 * length pre" "length fs \<le> 4"
  shows "copy_attribute absent xs (Some (length d)) offset (a\<lparr> va_data := d @ concat (map le_bytes (pre @ replicate 4 0 @ post)) \<rparr>)
    = Inr (a\<lparr> va_data := d @ concat (map le_bytes (pre @ padded fs @ post)) \<rparr>)"
  using copy_attribute_last [OF assms(1,2,3), where ws = "pre @ replicate 4 0 @ post" and d = d and a = a] assms(4)
  by (simp add: padded_over del: replicate.simps map_append concat_append append_assoc)
    (simp add: padded_def)

lemma fill_vertex_last:
  assumes "corner_ok att i" "attrib_ok att"
  shows "fill_vertex E att i (Some (length d)) (a\<lparr> va_data := d @ replicate 64 0 \<rparr>) = Inr (a\<lparr> va_data := d @ corner_vertex E att i \<rparr>)"
proof -
  define z :: "u32 list" where "z = replicate 4 0"
  define ps where "ps = three_at (oa_vertices att) (vertex_index i)"
  define ns where "ns = three_at (oa_normals att) (normal_index i)"
  define ts where "ts = (if oa_texcoords att = [] then [] else
      [oa_texcoords att ! (2 * nat (texcoord_index i)), me_one_minus E (oa_texcoords att ! (2 * nat (texcoord_index i) + 1))])"
  define cs where "cs = three_at (oa_colors att) (vertex_index i)"
  have len: "length ps \<le> 4" "length ns \<le> 4" "length ts \<le> 4" "length cs \<le> 4"
    by (auto simp: ps_def ns_def ts_def cs_def three_at_def min_def)
  have pl: "length (padded ps) = 4" "length (padded ns) = 4" "length (padded ts) = 4" using len by (simp_all add: length_padded)
  have start: "replicate 64 0 = concat (map le_bytes ([] @ replicate 4 0 @ (z @ z @ z)))"
    unfolding zero_words by (simp add: z_def del: replicate.simps flip: replicate_add)
  have step: "copy_attribute absent xs (Some (length d)) offset (a\<lparr> va_data := d @ concat (map le_bytes (pre @ replicate 4 0 @ post)) \<rparr>)
      = Inr (a\<lparr> va_data := d @ concat (map le_bytes (pre @ padded fs @ post)) \<rparr>)"
    if "\<not> absent \<Longrightarrow> xs = Inr fs" "absent \<Longrightarrow> fs = []" "offset = 4 * length pre" "length fs \<le> 4" for absent xs offset pre post fs
    using that by (rule copy_padded)
  have 1: "copy_attribute (oa_vertices att = []) (three_of (oa_vertices att) (vertex_index i)) (Some (length d)) offset_position
      (a\<lparr> va_data := d @ replicate 64 0 \<rparr>) = Inr (a\<lparr> va_data := d @ concat (map le_bytes ([] @ padded ps @ (z @ z @ z))) \<rparr>)"
    unfolding start by (rule step) (use assms len in \<open>auto simp: offset_position_def ps_def three_of_within corner_ok_def attrib_ok_def length_three\<close>)
  have 2: "copy_attribute (oa_normals att = []) (three_of (oa_normals att) (normal_index i)) (Some (length d)) offset_normal
      (a\<lparr> va_data := d @ concat (map le_bytes (padded ps @ replicate 4 0 @ (z @ z))) \<rparr>)
      = Inr (a\<lparr> va_data := d @ concat (map le_bytes (padded ps @ padded ns @ (z @ z))) \<rparr>)"
    by (rule step) (use assms len pl in \<open>auto simp: offset_normal_def ns_def three_of_within corner_ok_def attrib_ok_def length_three\<close>)
  have 3: "copy_attribute (oa_texcoords att = []) (uvs_of (me_one_minus E) (oa_texcoords att) (texcoord_index i)) (Some (length d))
      offset_texCoord01 (a\<lparr> va_data := d @ concat (map le_bytes ((padded ps @ padded ns) @ replicate 4 0 @ z)) \<rparr>)
      = Inr (a\<lparr> va_data := d @ concat (map le_bytes ((padded ps @ padded ns) @ padded ts @ z)) \<rparr>)"
    by (rule step) (use assms len pl in \<open>auto simp: offset_texCoord01_def ts_def uvs_of_within corner_ok_def attrib_ok_def\<close>)
  have 4: "copy_attribute (oa_colors att = []) (three_of (oa_colors att) (vertex_index i)) (Some (length d)) offset_color
      (a\<lparr> va_data := d @ concat (map le_bytes ((padded ps @ padded ns @ padded ts) @ replicate 4 0 @ [])) \<rparr>)
      = Inr (a\<lparr> va_data := d @ concat (map le_bytes ((padded ps @ padded ns @ padded ts) @ padded cs @ [])) \<rparr>)"
    by (rule step) (use assms len pl in \<open>auto simp: offset_color_def cs_def three_of_within corner_ok_def attrib_ok_def length_three\<close>)
  show ?thesis
    using 1 2 3 4 unfolding z_def fill_vertex_def corner_vertex_def corner_words_def ps_def [symmetric] ns_def [symmetric] ts_def [symmetric] cs_def [symmetric]
    by (simp only: append_Nil append_Nil2 append_assoc bind_res.simps)
qed

section \<open>The import\<close>

definition corner_hash :: "model_env \<Rightarrow> bytes \<Rightarrow> u64" where
  "corner_hash E v = me_XXH64 E v kDefaultSeed"

definition merged :: "model_env \<Rightarrow> obj_attrib \<Rightarrow> bytes list \<Rightarrow> bounds3 \<Rightarrow> bounds3" where
  "merged E att vs b = (if oa_vertices att = [] then b
     else fold (\<lambda>v. Bounds_Merge (me_min E) (me_max E) (floats_at v 0 3)) vs b)"

text \<open>After the corners \<open>is\<close>: the memory holds the vertices \<open>vs\<close> with different hashes, the map finds each of them,
  and every index leads to a vertex with the hash of its corner.\<close>

definition imported :: "model_env \<Rightarrow> obj_attrib \<Rightarrow> bounds3 \<Rightarrow> obj_index list \<Rightarrow> bytes list \<Rightarrow> import_state \<Rightarrow> bool" where
  "imported E att b is vs s \<longleftrightarrow> holds_vertices (is_vertices s) vs \<and> va_stride (is_vertices s) = sizeof_vertex
     \<and> distinct (map (corner_hash E) vs) \<and> length vs \<le> length is
     \<and> map_of (is_unique s) = map_of (zip (map (corner_hash E) vs) (map of_nat [0..<length vs]))
     \<and> set vs \<subseteq> corner_vertex E att ` set is
     \<and> list_all2 (\<lambda>i x. \<exists>k<length vs. x = of_nat k \<and> corner_hash E (vs ! k) = corner_hash E (corner_vertex E att i)) is (is_indices s)
     \<and> is_bounds s = merged E att vs b"

lemma length_corner_vertex:
  assumes "corner_ok att i" "attrib_ok att"
  shows "length (corner_vertex E att i) = sizeof_vertex"
proof -
  have "length (padded fs) = 4" if "length fs \<le> 4" for fs using that by (rule length_padded)
  then show ?thesis by (simp add: corner_vertex_def corner_words_def three_at_def sizeof_vertex_def)
qed

lemma import_start_imported: "imported E att b [] [] (import_start b)"
  by (simp add: imported_def import_start_def holds_vertices_def va_Lock_def SetStride_def vertex_allocator_new_def
      sizeof_vertex_def merged_def)

lemma known_hash:
  assumes "imported E att b is vs s" "map_of (is_unique s) h = Some x"
  obtains k where "k < length vs" "x = of_nat k" "corner_hash E (vs ! k) = h"
proof -
  have "(h, x) \<in> set (zip (map (corner_hash E) vs) (map of_nat [0..<length vs]))"
    using assms by (auto simp: imported_def dest: map_of_SomeD)
  then obtain k where "k < length vs" "h = corner_hash E (vs ! k)" "x = of_nat k"
    by (auto simp: in_set_zip)
  then show ?thesis by (intro that) simp_all
qed

lemma new_hash:
  assumes "imported E att b is vs s" "map_of (is_unique s) h = None"
  shows "h \<notin> corner_hash E ` set vs"
  using assms by (auto simp: imported_def map_of_zip_is_None [where ys = "map of_nat [0..<length vs]"])

lemma map_of_zip_snoc:
  assumes "h \<notin> set hs" "length hs = length ks"
  shows "map_of (zip (hs @ [h]) (ks @ [k])) = (map_of (zip hs ks))(h \<mapsto> k)"
proof -
  define m where "m = map_of (zip hs ks)"
  have "m h = None" using assms by (simp add: m_def map_of_zip_is_None)
  then have "[h \<mapsto> k] ++ m = m(h \<mapsto> k)" by (auto simp: map_add_def split: option.splits)
  then show ?thesis using assms(2) by (simp add: m_def)
qed

lemma corner_position:
  assumes "corner_ok att i" "attrib_ok att"
  shows "floats_at (d @ corner_vertex E att i) (length d) 3 = take 3 (corner_words E att i)"
    "length (take 3 (corner_words E att i)) = 3"
proof -
  let ?w = "corner_words E att i"
  show l: "length (take 3 ?w) = 3" by (simp add: corner_words_def padded_def)
  have "corner_vertex E att i = concat (map le_bytes (take 3 ?w)) @ concat (map le_bytes (drop 3 ?w))"
    unfolding corner_vertex_def by (metis append_take_drop_id concat_append map_append)
  then show "floats_at (d @ corner_vertex E att i) (length d) 3 = take 3 ?w"
    using floats_at_bytes [of d "take 3 ?w" "concat (map le_bytes (drop 3 ?w))"] l by simp
qed

lemma import_new_vertex:
  assumes inv: "imported E att b is vs s" and h: "map_of (is_unique s) (corner_hash E v) = None"
    and v: "v = corner_vertex E att i" "length v = sizeof_vertex"
    and a: "a1 = (is_vertices s)\<lparr> va_data := va_data (is_vertices s) @ v \<rparr>"
    and m: "bs = (if oa_vertices att = [] then is_bounds s else Bounds_Merge (me_min E) (me_max E) (floats_at v 0 3) (is_bounds s))"
  shows "imported E att b (is @ [i]) (vs @ [v]) (s\<lparr> is_vertices := a1,
    is_unique := AList.update (corner_hash E v) (of_nat (length vs)) (is_unique s),
    is_indices := is_indices s @ [of_nat (length vs)], is_bounds := bs \<rparr>)"
proof -
  have n: "corner_hash E v \<notin> set (map (corner_hash E) vs)" using new_hash [OF inv h] by simp
  have z: "map_of (zip (map (corner_hash E) (vs @ [v])) (map of_nat [0..<length (vs @ [v])]))
      = (map_of (is_unique s))(corner_hash E v \<mapsto> of_nat (length vs))"
    using inv map_of_zip_snoc [OF n, of "map of_nat [0..<length vs]" "of_nat (length vs)"] by (simp add: imported_def)
  have "list_all2 (\<lambda>i x. \<exists>k<length (vs @ [v]). x = of_nat k \<and> corner_hash E ((vs @ [v]) ! k) = corner_hash E (corner_vertex E att i))
      is (is_indices s)"
    using inv unfolding imported_def by (elim conjE, elim list_all2_mono) (auto simp: nth_append intro: less_SucI)
  moreover have "\<exists>k<length (vs @ [v]). of_nat (length vs) = (of_nat k :: u32) \<and> corner_hash E ((vs @ [v]) ! k) = corner_hash E (corner_vertex E att i)"
    by (rule exI [of _ "length vs"]) (simp add: v(1))
  ultimately have l: "list_all2 (\<lambda>i x. \<exists>k<length (vs @ [v]). x = of_nat k \<and> corner_hash E ((vs @ [v]) ! k) = corner_hash E (corner_vertex E att i))
      (is @ [i]) (is_indices s @ [of_nat (length vs)])"
    by (intro list_all2_appendI) simp_all
  have d: "distinct (map (corner_hash E) (vs @ [v]))" using inv n by (simp add: imported_def)
  show ?thesis
    unfolding imported_def using inv d z l v m
    by (auto simp: imported_def a holds_vertices_def merged_def update_conv' simp del: map_append zip_append upt_Suc)
qed

lemma import_step:
  assumes inv: "imported E att b is vs s" and ok: "corner_ok att i" "attrib_ok att"
  shows "\<exists>s' vs'. import_index E att i s = Inr s' \<and> imported E att b (is @ [i]) vs' s'"
proof -
  define d where "d = va_data (is_vertices s)"
  define v where "v = corner_vertex E att i"
  define a1 where "a1 = (is_vertices s)\<lparr> va_data := d @ v \<rparr>"
  have st: "va_stride (is_vertices s) = 64" using inv by (simp add: imported_def sizeof_vertex_def)
  have v: "length v = sizeof_vertex" unfolding v_def by (rule length_corner_vertex [OF ok])
  have al: "va_Allocate 1 (is_vertices s) = (Some (length d), (is_vertices s)\<lparr> va_data := d @ replicate 64 0 \<rparr>)"
    by (simp add: va_Allocate_one d_def st)
  have f: "fill_vertex E att i (Some (length d)) ((is_vertices s)\<lparr> va_data := d @ replicate 64 0 \<rparr>) = Inr a1"
    unfolding a1_def v_def by (rule fill_vertex_last [OF ok])
  have h: "Vertex_Hash (me_XXH64 E) (Some (length d)) a1 = Inr (corner_hash E v)"
    unfolding a1_def by (subst Hash_last) (simp_all add: v st sizeof_vertex_def corner_hash_def)
  have ly: "holds_vertices a1 (vs @ [v])"
    using inv v by (auto simp: imported_def holds_vertices_def a1_def d_def)
  show ?thesis
  proof (cases "map_of (is_unique s) (corner_hash E v)")
    case None
    have p: "vertex_position (Some (length d)) a1 = floats_at v 0 3"
      using corner_position(1) [OF ok, where d = d] corner_position(1) [OF ok, where d = "[]"]
      by (simp add: vertex_position_def a1_def offset_position_def v_def)
    let ?s = "s\<lparr> is_vertices := a1, is_unique := AList.update (corner_hash E v) (of_nat (length vs)) (is_unique s),
      is_indices := is_indices s @ [of_nat (length vs)],
      is_bounds := (if oa_vertices att = [] then is_bounds s else Bounds_Merge (me_min E) (me_max E) (floats_at v 0 3) (is_bounds s)) \<rparr>"
    have "import_index E att i s = Inr ?s"
      unfolding import_index_def al Let_def prod.case f bind_res.simps h None option.case holds_vertices_Size [OF ly] p by simp
    moreover have "imported E att b (is @ [i]) (vs @ [v]) ?s"
      by (rule import_new_vertex [OF inv None v_def v _ refl]) (simp add: a1_def d_def)
    ultimately show ?thesis by blast
  next
    case (Some x)
    have fr: "va_Free (Some (length d)) 1 a1 = Inr (is_vertices s)"
      unfolding a1_def using Free_last [of v "is_vertices s" d] v st by (simp add: d_def sizeof_vertex_def)
    obtain k where k: "k < length vs" "x = of_nat k" "corner_hash E (vs ! k) = corner_hash E v"
      using known_hash [OF inv Some] by metis
    have "imported E att b (is @ [i]) vs (s\<lparr> is_indices := is_indices s @ [x] \<rparr>)"
      using inv k by (auto simp: imported_def v_def intro!: list_all2_appendI)
    moreover have "import_index E att i s = Inr (s\<lparr> is_indices := is_indices s @ [x] \<rparr>)"
      unfolding import_index_def al Let_def prod.case f bind_res.simps h Some option.case fr by simp
    ultimately show ?thesis by blast
  qed
qed

lemma import_fold:
  assumes "imported E att b is vs s" "\<forall>i\<in>set js. corner_ok att i" "attrib_ok att"
  shows "\<exists>s' vs'. fold_res (import_index E att) js s = Inr s' \<and> imported E att b (is @ js) vs' s'"
  using assms
proof (induction js arbitrary: "is" vs s)
  case (Cons j js)
  from import_step [OF Cons.prems(1), of j] Cons.prems(2,3) obtain s1 vs1 where
    s1: "import_index E att j s = Inr s1" "imported E att b (is @ [j]) vs1 s1" by auto
  from Cons.IH [OF s1(2)] Cons.prems(2,3) show ?case by (simp add: s1(1))
qed auto

lemma fold_res_concat: "fold_res (fold_res f) xss s = fold_res f (concat xss) s"
proof (induction xss arbitrary: s)
  case (Cons xs xss)
  then show ?case by (cases "fold_res f xs s") (simp_all add: fold_res_append)
qed simp

lemma import_shapes_imported:
  assumes "\<forall>i\<in>set (concat shapes). corner_ok att i" "attrib_ok att"
  obtains s vs where "import_shapes E att shapes b = Inr s" "imported E att b (concat shapes) vs s"
  using import_fold [OF import_start_imported [where b = b and E = E] assms] by (auto simp: import_shapes_def fold_res_concat)

section \<open>Properties of the import\<close>

text \<open>The vertex an index leads to.\<close>

definition vertex_at :: "import_state \<Rightarrow> u32 \<Rightarrow> bytes" where
  "vertex_at s k = take sizeof_vertex (drop (unat k * sizeof_vertex) (va_data (is_vertices s)))"

lemma vertex_at_nth:
  assumes "imported E att b is vs s" "k < length vs" "length is < 2 ^ 32"
  shows "vertex_at s (of_nat k) = vs ! k"
proof -
  have "k < 2 ^ 32" using assms by (simp add: imported_def)
  then have "unat (of_nat k :: u32) = k" by (simp only: unat_of_nat) simp
  moreover have "holds_vertices (is_vertices s) vs" "va_stride (is_vertices s) = sizeof_vertex"
    using assms(1) by (simp_all add: imported_def)
  ultimately show ?thesis using holds_vertices_nth [OF _ assms(2), of "is_vertices s"] by (simp add: vertex_at_def)
qed

definition corners_differ :: "model_env \<Rightarrow> obj_attrib \<Rightarrow> obj_index list \<Rightarrow> bool" where
  "corners_differ E att is \<longleftrightarrow> inj_on (\<lambda>v. me_XXH64 E v kDefaultSeed) (corner_vertex E att ` set is)"

lemma corner_found:
  assumes inv: "imported E att b is vs s" and len: "length is < 2 ^ 32" and inj: "corners_differ E att is" and n: "n < length is"
  shows "vertex_at s (is_indices s ! n) = corner_vertex E att (is ! n)" "corner_vertex E att (is ! n) \<in> set vs"
proof -
  have "list_all2 (\<lambda>i x. \<exists>k<length vs. x = of_nat k \<and> corner_hash E (vs ! k) = corner_hash E (corner_vertex E att i))
      is (is_indices s)" using inv by (simp add: imported_def)
  from list_all2_nthD [OF this n] obtain k where k: "k < length vs" "is_indices s ! n = of_nat k"
    "corner_hash E (vs ! k) = corner_hash E (corner_vertex E att (is ! n))" by blast
  have "vs ! k \<in> set vs" using k(1) by simp
  moreover have "set vs \<subseteq> corner_vertex E att ` set is" using inv by (simp add: imported_def)
  ultimately have "vs ! k = corner_vertex E att (is ! n)"
    using inj n k(3) by (auto simp: corners_differ_def inj_on_def corner_hash_def)
  then show "vertex_at s (is_indices s ! n) = corner_vertex E att (is ! n)" "corner_vertex E att (is ! n) \<in> set vs"
    using vertex_at_nth [OF inv k(1) len] k(1,2) nth_mem by metis+
qed

lemma corner_stored:
  assumes inv: "imported E att b is vs s" "length is < 2 ^ 32" "corners_differ E att is" and i: "i \<in> set is"
  shows "corner_vertex E att i \<in> set vs"
  using i corner_found(2) [OF inv] unfolding in_set_conv_nth [of i] by blast

text \<open>C11: If no two of its vertices have the same hash, an imported file keeps its geometry: the indices, read through
  the vertex memory, give for every corner of every shape in order exactly the vertex its indices describe, no vertex
  is stored twice, and no other vertex is stored.\<close>
theorem import_keeps_corners:
  assumes ok: "\<forall>i\<in>set (concat shapes). corner_ok att i" "attrib_ok att" "length (concat shapes) < 2 ^ 32"
    and inj: "corners_differ E att (concat shapes)"
  shows "\<exists>s vs. import_shapes E att shapes b = Inr s \<and> map (vertex_at s) (is_indices s) = map (corner_vertex E att) (concat shapes)
    \<and> va_data (is_vertices s) = concat vs \<and> distinct vs \<and> set vs = corner_vertex E att ` set (concat shapes)"
proof -
  obtain s vs where s: "import_shapes E att shapes b = Inr s" and inv: "imported E att b (concat shapes) vs s"
    by (rule import_shapes_imported [OF ok(1,2)])
  have "length (is_indices s) = length (concat shapes)" using inv by (auto simp: imported_def dest: list_all2_lengthD)
  then have "map (vertex_at s) (is_indices s) = map (corner_vertex E att) (concat shapes)"
    using corner_found(1) [OF inv ok(3) inj] by (intro nth_equalityI) simp_all
  moreover have "set vs = corner_vertex E att ` set (concat shapes)"
    using inv corner_stored [OF inv ok(3) inj] by (auto simp: imported_def)
  moreover have "distinct vs" "va_data (is_vertices s) = concat vs"
    using inv by (auto simp: imported_def holds_vertices_def distinct_map)
  ultimately show ?thesis using s by blast
qed

section \<open>Bounds of what is imported\<close>

text \<open>An order of the floats without NaN, and what \<open>glm::min\<close> and \<open>glm::max\<close> do there.\<close>

definition float_order :: "(u32 \<Rightarrow> u32 \<Rightarrow> bool) \<Rightarrow> u32 set \<Rightarrow> bool" where
  "float_order lt N \<longleftrightarrow> (\<forall>x\<in>N. \<forall>y\<in>N. lt x y \<longrightarrow> \<not> lt y x)
     \<and> (\<forall>x\<in>N. \<forall>y\<in>N. \<forall>z\<in>N. \<not> lt x y \<longrightarrow> \<not> lt y z \<longrightarrow> \<not> lt x z)"

definition glm_min_max :: "(u32 \<Rightarrow> u32 \<Rightarrow> bool) \<Rightarrow> u32 set \<Rightarrow> model_env \<Rightarrow> bool" where
  "glm_min_max lt N E \<longleftrightarrow> (\<forall>x\<in>N. \<forall>y\<in>N. me_min E x y = (if lt y x then y else x) \<and> me_max E x y = (if lt x y then y else x))"

definition inside :: "(u32 \<Rightarrow> u32 \<Rightarrow> bool) \<Rightarrow> u32 list \<Rightarrow> bounds3 \<Rightarrow> bool" where
  "inside lt p b \<longleftrightarrow> (\<forall>k<3. \<not> lt (p ! k) (myMin b ! k) \<and> \<not> lt (myMax b ! k) (p ! k))"

definition bounds_in :: "u32 set \<Rightarrow> bounds3 \<Rightarrow> bool" where
  "bounds_in N b \<longleftrightarrow> length (myMin b) = 3 \<and> length (myMax b) = 3 \<and> set (myMin b) \<subseteq> N \<and> set (myMax b) \<subseteq> N"

lemma merge_inside:
  assumes o: "float_order lt N" "glm_min_max lt N E" and b: "bounds_in N b" and p: "length p = 3" "set p \<subseteq> N"
  defines "m \<equiv> Bounds_Merge (me_min E) (me_max E) p b"
  shows "bounds_in N m" "inside lt p m" "length q = 3 \<Longrightarrow> set q \<subseteq> N \<Longrightarrow> inside lt q b \<Longrightarrow> inside lt q m"
proof -
  obtain p0 p1 p2 where p': "p = [p0, p1, p2]" using list3 [OF p(1)] by blast
  obtain l0 l1 l2 where l: "myMin b = [l0, l1, l2]" using list3 b by (metis bounds_in_def)
  obtain h0 h1 h2 where h: "myMax b = [h0, h1, h2]" using list3 b by (metis bounds_in_def)
  have A: "\<not> lt y x" if "lt x y" "x \<in> N" "y \<in> N" for x y
    using o(1) that unfolding float_order_def by blast
  have T: "\<not> lt x z" if "\<not> lt x y" "\<not> lt y z" "x \<in> N" "y \<in> N" "z \<in> N" for x y z
    using o(1) that unfolding float_order_def by blast
  have N: "me_min E x y = (if lt y x then y else x)" "me_max E x y = (if lt x y then y else x)" if "x \<in> N" "y \<in> N" for x y
    using o(2) that unfolding glm_min_max_def by blast+
  have k3: "(\<forall>k<3. P k) \<longleftrightarrow> P 0 \<and> P 1 \<and> P (2 :: nat)" for P
    by (auto simp: numeral_3_eq_3 numeral_2_eq_2 All_less_Suc)
  have mm: "me_min E x y \<in> N" "me_max E x y \<in> N" "\<not> lt y (me_min E x y)" "\<not> lt (me_max E x y) y"
    "z \<in> N \<Longrightarrow> \<not> lt z x \<Longrightarrow> \<not> lt z (me_min E x y)" "z \<in> N \<Longrightarrow> \<not> lt x z \<Longrightarrow> \<not> lt (me_max E x y) z"
    if "x \<in> N" "y \<in> N" for x y z
    using that A [of y x] A [of x y] A [of y y] T [of z x y] T [of y x z] by (auto simp: N)
  have in3: "{p0, p1, p2, l0, l1, l2, h0, h1, h2} \<subseteq> N" using p b by (auto simp: p' l h bounds_in_def)
  show "bounds_in N m" using mm in3 by (simp add: m_def Bounds_Merge_def bounds_in_def p' l h)
  show "inside lt p m" using mm in3 by (simp add: m_def Bounds_Merge_def inside_def k3 p' l h)
  show "inside lt q m" if q': "length q = 3" "set q \<subseteq> N" "inside lt q b"
  proof -
    obtain q0 q1 q2 where q: "q = [q0, q1, q2]" using list3 [OF q'(1)] by blast
    show ?thesis using q' mm in3 by (simp add: m_def Bounds_Merge_def inside_def k3 p' l h q)
  qed
qed

lemma fold_inside:
  assumes "float_order lt N" "glm_min_max lt N E" "bounds_in N b" "\<forall>v\<in>set vs. length (f v) = 3 \<and> set (f v) \<subseteq> N"
  defines "m \<equiv> fold (\<lambda>v. Bounds_Merge (me_min E) (me_max E) (f v)) vs b"
  shows "bounds_in N m \<and> (\<forall>v\<in>set vs. inside lt (f v) m) \<and> (\<forall>q. length q = 3 \<longrightarrow> set q \<subseteq> N \<longrightarrow> inside lt q b \<longrightarrow> inside lt q m)"
  using assms(3,4) unfolding m_def
proof (induction vs arbitrary: b)
  case (Cons v vs)
  note M = merge_inside [OF assms(1,2) Cons.prems(1)]
  let ?b = "Bounds_Merge (me_min E) (me_max E) (f v) b"
  have v: "length (f v) = 3" "set (f v) \<subseteq> N" using Cons.prems(2) by simp_all
  have IH: "bounds_in N (fold (\<lambda>v. Bounds_Merge (me_min E) (me_max E) (f v)) vs ?b)
    \<and> (\<forall>v\<in>set vs. inside lt (f v) (fold (\<lambda>v. Bounds_Merge (me_min E) (me_max E) (f v)) vs ?b))
    \<and> (\<forall>q. length q = 3 \<longrightarrow> set q \<subseteq> N \<longrightarrow> inside lt q ?b \<longrightarrow> inside lt q (fold (\<lambda>v. Bounds_Merge (me_min E) (me_max E) (f v)) vs ?b))"
    using Cons.prems(2) by (intro Cons.IH M(1) [OF v]) simp
  then show ?case using v M [OF v] by simp
qed simp

lemma corner_vertex_position:
  assumes "oa_vertices att \<noteq> []" "corner_ok att i" "attrib_ok att"
  shows "floats_at (corner_vertex E att i) 0 3 = three_at (oa_vertices att) (vertex_index i)"
proof -
  have "length (three_at (oa_vertices att) (vertex_index i)) = 3"
    using assms by (intro three_of_within) (auto simp: corner_ok_def attrib_ok_def)
  then have "take 3 (corner_words E att i) = three_at (oa_vertices att) (vertex_index i)"
    by (simp add: corner_words_def padded_def)
  then show ?thesis using corner_position(1) [OF assms(2,3), of "[]" E] by simp
qed

lemma set_three_at: "set (three_at xs i) \<subseteq> set xs"
  by (auto simp: three_at_def dest: in_set_takeD in_set_dropD)

text \<open>C39: The bounds an import computes contain the position of every corner, and the bounds it began with: where the
  members of the default bounds are zero, they contain the origin, however far the model is from it.\<close>
theorem import_bounds_contain_corners:
  assumes ok: "\<forall>i\<in>set (concat shapes). corner_ok att i" "attrib_ok att" "length (concat shapes) < 2 ^ 32" "oa_vertices att \<noteq> []"
    and inj: "corners_differ E att (concat shapes)"
    and fl: "float_order lt (insert 0 (set (oa_vertices att)))" "glm_min_max lt (insert 0 (set (oa_vertices att))) E"
  shows "\<exists>s. import_shapes E att shapes bounds3_zero = Inr s \<and> inside lt [0, 0, 0] (is_bounds s)
    \<and> (\<forall>i\<in>set (concat shapes). inside lt (three_at (oa_vertices att) (vertex_index i)) (is_bounds s))"
proof -
  let ?N = "insert 0 (set (oa_vertices att))" and ?p = "\<lambda>v. floats_at v 0 3"
  obtain s vs where s: "import_shapes E att shapes bounds3_zero = Inr s"
    and inv: "imported E att bounds3_zero (concat shapes) vs s" by (rule import_shapes_imported [OF ok(1,2)])
  have p3: "length (three_at (oa_vertices att) (vertex_index i)) = 3" if "i \<in> set (concat shapes)" for i
    using that ok by (intro three_of_within) (auto simp: corner_ok_def attrib_ok_def)
  have vs: "\<forall>v\<in>set vs. length (?p v) = 3 \<and> set (?p v) \<subseteq> ?N"
  proof
    fix v assume "v \<in> set vs"
    then obtain i where i: "i \<in> set (concat shapes)" "v = corner_vertex E att i"
      using inv unfolding imported_def by blast
    then have "?p v = three_at (oa_vertices att) (vertex_index i)" using ok by (simp add: corner_vertex_position del: set_concat)
    then show "length (?p v) = 3 \<and> set (?p v) \<subseteq> ?N" using p3 [OF i(1)] set_three_at by auto
  qed
  have z: "bounds_in ?N bounds3_zero" by (simp add: bounds_in_def bounds3_zero_def)
  have zi: "inside lt [0, 0, 0] bounds3_zero"
    using fl(1) by (simp add: inside_def bounds3_zero_def float_order_def nth_Cons split: nat.splits)
  have b: "is_bounds s = fold (\<lambda>v. Bounds_Merge (me_min E) (me_max E) (?p v)) vs bounds3_zero"
    using inv ok(4) by (simp add: imported_def merged_def)
  note F = fold_inside [OF fl z vs, folded b]
  have "inside lt (three_at (oa_vertices att) (vertex_index i)) (is_bounds s)" if i: "i \<in> set (concat shapes)" for i
    using F corner_stored [OF inv ok(3) inj i] corner_vertex_position [of att i E] ok i by (auto simp del: set_concat)
  moreover have "inside lt [0, 0, 0] (is_bounds s)" using F zi by simp
  ultimately show ?thesis using s by blast
qed

text \<open>A file of one triangle twice, with positions and colours; a hash that tells its three vertices apart; the bits of
  non-negative floats are ordered like their values.\<close>

definition ex_attrib :: obj_attrib where
  "ex_attrib = \<lparr> oa_vertices = [1, 1, 1, 2, 2, 2, 3, 3, 3], oa_normals = [], oa_texcoords = [], oa_colors = [7, 7, 7, 7, 7, 7, 7, 7, 7] \<rparr>"

definition ex_corner :: "int \<Rightarrow> obj_index" where
  "ex_corner i = \<lparr> vertex_index = i, normal_index = -1, texcoord_index = -1 \<rparr>"

definition ex_shapes :: "obj_index list list" where
  "ex_shapes = [map ex_corner [0, 1, 2], map ex_corner [2, 1, 0]]"

definition ex_model_desc :: model_desc where
  "ex_model_desc = \<lparr> md_bounds = \<lparr> myMin = [0, 0, 0], myMax = [1, 1, 1] \<rparr>, md_indexCount = 1, md_vertexCount = 1, md_attributes =
     [\<lparr> at_location = 0, at_binding = 0, at_format = FORMAT_R32G32B32_SFLOAT, at_offset = 0 \<rparr>,
      \<lparr> at_location = 1, at_binding = 0, at_format = FORMAT_R32G32B32A32_SFLOAT, at_offset = 48 \<rparr>] \<rparr>"

definition ex_codec :: codec where
  "ex_codec = \<lparr> put_desc = (\<lambda>d. if d = ex_model_desc then Inr [9] else Inl (SerializerError 0)),
     get_desc = (\<lambda>bs. case bs of [] \<Rightarrow> Inl (SerializerError 1) | b # rest \<Rightarrow> Inr (ex_model_desc, rest)), put_span = (\<lambda>x. Inr x),
     get_span = (\<lambda>n bs. Inr (take n bs, drop n bs)) \<rparr>"

definition ex_model_env :: model_env where
  "ex_model_env = \<lparr> me_obj = (\<lambda>p. Some (ex_attrib, ex_shapes)), me_XXH64 = (\<lambda>v seed. ucast (hd v) + seed), me_one_minus = (\<lambda>x. x),
     me_min = (\<lambda>x y. if y < x then y else x), me_max = (\<lambda>x y. if x < y then y else x), me_codec = ex_codec,
     me_driver = \<lparr> dv_buffer = (\<lambda>v. (length v + 1, length v + 1)), dv_image = (\<lambda>v. (0, 0)), dv_view = (\<lambda>v. 0), dv_renderPass = (\<lambda>v. 0),
       dv_framebuffer = (\<lambda>v. 0), dv_swapchain = (\<lambda>v. 0), dv_swapchainImages = (\<lambda>v. []) \<rparr> \<rparr>"

lemma ex_corners_ok: "\<forall>i\<in>set (concat ex_shapes). corner_ok ex_attrib i" "attrib_ok ex_attrib" "length (concat ex_shapes) < 2 ^ 32"
  by (simp_all add: ex_shapes_def ex_corner_def corner_ok_def within_def ex_attrib_def attrib_ok_def)

lemma ex_hashes: "map (\<lambda>i. me_XXH64 ex_model_env (corner_vertex ex_model_env ex_attrib (ex_corner i)) kDefaultSeed) [0, 1, 2] = [43, 44, 45]"
  by code_simp

lemma ex_corners_differ: "corners_differ ex_model_env ex_attrib (concat ex_shapes)"
  using ex_hashes by (auto simp: corners_differ_def ex_shapes_def inj_on_def)

lemma less_float_order: "float_order (<) N"
  unfolding float_order_def not_less by (metis order.trans less_asym not_less)

theorem import_keeps_corners_witness:
  "\<exists>s. import_shapes ex_model_env ex_attrib ex_shapes bounds3_zero = Inr s
     \<and> map (vertex_at s) (is_indices s) = map (corner_vertex ex_model_env ex_attrib) (concat ex_shapes)"
  using import_keeps_corners [OF ex_corners_ok ex_corners_differ, of bounds3_zero] by blast

theorem import_bounds_contain_corners_witness:
  "\<exists>s. import_shapes ex_model_env ex_attrib ex_shapes bounds3_zero = Inr s \<and> inside (<) [0, 0, 0] (is_bounds s) \<and> inside (<) [1, 1, 1] (is_bounds s)"
proof -
  have o: "float_order (<) (insert 0 (set (oa_vertices ex_attrib)))" "glm_min_max (<) (insert 0 (set (oa_vertices ex_attrib))) ex_model_env"
    by (simp_all only: less_float_order) (simp add: glm_min_max_def ex_model_env_def)
  have "ex_corner 0 \<in> set (concat ex_shapes)" "three_at (oa_vertices ex_attrib) (vertex_index (ex_corner 0)) = [1, 1, 1]"
    "oa_vertices ex_attrib \<noteq> []"
    by (simp_all add: ex_shapes_def ex_corner_def three_at_def ex_attrib_def)
  then show ?thesis using import_bounds_contain_corners [OF ex_corners_ok _ ex_corners_differ o] by metis
qed

section \<open>The binary form\<close>

text \<open>What zpp::bits promises of the description and of a span of bytes, and what the driver promises of a new buffer.\<close>

definition codec_ok :: "codec \<Rightarrow> bool" where
  "codec_ok z \<longleftrightarrow> (\<forall>d b rest. put_desc z d = Inr b \<longrightarrow> get_desc z (b @ rest) = Inr (d, rest))
     \<and> (\<forall>x b rest. put_span z x = Inr b \<longrightarrow> get_span z (length x) (b @ rest) = Inr (x, rest))"

definition buffers_fresh :: "driver \<Rightarrow> bool" where
  "buffers_fresh d \<longleftrightarrow> (\<forall>v. fst (dv_buffer d v) \<noteq> 0) \<and> (\<forall>v c. snd (dv_buffer d (v @ [c])) \<noteq> snd (dv_buffer d v))"

text \<open>The contents of the two buffers.\<close>

definition index_bytes :: "model_load \<Rightarrow> bytes res" where
  "index_bytes s = host_read (snd (lo_ib s)) (ib_size s) s"

definition vertex_bytes :: "model_load \<Rightarrow> bytes res" where
  "vertex_bytes s = host_read (snd (lo_vb s)) (vb_size s) s"

lemma host_read_length: "host_read h n s = Inr bs \<Longrightarrow> length bs = n"
  by (auto simp: host_read_def split: option.splits if_splits)

lemma written: "(case r of Inl e \<Rightarrow> Inr (Inl e, s) | Inr b \<Rightarrow> f b) = Inr (Inr x, s') \<longleftrightarrow> (\<exists>b. r = Inr b \<and> f b = Inr (Inr x, s'))"
  by (cases r) auto

lemma saveBin_Inr:
  assumes "saveBin E s = Inr (Inr bs, s')"
  obtains b1 b2 b3 ib vb where "s' = s" "bs = b1 @ b2 @ b3" "put_desc (me_codec E) (lo_desc s) = Inr b1"
    "index_bytes s = Inr ib" "put_span (me_codec E) ib = Inr b2" "vertex_bytes s = Inr vb" "put_span (me_codec E) vb = Inr b3"
  using assms unfolding saveBin_def index_bytes_def vertex_bytes_def
  by (auto simp: bind_res_Inr written)

lemma loadBin_saveBin:
  assumes z: "codec_ok (me_codec E)" and d: "buffers_fresh (me_driver E)" and s: "saveBin E s = Inr (Inr bs, s')"
    and E': "me_codec E' = me_codec E" "me_driver E' = me_driver E"
  shows "\<exists>t'. loadBin E' modelFile bs t = Inr (Inr (), t') \<and> lo_desc t' = lo_desc s \<and> index_bytes t' = index_bytes s
    \<and> vertex_bytes t' = vertex_bytes s \<and> fst (lo_ib t') \<noteq> 0 \<and> fst (lo_vb t') \<noteq> 0"
proof -
  from saveBin_Inr [OF s] obtain b1 b2 b3 ib vb where
    b: "bs = b1 @ b2 @ b3" "put_desc (me_codec E) (lo_desc s) = Inr b1"
    and i: "index_bytes s = Inr ib" "put_span (me_codec E) ib = Inr b2"
    and v: "vertex_bytes s = Inr vb" "put_span (me_codec E) vb = Inr b3" by metis
  have g: "get_desc (me_codec E) bs = Inr (lo_desc s, b2 @ b3)" "get_span (me_codec E) (length ib) (b2 @ b3) = Inr (ib, b3)"
    "get_span (me_codec E) (length vb) b3 = Inr (vb, [])"
    using z b i(2) v(2) unfolding codec_ok_def by (blast, blast, metis append_Nil2)
  have l: "unat (md_indexCount (lo_desc s)) * 4 = length ib" "unat (md_vertexCount (lo_desc s)) * sizeof_vertex = length vb"
    using host_read_length i(1) v(1) unfolding index_bytes_def vertex_bytes_def ib_size_def vb_size_def by metis+
  define call where "call n suffix b = CreateBufferCall \<lparr> bi_size = n, bi_usage = {UsageTransferSrc}, bi_gpuOnly = False,
    bi_required = {HostVisible, HostCoherent}, bi_name = filename modelFile @ suffix \<rparr> b" for n suffix b
  obtain i1 i2 where ih: "dv_buffer (me_driver E) (lo_calls t) = (i1, i2)" by force
  define calls1 where "calls1 = lo_calls t @ [call (length ib) ''_staging_ib'' i1]"
  obtain v1 v2 where vh: "dv_buffer (me_driver E) calls1 = (v1, v2)" by force
  have f: "0 < i1" "0 < v1" "v2 \<noteq> i2"
    using d ih vh unfolding buffers_fresh_def calls1_def by (metis fst_conv gr0I, metis fst_conv gr0I, metis snd_conv)
  let ?t = "t\<lparr> lo_calls := calls1 @ [call (length vb) ''_staging_vb'' v1], lo_host := AList.update v2 vb (AList.update i2 ib (lo_host t)),
    lo_ib := (i1, i2), lo_vb := (v1, v2), lo_desc := lo_desc s \<rparr>"
  have "loadBin E' modelFile bs t = Inr (Inr (), ?t)"
    unfolding loadBin_def E' g(1) decoded_def
    by (simp add: staging_def CreateBuffer_def Let_def E' ib_size_def vb_size_def l g(2,3) host_write_def ih vh [unfolded calls1_def call_def]
        calls1_def call_def)
  moreover have "index_bytes ?t = Inr ib" "vertex_bytes ?t = Inr vb"
    using f(3) by (simp_all add: index_bytes_def vertex_bytes_def host_read_def ib_size_def vb_size_def l update_conv')
  ultimately show ?thesis using i(1) v(1) f by (intro exI [of _ ?t]) simp
qed

lemma as_save_Inr: "as_save f c = (Inr bs, Inr s) \<longleftrightarrow> (\<exists>s0. c = Inr s0 \<and> f s0 = Inr (Inr bs, s))"
  by (cases c) (auto simp: as_save_def split: sum.splits)

lemma as_load_None: "f bs t = Inr (Inr (), t') \<Longrightarrow> as_load f bs (Inr t) = (None, Inr t')"
  by (simp add: as_load_def)

lemma model_Load_Inr:
  assumes "model_Load e root cd E mf (fs, v) = Inr (s, fs1)"
  obtains r where "LoadAsset e root cd mf (as_load (loadOBJ E mf)) (as_load (loadBin E mf)) (as_save (saveBin E)) (model_params e)
    (fs, Inr (model_load_new v)) = (Inr r, (fs1, Inr s))"
  using assms unfolding model_Load_def by (auto simp: bind_res_Inr split: prod.splits sum.splits if_splits)

text \<open>C12: A model that was imported and written to the cache is loaded from there the next time: with the source files
  unchanged the second load succeeds, changes nothing on the disk, and ends with the same description and the same
  contents of the index and the vertex buffer, even when the importer (another version of it, say) gives
  something else by then.\<close>
theorem model_reloaded_from_cache:
  assumes codec: "\<And>m bs. encode e m = Inr bs \<Longrightarrow> decode e bs = Inr m" "codec_ok (me_codec E)"
    and readable: "\<And>fs p. is_regular_file fs p \<Longrightarrow> map_source e fs p = None"
    and fresh: "buffers_fresh (me_driver E)"
    and mp: "manifest_path e root cd mf (model_params e) = Inr mp" and new: "node_at fs mp = None"
    and apart: "mf \<noteq> mp" "mf \<noteq> cd @ [uuid_str e (uuid_count fs)]" "mp \<noteq> cd @ [uuid_str e (uuid_count fs)]"
    and first: "model_Load e root cd E mf (fs, v) = Inr (s, fs1)"
    and E': "me_codec E' = me_codec E" "me_driver E' = me_driver E"
  shows "\<exists>s'. model_Load e root cd E' mf (fs1, v') = Inr (s', fs1) \<and> lo_desc s' = lo_desc s
    \<and> index_bytes s' = index_bytes s \<and> vertex_bytes s' = vertex_bytes s"
proof -
  from model_Load_Inr [OF first] obtain r where
    r: "LoadAsset e root cd mf (as_load (loadOBJ E mf)) (as_load (loadBin E mf)) (as_save (saveBin E)) (model_params e)
      (fs, Inr (model_load_new v)) = (Inr r, (fs1, Inr s))" .
  have lb: "loadBin E' mf = loadBin E mf"
    by (simp add: loadBin_def staging_def E' fun_eq_iff)
  obtain bs c0 where sv: "as_save (saveBin E) c0 = (Inr bs, Inr s)" and
    again: "LoadAsset e root cd mf (as_load (loadOBJ E' mf)) (as_load (loadBin E mf)) (as_save (saveBin E')) (model_params e)
        (fs1, Inr (model_load_new v')) = (case as_load (loadBin E mf) bs (Inr (model_load_new v')) of
          (Some er, c3) \<Rightarrow> (Inl er, (fs1, c3)) | (None, c3) \<Rightarrow> (Inr (r\<lparr> fr_sha2 := [] \<rparr>), (fs1, c3)))"
    using import_then_load [OF codec(1) readable mp new apart r, of "as_load (loadOBJ E' mf)" "as_save (saveBin E')" "Inr (model_load_new v')"]
    by blast
  then obtain s0 where s0: "saveBin E s0 = Inr (Inr bs, s)" by (auto simp: as_save_Inr)
  have "s = s0" using saveBin_Inr [OF s0] by metis
  obtain t where t: "loadBin E' mf bs (model_load_new v') = Inr (Inr (), t)" "lo_desc t = lo_desc s" "index_bytes t = index_bytes s"
    "vertex_bytes t = vertex_bytes s" "fst (lo_ib t) \<noteq> 0" "fst (lo_vb t) \<noteq> 0"
    using loadBin_saveBin [OF codec(2) fresh s0 E'] \<open>s = s0\<close> by metis
  have "model_Load e root cd E' mf (fs1, v') = Inr (t, fs1)"
    using again t(5,6) as_load_None [where f = "loadBin E' mf", OF t(1)] by (simp add: model_Load_def lb)
  with t show ?thesis by blast
qed

text \<open>The files of \<open>ex_fs\<close>, with the manifest of a cache file of 69 bytes.\<close>

definition ex_manifest :: assetManifest where
  "ex_manifest = \<lparr> assetFileInfo = \<lparr> fr_path = [''r'', ''m.obj''], fr_timeStamp = ''t'', fr_sha2 = ''h'', fr_size = 2 \<rparr>,
     cacheFileInfo = \<lparr> fr_path = [''u'', ''0''], fr_timeStamp = ''t'', fr_sha2 = ''h'', fr_size = 69 \<rparr> \<rparr>"

definition ex_model_files :: env where
  "ex_model_files = ex_env\<lparr> encode := (\<lambda>m. if m = ex_manifest then Inr [1] else Inl (SerializerError 0)),
     decode := (\<lambda>bs. if bs = [1] then Inr ex_manifest else Inl (SerializerError 1)) \<rparr>"

text \<open>A file of one point.\<close>

definition ex_point_env :: model_env where
  "ex_point_env = ex_model_env\<lparr> me_obj := (\<lambda>p. Some (ex_attrib, [[ex_corner 0]])) \<rparr>"

lemma ex_point_import:
  obtains s where "import_shapes ex_point_env ex_attrib [[ex_corner 0]] bounds3_zero = Inr s" "is_indices s = [0]"
    "length (va_data (is_vertices s)) = 64" "va_Size (is_vertices s) = Inr 1"
    "is_bounds s = \<lparr> myMin = [0, 0, 0], myMax = [1, 1, 1] \<rparr>"
proof -
  have ok: "\<forall>i\<in>set (concat [[ex_corner 0]]). corner_ok ex_attrib i" "corner_ok ex_attrib (ex_corner 0)" "attrib_ok ex_attrib"
    using ex_corners_ok by (simp_all add: ex_shapes_def)
  obtain s vs where s: "import_shapes ex_point_env ex_attrib [[ex_corner 0]] bounds3_zero = Inr s"
    and inv: "imported ex_point_env ex_attrib bounds3_zero [ex_corner 0] vs s"
    using import_shapes_imported [OF ok(1,3), where b = bounds3_zero and E = ex_point_env] by auto
  have i: "is_indices s = [0]" "length vs = 1"
    using inv by (auto simp: imported_def list_all2_Cons1 le_Suc_eq)
  then obtain v where v: "vs = [v]" by (auto simp: length_Suc_conv)
  then have vc: "v = corner_vertex ex_point_env ex_attrib (ex_corner 0)" using inv by (simp add: imported_def)
  have ly: "holds_vertices (is_vertices s) vs" "va_stride (is_vertices s) = 64"
    using inv by (simp_all add: imported_def sizeof_vertex_def)
  have "floats_at v 0 3 = [1, 1, 1]"
    using corner_vertex_position [OF _ ok(2,3), of ex_point_env] by (simp add: vc ex_attrib_def ex_corner_def three_at_def)
  moreover have "is_bounds s = merged ex_point_env ex_attrib vs bounds3_zero" using inv by (simp add: imported_def)
  ultimately have "is_bounds s = \<lparr> myMin = [0, 0, 0], myMax = [1, 1, 1] \<rparr>"
    by (simp add: merged_def v ex_attrib_def Bounds_Merge_def bounds3_zero_def ex_point_env_def ex_model_env_def)
  then show ?thesis using that s i ly holds_vertices_Size [OF ly(1)] holds_vertices_length [OF ly(1)] by simp
qed

lemma ex_point_load: "\<exists>s bs. loadOBJ ex_point_env mf src (model_load_new []) = Inr (Inr (), s) \<and> saveBin ex_point_env s = Inr (Inr bs, s)
    \<and> length bs = 69 \<and> fst (lo_ib s) \<noteq> 0 \<and> fst (lo_vb s) \<noteq> 0"
proof -
  obtain im where im: "import_shapes ex_point_env ex_attrib [[ex_corner 0]] bounds3_zero = Inr im" "is_indices im = [0]"
    "length (va_data (is_vertices im)) = 64" "va_Size (is_vertices im) = Inr 1"
    "is_bounds im = \<lparr> myMin = [0, 0, 0], myMax = [1, 1, 1] \<rparr>" by (rule ex_point_import)
  have obj: "me_obj ex_point_env mf = Some (ex_attrib, [[ex_corner 0]])" by (simp add: ex_point_env_def)
  have drv: "dv_buffer (me_driver ex_point_env) v = (length v + 1, length v + 1)" for v
    by (simp add: ex_point_env_def ex_model_env_def)
  have dsc: "\<lparr> md_bounds = \<lparr> myMin = [0, 0, 0], myMax = [1, 1, 1] \<rparr>, md_indexCount = 1, md_vertexCount = 1, md_attributes = obj_attributes ex_attrib [] \<rparr> = ex_model_desc"
    by (simp add: ex_model_desc_def obj_attributes_def add_attribute_def ex_attrib_def offset_position_def offset_color_def)
  have cod: "md_indexCount ex_model_desc = 1" "md_vertexCount ex_model_desc = 1" "put_desc (me_codec ex_point_env) ex_model_desc = Inr [9]"
    "put_span (me_codec ex_point_env) x = Inr x" for x
    by (simp_all add: ex_model_desc_def ex_point_env_def ex_model_env_def ex_codec_def)
  show ?thesis
    by (simp add: cod loadOBJ_def obj model_load_new_def model_desc_default_def im dsc Let_def staging_def CreateBuffer_def drv ib_size_def
        vb_size_def memcpy_from_def host_write_def saveBin_def host_read_def sizeof_vertex_def update_conv')
qed

lemma ex_point_asset:
  assumes "ls [7, 8] c = (None, c0)" "sv c0 = (Inr bs, c1)" "length bs = 69"
  shows "\<exists>r fs1. LoadAsset ex_model_files [''r''] [''u''] [''r'', ''m.obj''] ls lc sv ''h'' (ex_fs, c) = (Inr r, (fs1, c1))"
  using assms by (simp add: file_eval ex_model_files_def ex_manifest_def)

lemma ex_codec_ok: "codec_ok (me_codec ex_point_env)" "buffers_fresh (me_driver ex_point_env)"
  by (simp_all add: codec_ok_def buffers_fresh_def ex_point_env_def ex_model_env_def ex_codec_def)

theorem model_reloaded_from_cache_witness:
  "\<exists>s fs1 s'. model_Load ex_model_files [''r''] [''u''] ex_point_env [''r'', ''m.obj''] (ex_fs, []) = Inr (s, fs1)
     \<and> model_Load ex_model_files [''r''] [''u''] (ex_point_env\<lparr> me_obj := (\<lambda>p. None) \<rparr>) [''r'', ''m.obj''] (fs1, []) = Inr (s', fs1)
     \<and> lo_desc s' = lo_desc s \<and> vertex_bytes s' = vertex_bytes s"
proof -
  let ?mf = "[''r'', ''m.obj'']"
  have h: "model_params ex_model_files = ''h''" by (simp add: model_params_def ex_model_files_def ex_env_def)
  obtain s bs where s: "loadOBJ ex_point_env ?mf [7, 8] (model_load_new []) = Inr (Inr (), s)" "saveBin ex_point_env s = Inr (Inr bs, s)"
    "length bs = 69" "fst (lo_ib s) \<noteq> 0" "fst (lo_vb s) \<noteq> 0" using ex_point_load by metis
  obtain r fs1 where "LoadAsset ex_model_files [''r''] [''u''] ?mf (as_load (loadOBJ ex_point_env ?mf)) (as_load (loadBin ex_point_env ?mf))
      (as_save (saveBin ex_point_env)) ''h'' (ex_fs, Inr (model_load_new [])) = (Inr r, (fs1, Inr s))"
    using ex_point_asset [where ls = "as_load (loadOBJ ex_point_env ?mf)" and sv = "as_save (saveBin ex_point_env)"
        and c = "Inr (model_load_new [])" and lc = "as_load (loadBin ex_point_env ?mf)"]
      as_load_None [where f = "loadOBJ ex_point_env ?mf", OF s(1)] s(2,3) by (fastforce simp: as_save_def)
  then have f: "model_Load ex_model_files [''r''] [''u''] ex_point_env ?mf (ex_fs, []) = Inr (s, fs1)"
    using s by (simp add: model_Load_def h)
  have mp: "manifest_path ex_model_files [''r''] [''u''] ?mf (model_params ex_model_files) = Inr [''u'', ''m.obj'', ''h.manifest.bin'']"
    by (simp add: manifest_path_def h) (simp add: ex_model_files_def ex_env_def)
  have "\<exists>s'. model_Load ex_model_files [''r''] [''u''] (ex_point_env\<lparr> me_obj := (\<lambda>p. None) \<rparr>) ?mf (fs1, []) = Inr (s', fs1)
      \<and> lo_desc s' = lo_desc s \<and> index_bytes s' = index_bytes s \<and> vertex_bytes s' = vertex_bytes s"
    by (rule model_reloaded_from_cache [OF _ ex_codec_ok(1) _ ex_codec_ok(2) mp _ _ _ _ f])
      (auto simp: ex_model_files_def ex_env_def ex_fs_def node_at_def split: if_splits)
  with f show ?thesis by blast
qed

section \<open>The stride of the vertices\<close>

text \<open>C40: The binding description of an imported model has the stride of the vertices in its buffer exactly when the
  file has colours; without them the stride ends with the last attribute and the buffer is read at the wrong
  places.\<close>
theorem obj_stride_needs_colors:
  "CalculateInputBindingDescriptions (obj_attributes att []) = [(0, of_nat sizeof_vertex, 0)] \<longleftrightarrow> oa_colors att \<noteq> []"
  by (cases "oa_vertices att = []"; cases "oa_normals att = []"; cases "oa_texcoords att = []"; cases "oa_colors att = []")
    (simp_all add: CalculateInputBindingDescriptions_def obj_attributes_def add_attribute_def attribute_map_def sizeof_vertex_def
      offset_position_def offset_normal_def offset_texCoord01_def offset_color_def)

end
