(* ===== verification/Owned_Objects.thy ===== *)
theory Owned_Objects
imports Device_Objects
begin

text \<open>
  The contract of the classes that own device handles, as a locale: an operation never loses or invents a
  handle. From it follows, once for all classes, that along every history of objects each handle is
  destroyed at most once, and exactly once when no object is left. Each class is an interpretation.
\<close>

section \<open>Handles created and destroyed\<close>

type_synonym owned_handles = "(handle_kind \<times> nat \<times> nat) multiset"

definition handles :: "handle_kind \<Rightarrow> nat \<Rightarrow> nat list \<Rightarrow> owned_handles" where
  "handles k pool hs = mset (map (\<lambda>h. (k, pool, h)) (filter (\<lambda>h. h \<noteq> 0) hs))"

fun created_by :: "obj_call \<Rightarrow> owned_handles" where
  "created_by (ObjCreate info hs) = handles (kind_of info) (info_pool info) hs"
| "created_by (VkCall (CreateBufferCall _ b)) = handles HBuffer 0 [b]"
| "created_by (VkCall (CreateImageCall _ i)) = handles HImage 0 [i]"
| "created_by _ = {#}"

fun destroyed_by :: "obj_call \<Rightarrow> owned_handles" where
  "destroyed_by (ObjDestroy k dev pool hs) = handles k pool hs"
| "destroyed_by (VkCall (DestroyBufferCall b)) = handles HBuffer 0 [b]"
| "destroyed_by (VkCall (DestroyImageCall i)) = handles HImage 0 [i]"
| "destroyed_by _ = {#}"

definition created :: "world \<Rightarrow> owned_handles" where
  "created w = sum_list (map created_by (w_calls w))"

definition destroyed :: "world \<Rightarrow> owned_handles" where
  "destroyed w = sum_list (map destroyed_by (w_calls w))"

text \<open>What is held after an operation is what was held before and has been created and not destroyed.\<close>

definition conserves :: "world \<Rightarrow> owned_handles \<Rightarrow> world \<Rightarrow> owned_handles \<Rightarrow> bool" where
  "conserves w before w' after \<longleftrightarrow> created w' + destroyed w + before = created w + destroyed w' + after"

named_theorems owned_simps

lemma handles_Nil [simp]: "handles k p [] = {#}"
  by (simp add: handles_def)

lemma handles_Cons: "handles k p (h # hs) = (if h = 0 then {#} else {#(k, p, h)#}) + handles k p hs"
  by (simp add: handles_def)

lemma handles_0 [simp]: "handles k p [0] = {#}"
  by (simp add: handles_def)

lemma created_call [owned_simps]: "created (call c w) = created w + created_by c"
  by (simp add: created_def call_def)

lemma destroyed_call [owned_simps]: "destroyed (call c w) = destroyed w + destroyed_by c"
  by (simp add: destroyed_def call_def)

lemma created_new [simp]: "created world_new = {#}"
  by (simp add: created_def world_new_def)

lemma destroyed_new [simp]: "destroyed world_new = {#}"
  by (simp add: destroyed_def world_new_def)

lemma registry_irrelevant [owned_simps]:
  "created (w\<lparr> w_registry := r \<rparr>) = created w" "destroyed (w\<lparr> w_registry := r \<rparr>) = destroyed w"
  by (simp_all add: created_def destroyed_def)

lemma register_irrelevant [owned_simps]:
  "created (register_handles e u n t hs w) = created w" "destroyed (register_handles e u n t hs w) = destroyed w"
  by (simp_all add: register_handles_def owned_simps)

lemma object_destroy_irrelevant [owned_simps]:
  "created (DeviceObject_destroy e o' w) = created w" "destroyed (DeviceObject_destroy e o' w) = destroyed w"
  by (simp_all add: DeviceObject_destroy_def owned_simps)

lemma conserves_refl [simp]: "conserves w a w b \<longleftrightarrow> a = b"
  by (auto simp: conserves_def ac_simps)

lemma conserves_trans: "conserves w a w1 b \<Longrightarrow> conserves w1 b w2 c \<Longrightarrow> conserves w a w2 c"
proof -
  assume a: "conserves w a w1 b" and b: "conserves w1 b w2 c"
  have "(created w2 + destroyed w + a) + (created w1 + destroyed w1 + b)
      = (created w1 + destroyed w + a) + (created w2 + destroyed w1 + b)" by (simp add: ac_simps)
  also have "\<dots> = (created w + destroyed w1 + b) + (created w1 + destroyed w2 + c)" using a b by (simp add: conserves_def)
  also have "\<dots> = (created w + destroyed w2 + c) + (created w1 + destroyed w1 + b)" by (simp add: ac_simps)
  finally show ?thesis unfolding conserves_def by (rule add_right_imp_eq)
qed

lemma conserves_more: "conserves w a w' b \<Longrightarrow> conserves w (a + r) w' (b + r)"
  unfolding conserves_def by (metis add.assoc)

section \<open>Programs over objects of one class\<close>

record ('c, 'u, 'o) owner_class =
  oc_make :: "'c \<Rightarrow> world \<Rightarrow> ('o \<times> world) res"
  oc_update :: "'u \<Rightarrow> 'o \<Rightarrow> world \<Rightarrow> ('o \<times> world) res"
  oc_move :: "'o \<Rightarrow> 'o \<times> 'o"
  oc_assign :: "'o \<Rightarrow> 'o \<Rightarrow> world \<Rightarrow> ('o \<times> 'o \<times> world) res"
  oc_swap :: "'o \<Rightarrow> 'o \<Rightarrow> 'o \<times> 'o"
  oc_destroy :: "'o \<Rightarrow> world \<Rightarrow> world res"

datatype ('c, 'u) owner_op = OpMake nat 'c | OpUpdate nat 'u | OpMove nat nat | OpAssign nat nat | OpSwap nat nat | OpDestroy nat

text \<open>A variable that holds no object is \<open>None\<close>; an operation on a variable that holds none, a construction
  in one that does, or an operation of an object with itself is not a program.\<close>

fun owner_exec :: "('c, 'u, 'o) owner_class \<Rightarrow> ('c, 'u) owner_op \<Rightarrow> 'o option list \<times> world \<Rightarrow> ('o option list \<times> world) res" where
  "owner_exec C (OpMake i c) (vs, w) = (if i < length vs \<and> vs ! i = None
     then bind_res (oc_make C c w) (\<lambda>(a, w'). Inr (vs[i := Some a], w')) else Inl Undefined)"
| "owner_exec C (OpUpdate i u) (vs, w) = (if i < length vs then (case vs ! i of None \<Rightarrow> Inl Undefined
     | Some a \<Rightarrow> bind_res (oc_update C u a w) (\<lambda>(a', w'). Inr (vs[i := Some a'], w'))) else Inl Undefined)"
| "owner_exec C (OpMove i j) (vs, w) = (if i < length vs \<and> j < length vs \<and> vs ! i = None then (case vs ! j of None \<Rightarrow> Inl Undefined
     | Some b \<Rightarrow> (let (a, b') = oc_move C b in Inr (vs[i := Some a, j := Some b'], w))) else Inl Undefined)"
| "owner_exec C (OpAssign i j) (vs, w) = (if i < length vs \<and> j < length vs \<and> i \<noteq> j then (case (vs ! i, vs ! j) of
       (Some a, Some b) \<Rightarrow> bind_res (oc_assign C a b w) (\<lambda>(a', b', w'). Inr (vs[i := Some a', j := Some b'], w'))
     | _ \<Rightarrow> Inl Undefined) else Inl Undefined)"
| "owner_exec C (OpSwap i j) (vs, w) = (if i < length vs \<and> j < length vs \<and> i \<noteq> j then (case (vs ! i, vs ! j) of
       (Some a, Some b) \<Rightarrow> (let (a', b') = oc_swap C a b in Inr (vs[i := Some a', j := Some b'], w))
     | _ \<Rightarrow> Inl Undefined) else Inl Undefined)"
| "owner_exec C (OpDestroy i) (vs, w) = (if i < length vs then (case vs ! i of None \<Rightarrow> Inl Undefined
     | Some a \<Rightarrow> bind_res (oc_destroy C a w) (\<lambda>w'. Inr (vs[i := None], w'))) else Inl Undefined)"

definition owner_run :: "('c, 'u, 'o) owner_class \<Rightarrow> ('c, 'u) owner_op list \<Rightarrow> 'o option list \<times> world \<Rightarrow> ('o option list \<times> world) res" where
  "owner_run C ops s = fold_res (owner_exec C) ops s"

definition held :: "('o \<Rightarrow> owned_handles) \<Rightarrow> 'o option list \<Rightarrow> owned_handles" where
  "held owned vs = sum_list (map (\<lambda>v. case v of None \<Rightarrow> {#} | Some a \<Rightarrow> owned a) vs)"

definition assigns :: "('c, 'u) owner_op \<Rightarrow> bool" where
  "assigns op = (case op of OpAssign _ _ \<Rightarrow> True | _ \<Rightarrow> False)"

definition full :: "'o option list \<Rightarrow> nat \<Rightarrow> bool" where
  "full vs i \<longleftrightarrow> i < length vs \<and> vs ! i \<noteq> None"

fun runnable :: "('c, 'u) owner_op \<Rightarrow> 'o option list \<Rightarrow> bool" where
  "runnable (OpMake _ _) vs = False"
| "runnable (OpUpdate _ _) vs = False"
| "runnable (OpMove i j) vs = (i < length vs \<and> vs ! i = None \<and> full vs j)"
| "runnable (OpAssign i j) vs = (i \<noteq> j \<and> full vs i \<and> full vs j)"
| "runnable (OpSwap i j) vs = (i \<noteq> j \<and> full vs i \<and> full vs j)"
| "runnable (OpDestroy i) vs = full vs i"

text \<open>What every class promises: the handles created are those destroyed and those still held, whatever
  program ran, and no move, swap or destruction fails. With \<open>False\<close> only programs without assignments.\<close>

definition releases_once :: "bool \<Rightarrow> ('c, 'u, 'o) owner_class \<Rightarrow> ('o \<Rightarrow> owned_handles) \<Rightarrow> bool" where
  "releases_once with_assign C owned \<longleftrightarrow> (\<forall>n ops vs w. (with_assign \<or> \<not> list_ex assigns ops) \<longrightarrow>
     owner_run C ops (replicate n None, world_new) = Inr (vs, w) \<longrightarrow>
       created w = destroyed w + held owned vs
     \<and> (\<forall>op. runnable op vs \<longrightarrow> (with_assign \<or> \<not> assigns op) \<longrightarrow> is_ok (owner_exec C op (vs, w))))"

lemma held_empty [simp]: "held owned (replicate n None) = {#}"
  by (induction n) (simp_all add: held_def)

lemma held_update:
  "i < length vs \<Longrightarrow> held owned (vs[i := v]) + (case vs ! i of None \<Rightarrow> {#} | Some a \<Rightarrow> owned a)
     = held owned vs + (case v of None \<Rightarrow> {#} | Some a \<Rightarrow> owned a)"
proof -
  assume i: "i < length vs"
  let ?f = "\<lambda>v. case v of None \<Rightarrow> {#} | Some a \<Rightarrow> owned a"
  have "sum_list (map ?f (take i vs @ v # drop (Suc i) vs)) + ?f (vs ! i)
      = sum_list (map ?f (take i vs @ vs ! i # drop (Suc i) vs)) + ?f v" by (simp add: ac_simps)
  then show ?thesis unfolding held_def upd_conv_take_nth_drop [OF i] id_take_nth_drop [OF i, symmetric] .
qed

lemma held_update_2:
  assumes "i < length vs" "j < length vs" "i \<noteq> j"
  shows "held owned (vs[i := v, j := u]) + (case vs ! i of None \<Rightarrow> {#} | Some a \<Rightarrow> owned a) + (case vs ! j of None \<Rightarrow> {#} | Some a \<Rightarrow> owned a)
     = held owned vs + (case v of None \<Rightarrow> {#} | Some a \<Rightarrow> owned a) + (case u of None \<Rightarrow> {#} | Some a \<Rightarrow> owned a)"
proof -
  let ?f = "\<lambda>v. case v of None \<Rightarrow> {#} | Some a \<Rightarrow> owned a"
  have j: "held owned (vs[i := v, j := u]) + ?f (vs ! j) = held owned (vs[i := v]) + ?f u"
    using held_update [of j "vs[i := v]" owned u] assms by simp
  have "held owned (vs[i := v, j := u]) + ?f (vs ! i) + ?f (vs ! j) = (held owned (vs[i := v]) + ?f (vs ! i)) + ?f u"
    using j by (simp add: ac_simps)
  then show ?thesis unfolding held_update [OF assms(1)] .
qed

lemma conserves_held:
  assumes "conserves w x w' y" "held owned vs' + x = held owned vs + y"
  shows "conserves w (held owned vs) w' (held owned vs')"
proof -
  have "(created w' + destroyed w + held owned vs) + y = created w' + destroyed w + (held owned vs' + x)"
    using assms(2) by (simp add: add.assoc)
  also have "\<dots> = (created w' + destroyed w + x) + held owned vs'" by (simp add: ac_simps)
  also have "\<dots> = (created w + destroyed w' + held owned vs') + y" using assms(1) by (simp add: conserves_def ac_simps)
  finally show ?thesis unfolding conserves_def by (rule add_right_imp_eq)
qed

section \<open>The contract\<close>

locale owner_base =
  fixes C :: "('c, 'u, 'o) owner_class" and owned :: "'o \<Rightarrow> owned_handles" and wf :: "'o \<Rightarrow> bool"
  assumes make: "oc_make C c w = Inr (a, w') \<Longrightarrow> wf a \<and> conserves w {#} w' (owned a)"
    and update: "wf a \<Longrightarrow> oc_update C u a w = Inr (a', w') \<Longrightarrow> wf a' \<and> conserves w (owned a) w' (owned a')"
    and move: "wf b \<Longrightarrow> oc_move C b = (a, b') \<Longrightarrow> wf a \<and> wf b' \<and> owned a + owned b' = owned b"
    and swap: "wf a \<Longrightarrow> wf b \<Longrightarrow> oc_swap C a b = (a', b') \<Longrightarrow> wf a' \<and> wf b' \<and> owned a' + owned b' = owned a + owned b"
    and destroy: "wf a \<Longrightarrow> \<exists>w'. oc_destroy C a w = Inr w' \<and> conserves w (owned a) w' {#}"
begin

definition all_wf :: "'o option list \<Rightarrow> bool" where
  "all_wf vs \<longleftrightarrow> (\<forall>a. Some a \<in> set vs \<longrightarrow> wf a)"

lemma all_wf_nth: "all_wf vs \<Longrightarrow> i < length vs \<Longrightarrow> vs ! i = Some a \<Longrightarrow> wf a"
  by (metis all_wf_def nth_mem)

lemma all_wf_update: "all_wf vs \<Longrightarrow> (\<And>a. v = Some a \<Longrightarrow> wf a) \<Longrightarrow> all_wf (vs[i := v])"
  using set_update_subset_insert [of vs i v] by (force simp: all_wf_def)

lemma step:
  assumes "owner_exec C op (vs, w) = Inr (vs', w')" "all_wf vs" "\<not> assigns op"
  shows "all_wf vs' \<and> conserves w (held owned vs) w' (held owned vs')"
proof (cases op)
  case (OpMake i c)
  then obtain a where i: "i < length vs" "vs ! i = None" and a: "oc_make C c w = Inr (a, w')" "vs' = vs[i := Some a]"
    using assms(1) by (auto simp: bind_res_Inr split: if_splits)
  note m = make [OF a(1)]
  have "held owned vs' + {#} = held owned vs + owned a" using held_update [OF i(1), of owned "Some a"] i(2) by (simp add: a(2))
  from conserves_held [OF conjunct2 [OF m] this] show ?thesis
    using all_wf_update [OF assms(2), of "Some a" i] m by (simp add: a(2))
next
  case (OpUpdate i u)
  then obtain a a' where i: "i < length vs" "vs ! i = Some a" and a: "oc_update C u a w = Inr (a', w')" "vs' = vs[i := Some a']"
    using assms(1) by (auto simp: bind_res_Inr split: if_splits option.splits)
  from update [OF all_wf_nth [OF assms(2) i] a(1)] held_update [OF i(1), of owned "Some a'"] i(2) show ?thesis
    using all_wf_update [OF assms(2), of "Some a'" i] by (auto simp: a(2) intro!: conserves_held)
next
  case (OpMove i j)
  then obtain a b b' where i: "i < length vs" "j < length vs" "vs ! i = None" "vs ! j = Some b"
    and m: "oc_move C b = (a, b')" "vs' = vs[i := Some a, j := Some b']" "w' = w"
    using assms(1) by (auto split: if_splits option.splits prod.splits)
  have "i \<noteq> j" using i by auto
  note w = move [OF all_wf_nth [OF assms(2) i(2,4)] m(1)]
  have "held owned vs' + owned b = held owned vs + owned b"
    using held_update_2 [OF i(1,2) \<open>i \<noteq> j\<close>, of owned "Some a" "Some b'"] i(3,4) w by (simp add: m(2) add.assoc)
  then show ?thesis using all_wf_update [OF all_wf_update [OF assms(2), of "Some a" i], of "Some b'" j] w
    by (auto simp: m(2,3) dest: add_right_imp_eq)
next
  case (OpSwap i j)
  then obtain a b a' b' where i: "i < length vs" "j < length vs" "i \<noteq> j" "vs ! i = Some a" "vs ! j = Some b"
    and m: "oc_swap C a b = (a', b')" "vs' = vs[i := Some a', j := Some b']" "w' = w"
    using assms(1) by (auto split: if_splits option.splits prod.splits)
  from swap [OF all_wf_nth [OF assms(2) i(1,4)] all_wf_nth [OF assms(2) i(2,5)] m(1)]
    held_update_2 [OF i(1,2,3), of owned "Some a'" "Some b'"] i(4,5)
  have "wf a'" "wf b'" "held owned vs' + (owned a + owned b) = held owned vs + (owned a + owned b)"
    by (auto simp: m(2) ac_simps)
  then show ?thesis using all_wf_update [OF all_wf_update [OF assms(2), of "Some a'" i], of "Some b'" j]
    by (auto simp: m(2,3) dest: add_right_imp_eq)
next
  case (OpDestroy i)
  then obtain a where i: "i < length vs" "vs ! i = Some a" and a: "oc_destroy C a w = Inr w'" "vs' = vs[i := None]"
    using assms(1) by (auto simp: bind_res_Inr split: if_splits option.splits)
  from destroy [OF all_wf_nth [OF assms(2) i], of w] a(1) held_update [OF i(1), of owned None] i(2) show ?thesis
    using all_wf_update [OF assms(2), of None i] by (auto simp: a(2) intro!: conserves_held)
qed (use assms(3) in \<open>simp add: assigns_def\<close>)

lemma progress:
  assumes "runnable op vs" "all_wf vs" "\<not> assigns op"
  shows "is_ok (owner_exec C op (vs, w))"
proof (cases op)
  case (OpDestroy i)
  then obtain a where "i < length vs" "vs ! i = Some a" using assms(1) by (auto simp: full_def)
  then show ?thesis using destroy [OF all_wf_nth [OF assms(2)], of i a w] OpDestroy by (auto simp: is_ok_def)
qed (use assms in \<open>auto simp: full_def is_ok_def assigns_def split: prod.splits\<close>)

lemma releases: "releases_once False C owned"
proof -
  have "created w = destroyed w + held owned vs \<and> all_wf vs"
    if r: "owner_run C ops (replicate n None, world_new) = Inr (vs, w)" and na: "\<not> list_ex assigns ops" for n ops vs w
  proof -
    let ?P = "\<lambda>(vs, w). conserves world_new {#} w (held owned vs) \<and> all_wf vs"
    have "?P (replicate n None, world_new)" by (simp add: all_wf_def)
    moreover have "?P s'" if i: "op \<in> set ops" "?P s" "owner_exec C op s = Inr s'" for op s s'
    proof -
      obtain v x v' x' where s: "s = (v, x)" "s' = (v', x')" by (cases s; cases s')
      have "\<not> assigns op" using i(1) na by (auto simp: list_ex_iff)
      from step [of op v x v' x', OF _ _ this] i(2,3) show ?thesis unfolding s by (auto intro: conserves_trans)
    qed
    ultimately have "?P (vs, w)" using r unfolding owner_run_def by (rule fold_res_inv [where P = ?P, rotated])
    then show ?thesis by (simp add: conserves_def)
  qed
  then show ?thesis unfolding releases_once_def using progress by blast
qed

end

text \<open>Assignment may destroy what the object held, or leave it to the other object.\<close>

locale owner = owner_base +
  assumes assign: "wf a \<Longrightarrow> wf b \<Longrightarrow> \<exists>a' b' w'. oc_assign C a b w = Inr (a', b', w') \<and> wf a' \<and> wf b'
    \<and> conserves w (owned a + owned b) w' (owned a' + owned b')"
begin

lemma step_all:
  assumes "owner_exec C op (vs, w) = Inr (vs', w')" "all_wf vs"
  shows "all_wf vs' \<and> conserves w (held owned vs) w' (held owned vs')"
proof (cases "assigns op")
  case True
  then obtain i j where op: "op = OpAssign i j" by (auto simp: assigns_def split: owner_op.splits)
  then obtain a b a' b' where i: "i < length vs" "j < length vs" "i \<noteq> j" "vs ! i = Some a" "vs ! j = Some b"
    and m: "oc_assign C a b w = Inr (a', b', w')" "vs' = vs[i := Some a', j := Some b']"
    using assms(1) by (auto simp: bind_res_Inr split: if_splits option.splits)
  from assign [OF all_wf_nth [OF assms(2) i(1,4)] all_wf_nth [OF assms(2) i(2,5)], of w] m(1)
  have w: "wf a'" "wf b'" "conserves w (owned a + owned b) w' (owned a' + owned b')" by auto
  from held_update_2 [OF i(1,2,3), of owned "Some a'" "Some b'"] i(4,5)
  have "held owned vs' + (owned a + owned b) = held owned vs + (owned a' + owned b')" by (simp add: m(2) ac_simps)
  from conserves_held [OF w(3) this] show ?thesis
    using all_wf_update [OF all_wf_update [OF assms(2), of "Some a'" i], of "Some b'" j] w(1,2) by (simp add: m(2))
qed (rule step [OF assms])

lemma progress_all:
  assumes "runnable op vs" "all_wf vs"
  shows "is_ok (owner_exec C op (vs, w))"
proof (cases "assigns op")
  case True
  then obtain i j where op: "op = OpAssign i j" by (auto simp: assigns_def split: owner_op.splits)
  then obtain a b where "i \<noteq> j" "i < length vs" "vs ! i = Some a" "j < length vs" "vs ! j = Some b"
    using assms(1) by (auto simp: full_def)
  then show ?thesis using assign [OF all_wf_nth [OF assms(2)] all_wf_nth [OF assms(2)], of i a j b w] op
    by (auto simp: is_ok_def)
qed (rule progress [OF assms])

lemma releases_all: "releases_once True C owned"
proof -
  have "created w = destroyed w + held owned vs \<and> all_wf vs"
    if r: "owner_run C ops (replicate n None, world_new) = Inr (vs, w)" for n ops vs w
  proof -
    let ?P = "\<lambda>(vs, w). conserves world_new {#} w (held owned vs) \<and> all_wf vs"
    have "?P (replicate n None, world_new)" by (simp add: all_wf_def)
    moreover have "?P s'" if i: "op \<in> set ops" "?P s" "owner_exec C op s = Inr s'" for op s s'
    proof -
      obtain v x v' x' where s: "s = (v, x)" "s' = (v', x')" by (cases s; cases s')
      from step_all [of op v x v' x'] i(2,3) show ?thesis unfolding s by (auto intro: conserves_trans)
    qed
    ultimately have "?P (vs, w)" using r unfolding owner_run_def by (rule fold_res_inv [where P = ?P, rotated])
    then show ?thesis by (simp add: conserves_def)
  qed
  then show ?thesis unfolding releases_once_def using progress_all by blast
qed

end


section \<open>The classes\<close>

text \<open>An object that owns a handle has a device. A class without further operations updates by doing nothing.\<close>

definition backed :: "'a device_object_scheme \<Rightarrow> owned_handles \<Rightarrow> bool" where
  "backed o' hs \<longleftrightarrow> (hs \<noteq> {#} \<longrightarrow> do_device o' \<noteq> None)"

definition no_update :: "unit \<Rightarrow> 'o \<Rightarrow> world \<Rightarrow> ('o \<times> world) res" where
  "no_update u a w = Inr (a, w)"

definition pure_assign :: "('o \<Rightarrow> 'o \<Rightarrow> 'o \<times> 'o) \<Rightarrow> 'o \<Rightarrow> 'o \<Rightarrow> world \<Rightarrow> ('o \<times> 'o \<times> world) res" where
  "pure_assign f a b w = (case f a b of (a', b') \<Rightarrow> Inr (a', b', w))"

lemmas class_simps = no_update_def pure_assign_def backed_def take_base_def left_base_def

lemma created_object [owned_simps]:
  "create_object e info w = (h, w') \<Longrightarrow> created w' = created w + handles (kind_of info) (info_pool info) [h]"
  "create_object e info w = (h, w') \<Longrightarrow> destroyed w' = destroyed w"
  by (auto simp: create_object_def Let_def owned_simps)

lemma named_object [owned_simps]:
  "DeviceObject_named e dev n t hs w = (b, w') \<Longrightarrow> do_device b = Some dev \<and> do_uuid b \<noteq> 0"
  "DeviceObject_named e dev n t hs w = (b, w') \<Longrightarrow> created w' = created w"
  "DeviceObject_named e dev n t hs w = (b, w') \<Longrightarrow> destroyed w' = destroyed w"
  by (auto simp: DeviceObject_named_def DeviceObject_new_def new_uuid_def Let_def owned_simps)

lemma destroy_handles_ok [owned_simps]: "do_device o' = Some dev \<Longrightarrow> destroy_handles k pool o' hs w = Inr (call (ObjDestroy k dev pool hs) w)"
  by (simp add: destroy_handles_def)

lemma destroy_one:
  assumes "h \<noteq> 0 \<longrightarrow> do_device o' \<noteq> None"
  shows "\<exists>w1. (if h \<noteq> 0 then destroy_handles k pool o' [h] w else Inr w) = Inr w1 \<and> conserves w (handles k pool [h]) w1 {#}"
  using assms by (cases "h = 0"; cases "do_device o'") (auto simp: conserves_def owned_simps)

definition semaphore_class :: "obj_env \<Rightarrow> nat \<Rightarrow> (nat \<times> u32, unit, semaphore) owner_class" where
  "semaphore_class e dev = \<lparr> oc_make = Semaphore_new e dev, oc_update = no_update, oc_move = Semaphore_move,
     oc_assign = pure_assign Semaphore_assign, oc_swap = Semaphore_Swap, oc_destroy = Semaphore_destroy e \<rparr>"

definition semaphore_owned :: "semaphore \<Rightarrow> owned_handles" where
  "semaphore_owned s = handles HSemaphore 0 [sem_handle s]"

interpretation semaphores: owner "semaphore_class e dev" semaphore_owned "\<lambda>s. backed s (semaphore_owned s)" for e dev
proof unfold_locales
  fix a w show "backed a (semaphore_owned a) \<Longrightarrow> \<exists>w'. oc_destroy (semaphore_class e dev) a w = Inr w' \<and> conserves w (semaphore_owned a) w' {#}"
    by (cases "do_device a") (auto simp: semaphore_class_def semaphore_owned_def Semaphore_destroy_def class_simps conserves_def owned_simps handles_Cons)
qed (auto simp: semaphore_class_def semaphore_owned_def Semaphore_new_def Semaphore_move_def Semaphore_assign_def
  Semaphore_Swap_def semaphore_default_def class_simps conserves_def owned_simps handles_Cons split: prod.splits)

definition fence_class :: "obj_env \<Rightarrow> nat \<Rightarrow> (string \<times> u32, unit, fence) owner_class" where
  "fence_class e dev = \<lparr> oc_make = Fence_new e dev, oc_update = no_update, oc_move = Fence_move,
     oc_assign = pure_assign Fence_assign, oc_swap = Fence_Swap, oc_destroy = Fence_destroy e \<rparr>"

definition fence_owned :: "fence \<Rightarrow> owned_handles" where
  "fence_owned f = handles HFence 0 [fen_handle f]"

interpretation fences: owner "fence_class e dev" fence_owned "\<lambda>f. backed f (fence_owned f)" for e dev
proof unfold_locales
  fix a w show "backed a (fence_owned a) \<Longrightarrow> \<exists>w'. oc_destroy (fence_class e dev) a w = Inr w' \<and> conserves w (fence_owned a) w' {#}"
    by (cases "do_device a") (auto simp: fence_class_def fence_owned_def Fence_destroy_def class_simps conserves_def owned_simps handles_Cons)
qed (auto simp: fence_class_def fence_owned_def Fence_new_def Fence_move_def Fence_assign_def
  Fence_Swap_def fence_default_def class_simps conserves_def owned_simps handles_Cons split: prod.splits)

definition buffer_view_class :: "obj_env \<Rightarrow> nat \<Rightarrow> (nat \<times> vk_format \<times> nat \<times> nat, unit, buffer_view) owner_class" where
  "buffer_view_class e dev = \<lparr> oc_make = BufferView_new e dev, oc_update = no_update, oc_move = BufferView_move,
     oc_assign = pure_assign BufferView_assign, oc_swap = BufferView_Swap, oc_destroy = BufferView_destroy e \<rparr>"

definition buffer_view_owned :: "buffer_view \<Rightarrow> owned_handles" where
  "buffer_view_owned v = handles HBufferView 0 [bv_view v]"

interpretation buffer_views: owner "buffer_view_class e dev" buffer_view_owned "\<lambda>v. backed v (buffer_view_owned v)" for e dev
proof unfold_locales
  fix a w show "backed a (buffer_view_owned a) \<Longrightarrow> \<exists>w'. oc_destroy (buffer_view_class e dev) a w = Inr w' \<and> conserves w (buffer_view_owned a) w' {#}"
    by (cases "do_device a") (auto simp: buffer_view_class_def buffer_view_owned_def BufferView_destroy_def class_simps conserves_def owned_simps handles_Cons)
qed (auto simp: buffer_view_class_def buffer_view_owned_def BufferView_new_def BufferView_move_def BufferView_assign_def
  BufferView_Swap_def buffer_view_default_def class_simps conserves_def owned_simps handles_Cons split: prod.splits)

lemma create_samplers_owned:
  "create_samplers e infos w = (hs, w') \<Longrightarrow> created w' = created w + handles HSampler 0 hs \<and> destroyed w' = destroyed w"
  by (induction infos arbitrary: w hs) (auto simp: owned_simps handles_Cons split: prod.splits if_splits)

lemma destroy_samplers_owned:
  "do_device s = Some dev \<Longrightarrow> \<exists>w'. fold_res (\<lambda>h. destroy_handles k pool s [h]) hs w = Inr w'
     \<and> created w' = created w \<and> destroyed w' = destroyed w + handles k pool hs"
proof (induction hs arbitrary: w)
  case (Cons h hs)
  from Cons.IH [OF Cons.prems, of "call (ObjDestroy k dev pool [h]) w"] show ?case
    using Cons.prems by (auto simp: owned_simps handles_Cons)
qed simp

definition sampler_class :: "obj_env \<Rightarrow> nat \<Rightarrow> (sampler_info list, unit, sampler_vector) owner_class" where
  "sampler_class e dev = \<lparr> oc_make = SamplerVector_new e dev, oc_update = no_update, oc_move = SamplerVector_move,
     oc_assign = pure_assign SamplerVector_assign, oc_swap = SamplerVector_Swap, oc_destroy = SamplerVector_destroy e \<rparr>"

definition sampler_owned :: "sampler_vector \<Rightarrow> owned_handles" where
  "sampler_owned s = handles HSampler 0 (smp_handles s)"

text \<open>The destructor uses the device for every sampler, a null one too.\<close>

definition sampler_wf :: "sampler_vector \<Rightarrow> bool" where
  "sampler_wf s \<longleftrightarrow> (smp_handles s \<noteq> [] \<longrightarrow> do_device s \<noteq> None)"

interpretation samplers: owner "sampler_class e dev" sampler_owned sampler_wf for e dev
proof unfold_locales
  fix a w show "sampler_wf a \<Longrightarrow> \<exists>w'. oc_destroy (sampler_class e dev) a w = Inr w' \<and> conserves w (sampler_owned a) w' {#}"
    using destroy_samplers_owned [of a _ HSampler 0 "smp_handles a" w]
    by (cases "smp_handles a") (auto simp: sampler_wf_def sampler_class_def sampler_owned_def SamplerVector_destroy_def
      conserves_def owned_simps ac_simps)
qed (auto simp: sampler_class_def sampler_owned_def SamplerVector_new_def SamplerVector_move_def SamplerVector_assign_def
  SamplerVector_Swap_def sampler_vector_default_def sampler_wf_def class_simps conserves_def owned_simps
  dest!: create_samplers_owned split: prod.splits)

text \<open>Helpers of \<open>rhi/vulkan/utils.cpp\<close> only append calls.\<close>

lemma lift_vk_append:
  assumes "f (vk_calls (w_calls w)) = Inr (a, vk_calls (w_calls w) @ cs)"
  shows "lift_vk f w = Inr (a, w\<lparr> w_calls := w_calls w @ map VkCall cs \<rparr>)"
  using assms by (simp add: lift_vk_def)

lemma created_append [owned_simps]:
  "created (w\<lparr> w_calls := w_calls w @ cs \<rparr>) = created w + sum_list (map created_by cs)"
  "destroyed (w\<lparr> w_calls := w_calls w @ cs \<rparr>) = destroyed w + sum_list (map destroyed_by cs)"
  by (simp_all add: created_def destroyed_def)

definition buffer_class :: "obj_env \<Rightarrow> nat \<Rightarrow> (string \<times> buffer_desc, unit, buffer_obj) owner_class" where
  "buffer_class e dev = \<lparr> oc_make = Buffer_new e dev, oc_update = no_update, oc_move = Buffer_move,
     oc_assign = pure_assign Buffer_assign, oc_swap = Buffer_Swap, oc_destroy = Buffer_destroy e \<rparr>"

definition buffer_owned :: "buffer_obj \<Rightarrow> owned_handles" where
  "buffer_owned b = handles HBuffer 0 [buf_buffer b]"

lemma Buffer_new_owned:
  assumes "Buffer_new e dev nd w = Inr (b, w')"
  shows "do_device b = Some dev \<and> conserves w {#} w' (buffer_owned b)"
proof -
  obtain name desc where nd: "nd = (name, desc)" by (cases nd)
  obtain h m where h: "dv_buffer (oe_driver e) (vk_calls (w_calls w)) = (h, m)" by fastforce
  obtain o' w1 where o': "Buffer_of e dev (h, m) name desc (w\<lparr> w_calls := w_calls w @ map VkCall [CreateBufferCall \<lparr> bi_size = bd_size desc,
      bi_usage = bd_usage desc, bi_gpuOnly = (DeviceLocal \<in> bd_memory desc), bi_required = bd_memory desc, bi_name = name \<rparr> h] \<rparr>) = (o', w1)"
    by fastforce
  have "b = o'" "w' = w1" using assms o' h by (auto simp: nd Buffer_new_def lift_vk_def CreateBuffer_def Let_def)
  then show ?thesis using o' by (auto simp: Buffer_of_def buffer_owned_def buffer_default_def class_simps conserves_def owned_simps
    handles_Cons split: prod.splits)
qed

interpretation buffers: owner "buffer_class e dev" buffer_owned "\<lambda>b. backed b (buffer_owned b)" for e dev
proof unfold_locales
  fix a w show "backed a (buffer_owned a) \<Longrightarrow> \<exists>w'. oc_destroy (buffer_class e dev) a w = Inr w' \<and> conserves w (buffer_owned a) w' {#}"
    by (cases "do_device a") (auto simp: buffer_class_def buffer_owned_def Buffer_destroy_def class_simps conserves_def owned_simps handles_Cons split: if_splits)
next
  fix c w a w' show "oc_make (buffer_class e dev) c w = Inr (a, w') \<Longrightarrow> backed a (buffer_owned a) \<and> conserves w {#} w' (buffer_owned a)"
    using Buffer_new_owned [of e dev c w a w'] by (simp add: buffer_class_def backed_def)
qed (auto simp: buffer_class_def buffer_owned_def Buffer_move_def Buffer_assign_def
  Buffer_Swap_def buffer_default_def class_simps handles_Cons)

end
