(* ===== verification/Descriptor_Properties.thy ===== *)
theory Descriptor_Properties
imports Descriptor_Data
begin

text \<open>
  The descriptor data refines a map from bindings and array elements to values: \<open>rep_from\<close> and
  \<open>block_data\<close> build the flat map and the vector from a list of per-binding blocks, every operation of
  the code is the corresponding operation on blocks, and the update template writes what \<open>element\<close>
  reads.
\<close>

section \<open>Ranges as sets\<close>

lemma covered_finite [simp]: "finite (covered (rs :: nat ranges))"
  by (simp add: covered_def)

lemma total_card: "wf_ranges rs \<Longrightarrow> range_total rs = card (covered (rs :: nat ranges))"
proof (induction rs)
  case (Cons r rs)
  obtain lo hi where r: "r = (lo, hi)" by force
  have "{lo..<hi} \<inter> covered rs = {}" using covered_above [OF Cons.prems] r by fastforce
  then have "card (covered (r # rs)) = (hi - lo) + card (covered rs)" by (simp add: r card_Un_disjoint)
  then show ?case using Cons.IH wf_ranges_tl [OF Cons.prems] by (simp add: r)
qed simp

lemma rank_card: "wf_ranges rs \<Longrightarrow> rank rs i = (if i \<in> covered rs then Some (card {x \<in> covered rs. x < i}) else None)"
proof (induction rs)
  case (Cons r rs)
  obtain lo hi where r: "r = (lo, hi)" by force
  have lh: "lo < hi" using wf_ranges_hd [OF Cons.prems] r by simp
  have above: "\<And>x. x \<in> covered rs \<Longrightarrow> hi < x" using covered_above [OF Cons.prems] r by simp
  show ?case
  proof (cases "lo \<le> i \<and> i < hi")
    case True
    then have "{x \<in> covered (r # rs). x < i} = {lo..<i}" using above by (auto simp: r) (meson dual_order.strict_trans less_irrefl)
    then show ?thesis using True by (simp add: r)
  next
    case False
    have "{x \<in> covered (r # rs). x < i} = {lo..<hi} \<union> {x \<in> covered rs. x < i}" if "i \<in> covered rs"
      using above [OF that] by (auto simp: r)
    moreover have "{lo..<hi} \<inter> {x \<in> covered rs. x < i} = {}" using above by fastforce
    ultimately have "card {x \<in> covered (r # rs). x < i} = (hi - lo) + card {x \<in> covered rs. x < i}" if "i \<in> covered rs"
      using that by (simp add: card_Un_disjoint)
    then show ?thesis using Cons.IH wf_ranges_tl [OF Cons.prems] False by (auto simp: r)
  qed
qed simp

lemma rank_total: "rank rs i = Some r \<Longrightarrow> r < range_total rs"
  by (induction rs i arbitrary: r rule: rank.induct) (auto split: if_splits)

lemma find_index_rank: "find_index index io rs = (case rank rs index of None \<Rightarrow> (False, io + range_total rs) | Some r \<Rightarrow> (True, io + r))"
  by (induction index io rs rule: find_index.induct) (auto split: option.splits)

lemma range_insert_empty: "a < b \<Longrightarrow> range_insert (a, b) [] = Inr ([(a, b)], 0, True)"
  by (simp add: range_insert_def upper_bound_def insert_at_def absorb.simps)

section \<open>Blocks\<close>

type_synonym blocks = "(nat \<times> u32 \<times> nat ranges \<times> binding_variant list) list"

fun rep_from :: "nat \<Rightarrow> blocks \<Rightarrow> bindingsMap" where
  "rep_from o' [] = []"
| "rep_from o' ((k, ty, rs, vs) # r) =
     (k, \<lparr> b_offset = o', b_count = length vs, b_type = ty, b_ranges = rs \<rparr>) # rep_from (o' + length vs) r"

definition block_data :: "blocks \<Rightarrow> binding_variant list" where
  "block_data bs = concat (map (\<lambda>(k, ty, rs, vs). vs) bs)"

definition wf_blocks :: "blocks \<Rightarrow> bool" where
  "wf_blocks bs \<longleftrightarrow> sorted_wrt (<) (map fst bs)
     \<and> (\<forall>(k, ty, rs, vs)\<in>set bs. wf_ranges rs \<and> range_total rs = length vs \<and> vs \<noteq> [])"

definition represents :: "blocks \<Rightarrow> set_data \<Rightarrow> bool" where
  "represents bs s \<longleftrightarrow> wf_blocks bs \<and> bMap s = rep_from 0 bs \<and> bData s = block_data bs \<and> templateEntries s = template_of (bMap s)"

lemma block_data_simps [simp]: "block_data [] = []" "block_data ((k, ty, rs, vs) # bs) = vs @ block_data bs"
  "block_data (bs @ cs) = block_data bs @ block_data cs"
  by (simp_all add: block_data_def)

lemma rep_keys [simp]: "map fst (rep_from o' bs) = map fst bs"
  by (induction o' bs rule: rep_from.induct) auto

lemma rep_append: "rep_from o' (bs @ cs) = rep_from o' bs @ rep_from (o' + length (block_data bs)) cs"
  by (induction o' bs rule: rep_from.induct) (auto simp: add.assoc)

lemma rep_length [simp]: "length (rep_from o' bs) = length bs"
  by (induction o' bs rule: rep_from.induct) auto

lemma rep_offsets: "offsets_from o' (rep_from o' bs)"
  by (induction o' bs rule: rep_from.induct) auto

lemma rep_counts: "sum_list (map (b_count \<circ> snd) (rep_from o' bs)) = length (block_data bs)"
  by (induction o' bs rule: rep_from.induct) auto

lemma rep_set: "(k, b) \<in> set (rep_from o' bs) \<Longrightarrow> \<exists>ty rs vs. (k, ty, rs, vs) \<in> set bs \<and> b_ranges b = rs \<and> b_count b = length vs \<and> b_type b = ty"
  by (induction o' bs rule: rep_from.induct) auto

lemma represents_ok: "represents bs s \<Longrightarrow> set_data_ok s"
  unfolding represents_def set_data_ok_def wf_blocks_def
  by (auto simp: rep_offsets rep_counts dest!: rep_set)

lemma rep_exists:
  assumes "offsets_from o' m" "length d = sum_list (map (b_count \<circ> snd) m)"
  shows "\<exists>bs. m = rep_from o' bs \<and> d = block_data bs"
  using assms
proof (induction m arbitrary: o' d)
  case Nil then show ?case by (intro exI [of _ "[]"]) simp
next
  case (Cons e m)
  obtain k b where e: "e = (k, b)" by force
  have "length (drop (b_count b) d) = sum_list (map (b_count \<circ> snd) m)" using Cons.prems(2) by (simp add: e comp_def)
  with Cons.IH [of "o' + b_count b" "drop (b_count b) d"] Cons.prems(1) obtain bs where
    bs: "m = rep_from (o' + b_count b) bs" "drop (b_count b) d = block_data bs" by (auto simp: e comp_def)
  have l: "length (take (b_count b) d) = b_count b" using Cons.prems(2) by (simp add: e comp_def)
  have "e # m = rep_from o' ((k, b_type b, b_ranges b, take (b_count b) d) # bs)"
    using bs(1) l Cons.prems(1) by (simp add: e)
  moreover have "d = block_data ((k, b_type b, b_ranges b, take (b_count b) d) # bs)"
    using bs(2) append_take_drop_id [of "b_count b" d] by simp
  ultimately show ?case by blast
qed

lemma rep_set': "(k, ty, rs, vs) \<in> set bs \<Longrightarrow> \<exists>b. (k, b) \<in> set (rep_from o' bs) \<and> b_ranges b = rs \<and> b_count b = length vs"
  by (induction o' bs rule: rep_from.induct) fastforce+

lemma ok_represents:
  assumes "set_data_ok s"
  obtains bs where "represents bs s"
proof -
  from assms rep_exists [of 0 "bMap s" "bData s"] obtain bs where bs: "bMap s = rep_from 0 bs" "bData s = block_data bs"
    by (auto simp: set_data_ok_def)
  have "wf_ranges rs \<and> range_total rs = length vs \<and> vs \<noteq> []" if m: "(k, ty, rs, vs) \<in> set bs" for k ty rs vs
  proof -
    from rep_set' [OF m, of 0] obtain b where "(k, b) \<in> set (bMap s)" "b_ranges b = rs" "b_count b = length vs"
      unfolding bs by blast
    with assms show ?thesis unfolding set_data_ok_def by fastforce
  qed
  with assms bs have "represents bs s" by (auto simp: represents_def wf_blocks_def set_data_ok_def)
  then show ?thesis by (rule that)
qed

section \<open>Reading\<close>

definition belement :: "blocks \<Rightarrow> nat \<Rightarrow> nat \<Rightarrow> binding_variant option" where
  "belement bs k i = (case map_of bs k of None \<Rightarrow> None | Some (ty, rs, vs) \<Rightarrow> map_option (\<lambda>r. vs ! r) (rank rs i))"

lemma element_rep:
  assumes "wf_blocks bs" "m = rep_from o' bs" "d = pre @ block_data bs" "length pre = o'"
  shows "(case map_of m k of None \<Rightarrow> None | Some b \<Rightarrow> map_option (\<lambda>r. d ! (b_offset b + r)) (rank (b_ranges b) i)) = belement bs k i"
  using assms
proof (induction bs arbitrary: o' m pre)
  case Nil then show ?case by (simp add: belement_def)
next
  case (Cons e bs)
  obtain k' ty rs vs where e: "e = (k', ty, rs, vs)" by (cases e) auto
  have wf: "wf_blocks bs" "range_total rs = length vs" using Cons.prems(1) by (auto simp: wf_blocks_def e)
  show ?case
  proof (cases "k = k'")
    case True
    have "(pre @ vs @ block_data bs) ! (length pre + r) = vs ! r" if "rank rs i = Some r" for r
      using rank_total [OF that] wf(2) by (simp add: nth_append)
    then show ?thesis using True Cons.prems by (cases "rank rs i") (auto simp: e belement_def)
  next
    case False
    have "belement (e # bs) k i = belement bs k i" using False by (simp add: belement_def e)
    then show ?thesis using Cons.IH [of "rep_from (o' + length vs) bs" "o' + length vs" "pre @ vs"] wf(1) Cons.prems False
      by (simp add: e)
  qed
qed

lemma element_belement: "represents bs s \<Longrightarrow> element s k i = belement bs k i"
  using element_rep [where bs = bs and m = "bMap s" and o' = 0 and d = "bData s" and pre = "[]" and k = k and i = i] by (simp add: represents_def element_def)

lemma wf_blocks_keys: "wf_blocks (pre @ (k, x) # post) \<Longrightarrow> (\<forall>e\<in>set pre. fst e < k) \<and> (\<forall>e\<in>set post. k < fst e)"
  by (auto simp: wf_blocks_def sorted_wrt_append)

lemma map_of_split:
  assumes "\<forall>e\<in>set pre. fst e < k" "\<forall>e\<in>set post. k < (fst e :: nat)"
  shows "map_of (pre @ (k, x) # post) k' = (if k' = k then Some x else map_of (pre @ post) k')"
    "map_of (pre @ post) k = None"
proof -
  have "map_of pre k = None" using assms(1) by (force simp: map_of_eq_None_iff)
  moreover have "map_of post k = None" using assms(2) by (force simp: map_of_eq_None_iff)
  ultimately show "map_of (pre @ (k, x) # post) k' = (if k' = k then Some x else map_of (pre @ post) k')"
    "map_of (pre @ post) k = None"
    by (auto simp: map_add_def split: option.splits)
qed

lemma belement_split:
  assumes "\<forall>e\<in>set pre. fst e < k" "\<forall>e\<in>set post. k < fst e"
  shows "belement (pre @ (k, ty, rs, vs) # post) k' i
     = (if k' = k then map_option (\<lambda>r. vs ! r) (rank rs i) else belement (pre @ post) k' i)"
  unfolding belement_def map_of_split(1) [OF assms] by simp

section \<open>The flat map over blocks\<close>

lemma key_split:
  assumes "sorted_wrt (<) (map fst (bs :: (nat \<times> 'a) list))"
  obtains pre post where "bs = pre @ post" "\<forall>e\<in>set pre. fst e < k" "\<forall>e\<in>set post. k < fst e"
  | pre x post where "bs = pre @ (k, x) # post" "\<forall>e\<in>set pre. fst e < k" "\<forall>e\<in>set post. k < fst e"
proof -
  define pre where "pre = takeWhile (\<lambda>e. fst e < k) bs"
  define rest where "rest = dropWhile (\<lambda>e. fst e < k) bs"
  have bs: "bs = pre @ rest" by (simp add: pre_def rest_def)
  have p: "\<forall>e\<in>set pre. fst e < k" by (auto simp: pre_def dest: set_takeWhileD)
  have s: "sorted_wrt (<) (map fst rest)" using assms unfolding bs by (simp add: sorted_wrt_append)
  show ?thesis
  proof (cases rest)
    case Nil
    show ?thesis by (rule that(1) [of pre rest]) (use bs p Nil in auto)
  next
    case (Cons e post)
    then have "\<not> fst e < k" unfolding rest_def by (metis dropWhile_eq_Cons_conv)
    moreover have "\<forall>f\<in>set post. fst e < fst f" using s Cons by simp
    ultimately show ?thesis
    proof (cases "fst e = k")
      case True
      show ?thesis by (rule that(2) [of pre "snd e" post])
          (use bs p Cons True \<open>\<forall>f\<in>set post. fst e < fst f\<close> in auto)
    next
      case False
      show ?thesis by (rule that(1) [of pre rest])
          (use bs p Cons False \<open>\<not> fst e < k\<close> \<open>\<forall>f\<in>set post. fst e < fst f\<close> in fastforce)+
    qed
  qed
qed

lemma rep_keys_mem: "fst ` set (rep_from o' bs) = fst ` set bs"
  by (metis rep_keys set_map)

lemma lower_bound_split:
  "\<forall>e\<in>set pre. fst e < k \<Longrightarrow> post = [] \<or> \<not> fst (hd post) < k \<Longrightarrow> flat_lower_bound k (pre @ post) = length pre"
  by (cases post) (auto simp: flat_lower_bound_def takeWhile_append takeWhile_eq_all_conv [THEN iffD2])

lemma rep_below: "\<forall>e\<in>set pre. fst e < k \<Longrightarrow> \<forall>e\<in>set (rep_from o' pre). fst e < k"
  by (metis rep_keys_mem image_iff)

lemma rep_above: "\<forall>e\<in>set post. k < fst e \<Longrightarrow> \<forall>e\<in>set (rep_from o' post). k < fst e"
  by (metis rep_keys_mem image_iff)

lemma emplace_fresh:
  assumes "\<forall>e\<in>set pre. fst e < k" "\<forall>e\<in>set post. k < fst e"
  shows "flat_emplace k v (rep_from 0 (pre @ post)) = (length pre, True,
     rep_from 0 pre @ (k, v) # rep_from (length (block_data pre)) post)"
proof -
  let ?m = "rep_from 0 pre" and ?n = "rep_from (length (block_data pre)) post"
  have a: "\<forall>e\<in>set ?n. k < fst e" by (rule rep_above [OF assms(2)])
  have lb: "flat_lower_bound k (?m @ ?n) = length ?m"
    by (rule lower_bound_split [OF rep_below [OF assms(1)]]) (use a in \<open>cases ?n, auto\<close>)
  have "\<not> (length ?m < length (?m @ ?n) \<and> fst ((?m @ ?n) ! length ?m) = k)" using a by (cases ?n) (auto simp: nth_append)
  moreover have "insert_at (length pre) (k, v) (?m @ ?n) = ?m @ (k, v) # ?n"
    using insert_at_append [of ?m "(k, v)" ?n] by simp
  ultimately show ?thesis using lb by (auto simp: flat_emplace_def rep_append Let_def)
qed

lemma emplace_found:
  assumes "\<forall>e\<in>set pre. fst e < k"
  shows "flat_emplace k v (rep_from 0 (pre @ (k, x) # post)) = (length pre, False, rep_from 0 (pre @ (k, x) # post))"
proof -
  obtain ty rs vs where x: "x = (ty, rs, vs)" by (cases x) auto
  let ?n = "rep_from (length (block_data pre)) ((k, x) # post)"
  have "flat_lower_bound k (rep_from 0 pre @ ?n) = length pre"
    using lower_bound_split [OF rep_below [OF assms], of ?n 0] by (simp add: x)
  then show ?thesis by (simp add: flat_emplace_def rep_append x nth_append)
qed

lemma resum_rep: "resum ((k, b) # rep_from o' post) = (k, b) # rep_from (b_offset b + b_count b) post"
proof (induction post arbitrary: k b o')
  case (Cons e post)
  obtain k' ty rs vs where "e = (k', ty, rs, vs)" by (cases e) auto
  then show ?case using Cons.IH by simp
qed simp

lemma offset_after_prev_rep: "offset_after_prev (length pre) (rep_from 0 pre @ r) = length (block_data pre)"
proof (cases pre rule: rev_cases)
  case (snoc qs e)
  obtain k ty rs vs where "e = (k, ty, rs, vs)" by (cases e) auto
  then show ?thesis using snoc by (simp add: offset_after_prev_def rep_append nth_append)
qed (simp add: offset_after_prev_def)

lemma resum_at_rep:
  "resum_at (length pre) (put_value (length pre) b (rep_from 0 pre @ (k, v) # rep_from o' post))
     = rep_from 0 pre @ (k, b) # rep_from (b_offset b + b_count b) post"
proof -
  have "put_value (length pre) b (rep_from 0 pre @ (k, v) # rep_from o' post) = rep_from 0 pre @ (k, b) # rep_from o' post"
    by (simp add: put_value_def list_update_append nth_append)
  then show ?thesis using resum_rep by (simp add: resum_at_def)
qed

section \<open>Operations over blocks\<close>

lemma fill_new_rep:
  assumes f: "fill_new (length pre) (rep_from 0 pre @ (k, new_binding ty) # rep_from (length (block_data pre)) post) rng vs s = Inr s'"
    and d: "bData s = block_data (pre @ post)"
  shows "fst rng < snd rng \<and> bMap s' = rep_from 0 (pre @ (k, ty, [rng], vs) # post)
     \<and> bData s' = block_data (pre @ (k, ty, [rng], vs) # post) \<and> templateEntries s' = template_of (bMap s')"
proof -
  obtain a b where rng: "rng = (a, b)" by force
  have lt: "a < b" using f by (cases "a < b") (auto simp: fill_new_def rng range_insert_def nth_append new_binding_def Let_def)
  show ?thesis using f lt d
    by (auto simp: fill_new_def rng nth_append new_binding_def range_insert_empty offset_after_prev_rep resum_at_rep
        finish_set_def insert_values_def rep_append Let_def)
qed

lemma wf_blocks_put:
  assumes "wf_blocks (pre @ mid @ post)" "\<forall>e\<in>set pre. fst e < k" "\<forall>e\<in>set post. k < fst e"
    "wf_ranges rs" "range_total rs = length vs" "vs \<noteq> []"
  shows "wf_blocks (pre @ (k, ty, rs, vs) # post)"
proof -
  have "sorted_wrt (<) (map fst pre)" "sorted_wrt (<) (map fst post)" using assms(1)
    by (auto simp: wf_blocks_def sorted_wrt_append)
  moreover have "\<forall>x\<in>set pre. \<forall>y\<in>set post. fst x < fst y" using assms(2,3) by fastforce
  ultimately have "sorted_wrt (<) (map fst (pre @ (k, ty, rs, vs) # post))" using assms(2,3) by (simp add: sorted_wrt_append)
  moreover have "\<forall>(k, ty, rs, vs)\<in>set (pre @ post). wf_ranges rs \<and> range_total rs = length vs \<and> vs \<noteq> []"
    using assms(1) unfolding wf_blocks_def by (simp add: ball_Un)
  ultimately show ?thesis using assms(4-6) by (auto simp: wf_blocks_def)
qed

text \<open>The effect of an operation: block \<open>k\<close> becomes \<open>(rs, vs)\<close>, the others stay.\<close>

definition sets_block :: "nat \<Rightarrow> nat ranges \<Rightarrow> binding_variant list \<Rightarrow> set_data \<Rightarrow> set_data \<Rightarrow> bool" where
  "sets_block k rs vs s s' \<longleftrightarrow> set_data_ok s' \<and> (\<forall>k' i. element s' k' i
     = (if k' = k then map_option (\<lambda>r. vs ! r) (rank rs i) else element s k' i))"

lemma sets_blockI:
  assumes r: "represents (pre @ mid @ post) s" and mid: "mid = [] \<or> (\<exists>x. mid = [(k, x)])"
    and k: "\<forall>e\<in>set pre. fst e < k" "\<forall>e\<in>set post. k < fst e" and w: "wf_ranges rs" "range_total rs = length vs" "vs \<noteq> []"
    and s': "bMap s' = rep_from 0 (pre @ (k, ty, rs, vs) # post)" "bData s' = block_data (pre @ (k, ty, rs, vs) # post)"
      "templateEntries s' = template_of (bMap s')"
  shows "sets_block k rs vs s s'"
proof -
  have wf: "wf_blocks (pre @ (k, ty, rs, vs) # post)"
    by (rule wf_blocks_put [where mid = mid, OF _ k w]) (use r in \<open>simp add: represents_def\<close>)
  then have r': "represents (pre @ (k, ty, rs, vs) # post) s'" using s' by (simp add: represents_def)
  have "belement (pre @ mid @ post) k' i = belement (pre @ post) k' i" if "k' \<noteq> k" for k' i
    using mid that by (auto simp: belement_def map_add_def split: option.splits)
  then show ?thesis
    using element_belement [OF r] element_belement [OF r'] represents_ok [OF r'] belement_split [OF k]
    by (simp add: sets_block_def)
qed

lemma nth_block: "d = block_data (pre @ (k, ty, rs, vs) # post) \<Longrightarrow> r < length vs \<Longrightarrow>
    d ! (length (block_data pre) + r) = vs ! r \<and> length (block_data pre) + r < length d
    \<and> d[length (block_data pre) + r := v] = block_data (pre @ (k, ty, rs, vs[r := v]) # post)"
  by (simp add: nth_append list_update_append)

lemma rep_map_of:
  "\<forall>e\<in>set pre. fst e < k \<Longrightarrow> map_of (rep_from 0 (pre @ (k, ty, rs, vs) # post)) k
     = Some \<lparr> b_offset = length (block_data pre), b_count = length vs, b_type = ty, b_ranges = rs \<rparr>"
  using rep_below [of pre k 0] by (force simp: rep_append map_add_Some_iff map_of_eq_None_iff)

lemma rep_map_of_None:
  assumes "\<forall>e\<in>set pre. fst e < k" "\<forall>e\<in>set post. k < fst e"
  shows "map_of (rep_from 0 (pre @ post)) k = None"
proof -
  have "k \<notin> fst ` set (rep_from 0 (pre @ post))" unfolding rep_keys_mem using assms by fastforce
  then show ?thesis by (simp add: map_of_eq_None_iff)
qed

text \<open>An operation on an existing block that keeps the map, or that replaces the block.\<close>

lemma found_facts:
  assumes "represents (pre @ (k, ty, rs, vs) # post) s" "\<forall>e\<in>set pre. fst e < k"
  shows "snd (bMap s ! length pre) = \<lparr> b_offset = length (block_data pre), b_count = length vs, b_type = ty, b_ranges = rs \<rparr>"
    "bMap s = rep_from 0 pre @ (k, \<lparr> b_offset = length (block_data pre), b_count = length vs, b_type = ty, b_ranges = rs \<rparr>)
        # rep_from (length (block_data pre) + length vs) post"
    "bData s = block_data pre @ vs @ block_data post" "wf_ranges rs" "range_total rs = length vs" "vs \<noteq> []"
    "map_of (bMap s) k = Some \<lparr> b_offset = length (block_data pre), b_count = length vs, b_type = ty, b_ranges = rs \<rparr>"
    "flat_emplace k v (bMap s) = (length pre, False, bMap s)"
  using assms rep_map_of [OF assms(2), of ty rs vs post] emplace_found [OF assms(2), of v "(ty, rs, vs)" post]
  by (auto simp: represents_def rep_append nth_append wf_blocks_def)

lemma keep_map:
  assumes r: "represents (pre @ (k, ty, rs, vs) # post) s" and k: "\<forall>e\<in>set pre. fst e < k" "\<forall>e\<in>set post. k < fst e"
    and d: "d = block_data pre @ ws @ block_data post" "length ws = length vs"
  shows "sets_block k rs ws s (finish_set (bMap s) d s)"
proof (rule sets_blockI [where mid = "[(k, ty, rs, vs)]" and ty = ty, OF _ _ k])
  have "rep_from (length (block_data pre)) ((k, ty, rs, vs) # post) = rep_from (length (block_data pre)) ((k, ty, rs, ws) # post)"
    using d(2) by simp
  then show "bMap (finish_set (bMap s) d s) = rep_from 0 (pre @ (k, ty, rs, ws) # post)"
    using r by (simp only: finish_set_def set_data.simps represents_def rep_append) simp
qed (use r d found_facts [OF r k(1)] in \<open>auto simp: finish_set_def\<close>)

lemma replace_block:
  assumes r: "represents (pre @ (k, ty, rs, vs) # post) s" and k: "\<forall>e\<in>set pre. fst e < k" "\<forall>e\<in>set post. k < fst e"
    and d: "d = block_data pre @ ws @ block_data post" and w: "wf_ranges rs'" "range_total rs' = length ws" "ws \<noteq> []"
    and b': "b' = (snd (bMap s ! length pre))\<lparr> b_count := length ws, b_ranges := rs' \<rparr>"
  shows "sets_block k rs' ws s (finish_set (resum_at (length pre) (put_value (length pre) b' (bMap s))) d s)"
proof (rule sets_blockI [where mid = "[(k, ty, rs, vs)]" and ty = ty, OF _ _ k w])
  show "bMap (finish_set (resum_at (length pre) (put_value (length pre) b' (bMap s))) d s)
     = rep_from 0 (pre @ (k, ty, rs', ws) # post)"
    unfolding finish_set_def set_data.simps found_facts(2) [OF r k(1)] resum_at_rep
    by (simp add: b' found_facts(1) [OF r k(1)] rep_append)
qed (use r d in \<open>auto simp: finish_set_def\<close>)

lemma SetDescriptorData_one_sets:
  assumes ok: "set_data_ok s" and e: "SetDescriptorData_one k ty v s = Inr s'"
  shows "sets_block k (case map_of (bMap s) k of None \<Rightarrow> [(0, 1)] | Some b \<Rightarrow> b_ranges b) [v] s s'"
proof -
  from ok obtain bs where r: "represents bs s" by (rule ok_represents)
  then have "sorted_wrt (<) (map fst bs)" by (simp add: represents_def wf_blocks_def)
  then show ?thesis
  proof (cases rule: key_split [where k = k])
    case (1 pre post)
    have m: "bMap s = rep_from 0 (pre @ post)" using r 1 by (simp add: represents_def)
    note f = fill_new_rep [of pre k ty post "(0, 1)" "[v]" s s']
    have "bMap s' = rep_from 0 (pre @ (k, ty, [(0, 1)], [v]) # post) \<and> bData s' = block_data (pre @ (k, ty, [(0, 1)], [v]) # post)
       \<and> templateEntries s' = template_of (bMap s')"
      using e r 1 f by (simp add: SetDescriptorData_one_def m emplace_fresh [OF 1(2,3)] represents_def)
    then show ?thesis using r 1 rep_map_of_None [OF 1(2,3)] m
      by (simp, intro sets_blockI [where mid = "[]" and ty = ty]) auto
  next
    case (2 pre x post)
    obtain ty0 rs vs where x: "x = (ty0, rs, vs)" by (cases x) auto
    note r2 = r [unfolded 2(1) x] and ff = found_facts [OF r [unfolded 2(1) x] 2(2)]
    obtain w where vs: "vs = [w]" and s': "s' = finish_set (bMap s) (block_data pre @ [v] @ block_data post) s"
      using e by (auto simp: SetDescriptorData_one_def Let_def ff(8) ff(1) get_and_assign_def ff(3) nth_append list_update_append
          length_Suc_conv split: if_splits)
    show ?thesis using keep_map [OF r2 2(2,3) refl, of "[v]"] vs s' ff(7) by simp
  qed
qed

lemma SetDescriptorData_vector_sets:
  assumes ok: "set_data_ok s" and e: "SetDescriptorData_vector k ty n vs s = Inr s'"
  shows "vs \<noteq> [] \<and> sets_block k (case map_of (bMap s) k of None \<Rightarrow> [(0, length vs)]
     | Some b \<Rightarrow> if b_count b = length vs then b_ranges b else [(0, length vs)]) vs s s'"
proof -
  from ok obtain bs where r: "represents bs s" by (rule ok_represents)
  then have "sorted_wrt (<) (map fst bs)" by (simp add: represents_def wf_blocks_def)
  then show ?thesis
  proof (cases rule: key_split [where k = k])
    case (1 pre post)
    have m: "bMap s = rep_from 0 (pre @ post)" using r 1 by (simp add: represents_def)
    note f = fill_new_rep [of pre k ty post "(0, length vs)" vs s s']
    have "0 < length vs \<and> bMap s' = rep_from 0 (pre @ (k, ty, [(0, length vs)], vs) # post)
       \<and> bData s' = block_data (pre @ (k, ty, [(0, length vs)], vs) # post) \<and> templateEntries s' = template_of (bMap s')"
      using e r 1 f by (simp add: SetDescriptorData_vector_def m emplace_fresh [OF 1(2,3)] represents_def split: if_splits)
    then show ?thesis using r 1 rep_map_of_None [OF 1(2,3)] m
      by (simp, intro sets_blockI [where mid = "[]" and ty = ty]) auto
  next
    case (2 pre x post)
    obtain ty0 rs us where x: "x = (ty0, rs, us)" by (cases x) auto
    note r2 = r [unfolded 2(1) x] and ff = found_facts [OF r [unfolded 2(1) x] 2(2)]
    show ?thesis
    proof (cases "length us = length vs")
      case True
      then have "s' = finish_set (bMap s) (block_data pre @ vs @ block_data post) s"
        using e by (simp add: SetDescriptorData_vector_def Let_def ff(8) ff(1) ff(3) copy_values_def split: if_splits)
      then show ?thesis using keep_map [OF r2 2(2,3) refl, of vs] True ff(7) ff(6) by auto
    next
      case False
      have lt: "0 < length vs"
        using e False by (cases vs) (auto simp: SetDescriptorData_vector_def Let_def ff(8) ff(1) range_insert_def split: if_splits)
      have td: "take m vs @ drop m vs @ xs = vs @ xs" for m and xs :: "binding_variant list" by (simp flip: append_assoc)
      define b' where "b' = (snd (bMap s ! length pre))\<lparr> b_count := length vs, b_ranges := [(0, length vs)] \<rparr>"
      have "s' = finish_set (resum_at (length pre) (put_value (length pre) b' (bMap s))) (block_data pre @ vs @ block_data post) s"
        using e False lt range_insert_empty [OF lt]
        by (auto simp: SetDescriptorData_vector_def Let_def ff(8) ff(1) ff(3) b'_def copy_values_def insert_values_def
            erase_values_def min_def td split: if_splits)
      then show ?thesis
        using replace_block [OF r2 2(2,3) refl, of "[(0, length vs)]" vs b'] False ff(7) lt b'_def by auto
    qed
  qed
qed

lemma range_insert_point:
  assumes "wf_ranges rs" "range_insert (index, u32_succ index) rs = Inr (rs', it, fr)" "index < 2 ^ 32"
  shows "wf_ranges rs' \<and> covered rs' = insert index (covered rs)"
proof -
  have lt: "index < u32_succ index" using assms(2) by (simp add: range_insert_def split: if_splits)
  then have "u32_succ index = index + 1" using assms(3) by (cases "index + 1 = 2 ^ 32") (auto simp: u32_succ_def)
  then show ?thesis using range_insert_ok [OF assms(1) lt] assms(2) by (auto simp: range_insert_post_def)
qed

lemma SetDescriptorData_indexed_sets:
  assumes ok: "set_data_ok s" and e: "SetDescriptorData_indexed k ty v index s = Inr s'" and i: "index < 2 ^ 32"
  shows "case map_of (bMap s) k of None \<Rightarrow> sets_block k [(index, index + 1)] [v] s s'
     | Some b \<Rightarrow> \<exists>us. length us = b_count b \<and> (\<forall>j. element s k j = map_option (\<lambda>r. us ! r) (rank (b_ranges b) j)) \<and>
        (case rank (b_ranges b) index of
           Some r \<Rightarrow> sets_block k (b_ranges b) (us[r := v]) s s'
         | None \<Rightarrow> \<exists>rs. wf_ranges rs \<and> covered rs = insert index (covered (b_ranges b)) \<and> sets_block k rs (us @ [v]) s s')"
proof -
  from ok obtain bs where r: "represents bs s" by (rule ok_represents)
  then have "sorted_wrt (<) (map fst bs)" by (simp add: represents_def wf_blocks_def)
  then show ?thesis
  proof (cases rule: key_split [where k = k])
    case (1 pre post)
    have m: "bMap s = rep_from 0 (pre @ post)" using r 1 by (simp add: represents_def)
    note f = fill_new_rep [of pre k ty post "(index, u32_succ index)" "[v]" s s']
    have "index < u32_succ index \<and> bMap s' = rep_from 0 (pre @ (k, ty, [(index, u32_succ index)], [v]) # post)
       \<and> bData s' = block_data (pre @ (k, ty, [(index, u32_succ index)], [v]) # post) \<and> templateEntries s' = template_of (bMap s')"
      using e r 1 f by (simp add: SetDescriptorData_indexed_def m emplace_fresh [OF 1(2,3)] represents_def)
    moreover from this have "u32_succ index = index + 1" using i by (cases "index + 1 = 2 ^ 32") (auto simp: u32_succ_def)
    ultimately show ?thesis using r 1 rep_map_of_None [OF 1(2,3)] m
      by (simp, intro sets_blockI [where mid = "[]" and ty = ty]) auto
  next
    case (2 pre x post)
    obtain ty0 rs us where x: "x = (ty0, rs, us)" by (cases x) auto
    note r2 = r [unfolded 2(1) x] and ff = found_facts [OF r [unfolded 2(1) x] 2(2)]
    have el: "element s k j = map_option (\<lambda>r. us ! r) (rank rs j)" for j
      using element_belement [OF r2] belement_split [OF 2(2,3)] by simp
    show ?thesis
    proof (cases "rank rs index")
      case (Some q)
      then have q: "q < length us" using rank_total [OF Some] ff(5) by simp
      have "s' = finish_set (bMap s) (block_data pre @ us[q := v] @ block_data post) s"
        using e Some q by (auto simp: SetDescriptorData_indexed_def Let_def ff(8) ff(1) find_index_rank get_and_assign_def
            ff(3) list_update_append split: if_splits)
      then show ?thesis using keep_map [OF r2 2(2,3) refl, of "us[q := v]"] Some el ff(7) by auto
    next
      case None
      from e None ff(6) obtain rs' it fr where ri: "range_insert (index, u32_succ index) rs = Inr (rs', it, fr)"
        by (auto simp: SetDescriptorData_indexed_def Let_def ff(8) ff(1) find_index_rank bind_res_Inr split: if_splits)
      from range_insert_point [OF ff(4) ri i] have w: "wf_ranges rs'" "covered rs' = insert index (covered rs)" by auto
      have "index \<notin> covered rs" using None rank_card [OF ff(4), of index] by (simp split: if_splits)
      then have t: "range_total rs' = length (us @ [v])"
        using total_card [OF w(1)] total_card [OF ff(4)] ff(5) w(2) by simp
      define b' where "b' = (snd (bMap s ! length pre))\<lparr> b_count := length (us @ [v]), b_ranges := rs' \<rparr>"
      have "s' = finish_set (resum_at (length pre) (put_value (length pre) b' (bMap s))) (block_data pre @ (us @ [v]) @ block_data post) s"
        using e None ri ff(5,6) by (auto simp: SetDescriptorData_indexed_def Let_def ff(8) ff(1) find_index_rank b'_def
            ff(3) insert_values_def split: if_splits)
      then show ?thesis using replace_block [OF r2 2(2,3) refl w(1) t _ b'_def] None el ff(7) w by auto
    qed
  qed
qed

section \<open>Every history of a set\<close>

datatype set_op =
    SetOne nat u32 binding_variant
  | SetVector nat u32 nat "binding_variant list"
  | SetIndexed nat u32 binding_variant nat

fun set_op_exec :: "set_op \<Rightarrow> set_data \<Rightarrow> set_data res" where
  "set_op_exec (SetOne k ty v) s = SetDescriptorData_one k ty v s"
| "set_op_exec (SetVector k ty n vs) s = SetDescriptorData_vector k ty n vs s"
| "set_op_exec (SetIndexed k ty v i) s = (if i < 2 ^ 32 then SetDescriptorData_indexed k ty v i s else Inl Undefined)"

fun set_ops_exec :: "set_op list \<Rightarrow> set_data \<Rightarrow> set_data res" where
  "set_ops_exec [] s = Inr s"
| "set_ops_exec (op # ops) s = bind_res (set_op_exec op s) (set_ops_exec ops)"

lemma set_op_exec_ok:
  assumes "set_data_ok s" "set_op_exec op s = Inr s'"
  shows "set_data_ok s'"
proof (cases op)
  case (SetOne k ty v)
  then show ?thesis using assms SetDescriptorData_one_sets [of s k ty v s'] by (simp add: sets_block_def)
next
  case (SetVector k ty n vs)
  then show ?thesis using assms SetDescriptorData_vector_sets [of s k ty n vs s'] by (simp add: sets_block_def)
next
  case (SetIndexed k ty v i)
  then show ?thesis using assms SetDescriptorData_indexed_sets [of s k ty v i s']
    by (auto simp: sets_block_def split: option.splits if_splits)
qed

lemma set_data_new_ok: "set_data_ok set_data_new"
  by (simp add: set_data_ok_def set_data_new_def template_of_def)

lemma set_ops_exec_ok: "set_data_ok s \<Longrightarrow> set_ops_exec ops s = Inr s' \<Longrightarrow> set_data_ok s'"
  by (induction ops arbitrary: s) (auto simp: bind_res_Inr dest: set_op_exec_ok)

text \<open>C14: After any history of the three \<open>SetDescriptorData\<close> variants the bindings are sorted, each
  offset is the sum of the counts before it, the value vector has exactly the counted values, each
  binding's count is the size of its element ranges, and the update template describes the map.\<close>
theorem descriptor_data_invariant:
  "case set_ops_exec ops set_data_new of Inl e \<Rightarrow> True | Inr s \<Rightarrow> set_data_ok s"
  using set_ops_exec_ok [OF set_data_new_ok] by (auto split: sum.splits)

text \<open>C28: Setting a whole array makes the binding hold exactly these values, at elements \<open>0\<close> to
  \<open>length - 1\<close>, and leaves every other binding as it was, wherever the values of the others lie: unless
  the binding already had as many values, set at other elements.\<close>
theorem SetDescriptorData_vector_correct:
  assumes "set_data_ok s" "SetDescriptorData_vector k ty n vs s = Inr s'"
    and "case map_of (bMap s) k of None \<Rightarrow> True | Some b \<Rightarrow> b_count b \<noteq> length vs \<or> b_ranges b = [(0, length vs)]"
  shows "element s' k' i = (if k' = k then (if i < length vs then Some (vs ! i) else None) else element s k' i)"
proof -
  have "sets_block k [(0, length vs)] vs s s'"
    using SetDescriptorData_vector_sets [OF assms(1,2)] assms(3) by (auto split: option.splits if_splits)
  then show ?thesis by (simp add: sets_block_def)
qed

definition ex_set_ops :: "set_op list" where
  "ex_set_ops = [SetVector 4 6 8 [BufferViewValue 40, BufferViewValue 41], SetOne 1 6 (BufferViewValue 10)]"

lemma ex_set_ops_run: "\<exists>s. set_ops_exec ex_set_ops set_data_new = Inr s \<and>
    map_of (bMap s) 4 = Some \<lparr> b_offset = 1, b_count = 2, b_type = 6, b_ranges = [(0, 2)] \<rparr> \<and>
    (\<exists>s'. SetDescriptorData_vector 4 6 8 [BufferViewValue 50] s = Inr s') \<and>
    (\<exists>s'. SetDescriptorData_indexed 4 6 (BufferViewValue 60) 7 s = Inr s')"
  by (simp add: ex_set_ops_def set_data_new_def SetDescriptorData_vector_def SetDescriptorData_one_def
      SetDescriptorData_indexed_def flat_emplace_def flat_lower_bound_def fill_new_def range_insert_empty insert_at_def
      finish_set_def resum_at_def put_value_def insert_values_def erase_values_def copy_values_def offset_after_prev_def
      new_binding_def Let_def range_insert_def upper_bound_def absorb.simps u32_succ_def)

theorem SetDescriptorData_vector_correct_witness:
  "\<exists>s s'. SetDescriptorData_vector 4 6 8 [BufferViewValue 50] s = Inr s' \<and> element s' 4 0 = Some (BufferViewValue 50)
     \<and> element s' 4 1 = None \<and> element s' 1 0 = element s 1 0"
proof -
  from ex_set_ops_run obtain s s' where s: "set_ops_exec ex_set_ops set_data_new = Inr s"
    "map_of (bMap s) 4 = Some \<lparr> b_offset = 1, b_count = 2, b_type = 6, b_ranges = [(0, 2)] \<rparr>"
    "SetDescriptorData_vector 4 6 8 [BufferViewValue 50] s = Inr s'" by blast
  note c = SetDescriptorData_vector_correct [OF set_ops_exec_ok [OF set_data_new_ok s(1)] s(3)]
  from c [of 4 0] c [of 4 1] c [of 1 0] s(2,3) show ?thesis by (intro exI [of _ s] exI [of _ s']) simp
qed

text \<open>Setting one array element that is already set, or that lies above every element set so far,
  changes that element only.\<close>
theorem SetDescriptorData_indexed_correct:
  assumes "set_data_ok s" "SetDescriptorData_indexed k ty v index s = Inr s'" "index < 2 ^ 32"
    and "element s k index = None \<Longrightarrow> (\<And>j. index < j \<Longrightarrow> element s k j = None)"
  shows "element s' k' i = (if k' = k \<and> i = index then Some v else element s k' i)"
proof (cases "map_of (bMap s) k")
  case None
  then have b: "sets_block k [(index, index + 1)] [v] s s'"
    using SetDescriptorData_indexed_sets [OF assms(1-3)] by simp
  moreover have "element s k i = None" using None by (simp add: element_def)
  ultimately show ?thesis by (auto simp: sets_block_def)
next
  case (Some b)
  then obtain us where us: "length us = b_count b" "\<And>j. element s k j = map_option (\<lambda>r. us ! r) (rank (b_ranges b) j)"
    and d: "case rank (b_ranges b) index of Some r \<Rightarrow> sets_block k (b_ranges b) (us[r := v]) s s'
         | None \<Rightarrow> \<exists>rs. wf_ranges rs \<and> covered rs = insert index (covered (b_ranges b)) \<and> sets_block k rs (us @ [v]) s s'"
    using SetDescriptorData_indexed_sets [OF assms(1-3)] by auto
  have w: "wf_ranges (b_ranges b)" "range_total (b_ranges b) = b_count b"
    using assms(1) map_of_SomeD [OF Some] by (auto simp: set_data_ok_def)
  note rc = rank_card [OF w(1)]
  show ?thesis
  proof (cases "rank (b_ranges b) index")
    case None
    then obtain rs where rs: "wf_ranges rs" "covered rs = insert index (covered (b_ranges b))" "sets_block k rs (us @ [v]) s s'"
      using d by auto
    have out: "index \<notin> covered (b_ranges b)" using None rc by (simp split: if_splits)
    have un: "element s k index = None" using us(2) None by simp
    have below: "j < index" if jc: "j \<in> covered (b_ranges b)" for j
    proof (rule ccontr)
      assume "\<not> j < index"
      then have "index < j" using jc out by (cases "j = index") auto
      then have "element s k j = None" using assms(4) [OF un] by simp
      then show False using us(2) [of j] rc [of j] jc by simp
    qed
    have "rank rs i = (if i = index then Some (b_count b) else rank (b_ranges b) i)"
    proof (cases "i = index")
      case True
      have "{x \<in> covered rs. x < i} = covered (b_ranges b)" using rs(2) below True by auto
      then show ?thesis using True rs(2) w total_card [OF w(1)] by (simp add: rank_card [OF rs(1)])
    next
      case False
      have "{x \<in> covered rs. x < i} = {x \<in> covered (b_ranges b). x < i}" if "i \<in> covered (b_ranges b)"
        using rs(2) below [OF that] by auto
      then show ?thesis using False rs(2) by (simp add: rank_card [OF rs(1)] rc)
    qed
    moreover have "(us @ [v]) ! r = us ! r" if "rank (b_ranges b) i = Some r" for r
      using rank_total [OF that] w(2) us(1) by (simp add: nth_append)
    moreover have "(us @ [v]) ! b_count b = v" using us(1) by (simp add: nth_append)
    ultimately show ?thesis using rs(3) us(2) by (cases "rank (b_ranges b) i") (auto simp: sets_block_def)
  next
    case (Some r)
    have "rank (b_ranges b) i = Some r \<longleftrightarrow> i = index"
    proof
      assume e: "rank (b_ranges b) i = Some r"
      show "i = index"
      proof (rule ccontr)
        assume "i \<noteq> index"
        then consider "i < index" | "index < i" by linarith
        moreover have "card {x \<in> covered (b_ranges b). x < p} < card {x \<in> covered (b_ranges b). x < q}"
          if "p < q" "p \<in> covered (b_ranges b)" for p q
          by (rule psubset_card_mono) (use that in auto)
        ultimately show False using e Some rc by (cases) (fastforce split: if_splits)+
      qed
    qed (use Some in simp)
    moreover have "r < length us" using rank_total [OF Some] w(2) us(1) by simp
    moreover have b: "sets_block k (b_ranges b) (us[r := v]) s s'" using d Some by simp
    ultimately show ?thesis using us(2) by (cases "rank (b_ranges b) i") (auto simp: sets_block_def)
  qed
qed

theorem SetDescriptorData_indexed_correct_witness:
  "\<exists>s s'. SetDescriptorData_indexed 4 6 (BufferViewValue 60) 7 s = Inr s' \<and> element s' 4 7 = Some (BufferViewValue 60)
     \<and> element s' 4 1 = element s 4 1"
proof -
  from ex_set_ops_run obtain s s' where s: "set_ops_exec ex_set_ops set_data_new = Inr s"
    "map_of (bMap s) 4 = Some \<lparr> b_offset = 1, b_count = 2, b_type = 6, b_ranges = [(0, 2)] \<rparr>"
    "SetDescriptorData_indexed 4 6 (BufferViewValue 60) 7 s = Inr s'" by blast
  have above: "element s 4 j = None" if "7 < j" for j using s(2) that by (simp add: element_def)
  note c = SetDescriptorData_indexed_correct [OF set_ops_exec_ok [OF set_data_new_ok s(1)] s(3)]
  from c [of 4 7] c [of 4 1] above s(3) show ?thesis by (intro exI [of _ s] exI [of _ s']) simp
qed

text \<open>Array elements set out of order end up swapped: after element 5 and then element 2 are set,
  the set holds the value of 5 at 2 and that of 2 at 5. And an array set over as many elements that
  were set one by one at other indices stays at those indices.\<close>
theorem descriptor_elements_misplaced:
  "(\<exists>s. set_ops_exec [SetIndexed 0 6 (BufferViewValue 55) 5, SetIndexed 0 6 (BufferViewValue 22) 2] set_data_new = Inr s
      \<and> element s 0 2 = Some (BufferViewValue 55) \<and> element s 0 5 = Some (BufferViewValue 22))
   \<and> (\<exists>s. set_ops_exec [SetIndexed 0 6 (BufferViewValue 55) 5, SetVector 0 6 8 [BufferViewValue 1]] set_data_new = Inr s
      \<and> element s 0 0 = None \<and> element s 0 5 = Some (BufferViewValue 1))"
  by (simp add: set_data_new_def SetDescriptorData_vector_def SetDescriptorData_indexed_def flat_emplace_def
      flat_lower_bound_def fill_new_def range_insert_empty insert_at_def finish_set_def resum_at_def put_value_def
      insert_values_def copy_values_def offset_after_prev_def new_binding_def Let_def range_insert_def upper_bound_def
      absorb.simps u32_succ_def element_def)

section \<open>The update template\<close>

lemma range_entries_writes:
  "wf_ranges rs \<Longrightarrow> template_writes (range_entries k b ro rs @ es) d k' i
     = (if k' = k then (case rank rs i of Some r \<Rightarrow> Some (d ! (b_offset b + ro + r)) | None \<Rightarrow> template_writes es d k' i)
        else template_writes es d k' i)"
proof (induction rs arbitrary: ro)
  case (Cons r rs)
  obtain lo hi where r: "r = (lo, hi)" by force
  have "lo < hi" using wf_ranges_hd [OF Cons.prems] r by simp
  then show ?case using Cons.IH [OF wf_ranges_tl [OF Cons.prems], of "ro + (hi - lo)"]
    by (auto simp: r add.assoc split: option.splits)
qed (simp split: option.splits)

lemma template_of_writes:
  "\<forall>(k, b)\<in>set m. wf_ranges (b_ranges b) \<Longrightarrow> sorted_wrt (<) (map fst m) \<Longrightarrow> template_writes (template_of m) d k i
     = (case map_of m k of None \<Rightarrow> None | Some b \<Rightarrow> map_option (\<lambda>r. d ! (b_offset b + r)) (rank (b_ranges b) i))"
proof (induction m)
  case Nil then show ?case by (simp add: template_of_def)
next
  case (Cons e m)
  obtain k' b where e: "e = (k', b)" by force
  have t: "template_of ((k', b) # m) = range_entries k' b 0 (b_ranges b) @ template_of m" by (simp add: template_of_def)
  have "map_of m k' = None" using Cons.prems(2) by (force simp: e map_of_eq_None_iff)
  then show ?case using Cons by (auto simp: t e range_entries_writes split: option.splits)
qed

lemma writes_element: "set_data_ok s \<Longrightarrow> template_writes (templateEntries s) (bData s) k i = element s k i"
  using template_of_writes [of "bMap s" "bData s" k i] by (fastforce simp: set_data_ok_def element_def)

text \<open>C15: The update template of a set writes, for every binding and array element, exactly the value
  the set holds there.\<close>
theorem template_writes_elements:
  assumes "set_data_ok s"
  shows "template_writes (templateEntries s) (bData s) k i = element s k i"
  by (rule writes_element [OF assms])

theorem template_writes_elements_witness:
  "\<exists>s. set_ops_exec ex_set_ops set_data_new = Inr s \<and> template_writes (templateEntries s) (bData s) 4 1 = element s 4 1"
  using ex_set_ops_run template_writes_elements set_ops_exec_ok [OF set_data_new_ok] by blast

end
