(* ===== verification/Upgradable_Mutex.thy ===== *)
theory Upgradable_Mutex
imports Prelude
begin

text \<open>
  \<open>UpgradableSharedMutex\<close> of \<open>core/upgradablesharedmutex.{h,inl,cpp}\<close>: a reader/upgrader/writer
  lock in one byte. Every atomic access of the source is one step of a thread, so the threads of
  the model interleave wherever the code's threads can. Between two accesses a thread is at a
  program counter: trying, backing a reader increment out again, before or asleep in \<open>atomic.wait\<close>,
  or between a release and its \<open>notify_all\<close>. \<open>compare_exchange_weak\<close> may fail spuriously; a
  sleeping thread is released by \<open>notify_all\<close> only.
\<close>

section \<open>The byte and the lock functions\<close>

definition Reader :: u8 where "Reader = 4"
definition Upgraded :: u8 where "Upgraded = 2"
definition Writer :: u8 where "Writer = 1"

text \<open>Each lock function returns the success flag with the value it saw, and the new byte.\<close>

definition InternalTryLock :: "u8 \<Rightarrow> bool \<Rightarrow> u8 \<Rightarrow> (bool \<times> u8) \<times> u8" where
  "InternalTryLock expected spurious b =
     (if b = expected \<and> \<not> spurious then ((True, expected), Writer) else ((False, b), b))"

definition InternalTryLockShared_add :: "u8 \<Rightarrow> bool \<times> u8" where
  "InternalTryLockShared_add b = (b AND (Writer OR Upgraded) \<noteq> 0, b + Reader)"

definition InternalTryLockShared_back :: "u8 \<Rightarrow> (bool \<times> u8) \<times> u8" where
  "InternalTryLockShared_back b = ((False, b), b - Reader)"

definition InternalTryLockUpgrade :: "u8 \<Rightarrow> (bool \<times> u8) \<times> u8" where
  "InternalTryLockUpgrade b = ((b AND (Upgraded OR Writer) = 0, b), b OR Upgraded)"

definition unlock_bits :: "u8 \<Rightarrow> u8" where
  "unlock_bits b = b AND NOT (Writer OR Upgraded)"

section \<open>Threads\<close>

text \<open>The lock function that \<open>InternalAquireLock\<close> or a \<open>try_\<close> function runs.\<close>

datatype lock_kind = KLock | KShared | KUpgrade | KUpgradeToLock

text \<open>\<open>Attempt True k\<close> is inside \<open>InternalAquireLock\<close>, \<open>Attempt False k\<close> inside a \<open>try_\<close> function.\<close>

datatype pc =
    Idle | Reading | Upgrading | Writing
  | Attempt bool lock_kind
  | BackOff bool
  | Waiting lock_kind u8
  | Asleep lock_kind u8
  | AddedReader
  | SetUpgraded
  | Notify pc

datatype lock_call =
    c_lock | c_lock_shared | c_lock_upgrade
  | c_try_lock | c_try_lock_shared | c_try_lock_upgrade
  | c_unlock | c_unlock_shared | c_unlock_upgrade
  | c_unlock_and_lock_shared | c_unlock_and_lock_upgrade
  | c_unlock_upgrade_and_lock | c_unlock_upgrade_and_lock_shared

fun granted :: "lock_kind \<Rightarrow> pc" where
  "granted KLock = Writing"
| "granted KShared = Reading"
| "granted KUpgrade = Upgrading"
| "granted KUpgradeToLock = Writing"

fun refused :: "lock_kind \<Rightarrow> pc" where
  "refused KUpgradeToLock = Upgrading"
| "refused _ = Idle"

text \<open>The loop of \<open>InternalAquireLock\<close> goes on to wait with the value the lock function returned.\<close>

definition lock_result :: "lock_kind \<Rightarrow> bool \<Rightarrow> bool \<times> u8 \<Rightarrow> pc" where
  "lock_result k blocking r =
     (if fst r then granted k else if blocking then Waiting k (snd r) else refused k)"

text \<open>The first step of a public operation, for a caller that holds what the operation releases.\<close>

definition start_call :: "lock_call \<Rightarrow> pc \<Rightarrow> u8 \<Rightarrow> (u8 \<times> pc) option" where
  "start_call c p b = (case c of
       c_lock \<Rightarrow> if p = Idle then Some (b, Attempt True KLock) else None
     | c_lock_shared \<Rightarrow> if p = Idle then Some (b, Attempt True KShared) else None
     | c_lock_upgrade \<Rightarrow> if p = Idle then Some (b, Attempt True KUpgrade) else None
     | c_try_lock \<Rightarrow> if p = Idle then Some (b, Attempt False KLock) else None
     | c_try_lock_shared \<Rightarrow> if p = Idle then Some (b, Attempt False KShared) else None
     | c_try_lock_upgrade \<Rightarrow> if p = Idle then Some (b, Attempt False KUpgrade) else None
     | c_unlock \<Rightarrow> if p = Writing then Some (unlock_bits b, Notify Idle) else None
     | c_unlock_shared \<Rightarrow> if p = Reading then Some (b - Reader, Notify Idle) else None
     | c_unlock_upgrade \<Rightarrow> if p = Upgrading then Some (b - Upgraded, Notify Idle) else None
     | c_unlock_and_lock_shared \<Rightarrow> if p = Writing then Some (b + Reader, AddedReader) else None
     | c_unlock_and_lock_upgrade \<Rightarrow> if p = Writing then Some (b OR Upgraded, SetUpgraded) else None
     | c_unlock_upgrade_and_lock \<Rightarrow> if p = Upgrading then Some (b, Attempt True KUpgradeToLock) else None
     | c_unlock_upgrade_and_lock_shared \<Rightarrow>
         if p = Upgrading then Some (b + (Reader - Upgraded), Notify Reading) else None)"

text \<open>The next step of an operation under way; the flag makes a weak exchange fail spuriously.\<close>

fun continue_call :: "bool \<Rightarrow> pc \<Rightarrow> u8 \<Rightarrow> (u8 \<times> pc) option" where
  "continue_call spurious (Attempt blocking KLock) b =
     (let (r, b') = InternalTryLock 0 spurious b in Some (b', lock_result KLock blocking r))"
| "continue_call spurious (Attempt blocking KUpgradeToLock) b =
     (let (r, b') = InternalTryLock Upgraded spurious b in Some (b', lock_result KUpgradeToLock blocking r))"
| "continue_call spurious (Attempt blocking KUpgrade) b =
     (let (r, b') = InternalTryLockUpgrade b in Some (b', lock_result KUpgrade blocking r))"
| "continue_call spurious (Attempt blocking KShared) b =
     (let (closed, b') = InternalTryLockShared_add b in
      Some (b', if closed then BackOff blocking else granted KShared))"
| "continue_call spurious (BackOff blocking) b =
     (let (r, b') = InternalTryLockShared_back b in Some (b', lock_result KShared blocking r))"
| "continue_call spurious (Waiting k v) b = Some (b, if b = v then Asleep k v else Attempt True k)"
| "continue_call spurious AddedReader b = Some (unlock_bits b, Notify Reading)"
| "continue_call spurious SetUpgraded b = Some (b - Writer, Notify Upgrading)"
| "continue_call spurious (Notify p) b = Some (b, p)"
| "continue_call spurious _ b = None"

section \<open>The lock with its threads\<close>

record mutex =
  mbits :: u8
  mpcs :: "pc list"

definition mutex_init :: "nat \<Rightarrow> mutex" where
  "mutex_init n = \<lparr> mbits = 0, mpcs = replicate n Idle \<rparr>"

fun wake :: "pc \<Rightarrow> pc" where
  "wake (Asleep k v) = Waiting k v"
| "wake p = p"

fun notifies :: "pc \<Rightarrow> bool" where
  "notifies (Notify p) = True"
| "notifies _ = False"

datatype choice = Call lock_call | Continue bool

definition local_step :: "choice \<Rightarrow> pc \<Rightarrow> u8 \<Rightarrow> (u8 \<times> pc) option" where
  "local_step ch p b = (case ch of Call c \<Rightarrow> start_call c p b | Continue sp \<Rightarrow> continue_call sp p b)"

definition mutex_step :: "nat \<Rightarrow> choice \<Rightarrow> mutex \<Rightarrow> mutex option" where
  "mutex_step t ch s =
     (if t < length (mpcs s)
      then (case local_step ch (mpcs s ! t) (mbits s) of
              None \<Rightarrow> None
            | Some (b, p) \<Rightarrow>
                (let ps = (mpcs s)[t := p] in
                 Some \<lparr> mbits = b, mpcs = (if notifies (mpcs s ! t) then map wake ps else ps) \<rparr>))
      else None)"

fun mutex_run :: "(nat \<times> choice) list \<Rightarrow> mutex \<Rightarrow> mutex option" where
  "mutex_run [] s = Some s"
| "mutex_run ((t, ch) # rest) s = (case mutex_step t ch s of None \<Rightarrow> None | Some s' \<Rightarrow> mutex_run rest s')"

text \<open>What a thread owns: a reader unit in the byte, read access, the writer bit, the upgrade.\<close>

fun counts_reader :: "pc \<Rightarrow> bool" where
  "counts_reader Reading = True"
| "counts_reader (BackOff _) = True"
| "counts_reader AddedReader = True"
| "counts_reader (Notify p) = counts_reader p"
| "counts_reader _ = False"

fun has_read :: "pc \<Rightarrow> bool" where
  "has_read Reading = True"
| "has_read (Notify p) = has_read p"
| "has_read _ = False"

fun has_write :: "pc \<Rightarrow> bool" where
  "has_write Writing = True"
| "has_write AddedReader = True"
| "has_write SetUpgraded = True"
| "has_write (Notify p) = has_write p"
| "has_write _ = False"

fun has_upgrade :: "pc \<Rightarrow> bool" where
  "has_upgrade Upgrading = True"
| "has_upgrade (Attempt _ KUpgradeToLock) = True"
| "has_upgrade (Waiting KUpgradeToLock _) = True"
| "has_upgrade (Asleep KUpgradeToLock _) = True"
| "has_upgrade (Notify p) = has_upgrade p"
| "has_upgrade _ = False"

fun set_upgraded :: "pc \<Rightarrow> bool" where
  "set_upgraded SetUpgraded = True"
| "set_upgraded (Notify p) = set_upgraded p"
| "set_upgraded _ = False"

definition count :: "(pc \<Rightarrow> bool) \<Rightarrow> mutex \<Rightarrow> nat" where
  "count P s = length (filter P (mpcs s))"

section \<open>Arithmetic of the byte\<close>

lemma owner_mask: "Writer OR Upgraded = 3" "Upgraded OR Writer = 3"
  by (simp_all add: Writer_def Upgraded_def)

lemma unat_consts [simp]: "unat Reader = 4" "unat Upgraded = 2" "unat Writer = 1" "Reader - Upgraded = Upgraded"
  by (simp_all add: Reader_def Upgraded_def Writer_def)

lemma unat_or_upgraded: "unat (b OR Upgraded) = unat b + (if odd (unat b div 2) then 0 else 2)"
  unfolding Upgraded_def by (rule unat_or_2)

lemma unat_unlock_bits: "unat (unlock_bits b) = unat b - unat b mod 4"
  unfolding unlock_bits_def owner_mask by (rule unat_and_not_3)

lemma and_owner_bits:
  "b AND (Writer OR Upgraded) = 0 \<longleftrightarrow> unat b mod 4 = 0"
  "b AND (Upgraded OR Writer) = 0 \<longleftrightarrow> unat b mod 4 = 0"
  unfolding owner_mask by (rule and_3_eq_0)+

lemmas byte_simps = unat_or_upgraded unat_unlock_bits and_owner_bits unat_add_byte unat_sub_byte

section \<open>The invariant\<close>

text \<open>
  The byte is four times the reader units, plus the upgrade bit, plus the number of writers. Readers
  are excluded by a writer, an upgrader and a writer exclude each other, and a stray upgrade bit (left by a
  failed \<open>try_lock_upgrade\<close>) exists only while somebody owns the lock.
\<close>

definition lock_numbers :: "nat \<Rightarrow> nat \<Rightarrow> nat \<Rightarrow> nat \<Rightarrow> nat \<Rightarrow> u8 \<Rightarrow> bool" where
  "lock_numbers r a w u x b \<longleftrightarrow> w + u \<le> 1 \<and> (w = 1 \<longrightarrow> a = 0)
     \<and> (unat b = 4 * r + w \<and> u = 0 \<and> x = 0 \<or> unat b = 4 * r + 2 + w \<and> w + u = 1)"

definition one :: "bool \<Rightarrow> nat" where
  "one c = (if c then 1 else 0)"

lemma one_simps [simp]: "one True = 1" "one False = 0"
  by (simp_all add: one_def)

definition with_thread :: "nat \<Rightarrow> nat \<Rightarrow> nat \<Rightarrow> nat \<Rightarrow> nat \<Rightarrow> pc \<Rightarrow> u8 \<Rightarrow> bool" where
  "with_thread r a w u x p b \<longleftrightarrow> lock_numbers (r + one (counts_reader p)) (a + one (has_read p))
     (w + one (has_write p)) (u + one (has_upgrade p)) (x + one (set_upgraded p)) b"

lemma has_read_counts: "has_read p \<Longrightarrow> counts_reader p"
  by (induction p) auto

lemma set_upgraded_write: "set_upgraded p \<Longrightarrow> has_write p"
  by (induction p) auto

text \<open>One thread makes a step while the others keep what they own.\<close>

lemmas numbers_simps = with_thread_def lock_numbers_def byte_simps

lemma start_call_numbers:
  assumes "with_thread r a w u x p b" "r \<le> 62" "x \<le> w" "a \<le> r" "start_call c p b = Some (b', p')"
  shows "with_thread r a w u x p' b'"
proof (cases c)
qed (use assms in \<open>auto simp: start_call_def numbers_simps split: if_splits\<close>)

lemma plain_byte:
  assumes "unat b = 4 * r + w" "w \<le> 1"
  shows "unat b mod 4 = w" "unat (b OR Upgraded) = 4 * r + 2 + w"
  using assms by (auto simp: unat_or_upgraded le_Suc_eq)

lemma marked_byte:
  assumes "unat b = 4 * r + 2 + w" "w \<le> 1"
  shows "unat b mod 4 = 2 + w" "unat (b OR Upgraded) = 4 * r + 2 + w"
proof -
  have "unat b div 2 = 2 * r + 1" using assms by (cases "w = 0") auto
  then have "odd (unat b div 2)" by simp
  then show "unat (b OR Upgraded) = 4 * r + 2 + w" using assms by (simp add: unat_or_upgraded)
  show "unat b mod 4 = 2 + w" using assms by presburger
qed

lemma attempt_upgrade_numbers:
  assumes "with_thread r a w u x (Attempt bl KUpgrade) b"
    "continue_call sp (Attempt bl KUpgrade) b = Some (b', p')"
  shows "with_thread r a w u x p' b'"
proof -
  have l: "lock_numbers r a w u x b" using assms(1) by (simp add: with_thread_def)
  have b': "b' = b OR Upgraded"
    and p': "p' = (if unat b mod 4 = 0 then Upgrading else if bl then Waiting KUpgrade b else Idle)"
    using assms(2) by (auto simp: InternalTryLockUpgrade_def lock_result_def and_owner_bits)
  have w: "w + u \<le> 1" "w = 1 \<longrightarrow> a = 0" using l by (simp_all add: lock_numbers_def)
  consider "unat b = 4 * r + w" "u = 0" "x = 0" | "unat b = 4 * r + 2 + w" "w + u = 1"
    using l by (auto simp: lock_numbers_def)
  then show ?thesis
  proof cases
    case 1
    note m = plain_byte [OF 1(1)]
    show ?thesis
      by (cases bl; cases "w = 0") (use 1 w m b' p' in \<open>auto simp: with_thread_def lock_numbers_def\<close>)
  next
    case 2
    note m = marked_byte [OF 2(1)]
    show ?thesis
      by (cases bl) (use 2 w m b' p' in \<open>auto simp: with_thread_def lock_numbers_def\<close>)
  qed
qed

lemma attempt_numbers:
  assumes "with_thread r a w u x (Attempt bl k) b" "r \<le> 62" "x \<le> w" "a \<le> r"
    "continue_call sp (Attempt bl k) b = Some (b', p')"
  shows "with_thread r a w u x p' b'"
proof (cases k)
  case KLock
  then show ?thesis using assms
    by (cases "b = 0 \<and> \<not> sp"; cases bl) (auto simp: InternalTryLock_def lock_result_def numbers_simps)
next
  case KUpgradeToLock
  then show ?thesis using assms
    by (cases "b = Upgraded \<and> \<not> sp"; cases bl) (auto simp: InternalTryLock_def lock_result_def numbers_simps)
next
  case KShared
  then show ?thesis using assms
    by (cases "unat b mod 4 = 0"; cases bl)
      (auto simp: InternalTryLockShared_add_def numbers_simps, presburger+)
next
  case KUpgrade
  then show ?thesis using attempt_upgrade_numbers assms(1,5) by blast
qed

lemma continue_call_numbers:
  assumes "with_thread r a w u x p b" "r \<le> 62" "x \<le> w" "a \<le> r" "continue_call sp p b = Some (b', p')"
  shows "with_thread r a w u x p' b'"
proof (cases p)
  case (Attempt bl k)
  then show ?thesis using attempt_numbers assms by blast
next
  case (BackOff bl)
  then show ?thesis using assms
    by (cases bl) (auto simp: InternalTryLockShared_back_def lock_result_def numbers_simps)
next
  case (Waiting k v)
  then show ?thesis using assms by (cases k; cases "b = v") (auto simp: with_thread_def)
next
  case (Notify q)
  then show ?thesis using assms by (auto simp: with_thread_def)
qed (use assms in \<open>auto simp: numbers_simps\<close>)

lemma local_step_numbers:
  assumes "with_thread r a w u x p b" "r \<le> 62" "x \<le> w" "a \<le> r" "local_step ch p b = Some (b', p')"
  shows "with_thread r a w u x p' b'"
  using start_call_numbers [OF assms(1-4)] continue_call_numbers [OF assms(1-4)] assms(5)
  by (cases ch) (simp_all add: local_step_def)

definition mutex_inv :: "nat \<Rightarrow> mutex \<Rightarrow> bool" where
  "mutex_inv n s \<longleftrightarrow> length (mpcs s) = n
     \<and> lock_numbers (count counts_reader s) (count has_read s) (count has_write s)
         (count has_upgrade s) (count set_upgraded s) (mbits s)"

text \<open>The counts of the other threads, and the counts of all as theirs plus this thread's.\<close>

definition others :: "(pc \<Rightarrow> bool) \<Rightarrow> nat \<Rightarrow> pc list \<Rightarrow> nat" where
  "others P t ps = length (filter P ps) - one (P (ps ! t))"

lemma others_add: "t < length ps \<Longrightarrow> length (filter P ps) = others P t ps + one (P (ps ! t))"
  using filter_length_pos [of t ps P] by (auto simp: others_def one_def)

lemma others_update: "t < length ps \<Longrightarrow> length (filter P (ps[t := p])) = others P t ps + one (P p)"
  using filter_update_length [of t ps P p] others_add [of t ps P] by (auto simp: one_def split: if_splits)

lemma others_card: "t < length ps \<Longrightarrow> others P t ps = card {i. i < length ps \<and> i \<noteq> t \<and> P (ps ! i)}"
proof -
  assume t: "t < length ps"
  let ?A = "{i. i < length ps \<and> P (ps ! i)}"
  have "{i. i < length ps \<and> i \<noteq> t \<and> P (ps ! i)} = ?A - {t}" by auto
  then show ?thesis using t by (auto simp: others_def length_filter_conv_card one_def)
qed

lemma others_mono:
  assumes "\<And>p. P p \<Longrightarrow> Q p" "t < length ps"
  shows "others P t ps \<le> others Q t ps"
  unfolding others_card [OF assms(2)] by (rule card_mono) (auto intro: assms(1))

lemma others_bound: "t < length ps \<Longrightarrow> others P t ps < length ps"
proof -
  assume t: "t < length ps"
  have "card {i. i < length ps \<and> i \<noteq> t \<and> P (ps ! i)} \<le> card ({..<length ps} - {t})"
    by (rule card_mono) auto
  then show ?thesis using t by (simp add: others_card)
qed

lemma wake_classes [simp]:
  "counts_reader (wake p) = counts_reader p" "has_read (wake p) = has_read p"
  "has_write (wake p) = has_write p" "has_upgrade (wake p) = has_upgrade p"
  "set_upgraded (wake p) = set_upgraded p"
proof -
  show "has_upgrade (wake p) = has_upgrade p" by (cases p rule: wake.cases; simp) (metis has_upgrade.simps lock_kind.exhaust)
qed (cases p; simp)+

lemma wake_comp [simp]:
  "counts_reader \<circ> wake = counts_reader" "has_read \<circ> wake = has_read" "has_write \<circ> wake = has_write"
  "has_upgrade \<circ> wake = has_upgrade" "set_upgraded \<circ> wake = set_upgraded"
  by (rule ext; simp)+

section \<open>Reachable states\<close>

inductive mutex_reachable :: "nat \<Rightarrow> mutex \<Rightarrow> bool" for n where
  start: "mutex_reachable n (mutex_init n)"
| step: "mutex_reachable n s \<Longrightarrow> mutex_step t ch s = Some s' \<Longrightarrow> mutex_reachable n s'"

lemma mutex_step_cases:
  assumes "mutex_step t ch s = Some s'"
  obtains b p where "t < length (mpcs s)" "local_step ch (mpcs s ! t) (mbits s) = Some (b, p)"
    "mbits s' = b" "mpcs s' = (if notifies (mpcs s ! t) then map wake ((mpcs s)[t := p]) else (mpcs s)[t := p])"
  using assms by (auto simp: mutex_step_def Let_def split: if_splits option.splits)

lemma mutex_run_reachable: "mutex_reachable n s \<Longrightarrow> mutex_run cs s = Some s' \<Longrightarrow> mutex_reachable n s'"
  by (induction cs s rule: mutex_run.induct) (auto split: option.splits intro: step)

lemma mutex_inv_init: "mutex_inv n (mutex_init n)"
  by (simp add: mutex_inv_def mutex_init_def count_def lock_numbers_def filter_replicate)

lemma mutex_inv_with_thread:
  assumes "mutex_inv n s" "t < n"
  shows "with_thread (others counts_reader t (mpcs s)) (others has_read t (mpcs s)) (others has_write t (mpcs s))
    (others has_upgrade t (mpcs s)) (others set_upgraded t (mpcs s)) (mpcs s ! t) (mbits s)"
proof -
  have t: "t < length (mpcs s)" using assms by (simp add: mutex_inv_def)
  show ?thesis using assms(1) by (simp add: mutex_inv_def with_thread_def count_def others_add [OF t])
qed

lemma mutex_inv_step:
  assumes inv: "mutex_inv n s" and n: "n \<le> 63" and st: "mutex_step t ch s = Some s'"
  shows "mutex_inv n s'"
proof -
  obtain b p where t: "t < length (mpcs s)" and l: "local_step ch (mpcs s ! t) (mbits s) = Some (b, p)"
    and s': "mbits s' = b" "mpcs s' = (if notifies (mpcs s ! t) then map wake ((mpcs s)[t := p]) else (mpcs s)[t := p])"
    using st by (rule mutex_step_cases)
  have tn: "t < n" and len: "length (mpcs s) = n" using t inv by (simp_all add: mutex_inv_def)
  have "others counts_reader t (mpcs s) \<le> 62" using others_bound [OF t, of counts_reader] len n by simp
  then have "with_thread (others counts_reader t (mpcs s)) (others has_read t (mpcs s)) (others has_write t (mpcs s))
    (others has_upgrade t (mpcs s)) (others set_upgraded t (mpcs s)) p b"
    by (rule local_step_numbers [OF mutex_inv_with_thread [OF inv tn] _ _ _ l])
      (simp_all add: others_mono [OF set_upgraded_write t] others_mono [OF has_read_counts t])
  then show ?thesis
    using t len s' by (simp add: mutex_inv_def with_thread_def count_def others_update filter_map)
qed

lemma mutex_reachable_inv: "mutex_reachable n s \<Longrightarrow> n \<le> 63 \<Longrightarrow> mutex_inv n s"
  by (induction rule: mutex_reachable.induct) (auto intro: mutex_inv_init mutex_inv_step)

text \<open>Reading the exclusion off the numbers.\<close>

lemma count_le_1_unique:
  assumes "count P s \<le> 1" "i < length (mpcs s)" "j < length (mpcs s)" "P (mpcs s ! i)" "P (mpcs s ! j)"
  shows "i = j"
  using filter_length_two [of i "mpcs s" j P] assms by (auto simp: count_def)

lemma count_0_none: "count P s = 0 \<Longrightarrow> i < length (mpcs s) \<Longrightarrow> \<not> P (mpcs s ! i)"
  by (auto simp: count_def filter_empty_conv)

lemma count_pos: "i < length (mpcs s) \<Longrightarrow> P (mpcs s ! i) \<Longrightarrow> 1 \<le> count P s"
  using filter_length_pos [of i "mpcs s" P] unfolding count_def by linarith

section \<open>The abstract lock\<close>

text \<open>A reader/upgrader/writer lock as its contract: the role of each thread, and which changes of
  role the other threads' roles permit.\<close>

datatype role = No_Access | Read_Access | Upgrade_Access | Write_Access

fun role_of :: "pc \<Rightarrow> role" where
  "role_of p = (if has_write p then Write_Access else if has_upgrade p then Upgrade_Access
                else if has_read p then Read_Access else No_Access)"

definition permits :: "role \<Rightarrow> role \<Rightarrow> role list \<Rightarrow> nat \<Rightarrow> bool" where
  "permits old new rs t = (let free = (\<lambda>bad. \<forall>i<length rs. i \<noteq> t \<longrightarrow> rs ! i \<notin> bad) in
     (case (old, new) of
        (No_Access, Read_Access) \<Rightarrow> free {Write_Access, Upgrade_Access}
      | (No_Access, Upgrade_Access) \<Rightarrow> free {Write_Access, Upgrade_Access}
      | (No_Access, Write_Access) \<Rightarrow> free {Write_Access, Upgrade_Access, Read_Access}
      | (Upgrade_Access, Write_Access) \<Rightarrow> free {Write_Access, Upgrade_Access, Read_Access}
      | (Read_Access, No_Access) \<Rightarrow> True
      | (Upgrade_Access, No_Access) \<Rightarrow> True
      | (Upgrade_Access, Read_Access) \<Rightarrow> True
      | (Write_Access, _) \<Rightarrow> True
      | (a, b) \<Rightarrow> a = b))"

definition rw_step :: "role list \<Rightarrow> role list \<Rightarrow> bool" where
  "rw_step rs rs' \<longleftrightarrow> (\<exists>t r. t < length rs \<and> rs' = rs[t := r] \<and> permits (rs ! t) r rs t)"

definition roles :: "mutex \<Rightarrow> role list" where
  "roles s = map role_of (mpcs s)"

lemma local_step_role:
  assumes "local_step ch p b = Some (b', p')"
  shows "role_of p' = role_of p \<or> role_of p = Write_Access \<or> role_of p' = No_Access
    \<or> role_of p = Upgrade_Access \<and> role_of p' = Read_Access
    \<or> role_of p = No_Access \<and> role_of p' \<in> {Read_Access, Upgrade_Access} \<and> unat b mod 4 = 0
    \<or> role_of p = No_Access \<and> role_of p' = Write_Access \<and> b = 0
    \<or> role_of p = Upgrade_Access \<and> role_of p' = Write_Access \<and> b = Upgraded"
proof (cases ch)
  case (Call c)
  then show ?thesis using assms
    by (cases c) (auto simp: local_step_def start_call_def split: if_splits)
next
  case (Continue sp)
  then have c: "continue_call sp p b = Some (b', p')" using assms by (simp add: local_step_def)
  show ?thesis
  proof (cases p)
    case (Attempt bl k)
    then show ?thesis using c
      by (cases k; cases bl)
        (auto simp: InternalTryLock_def InternalTryLockUpgrade_def InternalTryLockShared_add_def
          lock_result_def and_owner_bits split: if_splits)
  next
    case (BackOff bl)
    then show ?thesis using c
      by (cases bl) (auto simp: InternalTryLockShared_back_def lock_result_def)
  next
    case (Waiting k v)
    then show ?thesis using c by (cases k; cases "b = v") auto
  qed (use c in auto)
qed

lemma role_of_wake [simp]: "role_of (wake p) = role_of p"
  by simp

lemma mutex_inv_exclusive:
  assumes "mutex_inv n s"
  shows "count has_write s + count has_upgrade s \<le> 1" "count has_write s = 1 \<longrightarrow> count has_read s = 0"
    and "unat (mbits s) mod 4 = 0 \<Longrightarrow> count has_write s = 0 \<and> count has_upgrade s = 0"
    and "unat (mbits s) < 4 \<Longrightarrow> count counts_reader s = 0"
    and "mbits s = Upgraded \<Longrightarrow> count has_write s = 0"
proof -
  have l: "lock_numbers (count counts_reader s) (count has_read s) (count has_write s)
    (count has_upgrade s) (count set_upgraded s) (mbits s)" using assms by (simp add: mutex_inv_def)
  then show "count has_write s + count has_upgrade s \<le> 1" "count has_write s = 1 \<longrightarrow> count has_read s = 0"
    by (simp_all add: lock_numbers_def)
  show "count has_write s = 0 \<and> count has_upgrade s = 0" if "unat (mbits s) mod 4 = 0"
    using l that unfolding lock_numbers_def by presburger
  show "count counts_reader s = 0" if "unat (mbits s) < 4"
    using l that by (auto simp: lock_numbers_def)
  show "count has_write s = 0" if "mbits s = Upgraded"
    using l that unfolding lock_numbers_def by simp presburger
qed

lemma no_role:
  assumes "count has_write s = 0" "i < length (mpcs s)"
  shows "role_of (mpcs s ! i) \<noteq> Write_Access"
    and "count has_upgrade s = 0 \<Longrightarrow> role_of (mpcs s ! i) \<noteq> Upgrade_Access"
    and "count has_read s = 0 \<Longrightarrow> role_of (mpcs s ! i) \<noteq> Read_Access"
  using assms by (auto dest: count_0_none)

lemma permits_of_local_step:
  assumes inv: "mutex_inv n s" and t: "t < length (mpcs s)"
    and l: "local_step ch (mpcs s ! t) (mbits s) = Some (b, p)"
    and ne: "role_of p \<noteq> role_of (mpcs s ! t)"
  shows "permits (role_of (mpcs s ! t)) (role_of p) (roles s) t"
proof -
  let ?old = "role_of (mpcs s ! t)"
  note ex = mutex_inv_exclusive [OF inv]
  have len: "length (roles s) = length (mpcs s)" and nth: "\<And>i. i < length (mpcs s) \<Longrightarrow> roles s ! i = role_of (mpcs s ! i)"
    by (simp_all add: roles_def del: role_of.simps)
  have reads: "count has_read s = 0" if "count counts_reader s = 0"
    using that by (auto simp: count_def filter_empty_conv dest: has_read_counts)
  consider (release) "?old = Write_Access \<or> role_of p = No_Access \<or> ?old = Upgrade_Access \<and> role_of p = Read_Access"
    | (acquire) "?old = No_Access" "role_of p \<in> {Read_Access, Upgrade_Access}" "unat (mbits s) mod 4 = 0"
    | (lock) "?old = No_Access" "role_of p = Write_Access" "mbits s = 0"
    | (promote) "?old = Upgrade_Access" "role_of p = Write_Access" "mbits s = Upgraded"
    using local_step_role [OF l] ne by argo
  then show ?thesis
  proof cases
    case release
    then show ?thesis using ne by (auto simp: permits_def simp del: role_of.simps split: role.splits)
  next
    case acquire
    then have "count has_write s = 0" "count has_upgrade s = 0" using ex(3) by auto
    then show ?thesis using acquire nth len no_role
      by (auto simp: permits_def simp del: role_of.simps)
  next
    case lock
    then have "count has_write s = 0" "count has_upgrade s = 0" "count counts_reader s = 0" using ex(3,4) by auto
    then show ?thesis using lock nth len no_role reads
      by (auto simp: permits_def simp del: role_of.simps)
  next
    case promote
    then have z: "count has_write s = 0" "count counts_reader s = 0" using ex(4,5) by auto
    have self: "has_upgrade (mpcs s ! t)" using promote(1) by (auto split: if_splits)
    have "role_of (mpcs s ! i) \<noteq> Upgrade_Access" if "i < length (mpcs s)" "i \<noteq> t" for i
      using count_le_1_unique [of has_upgrade s i t] ex(1) self that t by auto
    then show ?thesis using promote nth len no_role [OF z(1)] reads [OF z(2)]
      by (auto simp: permits_def simp del: role_of.simps)
  qed
qed

lemma mutex_step_refines:
  assumes inv: "mutex_inv n s" and st: "mutex_step t ch s = Some s'"
  shows "roles s' = roles s \<or> rw_step (roles s) (roles s')"
proof -
  obtain b p where t: "t < length (mpcs s)" and l: "local_step ch (mpcs s ! t) (mbits s) = Some (b, p)"
    and s': "mbits s' = b" "mpcs s' = (if notifies (mpcs s ! t) then map wake ((mpcs s)[t := p]) else (mpcs s)[t := p])"
    using st by (rule mutex_step_cases)
  have r: "roles s' = (roles s)[t := role_of p]"
    using s' by (simp add: roles_def map_update comp_def del: role_of.simps)
  have tr: "t < length (roles s)" "roles s ! t = role_of (mpcs s ! t)"
    using t by (simp_all add: roles_def del: role_of.simps)
  show ?thesis
  proof (cases "role_of p = role_of (mpcs s ! t)")
    case True
    then have "roles s' = roles s" using r tr by (metis list_update_id)
    then show ?thesis by blast
  next
    case False
    have "permits (role_of (mpcs s ! t)) (role_of p) (roles s) t"
      using permits_of_local_step [OF inv t l] False by blast
    then have "rw_step (roles s) ((roles s)[t := role_of p])" unfolding rw_step_def
      using tr by (intro exI [of _ t] exI [of _ "role_of p"]) (simp del: role_of.simps)
    then show ?thesis using r by simp
  qed
qed

section \<open>A sleeper nobody wakes\<close>

text \<open>While the upgrade bit stays set and nobody is about to notify, no thread can acquire anything,
  so no thread ever notifies.\<close>

fun bystander :: "pc \<Rightarrow> bool" where
  "bystander Idle = True"
| "bystander (Attempt _ k) = (k \<noteq> KUpgradeToLock)"
| "bystander (BackOff _) = True"
| "bystander (Waiting k _) = (k \<noteq> KUpgradeToLock)"
| "bystander (Asleep k _) = (k \<noteq> KUpgradeToLock)"
| "bystander _ = False"

definition upgrade_marked :: "u8 \<Rightarrow> bool" where
  "upgrade_marked b \<longleftrightarrow> unat b mod 4 = 2"

definition stranded :: "nat \<Rightarrow> u8 \<Rightarrow> mutex \<Rightarrow> bool" where
  "stranded t v s \<longleftrightarrow> t < length (mpcs s) \<and> mpcs s ! t = Asleep KUpgradeToLock v
     \<and> upgrade_marked (mbits s) \<and> (\<forall>i<length (mpcs s). i \<noteq> t \<longrightarrow> bystander (mpcs s ! i))"

lemma unat_byte_mod_4:
  "unat (b + Reader) mod 4 = unat b mod 4" "unat (b - Reader) mod 4 = unat b mod 4"
proof -
  have m: "unat (x mod 4) = unat x mod 4" for x :: u8 by (simp add: unat_mod)
  show "unat (b + Reader) mod 4 = unat b mod 4"
    by (simp add: Reader_def unat_word_ariths mod_mod_cancel)
  have "unat b = (unat (b - Reader) + 4) mod 256"
    using unat_word_ariths(1) [of "b - Reader" Reader] by simp
  then show "unat (b - Reader) mod 4 = unat b mod 4"
    by (simp add: mod_mod_cancel)
qed

lemma upgrade_marked_kept:
  assumes "upgrade_marked b"
  shows "b \<noteq> 0" "b AND (Writer OR Upgraded) \<noteq> 0" "b AND (Upgraded OR Writer) \<noteq> 0"
    "upgrade_marked (b + Reader)" "upgrade_marked (b - Reader)" "upgrade_marked (b OR Upgraded)"
proof -
  have m: "unat b mod 4 = 2" using assms by (simp add: upgrade_marked_def)
  then show "b \<noteq> 0" by auto
  show "b AND (Writer OR Upgraded) \<noteq> 0" "b AND (Upgraded OR Writer) \<noteq> 0"
    using m by (simp_all add: and_owner_bits)
  show "upgrade_marked (b + Reader)" "upgrade_marked (b - Reader)"
    unfolding upgrade_marked_def by (simp_all only: unat_byte_mod_4 m)
  have "odd (unat b div 2)" using m by presburger
  then show "upgrade_marked (b OR Upgraded)" using m by (simp add: upgrade_marked_def unat_or_upgraded)
qed

lemma bystander_step:
  assumes "bystander p" "upgrade_marked b" "local_step ch p b = Some (b', p')"
  shows "bystander p' \<and> upgrade_marked b' \<and> \<not> notifies p"
proof (cases ch)
  case (Call c)
  then show ?thesis using assms
    by (cases c) (auto simp: local_step_def start_call_def split: if_splits)
next
  case (Continue sp)
  then have c: "continue_call sp p b = Some (b', p')" using assms by (simp add: local_step_def)
  show ?thesis
  proof (cases p)
    case (Attempt bl k)
    then show ?thesis using c assms(1,2) upgrade_marked_kept [OF assms(2)]
      by (cases k; cases bl)
        (auto simp: InternalTryLock_def InternalTryLockUpgrade_def InternalTryLockShared_add_def lock_result_def)
  next
    case (BackOff bl)
    then show ?thesis using c upgrade_marked_kept [OF assms(2)]
      by (cases bl) (auto simp: InternalTryLockShared_back_def lock_result_def)
  next
    case (Waiting k v)
    then show ?thesis using c assms(1,2) by (cases "b = v") auto
  qed (use c assms(1) in auto)
qed

lemma stranded_step:
  assumes st: "stranded t v s" and step: "mutex_step i ch s = Some s'"
  shows "stranded t v s'"
proof -
  obtain b p where i: "i < length (mpcs s)" and l: "local_step ch (mpcs s ! i) (mbits s) = Some (b, p)"
    and s': "mbits s' = b" "mpcs s' = (if notifies (mpcs s ! i) then map wake ((mpcs s)[i := p]) else (mpcs s)[i := p])"
    using step by (rule mutex_step_cases)
  have "i \<noteq> t"
  proof
    assume "i = t"
    then have "local_step ch (Asleep KUpgradeToLock v) (mbits s) = Some (b, p)"
      using st l by (simp add: stranded_def)
    then show False
      by (cases ch) (auto simp: local_step_def start_call_def split: lock_call.splits)
  qed
  then have "bystander (mpcs s ! i)" using st i by (simp add: stranded_def)
  moreover have "upgrade_marked (mbits s)" using st by (simp add: stranded_def)
  ultimately have "bystander p" "upgrade_marked b" "\<not> notifies (mpcs s ! i)"
    using bystander_step l by blast+
  then show ?thesis using st s' \<open>i \<noteq> t\<close> i by (auto simp: stranded_def nth_list_update)
qed

lemma stranded_run: "stranded t v s \<Longrightarrow> mutex_run cs s = Some s' \<Longrightarrow> stranded t v s'"
  by (induction cs s rule: mutex_run.induct) (auto split: option.splits dest: stranded_step)

section \<open>Properties\<close>

text \<open>C4: Mutual exclusion under every interleaving: with at most 63 threads, in every reachable
  state no two threads have write access, no two have upgrade access, a thread with write access
  excludes every reader and upgrader, and the byte is zero again when nobody is inside an operation.\<close>

theorem mutex_exclusion:
  assumes "mutex_reachable n s" "n \<le> 63" "i < n" "j < n" "i \<noteq> j"
  shows "(has_write (mpcs s ! i) \<longrightarrow>
      \<not> has_write (mpcs s ! j) \<and> \<not> has_read (mpcs s ! j) \<and> \<not> has_upgrade (mpcs s ! j))
    \<and> (has_upgrade (mpcs s ! i) \<longrightarrow> \<not> has_upgrade (mpcs s ! j))
    \<and> ((\<forall>t<n. mpcs s ! t = Idle) \<longrightarrow> mbits s = 0)"
proof (intro conjI impI)
  have inv: "mutex_inv n s" using mutex_reachable_inv assms(1,2) .
  then have len: "length (mpcs s) = n" by (simp add: mutex_inv_def)
  note ex = mutex_inv_exclusive(1,2) [OF inv]
  assume w: "has_write (mpcs s ! i)"
  note c = count_pos [of i s has_write, OF _ w] ex count_0_none [of has_upgrade s j]
    count_0_none [of has_read s j] count_le_1_unique [of has_write s i j, OF _ _ _ w]
  show "\<not> has_write (mpcs s ! j)" "\<not> has_read (mpcs s ! j)" "\<not> has_upgrade (mpcs s ! j)"
    using c assms(3-5) len by auto
next
  have inv: "mutex_inv n s" using mutex_reachable_inv assms(1,2) .
  assume u: "has_upgrade (mpcs s ! i)"
  then show "\<not> has_upgrade (mpcs s ! j)"
    using count_le_1_unique [of has_upgrade s i j, OF _ _ _ u] mutex_inv_exclusive(1) [OF inv] assms(3-5) inv
    by (auto simp: mutex_inv_def)
next
  have inv: "mutex_inv n s" using mutex_reachable_inv assms(1,2) .
  assume idle: "\<forall>t<n. mpcs s ! t = Idle"
  have "count P s = 0" if "\<not> P Idle" for P
    using idle inv that by (auto simp: mutex_inv_def count_def filter_empty_conv in_set_conv_nth)
  then have "unat (mbits s) = 0"
    using inv by (auto simp: mutex_inv_def lock_numbers_def)
  then show "mbits s = 0" by (simp add: word_unat_eq_iff)
qed

definition two_thread_trace :: "(nat \<times> choice) list" where
  "two_thread_trace = [(0, Call c_lock), (0, Continue False), (1, Call c_lock_shared), (1, Continue False)]"

theorem mutex_exclusion_witness:
  "\<exists>s. mutex_run two_thread_trace (mutex_init 2) = Some s \<and> has_write (mpcs s ! 0)
    \<and> \<not> has_write (mpcs s ! 1) \<and> \<not> has_read (mpcs s ! 1) \<and> \<not> has_upgrade (mpcs s ! 1)"
proof -
  have "mutex_run two_thread_trace (mutex_init 2) = Some \<lparr> mbits = 5, mpcs = [Writing, BackOff True] \<rparr>"
    by code_simp
  then obtain s where s: "mutex_run two_thread_trace (mutex_init 2) = Some s" "mpcs s = [Writing, BackOff True]"
    by simp
  have "mutex_reachable 2 s" by (rule mutex_run_reachable [OF start s(1)])
  then show ?thesis using mutex_exclusion [of 2 s 0 1] s by auto
qed

text \<open>C5: The byte-level lock refines the abstract reader/upgrader/writer lock: with at most 63 threads,
  every atomic step of a reachable state either leaves the roles of all threads alone or is one change of
  role that the abstract lock permits.\<close>

theorem mutex_refines_rw_lock:
  assumes "mutex_reachable n s" "n \<le> 63" "mutex_step t ch s = Some s'"
  shows "roles s' = roles s \<or> rw_step (roles s) (roles s')"
  by (rule mutex_step_refines [OF mutex_reachable_inv [OF assms(1,2)] assms(3)])

theorem mutex_refines_rw_lock_witness:
  "\<exists>s'. mutex_step 0 (Call c_lock) (mutex_init 2) = Some s'
    \<and> (roles s' = roles (mutex_init 2) \<or> rw_step (roles (mutex_init 2)) (roles s'))"
proof -
  obtain s' where "mutex_step 0 (Call c_lock) (mutex_init 2) = Some s'"
    by (simp add: mutex_step_def mutex_init_def local_step_def start_call_def)
  then show ?thesis using mutex_refines_rw_lock [OF start, of 2 0 "Call c_lock" s'] by auto
qed

definition lost_wakeup_trace :: "(nat \<times> choice) list" where
  "lost_wakeup_trace =
     [(0, Call c_lock_upgrade), (0, Continue False),
      (1, Call c_try_lock_shared), (1, Continue False),
      (0, Call c_unlock_upgrade_and_lock), (0, Continue False), (0, Continue False),
      (1, Continue False)]"

text \<open>A lost wakeup: two threads reach a state in which the upgrade owner sleeps inside
  \<open>unlock_upgrade_and_lock\<close> although the byte is exactly \<open>Upgraded\<close> and the exchange would succeed,
  because a failed \<open>try_lock_shared\<close> takes its reader unit back without notifying; and whatever
  the threads do from there, the owner stays asleep.\<close>

theorem mutex_lost_wakeup:
  "\<exists>s. mutex_run lost_wakeup_trace (mutex_init 2) = Some s
     \<and> mbits s = Upgraded \<and> mpcs s = [Asleep KUpgradeToLock 6, Idle]
     \<and> (\<forall>cs. case mutex_run cs s of None \<Rightarrow> True | Some s' \<Rightarrow> mpcs s' ! 0 = Asleep KUpgradeToLock 6)"
proof -
  have "mutex_run lost_wakeup_trace (mutex_init 2)
      = Some \<lparr> mbits = Upgraded, mpcs = [Asleep KUpgradeToLock 6, Idle] \<rparr>" by code_simp
  then obtain s where run: "mutex_run lost_wakeup_trace (mutex_init 2) = Some s"
    and sdef: "s = \<lparr> mbits = Upgraded, mpcs = [Asleep KUpgradeToLock 6, Idle] \<rparr>" by blast
  have s: "mutex_run lost_wakeup_trace (mutex_init 2) = Some s"
    "mbits s = Upgraded" "mpcs s = [Asleep KUpgradeToLock 6, Idle]" using run by (simp_all add: sdef)
  have str: "stranded 0 6 s" using s by (auto simp: stranded_def upgrade_marked_def nth_Cons')
  have asleep: "\<forall>cs. case mutex_run cs s of None \<Rightarrow> True | Some s' \<Rightarrow> mpcs s' ! 0 = Asleep KUpgradeToLock 6"
    using stranded_run [OF str] by (auto simp: stranded_def split: option.splits)
  show ?thesis by (intro exI [of _ s] conjI s asleep)
qed

definition readers_then_writer :: "nat \<Rightarrow> (nat \<times> choice) list" where
  "readers_then_writer n =
     concat (map (\<lambda>t. [(t, Call c_lock_shared), (t, Continue False)]) [0..<n])
     @ [(n, Call c_lock), (n, Continue False)]"

text \<open>The reader count has six bits: 64 readers bring the byte back to zero, and a writer then gets in
  beside all of them.\<close>

theorem mutex_reader_overflow:
  "\<exists>s. mutex_run (readers_then_writer 64) (mutex_init 65) = Some s
     \<and> count has_read s = 64 \<and> count has_write s = 1"
proof -
  have "(case mutex_run (readers_then_writer 64) (mutex_init 65) of
      None \<Rightarrow> False | Some s \<Rightarrow> count has_read s = 64 \<and> count has_write s = 1)" by code_simp
  then show ?thesis by (auto split: option.splits)
qed

text \<open>A weak exchange that fails spuriously puts the only thread to sleep on a free lock: the
  loop waits for the byte to change from the value the failed exchange returned, which is the expected value.\<close>

theorem mutex_spurious_failure:
  "\<exists>s. mutex_run [(0, Call c_lock), (0, Continue True), (0, Continue False)] (mutex_init 1) = Some s
     \<and> mbits s = 0 \<and> mpcs s = [Asleep KLock 0] \<and> (\<forall>t ch. mutex_step t ch s = None)"
proof -
  let ?s = "\<lparr> mbits = 0, mpcs = [Asleep KLock 0] \<rparr>"
  have "mutex_run [(0, Call c_lock), (0, Continue True), (0, Continue False)] (mutex_init 1) = Some ?s"
    by code_simp
  moreover have "mutex_step t ch ?s = None" for t ch
    by (cases ch) (auto simp: mutex_step_def local_step_def start_call_def split: lock_call.splits)
  ultimately show ?thesis by (intro exI [of _ ?s]) simp
qed

end
