(* ===== verification/Descriptor_Sets.thy ===== *)
theory Descriptor_Sets
imports Owned_Objects Descriptor_Properties Upgradable_Mutex
begin

text \<open>
  Descriptor set layouts, arrays of descriptor sets and update templates (\<open>rhi/descriptorset.h\<close>,
  \<open>rhi/vulkan/descriptorset.cpp\<close>), as classes that own
  device handles: each is an interpretation of the contract of \<open>Owned_Objects\<close>.
\<close>

section \<open>Set layouts\<close>

record set_layout_desc =
  sld_bindings :: "layout_binding list"
  sld_bindingFlags :: "u32 list"
  sld_variableNames :: "string list"
  sld_variableNameHashes :: "u64 list"
  sld_immutableSamplers :: "sampler_info list"
  sld_pushConstantRange :: "(u32 \<times> nat \<times> nat) option"
  sld_flags :: u32

definition set_layout_desc_default :: set_layout_desc where
  "set_layout_desc_default = \<lparr> sld_bindings = [], sld_bindingFlags = [], sld_variableNames = [], sld_variableNameHashes = [],
     sld_immutableSamplers = [], sld_pushConstantRange = None, sld_flags = 0 \<rparr>"

text \<open>The layout holds its samplers, objects of the same base, so its own base is a field.\<close>

record set_layout =
  sl_base :: device_object
  sl_desc :: set_layout_desc
  sl_handle :: nat
  sl_samplers :: sampler_vector
  sl_variables :: "u64 \<Rightarrow> (nat \<times> nat \<times> nat) option"

definition set_layout_default :: set_layout where
  "set_layout_default = \<lparr> sl_base = device_object_default, sl_desc = set_layout_desc_default, sl_handle = 0,
     sl_samplers = sampler_vector_default, sl_variables = Map.empty \<rparr>"

text \<open>Every binding points to the first sampler; a hash that occurs again keeps its first binding.\<close>

fun bind_variables :: "nat list \<Rightarrow> u64 list \<Rightarrow> layout_binding list \<Rightarrow> (u64 \<Rightarrow> (nat \<times> nat \<times> nat) option)
    \<Rightarrow> (layout_binding list \<times> (u64 \<Rightarrow> (nat \<times> nat \<times> nat) option)) res" where
  "bind_variables samplers hashes [] vars = Inr ([], vars)"
| "bind_variables samplers [] (b # bs) vars = Inl OutOfRange"
| "bind_variables samplers (h # hs) (b # bs) vars =
     bind_res (bind_variables samplers hs bs (if vars h = None then vars(h \<mapsto> (lb_binding b, lb_type b, lb_count b)) else vars))
       (\<lambda>(bs', vars'). Inr (b\<lparr> lb_immutableSamplers := samplers \<rparr> # bs', vars'))"

definition OBJECT_TYPE_DESCRIPTOR_SET_LAYOUT :: nat where "OBJECT_TYPE_DESCRIPTOR_SET_LAYOUT = 20"

definition DescriptorSetLayout_new :: "obj_env \<Rightarrow> nat \<Rightarrow> set_layout_desc \<Rightarrow> world \<Rightarrow> (set_layout \<times> world) res" where
  "DescriptorSetLayout_new e dev desc w =
     bind_res (SamplerVector_new e dev (sld_immutableSamplers desc) w) (\<lambda>(samplers, w1).
     bind_res (bind_variables (smp_handles samplers) (sld_variableNameHashes desc) (sld_bindings desc) Map.empty) (\<lambda>(bindings, vars).
     bind_res (ensure (length bindings = length (sld_bindingFlags desc))) (\<lambda>_.
     let (h, w2) = create_object e (SetLayoutInfo (sld_flags desc) bindings (sld_bindingFlags desc)) w1;
         (b, w3) = DeviceObject_named e dev ''_DescriptorSetLayout'' OBJECT_TYPE_DESCRIPTOR_SET_LAYOUT [h] w2
     in Inr (\<lparr> sl_base = b, sl_desc = desc\<lparr> sld_bindings := bindings \<rparr>, sl_handle = h,
               sl_samplers = samplers, sl_variables = vars \<rparr>, w3))))"

definition DescriptorSetLayout_assign :: "set_layout \<Rightarrow> set_layout \<Rightarrow> set_layout \<times> set_layout" where
  "DescriptorSetLayout_assign this other =
     (this\<lparr> sl_base := take_base (sl_base this) (sl_base other), sl_desc := sl_desc other, sl_handle := sl_handle other, sl_samplers := sl_samplers other,
        sl_variables := sl_variables other \<rparr>,
      other\<lparr> sl_base := left_base (sl_base this) (sl_base other), sl_desc := set_layout_desc_default, sl_handle := sl_handle this, sl_samplers := sl_samplers this,
        sl_variables := sl_variables this \<rparr>)"

definition DescriptorSetLayout_move :: "set_layout \<Rightarrow> set_layout \<times> set_layout" where
  "DescriptorSetLayout_move other = DescriptorSetLayout_assign set_layout_default other"

definition DescriptorSetLayout_Swap :: "set_layout \<Rightarrow> set_layout \<Rightarrow> set_layout \<times> set_layout" where
  "DescriptorSetLayout_Swap this rhs =
     (this\<lparr> sl_base := take_base (sl_base this) (sl_base rhs), sl_desc := sl_desc rhs, sl_handle := sl_handle rhs, sl_samplers := sl_samplers rhs,
        sl_variables := sl_variables rhs \<rparr>,
      rhs\<lparr> sl_base := take_base (sl_base rhs) (sl_base this), sl_desc := sl_desc this, sl_handle := sl_handle this, sl_samplers := sl_samplers this,
        sl_variables := sl_variables this \<rparr>)"

definition DescriptorSetLayout_destroy :: "obj_env \<Rightarrow> set_layout \<Rightarrow> world \<Rightarrow> world res" where
  "DescriptorSetLayout_destroy e l w =
     bind_res (if sl_handle l \<noteq> 0 then destroy_handles HSetLayout 0 (sl_base l) [sl_handle l] w else Inr w) (\<lambda>w1.
     bind_res (SamplerVector_destroy e (sl_samplers l) w1) (\<lambda>w2. Inr (DeviceObject_destroy e (sl_base l) w2)))"

definition GetShaderVariableBinding :: "set_layout \<Rightarrow> u64 \<Rightarrow> (nat \<times> nat \<times> nat) res" where
  "GetShaderVariableBinding l h = (case sl_variables l h of None \<Rightarrow> Inl OutOfRange | Some v \<Rightarrow> Inr v)"

section \<open>Arrays of sets\<close>

definition kDescriptorSetCount :: nat where "kDescriptorSetCount = 16"

text \<open>A default constructed array holds no sets here; its members are uninitialised in the source.\<close>

record set_array = device_object +
  sa_pool :: nat
  sa_sets :: "nat list"

definition set_array_default :: set_array where
  "set_array_default = \<lparr> do_device = None, do_name = [], do_uuid = 0, sa_pool = 0, sa_sets = [] \<rparr>"

definition OBJECT_TYPE_DESCRIPTOR_SET :: nat where "OBJECT_TYPE_DESCRIPTOR_SET = 23"

definition DescriptorSetArray_new :: "obj_env \<Rightarrow> nat \<Rightarrow> nat \<times> nat \<Rightarrow> world \<Rightarrow> (set_array \<times> world) res" where
  "DescriptorSetArray_new e dev lp w = (case lp of (layout, pool) \<Rightarrow>
     let info = DescriptorSetsInfo pool (replicate kDescriptorSetCount layout);
         sets = map (oe_sets e (w_calls w) info) [0..<kDescriptorSetCount];
         w1 = call (ObjCreate info sets) w;
         (b, w2) = DeviceObject_named e dev ''_DescriptorSet'' OBJECT_TYPE_DESCRIPTOR_SET sets w1
     in Inr (take_base (set_array_default\<lparr> sa_pool := pool, sa_sets := sets \<rparr>) b, w2))"

definition DescriptorSetArray_assign :: "set_array \<Rightarrow> set_array \<Rightarrow> set_array \<times> set_array" where
  "DescriptorSetArray_assign this other =
     ((take_base this other)\<lparr> sa_pool := sa_pool other, sa_sets := sa_sets other \<rparr>,
      (left_base this other)\<lparr> sa_pool := 0, sa_sets := sa_sets this \<rparr>)"

definition DescriptorSetArray_move :: "set_array \<Rightarrow> set_array \<times> set_array" where
  "DescriptorSetArray_move other = DescriptorSetArray_assign set_array_default other"

definition DescriptorSetArray_Swap :: "set_array \<Rightarrow> set_array \<Rightarrow> set_array \<times> set_array" where
  "DescriptorSetArray_Swap this rhs = ((take_base this rhs)\<lparr> sa_pool := sa_pool rhs, sa_sets := sa_sets rhs \<rparr>,
                                       (take_base rhs this)\<lparr> sa_pool := sa_pool this, sa_sets := sa_sets this \<rparr>)"

definition DescriptorSetArray_destroy :: "obj_env \<Rightarrow> set_array \<Rightarrow> world \<Rightarrow> world res" where
  "DescriptorSetArray_destroy e a w = bind_res (if IsValid a then destroy_handles HDescriptorSet (sa_pool a) a (sa_sets a) w else Inr w)
     (\<lambda>w'. Inr (DeviceObject_destroy e a w'))"

section \<open>Update templates\<close>

definition template_info_default :: template_info where
  "template_info_default = \<lparr> ti_push = False, ti_setLayout = 0, ti_bindPoint = BindGraphics, ti_pipelineLayout = 0, ti_set = 0 \<rparr>"

record update_template = device_object +
  ut_desc :: template_info
  ut_entries :: "template_entry list"
  ut_handle :: nat

definition update_template_default :: update_template where
  "update_template_default = \<lparr> do_device = None, do_name = [], do_uuid = 0, ut_desc = template_info_default, ut_entries = [], ut_handle = 0 \<rparr>"

definition OBJECT_TYPE_DESCRIPTOR_UPDATE_TEMPLATE :: nat where "OBJECT_TYPE_DESCRIPTOR_UPDATE_TEMPLATE = 1000085000"

text \<open>A template starts without a handle.\<close>

definition DescriptorUpdateTemplate_new :: "obj_env \<Rightarrow> nat \<Rightarrow> template_info \<Rightarrow> world \<Rightarrow> (update_template \<times> world) res" where
  "DescriptorUpdateTemplate_new e dev desc w =
     (let (b, w') = DeviceObject_named e dev ''_DescriptorUpdateTemplate'' OBJECT_TYPE_DESCRIPTOR_UPDATE_TEMPLATE [0] w
      in Inr (take_base (update_template_default\<lparr> ut_desc := desc \<rparr>) b, w'))"

definition InternalDestroyTemplate :: "update_template \<Rightarrow> world \<Rightarrow> world res" where
  "InternalDestroyTemplate t w = destroy_handles HTemplate 0 t [ut_handle t] w"

definition SetEntries :: "obj_env \<Rightarrow> template_entry list \<Rightarrow> update_template \<Rightarrow> world \<Rightarrow> (update_template \<times> world) res" where
  "SetEntries e entries t w = bind_res (InternalDestroyTemplate t w) (\<lambda>w1.
     let (h, w2) = create_object e (TemplateInfo (ut_desc t) entries) w1
     in Inr (t\<lparr> ut_entries := entries, ut_handle := h \<rparr>, w2))"

text \<open>Moves do not take the entries along.\<close>

definition DescriptorUpdateTemplate_assign :: "update_template \<Rightarrow> update_template \<Rightarrow> update_template \<times> update_template" where
  "DescriptorUpdateTemplate_assign this other =
     ((take_base this other)\<lparr> ut_desc := ut_desc other, ut_handle := ut_handle other \<rparr>,
      (left_base this other)\<lparr> ut_desc := template_info_default, ut_handle := ut_handle this \<rparr>)"

definition DescriptorUpdateTemplate_move :: "update_template \<Rightarrow> update_template \<times> update_template" where
  "DescriptorUpdateTemplate_move other = DescriptorUpdateTemplate_assign update_template_default other"

definition DescriptorUpdateTemplate_Swap :: "update_template \<Rightarrow> update_template \<Rightarrow> update_template \<times> update_template" where
  "DescriptorUpdateTemplate_Swap this rhs =
     ((take_base this rhs)\<lparr> ut_desc := ut_desc rhs, ut_handle := ut_handle rhs \<rparr>,
      (take_base rhs this)\<lparr> ut_desc := ut_desc this, ut_handle := ut_handle this \<rparr>)"

definition DescriptorUpdateTemplate_destroy :: "obj_env \<Rightarrow> update_template \<Rightarrow> world \<Rightarrow> world res" where
  "DescriptorUpdateTemplate_destroy e t w = bind_res (if ut_handle t \<noteq> 0 then InternalDestroyTemplate t w else Inr w)
     (\<lambda>w'. Inr (DeviceObject_destroy e t w'))"

section \<open>They own their handles\<close>

definition set_layout_class :: "obj_env \<Rightarrow> nat \<Rightarrow> (set_layout_desc, unit, set_layout) owner_class" where
  "set_layout_class e dev = \<lparr> oc_make = DescriptorSetLayout_new e dev, oc_update = no_update, oc_move = DescriptorSetLayout_move,
     oc_assign = pure_assign DescriptorSetLayout_assign, oc_swap = DescriptorSetLayout_Swap, oc_destroy = DescriptorSetLayout_destroy e \<rparr>"

definition set_layout_owned :: "set_layout \<Rightarrow> owned_handles" where
  "set_layout_owned l = handles HSetLayout 0 [sl_handle l] + sampler_owned (sl_samplers l)"

definition set_layout_wf :: "set_layout \<Rightarrow> bool" where
  "set_layout_wf l \<longleftrightarrow> (sl_handle l \<noteq> 0 \<longrightarrow> do_device (sl_base l) \<noteq> None) \<and> sampler_wf (sl_samplers l)"

definition set_array_class :: "obj_env \<Rightarrow> nat \<Rightarrow> (nat \<times> nat, unit, set_array) owner_class" where
  "set_array_class e dev = \<lparr> oc_make = DescriptorSetArray_new e dev, oc_update = no_update, oc_move = DescriptorSetArray_move,
     oc_assign = pure_assign DescriptorSetArray_assign, oc_swap = DescriptorSetArray_Swap, oc_destroy = DescriptorSetArray_destroy e \<rparr>"

definition set_array_owned :: "set_array \<Rightarrow> owned_handles" where
  "set_array_owned a = handles HDescriptorSet (sa_pool a) (sa_sets a)"

definition set_array_wf :: "set_array \<Rightarrow> bool" where
  "set_array_wf a \<longleftrightarrow> (IsValid a \<longrightarrow> do_device a \<noteq> None) \<and> (\<not> IsValid a \<longrightarrow> sa_sets a = [])"

definition template_class :: "obj_env \<Rightarrow> nat \<Rightarrow> (template_info, template_entry list, update_template) owner_class" where
  "template_class e dev = \<lparr> oc_make = DescriptorUpdateTemplate_new e dev, oc_update = SetEntries e, oc_move = DescriptorUpdateTemplate_move,
     oc_assign = pure_assign DescriptorUpdateTemplate_assign, oc_swap = DescriptorUpdateTemplate_Swap,
     oc_destroy = DescriptorUpdateTemplate_destroy e \<rparr>"

definition template_owned :: "update_template \<Rightarrow> owned_handles" where
  "template_owned t = handles HTemplate 0 [ut_handle t]"

definition template_wf :: "update_template \<Rightarrow> bool" where
  "template_wf t \<longleftrightarrow> (ut_handle t \<noteq> 0 \<longrightarrow> do_device t \<noteq> None)"

lemma sampler_new_owned:
  assumes "SamplerVector_new e dev infos w = Inr (s, w')"
  shows "sampler_wf s" "created w' = created w + sampler_owned s" "destroyed w' = destroyed w"
  using samplers.make [of e dev infos w s w'] assms
  by (auto simp: sampler_class_def conserves_def SamplerVector_new_def owned_simps dest!: create_samplers_owned split: prod.splits)

lemma sampler_destroy_owned:
  assumes "sampler_wf s"
  shows "\<exists>w'. SamplerVector_destroy e s w = Inr w' \<and> conserves w (sampler_owned s) w' {#}"
  using samplers.destroy [OF assms, of e undefined w] by (simp add: sampler_class_def)

lemma sampler_default_wf [simp]: "sampler_wf sampler_vector_default" "sampler_owned sampler_vector_default = {#}"
  by (simp_all add: sampler_wf_def sampler_owned_def sampler_vector_default_def)

lemma set_layout_destroy_owned:
  assumes "set_layout_wf l"
  shows "\<exists>w'. DescriptorSetLayout_destroy e l w = Inr w' \<and> conserves w (set_layout_owned l) w' {#}"
proof -
  let ?hs = "handles HSetLayout 0 [sl_handle l]"
  obtain w1 where w1: "(if sl_handle l \<noteq> 0 then destroy_handles HSetLayout 0 (sl_base l) [sl_handle l] w else Inr w) = Inr w1"
      "conserves w ?hs w1 {#}"
    using destroy_one [of "sl_handle l" "sl_base l" HSetLayout 0 w] assms by (auto simp: set_layout_wf_def)
  obtain w2 where w2: "SamplerVector_destroy e (sl_samplers l) w1 = Inr w2" "conserves w1 (sampler_owned (sl_samplers l)) w2 {#}"
    using sampler_destroy_owned [of "sl_samplers l" e w1] assms by (auto simp: set_layout_wf_def)
  have "conserves w (set_layout_owned l) w2 {#}"
    using conserves_trans [OF conserves_more [OF w1(2), of "sampler_owned (sl_samplers l)"]] w2(2) by (simp add: set_layout_owned_def)
  then show ?thesis using w1(1) w2(1) by (auto simp: DescriptorSetLayout_destroy_def conserves_def owned_simps)
qed

lemma set_layout_new_owned:
  assumes "DescriptorSetLayout_new e dev desc w = Inr (l, w')"
  shows "set_layout_wf l \<and> conserves w {#} w' (set_layout_owned l)"
proof -
  obtain s w1 where s: "SamplerVector_new e dev (sld_immutableSamplers desc) w = Inr (s, w1)"
    using assms by (auto simp: DescriptorSetLayout_new_def bind_res_Inr)
  then obtain bs vars where b: "bind_variables (smp_handles s) (sld_variableNameHashes desc) (sld_bindings desc) Map.empty = Inr (bs, vars)"
    and len: "length bs = length (sld_bindingFlags desc)"
    using assms by (auto simp: DescriptorSetLayout_new_def bind_res_Inr split: if_splits prod.splits)
  obtain h w2 where h: "create_object e (SetLayoutInfo (sld_flags desc) bs (sld_bindingFlags desc)) w1 = (h, w2)" by fastforce
  obtain o' w3 where o': "DeviceObject_named e dev ''_DescriptorSetLayout'' OBJECT_TYPE_DESCRIPTOR_SET_LAYOUT [h] w2 = (o', w3)"
    by fastforce
  have l: "l = \<lparr> sl_base = o', sl_desc = desc\<lparr> sld_bindings := bs \<rparr>, sl_handle = h, sl_samplers = s, sl_variables = vars \<rparr>" "w' = w3"
    using assms s b len h o' by (auto simp: DescriptorSetLayout_new_def)
  then show ?thesis using sampler_new_owned [OF s] created_object [OF h] named_object [OF o']
    by (simp add: set_layout_owned_def set_layout_wf_def take_base_def conserves_def ac_simps)
qed

interpretation set_layouts: owner "set_layout_class e dev" set_layout_owned set_layout_wf for e dev
proof unfold_locales
  fix a w show "set_layout_wf a \<Longrightarrow> \<exists>w'. oc_destroy (set_layout_class e dev) a w = Inr w' \<and> conserves w (set_layout_owned a) w' {#}"
    using set_layout_destroy_owned by (simp add: set_layout_class_def)
next
  fix c w a w' show "oc_make (set_layout_class e dev) c w = Inr (a, w') \<Longrightarrow> set_layout_wf a \<and> conserves w {#} w' (set_layout_owned a)"
    using set_layout_new_owned by (simp add: set_layout_class_def)
qed (auto simp: set_layout_class_def set_layout_owned_def set_layout_wf_def DescriptorSetLayout_move_def
  DescriptorSetLayout_assign_def DescriptorSetLayout_Swap_def set_layout_default_def class_simps)

text \<open>Assignment leaves the sets of \<open>this\<close> without their pool, so arrays satisfy the contract without it only.\<close>

interpretation set_arrays: owner_base "set_array_class e dev" set_array_owned set_array_wf for e dev
proof unfold_locales
  fix a w show "set_array_wf a \<Longrightarrow> \<exists>w'. oc_destroy (set_array_class e dev) a w = Inr w' \<and> conserves w (set_array_owned a) w' {#}"
    by (auto simp: set_array_class_def set_array_owned_def set_array_wf_def DescriptorSetArray_destroy_def conserves_def owned_simps)
qed (auto simp: set_array_class_def set_array_owned_def set_array_wf_def DescriptorSetArray_new_def DescriptorSetArray_move_def
  DescriptorSetArray_assign_def DescriptorSetArray_Swap_def set_array_default_def IsValid_def class_simps conserves_def
  owned_simps Let_def split: prod.splits)

interpretation templates: owner "template_class e dev" template_owned template_wf for e dev
proof unfold_locales
  fix a w show "template_wf a \<Longrightarrow> \<exists>w'. oc_destroy (template_class e dev) a w = Inr w' \<and> conserves w (template_owned a) w' {#}"
    by (cases "do_device a") (auto simp: template_class_def template_owned_def template_wf_def DescriptorUpdateTemplate_destroy_def
      InternalDestroyTemplate_def conserves_def owned_simps)
next
  fix u a w a' w' assume "oc_update (template_class e dev) u a w = Inr (a', w')"
  then show "template_wf a' \<and> conserves w (template_owned a) w' (template_owned a')"
    by (cases "do_device a") (auto simp: template_class_def template_owned_def template_wf_def SetEntries_def InternalDestroyTemplate_def
      destroy_handles_def conserves_def owned_simps ac_simps split: prod.splits)
qed (auto simp: template_class_def template_owned_def template_wf_def DescriptorUpdateTemplate_new_def DescriptorUpdateTemplate_move_def
  DescriptorUpdateTemplate_assign_def DescriptorUpdateTemplate_Swap_def update_template_default_def class_simps conserves_def
  owned_simps split: prod.splits)

end
