(* ===== verification/Pipeline_Layouts.thy ===== *)
theory Pipeline_Layouts
imports Descriptor_Sets
begin

text \<open>
  Shader modules (\<open>rhi/shader.h\<close>, \<open>rhi/vulkan/shader.cpp\<close>) and pipeline layouts (\<open>rhi/pipeline.h\<close>,
  \<open>rhi/vulkan/pipeline.cpp\<close>): a layout owns the modules of a shader set and a descriptor set layout for each
  set number, and both are classes of the contract of \<open>Owned_Objects\<close>. The driver finds the layout of set
  \<open>n\<close> at position \<open>n\<close> of the handles it is given.
\<close>

section \<open>Shader modules\<close>

record entry_point =
  ep_name :: string
  ep_stage :: u32
  ep_launch :: "(nat \<times> nat \<times> nat \<times> nat) option"

definition entry_point_default :: entry_point where
  "entry_point_default = \<lparr> ep_name = [], ep_stage = 0, ep_launch = None \<rparr>"

type_synonym shader = "u8 list \<times> entry_point"

record shader_module = device_object +
  shm_handle :: nat
  shm_entry :: entry_point

definition shader_module_default :: shader_module where
  "shader_module_default = \<lparr> do_device = None, do_name = [], do_uuid = 0, shm_handle = 0, shm_entry = entry_point_default \<rparr>"

definition OBJECT_TYPE_SHADER_MODULE :: nat where "OBJECT_TYPE_SHADER_MODULE = 15"

definition ShaderModule_new :: "obj_env \<Rightarrow> nat \<Rightarrow> shader \<Rightarrow> world \<Rightarrow> (shader_module \<times> world) res" where
  "ShaderModule_new e dev sh w = (let (h, w1) = create_object e (ShaderModuleInfo (fst sh)) w;
       (b, w2) = DeviceObject_named e dev (ep_name (snd sh)) OBJECT_TYPE_SHADER_MODULE [h] w1
     in Inr (take_base (shader_module_default\<lparr> shm_handle := h, shm_entry := snd sh \<rparr>) b, w2))"

definition ShaderModule_assign :: "shader_module \<Rightarrow> shader_module \<Rightarrow> shader_module \<times> shader_module" where
  "ShaderModule_assign this other =
     ((take_base this other)\<lparr> shm_handle := shm_handle other, shm_entry := shm_entry other \<rparr>,
      (left_base this other)\<lparr> shm_handle := shm_handle this, shm_entry := entry_point_default \<rparr>)"

definition ShaderModule_move :: "shader_module \<Rightarrow> shader_module \<times> shader_module" where
  "ShaderModule_move other = ShaderModule_assign shader_module_default other"

definition ShaderModule_Swap :: "shader_module \<Rightarrow> shader_module \<Rightarrow> shader_module \<times> shader_module" where
  "ShaderModule_Swap this rhs =
     ((take_base this rhs)\<lparr> shm_handle := shm_handle rhs, shm_entry := shm_entry rhs \<rparr>,
      (take_base rhs this)\<lparr> shm_handle := shm_handle this, shm_entry := shm_entry this \<rparr>)"

definition ShaderModule_destroy :: "obj_env \<Rightarrow> shader_module \<Rightarrow> world \<Rightarrow> world res" where
  "ShaderModule_destroy e m w = bind_res (if shm_handle m \<noteq> 0 then destroy_handles HShaderModule 0 m [shm_handle m] w else Inr w)
     (\<lambda>w'. Inr (DeviceObject_destroy e m w'))"

definition shader_module_class :: "obj_env \<Rightarrow> nat \<Rightarrow> (shader, unit, shader_module) owner_class" where
  "shader_module_class e dev = \<lparr> oc_make = ShaderModule_new e dev, oc_update = no_update, oc_move = ShaderModule_move,
     oc_assign = pure_assign ShaderModule_assign, oc_swap = ShaderModule_Swap, oc_destroy = ShaderModule_destroy e \<rparr>"

definition shader_module_owned :: "shader_module \<Rightarrow> owned_handles" where
  "shader_module_owned m = handles HShaderModule 0 [shm_handle m]"

definition shader_module_wf :: "shader_module \<Rightarrow> bool" where
  "shader_module_wf m \<longleftrightarrow> (shm_handle m \<noteq> 0 \<longrightarrow> do_device m \<noteq> None)"

interpretation shader_modules: owner "shader_module_class e dev" shader_module_owned shader_module_wf for e dev
proof unfold_locales
  fix a w show "shader_module_wf a \<Longrightarrow> \<exists>w'. oc_destroy (shader_module_class e dev) a w = Inr w' \<and> conserves w (shader_module_owned a) w' {#}"
    by (cases "do_device a") (auto simp: shader_module_class_def shader_module_owned_def shader_module_wf_def ShaderModule_destroy_def
      conserves_def owned_simps)
qed (auto simp: shader_module_class_def shader_module_owned_def shader_module_wf_def ShaderModule_new_def ShaderModule_move_def
  ShaderModule_assign_def ShaderModule_Swap_def shader_module_default_def class_simps conserves_def owned_simps split: prod.splits)

section \<open>Pipeline layouts\<close>

record shader_set =
  ss_shaders :: "shader list"
  ss_layouts :: "(nat \<times> set_layout_desc) list"

record pipeline_layout =
  pl_base :: device_object
  pl_modules :: "shader_module list"
  pl_sets :: "(nat \<times> set_layout) list"
  pl_handle :: nat

definition pipeline_layout_default :: pipeline_layout where
  "pipeline_layout_default = \<lparr> pl_base = device_object_default, pl_modules = [], pl_sets = [], pl_handle = 0 \<rparr>"

definition OBJECT_TYPE_PIPELINE_LAYOUT :: nat where "OBJECT_TYPE_PIPELINE_LAYOUT = 17"

definition GetDescriptorSetLayoutHandles :: "(nat \<times> set_layout) list \<Rightarrow> nat list" where
  "GetDescriptorSetLayoutHandles layouts = map (\<lambda>(nr, layout). sl_handle layout) layouts"

definition GetPushConstantRanges :: "(nat \<times> set_layout) list \<Rightarrow> (u32 \<times> nat \<times> nat) list" where
  "GetPushConstantRanges layouts = concat (map (\<lambda>(nr, layout). case sld_pushConstantRange (sl_desc layout) of
     None \<Rightarrow> [] | Some r \<Rightarrow> [r]) layouts)"

text \<open>\<open>std::lower_bound\<close> over the sorted set numbers.\<close>

definition GetDescriptorSetLayout :: "pipeline_layout \<Rightarrow> nat \<Rightarrow> set_layout res" where
  "GetDescriptorSetLayout l nr = (case dropWhile (\<lambda>e. fst e < nr) (pl_sets l) of
       [] \<Rightarrow> Inl EnsureFailed
     | (n, sl) # _ \<Rightarrow> bind_res (ensure (n = nr)) (\<lambda>_. Inr sl))"

fun make_modules :: "obj_env \<Rightarrow> nat \<Rightarrow> shader list \<Rightarrow> world \<Rightarrow> (shader_module list \<times> world) res" where
  "make_modules e dev [] w = Inr ([], w)"
| "make_modules e dev (s # ss) w = bind_res (ShaderModule_new e dev s w) (\<lambda>(m, w1).
     bind_res (make_modules e dev ss w1) (\<lambda>(ms, w2). Inr (m # ms, w2)))"

text \<open>The layouts of a shader set are ordered by set number, as a map's entries are.\<close>

fun make_set_layouts :: "obj_env \<Rightarrow> nat \<Rightarrow> (nat \<times> set_layout_desc) list \<Rightarrow> world \<Rightarrow> ((nat \<times> set_layout) list \<times> world) res" where
  "make_set_layouts e dev [] w = Inr ([], w)"
| "make_set_layouts e dev ((n, d) # ds) w = bind_res (DescriptorSetLayout_new e dev d w) (\<lambda>(l, w1).
     bind_res (make_set_layouts e dev ds w1) (\<lambda>(ls, w2). Inr ((n, l) # ls, w2)))"

definition PipelineLayout_new :: "obj_env \<Rightarrow> nat \<Rightarrow> shader_set \<Rightarrow> world \<Rightarrow> (pipeline_layout \<times> world) res" where
  "PipelineLayout_new e dev ss w =
     bind_res (make_modules e dev (ss_shaders ss) w) (\<lambda>(ms, w1).
     bind_res (make_set_layouts e dev (ss_layouts ss) w1) (\<lambda>(ls, w2).
     let (h, w3) = create_object e (PipelineLayoutInfo (GetDescriptorSetLayoutHandles ls) (GetPushConstantRanges ls)) w2;
         (b, w4) = DeviceObject_named e dev ''_PipelineLayout'' OBJECT_TYPE_PIPELINE_LAYOUT [h] w3
     in Inr (\<lparr> pl_base = b, pl_modules = ms, pl_sets = ls, pl_handle = h \<rparr>, w4)))"

definition destroy_modules :: "obj_env \<Rightarrow> shader_module list \<Rightarrow> world \<Rightarrow> world res" where
  "destroy_modules e ms w = fold_res (ShaderModule_destroy e) ms w"

definition destroy_set_layouts :: "obj_env \<Rightarrow> (nat \<times> set_layout) list \<Rightarrow> world \<Rightarrow> world res" where
  "destroy_set_layouts e ls w = fold_res (\<lambda>(n, l). DescriptorSetLayout_destroy e l) ls w"

text \<open>Assignment destroys the modules and set layouts of \<open>this\<close>; its handle goes to \<open>other\<close>.\<close>

definition PipelineLayout_assign :: "obj_env \<Rightarrow> pipeline_layout \<Rightarrow> pipeline_layout \<Rightarrow> world \<Rightarrow> (pipeline_layout \<times> pipeline_layout \<times> world) res" where
  "PipelineLayout_assign e this other w =
     bind_res (destroy_modules e (pl_modules this) w) (\<lambda>w1.
     bind_res (destroy_set_layouts e (pl_sets this) w1) (\<lambda>w2.
     Inr (this\<lparr> pl_base := take_base (pl_base this) (pl_base other), pl_modules := pl_modules other, pl_sets := pl_sets other, pl_handle := pl_handle other \<rparr>,
          other\<lparr> pl_base := left_base (pl_base this) (pl_base other), pl_modules := [], pl_sets := [], pl_handle := pl_handle this \<rparr>, w2)))"

definition PipelineLayout_move :: "pipeline_layout \<Rightarrow> pipeline_layout \<times> pipeline_layout" where
  "PipelineLayout_move other =
     (\<lparr> pl_base = take_base device_object_default (pl_base other), pl_modules = pl_modules other, pl_sets = pl_sets other, pl_handle = pl_handle other \<rparr>,
      other\<lparr> pl_base := left_base device_object_default (pl_base other), pl_modules := [], pl_sets := [], pl_handle := 0 \<rparr>)"

definition PipelineLayout_Swap :: "pipeline_layout \<Rightarrow> pipeline_layout \<Rightarrow> pipeline_layout \<times> pipeline_layout" where
  "PipelineLayout_Swap this rhs =
     (this\<lparr> pl_base := take_base (pl_base this) (pl_base rhs), pl_modules := pl_modules rhs, pl_sets := pl_sets rhs, pl_handle := pl_handle rhs \<rparr>,
      rhs\<lparr> pl_base := take_base (pl_base rhs) (pl_base this), pl_modules := pl_modules this, pl_sets := pl_sets this, pl_handle := pl_handle this \<rparr>)"

text \<open>After the destructor's body the members go in reverse order.\<close>

definition PipelineLayout_destroy :: "obj_env \<Rightarrow> pipeline_layout \<Rightarrow> world \<Rightarrow> world res" where
  "PipelineLayout_destroy e l w =
     bind_res (if pl_handle l \<noteq> 0 then destroy_handles HPipelineLayout 0 (pl_base l) [pl_handle l] w else Inr w) (\<lambda>w1.
     bind_res (destroy_set_layouts e (pl_sets l) w1) (\<lambda>w2.
     bind_res (destroy_modules e (pl_modules l) w2) (\<lambda>w3. Inr (DeviceObject_destroy e (pl_base l) w3))))"

section \<open>They own their handles\<close>

definition pipeline_layout_owned :: "pipeline_layout \<Rightarrow> owned_handles" where
  "pipeline_layout_owned l = handles HPipelineLayout 0 [pl_handle l]
     + (sum_list (map (set_layout_owned \<circ> snd) (pl_sets l)) + sum_list (map shader_module_owned (pl_modules l)))"

definition pipeline_layout_wf :: "pipeline_layout \<Rightarrow> bool" where
  "pipeline_layout_wf l \<longleftrightarrow> (pl_handle l \<noteq> 0 \<longrightarrow> do_device (pl_base l) \<noteq> None)
     \<and> (\<forall>s \<in> set (pl_sets l). set_layout_wf (snd s)) \<and> (\<forall>m \<in> set (pl_modules l). shader_module_wf m)"

definition pipeline_layout_class :: "obj_env \<Rightarrow> nat \<Rightarrow> (shader_set, unit, pipeline_layout) owner_class" where
  "pipeline_layout_class e dev = \<lparr> oc_make = PipelineLayout_new e dev, oc_update = no_update, oc_move = PipelineLayout_move,
     oc_assign = PipelineLayout_assign e, oc_swap = PipelineLayout_Swap, oc_destroy = PipelineLayout_destroy e \<rparr>"

lemma fold_destroy:
  assumes "\<And>a w. a \<in> set as \<Longrightarrow> \<exists>w'. f a w = Inr w' \<and> conserves w (own a) w' {#}"
  shows "\<exists>w'. fold_res f as w = Inr w' \<and> conserves w (sum_list (map own as)) w' {#}"
  using assms
proof (induction as arbitrary: w)
  case (Cons a as)
  obtain w1 where w1: "f a w = Inr w1" "conserves w (own a) w1 {#}" using Cons.prems by fastforce
  obtain w2 where w2: "fold_res f as w1 = Inr w2" "conserves w1 (sum_list (map own as)) w2 {#}" using Cons.IH Cons.prems by fastforce
  have "conserves w (own a + sum_list (map own as)) w1 (sum_list (map own as))"
    using conserves_more [OF w1(2), of "sum_list (map own as)"] by simp
  from conserves_trans [OF this w2(2)] show ?case using w1(1) w2(1) by simp
qed simp

lemma destroy_parts:
  assumes "\<forall>s \<in> set ls. set_layout_wf (snd s)" "\<forall>m \<in> set ms. shader_module_wf m"
  shows "\<exists>w'. destroy_set_layouts e ls w = Inr w' \<and> conserves w (sum_list (map (set_layout_owned \<circ> snd) ls)) w' {#}"
    "\<exists>w'. destroy_modules e ms w = Inr w' \<and> conserves w (sum_list (map shader_module_owned ms)) w' {#}"
proof -
  show "\<exists>w'. destroy_set_layouts e ls w = Inr w' \<and> conserves w (sum_list (map (set_layout_owned \<circ> snd) ls)) w' {#}"
    unfolding destroy_set_layouts_def
    by (rule fold_destroy) (use assms(1) set_layout_destroy_owned in \<open>fastforce split: prod.split\<close>)
  have "\<exists>w'. ShaderModule_destroy e m w = Inr w' \<and> conserves w (shader_module_owned m) w' {#}" if "m \<in> set ms" for m w
    using shader_modules.destroy [of m e undefined w] assms(2) that by (simp add: shader_module_class_def)
  then show "\<exists>w'. destroy_modules e ms w = Inr w' \<and> conserves w (sum_list (map shader_module_owned ms)) w' {#}"
    unfolding destroy_modules_def by (rule fold_destroy)
qed

lemma make_modules_owned:
  "make_modules e dev ss w = Inr (ms, w') \<Longrightarrow> (\<forall>m \<in> set ms. shader_module_wf m) \<and> conserves w {#} w' (sum_list (map shader_module_owned ms))"
proof (induction ss arbitrary: w ms)
  case (Cons s ss)
  then obtain m w1 ms1 where m: "ShaderModule_new e dev s w = Inr (m, w1)" "make_modules e dev ss w1 = Inr (ms1, w')" "ms = m # ms1"
    by (auto simp: bind_res_Inr)
  have m1: "shader_module_wf m \<and> conserves w {#} w1 (shader_module_owned m)"
    using shader_modules.make [of e dev s w m w1] m(1) by (simp add: shader_module_class_def)
  note r = Cons.IH [OF m(2)]
  from conserves_trans [OF conjunct2 [OF m1]] conserves_more [OF conjunct2 [OF r], of "shader_module_owned m"]
  have "conserves w {#} w' (sum_list (map shader_module_owned ms1) + shader_module_owned m)" by simp
  then show ?case using m1 r by (simp add: m(3) add.commute)
qed simp

lemma make_set_layouts_owned:
  "make_set_layouts e dev ds w = Inr (ls, w') \<Longrightarrow> (\<forall>s \<in> set ls. set_layout_wf (snd s))
     \<and> conserves w {#} w' (sum_list (map (set_layout_owned \<circ> snd) ls)) \<and> map fst ls = map fst ds"
proof (induction ds arbitrary: w ls)
  case (Cons d ds)
  then obtain l w1 ls1 where l: "DescriptorSetLayout_new e dev (snd d) w = Inr (l, w1)"
    "make_set_layouts e dev ds w1 = Inr (ls1, w')" "ls = (fst d, l) # ls1"
    by (cases d) (auto simp: bind_res_Inr)
  note l1 = set_layout_new_owned [OF l(1)] and r = Cons.IH [OF l(2)]
  from conserves_trans [OF conjunct2 [OF l1]] conserves_more [of w1 "{#}" w' "sum_list (map (set_layout_owned \<circ> snd) ls1)" "set_layout_owned l"] r
  have "conserves w {#} w' (sum_list (map (set_layout_owned \<circ> snd) ls1) + set_layout_owned l)" by simp
  then show ?case using l1 r by (simp add: l(3) add.commute o_def)
qed simp

lemma PipelineLayout_new_owned:
  assumes "PipelineLayout_new e dev ss w = Inr (l, w')"
  shows "pipeline_layout_wf l \<and> conserves w {#} w' (pipeline_layout_owned l) \<and> map fst (pl_sets l) = map fst (ss_layouts ss)"
proof -
  obtain ms w1 ls w2 where m: "make_modules e dev (ss_shaders ss) w = Inr (ms, w1)" "make_set_layouts e dev (ss_layouts ss) w1 = Inr (ls, w2)"
    using assms by (auto simp: PipelineLayout_new_def bind_res_Inr)
  obtain h w3 where h: "create_object e (PipelineLayoutInfo (GetDescriptorSetLayoutHandles ls) (GetPushConstantRanges ls)) w2 = (h, w3)" by fastforce
  obtain b w4 where b: "DeviceObject_named e dev ''_PipelineLayout'' OBJECT_TYPE_PIPELINE_LAYOUT [h] w3 = (b, w4)" by fastforce
  have l: "l = \<lparr> pl_base = b, pl_modules = ms, pl_sets = ls, pl_handle = h \<rparr>" "w' = w4"
    using assms m h b by (auto simp: PipelineLayout_new_def)
  have "conserves w2 {#} w4 (handles HPipelineLayout 0 [h])"
    using created_object [OF h] named_object [OF b] by (simp add: conserves_def ac_simps)
  from conserves_more [OF this, of "sum_list (map (set_layout_owned \<circ> snd) ls) + sum_list (map shader_module_owned ms)"]
    conserves_more [of w1 "{#}" w2 "sum_list (map (set_layout_owned \<circ> snd) ls)" "sum_list (map shader_module_owned ms)"]
    make_modules_owned [OF m(1)] make_set_layouts_owned [OF m(2)] named_object(1) [OF b]
  show ?thesis by (auto simp: l pipeline_layout_wf_def pipeline_layout_owned_def intro: conserves_trans)
qed

lemma PipelineLayout_destroy_owned:
  assumes "pipeline_layout_wf l"
  shows "\<exists>w'. PipelineLayout_destroy e l w = Inr w' \<and> conserves w (pipeline_layout_owned l) w' {#}"
proof -
  let ?S = "sum_list (map (set_layout_owned \<circ> snd) (pl_sets l))" and ?M = "sum_list (map shader_module_owned (pl_modules l))"
  obtain w1 where w1: "(if pl_handle l \<noteq> 0 then destroy_handles HPipelineLayout 0 (pl_base l) [pl_handle l] w else Inr w) = Inr w1"
      "conserves w (handles HPipelineLayout 0 [pl_handle l]) w1 {#}"
    using destroy_one [of "pl_handle l" "pl_base l" HPipelineLayout 0 w] assms by (auto simp: pipeline_layout_wf_def)
  have wf: "\<forall>s \<in> set (pl_sets l). set_layout_wf (snd s)" "\<forall>m \<in> set (pl_modules l). shader_module_wf m"
    using assms by (auto simp: pipeline_layout_wf_def)
  obtain w2 where w2: "destroy_set_layouts e (pl_sets l) w1 = Inr w2" "conserves w1 ?S w2 {#}"
    using destroy_parts(1) [OF wf, of e w1] by blast
  obtain w3 where w3: "destroy_modules e (pl_modules l) w2 = Inr w3" "conserves w2 ?M w3 {#}"
    using destroy_parts(2) [OF wf, of e w2] by blast
  have "conserves w (handles HPipelineLayout 0 [pl_handle l] + (?S + ?M)) w3 {#}"
    using conserves_trans [OF conserves_more [OF w1(2)]] conserves_trans [OF conserves_more [OF w2(2)]] w3(2) by fastforce
  then show ?thesis using w1(1) w2(1) w3(1)
    by (auto simp: PipelineLayout_destroy_def pipeline_layout_owned_def conserves_def owned_simps)
qed

lemma PipelineLayout_assign_owned:
  assumes "pipeline_layout_wf a" "pipeline_layout_wf b"
  shows "\<exists>a' b' w'. PipelineLayout_assign e a b w = Inr (a', b', w') \<and> pipeline_layout_wf a' \<and> pipeline_layout_wf b'
    \<and> conserves w (pipeline_layout_owned a + pipeline_layout_owned b) w' (pipeline_layout_owned a' + pipeline_layout_owned b')"
proof -
  let ?S = "sum_list (map (set_layout_owned \<circ> snd) (pl_sets a))" and ?M = "sum_list (map shader_module_owned (pl_modules a))"
  let ?r = "handles HPipelineLayout 0 [pl_handle a] + pipeline_layout_owned b"
  have wf: "\<forall>s \<in> set (pl_sets a). set_layout_wf (snd s)" "\<forall>m \<in> set (pl_modules a). shader_module_wf m"
    using assms(1) by (auto simp: pipeline_layout_wf_def)
  obtain w1 where w1: "destroy_modules e (pl_modules a) w = Inr w1" "conserves w ?M w1 {#}"
    using destroy_parts(2) [OF wf, of e w] by blast
  obtain w2 where w2: "destroy_set_layouts e (pl_sets a) w1 = Inr w2" "conserves w1 ?S w2 {#}"
    using destroy_parts(1) [OF wf, of e w1] by blast
  have "conserves w (?M + (?S + ?r)) w2 ?r"
    using conserves_trans [OF conserves_more [OF w1(2)]] conserves_more [OF w2(2), of ?r] by fastforce
  define a' b' where "a' = a\<lparr> pl_base := take_base (pl_base a) (pl_base b), pl_modules := pl_modules b, pl_sets := pl_sets b, pl_handle := pl_handle b \<rparr>"
    and "b' = b\<lparr> pl_base := left_base (pl_base a) (pl_base b), pl_modules := [], pl_sets := [], pl_handle := pl_handle a \<rparr>"
  moreover have "pipeline_layout_owned a + pipeline_layout_owned b = ?M + (?S + ?r)" by (simp add: pipeline_layout_owned_def ac_simps)
  moreover have "pipeline_layout_owned a' + pipeline_layout_owned b' = ?r"
    by (simp add: a'_def b'_def pipeline_layout_owned_def ac_simps)
  moreover have "pipeline_layout_wf a'" "pipeline_layout_wf b'" using assms
    by (simp_all add: a'_def b'_def pipeline_layout_wf_def class_simps)
  moreover have "PipelineLayout_assign e a b w = Inr (a', b', w2)"
    using w1(1) w2(1) by (simp add: PipelineLayout_assign_def a'_def b'_def)
  ultimately show ?thesis using \<open>conserves w (?M + (?S + ?r)) w2 ?r\<close> by metis
qed

interpretation pipeline_layouts: owner "pipeline_layout_class e dev" pipeline_layout_owned pipeline_layout_wf for e dev
proof unfold_locales
  fix c w a w' show "oc_make (pipeline_layout_class e dev) c w = Inr (a, w') \<Longrightarrow> pipeline_layout_wf a \<and> conserves w {#} w' (pipeline_layout_owned a)"
    using PipelineLayout_new_owned by (simp add: pipeline_layout_class_def)
next
  fix a w show "pipeline_layout_wf a \<Longrightarrow> \<exists>w'. oc_destroy (pipeline_layout_class e dev) a w = Inr w' \<and> conserves w (pipeline_layout_owned a) w' {#}"
    using PipelineLayout_destroy_owned by (simp add: pipeline_layout_class_def)
next
  fix a b w show "pipeline_layout_wf a \<Longrightarrow> pipeline_layout_wf b \<Longrightarrow> \<exists>a' b' w'. oc_assign (pipeline_layout_class e dev) a b w = Inr (a', b', w')
    \<and> pipeline_layout_wf a' \<and> pipeline_layout_wf b' \<and> conserves w (pipeline_layout_owned a + pipeline_layout_owned b) w' (pipeline_layout_owned a' + pipeline_layout_owned b')"
    using PipelineLayout_assign_owned by (simp add: pipeline_layout_class_def)
qed (auto simp: pipeline_layout_class_def pipeline_layout_owned_def pipeline_layout_wf_def PipelineLayout_move_def PipelineLayout_Swap_def class_simps)

text \<open>C22: Whatever program creates, updates, moves, assigns, swaps and destroys objects of one of these classes, the
  handles the driver has created are those destroyed and those the objects still hold, counted with their
  kind and pool: none is leaked and none destroyed twice; and no operation but a construction or update
  fails. For arrays of descriptor sets this holds for programs without assignments.\<close>
theorem objects_release_handles_once:
  "releases_once True (semaphore_class e dev) semaphore_owned \<and> releases_once True (fence_class e dev) fence_owned
   \<and> releases_once True (buffer_class e dev) buffer_owned \<and> releases_once True (buffer_view_class e dev) buffer_view_owned
   \<and> releases_once True (sampler_class e dev) sampler_owned \<and> releases_once True (set_layout_class e dev) set_layout_owned
   \<and> releases_once True (template_class e dev) template_owned \<and> releases_once False (set_array_class e dev) set_array_owned
   \<and> releases_once True (shader_module_class e dev) shader_module_owned
   \<and> releases_once True (pipeline_layout_class e dev) pipeline_layout_owned"
  by (intro conjI semaphores.releases_all fences.releases_all buffers.releases_all buffer_views.releases_all
    samplers.releases_all set_layouts.releases_all templates.releases_all set_arrays.releases
    shader_modules.releases_all pipeline_layouts.releases_all)

end
