(* ===== verification/Descriptor_Binding.thy ===== *)
theory Descriptor_Binding
imports Descriptor_Sets
begin

text \<open>
  The state a pipeline keeps for a descriptor set layout (\<open>DescriptorSetState\<close>, \<open>rhi/descriptorset.h\<close>), and
  how \<open>SetDescriptorData\<close> and \<open>BindDescriptorSetAuto\<close> (\<open>rhi/vulkan/pipeline.cpp\<close>) use it from several
  threads. \<open>bind_exec\<close> is one operation on the set's mutex, together with what the code does until the
  next one; which threads may hold the mutex together is the contract of the lock (\<open>permits\<close>).
\<close>

section \<open>The state of a set layout\<close>

record dset =
  ds_data :: set_data
  ds_template :: update_template
  ds_arrays :: "(set_array \<times> u8) list option"

definition SET_LAYOUT_CREATE_PUSH_DESCRIPTOR_BIT :: u32 where "SET_LAYOUT_CREATE_PUSH_DESCRIPTOR_BIT = 1"

definition is_push :: "set_layout \<Rightarrow> bool" where
  "is_push l \<longleftrightarrow> sld_flags (sl_desc l) AND SET_LAYOUT_CREATE_PUSH_DESCRIPTOR_BIT \<noteq> 0"

definition dset_new :: "obj_env \<Rightarrow> nat \<Rightarrow> nat \<Rightarrow> bind_point \<Rightarrow> nat \<Rightarrow> nat \<Rightarrow> set_layout \<Rightarrow> world \<Rightarrow> (dset \<times> world) res" where
  "dset_new e dev pool bindPoint pipelineLayout setNr l w =
     bind_res (DescriptorUpdateTemplate_new e dev \<lparr> ti_push = is_push l, ti_setLayout = sl_handle l, ti_bindPoint = bindPoint,
       ti_pipelineLayout = pipelineLayout, ti_set = setNr \<rparr> w) (\<lambda>(t, w1).
     if is_push l then Inr (\<lparr> ds_data = set_data_new, ds_template = t, ds_arrays = None \<rparr>, w1)
     else bind_res (DescriptorSetArray_new e dev (sl_handle l, pool) w1) (\<lambda>(a, w2).
       Inr (\<lparr> ds_data = set_data_new, ds_template = t, ds_arrays = Some [(a, 0)] \<rparr>, w2)))"

text \<open>The part of \<open>SetDescriptorData\<close> that follows the new data: the template is made again from it.\<close>

definition set_dset :: "obj_env \<Rightarrow> set_op \<Rightarrow> dset \<Rightarrow> world \<Rightarrow> (dset \<times> world) res" where
  "set_dset e op s w = bind_res (set_op_exec op (ds_data s)) (\<lambda>d.
     bind_res (SetEntries e (templateEntries d) (ds_template s) w) (\<lambda>(t, w').
       Inr (s\<lparr> ds_data := d, ds_template := t \<rparr>, w')))"

definition front_used_up :: "(set_array \<times> u8) list \<Rightarrow> bool" where
  "front_used_up as = (case as of [] \<Rightarrow> True | (a, i) # _ \<Rightarrow> i = of_nat (kDescriptorSetCount - 1))"

definition update_front :: "nat \<Rightarrow> binding_variant list \<Rightarrow> (set_array \<times> u8) list \<Rightarrow> world \<Rightarrow> ((set_array \<times> u8) list \<times> world) res" where
  "update_front template d as w = (case as of [] \<Rightarrow> Inl Undefined
     | (a, i) # r \<Rightarrow> bind_res (ensure (unat (i + 1) < kDescriptorSetCount)) (\<lambda>_.
         bind_res (idx (sa_sets a) (unat (i + 1))) (\<lambda>h. Inr ((a, i + 1) # r, call (UpdateDescriptorSetCall h template d) w))))"

text \<open>A new array starts at index \<open>~0\<close>, 255 as a byte, which the increment wraps to 0.\<close>

definition InternalUpdateDescriptorSet ::
  "obj_env \<Rightarrow> nat \<Rightarrow> nat \<Rightarrow> nat \<Rightarrow> nat \<Rightarrow> binding_variant list \<Rightarrow> (set_array \<times> u8) list \<Rightarrow> world \<Rightarrow> ((set_array \<times> u8) list \<times> world) res" where
  "InternalUpdateDescriptorSet e dev pool setLayout template d as w =
     (if front_used_up as
      then bind_res (DescriptorSetArray_new e dev (setLayout, pool) w) (\<lambda>(a, w1). update_front template d ((a, NOT 0) # as) w1)
      else update_front template d as w)"

section \<open>Threads that set and bind\<close>

datatype bind_pc = BIdle | BUpgrade | BWant | BLocked | BShared

fun bind_role :: "bind_pc \<Rightarrow> role" where
  "bind_role BIdle = No_Access"
| "bind_role BUpgrade = Upgrade_Access"
| "bind_role BWant = Upgrade_Access"
| "bind_role BLocked = Write_Access"
| "bind_role BShared = Read_Access"

record bind_env =
  be_env :: obj_env
  be_device :: nat
  be_pool :: nat
  be_setLayout :: nat
  be_bindPoint :: bind_point
  be_pipelineLayout :: nat
  be_setNr :: nat
  be_pushSupported :: bool

record bind_sys =
  bs_set :: dset
  bs_world :: world
  bs_pcs :: "bind_pc list"

text \<open>\<open>EvCas\<close> says whether the weak exchange fails although the state is dirty; \<open>EvPush\<close> is the whole of a
  bind of a set that is pushed, and \<open>EvOther\<close> a call made elsewhere.\<close>

datatype bind_event = EvSet nat set_op | EvLock nat | EvCas nat bool | EvExclusive nat | EvUpdate nat
  | EvBind nat nat "nat option" | EvPush nat nat | EvOther obj_call

definition may_move :: "bind_sys \<Rightarrow> nat \<Rightarrow> bind_pc \<Rightarrow> role \<Rightarrow> bool" where
  "may_move s t p new \<longleftrightarrow> t < length (bs_pcs s) \<and> bs_pcs s ! t = p \<and> permits (bind_role p) new (map bind_role (bs_pcs s)) t"

definition move_to :: "nat \<Rightarrow> bind_pc \<Rightarrow> bind_sys \<Rightarrow> bind_sys" where
  "move_to t p s = s\<lparr> bs_pcs := (bs_pcs s)[t := p] \<rparr>"

definition with_state :: "descriptor_set_status \<Rightarrow> bind_sys \<Rightarrow> bind_sys" where
  "with_state st s = s\<lparr> bs_set := (bs_set s)\<lparr> ds_data := (ds_data (bs_set s))\<lparr> setState := st \<rparr> \<rparr> \<rparr>"

fun bind_exec :: "bind_env \<Rightarrow> bind_event \<Rightarrow> bind_sys \<Rightarrow> bind_sys res option" where
  "bind_exec B (EvSet t op) s = (if may_move s t BIdle Write_Access
     then Some (bind_res (set_dset (be_env B) op (bs_set s) (bs_world s)) (\<lambda>(d, w). Inr (s\<lparr> bs_set := d, bs_world := w \<rparr>)))
     else None)"
| "bind_exec B (EvLock t) s = (if may_move s t BIdle Upgrade_Access \<and> ds_arrays (bs_set s) \<noteq> None
     then Some (Inr (move_to t BUpgrade s)) else None)"
| "bind_exec B (EvCas t spurious) s = (if may_move s t BUpgrade Read_Access
     then Some (Inr (if setState (ds_data (bs_set s)) = KDirty \<and> \<not> spurious
                     then with_state KReady (move_to t BWant s) else move_to t BShared s)) else None)"
| "bind_exec B (EvExclusive t) s = (if may_move s t BWant Write_Access then Some (Inr (move_to t BLocked s)) else None)"
| "bind_exec B (EvUpdate t) s = (if may_move s t BLocked Read_Access then (case ds_arrays (bs_set s) of
       None \<Rightarrow> Some (Inl Undefined)
     | Some as \<Rightarrow> Some (bind_res (InternalUpdateDescriptorSet (be_env B) (be_device B) (be_pool B) (be_setLayout B)
           (ut_handle (ds_template (bs_set s))) (bData (ds_data (bs_set s))) as (bs_world s)) (\<lambda>(as', w).
         Inr (move_to t BShared (s\<lparr> bs_set := (bs_set s)\<lparr> ds_arrays := Some as' \<rparr>, bs_world := w \<rparr>))))) else None)"
| "bind_exec B (EvBind t cmd bufferOffset) s = (if may_move s t BShared No_Access then (case ds_arrays (bs_set s) of
       None \<Rightarrow> Some (Inl Undefined)
     | Some as \<Rightarrow> Some (bind_res (ensure (as \<noteq> [])) (\<lambda>_. bind_res (idx (sa_sets (fst (hd as))) (unat (snd (hd as)))) (\<lambda>h.
         Inr (move_to t BIdle (s\<lparr> bs_world := call (CmdBindDescriptorSet cmd h (be_bindPoint B) (be_pipelineLayout B)
           (be_setNr B) bufferOffset) (bs_world s) \<rparr>)))))) else None)"
| "bind_exec B (EvPush t cmd) s = (if may_move s t BIdle Read_Access \<and> ds_arrays (bs_set s) = None
     then Some (bind_res (ensure (be_pushSupported B)) (\<lambda>_. Inr (s\<lparr> bs_world := call (CmdPushDescriptorSet cmd
            (ut_handle (ds_template (bs_set s))) (be_pipelineLayout B) (ti_set (ut_desc (ds_template (bs_set s))))
            (bData (ds_data (bs_set s)))) (bs_world s) \<rparr>))) else None)"
| "bind_exec B (EvOther c) s = Some (Inr (s\<lparr> bs_world := call c (bs_world s) \<rparr>))"

fun bind_run :: "bind_env \<Rightarrow> bind_event list \<Rightarrow> bind_sys \<Rightarrow> bind_sys res option" where
  "bind_run B [] s = Some (Inr s)"
| "bind_run B (ev # evs) s = (case bind_exec B ev s of None \<Rightarrow> None | Some (Inl f) \<Rightarrow> Some (Inl f) | Some (Inr s') \<Rightarrow> bind_run B evs s')"

definition bind_start :: "nat \<Rightarrow> dset \<Rightarrow> world \<Rightarrow> bind_sys" where
  "bind_start n d w = \<lparr> bs_set = d, bs_world = w, bs_pcs = replicate n BIdle \<rparr>"

section \<open>What the driver keeps\<close>

text \<open>The templates, the live sets and their contents; which sets have been updated and bound since they
  were allocated. A template writes what \<open>template_writes\<close> says.\<close>

record set_mem =
  sm_templates :: "nat \<Rightarrow> template_entry list option"
  sm_live :: "nat set"
  sm_sets :: "nat \<Rightarrow> nat \<Rightarrow> nat \<Rightarrow> binding_variant option"
  sm_updated :: "nat set"
  sm_bound :: "nat set"

definition set_mem_new :: set_mem where
  "set_mem_new = \<lparr> sm_templates = Map.empty, sm_live = {}, sm_sets = (\<lambda>_ _ _. None), sm_updated = {}, sm_bound = {} \<rparr>"

fun mem_step :: "obj_call \<Rightarrow> set_mem \<Rightarrow> set_mem" where
  "mem_step (ObjCreate (TemplateInfo ti es) hs) m = m\<lparr> sm_templates := (\<lambda>h. if h \<in> set hs then Some es else sm_templates m h) \<rparr>"
| "mem_step (ObjCreate (DescriptorSetsInfo pool ls) hs) m = m\<lparr> sm_live := sm_live m \<union> set hs,
     sm_sets := (\<lambda>h. if h \<in> set hs then (\<lambda>_ _. None) else sm_sets m h),
     sm_updated := sm_updated m - set hs, sm_bound := sm_bound m - set hs \<rparr>"
| "mem_step (ObjDestroy HDescriptorSet dev pool hs) m = m\<lparr> sm_live := sm_live m - set hs \<rparr>"
| "mem_step (UpdateDescriptorSetCall h t d) m = m\<lparr> sm_updated := insert h (sm_updated m),
     sm_sets := (case sm_templates m t of None \<Rightarrow> sm_sets m | Some es \<Rightarrow>
       (sm_sets m)(h := (\<lambda>k i. case template_writes es d k i of None \<Rightarrow> sm_sets m h k i | Some v \<Rightarrow> Some v))) \<rparr>"
| "mem_step (CmdBindDescriptorSet cmd h bp pl nr off) m = m\<lparr> sm_bound := insert h (sm_bound m) \<rparr>"
| "mem_step _ m = m"

definition mem_of :: "world \<Rightarrow> set_mem" where
  "mem_of w = fold mem_step (w_calls w) set_mem_new"

text \<open>The driver answers an allocation with handles of sets that are not live.\<close>

definition sets_fresh :: "obj_env \<Rightarrow> bool" where
  "sets_fresh e \<longleftrightarrow> (\<forall>calls info. inj_on (oe_sets e calls info) {..<kDescriptorSetCount}
     \<and> (\<forall>i < kDescriptorSetCount. oe_sets e calls info i \<notin> sm_live (fold mem_step calls set_mem_new)))"

definition own_sets :: "(set_array \<times> u8) list \<Rightarrow> nat list" where
  "own_sets as = concat (map (sa_sets \<circ> fst) as)"

text \<open>Calls made elsewhere use other sets and templates.\<close>

definition elsewhere :: "obj_call \<Rightarrow> bind_sys \<Rightarrow> bool" where
  "elsewhere c s = (let own = (case ds_arrays (bs_set s) of None \<Rightarrow> {} | Some as \<Rightarrow> set (own_sets as)) in (case c of
       ObjCreate (TemplateInfo _ _) hs \<Rightarrow> ut_handle (ds_template (bs_set s)) \<notin> set hs
     | ObjCreate (DescriptorSetsInfo _ _) hs \<Rightarrow> set hs \<inter> own = {}
     | ObjDestroy HDescriptorSet _ _ hs \<Rightarrow> set hs \<inter> own = {}
     | UpdateDescriptorSetCall h _ _ \<Rightarrow> h \<notin> own
     | CmdBindDescriptorSet _ h _ _ _ _ \<Rightarrow> h \<notin> own
     | _ \<Rightarrow> True))"

text \<open>A run in which the weak exchange never fails spuriously - the code calls it once and does not handle that - and the
  calls that other parts of the program make in between (\<open>EvOther\<close>) concern other descriptor sets.\<close>

fun plain_run :: "bind_env \<Rightarrow> bind_event list \<Rightarrow> bind_sys \<Rightarrow> bool" where
  "plain_run B [] s = True"
| "plain_run B (ev # evs) s = ((case ev of EvCas _ spurious \<Rightarrow> \<not> spurious | EvOther c \<Rightarrow> elsewhere c s | _ \<Rightarrow> True)
     \<and> (case bind_exec B ev s of Some (Inr s') \<Rightarrow> plain_run B evs s' | _ \<Rightarrow> True))"

fun set_ops_of :: "bind_event list \<Rightarrow> set_op list" where
  "set_ops_of [] = []"
| "set_ops_of (EvSet t op # evs) = op # set_ops_of evs"
| "set_ops_of (_ # evs) = set_ops_of evs"

end
