(* ===== verification/Pipeline_Cache.thy ===== *)
theory Pipeline_Cache
imports Device_Objects File_Properties
begin

text \<open>
  The pipeline cache on disk (\<open>namespace pipeline\<close> of \<open>rhi/vulkan/pipeline.cpp\<close>): the data of the driver's
  cache is saved as a serialised vector and handed to the driver again at the next start, when its header
  names this device. The serialiser's streams and what the driver answers are parameters.
\<close>

section \<open>The header\<close>

record device_props =
  dp_vendorID :: u32
  dp_deviceID :: u32
  dp_cacheUUID :: "u8 list"

text \<open>A field of the header is read from the data, least significant byte first; bytes beyond the end are not
  there to be read.\<close>

definition read_u32 :: "u8 list \<Rightarrow> nat \<Rightarrow> u32 res" where
  "read_u32 d i = (if i + 4 \<le> length d
     then Inr (of_nat (unat (d ! i) + 256 * unat (d ! (i + 1)) + 65536 * unat (d ! (i + 2)) + 16777216 * unat (d ! (i + 3))))
     else Inl Undefined)"

definition read_uuid :: "u8 list \<Rightarrow> (u8 list) res" where
  "read_uuid d = (if 32 \<le> length d then Inr (take 16 (drop 16 d)) else Inl Undefined)"

definition HEADER_VERSION_ONE :: u32 where "HEADER_VERSION_ONE = 1"

definition both :: "bool res \<Rightarrow> bool res \<Rightarrow> bool res" where
  "both a b = bind_res a (\<lambda>c. if c then b else Inr False)"

definition IsCacheValid :: "u8 list \<Rightarrow> device_props \<Rightarrow> bool res" where
  "IsCacheValid d props =
     both (bind_res (read_u32 d 0) (\<lambda>n. Inr (n > 0)))
     (both (bind_res (read_u32 d 4) (\<lambda>v. Inr (v = HEADER_VERSION_ONE)))
     (both (bind_res (read_u32 d 8) (\<lambda>v. Inr (v = dp_vendorID props)))
     (both (bind_res (read_u32 d 12) (\<lambda>v. Inr (v = dp_deviceID props)))
     (bind_res (read_uuid d) (\<lambda>u. Inr (u = take 16 (dp_cacheUUID props)))))))"

section \<open>Loading and saving\<close>

record cache_env =
  ce_files :: env
  ce_decode :: "u8 list \<Rightarrow> errc option \<times> u8 list"
  ce_encode :: "u8 list \<Rightarrow> errc + u8 list"
  ce_data :: "nat \<Rightarrow> u8 list"

text \<open>The client's state is \<open>cacheData\<close>, or the fault that reading it ran into. A stream that fails leaves what it
  has read.\<close>

definition loadCacheOp :: "cache_env \<Rightarrow> device_props \<Rightarrow> u8 list res load_fn" where
  "loadCacheOp C props bs c = (case ce_decode C bs of
       (Some er, d) \<Rightarrow> (Some er, Inr d)
     | (None, d) \<Rightarrow> (None, if d = [] then Inr [] else bind_res (IsCacheValid d props) (\<lambda>ok. Inr (if ok then d else []))))"

definition cached_data :: "cache_env \<Rightarrow> device_props \<Rightarrow> path \<Rightarrow> fsys \<Rightarrow> u8 list res" where
  "cached_data C props p fs = (case GetRecord (ce_files C) False p fs of
       Inl _ \<Rightarrow> Inr []
     | Inr _ \<Rightarrow> snd (snd (LoadBinary (ce_files C) False p (loadCacheOp C props) (fs, Inr []))))"

definition LoadPipelineCache :: "cache_env \<Rightarrow> obj_env \<Rightarrow> device_props \<Rightarrow> path \<Rightarrow> fsys \<Rightarrow> world \<Rightarrow> (nat \<times> world) res" where
  "LoadPipelineCache C e props p fs w = bind_res (cached_data C props p fs) (\<lambda>d. Inr (create_object e (PipelineCacheInfo d) w))"

definition GetPipelineCacheData :: "cache_env \<Rightarrow> nat \<Rightarrow> u8 list" where
  "GetPipelineCacheData C cache = ce_data C cache"

text \<open>The save operation's state is the fault, if reading the header ran into one.\<close>

definition saveCacheOp :: "cache_env \<Rightarrow> device_props \<Rightarrow> nat \<Rightarrow> unit res save_fn" where
  "saveCacheOp C props cache c = (let d = GetPipelineCacheData C cache in
     if d = [] then (Inl InvalidArgument, Inr ())
     else (case IsCacheValid d props of
         Inl f \<Rightarrow> (Inl InvalidArgument, Inl f)
       | Inr ok \<Rightarrow> (if \<not> ok then Inl InvalidArgument else ce_encode C d, Inr ())))"

definition SavePipelineCache :: "cache_env \<Rightarrow> device_props \<Rightarrow> path \<Rightarrow> nat \<Rightarrow> fsys \<Rightarrow> ((errc + fileRecord) \<times> fsys) res" where
  "SavePipelineCache C props p cache fs = (case SaveBinary (ce_files C) True p (saveCacheOp C props cache) (fs, Inr ()) of
       (r, fs', Inl f) \<Rightarrow> Inl f
     | (r, fs', Inr _) \<Rightarrow> Inr (r, fs'))"

section \<open>What is loaded is what was saved\<close>

lemma both_Inr: "both a b = Inr c \<longleftrightarrow> a = Inr False \<and> \<not> c \<or> a = Inr True \<and> b = Inr c"
  by (cases a) (auto simp: both_def)

lemma valid_other:
  assumes "IsCacheValid d props = Inr True"
  shows "IsCacheValid d other = Inr (dp_vendorID other = dp_vendorID props \<and> dp_deviceID other = dp_deviceID props
    \<and> take 16 (dp_cacheUUID other) = take 16 (dp_cacheUUID props))"
proof -
  obtain n where "read_u32 d 0 = Inr n" "n > 0" "read_u32 d 4 = Inr HEADER_VERSION_ONE" "read_u32 d 8 = Inr (dp_vendorID props)"
    "read_u32 d 12 = Inr (dp_deviceID props)" "read_uuid d = Inr (take 16 (dp_cacheUUID props))"
    using assms by (auto simp: IsCacheValid_def both_Inr bind_res_Inr)
  then show ?thesis by (auto simp: IsCacheValid_def both_def)
qed

text \<open>C36: A cache that was saved is handed to the driver again, byte for byte, by a device of the same vendor,
  device and cache id; a device that differs in one of them starts with an empty one.\<close>
theorem pipeline_cache_roundtrip:
  assumes "SavePipelineCache C props p cache fs = Inr (Inr r, fs')"
    and "\<And>d bs. ce_encode C d = Inr bs \<Longrightarrow> ce_decode C bs = (None, d)"
    and "map_source (ce_files C) fs' p = None"
  shows "LoadPipelineCache C e props p fs' w = Inr (create_object e (PipelineCacheInfo (ce_data C cache)) w)
    \<and> (dp_vendorID other \<noteq> dp_vendorID props \<or> dp_deviceID other \<noteq> dp_deviceID props
        \<or> take 16 (dp_cacheUUID other) \<noteq> take 16 (dp_cacheUUID props) \<longrightarrow>
       LoadPipelineCache C e other p fs' w = Inr (create_object e (PipelineCacheInfo []) w))"
proof -
  let ?d = "ce_data C cache"
  obtain bs where bs: "?d \<noteq> []" "IsCacheValid ?d props = Inr True" "ce_encode C ?d = Inr bs"
    and fs': "fs' = write_file p bs fs" "GetRecord (ce_files C) True p fs' = Inr r"
  proof (cases "saveCacheOp C props cache (Inr ())")
    case (Pair o' c)
    then obtain b where b: "o' = Inr b" "c = Inr ()" "fs' = write_file p b fs" "GetRecord (ce_files C) True p fs' = Inr r"
      using assms(1) Pair by (cases "map_sink (ce_files C) fs p"; cases o'; cases c) (simp_all add: SavePipelineCache_def SaveBinary_def Let_def)
    then show ?thesis using that Pair
      by (cases "IsCacheValid ?d props") (auto simp: saveCacheOp_def GetPipelineCacheData_def Let_def split: if_splits)
  qed
  have n: "node_at fs' p = Some (File bs (now fs))" by (simp add: fs'(1) write_file_def put_node_def node_at_def update_conv)
  then have c: "content fs' p = bs" by (simp add: content_def)
  obtain ts where ts: "GetTimeStamp (ce_files C) p fs' = Inr ts" using fs'(2) n
    by (cases "GetTimeStamp (ce_files C) p fs'") (simp_all add: GetRecord_def)
  then have r': "GetRecord (ce_files C) False p fs' = Inr \<lparr> fr_path = p, fr_timeStamp = ts, fr_sha2 = [], fr_size = length bs \<rparr>"
    using n by (simp add: GetRecord_def)
  have data: "cached_data C q p fs' = bind_res (IsCacheValid ?d q) (\<lambda>ok. Inr (if ok then ?d else []))" for q
    using r' assms(2) [OF bs(3)] assms(3) bs(1) c by (simp add: cached_data_def LoadBinary_def loadCacheOp_def)
  show ?thesis using bs(2) valid_other [OF bs(2), of other] by (auto simp: LoadPipelineCache_def data)
qed

definition ex_files :: env where
  "ex_files = \<lparr> map_source = (\<lambda>_ _. None), map_sink = (\<lambda>_ _. None), hash256_hex = (\<lambda>_. ''00''), encode = (\<lambda>_. Inl InvalidArgument),
     decode = (\<lambda>_. Inl InvalidArgument), uuid_str = (\<lambda>_. ''u''), strftime_c = (\<lambda>_. Some ''t''), relative_to = (\<lambda>p _. Inr p) \<rparr>"

definition ex_cache_env :: cache_env where
  "ex_cache_env = \<lparr> ce_files = ex_files, ce_decode = (\<lambda>bs. (None, tl bs)), ce_encode = (\<lambda>d. Inr (0 # d)),
     ce_data = (\<lambda>_. [32, 0, 0, 0, 1, 0, 0, 0, 7, 0, 0, 0, 9, 0, 0, 0] @ replicate 16 5 @ [42]) \<rparr>"

definition ex_props :: device_props where
  "ex_props = \<lparr> dp_vendorID = 7, dp_deviceID = 9, dp_cacheUUID = replicate 16 5 \<rparr>"

theorem pipeline_cache_roundtrip_witness:
  "\<exists>r fs'. SavePipelineCache ex_cache_env ex_props [''pipeline.cache''] 3 \<lparr> nodes = [], now = 1, uuid_count = 0 \<rparr> = Inr (Inr r, fs')
     \<and> (\<forall>e w. LoadPipelineCache ex_cache_env e ex_props [''pipeline.cache''] fs' w
             = Inr (create_object e (PipelineCacheInfo (ce_data ex_cache_env 3)) w)
           \<and> LoadPipelineCache ex_cache_env e (ex_props\<lparr> dp_deviceID := 10 \<rparr>) [''pipeline.cache''] fs' w
             = Inr (create_object e (PipelineCacheInfo []) w))"
proof -
  let ?fs = "\<lparr> nodes = [], now = 1, uuid_count = 0 \<rparr>"
  have v: "IsCacheValid (ce_data ex_cache_env 3) ex_props = Inr True"
    by (simp add: ex_cache_env_def ex_props_def IsCacheValid_def read_u32_def read_uuid_def both_def HEADER_VERSION_ONE_def)
  obtain r fs' where s: "SavePipelineCache ex_cache_env ex_props [''pipeline.cache''] 3 ?fs = Inr (Inr r, fs')"
    using v by (auto simp: SavePipelineCache_def SaveBinary_def saveCacheOp_def GetPipelineCacheData_def Let_def ex_cache_env_def
      ex_files_def write_file_def put_node_def node_at_def GetRecord_def GetTimeStamp_def)
  have d: "ce_decode ex_cache_env bs = (None, d)" if "ce_encode ex_cache_env d = Inr bs" for d bs
    using that by (auto simp: ex_cache_env_def)
  have m: "map_source (ce_files ex_cache_env) fs' [''pipeline.cache''] = None" by (simp add: ex_cache_env_def ex_files_def)
  note rt = pipeline_cache_roundtrip [OF s d m, where other = "ex_props\<lparr> dp_deviceID := 10 \<rparr>"]
  have "dp_deviceID (ex_props\<lparr> dp_deviceID := 10 \<rparr>) \<noteq> dp_deviceID ex_props" by (simp add: ex_props_def)
  then show ?thesis using s rt by blast
qed

end
