(* ===== verification/Pipeline_Model.thy ===== *)
theory Pipeline_Model
imports Pipeline_Layouts Descriptor_Binding Pipeline_Cache "HOL-Library.AList"
begin

text \<open>
  \<open>Pipeline\<close> (\<open>rhi/pipeline.h\<close>, \<open>rhi/vulkan/pipeline.cpp\<close>): the layouts it has made, the one that is bound,
  the state a graphics or compute pipeline is made from, the pipelines made so far by hash key, and the
  descriptor data of every set layout; the maps keep their entries in the order of insertion. The hash, the growth of the containers and the render targets that
  are alive are parameters.
\<close>

section \<open>State\<close>

text \<open>\<open>myCurrentLayoutIt\<close>: a null iterator at first, the end after a failed search, or at a layout; an insertion
  that reallocates the set leaves it dangling.\<close>

datatype layout_it = LayoutUnset | LayoutEnd | LayoutAt nat | LayoutDangling

record compute_state =
  cs_stage :: stage_info
  cs_launch :: "nat \<times> nat \<times> nat \<times> nat"

record pipeline =
  pp_base :: device_object
  pp_descriptors :: "(nat \<times> dset) list"
  pp_pool :: nat
  pp_pipelines :: "(u64 \<times> nat) list"
  pp_cache :: nat
  pp_bindPoint :: bind_point
  pp_renderTarget :: "nat \<times> nat"
  pp_layouts :: "pipeline_layout list"
  pp_current :: layout_it
  pp_graphics :: gfx_state
  pp_compute :: compute_state

record pipe_env =
  pe_obj :: obj_env
  pe_device :: nat
  pe_hash :: "bind_point \<Rightarrow> nat \<Rightarrow> u64"
  pe_realloc :: "nat \<Rightarrow> bool"
  pe_pushSupported :: bool

section \<open>The graphics state\<close>

definition vertex_input_none :: vertex_input where
  "vertex_input_none = \<lparr> vi_bindings = [], vi_attributes = [] \<rparr>"

definition InternalResetGraphicsState :: "gfx_state \<Rightarrow> gfx_state" where
  "InternalResetGraphicsState g = g\<lparr>
     gs_shaderStages := [], gs_stageFlags := 0, gs_vertexInput := vertex_input_none, gs_topology := 3, gs_primitiveRestart := False,
     gs_viewports := [\<lparr> vp_x = 0, vp_y = 0, vp_width = 0, vp_height = 0, vp_minDepth = 0, vp_maxDepth = 1 \<rparr>],
     gs_scissorRects := [\<lparr> rc_x = 0, rc_y = 0, rc_width = 0, rc_height = 0 \<rparr>],
     gs_rasterization := \<lparr> rs_depthClamp = False, rs_discard = False, rs_polygonMode = 0, rs_cullMode = 2, rs_frontFace = 0,
       rs_depthBias = False, rs_lineWidth = 1 \<rparr>,
     gs_multisample := \<lparr> mss_samples = 1, mss_sampleShading = False, mss_minSampleShading = 1, mss_alphaToCoverage = False,
       mss_alphaToOne = False \<rparr>,
     gs_depthStencil := \<lparr> dss_depthTest = True, dss_depthWrite = True, dss_compareOp = 1, dss_boundsTest = False,
       dss_stencilTest = False, dss_minDepth = 0, dss_maxDepth = 1 \<rparr>,
     gs_blendAttachments := [\<lparr> ba_enable = False, ba_color = (1, 0, 0), ba_alpha = (1, 0, 0), ba_writeMask = 15 \<rparr>],
     gs_logicOp := (False, 3), gs_dynamicStates := [0, 1] \<rparr>"

definition SetVertexInputState :: "(nat \<times> nat \<times> nat) list \<Rightarrow> (nat \<times> nat \<times> nat \<times> nat) list \<Rightarrow> pipeline \<Rightarrow> pipeline" where
  "SetVertexInputState bindings attributes p =
     p\<lparr> pp_graphics := (pp_graphics p)\<lparr> gs_vertexInput := \<lparr> vi_bindings = bindings, vi_attributes = attributes \<rparr> \<rparr> \<rparr>"

text \<open>The rendering info is looked up before the pass handle is asked for, which updates it.\<close>

definition SetRenderTarget :: "driver \<Rightarrow> (pass_key \<Rightarrow> u64) \<Rightarrow> (nat \<Rightarrow> image_layout res) \<Rightarrow> rt_desc \<Rightarrow> nat
    \<Rightarrow> render_target \<times> vk \<Rightarrow> pipeline \<Rightarrow> (pipeline \<times> render_target \<times> vk) res" where
  "SetRenderTarget d hash getLayout desc target s p = (let g = pp_graphics p in
     case (gs_viewports g, gs_scissorRects g) of
       (v # vs, r # rs) \<Rightarrow>
         let g' = g\<lparr> gs_viewports := v\<lparr> vp_width := rtd_width desc, vp_height := rtd_height desc \<rparr> # vs,
             gs_scissorRects := \<lparr> rc_x = 0, rc_y = 0, rc_width = rtd_width desc, rc_height = rtd_height desc \<rparr> # rs,
             gs_dynamicRendering := (if pipelineRenderingInfo (fst s) = None then None else Some target) \<rparr>
         in bind_res (InternalGetValues d hash getLayout desc s) (\<lambda>(pass, s').
              Inr (p\<lparr> pp_graphics := g', pp_renderTarget := pass \<rparr>, s'))
     | _ \<Rightarrow> Inl Undefined)"

section \<open>Layouts\<close>

definition find_layout :: "nat \<Rightarrow> pipeline_layout list \<Rightarrow> pipeline_layout option" where
  "find_layout h ls = find (\<lambda>l. pl_handle l = h) ls"

definition layout_at :: "nat \<Rightarrow> pipeline \<Rightarrow> pipeline_layout res" where
  "layout_at h p = (case find_layout h (pp_layouts p) of None \<Rightarrow> Inl Undefined | Some l \<Rightarrow> Inr l)"

text \<open>The null iterator is the end of a set that has never held a layout.\<close>

definition InternalGetLayout :: "pipeline \<Rightarrow> pipeline_layout res" where
  "InternalGetLayout p = (case pp_current p of
       LayoutUnset \<Rightarrow> (if pp_layouts p = [] then Inl EnsureFailed else Inl Undefined)
     | LayoutEnd \<Rightarrow> Inl EnsureFailed
     | LayoutAt h \<Rightarrow> layout_at h p
     | LayoutDangling \<Rightarrow> Inl Undefined)"

definition GetLayout :: "pipeline \<Rightarrow> nat res" where
  "GetLayout p = (case InternalGetLayout p of Inr l \<Rightarrow> Inr (pl_handle l) | Inl EnsureFailed \<Rightarrow> Inr 0 | Inl f \<Rightarrow> Inl f)"

definition CreateLayout :: "pipe_env \<Rightarrow> shader_set \<Rightarrow> pipeline \<times> world \<Rightarrow> (nat \<times> pipeline \<times> world) res" where
  "CreateLayout E ss = (\<lambda>(p, w). bind_res (PipelineLayout_new (pe_obj E) (pe_device E) ss w) (\<lambda>(l, w1).
     if find_layout (pl_handle l) (pp_layouts p) = None
     then Inr (pl_handle l, p\<lparr> pp_layouts := pp_layouts p @ [l],
            pp_current := (if pe_realloc E (length (pp_layouts p)) then LayoutDangling else pp_current p) \<rparr>, w1)
     else bind_res (PipelineLayout_destroy (pe_obj E) l w1) (\<lambda>w2. Inr (pl_handle l, p, w2))))"

definition SHADER_STAGE_ALL_GRAPHICS :: u32 where "SHADER_STAGE_ALL_GRAPHICS = 31"
definition SHADER_STAGE_COMPUTE_BIT :: u32 where "SHADER_STAGE_COMPUTE_BIT = 32"

definition stage_of :: "shader_module \<Rightarrow> stage_info" where
  "stage_of m = \<lparr> st_stage = ep_stage (shm_entry m), st_module = shm_handle m, st_name = ep_name (shm_entry m) \<rparr>"

definition graphics_modules :: "shader_module list \<Rightarrow> shader_module list" where
  "graphics_modules ms = filter (\<lambda>m. ep_stage (shm_entry m) AND SHADER_STAGE_ALL_GRAPHICS \<noteq> 0) ms"

definition bind_stages :: "shader_module list \<Rightarrow> pipeline \<Rightarrow> pipeline res" where
  "bind_stages ms p = (case pp_bindPoint p of
       BindGraphics \<Rightarrow> Inr (p\<lparr> pp_graphics := (pp_graphics p)\<lparr> gs_shaderStages := map stage_of (graphics_modules ms),
         gs_stageFlags := fold (\<lambda>m f. f OR ep_stage (shm_entry m)) (graphics_modules ms) 0 \<rparr> \<rparr>)
     | BindCompute \<Rightarrow> bind_res (ensure (ep_stage (shm_entry (last ms)) = SHADER_STAGE_COMPUTE_BIT)) (\<lambda>_.
         Inr (p\<lparr> pp_compute := \<lparr> cs_stage = stage_of (last ms),
           cs_launch = (case ep_launch (shm_entry (last ms)) of None \<Rightarrow> (0, 0, 0, 0) | Some l \<Rightarrow> l) \<rparr> \<rparr>)))"

definition prepare_set :: "pipe_env \<Rightarrow> nat \<Rightarrow> nat \<times> set_layout \<Rightarrow> pipeline \<times> world \<Rightarrow> (pipeline \<times> world) res" where
  "prepare_set E layout ns = (\<lambda>(p, w). if map_of (pp_descriptors p) (sl_handle (snd ns)) \<noteq> None then Inr (p, w)
     else bind_res (dset_new (pe_obj E) (pe_device E) (pp_pool p) (pp_bindPoint p) layout (fst ns) (snd ns) w) (\<lambda>(d, w').
       bind_res (ensure (map_of (pp_descriptors p) (sl_handle (snd ns)) = None)) (\<lambda>_.
       Inr (p\<lparr> pp_descriptors := pp_descriptors p @ [(sl_handle (snd ns), d)] \<rparr>, w'))))"

definition InternalPrepareDescriptorSets :: "pipe_env \<Rightarrow> pipeline \<times> world \<Rightarrow> (pipeline \<times> world) res" where
  "InternalPrepareDescriptorSets E = (\<lambda>(p, w). bind_res (InternalGetLayout p) (\<lambda>l.
     fold_res (prepare_set E (pl_handle l)) (pl_sets l) (p, w)))"

definition BindLayoutAuto :: "pipe_env \<Rightarrow> nat \<Rightarrow> bind_point \<Rightarrow> pipeline \<times> world \<Rightarrow> (pipeline \<times> world) res" where
  "BindLayoutAuto E h bp = (\<lambda>(p, w). (case find_layout h (pp_layouts p) of None \<Rightarrow> Inl EnsureFailed
     | Some l \<Rightarrow> bind_res (ensure (pl_modules l \<noteq> [])) (\<lambda>_.
         bind_res (bind_stages (pl_modules l) (p\<lparr> pp_bindPoint := bp, pp_current := LayoutAt h \<rparr>)) (\<lambda>p1.
           InternalPrepareDescriptorSets E (p1, w)))))"

section \<open>Pipelines by key\<close>

definition InternalCalculateHashKey :: "pipe_env \<Rightarrow> pipeline \<Rightarrow> u64 res" where
  "InternalCalculateHashKey E p = bind_res (InternalGetLayout p) (\<lambda>l. Inr (pe_hash E (pp_bindPoint p) (pl_handle l)))"

definition name_handle :: "pipe_env \<Rightarrow> pipeline \<Rightarrow> nat \<Rightarrow> nat \<Rightarrow> string \<Rightarrow> world \<Rightarrow> world" where
  "name_handle E p type h name w = (if oe_validation (pe_obj E)
     then w\<lparr> w_registry := AddOwnedObjectHandle (oe_hash (pe_obj E) (do_uuid (pp_base p))) type h name (w_registry w) \<rparr> else w)"

definition OBJECT_TYPE_PIPELINE :: nat where "OBJECT_TYPE_PIPELINE = 19"

text \<open>The rendering info of the target is read here, through the pointer.\<close>

definition rendering_of :: "(nat \<Rightarrow> render_target option) \<Rightarrow> nat option \<Rightarrow> pipeline_rendering_info option res" where
  "rendering_of targets t = (case t of None \<Rightarrow> Inr None
     | Some i \<Rightarrow> (case targets i of None \<Rightarrow> Inl Undefined
         | Some rt \<Rightarrow> (if pipelineRenderingInfo rt = None then Inl Undefined else Inr (pipelineRenderingInfo rt))))"

definition InternalCreateGraphicsPipeline ::
  "pipe_env \<Rightarrow> (nat \<Rightarrow> render_target option) \<Rightarrow> u64 \<Rightarrow> pipeline \<times> world \<Rightarrow> (nat \<times> world) res" where
  "InternalCreateGraphicsPipeline E targets hashKey = (\<lambda>(p, w). bind_res (InternalGetLayout p) (\<lambda>l.
     bind_res (rendering_of targets (gs_dynamicRendering (pp_graphics p))) (\<lambda>info.
     let (h, w1) = create_object (pe_obj E) (GraphicsPipelineInfo (pp_cache p) \<lparr> gpi_state = pp_graphics p, gpi_rendering = info,
           gpi_layout = pl_handle l, gpi_renderPass = fst (pp_renderTarget p) \<rparr>) w
     in Inr (h, name_handle E p OBJECT_TYPE_PIPELINE h (do_name (pp_base p) @ ''_Pipeline_'' @ dec_string (unat hashKey)) w1))))"

definition InternalCreateComputePipeline :: "pipe_env \<Rightarrow> pipeline \<times> world \<Rightarrow> (nat \<times> world) res" where
  "InternalCreateComputePipeline E = (\<lambda>(p, w). bind_res (InternalGetLayout p) (\<lambda>l.
     Inr (create_object (pe_obj E) (ComputePipelineInfo (pp_cache p) (cs_stage (pp_compute p)) (pl_handle l)) w)))"

definition InternalCreatePipeline ::
  "pipe_env \<Rightarrow> (nat \<Rightarrow> render_target option) \<Rightarrow> u64 \<Rightarrow> pipeline \<times> world \<Rightarrow> (nat \<times> world) res" where
  "InternalCreatePipeline E targets key s = (case pp_bindPoint (fst s) of
       BindGraphics \<Rightarrow> InternalCreateGraphicsPipeline E targets key s
     | BindCompute \<Rightarrow> InternalCreateComputePipeline E s)"

text \<open>A key that is there with a null handle is waited for: nothing stores it any more, and the call does not return
  (\<open>None\<close>).\<close>

definition InternalGetPipeline ::
  "pipe_env \<Rightarrow> (nat \<Rightarrow> render_target option) \<Rightarrow> pipeline \<times> world \<Rightarrow> (nat \<times> pipeline \<times> world) res option" where
  "InternalGetPipeline E targets = (\<lambda>(p, w). case InternalCalculateHashKey E p of Inl f \<Rightarrow> Some (Inl f)
     | Inr key \<Rightarrow> (case map_of (pp_pipelines p) key of
         Some h \<Rightarrow> (if h = 0 then None else Some (Inr (h, p, w)))
       | None \<Rightarrow> Some (bind_res (InternalCreatePipeline E targets key (p, w)) (\<lambda>(h, w').
           Inr (h, p\<lparr> pp_pipelines := pp_pipelines p @ [(key, h)] \<rparr>, w')))))"

definition BindPipelineAuto ::
  "pipe_env \<Rightarrow> (nat \<Rightarrow> render_target option) \<Rightarrow> nat \<Rightarrow> pipeline \<times> world \<Rightarrow> (nat \<times> pipeline \<times> world) res option" where
  "BindPipelineAuto E targets cmd s = (case InternalGetPipeline E targets s of None \<Rightarrow> None | Some (Inl f) \<Rightarrow> Some (Inl f)
     | Some (Inr (h, p, w)) \<Rightarrow> Some (Inr (h, p, call (CmdBindPipeline cmd (pp_bindPoint p) h) w)))"

section \<open>Descriptor data\<close>

datatype var_data = VarOne binding_variant | VarVector "binding_variant list" | VarIndexed binding_variant nat

fun var_op :: "nat \<times> nat \<times> nat \<Rightarrow> var_data \<Rightarrow> set_op" where
  "var_op (k, ty, n) (VarOne v) = SetOne k (of_nat ty) v"
| "var_op (k, ty, n) (VarVector vs) = SetVector k (of_nat ty) n vs"
| "var_op (k, ty, n) (VarIndexed v i) = SetIndexed k (of_nat ty) v i"

definition SetDescriptorData_layout ::
  "pipe_env \<Rightarrow> u64 \<Rightarrow> set_layout \<Rightarrow> var_data \<Rightarrow> pipeline \<times> world \<Rightarrow> (pipeline \<times> world) res" where
  "SetDescriptorData_layout E hash l v = (\<lambda>(p, w). bind_res (GetShaderVariableBinding l hash) (\<lambda>b.
     case map_of (pp_descriptors p) (sl_handle l) of None \<Rightarrow> Inl OutOfRange
     | Some d \<Rightarrow> bind_res (set_dset (pe_obj E) (var_op b v) d w) (\<lambda>(d', w').
         Inr (p\<lparr> pp_descriptors := AList.update (sl_handle l) d' (pp_descriptors p) \<rparr>, w'))))"

definition SetDescriptorData :: "pipe_env \<Rightarrow> u64 \<Rightarrow> var_data \<Rightarrow> nat \<Rightarrow> pipeline \<times> world \<Rightarrow> (pipeline \<times> world) res" where
  "SetDescriptorData E hash v nr s = bind_res (InternalGetLayout (fst s)) (\<lambda>l. bind_res (GetDescriptorSetLayout l nr) (\<lambda>sl.
     SetDescriptorData_layout E hash sl v s))"

text \<open>One thread that binds alone; \<open>Descriptor_Binding\<close> has the threads that bind together.\<close>

definition bind_env_of :: "pipe_env \<Rightarrow> pipeline \<Rightarrow> pipeline_layout \<Rightarrow> set_layout \<Rightarrow> nat \<Rightarrow> bind_env" where
  "bind_env_of E p l sl nr = \<lparr> be_env = pe_obj E, be_device = pe_device E, be_pool = pp_pool p, be_setLayout = sl_handle sl,
     be_bindPoint = pp_bindPoint p, be_pipelineLayout = pl_handle l, be_setNr = nr, be_pushSupported = pe_pushSupported E \<rparr>"

definition refresh_set :: "bind_env \<Rightarrow> dset \<Rightarrow> (set_array \<times> u8) list \<Rightarrow> world \<Rightarrow> (dset \<times> (set_array \<times> u8) list \<times> world) res" where
  "refresh_set B d as w = (if setState (ds_data d) = KDirty
     then bind_res (InternalUpdateDescriptorSet (be_env B) (be_device B) (be_pool B) (be_setLayout B) (ut_handle (ds_template d))
            (bData (ds_data d)) as w) (\<lambda>(as', w').
          Inr (d\<lparr> ds_data := (ds_data d)\<lparr> setState := KReady \<rparr>, ds_arrays := Some as' \<rparr>, as', w'))
     else Inr (d, as, w))"

definition bind_dset :: "bind_env \<Rightarrow> nat \<Rightarrow> nat option \<Rightarrow> dset \<times> world \<Rightarrow> (dset \<times> world) res" where
  "bind_dset B cmd off = (\<lambda>(d, w). case ds_arrays d of
       Some as \<Rightarrow> bind_res (refresh_set B d as w) (\<lambda>(d', as', w').
         bind_res (ensure (as' \<noteq> [])) (\<lambda>_. bind_res (idx (sa_sets (fst (hd as'))) (unat (snd (hd as')))) (\<lambda>h.
           Inr (d', call (CmdBindDescriptorSet cmd h (be_bindPoint B) (be_pipelineLayout B) (be_setNr B) off) w'))))
     | None \<Rightarrow> bind_res (ensure (be_pushSupported B)) (\<lambda>_. Inr (d, call (CmdPushDescriptorSet cmd (ut_handle (ds_template d))
           (be_pipelineLayout B) (ti_set (ut_desc (ds_template d))) (bData (ds_data d))) w)))"

definition BindDescriptorSetAuto :: "pipe_env \<Rightarrow> nat \<Rightarrow> nat \<Rightarrow> nat option \<Rightarrow> pipeline \<times> world \<Rightarrow> (pipeline \<times> world) res" where
  "BindDescriptorSetAuto E cmd nr off = (\<lambda>(p, w). bind_res (InternalGetLayout p) (\<lambda>l. bind_res (GetDescriptorSetLayout l nr) (\<lambda>sl.
     case map_of (pp_descriptors p) (sl_handle sl) of None \<Rightarrow> Inl OutOfRange
     | Some d \<Rightarrow> bind_res (bind_dset (bind_env_of E p l sl nr) cmd off (d, w)) (\<lambda>(d', w').
         Inr (p\<lparr> pp_descriptors := AList.update (sl_handle sl) d' (pp_descriptors p) \<rparr>, w')))))"

section \<open>Construction and destruction\<close>

definition kGlobalResourceBaseCount :: nat where "kGlobalResourceBaseCount = 128"
definition kBufferBaseCount :: nat where "kBufferBaseCount = kGlobalResourceBaseCount * 1024"
definition kMaxSets :: nat where "kMaxSets = 16 * 1024"

text \<open>The counts of samplers are multiples of the number of the samplers' set (4), those of textures of the
  texture counts of \<open>rhi/shaders/capi.h\<close>.\<close>

definition kPoolSizes :: "(nat \<times> nat) list" where
  "kPoolSizes = [(0, kGlobalResourceBaseCount * 4), (1, kGlobalResourceBaseCount * 4), (2, kGlobalResourceBaseCount * 128),
     (3, kGlobalResourceBaseCount * 8)] @ map (\<lambda>t. (t, kBufferBaseCount)) [4, 5, 6, 7, 8, 9, 10]"

definition POOL_CREATE_FREE_DESCRIPTOR_SET_BIT :: u32 where "POOL_CREATE_FREE_DESCRIPTOR_SET_BIT = 1"
definition OBJECT_TYPE_PIPELINE_CACHE :: nat where "OBJECT_TYPE_PIPELINE_CACHE = 16"
definition OBJECT_TYPE_DESCRIPTOR_POOL :: nat where "OBJECT_TYPE_DESCRIPTOR_POOL = 22"

definition gfx_state_zero :: gfx_state where
  "gfx_state_zero = \<lparr> gs_shaderStages = [], gs_stageFlags = 0, gs_vertexInput = vertex_input_none, gs_topology = 0,
     gs_primitiveRestart = False, gs_viewports = [], gs_scissorRects = [],
     gs_rasterization = \<lparr> rs_depthClamp = False, rs_discard = False, rs_polygonMode = 0, rs_cullMode = 0, rs_frontFace = 0,
       rs_depthBias = False, rs_lineWidth = 0 \<rparr>,
     gs_multisample = \<lparr> mss_samples = 0, mss_sampleShading = False, mss_minSampleShading = 0, mss_alphaToCoverage = False,
       mss_alphaToOne = False \<rparr>,
     gs_depthStencil = \<lparr> dss_depthTest = False, dss_depthWrite = False, dss_compareOp = 0, dss_boundsTest = False,
       dss_stencilTest = False, dss_minDepth = 0, dss_maxDepth = 0 \<rparr>,
     gs_blendAttachments = [], gs_logicOp = (False, 0), gs_dynamicStates = [], gs_dynamicRendering = None \<rparr>"

definition compute_state_zero :: compute_state where
  "compute_state_zero = \<lparr> cs_stage = \<lparr> st_stage = 0, st_module = 0, st_name = [] \<rparr>, cs_launch = (0, 0, 0, 0) \<rparr>"

definition Pipeline_new :: "pipe_env \<Rightarrow> cache_env \<Rightarrow> device_props \<Rightarrow> path \<Rightarrow> fsys \<Rightarrow> world \<Rightarrow> (pipeline \<times> world) res" where
  "Pipeline_new E C props cachePath fs w =
     (let b = DeviceObject_new (pe_device E) [] (new_uuid (pe_obj E) w);
          (pool, w1) = create_object (pe_obj E) (DescriptorPoolInfo kPoolSizes (kMaxSets * length kPoolSizes) kBufferBaseCount
            POOL_CREATE_FREE_DESCRIPTOR_SET_BIT) w
      in bind_res (LoadPipelineCache C (pe_obj E) props cachePath fs w1) (\<lambda>(cache, w2).
         let p = \<lparr> pp_base = b, pp_descriptors = [], pp_pool = pool, pp_pipelines = [], pp_cache = cache, pp_bindPoint = BindGraphics,
                  pp_renderTarget = (0, 0), pp_layouts = [], pp_current = LayoutUnset,
                  pp_graphics = InternalResetGraphicsState gfx_state_zero, pp_compute = compute_state_zero \<rparr>
         in Inr (p, name_handle E p OBJECT_TYPE_DESCRIPTOR_POOL pool ''Device_DescriptorPool''
              (name_handle E p OBJECT_TYPE_PIPELINE_CACHE cache (do_name b @ ''_PipelineCache'') w2))))"

definition dset_destroy :: "obj_env \<Rightarrow> dset \<Rightarrow> world \<Rightarrow> world res" where
  "dset_destroy e d w = bind_res (case ds_arrays d of None \<Rightarrow> Inr w | Some as \<Rightarrow> fold_res (\<lambda>(a, i). DescriptorSetArray_destroy e a) as w)
     (\<lambda>w'. DescriptorUpdateTemplate_destroy e (ds_template d) w')"

text \<open>Saving the cache may fail; only a fault ends the program. The layouts go with the members, after the body.\<close>

definition Pipeline_destroy :: "pipe_env \<Rightarrow> cache_env \<Rightarrow> device_props \<Rightarrow> path \<Rightarrow> fsys \<Rightarrow> pipeline \<times> world \<Rightarrow> (fsys \<times> world) res" where
  "Pipeline_destroy E C props cachePath fs = (\<lambda>(p, w). let e = pe_obj E in
     bind_res (SavePipelineCache C props cachePath (pp_cache p) fs) (\<lambda>(_, fs').
     bind_res (fold_res (\<lambda>(key, h). destroy_handles HPipeline 0 (pp_base p) [h]) (pp_pipelines p) w) (\<lambda>w1.
     bind_res (destroy_handles HPipelineCache 0 (pp_base p) [pp_cache p] w1) (\<lambda>w2.
     bind_res (fold_res (\<lambda>(k, d). dset_destroy e d) (pp_descriptors p) w2) (\<lambda>w3.
     bind_res (if pp_pool p \<noteq> 0 then destroy_handles HDescriptorPool 0 (pp_base p) [pp_pool p] w3 else Inr w3) (\<lambda>w4.
     bind_res (fold_res (PipelineLayout_destroy e) (pp_layouts p) w4) (\<lambda>w5.
       Inr (fs', DeviceObject_destroy e (pp_base p) w5))))))))"

end
