(* ===== verification/Binding_Properties.thy ===== *)
theory Binding_Properties
imports Descriptor_Binding
begin

text \<open>
  A bound set holds what was last set, however threads that set and bind interleave, and no set is updated
  once it has been bound; a weak exchange that fails without a reason breaks the first.
\<close>

section \<open>Roles\<close>

definition compat :: "role \<Rightarrow> role \<Rightarrow> bool" where
  "compat a b \<longleftrightarrow> a = No_Access \<or> b = No_Access \<or> a = Read_Access \<and> b = Read_Access
     \<or> a = Read_Access \<and> b = Upgrade_Access \<or> a = Upgrade_Access \<and> b = Read_Access"

lemma compat_sym: "compat a b \<Longrightarrow> compat b a"
  by (auto simp: compat_def)

definition excl :: "role list \<Rightarrow> bool" where
  "excl rs \<longleftrightarrow> (\<forall>i < length rs. \<forall>j < length rs. i \<noteq> j \<longrightarrow> compat (rs ! i) (rs ! j))"

lemma permits_compat: "permits old new rs t \<Longrightarrow> i < length rs \<Longrightarrow> i \<noteq> t \<Longrightarrow> compat old (rs ! i) \<Longrightarrow> compat new (rs ! i)"
  by (cases old; cases new; cases "rs ! i") (auto simp: permits_def Let_def compat_def)

lemma excl_step:
  assumes e: "excl rs" and t: "t < length rs" and p: "permits (rs ! t) new rs t"
  shows "excl (rs[t := new])"
proof -
  have n: "compat new (rs ! i)" if "i < length rs" "i \<noteq> t" for i
    using permits_compat [OF p that] e t that by (simp add: excl_def)
  show ?thesis unfolding excl_def
  proof (intro allI impI)
    fix i j assume l: "i < length (rs[t := new])" "j < length (rs[t := new])" "i \<noteq> j"
    then have "compat (rs ! i) (rs ! j)" using e by (simp add: excl_def)
    then show "compat (rs[t := new] ! i) (rs[t := new] ! j)"
      using n [of i] n [of j] l t by (cases "i = t"; cases "j = t") (simp_all add: compat_sym)
  qed
qed

lemma excl_move:
  assumes "may_move s t p (bind_role q)" "excl (map bind_role (bs_pcs s))"
  shows "excl (map bind_role (bs_pcs (move_to t q s)))"
  using excl_step [OF assms(2), of t "bind_role q"] assms(1) by (simp add: may_move_def move_to_def map_update)

lemma excl_upgrade:
  assumes "excl (map bind_role pcs)" "t < length pcs" "bind_role (pcs ! t) = Upgrade_Access" "i < length pcs" "i \<noteq> t"
  shows "pcs ! i \<in> {BIdle, BShared}"
proof -
  have "bind_role (pcs ! i) \<in> {No_Access, Read_Access}" using assms unfolding excl_def by (force simp: compat_def)
  then show ?thesis by (cases "pcs ! i") auto
qed

lemma excl_write:
  assumes "excl (map bind_role pcs)" "t < length pcs" "pcs ! t = BLocked" "i < length pcs" "i \<noteq> t"
  shows "pcs ! i = BIdle"
proof -
  have "bind_role (pcs ! i) = No_Access" using assms unfolding excl_def by (force simp: compat_def)
  then show ?thesis by (cases "pcs ! i") auto
qed

definition pending :: "bind_pc list \<Rightarrow> bool" where
  "pending pcs \<longleftrightarrow> BWant \<in> set pcs \<or> BLocked \<in> set pcs"

section \<open>The driver's memory\<close>

lemma mem_of_call [simp]: "mem_of (call c w) = mem_step c (mem_of w)"
  by (simp add: mem_of_def call_def)

lemma mem_of_registry [simp]: "mem_of (w\<lparr> w_registry := r \<rparr>) = mem_of w"
  by (simp add: mem_of_def)

lemma mem_of_register [simp]: "mem_of (register_handles e u n t hs w) = mem_of w"
  by (simp add: register_handles_def)

lemma calls_call [simp]: "w_calls (call c w) = w_calls w @ [c]"
  by (simp add: call_def)

lemma calls_register [simp]: "w_calls (register_handles e u n t hs w) = w_calls w"
  by (simp add: register_handles_def)

definition arrays_inv :: "(set_array \<times> u8) list \<Rightarrow> set_mem \<Rightarrow> bool" where
  "arrays_inv as m \<longleftrightarrow> as \<noteq> [] \<and> (\<forall>a \<in> set as. length (sa_sets (fst a)) = kDescriptorSetCount)
     \<and> unat (snd (hd as)) < kDescriptorSetCount \<and> distinct (own_sets as) \<and> set (own_sets as) \<subseteq> sm_live m
     \<and> (\<forall>k. unat (snd (hd as)) < k \<and> k < kDescriptorSetCount \<longrightarrow> (let h = sa_sets (fst (hd as)) ! k in
          h \<notin> sm_updated m \<and> h \<notin> sm_bound m \<and> sm_sets m h = (\<lambda>_ _. None)))"

definition front_set :: "(set_array \<times> u8) list \<Rightarrow> nat" where
  "front_set as = sa_sets (fst (hd as)) ! unat (snd (hd as))"

lemma DescriptorSetArray_new_ok:
  assumes "sets_fresh e" "own \<subseteq> sm_live (mem_of w)"
  shows "\<exists>a w'. DescriptorSetArray_new e dev (layout, pool) w = Inr (a, w')
    \<and> length (sa_sets a) = kDescriptorSetCount \<and> distinct (sa_sets a) \<and> set (sa_sets a) \<inter> own = {}
    \<and> mem_of w' = (mem_of w)\<lparr> sm_live := sm_live (mem_of w) \<union> set (sa_sets a),
        sm_sets := (\<lambda>h. if h \<in> set (sa_sets a) then (\<lambda>_ _. None) else sm_sets (mem_of w) h),
        sm_updated := sm_updated (mem_of w) - set (sa_sets a), sm_bound := sm_bound (mem_of w) - set (sa_sets a) \<rparr>"
proof -
  let ?info = "DescriptorSetsInfo pool (replicate kDescriptorSetCount layout)"
  let ?hs = "map (oe_sets e (w_calls w) ?info) [0..<kDescriptorSetCount]"
  have inj: "inj_on (oe_sets e (w_calls w) ?info) {..<kDescriptorSetCount}"
    and f: "\<forall>i < kDescriptorSetCount. oe_sets e (w_calls w) ?info i \<notin> sm_live (mem_of w)"
    using assms(1) by (auto simp: sets_fresh_def mem_of_def)
  have "distinct ?hs" using inj by (simp add: distinct_map lessThan_atLeast0 atLeast_upt)
  moreover have "set ?hs \<inter> own = {}" using f assms(2) by auto
  ultimately show ?thesis
    by (auto simp: DescriptorSetArray_new_def DeviceObject_named_def Let_def take_base_def)
qed

lemma byte_succ: "unat (i :: u8) < 255 \<Longrightarrow> unat (i + 1) = unat i + 1"
  by (simp add: unat_word_ariths)

definition unused_from :: "nat \<Rightarrow> set_array \<Rightarrow> set_mem \<Rightarrow> bool" where
  "unused_from n a m \<longleftrightarrow> (\<forall>k. n \<le> k \<and> k < kDescriptorSetCount \<longrightarrow>
     sa_sets a ! k \<notin> sm_updated m \<and> sa_sets a ! k \<notin> sm_bound m \<and> sm_sets m (sa_sets a ! k) = (\<lambda>_ _. None))"

lemma update_front_ok:
  fixes d :: "binding_variant list"
  assumes i: "unat (i + 1) < kDescriptorSetCount" and len: "\<forall>x \<in> set ((a, i) # r). length (sa_sets (fst x)) = kDescriptorSetCount"
    and dist: "distinct (own_sets ((a, i) # r))" and live: "set (own_sets ((a, i) # r)) \<subseteq> sm_live (mem_of w)"
    and unused: "unused_from (unat (i + 1)) a (mem_of w)" and tm: "sm_templates (mem_of w) template = Some es"
  defines "as' \<equiv> (a, i + 1) # r"
  defines "w' \<equiv> call (UpdateDescriptorSetCall (front_set as') template d) w"
  shows "update_front template d ((a, i) # r) w = Inr (as', w')" "arrays_inv as' (mem_of w')"
    "\<forall>k j. sm_sets (mem_of w') (front_set as') k j = template_writes es d k j"
    "front_set as' \<notin> sm_bound (mem_of w)" "sm_templates (mem_of w') = sm_templates (mem_of w)"
proof -
  have f: "front_set as' = sa_sets a ! unat (i + 1)" by (simp add: front_set_def as'_def)
  have l: "length (sa_sets a) = kDescriptorSetCount" using len by simp
  have h: "front_set as' \<notin> sm_bound (mem_of w)" "sm_sets (mem_of w) (front_set as') = (\<lambda>_ _. None)"
    using unused i by (auto simp: unused_from_def f)
  have ne: "sa_sets a ! k \<noteq> sa_sets a ! unat (i + 1)" if "unat (i + 1) < k" "k < kDescriptorSetCount" for k
    using dist i l that by (simp add: own_sets_def nth_eq_iff_index_eq)
  show "update_front template d ((a, i) # r) w = Inr (as', w')" using i l by (simp add: update_front_def idx_def w'_def as'_def f [unfolded as'_def])
  show "arrays_inv as' (mem_of w')" unfolding w'_def f as'_def
    using len dist live unused i tm ne by (simp add: arrays_inv_def own_sets_def Let_def unused_from_def f [unfolded as'_def])
  show "\<forall>k j. sm_sets (mem_of w') (front_set as') k j = template_writes es d k j"
    using h tm by (simp add: w'_def split: option.split)
  show "front_set as' \<notin> sm_bound (mem_of w)" by (rule h)
  show "sm_templates (mem_of w') = sm_templates (mem_of w)" by (simp add: w'_def)
qed

lemma update_set_ok:
  assumes a: "arrays_inv as (mem_of w)" and e: "sets_fresh e" and t: "sm_templates (mem_of w) template = Some es"
  obtains as' w' cs where "InternalUpdateDescriptorSet e dev pool layout template d as w = Inr (as', w')"
    "arrays_inv as' (mem_of w')" "\<forall>k i. sm_sets (mem_of w') (front_set as') k i = template_writes es d k i"
    "w_calls w' = cs @ [UpdateDescriptorSetCall (front_set as') template d]" "front_set as' \<notin> sm_bound (fold mem_step cs set_mem_new)"
    "sm_templates (mem_of w') = sm_templates (mem_of w)"
proof -
  have all: "\<forall>x \<in> set as. length (sa_sets (fst x)) = kDescriptorSetCount" and dist: "distinct (own_sets as)"
    and live: "set (own_sets as) \<subseteq> sm_live (mem_of w)" using a by (simp_all add: arrays_inv_def)
  show ?thesis
  proof (cases "front_used_up as")
    case False
    obtain b i r where as: "as = (b, i) # r" using a by (cases as) (auto simp: arrays_inv_def)
    have "i \<noteq> 15" using False by (simp add: as front_used_up_def kDescriptorSetCount_def)
    then have "unat i \<noteq> 15" by (auto simp: word_unat_eq_iff)
    moreover have "unat i < 16" using a by (simp add: as arrays_inv_def kDescriptorSetCount_def)
    ultimately have i: "unat i < 15" by simp
    then have s: "unat (i + 1) = unat i + 1" by (simp add: byte_succ)
    have "unat (i + 1) < kDescriptorSetCount" using i by (simp add: s kDescriptorSetCount_def)
    moreover have "unused_from (unat (i + 1)) b (mem_of w)" using a s by (simp add: as arrays_inv_def unused_from_def Let_def)
    ultimately have c: "unat (i + 1) < kDescriptorSetCount" "unused_from (unat (i + 1)) b (mem_of w)" by simp_all
    note u = update_front_ok [OF c(1) all [unfolded as] dist [unfolded as] live [unfolded as] c(2) t]
    show ?thesis by (rule that [OF _ u(2,3) _ _ u(5), of "w_calls w"])
      (use u(1,4) False in \<open>simp_all add: InternalUpdateDescriptorSet_def as mem_of_def\<close>)
  next
    case True
    obtain b w1 where b: "DescriptorSetArray_new e dev (layout, pool) w = Inr (b, w1)" "length (sa_sets b) = kDescriptorSetCount"
      "distinct (sa_sets b)" "set (sa_sets b) \<inter> set (own_sets as) = {}"
      and m: "mem_of w1 = (mem_of w)\<lparr> sm_live := sm_live (mem_of w) \<union> set (sa_sets b),
        sm_sets := (\<lambda>h. if h \<in> set (sa_sets b) then (\<lambda>_ _. None) else sm_sets (mem_of w) h),
        sm_updated := sm_updated (mem_of w) - set (sa_sets b), sm_bound := sm_bound (mem_of w) - set (sa_sets b) \<rparr>"
      using DescriptorSetArray_new_ok [OF e live] by blast
    have c1: "unat (NOT 0 + 1 :: u8) < kDescriptorSetCount" by (simp add: kDescriptorSetCount_def)
    have c2: "\<forall>x \<in> set ((b, NOT 0 :: u8) # as). length (sa_sets (fst x)) = kDescriptorSetCount" using all b(2) by simp
    have c3: "distinct (own_sets ((b, NOT 0) # as))" using dist b(3,4) by (simp add: own_sets_def)
    have c4: "set (own_sets ((b, NOT 0) # as)) \<subseteq> sm_live (mem_of w1)" using live by (auto simp: own_sets_def m)
    have c5: "unused_from (unat (NOT 0 + 1 :: u8)) b (mem_of w1)" using b(2) by (simp add: m unused_from_def)
    have c6: "sm_templates (mem_of w1) template = Some es" using t by (simp add: m)
    note u = update_front_ok [OF c1 c2 c3 c4 c5 c6]
    have "sm_templates (mem_of w1) = sm_templates (mem_of w)" by (simp add: m)
    then show ?thesis by (intro that [OF _ u(2,3) _ _ trans [OF u(5)], of "w_calls w1"])
      (use u(1,4) True b(1) in \<open>simp_all add: InternalUpdateDescriptorSet_def mem_of_def\<close>)
  qed
qed

section \<open>The state between events\<close>

lemma state_fields:
  "bMap (d\<lparr> setState := x \<rparr>) = bMap d" "bData (d\<lparr> setState := x \<rparr>) = bData d"
  "finish_set m v (d\<lparr> setState := x \<rparr>) = finish_set m v d"
  by (simp_all add: finish_set_def)

lemma set_op_exec_state: "set_op_exec op (d\<lparr> setState := x \<rparr>) = set_op_exec op d"
  by (cases op; simp only: set_op_exec.simps; unfold SetDescriptorData_one_def SetDescriptorData_vector_def
    SetDescriptorData_indexed_def fill_new_def state_fields; rule refl)

lemma fill_new_dirty: "fill_new i m rng vs d = Inr d' \<Longrightarrow> setState d' = KDirty"
  by (auto simp: fill_new_def finish_set_def Let_def bind_res_Inr split: prod.splits)

lemma set_op_exec_dirty: "set_op_exec op d = Inr d' \<Longrightarrow> setState d' = KDirty"
  by (cases op) (auto simp: SetDescriptorData_one_def SetDescriptorData_vector_def SetDescriptorData_indexed_def
    finish_set_def Let_def bind_res_Inr split: prod.splits if_splits dest: fill_new_dirty)

lemma element_state [simp]: "element (d\<lparr> setState := x \<rparr>) = element d"
  by (unfold element_def state_fields) (rule refl)

lemma set_data_ok_state [simp]: "set_data_ok (d\<lparr> setState := x \<rparr>) = set_data_ok d"
  by (simp add: set_data_ok_def)

definition bind_inv :: "bind_sys \<Rightarrow> bool" where
  "bind_inv s \<longleftrightarrow> (let d = ds_data (bs_set s); m = mem_of (bs_world s); pcs = bs_pcs s in
     set_data_ok d \<and> excl (map bind_role pcs) \<and> (pending pcs \<longrightarrow> setState d = KReady)
     \<and> (BShared \<in> set pcs \<longrightarrow> setState d = KReady \<and> \<not> pending pcs)
     \<and> (setState d = KDirty \<or> pending pcs \<longrightarrow> sm_templates m (ut_handle (ds_template (bs_set s))) = Some (templateEntries d))
     \<and> (\<exists>as. ds_arrays (bs_set s) = Some as \<and> arrays_inv as m
          \<and> (setState d = KReady \<and> \<not> pending pcs \<longrightarrow> (\<forall>k i. sm_sets m (front_set as) k i = element d k i))))"

lemma front_own: "arrays_inv as m \<Longrightarrow> front_set as \<in> set (own_sets as)"
  by (cases as) (auto simp: arrays_inv_def front_set_def own_sets_def)

lemma next_own: "arrays_inv as m \<Longrightarrow> k < kDescriptorSetCount \<Longrightarrow> sa_sets (fst (hd as)) ! k \<in> set (own_sets as)"
  by (cases as) (auto simp: arrays_inv_def own_sets_def)

lemma arrays_inv_cong:
  assumes a: "arrays_inv as m" and "set (own_sets as) \<subseteq> sm_live m'"
    and "\<And>h. h \<in> set (own_sets as) \<Longrightarrow> sm_sets m' h = sm_sets m h"
    and "\<And>h. h \<in> set (own_sets as) \<Longrightarrow> h \<in> sm_updated m' \<Longrightarrow> h \<in> sm_updated m"
    and "\<And>h. h \<in> set (own_sets as) \<Longrightarrow> h \<in> sm_bound m' \<Longrightarrow> h \<in> sm_bound m"
  shows "arrays_inv as m'"
  using a assms(2) assms(3-5) [OF next_own [OF a]] unfolding arrays_inv_def Let_def by simp blast

lemma pending_update:
  assumes "\<And>i. i < length pcs \<Longrightarrow> i \<noteq> t \<Longrightarrow> pcs ! i \<in> {BIdle, BUpgrade, BShared}" "t < length pcs"
  shows "pending (pcs[t := p]) \<longleftrightarrow> p = BWant \<or> p = BLocked"
proof -
  have "pcs[t := p] ! i \<in> {BIdle, BUpgrade, BShared, p}" if "i < length pcs" for i
    using assms(1) [OF that] assms(2) that by (cases "i = t") auto
  then have "set (pcs[t := p]) \<subseteq> {BIdle, BUpgrade, BShared, p}" by (fastforce simp: in_set_conv_nth)
  moreover have "p \<in> set (pcs[t := p])" using assms(2) by (simp add: set_update_memI)
  ultimately show ?thesis by (auto simp: pending_def)
qed

lemma pending_keep:
  assumes "t < length pcs" "pcs ! t \<notin> {BWant, BLocked}" "p \<notin> {BWant, BLocked}"
  shows "pending (pcs[t := p]) = pending pcs"
  using assms by (auto simp: pending_def in_set_conv_nth nth_list_update)

lemma in_idle:
  assumes "may_move s t BIdle Write_Access"
  shows "set (bs_pcs s) \<subseteq> {BIdle}"
proof -
  have "bs_pcs s ! i = BIdle" if "i < length (bs_pcs s)" for i
  proof (cases "i = t")
    case False
    then have "bind_role (bs_pcs s ! i) = No_Access"
      using assms that by (auto simp: may_move_def permits_def Let_def) (metis bind_role.simps role.exhaust)
    then show ?thesis by (cases "bs_pcs s ! i") auto
  qed (use assms in \<open>simp add: may_move_def\<close>)
  then show ?thesis by (fastforce simp: in_set_conv_nth)
qed

lemma bind_inv_set:
  assumes inv: "bind_inv s" and e: "bind_exec B (EvSet t op) s = Some (Inr s')"
  shows "bind_inv s'"
proof -
  have m: "may_move s t BIdle Write_Access" using e by (auto split: if_splits)
  obtain d w where d: "set_op_exec op (ds_data (bs_set s)) = Inr d"
    and w: "SetEntries (be_env B) (templateEntries d) (ds_template (bs_set s)) (bs_world s) = Inr (fst w, snd w)"
    and s': "s' = s\<lparr> bs_set := (bs_set s)\<lparr> ds_data := d, ds_template := fst w \<rparr>, bs_world := snd w \<rparr>"
    using e m by (auto simp: set_dset_def bind_res_Inr)
  obtain as where as: "ds_arrays (bs_set s) = Some as" "arrays_inv as (mem_of (bs_world s))"
    and ok: "set_data_ok (ds_data (bs_set s))" and ex: "excl (map bind_role (bs_pcs s))"
    using inv by (auto simp: bind_inv_def Let_def)
  obtain w1 where "destroy_handles HTemplate 0 (ds_template (bs_set s)) [ut_handle (ds_template (bs_set s))] (bs_world s) = Inr w1"
    using w by (auto simp: SetEntries_def InternalDestroyTemplate_def bind_res_Inr)
  moreover have "mem_of w1 = mem_of (bs_world s)"
    using calculation by (auto simp: destroy_handles_def bind_res_Inr split: option.splits)
  ultimately have "sm_templates (mem_of (snd w)) (ut_handle (fst w)) = Some (templateEntries d)
      \<and> (\<exists>f. mem_of (snd w) = (mem_of (bs_world s))\<lparr> sm_templates := f \<rparr>)"
    using w by (auto simp: SetEntries_def InternalDestroyTemplate_def create_object_def Let_def)
  then have mem: "sm_templates (mem_of (snd w)) (ut_handle (fst w)) = Some (templateEntries d)" "arrays_inv as (mem_of (snd w))"
    using as(2) by (auto simp: arrays_inv_def)
  show ?thesis
    using mem as(1) ex set_op_exec_ok [OF ok d] set_op_exec_dirty [OF d] in_idle [OF m]
    by (auto simp: bind_inv_def s' Let_def pending_def)
qed

lemma move_fields [simp]: "bs_set (move_to t p s) = bs_set s" "bs_world (move_to t p s) = bs_world s"
  "bs_pcs (move_to t p s) = (bs_pcs s)[t := p]"
  by (simp_all add: move_to_def)

text \<open>A move that leaves the set and the driver as they are.\<close>

lemma bind_inv_move:
  assumes inv: "bind_inv s" and m: "may_move s t p (bind_role q)" and pend: "pending ((bs_pcs s)[t := q]) = pending (bs_pcs s)"
    and q: "q = BShared \<Longrightarrow> setState (ds_data (bs_set s)) = KReady \<and> \<not> pending (bs_pcs s)"
  shows "bind_inv (move_to t q s)"
proof -
  have "excl (map bind_role (bs_pcs (move_to t q s)))" using excl_move [OF m] inv by (simp add: bind_inv_def Let_def)
  moreover have "BShared \<in> set ((bs_pcs s)[t := q]) \<Longrightarrow> q = BShared \<or> BShared \<in> set (bs_pcs s)"
    using set_update_subset_insert [of "bs_pcs s" t q] by auto
  ultimately show ?thesis using inv q by (auto simp: bind_inv_def Let_def pend)
qed

lemma bind_inv_lock:
  assumes "bind_inv s" "bind_exec B (EvLock t) s = Some (Inr s')"
  shows "bind_inv s'"
proof -
  have m: "may_move s t BIdle Upgrade_Access" "s' = move_to t BUpgrade s" using assms(2) by (auto split: if_splits)
  then have "pending ((bs_pcs s)[t := BUpgrade]) = pending (bs_pcs s)" by (intro pending_keep) (auto simp: may_move_def)
  then show ?thesis using bind_inv_move [OF assms(1), of t BIdle BUpgrade] m by simp
qed

lemma bind_inv_exclusive:
  assumes "bind_inv s" "bind_exec B (EvExclusive t) s = Some (Inr s')"
  shows "bind_inv s'"
proof -
  have m: "may_move s t BWant Write_Access" "s' = move_to t BLocked s" using assms(2) by (auto split: if_splits)
  then have t: "t < length (bs_pcs s)" "bs_pcs s ! t = BWant" by (auto simp: may_move_def)
  then have "BWant \<in> set (bs_pcs s)" "BLocked \<in> set ((bs_pcs s)[t := BLocked])"
    by (auto simp: set_update_memI) (metis nth_mem)
  then show ?thesis using bind_inv_move [OF assms(1), of t BWant BLocked] m by (auto simp: pending_def)
qed

lemma with_state_fields [simp]: "bs_pcs (with_state x s) = bs_pcs s" "bs_world (with_state x s) = bs_world s"
  "ds_data (bs_set (with_state x s)) = (ds_data (bs_set s))\<lparr> setState := x \<rparr>"
  "ds_template (bs_set (with_state x s)) = ds_template (bs_set s)" "ds_arrays (bs_set (with_state x s)) = ds_arrays (bs_set s)"
  by (simp_all add: with_state_def)

lemma upgrade_others:
  assumes "bind_inv s" "may_move s t BUpgrade r"
  shows "\<And>i. i < length (bs_pcs s) \<Longrightarrow> i \<noteq> t \<Longrightarrow> bs_pcs s ! i \<in> {BIdle, BShared}" "\<not> pending (bs_pcs s)"
proof -
  have ex: "excl (map bind_role (bs_pcs s))" and t: "t < length (bs_pcs s)" "bs_pcs s ! t = BUpgrade"
    using assms by (auto simp: bind_inv_def may_move_def Let_def)
  show o: "\<And>i. i < length (bs_pcs s) \<Longrightarrow> i \<noteq> t \<Longrightarrow> bs_pcs s ! i \<in> {BIdle, BShared}"
    by (rule excl_upgrade [OF ex t(1)]) (simp_all add: t)
  have "pending ((bs_pcs s)[t := BUpgrade]) \<longleftrightarrow> False" by (subst pending_update) (use o t in auto)
  then show "\<not> pending (bs_pcs s)" using t(2) by (metis list_update_id)
qed

lemma bind_inv_cas:
  assumes inv: "bind_inv s" and e: "bind_exec B (EvCas t False) s = Some (Inr s')"
  shows "bind_inv s'"
proof -
  have m: "may_move s t BUpgrade Read_Access" using e by (auto split: if_splits)
  note o = upgrade_others [OF inv m]
  have t: "t < length (bs_pcs s)" "bs_pcs s ! t = BUpgrade" using m by (auto simp: may_move_def)
  show ?thesis
  proof (cases "setState (ds_data (bs_set s)) = KDirty")
    case True
    then have s': "s' = with_state KReady (move_to t BWant s)" using e m by simp
    have "BShared \<notin> set (bs_pcs s)" using inv True by (auto simp: bind_inv_def Let_def)
    then have ns: "BShared \<notin> set ((bs_pcs s)[t := BWant])" using set_update_subset_insert [of "bs_pcs s" t BWant] by auto
    have p: "pending ((bs_pcs s)[t := BWant])" using t(1) by (auto simp: pending_def set_update_memI)
    have "may_move s t BUpgrade (bind_role BWant)" using t by (simp add: may_move_def permits_def)
    then have "excl (map bind_role (bs_pcs (move_to t BWant s)))" by (rule excl_move) (use inv in \<open>simp add: bind_inv_def Let_def\<close>)
    then show ?thesis using inv True p ns by (auto simp: bind_inv_def Let_def s' state_fields)
  next
    case False
    then have r: "setState (ds_data (bs_set s)) = KReady" by (cases "setState (ds_data (bs_set s))") auto
    have "s' = move_to t BShared s" using e m False by simp
    then show ?thesis using bind_inv_move [OF inv, of t BUpgrade BShared] m r o(2) pending_keep [OF t(1), of BShared] t(2) by simp
  qed
qed

lemma bind_inv_update:
  assumes inv: "bind_inv s" and fresh: "sets_fresh (be_env B)" and m: "may_move s t BLocked Read_Access"
  obtains s' cs h where "bind_exec B (EvUpdate t) s = Some (Inr s')" "bind_inv s'" "ds_data (bs_set s') = ds_data (bs_set s)"
    "w_calls (bs_world s') = cs @ [UpdateDescriptorSetCall h (ut_handle (ds_template (bs_set s))) (bData (ds_data (bs_set s)))]"
    "h \<notin> sm_bound (fold mem_step cs set_mem_new)"
proof -
  let ?d = "ds_data (bs_set s)" and ?h = "ut_handle (ds_template (bs_set s))"
  have t: "t < length (bs_pcs s)" "bs_pcs s ! t = BLocked" using m by (auto simp: may_move_def)
  have ex: "excl (map bind_role (bs_pcs s))" and ok: "set_data_ok ?d" using inv by (simp_all add: bind_inv_def Let_def)
  have idle: "bs_pcs s ! i = BIdle" if "i < length (bs_pcs s)" "i \<noteq> t" for i
    by (rule excl_write [OF ex t that])
  have "pending (bs_pcs s)" using t by (auto simp: pending_def dest: nth_mem)
  then obtain as where as: "ds_arrays (bs_set s) = Some as" "arrays_inv as (mem_of (bs_world s))"
      "sm_templates (mem_of (bs_world s)) ?h = Some (templateEntries ?d)" "setState ?d = KReady"
    using inv by (auto simp: bind_inv_def Let_def)
  obtain as' w' cs where u: "InternalUpdateDescriptorSet (be_env B) (be_device B) (be_pool B) (be_setLayout B) ?h (bData ?d) as (bs_world s)
        = Inr (as', w')" "arrays_inv as' (mem_of w')"
      "\<forall>k i. sm_sets (mem_of w') (front_set as') k i = template_writes (templateEntries ?d) (bData ?d) k i"
      "w_calls w' = cs @ [UpdateDescriptorSetCall (front_set as') ?h (bData ?d)]"
      "front_set as' \<notin> sm_bound (fold mem_step cs set_mem_new)"
    by (rule update_set_ok [OF as(2) fresh as(3)])
  define s' where "s' = move_to t BShared (s\<lparr> bs_set := (bs_set s)\<lparr> ds_arrays := Some as' \<rparr>, bs_world := w' \<rparr>)"
  have e: "bind_exec B (EvUpdate t) s = Some (Inr s')" using m as(1) u(1) by (simp add: s'_def)
  have "\<not> pending ((bs_pcs s)[t := BShared])" by (subst pending_update) (use idle t in auto)
  moreover have "excl (map bind_role (bs_pcs (move_to t BShared s)))" by (rule excl_move [OF _ ex]) (use m in simp)
  ultimately have "bind_inv s'" using ok as(4) u(2,3) by (simp add: bind_inv_def s'_def Let_def writes_element)
  moreover have "ds_data (bs_set s') = ?d" "w_calls (bs_world s') = cs @ [UpdateDescriptorSetCall (front_set as') ?h (bData ?d)]"
    using u(4) by (simp_all add: s'_def)
  ultimately show ?thesis using that [OF e] u(5) by blast
qed

lemma bind_inv_bind:
  assumes inv: "bind_inv s" and m: "may_move s t BShared No_Access"
  obtains s' h where "bind_exec B (EvBind t cmd off) s = Some (Inr s')" "bind_inv s'" "ds_data (bs_set s') = ds_data (bs_set s)"
    "w_calls (bs_world s') = w_calls (bs_world s)
       @ [CmdBindDescriptorSet cmd h (be_bindPoint B) (be_pipelineLayout B) (be_setNr B) off]"
    "\<forall>k i. sm_sets (mem_of (bs_world s)) h k i = element (ds_data (bs_set s)) k i"
proof -
  have t: "t < length (bs_pcs s)" "bs_pcs s ! t = BShared" using m by (auto simp: may_move_def)
  then have "BShared \<in> set (bs_pcs s)" by (metis nth_mem)
  then obtain as where as: "ds_arrays (bs_set s) = Some as" "arrays_inv as (mem_of (bs_world s))"
      "\<forall>k i. sm_sets (mem_of (bs_world s)) (front_set as) k i = element (ds_data (bs_set s)) k i"
    using inv by (auto simp: bind_inv_def Let_def)
  let ?c = "CmdBindDescriptorSet cmd (front_set as) (be_bindPoint B) (be_pipelineLayout B) (be_setNr B) off"
  define s1 where "s1 = s\<lparr> bs_world := call ?c (bs_world s) \<rparr>"
  have f: "as \<noteq> []" "unat (snd (hd as)) < length (sa_sets (fst (hd as)))" using as(2) by (cases as; auto simp: arrays_inv_def)+
  then have e: "bind_exec B (EvBind t cmd off) s = Some (Inr (move_to t BIdle s1))"
    using m as(1) by (simp add: idx_def front_set_def s1_def)
  have ne: "sa_sets (fst (hd as)) ! k \<noteq> front_set as" if "unat (snd (hd as)) < k" "k < kDescriptorSetCount" for k
    using as(2) that by (cases as) (auto simp: arrays_inv_def own_sets_def front_set_def nth_eq_iff_index_eq)
  have "arrays_inv as (mem_of (bs_world s1))" using as(2) ne unfolding arrays_inv_def by (simp add: s1_def Let_def)
  then have "bind_inv s1" using inv as(1) by (auto simp: bind_inv_def s1_def Let_def)
  moreover have "may_move s1 t BShared (bind_role BIdle)" using m by (simp add: may_move_def s1_def)
  moreover have "pending ((bs_pcs s1)[t := BIdle]) = pending (bs_pcs s1)" by (intro pending_keep) (use t in \<open>auto simp: s1_def\<close>)
  ultimately have "bind_inv (move_to t BIdle s1)" by (intro bind_inv_move) simp_all
  then show ?thesis using that [OF e] as(3) by (simp add: s1_def)
qed

lemma elsewhere_mem:
  assumes "elsewhere c s" "ds_arrays (bs_set s) = Some as" "set (own_sets as) \<subseteq> sm_live m"
  shows "set (own_sets as) \<subseteq> sm_live (mem_step c m)"
    "h \<in> set (own_sets as) \<Longrightarrow> sm_sets (mem_step c m) h = sm_sets m h"
    "h \<in> set (own_sets as) \<Longrightarrow> h \<in> sm_updated (mem_step c m) \<Longrightarrow> h \<in> sm_updated m"
    "h \<in> set (own_sets as) \<Longrightarrow> h \<in> sm_bound (mem_step c m) \<Longrightarrow> h \<in> sm_bound m"
    "sm_templates (mem_step c m) (ut_handle (ds_template (bs_set s))) = sm_templates m (ut_handle (ds_template (bs_set s)))"
  using assms by (cases "(c, m)" rule: mem_step.cases; auto simp: elsewhere_def split: option.split)+

lemma bind_inv_other:
  assumes inv: "bind_inv s" and c: "elsewhere c s" and e: "bind_exec B (EvOther c) s = Some (Inr s')"
  shows "bind_inv s'"
proof -
  obtain as where as: "ds_arrays (bs_set s) = Some as" "arrays_inv as (mem_of (bs_world s))"
    using inv by (auto simp: bind_inv_def Let_def)
  then have live: "set (own_sets as) \<subseteq> sm_live (mem_of (bs_world s))" by (simp add: arrays_inv_def)
  note o = elsewhere_mem [OF c as(1) live]
  have "arrays_inv as (mem_step c (mem_of (bs_world s)))" by (rule arrays_inv_cong [OF as(2) o(1-4)])
  then show ?thesis using inv as(1) e o(5) o(2) [OF front_own [OF as(2)]] by (auto simp: bind_inv_def Let_def)
qed

lemma bind_inv_start:
  assumes "sets_fresh e" "dset_new e dev pool bp pl nr l w = Inr (d, w')" "\<not> is_push l"
  shows "bind_inv (bind_start n d w')" "ds_data d = set_data_new"
proof -
  obtain t w1 where t: "DescriptorUpdateTemplate_new e dev \<lparr> ti_push = is_push l, ti_setLayout = sl_handle l, ti_bindPoint = bp,
      ti_pipelineLayout = pl, ti_set = nr \<rparr> w = Inr (t, w1)"
    and a: "bind_res (DescriptorSetArray_new e dev (sl_handle l, pool) w1) (\<lambda>(a, w2).
       Inr (\<lparr> ds_data = set_data_new, ds_template = t, ds_arrays = Some [(a, 0)] \<rparr>, w2)) = Inr (d, w')"
    using assms(2,3) by (auto simp: dset_new_def bind_res_Inr)
  obtain b w2 where b: "DescriptorSetArray_new e dev (sl_handle l, pool) w1 = Inr (b, w2)" "length (sa_sets b) = kDescriptorSetCount"
      "distinct (sa_sets b)"
    and m: "mem_of w2 = (mem_of w1)\<lparr> sm_live := sm_live (mem_of w1) \<union> set (sa_sets b),
        sm_sets := (\<lambda>h. if h \<in> set (sa_sets b) then (\<lambda>_ _. None) else sm_sets (mem_of w1) h),
        sm_updated := sm_updated (mem_of w1) - set (sa_sets b), sm_bound := sm_bound (mem_of w1) - set (sa_sets b) \<rparr>"
    using DescriptorSetArray_new_ok [OF assms(1), of "{}" w1 dev "sl_handle l" pool] by auto
  have d: "d = \<lparr> ds_data = set_data_new, ds_template = t, ds_arrays = Some [(b, 0)] \<rparr>" "w' = w2" using a b(1) by auto
  have "arrays_inv [(b, 0)] (mem_of w2)" "sm_sets (mem_of w2) (front_set [(b, 0)]) = (\<lambda>_ _. None)"
    using b(2,3) by (simp_all add: arrays_inv_def m own_sets_def front_set_def kDescriptorSetCount_def Let_def)
  moreover have "excl (replicate n No_Access)" by (simp add: excl_def compat_def)
  ultimately show "bind_inv (bind_start n d w')" using set_data_new_ok
    by (auto simp: bind_inv_def bind_start_def d Let_def pending_def map_replicate set_data_new_def element_def)
  show "ds_data d = set_data_new" by (simp add: d)
qed

text \<open>The data after a run is what the set operations of the run make, up to the state.\<close>

lemma bind_step:
  assumes "bind_inv s" "sets_fresh (be_env B)" "bind_exec B ev s = Some (Inr s1)" "plain_run B [ev] s"
    "ds_data (bs_set s) = D\<lparr> setState := x \<rparr>"
  shows "bind_inv s1 \<and> (\<exists>D' x'. set_ops_exec (set_ops_of [ev]) D = Inr D' \<and> ds_data (bs_set s1) = D'\<lparr> setState := x' \<rparr>)"
proof (cases ev)
  case (EvSet t op)
  then obtain d where "set_op_exec op (ds_data (bs_set s)) = Inr d" "ds_data (bs_set s1) = d"
    using assms(3) by (auto simp: set_dset_def bind_res_Inr split: if_splits)
  then show ?thesis using bind_inv_set [OF assms(1)] assms(3) EvSet assms(5)
    by (auto simp: set_op_exec_state intro!: exI [of _ "setState d"])
next
  case (EvLock t)
  then show ?thesis using bind_inv_lock [OF assms(1)] assms(3) assms(5) by (auto split: if_splits)
next
  case (EvCas t sp)
  then have "\<not> sp" using assms(4) by simp
  then show ?thesis using bind_inv_cas [OF assms(1)] assms(3) EvCas assms(5) by (auto simp: state_fields split: if_splits)
next
  case (EvExclusive t)
  then show ?thesis using bind_inv_exclusive [OF assms(1)] assms(3) assms(5) by (auto split: if_splits)
next
  case (EvUpdate t)
  then have "may_move s t BLocked Read_Access" using assms(3) by (auto split: if_splits)
  then show ?thesis by (elim bind_inv_update [OF assms(1,2)]) (use EvUpdate assms(3) assms(5) in auto)
next
  case (EvBind t cmd off)
  then have "may_move s t BShared No_Access" using assms(3) by (auto split: if_splits)
  then show ?thesis by (elim bind_inv_bind [OF assms(1), where cmd = cmd and off = off and B = B])
      (use EvBind assms(3) assms(5) in auto)
next
  case (EvPush t cmd)
  then show ?thesis using assms(3) assms(1) by (auto simp: bind_inv_def Let_def split: if_splits)
next
  case (EvOther c)
  then show ?thesis using bind_inv_other [OF assms(1)] assms(3) assms(4,5) by auto
qed

lemma bind_run_cons:
  assumes "bind_run B (ev # evs) s = Some (Inr s')" "plain_run B (ev # evs) s"
  obtains s1 where "bind_exec B ev s = Some (Inr s1)" "plain_run B [ev] s" "bind_run B evs s1 = Some (Inr s')" "plain_run B evs s1"
  using assms by (cases "bind_exec B ev s") (auto split: sum.splits)

lemma bind_run_inv:
  assumes "bind_inv s" "sets_fresh (be_env B)" "bind_run B evs s = Some (Inr s')" "plain_run B evs s"
    "ds_data (bs_set s) = D\<lparr> setState := x \<rparr>"
  shows "bind_inv s' \<and> (\<exists>D' x'. set_ops_exec (set_ops_of evs) D = Inr D' \<and> ds_data (bs_set s') = D'\<lparr> setState := x' \<rparr>)"
  using assms
proof (induction evs arbitrary: s D x)
  case (Cons ev evs)
  obtain s1 where s1: "bind_exec B ev s = Some (Inr s1)" "plain_run B [ev] s" "bind_run B evs s1 = Some (Inr s')" "plain_run B evs s1"
    by (rule bind_run_cons [OF Cons.prems(3,4)])
  note step = bind_step [OF Cons.prems(1,2) s1(1,2) Cons.prems(5)]
  then obtain D1 x1 where d: "set_ops_exec (set_ops_of [ev]) D = Inr D1" "ds_data (bs_set s1) = D1\<lparr> setState := x1 \<rparr>" by blast
  have "set_ops_exec (set_ops_of (ev # evs)) D = set_ops_exec (set_ops_of evs) D1" using d(1) by (cases ev) (auto simp: bind_res_Inr)
  then show ?case using Cons.IH [OF _ Cons.prems(2) s1(3,4) d(2)] step by simp
qed (auto intro!: exI)

section \<open>How many sets are allocated\<close>

definition position :: "bind_sys \<Rightarrow> nat" where
  "position s = (case ds_arrays (bs_set s) of None \<Rightarrow> 0
     | Some as \<Rightarrow> (length as - 1) * kDescriptorSetCount + unat (snd (hd as)))"

lemma update_front_position: "update_front tmpl d ((a, i) # r) w = Inr (as', w') \<Longrightarrow> as' = (a, i + 1) # r"
  by (auto simp: update_front_def bind_res_Inr split: if_splits)

lemma InternalUpdateDescriptorSet_position:
  assumes "InternalUpdateDescriptorSet e dev pool layout tmpl d as w = Inr (as', w')" "arrays_inv as m"
  shows "(length as' - 1) * kDescriptorSetCount + unat (snd (hd as')) = Suc ((length as - 1) * kDescriptorSetCount + unat (snd (hd as)))"
proof -
  obtain b i r where as: "as = (b, i) # r" "unat i < 16" using assms(2) by (cases as) (auto simp: arrays_inv_def kDescriptorSetCount_def)
  show ?thesis
  proof (cases "front_used_up as")
    case True
    then have "i = 15" by (simp add: as front_used_up_def kDescriptorSetCount_def)
    moreover obtain a w1 where "update_front tmpl d ((a, NOT 0) # as) w1 = Inr (as', w')"
      using assms(1) True by (auto simp: InternalUpdateDescriptorSet_def bind_res_Inr)
    ultimately show ?thesis using update_front_position by (fastforce simp: as kDescriptorSetCount_def)
  next
    case False
    have "update_front tmpl d as w = Inr (as', w')" using assms(1) False by (simp add: InternalUpdateDescriptorSet_def)
    then have "as' = (b, i + 1) # r" using update_front_position by (simp add: as)
    then show ?thesis using as(2) byte_succ [of i] by (simp add: as(1))
  qed
qed

fun updates_of :: "bind_event list \<Rightarrow> nat" where
  "updates_of [] = 0"
| "updates_of (EvUpdate t # evs) = Suc (updates_of evs)"
| "updates_of (_ # evs) = updates_of evs"

lemma bind_step_position:
  assumes "bind_exec B ev s = Some (Inr s1)" "bind_inv s"
  shows "position s1 = position s + updates_of [ev]"
proof (cases ev)
  case (EvUpdate t)
  obtain as where "ds_arrays (bs_set s) = Some as" "arrays_inv as (mem_of (bs_world s))" using assms(2) by (auto simp: bind_inv_def Let_def)
  then show ?thesis using assms(1) EvUpdate InternalUpdateDescriptorSet_position
    by (auto simp: position_def bind_res_Inr split: if_splits)
qed (use assms in \<open>auto simp: position_def bind_res_Inr set_dset_def with_state_def move_to_def split: if_splits option.splits\<close>)

lemma bind_run_position:
  assumes "bind_inv s" "sets_fresh (be_env B)" "bind_run B evs s = Some (Inr s')" "plain_run B evs s"
    "ds_data (bs_set s) = D\<lparr> setState := x \<rparr>"
  shows "position s' = position s + updates_of evs"
  using assms
proof (induction evs arbitrary: s D x)
  case (Cons ev evs)
  obtain s1 where s1: "bind_exec B ev s = Some (Inr s1)" "plain_run B [ev] s" "bind_run B evs s1 = Some (Inr s')" "plain_run B evs s1"
    by (rule bind_run_cons [OF Cons.prems(3,4)])
  obtain D1 x1 where "bind_inv s1" "ds_data (bs_set s1) = D1\<lparr> setState := x1 \<rparr>"
    using bind_step [OF Cons.prems(1,2) s1(1,2) Cons.prems(5)] by blast
  then have "position s' = position s1 + updates_of evs" using Cons.IH Cons.prems(2) s1(3,4) by blast
  then show ?case using bind_step_position [OF s1(1) Cons.prems(1)] by (cases ev) simp_all
qed simp

section \<open>What is bound\<close>

text \<open>C7: However threads set and bind a descriptor set that is not pushed, in any order the lock lets them, as long
  as no weak exchange fails spuriously and the calls made elsewhere leave its sets alone (\<open>plain_run\<close>): every bind binds a set that holds, at every binding and element,
  what the operations so far have set, and every update goes to a set that has never been bound since it was
  allocated; neither faults. The code calls \<open>compare_exchange_weak\<close> once, without a loop, so the condition is needed:
  after a spurious failure a stale set is bound (\<open>spurious_exchange_binds_stale_set\<close>).\<close>
theorem bound_sets_are_current:
  assumes "sets_fresh (be_env B)" "\<not> is_push l"
    and "dset_new (be_env B) (be_device B) (be_pool B) (be_bindPoint B) (be_pipelineLayout B) (be_setNr B) l w = Inr (d, w0)"
    and "bind_run B evs (bind_start n d w0) = Some (Inr s)" "plain_run B evs (bind_start n d w0)"
  shows "\<exists>D. set_ops_exec (set_ops_of evs) set_data_new = Inr D
    \<and> (may_move s t BShared No_Access \<longrightarrow> (\<exists>s' h. bind_exec B (EvBind t cmd off) s = Some (Inr s')
         \<and> w_calls (bs_world s') = w_calls (bs_world s)
              @ [CmdBindDescriptorSet cmd h (be_bindPoint B) (be_pipelineLayout B) (be_setNr B) off]
         \<and> (\<forall>k i. sm_sets (mem_of (bs_world s)) h k i = element D k i)))
    \<and> (may_move s t BLocked Read_Access \<longrightarrow> (\<exists>s' cs h tmpl vs. bind_exec B (EvUpdate t) s = Some (Inr s')
         \<and> w_calls (bs_world s') = cs @ [UpdateDescriptorSetCall h tmpl vs] \<and> h \<notin> sm_bound (fold mem_step cs set_mem_new)))"
proof -
  note st = bind_inv_start [OF assms(1,3,2)]
  have "ds_data (bs_set (bind_start n d w0)) = set_data_new\<lparr> setState := KReady \<rparr>"
    using st(2) by (simp add: bind_start_def set_data_new_def)
  from bind_run_inv [OF st(1) assms(1,4,5) this] obtain D x where
    D: "bind_inv s" "set_ops_exec (set_ops_of evs) set_data_new = Inr D" "ds_data (bs_set s) = D\<lparr> setState := x \<rparr>" by blast
  show ?thesis
  proof (intro exI [of _ D] conjI impI D(2))
    assume "may_move s t BShared No_Access"
    then show "\<exists>s' h. bind_exec B (EvBind t cmd off) s = Some (Inr s') \<and> w_calls (bs_world s') = w_calls (bs_world s)
           @ [CmdBindDescriptorSet cmd h (be_bindPoint B) (be_pipelineLayout B) (be_setNr B) off]
         \<and> (\<forall>k i. sm_sets (mem_of (bs_world s)) h k i = element D k i)"
      using D(3) by (elim bind_inv_bind [OF D(1), where cmd = cmd and off = off and B = B]) auto
  next
    assume "may_move s t BLocked Read_Access"
    then show "\<exists>s' cs h tmpl vs. bind_exec B (EvUpdate t) s = Some (Inr s')
         \<and> w_calls (bs_world s') = cs @ [UpdateDescriptorSetCall h tmpl vs] \<and> h \<notin> sm_bound (fold mem_step cs set_mem_new)"
      by (elim bind_inv_update [OF D(1) assms(1)]) blast
  qed
qed

fun created_sum :: "obj_call list \<Rightarrow> nat" where
  "created_sum [] = 0"
| "created_sum (ObjCreate _ hs # cs) = sum_list hs + created_sum cs"
| "created_sum (_ # cs) = created_sum cs"

lemma created_sum_append: "created_sum (cs @ ds) = created_sum cs + created_sum ds"
  by (induction cs rule: created_sum.induct) simp_all

lemma live_bound: "h \<in> sm_live (fold mem_step cs set_mem_new) \<Longrightarrow> h \<le> created_sum cs"
proof (induction cs rule: rev_induct)
  case (snoc c cs)
  have "h \<in> sm_live (fold mem_step cs set_mem_new) \<or> (\<exists>i hs. c = ObjCreate i hs \<and> h \<in> set hs)"
    using snoc.prems by (cases "(c, fold mem_step cs set_mem_new)" rule: mem_step.cases) (auto split: option.splits)
  then show ?case using snoc.IH by (auto simp: created_sum_append intro: trans_le_add1 trans_le_add2 [OF member_le_sum_list])
qed (simp add: set_mem_new_def)

text \<open>A driver that hands out handles above all the earlier ones.\<close>

definition ex_obj_env :: obj_env where
  "ex_obj_env = \<lparr> oe_validation = False, oe_hash = (\<lambda>_. 0), oe_object = (\<lambda>cs _. Suc (created_sum cs)),
     oe_sets = (\<lambda>cs _ i. Suc (created_sum cs) + i), oe_driver = undefined, oe_uuid = (\<lambda>_. 0) \<rparr>"

lemma ex_sets_fresh: "sets_fresh ex_obj_env"
  by (fastforce simp: sets_fresh_def ex_obj_env_def inj_on_def dest: live_bound)

definition ex_bind_env :: bind_env where
  "ex_bind_env = \<lparr> be_env = ex_obj_env, be_device = 1, be_pool = 5, be_setLayout = 6, be_bindPoint = BindGraphics,
     be_pipelineLayout = 7, be_setNr = 0, be_pushSupported = False \<rparr>"

definition ex_events :: "bind_event list" where
  "ex_events = [EvSet 0 (SetOne 0 6 (BufferViewValue 50)), EvLock 1, EvCas 1 False, EvExclusive 1, EvUpdate 1]"

lemma ex_set_one: "set_op_exec (SetOne 0 6 (BufferViewValue 50)) set_data_new = Inr (finish_set
    [(0, \<lparr> b_offset = 0, b_count = 1, b_type = 6, b_ranges = [(0, 1)] \<rparr>)] [BufferViewValue 50] set_data_new)"
  by (simp add: set_data_new_def SetDescriptorData_one_def flat_emplace_def flat_lower_bound_def fill_new_def range_insert_empty
    insert_at_def finish_set_def resum_at_def put_value_def insert_values_def offset_after_prev_def new_binding_def Let_def)

lemma ex_bind_run:
  "\<exists>d w0 s. dset_new ex_obj_env 1 5 BindGraphics 7 0 set_layout_default world_new = Inr (d, w0)
    \<and> bind_run ex_bind_env ex_events (bind_start 2 d w0) = Some (Inr s) \<and> plain_run ex_bind_env ex_events (bind_start 2 d w0)
    \<and> may_move s 1 BShared No_Access"
proof -
  have p: "\<not> is_push set_layout_default"
    by (simp add: is_push_def set_layout_default_def set_layout_desc_default_def)
  obtain d w0 where d: "dset_new ex_obj_env 1 5 BindGraphics 7 0 set_layout_default world_new = Inr (d, w0)"
    "ds_data d = set_data_new" "do_device (ds_template d) = Some 1"
    "\<exists>a. ds_arrays d = Some [(a, 0)] \<and> length (sa_sets a) = kDescriptorSetCount"
    using p by (auto simp: dset_new_def DescriptorUpdateTemplate_new_def DescriptorSetArray_new_def DeviceObject_named_def
      take_base_def DeviceObject_new_def Let_def)
  then obtain a where a: "ds_arrays d = Some [(a, 0)]" "length (sa_sets a) = kDescriptorSetCount" by blast
  have u: "InternalUpdateDescriptorSet e dev pool sl h vs [(a, 0)] w = Inr ([(a, 1)], call (UpdateDescriptorSetCall (sa_sets a ! 1) h vs) w)"
    for e dev pool sl h vs w
    using a(2) by (simp add: InternalUpdateDescriptorSet_def update_front_def front_used_up_def idx_def kDescriptorSetCount_def)
  have "\<exists>s. bind_run ex_bind_env ex_events (bind_start 2 d w0) = Some (Inr s) \<and> plain_run ex_bind_env ex_events (bind_start 2 d w0)
    \<and> may_move s 1 BShared No_Access"
    using d(2,3) a ex_set_one
    by (simp add: ex_events_def ex_bind_env_def bind_start_def may_move_def permits_def Let_def move_to_def with_state_def
      set_dset_def SetEntries_def InternalDestroyTemplate_def destroy_handles_def create_object_def finish_set_def
      u numeral_2_eq_2 All_less_Suc del: set_op_exec.simps)
  then show ?thesis using d(1) by blast
qed

theorem bound_sets_are_current_witness:
  "\<exists>d w0 s s' h. dset_new ex_obj_env 1 5 BindGraphics 7 0 set_layout_default world_new = Inr (d, w0)
     \<and> bind_run ex_bind_env ex_events (bind_start 2 d w0) = Some (Inr s)
     \<and> bind_exec ex_bind_env (EvBind 1 77 None) s = Some (Inr s')
     \<and> last (w_calls (bs_world s')) = CmdBindDescriptorSet 77 h BindGraphics 7 0 None
     \<and> sm_sets (mem_of (bs_world s)) h 0 0 = Some (BufferViewValue 50)"
proof -
  obtain d w0 s where r: "dset_new ex_obj_env 1 5 BindGraphics 7 0 set_layout_default world_new = Inr (d, w0)"
    "bind_run ex_bind_env ex_events (bind_start 2 d w0) = Some (Inr s)" "plain_run ex_bind_env ex_events (bind_start 2 d w0)"
    "may_move s 1 BShared No_Access" using ex_bind_run by blast
  have p: "\<not> is_push set_layout_default" by (simp add: is_push_def set_layout_default_def set_layout_desc_default_def)
  have f: "sets_fresh (be_env ex_bind_env)" using ex_sets_fresh by (simp add: ex_bind_env_def)
  have n: "dset_new (be_env ex_bind_env) (be_device ex_bind_env) (be_pool ex_bind_env) (be_bindPoint ex_bind_env)
    (be_pipelineLayout ex_bind_env) (be_setNr ex_bind_env) set_layout_default world_new = Inr (d, w0)"
    using r(1) by (simp add: ex_bind_env_def)
  obtain D s' h where D: "set_ops_exec (set_ops_of ex_events) set_data_new = Inr D"
    "bind_exec ex_bind_env (EvBind 1 77 None) s = Some (Inr s')"
    "w_calls (bs_world s') = w_calls (bs_world s) @ [CmdBindDescriptorSet 77 h (be_bindPoint ex_bind_env)
       (be_pipelineLayout ex_bind_env) (be_setNr ex_bind_env) None]"
    "\<forall>k i. sm_sets (mem_of (bs_world s)) h k i = element D k i"
    using bound_sets_are_current [OF f p n r(2,3), of 1 77 None] r(4) by blast
  have "element D 0 0 = Some (BufferViewValue 50)"
    using D(1) ex_set_one by (auto simp: ex_events_def finish_set_def element_def simp del: set_op_exec.simps)
  then show ?thesis using r(1,2) D(2-4) by (auto simp: ex_bind_env_def)
qed


text \<open>Updates allocate without end: after \<open>n\<close> of them a set layout has \<open>n div 16 + 1\<close> arrays of 16 sets
  each, all of them live, since a pipeline never resets its descriptor pool.\<close>
theorem descriptor_sets_grow:
  assumes "sets_fresh (be_env B)" "\<not> is_push l"
    and "dset_new (be_env B) (be_device B) (be_pool B) (be_bindPoint B) (be_pipelineLayout B) (be_setNr B) l w = Inr (d, w0)"
    and "bind_run B evs (bind_start n d w0) = Some (Inr s)" "plain_run B evs (bind_start n d w0)"
  shows "\<exists>as. ds_arrays (bs_set s) = Some as \<and> length as = updates_of evs div 16 + 1
    \<and> card (set (own_sets as)) = 16 * (updates_of evs div 16 + 1) \<and> set (own_sets as) \<subseteq> sm_live (mem_of (bs_world s))"
proof -
  note st = bind_inv_start [OF assms(1,3,2)]
  have D: "ds_data (bs_set (bind_start n d w0)) = set_data_new\<lparr> setState := KReady \<rparr>"
    using st(2) by (simp add: bind_start_def set_data_new_def)
  have "bind_inv s" using bind_run_inv [OF st(1) assms(1,4,5) D] by blast
  then obtain as where as: "ds_arrays (bs_set s) = Some as" "arrays_inv as (mem_of (bs_world s))"
    by (auto simp: bind_inv_def Let_def)
  have "position (bind_start n d w0) = 0"
    using assms(2,3) by (auto simp: dset_new_def bind_res_Inr position_def bind_start_def)
  then have "(length as - 1) * 16 + unat (snd (hd as)) = updates_of evs"
    using bind_run_position [OF st(1) assms(1,4,5) D] as(1) by (simp add: position_def kDescriptorSetCount_def)
  moreover have "unat (snd (hd as)) < 16" "as \<noteq> []" using as(2) by (simp_all add: arrays_inv_def kDescriptorSetCount_def)
  ultimately have l: "length as = updates_of evs div 16 + 1" by (cases as) auto
  have "length (own_sets bs) = 16 * length bs" if "\<forall>a \<in> set bs. length (sa_sets (fst a)) = 16" for bs :: "(set_array \<times> u8) list"
    using that by (induction bs) (simp_all add: own_sets_def)
  then have "length (own_sets as) = 16 * length as" using as(2) by (simp add: arrays_inv_def kDescriptorSetCount_def)
  then have "card (set (own_sets as)) = 16 * length as" using as(2) by (simp add: arrays_inv_def distinct_card)
  then show ?thesis using as l by (simp add: arrays_inv_def)
qed

theorem descriptor_sets_grow_witness:
  "\<exists>d w0 s as. dset_new ex_obj_env 1 5 BindGraphics 7 0 set_layout_default world_new = Inr (d, w0)
     \<and> bind_run ex_bind_env ex_events (bind_start 2 d w0) = Some (Inr s) \<and> ds_arrays (bs_set s) = Some as
     \<and> card (set (own_sets as)) = 16"
proof -
  obtain d w0 s where r: "dset_new ex_obj_env 1 5 BindGraphics 7 0 set_layout_default world_new = Inr (d, w0)"
    "bind_run ex_bind_env ex_events (bind_start 2 d w0) = Some (Inr s)" "plain_run ex_bind_env ex_events (bind_start 2 d w0)"
    using ex_bind_run by blast
  have p: "\<not> is_push set_layout_default" by (simp add: is_push_def set_layout_default_def set_layout_desc_default_def)
  have f: "sets_fresh (be_env ex_bind_env)" using ex_sets_fresh by (simp add: ex_bind_env_def)
  have n: "dset_new (be_env ex_bind_env) (be_device ex_bind_env) (be_pool ex_bind_env) (be_bindPoint ex_bind_env)
    (be_pipelineLayout ex_bind_env) (be_setNr ex_bind_env) set_layout_default world_new = Inr (d, w0)"
    using r(1) by (simp add: ex_bind_env_def)
  show ?thesis using descriptor_sets_grow [OF f p n r(2,3)] r(1,2) by (auto simp: ex_events_def)
qed

lemma ex_new_array:
  "\<exists>a w'. DescriptorSetArray_new ex_obj_env dev (6, 5) w = Inr (a, w') \<and> sa_pool a = 5 \<and> destroyed w' = destroyed w
    \<and> created w' = created w + handles HDescriptorSet 5 (sa_sets a) \<and> Suc (created_sum (w_calls w)) \<in> set (sa_sets a)"
proof -
  define info where "info = DescriptorSetsInfo 5 (replicate kDescriptorSetCount 6)"
  define hs where "hs = map (oe_sets ex_obj_env (w_calls w) info) [0..<kDescriptorSetCount]"
  obtain b w2 where b: "DeviceObject_named ex_obj_env dev ''_DescriptorSet'' OBJECT_TYPE_DESCRIPTOR_SET hs (call (ObjCreate info hs) w) = (b, w2)"
    by fastforce
  have n: "DescriptorSetArray_new ex_obj_env dev (6, 5) w = Inr (take_base (set_array_default\<lparr> sa_pool := 5, sa_sets := hs \<rparr>) b, w2)"
    using b by (simp add: DescriptorSetArray_new_def hs_def info_def)
  have "hs ! 0 = Suc (created_sum (w_calls w))" "0 < length hs" by (simp_all add: hs_def ex_obj_env_def kDescriptorSetCount_def)
  then have "Suc (created_sum (w_calls w)) \<in> set hs" by (metis nth_mem)
  then show ?thesis using named_object(2,3) [OF b] by (simp add: n take_base_def owned_simps info_def)
qed

text \<open>Assigning one array of descriptor sets to another leaves the old sets without their pool: a program
  with an assignment frees sets from a pool they were not allocated from.\<close>
theorem set_array_assignment_loses_pool:
  "\<not> releases_once True (set_array_class ex_obj_env dev) set_array_owned"
proof
  assume r: "releases_once True (set_array_class ex_obj_env dev) set_array_owned"
  have new: "\<exists>a w'. DescriptorSetArray_new ex_obj_env dev (6, 5) w = Inr (a, w') \<and> sa_pool a = 5 \<and> destroyed w' = destroyed w
    \<and> created w' = created w + handles HDescriptorSet 5 (sa_sets a) \<and> Suc (created_sum (w_calls w)) \<in> set (sa_sets a)" for w
    by (rule ex_new_array)
  obtain a w1 where a: "DescriptorSetArray_new ex_obj_env dev (6, 5) world_new = Inr (a, w1)" "sa_pool a = 5" "destroyed w1 = {#}"
    "created w1 = handles HDescriptorSet 5 (sa_sets a)" "Suc 0 \<in> set (sa_sets a)"
    using new [of world_new] by (auto simp: world_new_def created_def destroyed_def)
  obtain b w2 where b: "DescriptorSetArray_new ex_obj_env dev (6, 5) w1 = Inr (b, w2)" "sa_pool b = 5" "destroyed w2 = {#}"
    "created w2 = handles HDescriptorSet 5 (sa_sets a) + handles HDescriptorSet 5 (sa_sets b)"
    using new [of w1] a by auto
  define a' b' where "a' = (take_base a b)\<lparr> sa_pool := sa_pool b, sa_sets := sa_sets b \<rparr>"
    and b': "b' = (left_base a b)\<lparr> sa_pool := 0, sa_sets := sa_sets a \<rparr>"
  then have "owner_run (set_array_class ex_obj_env dev) [OpMake 0 (6, 5), OpMake 1 (6, 5), OpAssign 0 1] (replicate 2 None, world_new)
      = Inr ([Some a', Some b'], w2)"
    using a(1) b(1) by (simp add: owner_run_def set_array_class_def pure_assign_def DescriptorSetArray_assign_def numeral_2_eq_2)
  then have c: "created w2 = held set_array_owned [Some a', Some b']" using r b(3) unfolding releases_once_def by fastforce
  have "(HDescriptorSet, 0, Suc 0) \<in># created w2"
    using a(5) unfolding c b' by (simp add: held_def set_array_owned_def handles_def)
  then show False unfolding b(4) by (auto simp: handles_def)
qed

end
