(* ===== verification/Pipeline_Properties.thy ===== *)
theory Pipeline_Properties
imports Pipeline_Model Binding_Properties
begin

text \<open>
  A pipeline from its construction to its destruction: every handle it has the driver create is destroyed;
  a layout that is bound has the state of each of its sets; one thread that binds a set behaves as
  \<open>Descriptor_Binding\<close> says; a pipeline is made once for a key, from the layout that is bound then.
\<close>

section \<open>Programs over a pipeline\<close>

text \<open>The calls that update a render target are those of \<open>Render_Target\<close>, and its own.\<close>

datatype pipeline_op =
    PCreateLayout shader_set
  | PBindLayout nat bind_point
  | PVertexInput "(nat \<times> nat \<times> nat) list" "(nat \<times> nat \<times> nat \<times> nat) list"
  | PRenderTarget "pass_key \<Rightarrow> u64" "nat \<Rightarrow> image_layout res" rt_desc nat "render_target \<times> vk"
  | PSetData u64 var_data nat
  | PBindSet nat nat "nat option"
  | PBindPipeline "nat \<Rightarrow> render_target option" nat

fun pipe_exec :: "pipe_env \<Rightarrow> pipeline_op \<Rightarrow> pipeline \<times> world \<Rightarrow> (pipeline \<times> world) res option" where
  "pipe_exec E (PCreateLayout ss) s = Some (bind_res (CreateLayout E ss s) (\<lambda>(h, s'). Inr s'))"
| "pipe_exec E (PBindLayout h bp) s = Some (BindLayoutAuto E h bp s)"
| "pipe_exec E (PVertexInput bs as) (p, w) = Some (Inr (SetVertexInputState bs as p, w))"
| "pipe_exec E (PRenderTarget hash getLayout desc t r) (p, w) =
     Some (bind_res (SetRenderTarget (oe_driver (pe_obj E)) hash getLayout desc t r p) (\<lambda>(p', r'). Inr (p', w)))"
| "pipe_exec E (PSetData hash v nr) s = Some (SetDescriptorData E hash v nr s)"
| "pipe_exec E (PBindSet cmd nr off) s = Some (BindDescriptorSetAuto E cmd nr off s)"
| "pipe_exec E (PBindPipeline targets cmd) s = (case BindPipelineAuto E targets cmd s of None \<Rightarrow> None
     | Some r \<Rightarrow> Some (bind_res r (\<lambda>(h, s'). Inr s')))"

fun pipe_run :: "pipe_env \<Rightarrow> pipeline_op list \<Rightarrow> pipeline \<times> world \<Rightarrow> (pipeline \<times> world) res option" where
  "pipe_run E [] s = Some (Inr s)"
| "pipe_run E (op # ops) s = (case pipe_exec E op s of None \<Rightarrow> None | Some (Inl f) \<Rightarrow> Some (Inl f) | Some (Inr s') \<Rightarrow> pipe_run E ops s')"

lemma pipe_run_inv:
  assumes "\<And>op s s'. P s \<Longrightarrow> pipe_exec E op s = Some (Inr s') \<Longrightarrow> P s'" "P s" "pipe_run E ops s = Some (Inr s')"
  shows "P s'"
  using assms(2,3)
proof (induction ops arbitrary: s)
  case (Cons op ops)
  then obtain s1 where "pipe_exec E op s = Some (Inr s1)" "pipe_run E ops s1 = Some (Inr s')"
    by (auto split: option.splits sum.splits)
  then show ?case using Cons.IH assms(1) Cons.prems(1) by blast
qed simp

section \<open>What a pipeline owns\<close>

definition dset_owned :: "dset \<Rightarrow> owned_handles" where
  "dset_owned d = template_owned (ds_template d)
     + (case ds_arrays d of None \<Rightarrow> {#} | Some as \<Rightarrow> sum_list (map (set_array_owned \<circ> fst) as))"

definition dset_wf :: "dset \<Rightarrow> bool" where
  "dset_wf d \<longleftrightarrow> template_wf (ds_template d) \<and> (\<forall>as. ds_arrays d = Some as \<longrightarrow> (\<forall>a \<in> set as. set_array_wf (fst a)))"

definition pipe_owned :: "pipeline \<Rightarrow> owned_handles" where
  "pipe_owned p = handles HPipeline 0 (map snd (pp_pipelines p)) + (handles HPipelineCache 0 [pp_cache p]
     + (sum_list (map (dset_owned \<circ> snd) (pp_descriptors p)) + (handles HDescriptorPool 0 [pp_pool p]
     + sum_list (map pipeline_layout_owned (pp_layouts p)))))"

definition pipe_wf :: "pipeline \<Rightarrow> bool" where
  "pipe_wf p \<longleftrightarrow> do_device (pp_base p) \<noteq> None \<and> (\<forall>d \<in> set (pp_descriptors p). dset_wf (snd d))
     \<and> (\<forall>l \<in> set (pp_layouts p). pipeline_layout_wf l)"

definition pipe_grows :: "pipeline \<times> world \<Rightarrow> pipeline \<times> world \<Rightarrow> bool" where
  "pipe_grows s s' \<longleftrightarrow> pipe_wf (fst s') \<and> conserves (snd s) (pipe_owned (fst s)) (snd s') (pipe_owned (fst s'))"

lemma pipe_grows_trans: "pipe_grows s s1 \<Longrightarrow> pipe_grows s1 s2 \<Longrightarrow> pipe_grows s s2"
  by (auto simp: pipe_grows_def intro: conserves_trans)

lemma conserves_eq: "created w' = created w \<Longrightarrow> destroyed w' = destroyed w \<Longrightarrow> conserves w a w' b \<longleftrightarrow> a = b"
  by (auto simp: conserves_def ac_simps)

lemma conserves_part: "conserves w a w' b \<Longrightarrow> y + a = x + b \<Longrightarrow> conserves w x w' y"
  unfolding conserves_def by (smt (verit, ccfv_threshold) add.assoc add.commute add_left_cancel)

lemma named_irrelevant [owned_simps]:
  "created (name_handle E p t h n w) = created w" "destroyed (name_handle E p t h n w) = destroyed w"
  by (simp_all add: name_handle_def owned_simps)

lemma template_update_owned:
  "template_wf t \<Longrightarrow> SetEntries e es t w = Inr (t', w') \<Longrightarrow> template_wf t' \<and> conserves w (template_owned t) w' (template_owned t')"
  using templates.update [of t e undefined es w t' w'] by (simp add: template_class_def)

lemma template_new_owned:
  "DescriptorUpdateTemplate_new e dev d w = Inr (t, w') \<Longrightarrow> template_wf t \<and> conserves w {#} w' (template_owned t)"
  using templates.make [of e dev d w t w'] by (simp add: template_class_def)

lemma set_array_new_owned:
  "DescriptorSetArray_new e dev lp w = Inr (a, w') \<Longrightarrow> set_array_wf a \<and> conserves w {#} w' (set_array_owned a)"
  using set_arrays.make [of e dev lp w a w'] by (simp add: set_array_class_def)

lemma dset_new_owned:
  assumes "dset_new e dev pool bp pl nr l w = Inr (d, w')"
  shows "dset_wf d \<and> conserves w {#} w' (dset_owned d)"
proof -
  obtain t w1 where t: "DescriptorUpdateTemplate_new e dev \<lparr> ti_push = is_push l, ti_setLayout = sl_handle l, ti_bindPoint = bp,
       ti_pipelineLayout = pl, ti_set = nr \<rparr> w = Inr (t, w1)"
    using assms by (auto simp: dset_new_def bind_res_Inr)
  note t1 = template_new_owned [OF t]
  show ?thesis
  proof (cases "is_push l")
    case True
    then show ?thesis using assms t t1 by (auto simp: dset_new_def dset_wf_def dset_owned_def)
  next
    case False
    then obtain a where a: "DescriptorSetArray_new e dev (sl_handle l, pool) w1 = Inr (a, w')"
        "d = \<lparr> ds_data = set_data_new, ds_template = t, ds_arrays = Some [(a, 0)] \<rparr>"
      using assms t by (auto simp: dset_new_def bind_res_Inr)
    note a1 = set_array_new_owned [OF a(1)]
    from conserves_trans [OF conjunct2 [OF t1]] conserves_more [OF conjunct2 [OF a1], of "template_owned t"]
    have "conserves w {#} w' (set_array_owned a + template_owned t)" by simp
    then show ?thesis using t1 a1 by (simp add: a(2) dset_wf_def dset_owned_def add.commute)
  qed
qed

lemma set_dset_owned:
  assumes "set_dset e op d w = Inr (d', w')" "dset_wf d"
  shows "dset_wf d' \<and> conserves w (dset_owned d) w' (dset_owned d')"
proof -
  obtain sd t where t: "SetEntries e (templateEntries sd) (ds_template d) w = Inr (t, w')" "d' = d\<lparr> ds_data := sd, ds_template := t \<rparr>"
    using assms(1) by (auto simp: set_dset_def bind_res_Inr)
  then show ?thesis using template_update_owned [OF _ t(1)] assms(2) conserves_more by (auto simp: dset_wf_def dset_owned_def)
qed

definition arrays_owned :: "(set_array \<times> u8) list \<Rightarrow> owned_handles" where
  "arrays_owned as = sum_list (map (set_array_owned \<circ> fst) as)"

definition arrays_wf :: "(set_array \<times> u8) list \<Rightarrow> bool" where
  "arrays_wf as \<longleftrightarrow> (\<forall>a \<in> set as. set_array_wf (fst a))"

lemma update_front_owned:
  assumes "update_front t d as w = Inr (as', w')" "arrays_wf as"
  shows "arrays_wf as' \<and> arrays_owned as' = arrays_owned as \<and> created w' = created w \<and> destroyed w' = destroyed w"
  using assms by (fastforce simp: update_front_def arrays_wf_def arrays_owned_def bind_res_Inr owned_simps split: list.splits if_splits)

lemma update_set_owned:
  assumes "InternalUpdateDescriptorSet e dev pool sl t d as w = Inr (as', w')" "arrays_wf as"
  shows "arrays_wf as' \<and> conserves w (arrays_owned as) w' (arrays_owned as')"
proof (cases "front_used_up as")
  case True
  then obtain a w1 where a: "DescriptorSetArray_new e dev (sl, pool) w = Inr (a, w1)" "update_front t d ((a, NOT 0) # as) w1 = Inr (as', w')"
    using assms(1) by (auto simp: InternalUpdateDescriptorSet_def bind_res_Inr)
  note n = set_array_new_owned [OF a(1)]
  have "arrays_wf ((a, NOT 0) # as)" using n assms(2) by (simp add: arrays_wf_def)
  note u = update_front_owned [OF a(2) this]
  have "conserves w (arrays_owned as) w1 (arrays_owned as')"
    using conserves_more [OF conjunct2 [OF n], of "arrays_owned as"] u by (simp add: arrays_owned_def add.commute)
  then show ?thesis using u by (simp add: conserves_def)
next
  case False
  then show ?thesis using update_front_owned [of t d as w as' w'] assms by (auto simp: InternalUpdateDescriptorSet_def conserves_eq)
qed

lemma bind_dset_owned:
  assumes "bind_dset B cmd off (d, w) = Inr (d', w')" "dset_wf d"
  shows "dset_wf d' \<and> conserves w (dset_owned d) w' (dset_owned d')"
proof (cases "ds_arrays d")
  case None
  then show ?thesis using assms by (auto simp: bind_dset_def bind_res_Inr conserves_eq owned_simps split: if_splits)
next
  case (Some as)
  then obtain as' w1 where r: "refresh_set B d as w = Inr (d', as', w1)" and c: "created w' = created w1" "destroyed w' = destroyed w1"
    using assms(1) by (auto simp: bind_dset_def bind_res_Inr owned_simps split: if_splits)
  have wf: "arrays_wf as" using assms(2) Some by (simp add: arrays_wf_def dset_wf_def)
  have "dset_wf d' \<and> conserves w (dset_owned d) w1 (dset_owned d')"
  proof (cases "setState (ds_data d) = KDirty")
    case True
    then have i: "InternalUpdateDescriptorSet (be_env B) (be_device B) (be_pool B) (be_setLayout B) (ut_handle (ds_template d))
          (bData (ds_data d)) as w = Inr (as', w1)" and d': "ds_arrays d' = Some as'" "ds_template d' = ds_template d"
      using r by (auto simp: refresh_set_def bind_res_Inr)
    note u = update_set_owned [OF i wf]
    show ?thesis using u conserves_more [OF conjunct2 [OF u], of "template_owned (ds_template d)"] assms(2) Some d'
      by (auto simp: dset_wf_def dset_owned_def arrays_owned_def arrays_wf_def add.commute)
  qed (use r assms(2) in \<open>auto simp: refresh_set_def\<close>)
  then show ?thesis using c by (simp add: conserves_def)
qed

lemma update_owned:
  "map_of xs k = Some d \<Longrightarrow> sum_list (map (dset_owned \<circ> snd) (AList.update k d' xs)) + dset_owned d
     = sum_list (map (dset_owned \<circ> snd) xs) + dset_owned d'"
  by (induction xs) (auto simp: ac_simps)

lemma update_wf: "(\<forall>x \<in> set xs. dset_wf (snd x)) \<Longrightarrow> dset_wf d \<Longrightarrow> \<forall>x \<in> set (AList.update k d xs). dset_wf (snd x)"
  by (induction xs) auto

lemma map_of_wf: "(\<forall>x \<in> set xs. dset_wf (snd x)) \<Longrightarrow> map_of xs k = Some d \<Longrightarrow> dset_wf d"
  by (auto dest!: map_of_SomeD)

lemma descriptor_grows:
  assumes "pipe_wf p" "map_of (pp_descriptors p) k = Some d" "dset_wf d'" "conserves w (dset_owned d) w' (dset_owned d')"
  shows "pipe_grows (p, w) (p\<lparr> pp_descriptors := AList.update k d' (pp_descriptors p) \<rparr>, w')"
proof -
  have "pipe_owned (p\<lparr> pp_descriptors := AList.update k d' (pp_descriptors p) \<rparr>) + dset_owned d = pipe_owned p + dset_owned d'"
    using update_owned [OF assms(2), of d'] by (simp add: pipe_owned_def ac_simps)
  then show ?thesis using assms update_wf [of "pp_descriptors p" d' k]
    by (auto simp: pipe_grows_def pipe_wf_def intro: conserves_part)
qed

lemma CreateLayout_grows:
  assumes "CreateLayout E ss (p, w) = Inr (h, p', w')" "pipe_wf p"
  shows "pipe_grows (p, w) (p', w')"
proof -
  obtain l w1 where l: "PipelineLayout_new (pe_obj E) (pe_device E) ss w = Inr (l, w1)"
    using assms(1) by (auto simp: CreateLayout_def bind_res_Inr)
  note l1 = PipelineLayout_new_owned [OF l]
  show ?thesis
  proof (cases "find_layout (pl_handle l) (pp_layouts p)")
    case None
    then show ?thesis using assms l l1 conserves_more [OF conjunct1 [OF conjunct2 [OF l1]], of "pipe_owned p"]
      by (auto simp: CreateLayout_def pipe_grows_def pipe_wf_def pipe_owned_def ac_simps)
  next
    case (Some m)
    obtain w2 where w2: "PipelineLayout_destroy (pe_obj E) l w1 = Inr w2" "conserves w1 (pipeline_layout_owned l) w2 {#}"
      using PipelineLayout_destroy_owned l1 by blast
    have "conserves w (pipe_owned p) w2 (pipe_owned p)"
      using conserves_trans [OF conjunct1 [OF conjunct2 [OF l1]] w2(2)] conserves_more [of w "{#}" w2 "{#}" "pipe_owned p"] by simp
    then show ?thesis using assms l Some w2 by (simp add: CreateLayout_def pipe_grows_def)
  qed
qed

lemma fold_grows:
  assumes "\<And>a s s'. a \<in> set as \<Longrightarrow> f a s = Inr s' \<Longrightarrow> pipe_wf (fst s) \<Longrightarrow> pipe_grows s s'" "fold_res f as s = Inr s'" "pipe_wf (fst s)"
  shows "pipe_grows s s'"
  using assms
proof (induction as arbitrary: s)
  case (Cons a as)
  then obtain s1 where s1: "f a s = Inr s1" "fold_res f as s1 = Inr s'" by (auto simp: bind_res_Inr)
  have g: "pipe_grows s s1" using Cons.prems(1) [OF _ s1(1) Cons.prems(3)] by simp
  moreover have "pipe_grows s1 s'"
  proof (rule Cons.IH [OF _ s1(2)])
    show "pipe_wf (fst s1)" using g by (simp add: pipe_grows_def)
  qed (rule Cons.prems(1), simp_all)
  ultimately show ?case by (rule pipe_grows_trans)
qed (simp add: pipe_grows_def)

lemma prepare_set_grows:
  assumes "prepare_set E h ns (p, w) = Inr (p', w')" "pipe_wf p"
  shows "pipe_grows (p, w) (p', w')"
proof (cases "map_of (pp_descriptors p) (sl_handle (snd ns)) = None")
  case True
  then obtain d where d: "dset_new (pe_obj E) (pe_device E) (pp_pool p) (pp_bindPoint p) h (fst ns) (snd ns) w = Inr (d, w')"
      "p' = p\<lparr> pp_descriptors := pp_descriptors p @ [(sl_handle (snd ns), d)] \<rparr>"
    using assms(1) by (auto simp: prepare_set_def bind_res_Inr)
  note d1 = dset_new_owned [OF d(1)]
  show ?thesis using assms(2) d1 conserves_more [OF conjunct2 [OF d1], of "pipe_owned p"]
    by (auto simp: d(2) pipe_grows_def pipe_wf_def pipe_owned_def ac_simps)
qed (use assms in \<open>auto simp: prepare_set_def pipe_grows_def\<close>)

lemma bind_stages_keeps: "bind_stages ms p = Inr p' \<Longrightarrow> \<exists>g c. p' = p\<lparr> pp_graphics := g, pp_compute := c \<rparr>"
  by (cases p; cases "pp_bindPoint p") (auto simp: bind_stages_def split: if_splits)

lemma find_layout_handle: "find_layout h ls = Some l \<Longrightarrow> pl_handle l = h \<and> l \<in> set ls"
  by (induction ls) (auto simp: find_layout_def split: if_splits)

lemma BindLayoutAuto_parts:
  assumes "BindLayoutAuto E h bp (p, w) = Inr (p', w')"
  obtains l p1 g c where "find_layout h (pp_layouts p) = Some l"
    "p1 = p\<lparr> pp_bindPoint := bp, pp_current := LayoutAt h, pp_graphics := g, pp_compute := c \<rparr>"
    "fold_res (prepare_set E h) (pl_sets l) (p1, w) = Inr (p', w')"
proof -
  obtain l where l: "find_layout h (pp_layouts p) = Some l" using assms by (auto simp: BindLayoutAuto_def split: option.splits)
  then obtain p1 where b: "bind_stages (pl_modules l) (p\<lparr> pp_bindPoint := bp, pp_current := LayoutAt h \<rparr>) = Inr p1"
      and i: "InternalPrepareDescriptorSets E (p1, w) = Inr (p', w')"
    using assms by (auto simp: BindLayoutAuto_def bind_res_Inr split: if_splits)
  obtain g c where p1: "p1 = p\<lparr> pp_bindPoint := bp, pp_current := LayoutAt h, pp_graphics := g, pp_compute := c \<rparr>"
    using bind_stages_keeps [OF b] by auto
  then have "fold_res (prepare_set E h) (pl_sets l) (p1, w) = Inr (p', w')"
    using i l find_layout_handle [OF l] by (simp add: p1 InternalPrepareDescriptorSets_def InternalGetLayout_def layout_at_def)
  then show ?thesis using that l p1 by blast
qed

lemma BindLayoutAuto_grows:
  assumes "BindLayoutAuto E h bp (p, w) = Inr (p', w')" "pipe_wf p"
  shows "pipe_grows (p, w) (p', w')"
proof -
  obtain l p1 g c where "find_layout h (pp_layouts p) = Some l"
    and p1: "p1 = p\<lparr> pp_bindPoint := bp, pp_current := LayoutAt h, pp_graphics := g, pp_compute := c \<rparr>"
    and f: "fold_res (prepare_set E h) (pl_sets l) (p1, w) = Inr (p', w')" by (rule BindLayoutAuto_parts [OF assms(1)])
  have o': "pipe_owned p1 = pipe_owned p" "pipe_wf p1" using assms(2) by (simp_all add: p1 pipe_owned_def pipe_wf_def)
  have "pipe_grows s s'" if "prepare_set E h a s = Inr s'" "pipe_wf (fst s)" for a s s'
    using that prepare_set_grows by (cases s; cases s') simp
  from fold_grows [OF this f] have "pipe_grows (p1, w) (p', w')" using o'(2) by simp
  then show ?thesis using o' by (simp add: pipe_grows_def)
qed

lemma create_owned:
  "created (snd (create_object e info w)) = created w + handles (kind_of info) (info_pool info) [fst (create_object e info w)]"
  "destroyed (snd (create_object e info w)) = destroyed w"
  by (rule created_object [OF prod.collapse [symmetric]])+

lemma InternalCreatePipeline_owned:
  assumes "InternalCreatePipeline E targets key (p, w) = Inr (h, w')"
  shows "created w' = created w + handles HPipeline 0 [h] \<and> destroyed w' = destroyed w"
  using assms
  by (cases "pp_bindPoint p") (auto simp: InternalCreatePipeline_def Let_def InternalCreateGraphicsPipeline_def InternalCreateComputePipeline_def
    case_prod_unfold bind_res_Inr owned_simps create_owned)

lemma handles_append: "handles k p (xs @ ys) = handles k p xs + handles k p ys"
  by (simp add: handles_def)

lemma InternalGetPipeline_grows:
  assumes "InternalGetPipeline E targets (p, w) = Some (Inr (h, p', w'))" "pipe_wf p"
  shows "pipe_grows (p, w) (p', w')"
proof -
  obtain key where key: "InternalCalculateHashKey E p = Inr key" using assms(1) by (auto simp: InternalGetPipeline_def split: sum.splits)
  show ?thesis
  proof (cases "map_of (pp_pipelines p) key")
    case None
    then obtain w1 where c: "InternalCreatePipeline E targets key (p, w) = Inr (h, w')"
      "p' = p\<lparr> pp_pipelines := pp_pipelines p @ [(key, h)] \<rparr>"
      using assms(1) key by (auto simp: InternalGetPipeline_def bind_res_Inr)
    note n = InternalCreatePipeline_owned [OF c(1)]
    then show ?thesis using assms(2) by (simp add: n c(2) pipe_grows_def pipe_wf_def pipe_owned_def conserves_def handles_append ac_simps)
  qed (use assms key in \<open>auto simp: InternalGetPipeline_def pipe_grows_def split: if_splits\<close>)
qed

lemma pipe_exec_grows:
  assumes "pipe_exec E op s = Some (Inr s')" "pipe_wf (fst s)"
  shows "pipe_grows s s'"
proof -
  obtain p w p' w' where s: "s = (p, w)" "s' = (p', w')" by (cases s; cases s')
  have wf: "pipe_wf p" using assms(2) s by simp
  show ?thesis unfolding s
  proof (cases op)
    case (PCreateLayout ss)
    then show "pipe_grows (p, w) (p', w')" using assms(1) CreateLayout_grows wf by (auto simp: s bind_res_Inr)
  next
    case (PBindLayout h bp)
    then show "pipe_grows (p, w) (p', w')" using assms(1) BindLayoutAuto_grows wf by (auto simp: s)
  next
    case (PVertexInput bs as)
    then show "pipe_grows (p, w) (p', w')" using assms(1) wf
      by (auto simp: s SetVertexInputState_def pipe_grows_def pipe_wf_def pipe_owned_def)
  next
    case (PRenderTarget hash gl desc t r)
    then show "pipe_grows (p, w) (p', w')" using assms(1) wf
      by (auto simp: s SetRenderTarget_def Let_def bind_res_Inr pipe_grows_def pipe_wf_def pipe_owned_def split: list.splits)
  next
    case (PSetData hash v nr)
    then obtain sl where l: "SetDescriptorData_layout E hash sl v (p, w) = Inr (p', w')"
      using assms(1) by (auto simp: s SetDescriptorData_def bind_res_Inr)
    then obtain b d where bd: "GetShaderVariableBinding sl hash = Inr b" "map_of (pp_descriptors p) (sl_handle sl) = Some d"
      by (auto simp: SetDescriptorData_layout_def bind_res_Inr split: option.splits)
    with l obtain d' where d: "map_of (pp_descriptors p) (sl_handle sl) = Some d" "set_dset (pe_obj E) (var_op b v) d w = Inr (d', w')"
      "p' = p\<lparr> pp_descriptors := AList.update (sl_handle sl) d' (pp_descriptors p) \<rparr>"
      by (auto simp: SetDescriptorData_layout_def bind_res_Inr)
    have "dset_wf d" using map_of_wf [OF _ d(1)] wf by (simp add: pipe_wf_def)
    then show "pipe_grows (p, w) (p', w')" using descriptor_grows [OF wf d(1)] set_dset_owned [OF d(2)] by (simp add: d(3))
  next
    case (PBindSet cmd nr off)
    then obtain l sl d d' where d: "map_of (pp_descriptors p) (sl_handle sl) = Some d"
      "bind_dset (bind_env_of E p l sl nr) cmd off (d, w) = Inr (d', w')"
      "p' = p\<lparr> pp_descriptors := AList.update (sl_handle sl) d' (pp_descriptors p) \<rparr>"
      using assms(1) by (auto simp: s BindDescriptorSetAuto_def bind_res_Inr split: option.splits)
    have "dset_wf d" using map_of_wf [OF _ d(1)] wf by (simp add: pipe_wf_def)
    then show "pipe_grows (p, w) (p', w')" using descriptor_grows [OF wf d(1)] bind_dset_owned [OF d(2)] by (simp add: d(3))
  next
    case (PBindPipeline targets cmd)
    then obtain h w1 where g: "InternalGetPipeline E targets (p, w) = Some (Inr (h, p', w1))"
      and w': "w' = call (CmdBindPipeline cmd (pp_bindPoint p') h) w1"
      using assms(1) by (auto simp: s BindPipelineAuto_def bind_res_Inr split: option.splits sum.splits)
    show "pipe_grows (p, w) (p', w')" using InternalGetPipeline_grows [OF g wf]
      by (simp add: w' pipe_grows_def conserves_def owned_simps)
  qed
qed

section \<open>Everything is released\<close>

lemma Pipeline_new_grows:
  assumes "Pipeline_new E C props path fs w = Inr (p, w')"
  shows "pipe_wf p \<and> conserves w {#} w' (pipe_owned p)"
proof -
  obtain pool w1 where pool: "create_object (pe_obj E) (DescriptorPoolInfo kPoolSizes (kMaxSets * length kPoolSizes) kBufferBaseCount
      POOL_CREATE_FREE_DESCRIPTOR_SET_BIT) w = (pool, w1)" by fastforce
  obtain d where d: "cached_data C props path fs = Inr d"
    using assms pool by (auto simp: Pipeline_new_def LoadPipelineCache_def Let_def bind_res_Inr)
  obtain cache w2 where cache: "create_object (pe_obj E) (PipelineCacheInfo d) w1 = (cache, w2)" by fastforce
  show ?thesis using assms d pool cache
    by (auto simp: Pipeline_new_def LoadPipelineCache_def Let_def DeviceObject_new_def pipe_wf_def pipe_owned_def conserves_def owned_simps)
qed

lemma dset_destroy_owned:
  assumes "dset_wf d"
  shows "\<exists>w'. dset_destroy e d w = Inr w' \<and> conserves w (dset_owned d) w' {#}"
proof -
  have t: "\<exists>w'. DescriptorUpdateTemplate_destroy e (ds_template d) w1 = Inr w' \<and> conserves w1 (template_owned (ds_template d)) w' {#}" for w1
    using templates.destroy [of "ds_template d" e undefined w1] assms by (simp add: template_class_def dset_wf_def)
  show ?thesis
  proof (cases "ds_arrays d")
    case None
    then show ?thesis using t by (simp add: dset_destroy_def dset_owned_def)
  next
    case (Some as)
    have "\<exists>w'. (\<lambda>(a, i). DescriptorSetArray_destroy e a) x w1 = Inr w' \<and> conserves w1 ((set_array_owned \<circ> fst) x) w' {#}" if "x \<in> set as" for x w1
      using set_arrays.destroy [of "fst x" e undefined w1] assms Some that
      by (simp add: set_array_class_def dset_wf_def case_prod_unfold)
    from fold_destroy [where f = "\<lambda>(a, i). DescriptorSetArray_destroy e a" and own = "set_array_owned \<circ> fst", OF this]
    obtain w1 where w1: "fold_res (\<lambda>(a, i). DescriptorSetArray_destroy e a) as w = Inr w1"
      "conserves w (sum_list (map (set_array_owned \<circ> fst) as)) w1 {#}" by blast
    obtain w2 where w2: "DescriptorUpdateTemplate_destroy e (ds_template d) w1 = Inr w2" "conserves w1 (template_owned (ds_template d)) w2 {#}"
      using t by blast
    have "conserves w (dset_owned d) w2 {#}"
      using conserves_trans [OF conserves_more [OF w1(2), of "template_owned (ds_template d)"]] w2(2) Some
      by (simp add: dset_owned_def add.commute)
    then show ?thesis using w1(1) w2(1) Some by (simp add: dset_destroy_def)
  qed
qed

lemma destroy_pipelines_owned:
  fixes ps :: "(u64 \<times> nat) list"
  assumes "do_device b \<noteq> None"
  shows "\<exists>w'. fold_res (\<lambda>(key, h). destroy_handles HPipeline 0 b [h]) ps w = Inr w' \<and> conserves w (handles HPipeline 0 (map snd ps)) w' {#}"
proof -
  obtain dev where dev: "do_device b = Some dev" using assms by auto
  have "\<exists>w'. (\<lambda>(key, h). destroy_handles HPipeline 0 b [h]) x w1 = Inr w' \<and> conserves w1 (handles HPipeline 0 [snd x]) w' {#}" if "x \<in> set ps" for x :: "u64 \<times> nat" and w1
    using dev by (auto simp: case_prod_unfold conserves_def owned_simps)
  from fold_destroy [where f = "\<lambda>(key, h). destroy_handles HPipeline 0 b [h]" and own = "\<lambda>x. handles HPipeline 0 [snd x]" and as = ps, OF this]
  obtain w' where "fold_res (\<lambda>(key, h). destroy_handles HPipeline 0 b [h]) ps w = Inr w'"
      "conserves w (sum_list (map (\<lambda>x. handles HPipeline 0 [snd x]) ps)) w' {#}" by blast
  moreover have "sum_list (map (\<lambda>x. handles HPipeline 0 [snd x]) ps) = handles HPipeline 0 (map snd ps)"
    by (induction ps) (auto simp: handles_Cons)
  ultimately show ?thesis by simp
qed

lemma Pipeline_destroy_owned:
  assumes "SavePipelineCache C props path (pp_cache p) fs = Inr (r, fs')" "pipe_wf p"
  shows "\<exists>w'. Pipeline_destroy E C props path fs (p, w) = Inr (fs', w') \<and> conserves w (pipe_owned p) w' {#}"
proof -
  let ?e = "pe_obj E" and ?c = "handles HPipelineCache 0 [pp_cache p]" and ?o = "handles HDescriptorPool 0 [pp_pool p]"
    and ?d = "sum_list (map (dset_owned \<circ> snd) (pp_descriptors p))" and ?l = "sum_list (map pipeline_layout_owned (pp_layouts p))"
  obtain dev where dev: "do_device (pp_base p) = Some dev" using assms(2) by (auto simp: pipe_wf_def)
  obtain w1 where w1: "fold_res (\<lambda>(key, h). destroy_handles HPipeline 0 (pp_base p) [h]) (pp_pipelines p) w = Inr w1"
      "conserves w (handles HPipeline 0 (map snd (pp_pipelines p))) w1 {#}" using destroy_pipelines_owned dev by blast
  obtain w2 where w2: "destroy_handles HPipelineCache 0 (pp_base p) [pp_cache p] w1 = Inr w2" "conserves w1 ?c w2 {#}"
    using dev by (auto simp: conserves_def owned_simps)
  have "\<exists>w'. (\<lambda>(k, d). dset_destroy ?e d) x v = Inr w' \<and> conserves v ((dset_owned \<circ> snd) x) w' {#}" if "x \<in> set (pp_descriptors p)" for x v
    using dset_destroy_owned assms(2) that by (simp add: pipe_wf_def case_prod_unfold)
  from fold_destroy [where f = "\<lambda>(k, d). dset_destroy ?e d" and own = "dset_owned \<circ> snd", OF this]
  obtain w3 where w3: "fold_res (\<lambda>(k, d). dset_destroy ?e d) (pp_descriptors p) w2 = Inr w3" "conserves w2 ?d w3 {#}" by blast
  obtain w4 where w4: "(if pp_pool p \<noteq> 0 then destroy_handles HDescriptorPool 0 (pp_base p) [pp_pool p] w3 else Inr w3) = Inr w4"
      "conserves w3 ?o w4 {#}" using destroy_one [of "pp_pool p" "pp_base p" HDescriptorPool 0 w3] dev by auto
  have "\<exists>w'. PipelineLayout_destroy ?e x v = Inr w' \<and> conserves v (pipeline_layout_owned x) w' {#}" if "x \<in> set (pp_layouts p)" for x v
    using PipelineLayout_destroy_owned assms(2) that by (simp add: pipe_wf_def)
  from fold_destroy [where f = "PipelineLayout_destroy ?e", OF this]
  obtain w5 where w5: "fold_res (PipelineLayout_destroy ?e) (pp_layouts p) w4 = Inr w5" "conserves w4 ?l w5 {#}" by blast
  have "conserves w (pipe_owned p) w5 {#}"
    using conserves_trans [OF conserves_more [OF w1(2), of "?c + (?d + (?o + ?l))"]]
      conserves_trans [OF conserves_more [OF w2(2), of "?d + (?o + ?l)"]] conserves_trans [OF conserves_more [OF w3(2), of "?o + ?l"]]
      conserves_trans [OF conserves_more [OF w4(2), of ?l]] w5(2) by (simp add: pipe_owned_def)
  then show ?thesis using assms(1) w1(1) w2(1) w3(1) w4(1) w5(1)
    by (simp add: Pipeline_destroy_def Let_def conserves_def owned_simps)
qed

text \<open>C8: However a pipeline is used between its construction and its destruction - layouts made and bound, data
  set, sets and pipelines bound -, its destructor does not fail, and the handles the driver has created for
  it are those that have been destroyed, counted with their kind and pool: shader modules, samplers, set
  layouts and layouts, templates, sets, pipelines, the cache and the pool.\<close>
theorem pipeline_releases_handles_once:
  assumes "Pipeline_new E C props path fs w = Inr (p, w1)"
    and "pipe_run E ops (p, w1) = Some (Inr (p2, w2))"
    and "SavePipelineCache C props path (pp_cache p2) fs2 = Inr (saved, fs3)"
  shows "\<exists>w3. Pipeline_destroy E C props path fs2 (p2, w2) = Inr (fs3, w3)
    \<and> created w3 + destroyed w = created w + destroyed w3"
proof -
  have "pipe_wf (fst (p2, w2)) \<and> conserves w {#} (snd (p2, w2)) (pipe_owned (fst (p2, w2)))"
  proof (rule pipe_run_inv [OF _ _ assms(2), where P = "\<lambda>s. pipe_wf (fst s) \<and> conserves w {#} (snd s) (pipe_owned (fst s))"])
    fix op s s' assume "pipe_wf (fst s) \<and> conserves w {#} (snd s) (pipe_owned (fst s))" "pipe_exec E op s = Some (Inr s')"
    then show "pipe_wf (fst s') \<and> conserves w {#} (snd s') (pipe_owned (fst s'))"
      using pipe_exec_grows by (auto simp: pipe_grows_def intro: conserves_trans)
  qed (use Pipeline_new_grows [OF assms(1)] in simp)
  then obtain w3 where "Pipeline_destroy E C props path fs2 (p2, w2) = Inr (fs3, w3)" "conserves w {#} w3 {#}"
    using Pipeline_destroy_owned [OF assms(3)] conserves_trans by (metis fst_conv snd_conv)
  then show ?thesis by (auto simp: conserves_def)
qed

definition ex_pipe_obj :: obj_env where
  "ex_pipe_obj = \<lparr> oe_validation = False, oe_hash = (\<lambda>_. 0), oe_object = (\<lambda>cs _. 100 + length cs),
     oe_sets = (\<lambda>cs _ i. 1000 * length cs + i), oe_driver = undefined, oe_uuid = (\<lambda>_. 0) \<rparr>"

definition ex_pipe_env :: pipe_env where
  "ex_pipe_env = \<lparr> pe_obj = ex_pipe_obj, pe_device = 1, pe_hash = (\<lambda>bp l. of_nat l), pe_realloc = (\<lambda>_. False), pe_pushSupported = False \<rparr>"

definition ex_shader_set :: shader_set where
  "ex_shader_set = \<lparr> ss_shaders = [([1, 2], \<lparr> ep_name = ''main'', ep_stage = 32, ep_launch = Some (8, 8, 1, 0) \<rparr>)],
     ss_layouts = [(0, set_layout_desc_default)] \<rparr>"

definition ex_pipe_ops :: "pipeline_op list" where
  "ex_pipe_ops = [PCreateLayout ex_shader_set, PBindLayout 104 BindCompute, PBindSet 7 0 None, PBindPipeline (\<lambda>_. None) 7]"

lemmas ex_pipe_simps = ex_pipe_ops_def ex_pipe_env_def ex_pipe_obj_def ex_shader_set_def set_layout_desc_default_def

lemma ex_pipeline_new:
  "\<exists>p w. Pipeline_new ex_pipe_env ex_cache_env ex_props [''c''] \<lparr> nodes = [], now = 1, uuid_count = 0 \<rparr> world_new = Inr (p, w)
     \<and> pp_pool p = 100 \<and> pp_cache p = 101 \<and> pp_layouts p = [] \<and> pp_descriptors p = [] \<and> pp_pipelines p = [] \<and> length (w_calls w) = 2"
  by (simp add: Pipeline_new_def ex_pipe_env_def ex_pipe_obj_def create_object_def LoadPipelineCache_def cached_data_def Let_def
    GetRecord_def node_at_def world_new_def call_def ex_cache_env_def ex_files_def name_handle_def)

lemmas ex_object_simps = create_object_def call_def DeviceObject_named_def DeviceObject_new_def register_handles_def new_uuid_def
  take_base_def Let_def

lemma ex_pipe_run:
  assumes "pp_pool p = 100" "pp_cache p = 101" "pp_layouts p = []" "pp_descriptors p = []" "pp_pipelines p = []" "length (w_calls w) = 2"
  shows "\<exists>s. pipe_run ex_pipe_env ex_pipe_ops (p, w) = Some (Inr s) \<and> pp_cache (fst s) = 101 \<and> length (pp_pipelines (fst s)) = 1
    \<and> map pl_handle (pp_layouts (fst s)) = [104]"
  using assms by (simp add: CreateLayout_def PipelineLayout_new_def ShaderModule_new_def DescriptorSetLayout_new_def ex_pipe_simps
    SamplerVector_new_def ex_object_simps find_layout_def BindLayoutAuto_def bind_stages_def stage_of_def
    SHADER_STAGE_COMPUTE_BIT_def InternalPrepareDescriptorSets_def InternalGetLayout_def layout_at_def prepare_set_def dset_new_def
    DescriptorUpdateTemplate_new_def is_push_def DescriptorSetArray_new_def BindDescriptorSetAuto_def GetDescriptorSetLayout_def
    bind_dset_def refresh_set_def set_data_new_def BindPipelineAuto_def InternalGetPipeline_def InternalCalculateHashKey_def
    InternalCreatePipeline_def InternalCreateComputePipeline_def kDescriptorSetCount_def idx_def upt_rec)

theorem pipeline_releases_handles_once_witness:
  "\<exists>fs p w1 p2 w2 w3. Pipeline_new ex_pipe_env ex_cache_env ex_props [''c''] fs world_new = Inr (p, w1)
     \<and> pipe_run ex_pipe_env ex_pipe_ops (p, w1) = Some (Inr (p2, w2)) \<and> length (pp_pipelines p2) = 1
     \<and> (\<exists>fs3. Pipeline_destroy ex_pipe_env ex_cache_env ex_props [''c''] fs (p2, w2) = Inr (fs3, w3)) \<and> created w3 = destroyed w3"
proof -
  let ?fs = "\<lparr> nodes = [], now = 1, uuid_count = 0 \<rparr>"
  obtain p w1 where p: "Pipeline_new ex_pipe_env ex_cache_env ex_props [''c''] ?fs world_new = Inr (p, w1)"
    and f: "pp_pool p = 100" "pp_cache p = 101" "pp_layouts p = []" "pp_descriptors p = []" "pp_pipelines p = []" "length (w_calls w1) = 2"
    using ex_pipeline_new by blast
  obtain p2 w2 where r: "pipe_run ex_pipe_env ex_pipe_ops (p, w1) = Some (Inr (p2, w2))" "pp_cache p2 = 101" "length (pp_pipelines p2) = 1"
    using ex_pipe_run [OF f] by auto
  have "IsCacheValid (ce_data ex_cache_env 101) ex_props = Inr True"
    by (simp add: ex_cache_env_def ex_props_def IsCacheValid_def read_u32_def read_uuid_def both_def HEADER_VERSION_ONE_def)
  then obtain s fs3 where s: "SavePipelineCache ex_cache_env ex_props [''c''] (pp_cache p2) ?fs = Inr (s, fs3)"
    by (auto simp: r(2) SavePipelineCache_def SaveBinary_def saveCacheOp_def GetPipelineCacheData_def Let_def ex_cache_env_def
      ex_files_def write_file_def put_node_def node_at_def GetRecord_def GetTimeStamp_def)
  from pipeline_releases_handles_once [OF p r(1) s] p r(1,3) show ?thesis by fastforce
qed

section \<open>Layouts and their sets\<close>

definition kept_or_new :: "(nat \<times> dset) list \<Rightarrow> (nat \<times> dset) list \<Rightarrow> bool" where
  "kept_or_new ds ds' \<longleftrightarrow> (\<forall>k d. map_of ds k = Some d \<longrightarrow> map_of ds' k = Some d)
     \<and> (\<forall>k d. map_of ds' k = Some d \<and> map_of ds k = None \<longrightarrow> ds_data d = set_data_new)"

lemma kept_or_new_trans: "kept_or_new a b \<Longrightarrow> kept_or_new b c \<Longrightarrow> kept_or_new a c"
  unfolding kept_or_new_def by (metis not_Some_eq)

lemma kept_or_new_refl: "kept_or_new ds ds"
  by (auto simp: kept_or_new_def)

lemma dset_new_data: "dset_new e dev pool bp pl nr l w = Inr (d, w') \<Longrightarrow> ds_data d = set_data_new"
  by (auto simp: dset_new_def bind_res_Inr split: if_splits)

lemma prepare_set_keeps:
  assumes "prepare_set E h ns (p, w) = Inr (p', w')"
  shows "\<exists>ds. p' = p\<lparr> pp_descriptors := ds \<rparr> \<and> map_of ds (sl_handle (snd ns)) \<noteq> None \<and> kept_or_new (pp_descriptors p) ds"
proof (cases "map_of (pp_descriptors p) (sl_handle (snd ns)) = None")
  case True
  then obtain d where d: "p' = p\<lparr> pp_descriptors := pp_descriptors p @ [(sl_handle (snd ns), d)] \<rparr>" "ds_data d = set_data_new"
    using assms dset_new_data by (auto simp: prepare_set_def bind_res_Inr)
  then have "kept_or_new (pp_descriptors p) (pp_descriptors p @ [(sl_handle (snd ns), d)])"
    by (auto simp: kept_or_new_def map_add_def split: if_splits)
  then show ?thesis using True d(1) by (intro exI [of _ "pp_descriptors p @ [(sl_handle (snd ns), d)]"]) (simp add: map_add_def)
next
  case False
  then show ?thesis using assms by (intro exI [of _ "pp_descriptors p"]) (simp add: prepare_set_def kept_or_new_refl)
qed

lemma prepare_all:
  "fold_res (prepare_set E h) ls (p, w) = Inr (p', w') \<Longrightarrow> \<exists>ds. p' = p\<lparr> pp_descriptors := ds \<rparr>
     \<and> (\<forall>ns \<in> set ls. map_of ds (sl_handle (snd ns)) \<noteq> None) \<and> kept_or_new (pp_descriptors p) ds"
proof (induction ls arbitrary: p w)
  case Nil
  then show ?case by (intro exI [of _ "pp_descriptors p"]) (simp add: kept_or_new_refl)
next
  case (Cons ns ls)
  then obtain p1 w1 where 1: "prepare_set E h ns (p, w) = Inr (p1, w1)" "fold_res (prepare_set E h) ls (p1, w1) = Inr (p', w')"
    by (auto simp: bind_res_Inr)
  obtain ds1 where p1: "p1 = p\<lparr> pp_descriptors := ds1 \<rparr>" and d1: "map_of ds1 (sl_handle (snd ns)) \<noteq> None"
      "kept_or_new (pp_descriptors p) ds1" using prepare_set_keeps [OF 1(1)] by blast
  obtain ds where p': "p' = p1\<lparr> pp_descriptors := ds \<rparr>" and d: "\<forall>ns \<in> set ls. map_of ds (sl_handle (snd ns)) \<noteq> None"
      "kept_or_new ds1 ds" using Cons.IH [OF 1(2)] by (auto simp: p1)
  have "map_of ds (sl_handle (snd ns)) \<noteq> None" using d1(1) d(2) by (auto simp: kept_or_new_def)
  then show ?case using d(1) kept_or_new_trans [OF d1(2) d(2)] by (intro exI [of _ ds]) (simp add: p' p1)
qed

lemma layout_of_set: "GetDescriptorSetLayout l nr = Inr sl \<Longrightarrow> (nr, sl) \<in> set (pl_sets l)"
proof -
  assume "GetDescriptorSetLayout l nr = Inr sl"
  then obtain es where "dropWhile (\<lambda>e. fst e < nr) (pl_sets l) = (nr, sl) # es"
    by (auto simp: GetDescriptorSetLayout_def split: list.splits if_splits)
  then have "(nr, sl) \<in> set (dropWhile (\<lambda>e. fst e < nr) (pl_sets l))" by simp
  then show "(nr, sl) \<in> set (pl_sets l)" by (rule set_dropWhileD)
qed

text \<open>C21: Binding a layout leaves a state for each of its sets: the one there was, with the data set so far, when the set is
  shared with a layout that was bound before, and one without data otherwise. So a set of the layout can be
  given data and be bound, and switching between layouts loses none.\<close>
theorem bound_layout_has_its_sets:
  assumes "BindLayoutAuto E h bp (p, w) = Inr (p', w')"
  shows "\<exists>l. InternalGetLayout p' = Inr l \<and> find_layout h (pp_layouts p) = Some l \<and> pp_bindPoint p' = bp
    \<and> (\<forall>k d. map_of (pp_descriptors p) k = Some d \<longrightarrow> map_of (pp_descriptors p') k = Some d)
    \<and> (\<forall>nr sl. GetDescriptorSetLayout l nr = Inr sl \<longrightarrow> (\<exists>d. map_of (pp_descriptors p') (sl_handle sl) = Some d
         \<and> (map_of (pp_descriptors p) (sl_handle sl) = None \<longrightarrow> ds_data d = set_data_new)))"
proof -
  obtain l p1 g c where l: "find_layout h (pp_layouts p) = Some l"
    and p1: "p1 = p\<lparr> pp_bindPoint := bp, pp_current := LayoutAt h, pp_graphics := g, pp_compute := c \<rparr>"
    and f: "fold_res (prepare_set E h) (pl_sets l) (p1, w) = Inr (p', w')" by (rule BindLayoutAuto_parts [OF assms])
  obtain ds where p': "p' = p1\<lparr> pp_descriptors := ds \<rparr>" and d: "\<forall>ns \<in> set (pl_sets l). map_of ds (sl_handle (snd ns)) \<noteq> None"
      "kept_or_new (pp_descriptors p) ds" using prepare_all [OF f] by (auto simp: p1)
  have "\<exists>d. map_of ds (sl_handle sl) = Some d \<and> (map_of (pp_descriptors p) (sl_handle sl) = None \<longrightarrow> ds_data d = set_data_new)"
    if "GetDescriptorSetLayout l nr = Inr sl" for nr sl
    using layout_of_set [OF that] d by (fastforce simp: kept_or_new_def)
  then show ?thesis using l find_layout_handle [OF l] d(2)
    by (auto simp: p' p1 InternalGetLayout_def layout_at_def kept_or_new_def)
qed

definition ex_bound_layout :: pipeline_layout where
  "ex_bound_layout = pipeline_layout_default\<lparr> pl_modules := [shader_module_default\<lparr> shm_handle := 102,
       shm_entry := \<lparr> ep_name = ''main'', ep_stage = 32, ep_launch = None \<rparr> \<rparr>],
     pl_sets := [(0, set_layout_default\<lparr> sl_handle := 103 \<rparr>)], pl_handle := 104 \<rparr>"

theorem bound_layout_has_its_sets_witness:
  "\<exists>p w s d. BindLayoutAuto ex_pipe_env 104 BindCompute (p, w) = Inr s \<and> pp_descriptors p = []
     \<and> GetDescriptorSetLayout ex_bound_layout 0 = Inr (set_layout_default\<lparr> sl_handle := 103 \<rparr>)
     \<and> map_of (pp_descriptors (fst s)) 103 = Some d \<and> ds_data d = set_data_new"
proof -
  let ?p = "undefined\<lparr> pp_layouts := [ex_bound_layout], pp_descriptors := [] \<rparr>" and ?w = world_new
  have g: "GetDescriptorSetLayout ex_bound_layout 0 = Inr (set_layout_default\<lparr> sl_handle := 103 \<rparr>)"
    by (simp add: GetDescriptorSetLayout_def ex_bound_layout_def)
  have f: "find_layout 104 (pp_layouts ?p) = Some ex_bound_layout" by (simp add: find_layout_def ex_bound_layout_def)
  have "is_ok (BindLayoutAuto ex_pipe_env 104 BindCompute (?p, ?w))"
    by (simp add: ex_bound_layout_def find_layout_def BindLayoutAuto_def bind_stages_def shader_module_default_def set_layout_default_def
      pipeline_layout_default_def SHADER_STAGE_COMPUTE_BIT_def InternalPrepareDescriptorSets_def InternalGetLayout_def layout_at_def
      prepare_set_def dset_new_def DescriptorUpdateTemplate_new_def is_push_def DescriptorSetArray_new_def set_layout_desc_default_def
      ex_object_simps is_ok_def)
  then obtain p2 w2 where b: "BindLayoutAuto ex_pipe_env 104 BindCompute (?p, ?w) = Inr (p2, w2)" by (auto simp: is_ok_def split: sum.splits)
  obtain d where "map_of (pp_descriptors p2) 103 = Some d" "ds_data d = set_data_new"
    using bound_layout_has_its_sets [OF b] f g by fastforce
  then show ?thesis using b g by (intro exI [of _ ?p] exI [of _ ?w] exI [of _ "(p2, w2)"] exI [of _ d]) simp
qed

section \<open>One thread\<close>

definition alone :: "dset \<times> world \<Rightarrow> bind_sys" where
  "alone dw = \<lparr> bs_set = fst dw, bs_world = snd dw, bs_pcs = [BIdle] \<rparr>"

text \<open>The operations on the mutex that \<open>BindDescriptorSetAuto\<close> makes.\<close>

definition bind_steps :: "dset \<Rightarrow> nat \<Rightarrow> nat option \<Rightarrow> bind_event list" where
  "bind_steps d cmd off = (case ds_arrays d of None \<Rightarrow> [EvPush 0 cmd]
     | Some as \<Rightarrow> [EvLock 0, EvCas 0 False] @ (if setState (ds_data d) = KDirty then [EvExclusive 0, EvUpdate 0] else []) @ [EvBind 0 cmd off])"

lemma alone_simps:
  "may_move \<lparr> bs_set = d, bs_world = w, bs_pcs = [x] \<rparr> 0 p r \<longleftrightarrow> x = p \<and> permits (bind_role p) r [bind_role p] 0"
  "move_to 0 q \<lparr> bs_set = d, bs_world = w, bs_pcs = [x] \<rparr> = \<lparr> bs_set = d, bs_world = w, bs_pcs = [q] \<rparr>"
  by (auto simp: may_move_def move_to_def)

lemma permits_alone [simp]: "old \<noteq> Read_Access \<Longrightarrow> permits old new [old] 0" "permits Read_Access No_Access [Read_Access] 0"
  by (cases new; cases old; simp add: permits_def Let_def) (simp add: permits_def)

text \<open>For one thread the binding of a descriptor set is the run of the mutex operations its code makes: the lock,
  the exchange that succeeds exactly when the set is dirty, then the exclusive lock and the update, and the
  bind; with the same set state, the same calls of the driver and the same faults.\<close>
theorem bind_alone_is_run:
  "bind_run B (bind_steps d cmd off) (alone (d, w)) = Some (bind_res (bind_dset B cmd off (d, w)) (\<lambda>s. Inr (alone s)))"
proof (cases "ds_arrays d")
  case None
  then show ?thesis by (simp add: bind_steps_def bind_dset_def alone_def alone_simps)
next
  case (Some as)
  show ?thesis
  proof (cases "setState (ds_data d) = KDirty")
    case True
    let ?d = "d\<lparr> ds_data := (ds_data d)\<lparr> setState := KReady \<rparr> \<rparr>"
    show ?thesis
    proof (cases "InternalUpdateDescriptorSet (be_env B) (be_device B) (be_pool B) (be_setLayout B) (ut_handle (ds_template d))
        (bData (ds_data d)) as w")
      case (Inr s)
      then show ?thesis using Some True
        by (cases s; cases "idx (sa_sets (fst (hd (fst s)))) (unat (snd (hd (fst s))))")
          (simp_all add: bind_steps_def bind_dset_def refresh_set_def alone_def alone_simps with_state_def)
    qed (use Some True in \<open>simp add: bind_steps_def bind_dset_def refresh_set_def alone_def alone_simps with_state_def\<close>)
  next
    case False
    then show ?thesis using Some
      by (cases "idx (sa_sets (fst (hd as))) (unat (snd (hd as)))")
        (simp_all add: bind_steps_def bind_dset_def refresh_set_def alone_def alone_simps with_state_def)
  qed
qed

section \<open>Set numbers\<close>

lemma lower_bound_entry:
  "sorted_wrt (<) (map fst es) \<Longrightarrow> (case dropWhile (\<lambda>e. fst e < n) es of [] \<Rightarrow> Inl EnsureFailed
     | (m, x) # _ \<Rightarrow> bind_res (ensure (m = n)) (\<lambda>_. Inr x)) = Inr y \<longleftrightarrow> (n, y) \<in> set es" for n :: nat
  by (induction es) (force split: prod.splits)+

text \<open>The layout of a set number is found exactly when the shaders use the set. The driver takes the layouts by their
  position, and finds each at the position of its number exactly when the numbers are \<open>0\<close> up to the count of
  sets, without a gap.\<close>
theorem set_layouts_by_number:
  assumes "PipelineLayout_new e dev ss w = Inr (l, w')" and "sorted_wrt (<) (map fst (ss_layouts ss))"
    and "distinct (map (sl_handle \<circ> snd) (pl_sets l))"
  shows "(is_ok (GetDescriptorSetLayout l nr) \<longleftrightarrow> nr \<in> fst ` set (ss_layouts ss))
    \<and> (\<exists>hs. ObjCreate (PipelineLayoutInfo hs (GetPushConstantRanges (pl_sets l))) [pl_handle l] \<in> set (w_calls w')
        \<and> ((\<forall>n sl. GetDescriptorSetLayout l n = Inr sl \<longrightarrow> n < length hs \<and> hs ! n = sl_handle sl)
              \<longleftrightarrow> map fst (ss_layouts ss) = [0..<length (ss_layouts ss)]))"
proof -
  let ?ls = "pl_sets l" and ?hs = "GetDescriptorSetLayoutHandles (pl_sets l)"
  have f: "map fst ?ls = map fst (ss_layouts ss)" using PipelineLayout_new_owned [OF assms(1)] by simp
  then have len: "length (ss_layouts ss) = length ?ls" by (metis length_map)
  have look: "GetDescriptorSetLayout l n = Inr x \<longleftrightarrow> (n, x) \<in> set ?ls" for n x
    unfolding GetDescriptorSetLayout_def using lower_bound_entry assms(2) f by metis
  have hs: "?hs = map (sl_handle \<circ> snd) ?ls" by (simp add: GetDescriptorSetLayoutHandles_def comp_def case_prod_unfold)
  have "is_ok (GetDescriptorSetLayout l nr) \<longleftrightarrow> (\<exists>x. GetDescriptorSetLayout l nr = Inr x)" by (simp add: is_ok_def split: sum.splits)
  also have "\<dots> \<longleftrightarrow> nr \<in> fst ` set ?ls" by (force simp: look)
  also have "fst ` set ?ls = fst ` set (ss_layouts ss)" using f by (metis list.set_map)
  finally have ok: "is_ok (GetDescriptorSetLayout l nr) \<longleftrightarrow> nr \<in> fst ` set (ss_layouts ss)" .
  have "ObjCreate (PipelineLayoutInfo ?hs (GetPushConstantRanges ?ls)) [pl_handle l] \<in> set (w_calls w')"
    using assms(1) by (auto simp: PipelineLayout_new_def bind_res_Inr create_object_def DeviceObject_named_def Let_def)
  moreover have "(\<forall>n sl. GetDescriptorSetLayout l n = Inr sl \<longrightarrow> n < length ?hs \<and> ?hs ! n = sl_handle sl)
      \<longleftrightarrow> map fst (ss_layouts ss) = [0..<length (ss_layouts ss)]" (is "?found \<longleftrightarrow> ?plain")
  proof
    assume p: ?plain
    show ?found
    proof (intro allI impI)
      fix n sl assume "GetDescriptorSetLayout l n = Inr sl"
      then obtain i where i: "i < length ?ls" "?ls ! i = (n, sl)" by (auto simp: look in_set_conv_nth)
      have "n = map fst ?ls ! i" using i by simp
      also have "\<dots> = i" using p f len i(1) by simp
      finally show "n < length ?hs \<and> ?hs ! n = sl_handle sl" using i by (simp add: hs)
    qed
  next
    assume q: ?found
    have "fst (?ls ! i) = i" if i: "i < length ?ls" for i
    proof -
      have "GetDescriptorSetLayout l (fst (?ls ! i)) = Inr (snd (?ls ! i))" using i by (simp add: look)
      with q have h: "fst (?ls ! i) < length ?hs" "?hs ! fst (?ls ! i) = sl_handle (snd (?ls ! i))" by blast+
      then have "?hs ! fst (?ls ! i) = ?hs ! i" using i by (simp add: hs)
      then show ?thesis using assms(3) h(1) i unfolding hs by (simp only: nth_eq_iff_index_eq length_map)
    qed
    then have "map fst ?ls = [0..<length ?ls]" by (intro nth_equalityI) simp_all
    then show ?plain using f len by simp
  qed
  ultimately show ?thesis using ok by blast
qed

theorem set_layouts_by_number_witness:
  "\<exists>l w'. PipelineLayout_new ex_pipe_obj 1 ex_shader_set world_new = Inr (l, w') \<and> is_ok (GetDescriptorSetLayout l 0)
     \<and> \<not> is_ok (GetDescriptorSetLayout l 1)"
proof -
  have "is_ok (PipelineLayout_new ex_pipe_obj 1 ex_shader_set world_new)"
    by (simp add: PipelineLayout_new_def ShaderModule_new_def DescriptorSetLayout_new_def ex_pipe_simps SamplerVector_new_def
      ex_object_simps is_ok_def)
  then obtain l w' where l: "PipelineLayout_new ex_pipe_obj 1 ex_shader_set world_new = Inr (l, w')" by (auto simp: is_ok_def split: sum.splits)
  have n: "map fst (pl_sets l) = [0]" using PipelineLayout_new_owned [OF l] by (simp add: ex_shader_set_def)
  then have d: "distinct (map (sl_handle \<circ> snd) (pl_sets l))" by (cases "pl_sets l") auto
  have s: "sorted_wrt (<) (map fst (ss_layouts ex_shader_set))" by (simp add: ex_shader_set_def)
  show ?thesis using set_layouts_by_number [OF l s d, of 0] set_layouts_by_number [OF l s d, of 1] l by (auto simp: ex_shader_set_def)
qed

end
