(* ===== verification/Swapchain_Model.thy ===== *)
theory Swapchain_Model
imports Render_Target
begin

text \<open>
  \<open>Swapchain\<close> (\<open>rhi/vulkan/swapchain.cpp\<close>): one frame per image of the swapchain, with every operation
  of a render target passed on to the frame that was acquired last. Acquiring an image answers with
  the new frame index and whether it succeeded.
\<close>

record swapchain_config =
  cfg_width :: nat
  cfg_height :: nat
  cfg_format :: vk_format
  cfg_colorSpace :: nat
  cfg_presentMode :: nat
  cfg_imageCount :: nat
  cfg_dynamic :: bool

record swapchain =
  sw_desc :: rt_desc
  sw_surface :: nat
  sw_handle :: nat
  sw_frames :: "frame list"
  sw_frameIndex :: nat

definition swapchain_empty :: swapchain where
  "swapchain_empty = \<lparr> sw_desc = rt_desc_default, sw_surface = 0, sw_handle = 0, sw_frames = [], sw_frameIndex = 0 \<rparr>"

section \<open>Operations of the current frame\<close>

definition with_frame :: "(frame \<times> vk \<Rightarrow> (frame \<times> vk) res) \<Rightarrow> swapchain \<times> vk \<Rightarrow> (swapchain \<times> vk) res" where
  "with_frame f = (\<lambda>(sw, v). bind_res (idx (sw_frames sw) (sw_frameIndex sw)) (\<lambda>fr. bind_res (f (fr, v)) (\<lambda>(fr1, v1).
     Inr (sw\<lparr> sw_frames := (sw_frames sw)[sw_frameIndex sw := fr1] \<rparr>, v1))))"

definition Swapchain_Begin :: "driver \<Rightarrow> (pass_key \<Rightarrow> u64) \<Rightarrow> subpass_contents \<Rightarrow> swapchain \<times> vk \<Rightarrow> (swapchain \<times> vk) res" where
  "Swapchain_Begin d hash contents = with_frame (Frame_Begin d hash contents)"

definition Swapchain_End :: "swapchain \<times> vk \<Rightarrow> (swapchain \<times> vk) res" where
  "Swapchain_End = with_frame Frame_End"

definition Swapchain_GetAttachments :: "swapchain \<Rightarrow> nat list res" where
  "Swapchain_GetAttachments sw = bind_res (idx (sw_frames sw) (sw_frameIndex sw)) (\<lambda>fr. Inr (attachments (fr_target fr)))"

definition Swapchain_GetAttachmentDescs :: "swapchain \<Rightarrow> attachment_desc list res" where
  "Swapchain_GetAttachmentDescs sw = bind_res (idx (sw_frames sw) (sw_frameIndex sw)) (\<lambda>fr. Inr (attachmentDescs (fr_target fr)))"

definition Swapchain_GetLayout :: "swapchain \<Rightarrow> nat \<Rightarrow> image_layout res" where
  "Swapchain_GetLayout sw index = bind_res (idx (sw_frames sw) (sw_frameIndex sw)) (\<lambda>fr. Frame_GetLayout fr index)"

definition Swapchain_Blit ::
  "rt_desc \<Rightarrow> (nat \<Rightarrow> image_layout res) \<Rightarrow> nat \<Rightarrow> nat \<Rightarrow> nat \<Rightarrow> nat \<Rightarrow> nat \<Rightarrow> swapchain \<times> vk \<Rightarrow> (swapchain \<times> vk) res" where
  "Swapchain_Blit srcDesc srcLayout srcSub srcIndex dstSub dstIndex filt =
     with_frame (Blit frame_class srcDesc srcLayout srcSub srcIndex dstSub dstIndex filt)"

definition Swapchain_Copy ::
  "rt_desc \<Rightarrow> (nat \<Rightarrow> image_layout res) \<Rightarrow> nat \<Rightarrow> nat \<Rightarrow> nat \<Rightarrow> nat \<Rightarrow> swapchain \<times> vk \<Rightarrow> (swapchain \<times> vk) res" where
  "Swapchain_Copy srcDesc srcLayout srcSub srcIndex dstSub dstIndex =
     with_frame (Copy frame_class srcDesc srcLayout srcSub srcIndex dstSub dstIndex)"

definition Swapchain_ClearAll :: "nat list \<Rightarrow> swapchain \<times> vk \<Rightarrow> (swapchain \<times> vk) res" where
  "Swapchain_ClearAll values = with_frame (\<lambda>(fr, v). bind_res (ClearAll (fr_desc fr) values v) (\<lambda>v1. Inr (fr, v1)))"

definition Swapchain_Clear :: "nat \<Rightarrow> nat \<Rightarrow> swapchain \<times> vk \<Rightarrow> (swapchain \<times> vk) res" where
  "Swapchain_Clear val index = with_frame (Clear frame_class val index)"

definition Swapchain_Transition :: "image_layout \<Rightarrow> aspects \<Rightarrow> nat \<Rightarrow> swapchain \<times> vk \<Rightarrow> (swapchain \<times> vk) res" where
  "Swapchain_Transition layout aspectFlags index = with_frame (Frame_Transition layout aspectFlags index)"

definition Swapchain_SetLoadOp :: "load_op \<Rightarrow> nat \<Rightarrow> load_op \<Rightarrow> swapchain \<times> vk \<Rightarrow> (swapchain \<times> vk) res" where
  "Swapchain_SetLoadOp loadOp index stencilLoadOp = with_frame (\<lambda>(fr, v).
     bind_res (SetLoadOp (fr_desc fr) loadOp index stencilLoadOp (fr_target fr)) (\<lambda>rt. Inr (fr\<lparr> fr_target := rt \<rparr>, v)))"

definition Swapchain_SetStoreOp :: "store_op \<Rightarrow> nat \<Rightarrow> store_op \<Rightarrow> swapchain \<times> vk \<Rightarrow> (swapchain \<times> vk) res" where
  "Swapchain_SetStoreOp storeOp index stencilStoreOp = with_frame (\<lambda>(fr, v).
     bind_res (SetStoreOp (fr_desc fr) storeOp index stencilStoreOp (fr_target fr)) (\<lambda>rt. Inr (fr\<lparr> fr_target := rt \<rparr>, v)))"

section \<open>Acquiring and presenting\<close>

record flip_result =
  lastFrameIndex :: nat
  newFrameIndex :: nat
  flip_success :: bool

text \<open>\<open>stored\<close> is the index the driver writes, with \<open>VK_SUCCESS\<close> or not.\<close>

definition Flip :: "bool \<Rightarrow> nat \<Rightarrow> swapchain \<Rightarrow> flip_result \<times> swapchain" where
  "Flip success stored sw =
     (\<lparr> lastFrameIndex = sw_frameIndex sw, newFrameIndex = stored, flip_success = success \<rparr>, sw\<lparr> sw_frameIndex := stored \<rparr>)"

record swap_present_info =
  pi_swapchains :: "nat list"
  pi_imageIndices :: "nat list"
  pi_presentIds :: "u64 list"

text \<open>The static counter of present ids is shared by all swapchains.\<close>

definition Swapchain_PreparePresent :: "bool \<Rightarrow> swapchain \<times> u64 \<Rightarrow> (swap_present_info \<times> u64) res" where
  "Swapchain_PreparePresent supportsPresentId = (\<lambda>(sw, presentId).
     bind_res (idx (sw_frames sw) (sw_frameIndex sw)) (\<lambda>fr.
       Inr (\<lparr> pi_swapchains = [sw_handle sw], pi_imageIndices = Frame_PreparePresent fr,
              pi_presentIds = (if supportsPresentId then [presentId] else []) \<rparr>,
            if supportsPresentId then presentId + 1 else presentId)))"

datatype wait_result = WaitSuccess | WaitTimeout | WaitOther

definition WaitPresent :: "wait_result \<Rightarrow> bool" where
  "WaitPresent r = (r \<noteq> WaitTimeout)"

section \<open>Creation\<close>

definition new_frame :: "driver \<Rightarrow> (pass_key \<Rightarrow> u64) \<Rightarrow> swapchain_config \<Rightarrow> nat list \<Rightarrow> nat \<Rightarrow> swapchain \<times> vk \<Rightarrow> (swapchain \<times> vk) res" where
  "new_frame d hash config colorImages frameIt = (\<lambda>(sw, v). bind_res (idx colorImages frameIt) (\<lambda>img.
     bind_res (Frame_new d hash \<lparr> rtd_width = cfg_width config, rtd_height = cfg_height config,
         imageFormats = [cfg_format config], imageLayouts = [LAYOUT_UNDEFINED], imageAspectFlags = [{ColorAspect}],
         rtd_images = [img], clearValues = [0], layerCount = 1, useDynamicRendering = cfg_dynamic config \<rparr> frameIt v) (\<lambda>(fr, v1).
       Inr (sw\<lparr> sw_frames := sw_frames sw @ [fr] \<rparr>, v1))))"

definition InternalCreateSwapchain ::
  "driver \<Rightarrow> (pass_key \<Rightarrow> u64) \<Rightarrow> swapchain_config \<Rightarrow> nat \<Rightarrow> swapchain \<times> vk \<Rightarrow> (swapchain \<times> vk) res" where
  "InternalCreateSwapchain d hash config previous = (\<lambda>(sw, v).
     let info = \<lparr> si_surface = sw_surface sw, si_minImageCount = cfg_imageCount config, si_format = cfg_format config,
                  si_colorSpace = cfg_colorSpace config, si_width = cfg_width config, si_height = cfg_height config,
                  si_usage = {UsageColorAttachment, UsageStorage, UsageTransferDst}, si_presentMode = cfg_presentMode config,
                  si_oldSwapchain = previous \<rparr>;
         handle = dv_swapchain d v;
         v1 = v @ [CreateSwapchainCall info handle];
         v2 = (if previous \<noteq> 0 then v1 @ [DestroySwapchainCall previous] else v1);
         colorImages = dv_swapchainImages d v2
     in bind_res (ensure (cfg_imageCount config \<noteq> 0)) (\<lambda>_.
        bind_res (ensure (length colorImages = cfg_imageCount config)) (\<lambda>_.
        bind_res (fold_res (\<lambda>fr. RenderTarget_destroy (fr_target fr)) (sw_frames sw) v2) (\<lambda>v3.
        bind_res (fold_res (new_frame d hash config colorImages) [0..<cfg_imageCount config]
                    (sw\<lparr> sw_handle := handle, sw_frames := [] \<rparr>, v3)) (\<lambda>(sw1, v4).
          Inr (sw1\<lparr> sw_frameIndex := cfg_imageCount config - 1 \<rparr>, v4))))))"

definition Swapchain_new ::
  "driver \<Rightarrow> (pass_key \<Rightarrow> u64) \<Rightarrow> swapchain_config \<Rightarrow> nat \<Rightarrow> nat \<Rightarrow> vk \<Rightarrow> (swapchain \<times> vk) res" where
  "Swapchain_new d hash config surface previous v = InternalCreateSwapchain d hash config previous
     (swapchain_empty\<lparr> sw_desc := rt_desc_default\<lparr> rtd_width := cfg_width config, rtd_height := cfg_height config \<rparr>,
        sw_surface := surface \<rparr>, v)"

text \<open>The destructor frees the handles it holds; the frames are destroyed after its body.\<close>

definition Swapchain_destroy :: "swapchain \<Rightarrow> vk \<Rightarrow> vk res" where
  "Swapchain_destroy sw v =
     (let v1 = (if sw_handle sw \<noteq> 0 then v @ [DestroySwapchainCall (sw_handle sw)] else v);
          v2 = (if sw_surface sw \<noteq> 0 then v1 @ [DestroySurfaceCall (sw_surface sw)] else v1)
      in fold_res (\<lambda>fr. RenderTarget_destroy (fr_target fr)) (sw_frames sw) v2)"

text \<open>\<open>Window::OnResizeFramebuffer\<close>: a new swapchain in place of the current one, with the extent the
  surface now has.\<close>

definition OnResizeFramebuffer ::
  "driver \<Rightarrow> (pass_key \<Rightarrow> u64) \<Rightarrow> nat \<times> nat \<Rightarrow> swapchain_config \<Rightarrow> swapchain \<times> vk \<Rightarrow> (swapchain_config \<times> swapchain \<times> vk) res" where
  "OnResizeFramebuffer d hash currentExtent config = (\<lambda>(sw, v).
     let config1 = config\<lparr> cfg_width := fst currentExtent, cfg_height := snd currentExtent \<rparr>
     in bind_res (InternalCreateSwapchain d hash config1 (sw_handle sw) (sw, v)) (\<lambda>s. Inr (config1, s)))"

end
