(* ===== verification/Device_Selection.thy ===== *)
theory Device_Selection
imports Circular_Container Swapchain_Model "HOL-Library.Multiset"
begin

text \<open>
  Start-up choices of \<open>rhi/vulkan/rhi.cpp\<close>: the physical device, the swapchain configuration, and the
  queues of each queue family with the context each queue type refers to. What the driver reports is
  an argument; the order in which \<open>std::ranges::sort\<close> leaves equal elements is unspecified, so sorting
  is an argument too.
\<close>

section \<open>Choosing the device\<close>

definition VK_QUEUE_GRAPHICS_BIT :: u32 where "VK_QUEUE_GRAPHICS_BIT = 1"
definition VK_QUEUE_COMPUTE_BIT :: u32 where "VK_QUEUE_COMPUTE_BIT = 2"
definition VK_QUEUE_TRANSFER_BIT :: u32 where "VK_QUEUE_TRANSFER_BIT = 4"

record phys_device =
  pd_type :: nat
  pd_families :: "u32 list"
  pd_present :: "bool list"

fun family_candidates :: "nat \<Rightarrow> bool list \<Rightarrow> nat \<Rightarrow> u32 list \<Rightarrow> (nat \<times> nat) list res" where
  "family_candidates i present q [] = Inr []"
| "family_candidates i present q (f # fs) = bind_res (idx present q) (\<lambda>p.
     bind_res (family_candidates i present (q + 1) fs) (\<lambda>r.
       Inr (if f AND VK_QUEUE_GRAPHICS_BIT \<noteq> 0 \<and> p then (i, q) # r else r)))"

fun device_candidates :: "nat \<Rightarrow> phys_device list \<Rightarrow> (nat \<times> nat) list res" where
  "device_candidates i [] = Inr []"
| "device_candidates i (d # ds) = bind_res (family_candidates i (pd_present d) 0 (pd_families d)) (\<lambda>cs.
     bind_res (device_candidates (i + 1) ds) (\<lambda>r. Inr (cs @ r)))"

definition kDeviceTypePriority :: "nat list" where
  "kDeviceTypePriority = [4, 1, 0, 2, 3, 0x7FFFFFFF]"

definition candidate_priority :: "phys_device list \<Rightarrow> nat \<times> nat \<Rightarrow> nat" where
  "candidate_priority devices c = kDeviceTypePriority ! pd_type (devices ! fst c)"

text \<open>The comparison indexes the table, without a check; it runs when there are two candidates or more.\<close>

definition DetectSuitableGraphicsDevice ::
  "((nat \<times> nat \<Rightarrow> nat) \<Rightarrow> (nat \<times> nat) list \<Rightarrow> (nat \<times> nat) list) \<Rightarrow> phys_device list \<Rightarrow> nat res" where
  "DetectSuitableGraphicsDevice sort' devices = bind_res (device_candidates 0 devices) (\<lambda>cs.
     bind_res (if length cs < 2 \<or> list_all (\<lambda>c. pd_type (devices ! fst c) < length kDeviceTypePriority) cs
               then Inr () else Inl Undefined) (\<lambda>_.
     let sorted' = sort' (candidate_priority devices) cs in
     bind_res (ensure (sorted' \<noteq> [])) (\<lambda>_. Inr (fst (hd sorted')))))"

section \<open>Choosing the swapchain\<close>

record surface_caps =
  cap_width :: nat
  cap_height :: nat
  cap_minImageCount :: nat
  cap_maxImageCount :: nat

definition FORMAT_B8G8R8A8_UNORM :: vk_format where "FORMAT_B8G8R8A8_UNORM = OtherFormat 44"
definition FORMAT_B8G8R8_UNORM :: vk_format where "FORMAT_B8G8R8_UNORM = OtherFormat 30"
definition COLOR_SPACE_SRGB_NONLINEAR :: nat where "COLOR_SPACE_SRGB_NONLINEAR = 0"
definition PRESENT_MODE_MAILBOX :: nat where "PRESENT_MODE_MAILBOX = 1"
definition PRESENT_MODE_FIFO :: nat where "PRESENT_MODE_FIFO = 2"
definition PRESENT_MODE_FIFO_RELAXED :: nat where "PRESENT_MODE_FIFO_RELAXED = 3"

definition kRequestSurfaceImageFormat :: "vk_format list" where
  "kRequestSurfaceImageFormat = [FORMAT_B8G8R8A8_UNORM, FORMAT_R8G8B8A8_UNORM, FORMAT_B8G8R8_UNORM, FORMAT_R8G8B8_UNORM]"

definition kRequestPresentMode :: "nat list" where
  "kRequestPresentMode = [PRESENT_MODE_MAILBOX, PRESENT_MODE_FIFO_RELAXED]"

text \<open>The iterator after the search of the formats; \<open>None\<close> is the end of the list.\<close>

fun request_format :: "vk_format list \<Rightarrow> (vk_format \<times> nat) list \<Rightarrow> (vk_format \<times> nat) option" where
  "request_format [] formats = None"
| "request_format (r # rs) formats = (if (r, COLOR_SPACE_SRGB_NONLINEAR) \<in> set formats
     then Some (r, COLOR_SPACE_SRGB_NONLINEAR) else request_format rs formats)"

fun request_mode :: "nat list \<Rightarrow> surface_caps \<Rightarrow> nat list \<Rightarrow> swapchain_config \<Rightarrow> swapchain_config res" where
  "request_mode [] caps modes config = Inr config"
| "request_mode (r # rs) caps modes config = (if r \<in> set modes
     then (if r = PRESENT_MODE_MAILBOX
           then bind_res (ensure (cap_maxImageCount caps \<ge> 3)) (\<lambda>_. Inr (config\<lparr> cfg_presentMode := r, cfg_imageCount := 3 \<rparr>))
           else Inr (config\<lparr> cfg_presentMode := r \<rparr>))
     else request_mode rs caps modes config)"

definition DetectSuitableSwapchain :: "surface_caps \<Rightarrow> (vk_format \<times> nat) list \<Rightarrow> nat list \<Rightarrow> swapchain_config res" where
  "DetectSuitableSwapchain caps formats modes = (case request_format kRequestSurfaceImageFormat formats of
       None \<Rightarrow> Inl Undefined
     | Some (fmt, cs) \<Rightarrow> request_mode kRequestPresentMode caps modes
         \<lparr> cfg_width = cap_width caps, cfg_height = cap_height caps, cfg_format = fmt, cfg_colorSpace = cs,
           cfg_presentMode = PRESENT_MODE_FIFO, cfg_imageCount = cap_minImageCount caps mod 256, cfg_dynamic = True \<rparr>)"

section \<open>Creating the queues\<close>

record queue_family =
  qf_count :: nat
  qf_flags :: u32
  qf_timestampBits :: nat

record queue_desc =
  qd_index :: nat
  qd_family :: nat
  qd_levelCount :: nat
  qd_profiling :: bool

record queue_context =
  qc_family :: nat
  qc_queues :: "queue_desc option circular"

datatype queue_type = QueueGraphics | QueueCompute | QueueTransfer

text \<open>\<open>QueueTimelineContext\<close>: each queue type has a mutex and a shared pointer to its context.\<close>

record rhi_queues =
  rq_context :: "nat \<Rightarrow> queue_context"
  rq_data :: "queue_type \<Rightarrow> nat"
  rq_mutex :: "queue_type \<Rightarrow> nat"

definition queue_context_new :: queue_context where
  "queue_context_new = \<lparr> qc_family = 0, qc_queues = circular_of [] \<rparr>"

fun type_index :: "queue_type \<Rightarrow> nat" where
  "type_index QueueGraphics = 0"
| "type_index QueueCompute = 1"
| "type_index QueueTransfer = 2"

definition rhi_queues_new :: rhi_queues where
  "rhi_queues_new = \<lparr> rq_context = (\<lambda>_. queue_context_new), rq_data = type_index, rq_mutex = type_index \<rparr>"

definition context_of :: "queue_type \<Rightarrow> rhi_queues \<Rightarrow> queue_context" where
  "context_of t q = rq_context q (rq_data q t)"

definition isDedicatedQueueFamily :: "queue_family \<Rightarrow> u32 \<Rightarrow> bool" where
  "isDedicatedQueueFamily f ty \<longleftrightarrow> qf_flags f AND ty \<noteq> 0 \<and> qf_flags f \<ge> ty \<and> qf_count f > 0"

fun fill_queues :: "(nat \<Rightarrow> queue_desc) \<Rightarrow> nat list \<Rightarrow> queue_desc option circular \<Rightarrow> queue_desc option circular res" where
  "fill_queues mk [] c = Inr c"
| "fill_queues mk (q # qs) c = bind_res (FetchAdd 1 c) (\<lambda>(i, c').
     fill_queues mk qs (c'\<lparr> cc_items := (cc_items c')[i := Some (mk q)] \<rparr>))"

definition set_family :: "queue_type \<Rightarrow> nat \<Rightarrow> bool \<Rightarrow> nat \<Rightarrow> nat \<Rightarrow> rhi_queues \<Rightarrow> rhi_queues res" where
  "set_family t levels profiling queueCount familyIt q = (let ctx = context_of t q in
     bind_res (fill_queues (\<lambda>i. \<lparr> qd_index = i, qd_family = familyIt, qd_levelCount = levels, qd_profiling = profiling \<rparr>)
       [0..<queueCount] (circular_assign (replicate queueCount None) (qc_queues ctx))) (\<lambda>c.
       Inr (q\<lparr> rq_context := (rq_context q)(rq_data q t := \<lparr> qc_family = familyIt, qc_queues = c \<rparr>) \<rparr>)))"

definition add_family :: "nat \<times> queue_family \<Rightarrow> rhi_queues \<Rightarrow> rhi_queues res" where
  "add_family = (\<lambda>(familyIt, f) q.
     if isDedicatedQueueFamily f VK_QUEUE_GRAPHICS_BIT
     then set_family QueueGraphics 15 (qf_timestampBits f > 0) (qf_count f) familyIt q
     else if isDedicatedQueueFamily f VK_QUEUE_COMPUTE_BIT
     then set_family QueueCompute 1 (qf_timestampBits f > 0) (qf_count f) familyIt q
     else if isDedicatedQueueFamily f VK_QUEUE_TRANSFER_BIT
     then set_family QueueTransfer 1 False (qf_count f) familyIt q
     else Inr q)"

definition alias_if_empty :: "queue_type \<Rightarrow> queue_type \<Rightarrow> rhi_queues \<Rightarrow> rhi_queues res" where
  "alias_if_empty t source q = (if circular_Empty (qc_queues (context_of t q))
     then bind_res (ensure (\<not> circular_Empty (qc_queues (context_of source q)))) (\<lambda>_.
       Inr (q\<lparr> rq_data := (rq_data q)(t := rq_data q source) \<rparr>))
     else Inr q)"

definition CreateQueues :: "queue_family list \<Rightarrow> rhi_queues res" where
  "CreateQueues families =
     bind_res (fold_res add_family (enumerate 0 families) rhi_queues_new) (\<lambda>q.
     bind_res (ensure (\<not> circular_Empty (qc_queues (context_of QueueGraphics q)))) (\<lambda>_.
     bind_res (alias_if_empty QueueCompute QueueGraphics q) (alias_if_empty QueueTransfer QueueCompute)))"

section \<open>The device\<close>

definition suitable :: "phys_device \<Rightarrow> bool" where
  "suitable d \<longleftrightarrow> (\<exists>q < length (pd_families d). pd_families d ! q AND VK_QUEUE_GRAPHICS_BIT \<noteq> 0 \<and> pd_present d ! q)"

definition well_reported :: "phys_device \<Rightarrow> bool" where
  "well_reported d \<longleftrightarrow> length (pd_present d) = length (pd_families d) \<and> pd_type d < length kDeviceTypePriority"

definition device_priority :: "phys_device \<Rightarrow> nat" where
  "device_priority d = kDeviceTypePriority ! pd_type d"

definition suitable_families :: "phys_device \<Rightarrow> nat list" where
  "suitable_families d = map fst (filter (\<lambda>(q, f). f AND VK_QUEUE_GRAPHICS_BIT \<noteq> 0 \<and> pd_present d ! q) (enumerate 0 (pd_families d)))"

lemma suitable_families_empty: "suitable_families d \<noteq> [] \<longleftrightarrow> suitable d"
proof -
  have "suitable_families d = [] \<longleftrightarrow> (\<forall>(q, f) \<in> set (enumerate 0 (pd_families d)). \<not> (f AND VK_QUEUE_GRAPHICS_BIT \<noteq> 0 \<and> pd_present d ! q))"
    by (auto simp: suitable_families_def filter_empty_conv)
  also have "\<dots> \<longleftrightarrow> \<not> suitable d" by (auto simp: suitable_def in_set_enumerate_eq)
  finally show ?thesis by blast
qed

lemma family_candidates_ok:
  "q + length fs \<le> length present \<Longrightarrow> family_candidates i present q fs
     = Inr (map (\<lambda>(k, f). (i, k)) (filter (\<lambda>(k, f). f AND VK_QUEUE_GRAPHICS_BIT \<noteq> 0 \<and> present ! k) (enumerate q fs)))"
  by (induction fs arbitrary: q) simp_all

lemma device_candidates_ok:
  "list_all well_reported ds \<Longrightarrow> device_candidates i ds = Inr (concat (map (\<lambda>(j, d). map (Pair j) (suitable_families d)) (enumerate i ds)))"
proof (induction ds arbitrary: i)
  case (Cons d ds)
  have "family_candidates i (pd_present d) 0 (pd_families d) = Inr (map (Pair i) (suitable_families d))"
    using Cons.prems by (simp add: family_candidates_ok well_reported_def suitable_families_def case_prod_beta comp_def)
  then show ?case using Cons by simp
qed simp

text \<open>The contract of \<open>std::ranges::sort\<close> with a comparison of keys.\<close>

definition sorts :: "(('a \<Rightarrow> nat) \<Rightarrow> 'a list \<Rightarrow> 'a list) \<Rightarrow> bool" where
  "sorts sort' \<longleftrightarrow> (\<forall>f xs. mset (sort' f xs) = mset xs \<and> sorted (map f (sort' f xs)))"

lemma sorts_hd:
  assumes "sorts sort'" "x \<in> set xs"
  shows "sort' f xs \<noteq> []" "hd (sort' f xs) \<in> set xs" "f (hd (sort' f xs)) \<le> f x"
proof -
  have m: "set (sort' f xs) = set xs" and so: "sorted (map f (sort' f xs))"
    using assms(1) by (auto simp: sorts_def dest: mset_eq_setD)
  show n: "sort' f xs \<noteq> []" using m assms(2) by force
  then obtain y ys where y: "sort' f xs = y # ys" by (cases "sort' f xs") auto
  show "hd (sort' f xs) \<in> set xs" using m hd_in_set [OF n] by simp
  show "f (hd (sort' f xs)) \<le> f x" using m so assms(2) by (auto simp: y)
qed

text \<open>C33: The device that is chosen has a queue family with graphics and presentation, and no other such
  device has a better type (discrete, then integrated, virtual, CPU, other), whatever order the sort
  leaves equal candidates in; without any such device the program stops.\<close>
theorem DetectSuitableGraphicsDevice_best:
  assumes "sorts sort'" "list_all well_reported devices"
  shows "case DetectSuitableGraphicsDevice sort' devices of
      Inl e \<Rightarrow> e = EnsureFailed \<and> (\<forall>d \<in> set devices. \<not> suitable d)
    | Inr i \<Rightarrow> i < length devices \<and> suitable (devices ! i)
        \<and> (\<forall>d \<in> set devices. suitable d \<longrightarrow> device_priority (devices ! i) \<le> device_priority d)"
proof -
  define cs where "cs = concat (map (\<lambda>(j, d). map (Pair j) (suitable_families d)) (enumerate 0 devices))"
  define so where "so = sort' (candidate_priority devices) cs"
  have c: "device_candidates 0 devices = Inr cs" using device_candidates_ok [OF assms(2)] by (simp add: cs_def)
  have mem: "j < length devices \<and> suitable (devices ! j)" if "(j, k) \<in> set cs" for j k
  proof -
    from that obtain d where "(j, d) \<in> set (enumerate 0 devices)" "k \<in> set (suitable_families d)" by (auto simp: cs_def)
    then show ?thesis using suitable_families_empty [of d] by (force simp: in_set_enumerate_eq)
  qed
  have all: "\<exists>k. (j, k) \<in> set cs" if a: "j < length devices" "suitable (devices ! j)" for j
  proof -
    obtain k where "k \<in> set (suitable_families (devices ! j))" using suitable_families_empty a(2) by (meson list.set_sel(1))
    moreover have "(j, devices ! j) \<in> set (enumerate 0 devices)" using a(1) by (simp add: in_set_enumerate_eq)
    ultimately show ?thesis by (force simp: cs_def)
  qed
  have "pd_type (devices ! j) < length kDeviceTypePriority" if "(j, k) \<in> set cs" for j k
    using mem [OF that] assms(2) by (auto simp: list_all_iff well_reported_def)
  then have t: "list_all (\<lambda>c. pd_type (devices ! fst c) < length kDeviceTypePriority) cs" by (auto simp: list_all_iff)
  have r: "DetectSuitableGraphicsDevice sort' devices = (if so = [] then Inl EnsureFailed else Inr (fst (hd so)))"
    by (simp add: DetectSuitableGraphicsDevice_def c t so_def Let_def)
  show ?thesis
  proof (cases "so = []")
    case True
    then have "cs = []" using assms(1) so_def by (metis mset_zero_iff_right sorts_def)
    then show ?thesis using r True all by (fastforce simp: in_set_conv_nth)
  next
    case False
    then have "cs \<noteq> []" using assms(1) so_def by (metis mset_zero_iff_right sorts_def)
    then obtain x where "x \<in> set cs" by (cases cs) auto
    note h = sorts_hd [OF assms(1), of _ cs "candidate_priority devices", folded so_def]
    have "(fst (hd so), snd (hd so)) \<in> set cs" using h(2) [OF \<open>x \<in> set cs\<close>] by simp
    note i = mem [OF this]
    have "device_priority (devices ! fst (hd so)) \<le> device_priority d" if d: "d \<in> set devices" "suitable d" for d
    proof -
      obtain j where j: "j < length devices" "d = devices ! j" using d(1) by (auto simp: in_set_conv_nth)
      obtain k where "(j, k) \<in> set cs" using all j d(2) by blast
      from h(3) [OF this] show ?thesis by (simp add: candidate_priority_def device_priority_def j(2))
    qed
    then show ?thesis using r False i by simp
  qed
qed

theorem DetectSuitableGraphicsDevice_best_witness:
  "DetectSuitableGraphicsDevice sort_key [\<lparr> pd_type = 1, pd_families = [7], pd_present = [True] \<rparr>,
     \<lparr> pd_type = 2, pd_families = [4, 3], pd_present = [True, True] \<rparr>] = Inr 1
   \<and> suitable \<lparr> pd_type = 2, pd_families = [4, 3], pd_present = [True, True] \<rparr>"
proof -
  let ?ds = "[\<lparr> pd_type = 1, pd_families = [7], pd_present = [True] \<rparr>, \<lparr> pd_type = 2, pd_families = [4, 3], pd_present = [True, True] \<rparr>]"
  have e: "DetectSuitableGraphicsDevice sort_key ?ds = Inr 1"
    by (simp add: DetectSuitableGraphicsDevice_def VK_QUEUE_GRAPHICS_BIT_def kDeviceTypePriority_def candidate_priority_def idx_def Let_def)
  have "sorts sort_key" by (simp add: sorts_def)
  moreover have "list_all well_reported ?ds" by (simp add: well_reported_def kDeviceTypePriority_def)
  ultimately have "case DetectSuitableGraphicsDevice sort_key ?ds of Inl e \<Rightarrow> e = EnsureFailed \<and> (\<forall>d \<in> set ?ds. \<not> suitable d)
    | Inr i \<Rightarrow> i < length ?ds \<and> suitable (?ds ! i) \<and> (\<forall>d \<in> set ?ds. suitable d \<longrightarrow> device_priority (?ds ! i) \<le> device_priority d)"
    by (rule DetectSuitableGraphicsDevice_best)
  then show ?thesis unfolding e by simp
qed

section \<open>The swapchain\<close>

text \<open>What Vulkan asks of a swapchain for a surface.\<close>

definition surface_allows :: "surface_caps \<Rightarrow> (vk_format \<times> nat) list \<Rightarrow> nat list \<Rightarrow> swapchain_config \<Rightarrow> bool" where
  "surface_allows caps formats modes cfg \<longleftrightarrow> (cfg_format cfg, cfg_colorSpace cfg) \<in> set formats \<and> cfg_presentMode cfg \<in> set modes
     \<and> cap_minImageCount caps \<le> cfg_imageCount cfg \<and> (cap_maxImageCount caps = 0 \<or> cfg_imageCount cfg \<le> cap_maxImageCount caps)
     \<and> cfg_width cfg = cap_width caps \<and> cfg_height cfg = cap_height caps"

lemma request_format_Some:
  "request_format rs formats = Some (f, cs) \<Longrightarrow> f \<in> set rs \<and> (f, cs) \<in> set formats"
  by (induction rs) (auto split: if_splits)

lemma request_format_None:
  "request_format rs formats = None \<longleftrightarrow> (\<forall>r \<in> set rs. (r, COLOR_SPACE_SRGB_NONLINEAR) \<notin> set formats)"
  by (induction rs) auto

lemma request_format_first:
  "request_format rs formats = Some (f, cs) \<Longrightarrow> cs = COLOR_SPACE_SRGB_NONLINEAR
    \<and> (\<exists>i < length rs. rs ! i = f \<and> (f, cs) \<in> set formats \<and> (\<forall>j < i. (rs ! j, cs) \<notin> set formats))"
proof (induction rs)
  case (Cons r rs)
  show ?case
  proof (cases "(r, COLOR_SPACE_SRGB_NONLINEAR) \<in> set formats")
    case True
    then show ?thesis using Cons.prems by (intro conjI exI [of _ 0]) auto
  next
    case False
    then obtain i where i: "cs = COLOR_SPACE_SRGB_NONLINEAR" "i < length rs" "rs ! i = f" "(f, cs) \<in> set formats"
      "\<forall>j < i. (rs ! j, cs) \<notin> set formats" using Cons by auto
    have "((r # rs) ! j, cs) \<notin> set formats" if "j < Suc i" for j
      using that i(1,5) False by (cases j) auto
    then show ?thesis using i by (intro conjI exI [of _ "Suc i"]) auto
  qed
qed simp

text \<open>C34: For a surface that reports sane limits and the mandatory mode: the program reads past the formats exactly
  when the surface offers none of the four requested ones, although it means to use the first one then, and it
  stops exactly when the surface offers a requested format and mailbox mode with a maximum below three images -
  so also when it has no limit on them (a maximum of 0). Otherwise the format is the first of the
  requested ones that is offered, and the configuration is allowed unless the surface wants more than three images in
  mailbox mode.\<close>
theorem DetectSuitableSwapchain_choice:
  assumes "PRESENT_MODE_FIFO \<in> set modes" "cap_minImageCount caps < 256"
    "cap_maxImageCount caps = 0 \<or> cap_minImageCount caps \<le> cap_maxImageCount caps"
  shows "let r = DetectSuitableSwapchain caps formats modes; offered = (\<lambda>f. (f, COLOR_SPACE_SRGB_NONLINEAR) \<in> set formats) in
      (r = Inl Undefined \<longleftrightarrow> (\<forall>f \<in> set kRequestSurfaceImageFormat. \<not> offered f))
    \<and> (r = Inl EnsureFailed \<longleftrightarrow> (\<exists>f \<in> set kRequestSurfaceImageFormat. offered f)
        \<and> PRESENT_MODE_MAILBOX \<in> set modes \<and> cap_maxImageCount caps < 3)
    \<and> (case r of
        Inr cfg \<Rightarrow> (surface_allows caps formats modes cfg \<longleftrightarrow> (PRESENT_MODE_MAILBOX \<in> set modes \<longrightarrow> cap_minImageCount caps \<le> 3))
          \<and> (PRESENT_MODE_MAILBOX \<in> set modes \<longrightarrow> cap_maxImageCount caps \<noteq> 0)
          \<and> cfg_colorSpace cfg = COLOR_SPACE_SRGB_NONLINEAR
          \<and> (\<exists>i < 4. cfg_format cfg = kRequestSurfaceImageFormat ! i \<and> offered (cfg_format cfg)
               \<and> (\<forall>j < i. \<not> offered (kRequestSurfaceImageFormat ! j)))
      | Inl e \<Rightarrow> e = Undefined \<or> e = EnsureFailed)"
proof (cases "request_format kRequestSurfaceImageFormat formats")
  case None
  then show ?thesis using request_format_None [of kRequestSurfaceImageFormat formats]
    by (simp add: DetectSuitableSwapchain_def Let_def del: request_format.simps)
next
  case (Some fc)
  then obtain f cs where f: "request_format kRequestSurfaceImageFormat formats = Some (f, cs)" by (cases fc) auto
  have n: "length kRequestSurfaceImageFormat = 4" by (simp add: kRequestSurfaceImageFormat_def)
  obtain i where i: "cs = COLOR_SPACE_SRGB_NONLINEAR" "i < 4" "f = kRequestSurfaceImageFormat ! i" "(f, cs) \<in> set formats"
    "\<forall>j < i. (kRequestSurfaceImageFormat ! j, cs) \<notin> set formats" using request_format_first [OF f] n by auto
  have o: "\<exists>g \<in> set kRequestSurfaceImageFormat. (g, COLOR_SPACE_SRGB_NONLINEAR) \<in> set formats"
    using i n by (intro bexI [of _ f]) auto
  let ?cfg = "\<lambda>m n. \<lparr> cfg_width = cap_width caps, cfg_height = cap_height caps, cfg_format = f, cfg_colorSpace = cs,
    cfg_presentMode = m, cfg_imageCount = n, cfg_dynamic = True \<rparr>"
  have e: "DetectSuitableSwapchain caps formats modes =
     (if PRESENT_MODE_MAILBOX \<in> set modes then (if cap_maxImageCount caps < 3 then Inl EnsureFailed else Inr (?cfg PRESENT_MODE_MAILBOX 3))
      else Inr (?cfg (if PRESENT_MODE_FIFO_RELAXED \<in> set modes then PRESENT_MODE_FIFO_RELAXED else PRESENT_MODE_FIFO) (cap_minImageCount caps)))"
    using f assms(2) by (auto simp: DetectSuitableSwapchain_def kRequestPresentMode_def PRESENT_MODE_MAILBOX_def
      PRESENT_MODE_FIFO_RELAXED_def)
  have c: "\<exists>k < 4. f = kRequestSurfaceImageFormat ! k \<and> (f, COLOR_SPACE_SRGB_NONLINEAR) \<in> set formats
      \<and> (\<forall>j < k. (kRequestSurfaceImageFormat ! j, COLOR_SPACE_SRGB_NONLINEAR) \<notin> set formats)" using i by blast
  show ?thesis using assms i(4) o c by (simp add: e Let_def surface_allows_def i(1))
qed

theorem DetectSuitableSwapchain_choice_witness:
  "\<exists>cfg. DetectSuitableSwapchain \<lparr> cap_width = 800, cap_height = 600, cap_minImageCount = 2, cap_maxImageCount = 8 \<rparr>
       [(FORMAT_B8G8R8A8_UNORM, 0)] [1, 2] = Inr cfg \<and> cfg_imageCount cfg = 3
     \<and> surface_allows \<lparr> cap_width = 800, cap_height = 600, cap_minImageCount = 2, cap_maxImageCount = 8 \<rparr>
       [(FORMAT_B8G8R8A8_UNORM, 0)] [1, 2] cfg"
proof -
  let ?c = "\<lparr> cap_width = 800, cap_height = 600, cap_minImageCount = 2, cap_maxImageCount = 8 \<rparr>"
  obtain cfg where r: "DetectSuitableSwapchain ?c [(FORMAT_B8G8R8A8_UNORM, 0)] [1, 2] = Inr cfg" and n: "cfg_imageCount cfg = 3"
    by (auto simp: DetectSuitableSwapchain_def kRequestSurfaceImageFormat_def kRequestPresentMode_def PRESENT_MODE_MAILBOX_def
      COLOR_SPACE_SRGB_NONLINEAR_def)
  then show ?thesis using DetectSuitableSwapchain_choice [of "[1, 2]" ?c "[(FORMAT_B8G8R8A8_UNORM, 0)]"]
    by (simp add: PRESENT_MODE_FIFO_def)
qed

section \<open>The queues\<close>

definition family_kind :: "queue_family \<Rightarrow> queue_type option" where
  "family_kind f = (if isDedicatedQueueFamily f VK_QUEUE_GRAPHICS_BIT then Some QueueGraphics
     else if isDedicatedQueueFamily f VK_QUEUE_COMPUTE_BIT then Some QueueCompute
     else if isDedicatedQueueFamily f VK_QUEUE_TRANSFER_BIT then Some QueueTransfer else None)"

definition of_kind :: "queue_type \<Rightarrow> (nat \<times> queue_family) list \<Rightarrow> (nat \<times> queue_family) list" where
  "of_kind t fs = filter (\<lambda>(i, f). family_kind f = Some t) fs"

definition family_context :: "queue_type \<Rightarrow> nat \<times> queue_family \<Rightarrow> queue_context" where
  "family_context t = (\<lambda>(i, f). \<lparr> qc_family = i, qc_queues = circular_of (map (\<lambda>k. Some \<lparr> qd_index = k, qd_family = i,
     qd_levelCount = (if t = QueueGraphics then 15 else 1), qd_profiling = (t \<noteq> QueueTransfer \<and> qf_timestampBits f > 0) \<rparr>)
       [0..<qf_count f]) \<rparr>)"

definition kind_context :: "queue_type \<Rightarrow> (nat \<times> queue_family) list \<Rightarrow> queue_context" where
  "kind_context t fs = (if of_kind t fs = [] then queue_context_new else family_context t (last (of_kind t fs)))"

lemma family_kind_count: "family_kind f = Some t \<Longrightarrow> 0 < qf_count f"
  by (auto simp: family_kind_def isDedicatedQueueFamily_def split: if_splits)

lemma kind_context_head [simp]: "cc_head (qc_queues (kind_context t fs)) = 0"
  by (simp add: kind_context_def family_context_def circular_of_def queue_context_new_def case_prod_beta)

lemma kind_context_empty: "circular_Empty (qc_queues (kind_context t fs)) \<longleftrightarrow> of_kind t fs = []"
proof (cases "of_kind t fs = []")
  case False
  then have "last (of_kind t fs) \<in> set (of_kind t fs)" by (rule last_in_set)
  then have "0 < qf_count (snd (last (of_kind t fs)))" by (auto simp: of_kind_def dest: family_kind_count)
  then show ?thesis using False
    by (simp add: kind_context_def family_context_def circular_of_def circular_Empty_def case_prod_beta)
qed (simp add: kind_context_def queue_context_new_def circular_of_def circular_Empty_def)

lemma fill_queues_ok:
  "k \<le> n \<Longrightarrow> 0 < n \<Longrightarrow> n < 2 ^ 64 \<Longrightarrow> length (cc_items c) = n \<Longrightarrow> cc_head c = k mod n \<Longrightarrow>
   fill_queues mk [k..<n] c = Inr \<lparr> cc_items = take k (cc_items c) @ map (\<lambda>i. Some (mk i)) [k..<n], cc_head = 0 \<rparr>"
proof (induction "n - k" arbitrary: k c)
  case 0
  then show ?case by (cases c) simp
next
  case (Suc d)
  then have k: "k < n" "d = n - Suc k" by auto
  have "fill_queues mk [Suc k..<n] (c\<lparr> cc_head := Suc k mod n, cc_items := (cc_items c)[k := Some (mk k)] \<rparr>)
      = Inr \<lparr> cc_items = take (Suc k) ((cc_items c)[k := Some (mk k)]) @ map (\<lambda>i. Some (mk i)) [Suc k..<n], cc_head = 0 \<rparr>"
    using Suc.hyps(1) [OF k(2), of "c\<lparr> cc_head := Suc k mod n, cc_items := (cc_items c)[k := Some (mk k)] \<rparr>"] Suc.prems k by simp
  moreover have "take (Suc k) ((cc_items c)[k := Some (mk k)]) = take k (cc_items c) @ [Some (mk k)]"
    using k Suc.prems(4) by (simp add: take_Suc_conv_app_nth)
  ultimately show ?case using k Suc.prems by (simp add: upt_conv_Cons FetchAdd_ok [simplified])
qed

lemma set_family_ok:
  assumes "cc_head (qc_queues (context_of t q)) = 0" "0 < n" "n < 2 ^ 64"
  shows "set_family t levels p n i q = Inr (q\<lparr> rq_context := (rq_context q)(rq_data q t := \<lparr> qc_family = i,
    qc_queues = circular_of (map (\<lambda>k. Some \<lparr> qd_index = k, qd_family = i, qd_levelCount = levels, qd_profiling = p \<rparr>) [0..<n]) \<rparr>) \<rparr>)"
  using assms by (simp add: set_family_def Let_def circular_assign_def circular_of_def
    fill_queues_ok [where k = 0 and n = n])

definition queues_for :: "(nat \<times> queue_family) list \<Rightarrow> rhi_queues \<Rightarrow> bool" where
  "queues_for fs q \<longleftrightarrow> rq_data q = type_index \<and> rq_mutex q = type_index \<and> (\<forall>t. context_of t q = kind_context t fs)"

lemma type_index_eq [simp]: "type_index t = type_index t' \<longleftrightarrow> t = t'"
  by (cases t; cases t') auto

lemma add_family_ok:
  assumes q: "queues_for fs q" and n: "qf_count f < 2 ^ 64"
  shows "\<exists>q'. add_family (i, f) q = Inr q' \<and> queues_for (fs @ [(i, f)]) q'"
proof (cases "family_kind f")
  case None
  then have "add_family (i, f) q = Inr q" unfolding add_family_def family_kind_def
    by (cases "isDedicatedQueueFamily f VK_QUEUE_GRAPHICS_BIT"; cases "isDedicatedQueueFamily f VK_QUEUE_COMPUTE_BIT";
        cases "isDedicatedQueueFamily f VK_QUEUE_TRANSFER_BIT") auto
  moreover have "of_kind t (fs @ [(i, f)]) = of_kind t fs" for t using None by (simp add: of_kind_def)
  ultimately show ?thesis using q by (simp add: queues_for_def kind_context_def)
next
  case (Some t)
  let ?levels = "if t = QueueGraphics then 15 else 1"
  let ?p = "t \<noteq> QueueTransfer \<and> qf_timestampBits f > 0"
  have a: "add_family (i, f) q = set_family t ?levels ?p (qf_count f) i q"
    using Some unfolding add_family_def family_kind_def
    by (cases "isDedicatedQueueFamily f VK_QUEUE_GRAPHICS_BIT"; cases "isDedicatedQueueFamily f VK_QUEUE_COMPUTE_BIT";
        cases "isDedicatedQueueFamily f VK_QUEUE_TRANSFER_BIT") auto
  have h: "cc_head (qc_queues (context_of t q)) = 0" using q by (simp add: queues_for_def)
  note s = set_family_ok [OF h family_kind_count [OF Some] n, of ?levels ?p i]
  have k: "kind_context u (fs @ [(i, f)]) = (if u = t then family_context t (i, f) else kind_context u fs)" for u
    using Some by (simp add: kind_context_def of_kind_def)
  have d: "rq_data q = type_index" "rq_mutex q = type_index" "rq_context q (type_index u) = kind_context u fs" for u
    using q by (auto simp: queues_for_def context_of_def)
  have "queues_for (fs @ [(i, f)]) (q\<lparr> rq_context := (rq_context q)(rq_data q t := family_context t (i, f)) \<rparr>)"
    by (simp add: queues_for_def context_of_def k d)
  then show ?thesis unfolding a s by (simp add: family_context_def)
qed

lemma add_families_ok:
  "list_all (\<lambda>(i, f). qf_count f < 2 ^ 64) fs \<Longrightarrow> \<exists>q. fold_res add_family fs rhi_queues_new = Inr q \<and> queues_for fs q"
proof (induction fs rule: rev_induct)
  case Nil
  have "context_of t rhi_queues_new = kind_context t []" for t
    by (simp add: kind_context_def of_kind_def context_of_def rhi_queues_new_def)
  then show ?case by (simp add: queues_for_def) (simp add: rhi_queues_new_def)
next
  case (snoc f fs)
  then obtain q where q: "fold_res add_family fs rhi_queues_new = Inr q" "queues_for fs q" by auto
  obtain i g where f: "f = (i, g)" by (cases f)
  from snoc.prems f have "qf_count g < 2 ^ 64" by simp
  from add_family_ok [OF q(2) this, of i] obtain q' where "add_family (i, g) q = Inr q'" "queues_for (fs @ [(i, g)]) q'" by blast
  then show ?case by (simp add: fold_res_append q(1) f)
qed

text \<open>C35: The graphics queues are those of the last family with graphics, the compute and transfer queues those
  of the last family that only has these; every queue is created, once, and the head of each container is
  back at the first. A queue type without a family shares the context of the one before it but keeps a
  mutex of its own, so two threads may both hold a queue of the same context.\<close>
theorem CreateQueues_contexts:
  assumes "\<forall>f \<in> set families. qf_count f < 2 ^ 32"
  shows "(of_kind QueueGraphics (enumerate 0 families) = [] \<longrightarrow> CreateQueues families = Inl EnsureFailed)
    \<and> (of_kind QueueGraphics (enumerate 0 families) \<noteq> [] \<longrightarrow> (\<exists>q. CreateQueues families = Inr q
        \<and> context_of QueueGraphics q = kind_context QueueGraphics (enumerate 0 families)
        \<and> context_of QueueCompute q = (if of_kind QueueCompute (enumerate 0 families) = [] then context_of QueueGraphics q
             else kind_context QueueCompute (enumerate 0 families))
        \<and> context_of QueueTransfer q = (if of_kind QueueTransfer (enumerate 0 families) = [] then context_of QueueCompute q
             else kind_context QueueTransfer (enumerate 0 families))
        \<and> (of_kind QueueTransfer (enumerate 0 families) = [] \<longrightarrow> rq_data q QueueTransfer = rq_data q QueueCompute)
        \<and> (of_kind QueueCompute (enumerate 0 families) = [] \<longrightarrow> rq_data q QueueCompute = rq_data q QueueGraphics)
        \<and> rq_mutex q QueueGraphics \<noteq> rq_mutex q QueueCompute \<and> rq_mutex q QueueCompute \<noteq> rq_mutex q QueueTransfer))"
proof -
  let ?fs = "enumerate 0 families"
  have "list_all (\<lambda>(i, f). qf_count f < 2 ^ 64) ?fs"
  proof -
    have "qf_count f < 2 ^ 64" if "f \<in> set families" for f using assms that by fastforce
    then show ?thesis by (force simp: list_all_iff in_set_enumerate_eq)
  qed
  from add_families_ok [OF this] obtain q where q: "fold_res add_family ?fs rhi_queues_new = Inr q" "queues_for ?fs q" by blast
  have c: "context_of t q = kind_context t ?fs" for t using q(2) by (simp add: queues_for_def)
  have cn: "rq_context q (type_index t) = kind_context t ?fs" for t using q(2) by (auto simp: queues_for_def context_of_def)
  have d: "rq_data q = type_index" "rq_mutex q = type_index" using q(2) by (auto simp: queues_for_def)
  note n = cn [of QueueGraphics, simplified] cn [of QueueCompute, simplified] cn [of QueueTransfer, simplified]
  have x: "context_of t (q\<lparr> rq_data := g \<rparr>) = rq_context q (g t)" for t g by (simp add: context_of_def)
  have e: "circular_Empty (qc_queues (context_of t q)) \<longleftrightarrow> of_kind t ?fs = []" for t by (simp add: c kind_context_empty)
  show ?thesis unfolding CreateQueues_def q(1)
    by (cases "of_kind QueueGraphics ?fs = []"; cases "of_kind QueueCompute ?fs = []"; cases "of_kind QueueTransfer ?fs = []")
      (simp_all add: e x cn n d c kind_context_empty alias_if_empty_def)
qed

theorem CreateQueues_contexts_witness:
  "\<exists>q. CreateQueues [\<lparr> qf_count = 2, qf_flags = 7, qf_timestampBits = 64 \<rparr>, \<lparr> qf_count = 1, qf_flags = 4, qf_timestampBits = 0 \<rparr>] = Inr q
     \<and> context_of QueueCompute q = context_of QueueGraphics q \<and> rq_mutex q QueueGraphics \<noteq> rq_mutex q QueueCompute
     \<and> qc_family (context_of QueueTransfer q) = 1"
proof -
  let ?fs = "[\<lparr> qf_count = 2, qf_flags = 7, qf_timestampBits = 64 \<rparr>, \<lparr> qf_count = 1, qf_flags = 4, qf_timestampBits = 0 \<rparr>]"
  have k: "of_kind QueueGraphics (enumerate 0 ?fs) = [(0, ?fs ! 0)]" "of_kind QueueCompute (enumerate 0 ?fs) = []"
    "of_kind QueueTransfer (enumerate 0 ?fs) = [(1, ?fs ! 1)]"
    by (simp_all add: of_kind_def family_kind_def isDedicatedQueueFamily_def VK_QUEUE_GRAPHICS_BIT_def VK_QUEUE_COMPUTE_BIT_def
      VK_QUEUE_TRANSFER_BIT_def)
  have c: "kind_context QueueTransfer (enumerate 0 ?fs) = family_context QueueTransfer (1, ?fs ! 1)"
    unfolding kind_context_def k by simp
  have "\<forall>f \<in> set ?fs. qf_count f < 2 ^ 32" by simp
  from CreateQueues_contexts [OF this, unfolded k c] obtain q where "CreateQueues ?fs = Inr q"
    "context_of QueueCompute q = context_of QueueGraphics q" "rq_mutex q QueueGraphics \<noteq> rq_mutex q QueueCompute"
    "context_of QueueTransfer q = family_context QueueTransfer (1, ?fs ! 1)" by (elim conjE) (fastforce simp del: enumerate_simps)
  then show ?thesis by (intro exI [of _ q]) (simp add: family_context_def)
qed

end
