(* ===== verification/Std_Extra.thy ===== *)
theory Std_Extra
imports Prelude
begin

text \<open>
  The compact optional index of \<open>core/std_extra.h\<close> and \<open>core/utils.h\<close>:
  \<open>std_extra::min_unsigned_t<N>\<close> picks an unsigned type from a tuple of four by the bit width of
  \<open>N\<close>, and \<open>MinSizeIndex<N>\<close> reserves the all-ones value of that type for "no index".
  The template parameter \<open>N\<close> is an argument of the definitions; a choice outside the tuple is a
  compile-time error in the source and \<open>None\<close> here.
\<close>

section \<open>The smallest unsigned type\<close>

fun bit_width :: "nat \<Rightarrow> nat" where
  "bit_width n = (if n = 0 then 0 else Suc (bit_width (n div 2)))"

declare bit_width.simps [simp del]

definition unsigned_widths :: "nat list" where
  "unsigned_widths = [8, 16, 32, 64]"

definition min_unsigned_t :: "nat \<Rightarrow> nat option" where
  "min_unsigned_t N = (let i = bit_width N div 8 in
     if i < length unsigned_widths then Some (unsigned_widths ! i) else None)"

section \<open>The index with a reserved value\<close>

text \<open>\<open>msi_bits N\<close> is the width of the chosen type for a well-formed instance.\<close>

definition msi_bits :: "nat \<Rightarrow> nat" where
  "msi_bits N = (case min_unsigned_t N of Some w \<Rightarrow> w | None \<Rightarrow> 0)"

definition kInvalidIndex :: "nat \<Rightarrow> nat" where
  "kInvalidIndex N = (2 ^ 64 - 1) mod 2 ^ msi_bits N"

record MinSizeIndex =
  msi_value :: nat

definition MinSizeIndex_default :: "nat \<Rightarrow> MinSizeIndex" where
  "MinSizeIndex_default N = \<lparr> msi_value = kInvalidIndex N \<rparr>"

text \<open>Storing a \<open>size_t\<close> truncates it to the chosen type.\<close>

definition MinSizeIndex_of :: "nat \<Rightarrow> nat \<Rightarrow> MinSizeIndex" where
  "MinSizeIndex_of N i = \<lparr> msi_value = i mod 2 ^ msi_bits N \<rparr>"

definition MinSizeIndex_bool :: "nat \<Rightarrow> MinSizeIndex \<Rightarrow> bool" where
  "MinSizeIndex_bool N h \<longleftrightarrow> msi_value h \<noteq> kInvalidIndex N"

definition MinSizeIndex_less :: "MinSizeIndex \<Rightarrow> MinSizeIndex \<Rightarrow> bool" where
  "MinSizeIndex_less a b \<longleftrightarrow> msi_value a < msi_value b"

section \<open>Lemmas\<close>

lemma bit_width_0 [simp]: "bit_width 0 = 0"
  by (simp add: bit_width.simps)

lemma bit_width_pos: "0 < n \<Longrightarrow> bit_width n = Suc (bit_width (n div 2))"
  by (simp add: bit_width.simps [of n])

lemma less_2_bit_width: "n < 2 ^ bit_width n"
proof (induction n rule: bit_width.induct)
  case (1 n)
  show ?case
  proof (cases "n = 0")
    case False
    then have "n div 2 < 2 ^ bit_width (n div 2)" using 1 by simp
    then have "n < 2 * 2 ^ bit_width (n div 2)" by linarith
    then show ?thesis using False by (simp add: bit_width_pos)
  qed simp
qed

lemma bit_width_le: "n < 2 ^ k \<Longrightarrow> bit_width n \<le> k"
proof (induction n arbitrary: k rule: bit_width.induct)
  case (1 n)
  show ?case
  proof (cases "n = 0")
    case False
    then obtain j where k: "k = Suc j" using 1(2) by (cases k) auto
    have "n div 2 < 2 ^ j" using 1(2) k by (simp add: less_mult_imp_div_less mult.commute)
    then show ?thesis using 1(1) False k by (simp add: bit_width_pos)
  qed simp
qed

text \<open>The tuple has an element for every \<open>N\<close> below \<open>2 ^ 31\<close>, and that element is wide enough.\<close>

lemma min_unsigned_t_fits:
  assumes "N < 2 ^ 31"
  obtains w where "min_unsigned_t N = Some w" "N < 2 ^ w" "w \<le> 64" "bit_width N < w"
proof -
  have le: "bit_width N \<le> 31" by (rule bit_width_le [OF assms])
  have n: "N < 2 ^ bit_width N" by (rule less_2_bit_width)
  consider "bit_width N < 8" | "8 \<le> bit_width N" "bit_width N < 16"
    | "16 \<le> bit_width N" "bit_width N < 24" | "24 \<le> bit_width N" "bit_width N < 32"
    using le by linarith
  then obtain w where w: "min_unsigned_t N = Some w" "bit_width N < w" "w \<le> 64"
  proof cases
    case 1
    then have d: "bit_width N div 8 = 0" by simp
    show ?thesis by (rule that [of 8]) (use 1 d in \<open>simp_all add: min_unsigned_t_def unsigned_widths_def\<close>)
  next
    case 2
    then have d: "bit_width N div 8 = 1" by simp
    show ?thesis by (rule that [of 16]) (use 2 d in \<open>simp_all add: min_unsigned_t_def unsigned_widths_def\<close>)
  next
    case 3
    then have d: "bit_width N div 8 = 2" by simp
    show ?thesis by (rule that [of 32]) (use 3 d in \<open>simp_all add: min_unsigned_t_def unsigned_widths_def\<close>)
  next
    case 4
    then have d: "bit_width N div 8 = 3" by simp
    show ?thesis by (rule that [of 64]) (use 4 d in \<open>simp_all add: min_unsigned_t_def unsigned_widths_def\<close>)
  qed
  have "(2::nat) ^ bit_width N \<le> 2 ^ w" using w(2) by (simp add: power_increasing)
  then have "N < 2 ^ w" using n by linarith
  then show ?thesis using that w by blast
qed

lemma msi_bits_cases: "msi_bits N \<in> {0, 8, 16, 32, 64}"
proof -
  have "unsigned_widths ! i \<in> {8, 16, 32, 64}" if "i < length unsigned_widths" for i
    using nth_mem [OF that] by (simp add: unsigned_widths_def)
  then show ?thesis by (auto simp: msi_bits_def min_unsigned_t_def Let_def split: option.splits if_splits)
qed

lemma kInvalidIndex_all_ones: "kInvalidIndex N = 2 ^ msi_bits N - 1"
  using msi_bits_cases [of N] by (auto simp: kInvalidIndex_def)

lemma index_below_invalid:
  assumes "N < 2 ^ 31" "i < N"
  shows "i < kInvalidIndex N" "i mod 2 ^ msi_bits N = i"
proof -
  from assms(1) obtain w where w: "min_unsigned_t N = Some w" "N < 2 ^ w" "w \<le> 64"
    by (rule min_unsigned_t_fits)
  then have b: "msi_bits N = w" by (simp add: msi_bits_def)
  show "i mod 2 ^ msi_bits N = i" using b w assms(2) by simp
  have "kInvalidIndex N = 2 ^ w - 1" using kInvalidIndex_all_ones b w by simp
  then show "i < kInvalidIndex N" using w(2) assms(2) by simp
qed

section \<open>Properties\<close>

text \<open>C25: The type chosen for \<open>MinSizeIndex<N>\<close> exists for every \<open>N\<close> below \<open>2 ^ 31\<close> and loses no index:
  an index below \<open>N\<close> is stored exactly, is valid, and differs from the reserved value a default
  handle holds.\<close>

theorem MinSizeIndex_faithful:
  assumes "N < 2 ^ 31" "i < N"
  shows "min_unsigned_t N \<noteq> None \<and> msi_value (MinSizeIndex_of N i) = i
    \<and> MinSizeIndex_bool N (MinSizeIndex_of N i) \<and> \<not> MinSizeIndex_bool N (MinSizeIndex_default N)"
  using index_below_invalid [OF assms] min_unsigned_t_fits [OF assms(1)]
  by (auto simp: MinSizeIndex_of_def MinSizeIndex_bool_def MinSizeIndex_default_def)

theorem MinSizeIndex_faithful_witness:
  "min_unsigned_t 1024 \<noteq> None \<and> msi_value (MinSizeIndex_of 1024 1023) = 1023
    \<and> MinSizeIndex_bool 1024 (MinSizeIndex_of 1024 1023) \<and> \<not> MinSizeIndex_bool 1024 (MinSizeIndex_default 1024)"
  by (rule MinSizeIndex_faithful) simp_all

end
