(* ===== verification/Std_Heap.thy ===== *)
theory Std_Heap
imports Prelude "HOL-Library.Multiset"
begin

text \<open>
  The heap algorithms of the C++ standard library that \<open>core/memorypool.inl\<close> calls, on the first
  \<open>n\<close> elements of an array. The comparator is the one of \<open>MemoryPool::Entry\<close>, which is
  \<open>index >= other.index\<close>, so that the smallest index is at the top. The standard fixes what the
  algorithms achieve and not how; the locale \<open>std_heap\<close> states that contract, and the usual
  sifting algorithms below provide it. The comparator is not a strict order, so the contract is
  stated for distinct elements, which is how the pool uses it.
\<close>

section \<open>The contract\<close>

text \<open>\<open>Entry::operator<\<close>.\<close>

definition entry_less :: "nat \<Rightarrow> nat \<Rightarrow> bool" where
  "entry_less a b \<longleftrightarrow> a \<ge> b"

definition parent :: "nat \<Rightarrow> nat" where
  "parent i = (i - 1) div 2"

lemma parent_less: "0 < i \<Longrightarrow> parent i < i"
  by (auto simp: parent_def)

text \<open>\<open>std::is_heap\<close>: no element is greater, by the comparator, than its child.\<close>

definition is_heap :: "nat \<Rightarrow> nat list \<Rightarrow> bool" where
  "is_heap n a \<longleftrightarrow> list_all (\<lambda>i. \<not> entry_less (a ! parent i) (a ! i)) [1..<n]"

locale std_heap =
  fixes make_heap pop_heap push_heap :: "nat \<Rightarrow> nat list \<Rightarrow> nat list"
  assumes make_heap: "n \<le> length a \<Longrightarrow> distinct (take n a) \<Longrightarrow>
      is_heap n (make_heap n a) \<and> mset (take n (make_heap n a)) = mset (take n a)
      \<and> drop n (make_heap n a) = drop n a"
    and pop_heap: "0 < n \<Longrightarrow> n \<le> length a \<Longrightarrow> distinct (take n a) \<Longrightarrow> is_heap n a \<Longrightarrow>
      is_heap (n - 1) (pop_heap n a) \<and> mset (take n (pop_heap n a)) = mset (take n a)
      \<and> drop n (pop_heap n a) = drop n a \<and> pop_heap n a ! (n - 1) = a ! 0"
    and push_heap: "0 < n \<Longrightarrow> n \<le> length a \<Longrightarrow> distinct (take n a) \<Longrightarrow> is_heap (n - 1) a \<Longrightarrow>
      is_heap n (push_heap n a) \<and> mset (take n (push_heap n a)) = mset (take n a)
      \<and> drop n (push_heap n a) = drop n a"

section \<open>The algorithms\<close>

definition swap_at :: "nat \<Rightarrow> nat \<Rightarrow> nat list \<Rightarrow> nat list" where
  "swap_at i j a = a[j := a ! i, i := a ! j]"

function sift_up :: "nat \<Rightarrow> nat list \<Rightarrow> nat list" where
  "sift_up i a = (if i \<noteq> 0 \<and> entry_less (a ! parent i) (a ! i)
     then sift_up (parent i) (swap_at (parent i) i a) else a)"
  by pat_completeness auto
termination
  by (relation "measure fst") (auto simp: parent_less)

text \<open>The child that is greatest by the comparator.\<close>

definition top_child :: "nat \<Rightarrow> nat \<Rightarrow> nat list \<Rightarrow> nat" where
  "top_child n i a = (let l = 2 * i + 1; r = 2 * i + 2 in
     if r < n \<and> entry_less (a ! l) (a ! r) then r else l)"

function sift_down :: "nat \<Rightarrow> nat \<Rightarrow> nat list \<Rightarrow> nat list" where
  "sift_down n i a = (if 2 * i + 1 < n \<and> entry_less (a ! i) (a ! top_child n i a)
     then sift_down n (top_child n i a) (swap_at i (top_child n i a) a) else a)"
  by pat_completeness auto
termination
  by (relation "measure (\<lambda>(n, i, a). n - i)") (auto simp: top_child_def Let_def)

declare sift_up.simps [simp del] sift_down.simps [simp del]

definition std_push_heap :: "nat \<Rightarrow> nat list \<Rightarrow> nat list" where
  "std_push_heap n a = sift_up (n - 1) a"

definition std_pop_heap :: "nat \<Rightarrow> nat list \<Rightarrow> nat list" where
  "std_pop_heap n a = sift_down (n - 1) 0 (swap_at 0 (n - 1) a)"

fun heapify :: "nat \<Rightarrow> nat \<Rightarrow> nat list \<Rightarrow> nat list" where
  "heapify n 0 a = a"
| "heapify n (Suc i) a = heapify n i (sift_down n i a)"

definition std_make_heap :: "nat \<Rightarrow> nat list \<Rightarrow> nat list" where
  "std_make_heap n a = heapify n (n div 2) a"

section \<open>Sifting keeps the elements\<close>

text \<open>\<open>a\<close> and \<open>b\<close> agree beyond \<open>n\<close> and hold the same elements before it.\<close>

definition same_elements :: "nat \<Rightarrow> nat list \<Rightarrow> nat list \<Rightarrow> bool" where
  "same_elements n a b \<longleftrightarrow> length b = length a \<and> mset (take n b) = mset (take n a) \<and> drop n b = drop n a"

lemma same_elements_refl [simp]: "same_elements n a a"
  by (simp add: same_elements_def)

lemma same_elements_trans: "same_elements n a b \<Longrightarrow> same_elements n b c \<Longrightarrow> same_elements n a c"
  by (simp add: same_elements_def)

lemma same_elements_length: "same_elements n a b \<Longrightarrow> length b = length a"
  by (simp add: same_elements_def)

lemma same_elements_distinct: "same_elements n a b \<Longrightarrow> distinct (take n b) \<longleftrightarrow> distinct (take n a)"
  by (metis mset_eq_imp_distinct_iff same_elements_def)

lemma same_elements_swap:
  assumes "i < n" "j < n" "n \<le> length a"
  shows "same_elements n a (swap_at i j a)"
proof -
  have "mset (take n (swap_at i j a)) = mset (take n a)"
    using mset_swap [of i "take n a" j] assms by (simp add: swap_at_def take_update_swap)
  then show ?thesis using assms by (simp add: same_elements_def swap_at_def)
qed

lemma sift_up_same: "i < n \<Longrightarrow> n \<le> length a \<Longrightarrow> same_elements n a (sift_up i a)"
proof (induction i a rule: sift_up.induct)
  case (1 i a)
  show ?case
  proof (cases "i \<noteq> 0 \<and> entry_less (a ! parent i) (a ! i)")
    case True
    then have p: "parent i < n" using parent_less [of i] 1(2) by simp
    have s: "same_elements n a (swap_at (parent i) i a)" using same_elements_swap p 1 by simp
    then have "same_elements n (swap_at (parent i) i a) (sift_up (parent i) (swap_at (parent i) i a))"
      using 1(1) [OF True p] 1(3) by (simp add: same_elements_length)
    then show ?thesis using s True by (subst sift_up.simps) (auto intro: same_elements_trans)
  next
    case False
    then show ?thesis by (subst sift_up.simps) auto
  qed
qed

lemma top_child_bounds:
  assumes "2 * i + 1 < n"
  shows "top_child n i a < n" "parent (top_child n i a) = i" "i < top_child n i a"
  using assms by (auto simp: top_child_def Let_def parent_def)

lemma sift_down_same: "i < n \<Longrightarrow> n \<le> length a \<Longrightarrow> same_elements n a (sift_down n i a)"
proof (induction n i a rule: sift_down.induct)
  case (1 n i a)
  let ?c = "top_child n i a"
  show ?case
  proof (cases "2 * i + 1 < n \<and> entry_less (a ! i) (a ! ?c)")
    case True
    then have c: "?c < n" using top_child_bounds by simp
    have s: "same_elements n a (swap_at i ?c a)" using same_elements_swap c 1 by simp
    then have "same_elements n (swap_at i ?c a) (sift_down n ?c (swap_at i ?c a))"
      using 1(1) [OF True c] 1(3) by (simp add: same_elements_length)
    then show ?thesis using s True by (subst sift_down.simps) (auto intro: same_elements_trans)
  next
    case False
    then show ?thesis by (subst sift_down.simps) auto
  qed
qed

section \<open>Sifting restores the order\<close>

text \<open>The heap order from position \<open>k\<close> on, except at the edges \<open>bad\<close> allows.\<close>

definition ordered_except :: "(nat \<Rightarrow> bool) \<Rightarrow> nat \<Rightarrow> nat list \<Rightarrow> bool" where
  "ordered_except bad n a \<longleftrightarrow> (\<forall>j. 0 < j \<and> j < n \<and> \<not> bad j \<longrightarrow> a ! parent j < a ! j)"

lemma is_heap_ordered: "is_heap n a \<longleftrightarrow> ordered_except (\<lambda>_. False) n a"
  by (auto simp: is_heap_def ordered_except_def entry_less_def list_all_iff not_le Suc_le_eq)

lemma ordered_exceptD: "ordered_except bad n a \<Longrightarrow> 0 < j \<Longrightarrow> j < n \<Longrightarrow> \<not> bad j \<Longrightarrow> a ! parent j < a ! j"
  by (simp add: ordered_except_def)

lemma nth_swap_at:
  "i < length a \<Longrightarrow> j < length a \<Longrightarrow> swap_at i j a ! k = (if k = i then a ! j else if k = j then a ! i else a ! k)"
  by (auto simp: swap_at_def nth_list_update)

lemma distinct_nth_neq:
  "distinct (take n a) \<Longrightarrow> n \<le> length a \<Longrightarrow> i < n \<Longrightarrow> j < n \<Longrightarrow> i \<noteq> j \<Longrightarrow> a ! i \<noteq> a ! j"
  using nth_eq_iff_index_eq [of "take n a" i j] by simp

lemma sift_up_heap:
  assumes "i < n" "n \<le> length a" "distinct (take n a)"
    and "ordered_except (\<lambda>j. j = i) n a"
    and "\<forall>j. 0 < i \<and> 0 < j \<and> j < n \<and> parent j = i \<longrightarrow> a ! parent i < a ! j"
  shows "is_heap n (sift_up i a)"
  using assms
proof (induction i a rule: sift_up.induct)
  case (1 i a)
  note ord = ordered_exceptD [OF 1(5)]
  show ?case
  proof (cases "i \<noteq> 0 \<and> entry_less (a ! parent i) (a ! i)")
    case True
    let ?p = "parent i" and ?b = "swap_at (parent i) i a"
    have p: "?p < i" "?p < n" using parent_less [of i] True 1(2) by auto
    have lt: "a ! i < a ! ?p"
      using True distinct_nth_neq [OF 1(4,3) 1(2) p(2)] p(1) by (simp add: entry_less_def le_neq_implies_less)
    have nth: "?b ! k = (if k = ?p then a ! i else if k = i then a ! ?p else a ! k)" for k
      using nth_swap_at 1(2,3) p by simp
    have same: "same_elements n a ?b" using same_elements_swap p(2) 1(2,3) by simp
    have new: "ordered_except (\<lambda>j. j = ?p) n ?b"
    proof (unfold ordered_except_def, intro allI impI)
      fix j assume j: "0 < j \<and> j < n \<and> j \<noteq> ?p"
      show "?b ! parent j < ?b ! j"
      proof (cases "j = i")
        case False
        then show ?thesis
          using j ord [of j] 1(6) True lt p(1) parent_less [of j] unfolding nth
          by (cases "parent j = i"; cases "parent j = ?p") auto
      qed (use lt p nth in auto)
    qed
    have "\<forall>j. 0 < ?p \<and> 0 < j \<and> j < n \<and> parent j = ?p \<longrightarrow> ?b ! parent ?p < ?b ! j"
    proof (intro allI impI)
      fix j assume j: "0 < ?p \<and> 0 < j \<and> j < n \<and> parent j = ?p"
      have "a ! parent ?p < a ! ?p" using ord [of ?p] j p by simp
      moreover have "a ! ?p < a ! j" if "j \<noteq> i" using ord [of j] j that by simp
      ultimately show "?b ! parent ?p < ?b ! j"
        using j p parent_less [of ?p] parent_less [of j] unfolding nth by (cases "j = i") auto
    qed
    then have "is_heap n (sift_up ?p ?b)"
      using 1(1) [OF True p(2) _ _ new] same 1(3,4)
      by (simp add: same_elements_length same_elements_distinct)
    then show ?thesis using True by (subst sift_up.simps) simp
  next
    case False
    then have "i = 0 \<or> a ! parent i < a ! i" by (auto simp: entry_less_def)
    then have "is_heap n a" using ord by (auto simp: is_heap_ordered ordered_except_def)
    then show ?thesis using False by (subst sift_up.simps) auto
  qed
qed

text \<open>Sifting down, in a heap that is ordered from position \<open>k\<close> on.\<close>

lemma sift_down_ordered:
  assumes "i < n" "n \<le> length a" "distinct (take n a)" "k \<le> i"
    and "ordered_except (\<lambda>j. parent j < k \<or> parent j = i) n a"
    and "\<forall>j. 0 < i \<and> k \<le> parent i \<and> 0 < j \<and> j < n \<and> parent j = i \<longrightarrow> a ! parent i < a ! j"
  shows "ordered_except (\<lambda>j. parent j < k) n (sift_down n i a)"
  using assms
proof (induction n i a rule: sift_down.induct)
  case (1 n i a)
  note ord = ordered_exceptD [OF 1(6)]
  let ?c = "top_child n i a" and ?b = "swap_at i (top_child n i a) a"
  have child: "j = 2 * i + 1 \<or> j = 2 * i + 2" if "0 < j" "parent j = i" for j
    using that by (auto simp: parent_def)
  show ?case
  proof (cases "2 * i + 1 < n \<and> entry_less (a ! i) (a ! ?c)")
    case True
    then have c: "?c < n" "parent ?c = i" "i < ?c" using top_child_bounds by simp_all
    have lt: "a ! ?c < a ! i"
      using True distinct_nth_neq [OF 1(4,3) c(1) 1(2)] c(3) by (simp add: entry_less_def le_neq_implies_less)
    have other: "a ! ?c < a ! j" if "0 < j" "j < n" "parent j = i" "j \<noteq> ?c" for j
    proof -
      have "a ! ?c \<le> a ! j" using child [OF that(1,3)] that(2,4)
        by (auto simp: top_child_def Let_def entry_less_def split: if_splits)
      then show ?thesis using distinct_nth_neq [OF 1(4,3) c(1) that(2)] that(4) by (simp add: le_neq_implies_less)
    qed
    have nth: "?b ! m = (if m = i then a ! ?c else if m = ?c then a ! i else a ! m)" for m
      using nth_swap_at 1(2,3) c by simp
    have same: "same_elements n a ?b" using same_elements_swap c(1) 1(2,3) by simp
    have new: "ordered_except (\<lambda>j. parent j < k \<or> parent j = ?c) n ?b"
    proof (unfold ordered_except_def, intro allI impI)
      fix j assume j: "0 < j \<and> j < n \<and> \<not> (parent j < k \<or> parent j = ?c)"
      then show "?b ! parent j < ?b ! j"
        using ord [of j] 1(7) lt other [of j] c parent_less [of j] unfolding nth
        by (cases "parent j = i"; cases "j = i"; cases "j = ?c") auto
    qed
    have "\<forall>j. 0 < ?c \<and> k \<le> parent ?c \<and> 0 < j \<and> j < n \<and> parent j = ?c \<longrightarrow> ?b ! parent ?c < ?b ! j"
    proof (intro allI impI)
      fix j assume j: "0 < ?c \<and> k \<le> parent ?c \<and> 0 < j \<and> j < n \<and> parent j = ?c"
      then have "?c < j" using parent_less [of j] by simp
      then show "?b ! parent ?c < ?b ! j" using ord [of j] j 1(5) c unfolding nth by auto
    qed
    then have "ordered_except (\<lambda>j. parent j < k) n (sift_down n ?c ?b)"
      using 1(1) [OF True c(1) _ _ _ new] same 1(3,4,5) c(3)
      by (simp add: same_elements_length same_elements_distinct)
    then show ?thesis using True by (subst sift_down.simps) simp
  next
    case False
    have "a ! parent j < a ! j" if j: "0 < j" "j < n" "parent j = i" "k \<le> i" for j
    proof -
      have "a ! i < a ! ?c" using False child [OF j(1,3)] j(2) by (auto simp: entry_less_def)
      then show ?thesis using child [OF j(1,3)] j(2,3)
        by (auto simp: top_child_def Let_def entry_less_def split: if_splits)
    qed
    then have "ordered_except (\<lambda>j. parent j < k) n a" using ord 1(5) by (auto simp: ordered_except_def)
    then show ?thesis using False by (subst sift_down.simps) auto
  qed
qed

section \<open>The algorithms meet the contract\<close>

lemma same_elements_mono: "same_elements m a b \<Longrightarrow> m \<le> n \<Longrightarrow> same_elements n a b"
proof -
  assume s: "same_elements m a b" and mn: "m \<le> n"
  have "take n xs = take m xs @ take (n - m) (drop m xs)" for xs :: "nat list"
    using mn by (metis le_add_diff_inverse take_add)
  moreover have "drop n b = drop n a"
  proof -
    have d: "drop n xs = drop (n - m) (drop m xs)" for xs :: "nat list" using mn by simp
    have "drop m b = drop m a" using s by (simp add: same_elements_def)
    then show ?thesis unfolding d [of a] d [of b] by (rule arg_cong)
  qed
  ultimately show ?thesis using s by (simp add: same_elements_def)
qed

lemma std_push_heap_ok:
  assumes "0 < n" "n \<le> length a" "distinct (take n a)" "is_heap (n - 1) a"
  shows "is_heap n (std_push_heap n a) \<and> same_elements n a (std_push_heap n a)"
proof -
  have "is_heap n (sift_up (n - 1) a)"
  proof (rule sift_up_heap)
    show "ordered_except (\<lambda>j. j = n - 1) n a"
      using assms(4) by (auto simp: is_heap_ordered ordered_except_def)
    show "\<forall>j. 0 < n - 1 \<and> 0 < j \<and> j < n \<and> parent j = n - 1 \<longrightarrow> a ! parent (n - 1) < a ! j"
    proof (intro allI impI)
      fix j assume j: "0 < n - 1 \<and> 0 < j \<and> j < n \<and> parent j = n - 1"
      then have "n - 1 < j" using parent_less [of j] by simp
      then show "a ! parent (n - 1) < a ! j" using j by linarith
    qed
  qed (use assms in auto)
  then show ?thesis using sift_up_same [of "n - 1" n a] assms by (simp add: std_push_heap_def)
qed

lemma sift_down_0 [simp]: "sift_down 0 i a = a"
  by (subst sift_down.simps) simp

lemma std_pop_heap_ok:
  assumes n: "0 < n" "n \<le> length a" "distinct (take n a)" "is_heap n a"
  shows "is_heap (n - 1) (std_pop_heap n a) \<and> same_elements n a (std_pop_heap n a)
    \<and> std_pop_heap n a ! (n - 1) = a ! 0"
proof (cases "n = 1")
  case True
  then show ?thesis using n by (simp add: std_pop_heap_def is_heap_def swap_at_def)
next
  case False
  let ?b = "swap_at 0 (n - 1) a"
  have nth: "?b ! k = (if k = 0 then a ! (n - 1) else if k = n - 1 then a ! 0 else a ! k)" for k
    by (rule nth_swap_at) (use n in auto)
  have same: "same_elements n a ?b" using same_elements_swap n False by simp
  have dist: "distinct (take (n - 1) ?b)"
    using same_elements_distinct [OF same] n(3) distinct_take [of "take n ?b" "n - 1"] by (simp add: min_def)
  have "?b ! parent j < ?b ! j" if j: "0 < j \<and> j < n - 1 \<and> parent j \<noteq> 0" and "j < n" for j
    using ordered_exceptD [OF n(4) [unfolded is_heap_ordered], of j] that parent_less [of j] unfolding nth by simp
  then have "is_heap (n - 1) (sift_down (n - 1) 0 ?b)"
    using sift_down_ordered [of 0 "n - 1" ?b 0] n False dist same
    by (simp add: is_heap_ordered ordered_except_def same_elements_length less_diff_conv)
  moreover have s2: "same_elements (n - 1) ?b (sift_down (n - 1) 0 ?b)"
    using sift_down_same [of 0 "n - 1" ?b] n False same by (simp add: same_elements_length)
  moreover have "sift_down (n - 1) 0 ?b ! (n - 1) = a ! 0"
  proof -
    have "drop (n - 1) (sift_down (n - 1) 0 ?b) ! 0 = drop (n - 1) ?b ! 0"
      using s2 by (simp add: same_elements_def)
    then show ?thesis using n False same s2 nth by (simp add: same_elements_length)
  qed
  ultimately show ?thesis
    using same same_elements_trans same_elements_mono [OF s2, of n] by (simp add: std_pop_heap_def)
qed

lemma heapify_ok:
  assumes "i \<le> n div 2" "n \<le> length a" "distinct (take n a)" "ordered_except (\<lambda>j. parent j < i) n a"
  shows "is_heap n (heapify n i a) \<and> same_elements n a (heapify n i a)"
  using assms
proof (induction i arbitrary: a)
  case 0
  then show ?case by (simp add: is_heap_ordered)
next
  case (Suc i)
  have i: "i < n" using Suc.prems(1) by simp
  have "ordered_except (\<lambda>j. parent j < i \<or> parent j = i) n a"
    using Suc.prems(4) by (auto simp: ordered_except_def less_Suc_eq)
  moreover have "\<not> (0 < i \<and> i \<le> parent i)" using parent_less [of i] by auto
  ultimately have "ordered_except (\<lambda>j. parent j < i) n (sift_down n i a)"
    using sift_down_ordered [of i n a i] i Suc.prems(2,3) by auto
  moreover have s: "same_elements n a (sift_down n i a)" using sift_down_same i Suc.prems(2) by blast
  ultimately have "is_heap n (heapify n i (sift_down n i a)) \<and> same_elements n (sift_down n i a) (heapify n i (sift_down n i a))"
    using Suc by (simp add: same_elements_length same_elements_distinct)
  then show ?case using s by (auto intro: same_elements_trans)
qed

lemma std_make_heap_ok:
  assumes "n \<le> length a" "distinct (take n a)"
  shows "is_heap n (std_make_heap n a) \<and> same_elements n a (std_make_heap n a)"
proof -
  have "parent j < n div 2" if "0 < j" "j < n" for j
    using that by (auto simp: parent_def)
  then have "ordered_except (\<lambda>j. parent j < n div 2) n a" by (auto simp: ordered_except_def)
  then show ?thesis using heapify_ok [of "n div 2" n a] assms by (simp add: std_make_heap_def)
qed

interpretation heap: std_heap std_make_heap std_pop_heap std_push_heap
proof (unfold_locales, goal_cases)
  case (1 n a)
  then show ?case using std_make_heap_ok by (auto simp: same_elements_def)
next
  case (2 n a)
  then show ?case using std_pop_heap_ok by (auto simp: same_elements_def)
next
  case (3 n a)
  then show ?case using std_push_heap_ok by (auto simp: same_elements_def)
qed

text \<open>The top of a heap is its least element.\<close>

lemma is_heap_top: "is_heap n a \<Longrightarrow> i < n \<Longrightarrow> a ! 0 \<le> a ! i"
proof (induction i rule: less_induct)
  case (less i)
  show ?case
  proof (cases "i = 0")
    case False
    then have "a ! parent i < a ! i"
      using ordered_exceptD [of "\<lambda>_. False" n a i] less.prems by (simp add: is_heap_ordered)
    moreover have "a ! 0 \<le> a ! parent i"
      using less.IH [of "parent i"] less.prems parent_less [of i] False by simp
    ultimately show ?thesis by simp
  qed simp
qed

end
