(* ===== verification/Memory_Pool.thy ===== *)
theory Memory_Pool
imports Std_Heap Std_Extra
begin

text \<open>
  \<open>MemoryPool<T, N>\<close> of \<open>core/memorypool.{h,inl}\<close>: the free indices of a fixed array of \<open>N\<close> slots
  are the first \<open>myAvailable\<close> entries of \<open>myEntries\<close>, kept as a heap with the lowest index on top.
  \<open>Allocate\<close> and \<open>Free\<close> run under the pool's mutex, so each is one step. The heap algorithms of the
  standard library are arguments of the operations; the pool's lemmas are proved from the contract
  \<open>std_heap\<close> and used at its interpretation. An entry holds a \<open>min_unsigned_t<N - 1>\<close>, the counter a
  \<open>min_unsigned_t<N>\<close>: stores truncate to those widths.
\<close>

section \<open>State and operations\<close>

record pool =
  entries :: "nat list"
  available :: nat

definition to_entry :: "nat \<Rightarrow> nat \<Rightarrow> nat" where
  "to_entry N i = i mod 2 ^ msi_bits (N - 1)"

definition to_counter :: "nat \<Rightarrow> nat \<Rightarrow> nat" where
  "to_counter N i = i mod 2 ^ msi_bits N"

fun number_entries :: "nat \<Rightarrow> nat \<Rightarrow> nat \<Rightarrow> nat list \<times> nat" where
  "number_entries N 0 c = ([], c)"
| "number_entries N (Suc k) c =
     (let (es, c') = number_entries N k (to_counter N (c + 1)) in (to_entry N c # es, c'))"

definition MemoryPool_init :: "(nat \<Rightarrow> nat list \<Rightarrow> nat list) \<Rightarrow> nat \<Rightarrow> pool res" where
  "MemoryPool_init make_heap N = (let (es, c) = number_entries N N 0 in
     bind_res (ensure (c = N)) (\<lambda>_. Inr \<lparr> entries = make_heap N es, available = c \<rparr>))"

definition Allocate :: "(nat \<Rightarrow> nat list \<Rightarrow> nat list) \<Rightarrow> nat \<Rightarrow> pool \<Rightarrow> (MinSizeIndex \<times> pool) res" where
  "Allocate pop_heap N s =
     bind_res (ensure (available s > 0)) (\<lambda>_.
     bind_res (ensure (available s \<le> N)) (\<lambda>_.
       if available s = 0 \<or> available s > N then Inr (MinSizeIndex_default N, s)
       else (let handle = MinSizeIndex_of N (entries s ! 0);
                 es = pop_heap (available s) (entries s);
                 av = available s - 1
             in bind_res (ensure (is_heap av es)) (\<lambda>_. Inr (handle, \<lparr> entries = es, available = av \<rparr>)))))"

definition Free :: "(nat \<Rightarrow> nat list \<Rightarrow> nat list) \<Rightarrow> nat \<Rightarrow> MinSizeIndex \<Rightarrow> pool \<Rightarrow> pool res" where
  "Free push_heap N h s =
     bind_res (ensure (MinSizeIndex_bool N h)) (\<lambda>_.
     bind_res (ensure (available s < N)) (\<lambda>_.
       let es = (entries s)[available s := to_entry N (msi_value h)];
           av = to_counter N (available s + 1);
           es' = push_heap av es
       in bind_res (ensure (is_heap av es')) (\<lambda>_. Inr \<lparr> entries = es', available = av \<rparr>)))"

definition pool_Size :: "nat \<Rightarrow> pool \<Rightarrow> nat" where
  "pool_Size N s = N - available s"

text \<open>Pointers into the pool as byte addresses: \<open>base\<close> is \<open>myPool.data()\<close>, \<open>sz\<close> is \<open>sizeof(T)\<close>.\<close>

definition GetPointer :: "nat \<Rightarrow> nat \<Rightarrow> nat \<Rightarrow> MinSizeIndex \<Rightarrow> nat res" where
  "GetPointer N base sz h =
     bind_res (ensure (MinSizeIndex_bool N h)) (\<lambda>_. Inr (base + msi_value h * sz))"

definition GetHandle :: "nat \<Rightarrow> nat \<Rightarrow> nat \<Rightarrow> nat \<Rightarrow> MinSizeIndex res" where
  "GetHandle N base sz ptr =
     bind_res (ensure (ptr \<noteq> 0)) (\<lambda>_. Inr (MinSizeIndex_of N ((ptr - base) div sz)))"

section \<open>The invariant and the set of free indices\<close>

definition free_set :: "pool \<Rightarrow> nat set" where
  "free_set s = set (take (available s) (entries s))"

definition pool_inv :: "nat \<Rightarrow> pool \<Rightarrow> bool" where
  "pool_inv N s \<longleftrightarrow> N < 2 ^ 31 \<and> length (entries s) = N \<and> available s \<le> N
     \<and> is_heap (available s) (entries s) \<and> distinct (take (available s) (entries s)) \<and> free_set s \<subseteq> {..<N}"

lemma free_set_card: "pool_inv N s \<Longrightarrow> card (free_set s) = available s"
  by (simp add: pool_inv_def free_set_def distinct_card)

lemma free_set_finite [simp]: "finite (free_set s)"
  by (simp add: free_set_def)

lemma to_counter_id: "N < 2 ^ 31 \<Longrightarrow> i \<le> N \<Longrightarrow> to_counter N i = i"
proof -
  assume n: "N < 2 ^ 31" "i \<le> N"
  from n(1) obtain w where "min_unsigned_t N = Some w" "N < 2 ^ w" by (rule min_unsigned_t_fits)
  then show ?thesis using n(2) by (simp add: to_counter_def msi_bits_def)
qed

lemma to_entry_id: "N < 2 ^ 31 \<Longrightarrow> i < N \<Longrightarrow> to_entry N i = i"
proof -
  assume n: "N < 2 ^ 31" "i < N"
  then have "N - 1 < 2 ^ 31" by simp
  then obtain w where "min_unsigned_t (N - 1) = Some w" "N - 1 < 2 ^ w" by (rule min_unsigned_t_fits)
  then show ?thesis using n(2) by (simp add: to_entry_def msi_bits_def)
qed

lemma free_set_top: "pool_inv N s \<Longrightarrow> 0 < available s \<Longrightarrow> entries s ! 0 = Min (free_set s)"
proof -
  assume inv: "pool_inv N s" and av: "0 < available s"
  have "entries s ! 0 \<in> free_set s"
    using inv av by (force simp: pool_inv_def free_set_def in_set_conv_nth)
  moreover have "entries s ! 0 \<le> x" if "x \<in> free_set s" for x
  proof -
    obtain i where "i < available s" "x = entries s ! i"
      using \<open>x \<in> free_set s\<close> by (auto simp: free_set_def in_set_conv_nth)
    then show ?thesis using is_heap_top inv by (auto simp: pool_inv_def)
  qed
  ultimately show ?thesis by (metis Min_eqI free_set_finite)
qed

lemma number_entries_ok:
  "N < 2 ^ 31 \<Longrightarrow> c + k \<le> N \<Longrightarrow> number_entries N k c = ([c..<c + k], c + k)"
proof (induction k arbitrary: c)
  case (Suc k)
  then have "to_counter N (c + 1) = c + 1" "to_entry N c = c" by (simp_all add: to_counter_id to_entry_id)
  then show ?case using Suc.IH [of "c + 1"] Suc.prems by (simp add: upt_conv_Cons)
qed simp

lemma same_prefix:
  assumes "mset (take n b) = mset (take n a)" "drop n b = drop n a"
  shows "length b = length a" "set (take n b) = set (take n a)" "distinct (take n b) \<longleftrightarrow> distinct (take n a)"
proof -
  have "length (take n b @ drop n b) = length (take n a @ drop n a)"
    using size_mset [of "take n b"] size_mset [of "take n a"] assms by (simp only: length_append)
  then show "length b = length a" by (simp only: append_take_drop_id)
  show "set (take n b) = set (take n a)" by (rule mset_eq_setD [OF assms(1)])
  show "distinct (take n b) \<longleftrightarrow> distinct (take n a)" by (rule mset_eq_imp_distinct_iff [OF assms(1)])
qed

section \<open>The operations under the heap contract\<close>

context std_heap begin

lemma pool_init_ok:
  assumes "N < 2 ^ 31"
  shows "\<exists>s. MemoryPool_init make_heap N = Inr s \<and> pool_inv N s \<and> free_set s = {..<N}"
proof -
  have m: "is_heap N (make_heap N [0..<N])" "mset (take N (make_heap N [0..<N])) = mset (take N [0..<N])"
    "drop N (make_heap N [0..<N]) = drop N [0..<N]"
    using make_heap [of N "[0..<N]"] by auto
  note k = same_prefix [OF m(2,3)]
  have e: "length (make_heap N [0..<N]) = N" "set (take N (make_heap N [0..<N])) = {..<N}"
    "distinct (take N (make_heap N [0..<N]))"
    using k by (simp_all add: atLeast0LessThan)
  have "number_entries N N 0 = ([0..<N], N)" using number_entries_ok [OF assms, of 0 N] by simp
  then have "MemoryPool_init make_heap N = Inr \<lparr> entries = make_heap N [0..<N], available = N \<rparr>"
    by (simp add: MemoryPool_init_def)
  then show ?thesis using assms m(1) e by (simp add: pool_inv_def free_set_def)
qed

lemma pool_allocate_ok:
  assumes inv: "pool_inv N s" and av: "0 < available s"
  shows "\<exists>s'. Allocate pop_heap N s = Inr (MinSizeIndex_of N (Min (free_set s)), s')
    \<and> pool_inv N s' \<and> free_set s' = free_set s - {Min (free_set s)} \<and> available s' = available s - 1"
proof -
  let ?n = "available s" and ?es = "pop_heap (available s) (entries s)"
  have i: "?n \<le> length (entries s)" "distinct (take ?n (entries s))" "is_heap ?n (entries s)" "?n \<le> N"
    using inv by (simp_all add: pool_inv_def)
  note p = pop_heap [OF av i(1-3)]
  note k = same_prefix [OF p [THEN conjunct2, THEN conjunct1] p [THEN conjunct2, THEN conjunct2, THEN conjunct1]]
  have len: "length ?es = length (entries s)" by (rule k(1))
  obtain m where m: "?n = Suc m" using av by (cases ?n) auto
  have split: "take ?n ?es = take (?n - 1) ?es @ [entries s ! 0]"
    using p i(1) len m by (simp add: take_Suc_conv_app_nth)
  have d: "distinct (take ?n ?es)" "set (take ?n ?es) = free_set s"
    using k(2,3) i(2) by (simp_all add: free_set_def)
  have "entries s ! 0 = Min (free_set s)" using free_set_top inv av by blast
  then have "free_set \<lparr> entries = ?es, available = ?n - 1 \<rparr> = free_set s - {Min (free_set s)}"
    using d unfolding split by (auto simp: free_set_def)
  moreover have "distinct (take (?n - 1) ?es)" using d(1) unfolding split by simp
  ultimately show ?thesis
    using p inv av i len \<open>entries s ! 0 = Min (free_set s)\<close>
    by (auto simp: Allocate_def Let_def pool_inv_def)
qed

lemma pool_free_ok:
  assumes inv: "pool_inv N s" and h: "h < N" "h \<notin> free_set s"
  shows "\<exists>s'. Free push_heap N (MinSizeIndex_of N h) s = Inr s'
    \<and> pool_inv N s' \<and> free_set s' = insert h (free_set s) \<and> available s' = available s + 1"
proof -
  let ?n = "available s" and ?es = "(entries s)[available s := h]"
  have i: "N < 2 ^ 31" "length (entries s) = N" "?n \<le> N" "free_set s \<subseteq> {..<N}" "is_heap ?n (entries s)"
    "distinct (take ?n (entries s))"
    using inv by (simp_all add: pool_inv_def)
  have "free_set s \<noteq> {..<N}" using h by auto
  then have lt: "?n < N"
    using i(3,4) free_set_card [OF inv] card_subset_eq [OF finite_lessThan i(4)] by fastforce
  have t: "take (Suc ?n) ?es = take ?n (entries s) @ [h]"
    using lt i(2) by (simp add: take_Suc_conv_app_nth)
  have "is_heap ?n ?es"
    using i(5) by (auto simp: is_heap_ordered ordered_except_def dest: parent_less)
  moreover have "distinct (take (Suc ?n) ?es)" using t i(6) h(2) by (simp add: free_set_def)
  ultimately have p: "is_heap (Suc ?n) (push_heap (Suc ?n) ?es)"
    "mset (take (Suc ?n) (push_heap (Suc ?n) ?es)) = mset (take (Suc ?n) ?es)"
    "drop (Suc ?n) (push_heap (Suc ?n) ?es) = drop (Suc ?n) ?es"
    using push_heap [of "Suc ?n" ?es] lt i(2) by auto
  note k = same_prefix [OF p(2,3)]
  have len: "length (push_heap (Suc ?n) ?es) = N" using k(1) i(2) by simp
  have "set (take (Suc ?n) (push_heap (Suc ?n) ?es)) = insert h (free_set s)"
    "distinct (take (Suc ?n) (push_heap (Suc ?n) ?es))"
    using k(2,3) t i(6) h(2) by (auto simp: free_set_def)
  moreover have "MinSizeIndex_bool N (MinSizeIndex_of N h)" "msi_value (MinSizeIndex_of N h) = h"
    using index_below_invalid [OF i(1) h(1)] by (simp_all add: MinSizeIndex_bool_def MinSizeIndex_of_def)
  ultimately show ?thesis
    using p len lt h i to_counter_id [OF i(1), of "Suc ?n"] to_entry_id [OF i(1) h(1)]
    by (simp add: Free_def Let_def pool_inv_def free_set_def)
qed

end

section \<open>Clients of the pool\<close>

text \<open>A client that frees only handles it holds and does not allocate beyond the capacity; \<open>live\<close>
  are the handles it holds.\<close>

datatype pool_op = Op_Allocate | Op_Free nat

fun pool_client :: "nat \<Rightarrow> pool_op list \<Rightarrow> pool \<times> nat list \<Rightarrow> (pool \<times> nat list) res" where
  "pool_client N [] (s, live) = Inr (s, live)"
| "pool_client N (Op_Allocate # ops) (s, live) =
     (if length live < N
      then bind_res (Allocate std_pop_heap N s) (\<lambda>(h, s'). pool_client N ops (s', msi_value h # live))
      else pool_client N ops (s, live))"
| "pool_client N (Op_Free h # ops) (s, live) =
     (if h \<in> set live
      then bind_res (Free std_push_heap N (MinSizeIndex_of N h) s) (\<lambda>s'. pool_client N ops (s', remove1 h live))
      else pool_client N ops (s, live))"

definition client_inv :: "nat \<Rightarrow> pool \<times> nat list \<Rightarrow> bool" where
  "client_inv N c \<longleftrightarrow> pool_inv N (fst c) \<and> distinct (snd c) \<and> set (snd c) \<subseteq> {..<N}
     \<and> free_set (fst c) = {..<N} - set (snd c)"

lemma client_available: "client_inv N (s, live) \<Longrightarrow> available s = N - length live"
  using free_set_card [of N s] card_Diff_subset [of "set live" "{..<N}"]
  by (simp add: client_inv_def distinct_card)

lemma client_inv_allocate:
  assumes "client_inv N (s, live)" "length live < N"
  shows "\<exists>h s'. Allocate std_pop_heap N s = Inr (h, s') \<and> msi_value h = Min ({..<N} - set live)
    \<and> client_inv N (s', msi_value h # live)"
proof -
  have inv: "pool_inv N s" and fs: "free_set s = {..<N} - set live" and l: "distinct live" "set live \<subseteq> {..<N}"
    using assms(1) by (simp_all add: client_inv_def)
  have av: "0 < available s" using client_available [OF assms(1)] assms(2) by simp
  let ?m = "Min (free_set s)"
  have "free_set s \<noteq> {}" using av free_set_card [OF inv] by auto
  then have m: "?m \<in> free_set s" by (rule Min_in [OF free_set_finite])
  then have v: "msi_value (MinSizeIndex_of N ?m) = ?m"
    using index_below_invalid(2) [of N ?m] inv fs by (auto simp: MinSizeIndex_of_def pool_inv_def)
  obtain s' where s': "Allocate std_pop_heap N s = Inr (MinSizeIndex_of N ?m, s')" "pool_inv N s'"
    "free_set s' = free_set s - {?m}"
    using heap.pool_allocate_ok [OF inv av] by blast
  have "client_inv N (s', ?m # live)"
    using s'(2,3) m fs l by (auto simp: client_inv_def)
  then show ?thesis using s'(1) v fs by auto
qed

lemma client_inv_free:
  assumes "client_inv N (s, live)" "h \<in> set live"
  shows "\<exists>s'. Free std_push_heap N (MinSizeIndex_of N h) s = Inr s' \<and> client_inv N (s', remove1 h live)"
proof -
  have inv: "pool_inv N s" and fs: "free_set s = {..<N} - set live" and l: "distinct live" "set live \<subseteq> {..<N}"
    using assms(1) by (simp_all add: client_inv_def)
  obtain s' where "Free std_push_heap N (MinSizeIndex_of N h) s = Inr s'" "pool_inv N s'"
    "free_set s' = insert h (free_set s)"
    using heap.pool_free_ok [OF inv, of h] fs l assms(2) by auto
  then show ?thesis using fs l assms(2) by (auto simp: client_inv_def distinct_remove1)
qed

lemma client_inv_run:
  "client_inv N c \<Longrightarrow> \<exists>c'. pool_client N ops c = Inr c' \<and> client_inv N c'"
proof (induction N ops c rule: pool_client.induct)
  case (2 N ops s live)
  then show ?case using client_inv_allocate [OF 2(3)] by (cases "length live < N") fastforce+
next
  case (3 N h ops s live)
  then show ?case using client_inv_free [OF 3(3)] by (cases "h \<in> set live") fastforce+
qed simp

lemma client_inv_init:
  assumes "N < 2 ^ 31"
  shows "\<exists>s. MemoryPool_init std_make_heap N = Inr s \<and> client_inv N (s, [])"
  using heap.pool_init_ok [OF assms] by (auto simp: client_inv_def)

section \<open>Properties\<close>

text \<open>C18: Whatever a client does with a fresh pool of \<open>N\<close> slots, the pool never traps and never hands
  out a slot twice: the handles the client holds are distinct indices below \<open>N\<close>, and the free entries are exactly
  the other indices.\<close>

theorem pool_no_double_allocation:
  assumes "N < 2 ^ 31"
  shows "\<exists>s0 s live. MemoryPool_init std_make_heap N = Inr s0 \<and> pool_client N ops (s0, []) = Inr (s, live)
    \<and> distinct live \<and> set live \<subseteq> {..<N} \<and> free_set s = {..<N} - set live \<and> pool_Size N s = length live"
proof -
  obtain s0 where s0: "MemoryPool_init std_make_heap N = Inr s0" "client_inv N (s0, [])"
    using client_inv_init [OF assms] by blast
  obtain s live where c: "pool_client N ops (s0, []) = Inr (s, live)" "client_inv N (s, live)"
    using client_inv_run [OF s0(2), of ops] by auto
  moreover have "length live \<le> N"
    using c(2) card_mono [of "{..<N}" "set live"] by (simp add: client_inv_def distinct_card)
  ultimately show ?thesis using s0(1) client_available [OF c(2)]
    by (auto simp: client_inv_def pool_Size_def)
qed

theorem pool_no_double_allocation_witness:
  "\<exists>s0 s live. MemoryPool_init std_make_heap 5 = Inr s0
    \<and> pool_client 5 [Op_Allocate, Op_Allocate, Op_Free 0, Op_Allocate] (s0, []) = Inr (s, live)
    \<and> distinct live \<and> set live \<subseteq> {..<5} \<and> free_set s = {..<5} - set live \<and> pool_Size 5 s = length live"
  by (rule pool_no_double_allocation) simp

text \<open>C19: The pool allocates the lowest index: after any client history that leaves a slot free, the next
  \<open>Allocate\<close> succeeds with a valid handle whose index is the least one the client does not hold.\<close>

theorem pool_allocates_lowest:
  assumes "N < 2 ^ 31" "MemoryPool_init std_make_heap N = Inr s0"
    "pool_client N ops (s0, []) = Inr (s, live)" "length live < N"
  shows "\<exists>h s'. Allocate std_pop_heap N s = Inr (h, s') \<and> MinSizeIndex_bool N h
    \<and> msi_value h = Min ({..<N} - set live) \<and> msi_value h \<notin> set live"
proof -
  have "client_inv N (s0, [])" using client_inv_init [OF assms(1)] assms(2) by auto
  then have "client_inv N (s, live)" using client_inv_run [of N "(s0, [])" ops] assms(3) by auto
  then obtain h s' where h: "Allocate std_pop_heap N s = Inr (h, s')" "msi_value h = Min ({..<N} - set live)"
    "client_inv N (s', msi_value h # live)"
    using client_inv_allocate assms(4) by blast
  then have "msi_value h < N" "msi_value h \<notin> set live" by (auto simp: client_inv_def)
  then show ?thesis using h index_below_invalid(1) [OF assms(1), of "msi_value h"]
    by (auto simp: MinSizeIndex_bool_def)
qed

theorem pool_allocates_lowest_witness:
  "\<exists>s0 s live h s'. MemoryPool_init std_make_heap 3 = Inr s0
    \<and> pool_client 3 [Op_Allocate, Op_Allocate] (s0, []) = Inr (s, live)
    \<and> Allocate std_pop_heap 3 s = Inr (h, s') \<and> MinSizeIndex_bool 3 h
    \<and> msi_value h = Min ({..<3} - set live) \<and> msi_value h \<notin> set live"
proof -
  have i: "MemoryPool_init std_make_heap 3 = Inr \<lparr> entries = [0, 1, 2], available = 3 \<rparr>" by code_simp
  have r: "pool_client 3 [Op_Allocate, Op_Allocate] (\<lparr> entries = [0, 1, 2], available = 3 \<rparr>, [])
      = Inr (\<lparr> entries = [2, 1, 0], available = 1 \<rparr>, [1, 0])" by code_simp
  from pool_allocates_lowest [OF _ i r] show ?thesis using i r by fastforce
qed

text \<open>\<open>GetPointer\<close> and \<open>GetHandle\<close> are inverse on the slots of the pool, and the slots of two
  different indices do not overlap.\<close>

theorem pool_pointer_roundtrip:
  assumes "N < 2 ^ 31" "i < N" "j < N" "0 < sz" "0 < base"
  shows "\<exists>p q. GetPointer N base sz (MinSizeIndex_of N i) = Inr p \<and> GetHandle N base sz p = Inr (MinSizeIndex_of N i)
    \<and> GetPointer N base sz (MinSizeIndex_of N j) = Inr q \<and> (i < j \<longrightarrow> p + sz \<le> q)"
proof -
  have v: "MinSizeIndex_bool N (MinSizeIndex_of N k)" "msi_value (MinSizeIndex_of N k) = k" if "k < N" for k
    using index_below_invalid [OF assms(1) that] by (simp_all add: MinSizeIndex_bool_def MinSizeIndex_of_def)
  have "base + i * sz + sz \<le> base + j * sz" if "i < j"
  proof -
    have "(i + 1) * sz \<le> j * sz" using that by (intro mult_right_mono) auto
    then show ?thesis by (simp add: algebra_simps)
  qed
  then show ?thesis using v [OF assms(2)] v [OF assms(3)] assms(4,5) by (auto simp: GetPointer_def GetHandle_def)
qed

theorem pool_pointer_roundtrip_witness:
  "\<exists>p q. GetPointer 1024 4096 256 (MinSizeIndex_of 1024 3) = Inr p
    \<and> GetHandle 1024 4096 256 p = Inr (MinSizeIndex_of 1024 3)
    \<and> GetPointer 1024 4096 256 (MinSizeIndex_of 1024 4) = Inr q \<and> ((3::nat) < 4 \<longrightarrow> p + 256 \<le> q)"
  by (rule pool_pointer_roundtrip) simp_all

end
