(* ===== verification/Task_Model.thy ===== *)
theory Task_Model
imports Memory_Pool
begin

text \<open>
  Tasks, their dependencies and their futures: \<open>core/task.{h,inl,cpp}\<close> and \<open>core/future.inl\<close>, and
  the operations of \<open>core/taskexecutor.{h,inl,cpp}\<close> as one thread runs them.

  A slot of the global task pool is named by its index (\<open>Memory_Pool\<close> relates indices and
  pointers). A \<open>Task\<close> holds its callable and a shared pointer to its state; states live in their own
  store because a \<open>Future\<close> keeps one alive after the task is destroyed. What a callable does is not
  part of these files: it is the argument \<open>run\<close>, which may change the whole executor state, because a
  callable may create and submit tasks. The two queues are lists; the concurrent queue may hand out any of its
  elements, and the argument \<open>pick\<close> makes that choice.
\<close>

section \<open>State\<close>

definition kTaskPoolSize :: nat where
  "kTaskPoolSize = 1024"

record 'v task_state =
  adjacencies :: "nat list"
  latch :: u16
  adjacenciesCount :: nat
  continuation :: bool
  fvalue :: "'v option"

record task =
  t_callable :: nat
  t_state :: "nat option"

datatype notification = Notify_All | Notify_One

record 'v executor =
  slots :: "nat \<Rightarrow> task option"
  states :: "nat \<Rightarrow> 'v task_state option"
  next_state :: nat
  task_pool :: pool
  thread_count :: nat
  readyQueue :: "nat list"
  readyQueueSize :: u64
  deletionQueue :: "nat list"
  signals :: "notification list"

type_synonym 'v runner = "nat \<Rightarrow> 'v executor \<Rightarrow> ('v \<times> 'v executor) res"

section \<open>Task handles\<close>

definition InternalHandleToPtr :: "nat \<Rightarrow> nat res" where
  "InternalHandleToPtr h =
     bind_res (ensure (MinSizeIndex_bool kTaskPoolSize \<lparr> msi_value = h \<rparr>)) (\<lambda>_.
     bind_res (ensure (h < kTaskPoolSize)) (\<lambda>_. Inr h))"

definition InternalPtrToHandle :: "nat \<Rightarrow> nat res" where
  "InternalPtrToHandle p =
     bind_res (ensure (MinSizeIndex_bool kTaskPoolSize \<lparr> msi_value = p \<rparr>)) (\<lambda>_.
     bind_res (ensure (p < kTaskPoolSize)) (\<lambda>_. Inr p))"

definition InternalAllocate :: "'v executor \<Rightarrow> (nat \<times> 'v executor) res" where
  "InternalAllocate s = bind_res (Allocate std_pop_heap kTaskPoolSize (task_pool s)) (\<lambda>(h, p).
     bind_res (ensure (MinSizeIndex_bool kTaskPoolSize h)) (\<lambda>_.
       Inr (msi_value h, s\<lparr> task_pool := p \<rparr>)))"

definition InternalFree :: "nat \<Rightarrow> 'v executor \<Rightarrow> 'v executor res" where
  "InternalFree h s =
     bind_res (ensure (MinSizeIndex_bool kTaskPoolSize \<lparr> msi_value = h \<rparr>)) (\<lambda>_.
     bind_res (ensure (h < kTaskPoolSize)) (\<lambda>_.
     bind_res (Free std_push_heap kTaskPoolSize \<lparr> msi_value = h \<rparr> (task_pool s)) (\<lambda>p.
       Inr (s\<lparr> task_pool := p \<rparr>))))"

text \<open>The task in a slot, and its state; using a slot that holds no task, or a null state pointer, is
  undefined in the source.\<close>

definition task_at :: "nat \<Rightarrow> 'v executor \<Rightarrow> task res" where
  "task_at p s = (case slots s p of None \<Rightarrow> Inl Undefined | Some t \<Rightarrow> Inr t)"

definition deref_state :: "nat option \<Rightarrow> 'v executor \<Rightarrow> (nat \<times> 'v task_state) res" where
  "deref_state sp s = (case sp of None \<Rightarrow> Inl Undefined
     | Some i \<Rightarrow> (case states s i of None \<Rightarrow> Inl Undefined | Some st \<Rightarrow> Inr (i, st)))"

definition set_state :: "nat \<Rightarrow> 'v task_state \<Rightarrow> 'v executor \<Rightarrow> 'v executor" where
  "set_state i st s = s\<lparr> states := (states s)(i \<mapsto> st) \<rparr>"

section \<open>Creating tasks and dependencies\<close>

text \<open>\<open>std::make_shared<FutureState>()\<close>: zero-initialised except for the latch.\<close>

definition fresh_state :: "'v task_state" where
  "fresh_state = \<lparr> adjacencies = replicate 128 (kInvalidIndex kTaskPoolSize), latch = 1,
     adjacenciesCount = 0, continuation = False, fvalue = None \<rparr>"

definition Task_construct :: "nat \<Rightarrow> nat \<Rightarrow> 'v executor \<Rightarrow> 'v executor" where
  "Task_construct p c s = (let i = next_state s in
     s\<lparr> slots := (slots s)(p \<mapsto> \<lparr> t_callable = c, t_state = Some i \<rparr>),
        states := (states s)(i \<mapsto> fresh_state), next_state := i + 1 \<rparr>)"

definition CreateTask :: "nat \<Rightarrow> 'v executor \<Rightarrow> (nat \<times> nat option \<times> 'v executor) res" where
  "CreateTask c s = bind_res (InternalAllocate s) (\<lambda>(h, s1).
     bind_res (InternalHandleToPtr h) (\<lambda>p.
       let s2 = Task_construct p c s1 in
       bind_res (task_at p s2) (\<lambda>t. Inr (h, t_state t, s2))))"

definition Task_AddDependency :: "nat \<Rightarrow> nat \<Rightarrow> bool \<Rightarrow> 'v executor \<Rightarrow> 'v executor res" where
  "Task_AddDependency a b isContinuation s =
     bind_res (task_at a s) (\<lambda>ta. bind_res (task_at b s) (\<lambda>tb.
     bind_res (ensure (t_state ta \<noteq> None)) (\<lambda>_.
     bind_res (ensure (t_state tb \<noteq> None)) (\<lambda>_.
     bind_res (ensure (a \<noteq> b)) (\<lambda>_.
     bind_res (deref_state (t_state ta) s) (\<lambda>(ia, sa).
     bind_res (InternalPtrToHandle b) (\<lambda>hb.
       let sa' = sa\<lparr> adjacencies := (adjacencies sa)[adjacenciesCount sa := hb],
                     adjacenciesCount := (adjacenciesCount sa + 1) mod 2 ^ 7 \<rparr>;
           s1 = set_state ia sa' s
       in bind_res (deref_state (t_state tb) s1) (\<lambda>(ib, sb).
            Inr (set_state ib (sb\<lparr> latch := latch sb + 1, continuation := isContinuation \<rparr>) s1)))))))))"

definition AddDependency :: "nat \<Rightarrow> nat \<Rightarrow> bool \<Rightarrow> 'v executor \<Rightarrow> 'v executor res" where
  "AddDependency a b isContinuation s =
     bind_res (ensure (MinSizeIndex_bool kTaskPoolSize \<lparr> msi_value = a \<rparr>)) (\<lambda>_.
     bind_res (ensure (MinSizeIndex_bool kTaskPoolSize \<lparr> msi_value = b \<rparr>)) (\<lambda>_.
     bind_res (ensure (a \<noteq> b)) (\<lambda>_.
     bind_res (InternalHandleToPtr a) (\<lambda>pa. bind_res (InternalHandleToPtr b) (\<lambda>pb.
       Task_AddDependency pa pb isContinuation s)))))"

section \<open>Running a task\<close>

text \<open>\<open>InternalInvoke\<close>: run the callable, store its value, bring the latch to zero.\<close>

definition InternalInvoke :: "'v runner \<Rightarrow> nat \<Rightarrow> nat option \<Rightarrow> 'v executor \<Rightarrow> 'v executor res" where
  "InternalInvoke run c sp s =
     bind_res (ensure (sp \<noteq> None)) (\<lambda>_.
     bind_res (run c s) (\<lambda>(v, s1).
     bind_res (deref_state sp s1) (\<lambda>(i, st).
       let counter = uint (latch st) - 1;
           s2 = set_state i (st\<lparr> fvalue := Some v, latch := latch st - 1 \<rparr>) s1
       in bind_res (ensure (counter = 0)) (\<lambda>_. Inr s2))))"

definition Task_call :: "'v runner \<Rightarrow> nat \<Rightarrow> 'v executor \<Rightarrow> 'v executor res" where
  "Task_call run p s = bind_res (task_at p s) (\<lambda>t.
     bind_res (ensure (t_state t \<noteq> None)) (\<lambda>_. InternalInvoke run (t_callable t) (t_state t) s))"

text \<open>\<open>~Task\<close>: the callable is destroyed and the state pointer reset.\<close>

definition Task_destroy :: "nat \<Rightarrow> 'v executor \<Rightarrow> 'v executor" where
  "Task_destroy p s = s\<lparr> slots := (slots s)(p := None) \<rparr>"

section \<open>The executor's operations\<close>

definition InternalSubmit :: "nat list \<Rightarrow> 'v executor \<Rightarrow> 'v executor" where
  "InternalSubmit hs s = s\<lparr> readyQueue := readyQueue s @ hs,
     readyQueueSize := readyQueueSize s + of_nat (length hs) \<rparr>"

definition Submit :: "nat list \<Rightarrow> bool \<Rightarrow> 'v executor \<Rightarrow> 'v executor" where
  "Submit hs wakeThreads s = (let s1 = InternalSubmit hs s; n = length hs in
     if wakeThreads \<and> n > 0
     then s1\<lparr> signals := signals s1 @ (if n \<ge> thread_count s then [Notify_All] else replicate n Notify_One) \<rparr>
     else s1)"

definition schedule_adjacent_one :: "nat \<Rightarrow> 'v executor \<Rightarrow> 'v executor res" where
  "schedule_adjacent_one adjacentHandle s =
     bind_res (InternalHandleToPtr adjacentHandle) (\<lambda>p.
     bind_res (task_at p s) (\<lambda>t.
     bind_res (ensure (t_state t \<noteq> None)) (\<lambda>_.
     bind_res (deref_state (t_state t) s) (\<lambda>(i, st).
       let old = uint (latch st);
           s1 = set_state i (st\<lparr> latch := latch st - 1 \<rparr>) s
       in Inr (if old - 1 = 1 then Submit [adjacentHandle] (\<not> continuation st) s1 else s1)))))"

fun schedule_adjacent_from :: "nat list \<Rightarrow> 'v executor \<Rightarrow> 'v executor res" where
  "schedule_adjacent_from [] s = Inr s"
| "schedule_adjacent_from (h # hs) s = bind_res (schedule_adjacent_one h s) (schedule_adjacent_from hs)"

definition InternalScheduleAdjacent :: "nat \<Rightarrow> 'v executor \<Rightarrow> 'v executor res" where
  "InternalScheduleAdjacent p s = bind_res (task_at p s) (\<lambda>t. bind_res (deref_state (t_state t) s) (\<lambda>(i, st).
     schedule_adjacent_from (take (adjacenciesCount st) (adjacencies st)) s))"

definition call_guard :: "nat \<Rightarrow> 'v executor \<Rightarrow> nat res" where
  "call_guard h s = bind_res (InternalHandleToPtr h) (\<lambda>p.
     bind_res (task_at p s) (\<lambda>t. bind_res (deref_state (t_state t) s) (\<lambda>(i, st).
     bind_res (ensure (latch st = 1)) (\<lambda>_. Inr p))))"

definition enqueue_deletion :: "nat \<Rightarrow> 'v executor \<Rightarrow> 'v executor" where
  "enqueue_deletion h s = s\<lparr> deletionQueue := deletionQueue s @ [h] \<rparr>"

definition InternalCall :: "'v runner \<Rightarrow> nat \<Rightarrow> 'v executor \<Rightarrow> 'v executor res" where
  "InternalCall run h s =
     bind_res (call_guard h s) (\<lambda>p.
     bind_res (Task_call run p s) (\<lambda>s1.
     bind_res (InternalScheduleAdjacent p s1) (\<lambda>s2. Inr (enqueue_deletion h s2))))"

definition InternalTryDelete :: "nat \<Rightarrow> 'v executor \<Rightarrow> (bool \<times> 'v executor) res" where
  "InternalTryDelete h s =
     bind_res (InternalHandleToPtr h) (\<lambda>p. bind_res (task_at p s) (\<lambda>t.
     bind_res (ensure (t_state t \<noteq> None)) (\<lambda>_.
     bind_res (deref_state (t_state t) s) (\<lambda>(i, st).
       if latch st = 0
       then bind_res (InternalFree h (Task_destroy p s)) (\<lambda>s'. Inr (True, s'))
       else Inr (False, s)))))"

text \<open>The deletion queue is drained into a local vector of the tasks still to be deleted.\<close>

fun purge_loop :: "nat list \<Rightarrow> 'v executor \<Rightarrow> nat list \<Rightarrow> (nat list \<times> 'v executor) res" where
  "purge_loop [] s keep = Inr (keep, s)"
| "purge_loop (h # hs) s keep = bind_res (InternalTryDelete h s) (\<lambda>(gone, s').
     purge_loop hs s' (if gone then keep else keep @ [h]))"

definition InternalPurgeDeletionQueue :: "'v executor \<Rightarrow> 'v executor res" where
  "InternalPurgeDeletionQueue s =
     bind_res (purge_loop (deletionQueue s) (s\<lparr> deletionQueue := [] \<rparr>) []) (\<lambda>(keep, s').
       Inr (s'\<lparr> deletionQueue := deletionQueue s' @ keep \<rparr>))"

definition try_dequeue_ready :: "(nat list \<Rightarrow> nat) \<Rightarrow> 'v executor \<Rightarrow> (nat \<times> 'v executor) option" where
  "try_dequeue_ready pick s = (case readyQueue s of [] \<Rightarrow> None
     | q \<Rightarrow> let i = pick q mod length q in
        Some (q ! i, s\<lparr> readyQueue := erase_at i q, readyQueueSize := readyQueueSize s - 1 \<rparr>))"

definition JoinOne :: "'v runner \<Rightarrow> (nat list \<Rightarrow> nat) \<Rightarrow> 'v executor \<Rightarrow> 'v executor res" where
  "JoinOne run pick s = (case try_dequeue_ready pick s of None \<Rightarrow> Inr s
     | Some (h, s1) \<Rightarrow> bind_res (InternalCall run h s1) InternalPurgeDeletionQueue)"

text \<open>\<open>InternalProcessReadyQueue\<close> runs until the queue is empty, which callables may refill for
  ever; \<open>fuel\<close> bounds the number of tasks run and \<open>None\<close> is a loop still running.\<close>

fun InternalProcessReadyQueue :: "nat \<Rightarrow> 'v runner \<Rightarrow> (nat list \<Rightarrow> nat) \<Rightarrow> 'v executor \<Rightarrow> 'v executor res option" where
  "InternalProcessReadyQueue 0 run pick s = (if readyQueue s = [] then Some (Inr s) else None)"
| "InternalProcessReadyQueue (Suc n) run pick s = (case try_dequeue_ready pick s of None \<Rightarrow> Some (Inr s)
     | Some (h, s1) \<Rightarrow> (case bind_res (InternalCall run h s1) InternalPurgeDeletionQueue of
          Inl e \<Rightarrow> Some (Inl e)
        | Inr s2 \<Rightarrow> InternalProcessReadyQueue n run pick s2))"

section \<open>Futures\<close>

text \<open>A future is its shared pointer, a state id or null. Moving copies the pointer, as the code does.\<close>

type_synonym future = "nat option"

definition Future_move :: "future \<Rightarrow> future \<times> future" where
  "Future_move other = (other, other)"

definition Future_Valid :: "future \<Rightarrow> bool" where
  "Future_Valid f \<longleftrightarrow> f \<noteq> None"

definition Future_IsReady :: "future \<Rightarrow> 'v executor \<Rightarrow> bool res" where
  "Future_IsReady f s = bind_res (ensure (Future_Valid f)) (\<lambda>_.
     bind_res (deref_state f s) (\<lambda>(i, st). Inr (latch st = 0)))"

text \<open>\<open>Wait\<close> returns only when the latch is zero: \<open>None\<close> is a caller that blocks in this state.\<close>

definition Future_Wait :: "future \<Rightarrow> 'v executor \<Rightarrow> unit res option" where
  "Future_Wait f s = (case bind_res (ensure (Future_Valid f)) (\<lambda>_. deref_state f s) of
     Inl e \<Rightarrow> Some (Inl e) | Inr (i, st) \<Rightarrow> if latch st = 0 then Some (Inr ()) else None)"

definition Future_Get :: "future \<Rightarrow> 'v executor \<Rightarrow> 'v option res option" where
  "Future_Get f s = (case Future_Wait f s of None \<Rightarrow> None
     | Some (Inl e) \<Rightarrow> Some (Inl e)
     | Some (Inr _) \<Rightarrow> Some (bind_res (deref_state f s) (\<lambda>(i, st). Inr (fvalue st))))"

text \<open>\<open>Join\<close> helps with the ready queue until the future is ready, then gets its value.\<close>

fun Join :: "nat \<Rightarrow> 'v runner \<Rightarrow> (nat list \<Rightarrow> nat) \<Rightarrow> future \<Rightarrow> 'v executor
    \<Rightarrow> ('v option option \<times> 'v executor) res option" where
  "Join 0 run pick f s = None"
| "Join (Suc n) run pick f s =
     (if \<not> Future_Valid f then Some (Inr (None, s))
      else (case Future_IsReady f s of Inl e \<Rightarrow> Some (Inl e)
        | Inr rdy \<Rightarrow>
           (case (if rdy then None else try_dequeue_ready pick s) of
              None \<Rightarrow> (case Future_Get f s of None \<Rightarrow> None
                 | Some (Inl e) \<Rightarrow> Some (Inl e) | Some (Inr v) \<Rightarrow> Some (Inr (Some v, s)))
            | Some (h, s1) \<Rightarrow> (case bind_res (InternalCall run h s1) InternalPurgeDeletionQueue of
                 Inl e \<Rightarrow> Some (Inl e) | Inr s2 \<Rightarrow> Join n run pick f s2))))"

end
