(* ===== verification/Task_Interleaving.thy ===== *)
theory Task_Interleaving
imports Task_Model
begin

text \<open>
  The worker threads of \<open>core/taskexecutor.cpp\<close> interleaved on one task graph. A worker of
  \<open>InternalProcessReadyQueue\<close> dequeues any ready task, checks it and runs it, signals its adjacent tasks one latch
  at a time, enqueues it for deletion and purges; each of those accesses is one step, and the steps
  of different workers interleave freely. Running a callable with the store of its value and the decrement of its own
  latch is one step, and so is one try to delete a task: between the accesses within such a step
  no other worker uses the task, which it alone holds. Sleeping on the condition variable and its notifications are not
  modelled: an idle worker may look at the queues at any time. The steps are the functions of \<open>Task_Model\<close>. Two ghost
  fields record which tasks have run, in order, and how many adjacencies of each have been signalled.
\<close>

section \<open>Workers\<close>

datatype worker = WIdle | WCalled nat | WRunning nat | WScheduling nat nat

record 'v system =
  ex :: "'v executor"
  workers :: "worker list"
  executed :: "nat list"
  prog :: "nat \<Rightarrow> nat"

datatype worker_choice = Dequeue nat | Advance | Purge nat

definition task_state_of :: "nat \<Rightarrow> 'v executor \<Rightarrow> (nat \<times> 'v task_state) option" where
  "task_state_of h s = (case slots s h of None \<Rightarrow> None | Some t \<Rightarrow>
     (case t_state t of None \<Rightarrow> None | Some i \<Rightarrow> map_option (Pair i) (states s i)))"

definition successors :: "'v task_state \<Rightarrow> nat list" where
  "successors st = take (adjacenciesCount st) (adjacencies st)"

definition step_dequeue :: "nat \<Rightarrow> nat \<Rightarrow> 'v system \<Rightarrow> 'v system res option" where
  "step_dequeue w i \<sigma> = (let s = ex \<sigma> in
     if i < length (readyQueue s)
     then Some (Inr (\<sigma>\<lparr> ex := s\<lparr> readyQueue := erase_at i (readyQueue s), readyQueueSize := readyQueueSize s - 1 \<rparr>,
                        workers := (workers \<sigma>)[w := WCalled (readyQueue s ! i)] \<rparr>))
     else None)"

definition step_guard :: "nat \<Rightarrow> nat \<Rightarrow> 'v system \<Rightarrow> 'v system res" where
  "step_guard w h \<sigma> = bind_res (call_guard h (ex \<sigma>)) (\<lambda>p.
     Inr (\<sigma>\<lparr> workers := (workers \<sigma>)[w := WRunning h] \<rparr>))"

definition step_invoke :: "'v runner \<Rightarrow> nat \<Rightarrow> nat \<Rightarrow> 'v system \<Rightarrow> 'v system res" where
  "step_invoke run w h \<sigma> = bind_res (Task_call run h (ex \<sigma>)) (\<lambda>s.
     Inr (\<sigma>\<lparr> ex := s, workers := (workers \<sigma>)[w := WScheduling h 0], executed := executed \<sigma> @ [h] \<rparr>))"

definition step_schedule :: "nat \<Rightarrow> nat \<Rightarrow> nat \<Rightarrow> 'v system \<Rightarrow> 'v system res" where
  "step_schedule w h i \<sigma> = (let s = ex \<sigma> in
     bind_res (task_at h s) (\<lambda>t. bind_res (deref_state (t_state t) s) (\<lambda>(k, st).
       if i < length (successors st)
       then bind_res (schedule_adjacent_one (successors st ! i) s) (\<lambda>s'.
              Inr (\<sigma>\<lparr> ex := s', workers := (workers \<sigma>)[w := WScheduling h (i + 1)],
                      prog := (prog \<sigma>)(h := i + 1) \<rparr>))
       else Inr (\<sigma>\<lparr> ex := enqueue_deletion h s, workers := (workers \<sigma>)[w := WIdle] \<rparr>))))"

definition step_purge :: "nat \<Rightarrow> 'v system \<Rightarrow> 'v system res option" where
  "step_purge i \<sigma> = (let s = ex \<sigma>; q = deletionQueue s in
     if i < length q
     then Some (bind_res (InternalTryDelete (q ! i) (s\<lparr> deletionQueue := erase_at i q \<rparr>)) (\<lambda>(gone, s').
            Inr (\<sigma>\<lparr> ex := (if gone then s' else enqueue_deletion (q ! i) s') \<rparr>)))
     else None)"

definition worker_step :: "'v runner \<Rightarrow> nat \<Rightarrow> worker_choice \<Rightarrow> 'v system \<Rightarrow> 'v system res option" where
  "worker_step run w ch \<sigma> = (if w < length (workers \<sigma>) then
     (case (ch, workers \<sigma> ! w) of
        (Dequeue i, WIdle) \<Rightarrow> step_dequeue w i \<sigma>
      | (Purge i, WIdle) \<Rightarrow> step_purge i \<sigma>
      | (Advance, WCalled h) \<Rightarrow> Some (step_guard w h \<sigma>)
      | (Advance, WRunning h) \<Rightarrow> Some (step_invoke run w h \<sigma>)
      | (Advance, WScheduling h i) \<Rightarrow> Some (step_schedule w h i \<sigma>)
      | _ \<Rightarrow> None) else None)"

section \<open>The graph and the invariant\<close>

text \<open>\<open>G h\<close> are the adjacencies of task \<open>h\<close>; \<open>remaining\<close> counts the edges into a task that have not
  been signalled.\<close>

definition remaining :: "nat set \<Rightarrow> (nat \<Rightarrow> nat list) \<Rightarrow> (nat \<Rightarrow> nat) \<Rightarrow> nat \<Rightarrow> nat" where
  "remaining V G pr h = (\<Sum>a\<in>V. count_list (drop (pr a) (G a)) h)"

fun holds :: "nat \<Rightarrow> worker \<Rightarrow> bool" where
  "holds h (WCalled g) = (g = h)"
| "holds h (WRunning g) = (g = h)"
| "holds h _ = False"

fun schedules :: "nat \<Rightarrow> worker \<Rightarrow> bool" where
  "schedules h (WScheduling g i) = (g = h)"
| "schedules h _ = False"

definition tokens :: "nat \<Rightarrow> 'v system \<Rightarrow> nat" where
  "tokens h \<sigma> = count_list (readyQueue (ex \<sigma>)) h + length (filter (holds h) (workers \<sigma>))"

definition leftovers :: "nat \<Rightarrow> 'v system \<Rightarrow> nat" where
  "leftovers h \<sigma> = count_list (deletionQueue (ex \<sigma>)) h + length (filter (schedules h) (workers \<sigma>))"

definition static_graph :: "nat set \<Rightarrow> (nat \<Rightarrow> nat list) \<Rightarrow> bool" where
  "static_graph V G \<longleftrightarrow> finite V \<and> V \<subseteq> {..<kTaskPoolSize} \<and> (\<forall>h\<in>V. set (G h) \<subseteq> V)"

definition store_inv :: "'v executor \<Rightarrow> bool" where
  "store_inv s \<longleftrightarrow> pool_inv kTaskPoolSize (task_pool s)
     \<and> (\<forall>h. task_state_of h s \<noteq> None \<longrightarrow> h \<notin> free_set (task_pool s))
     \<and> (\<forall>h g i st su. task_state_of h s = Some (i, st) \<longrightarrow> task_state_of g s = Some (i, su) \<longrightarrow> h = g)"

definition latch_inv :: "nat set \<Rightarrow> (nat \<Rightarrow> nat list) \<Rightarrow> 'v system \<Rightarrow> bool" where
  "latch_inv V G \<sigma> \<longleftrightarrow> (\<forall>h\<in>V. case task_state_of h (ex \<sigma>) of
     None \<Rightarrow> h \<in> set (executed \<sigma>)
   | Some (i, st) \<Rightarrow> successors st = G h
       \<and> unat (latch st) = (if h \<in> set (executed \<sigma>) then 0 else 1 + remaining V G (prog \<sigma>) h))"

definition token_inv :: "nat set \<Rightarrow> (nat \<Rightarrow> nat list) \<Rightarrow> 'v system \<Rightarrow> bool" where
  "token_inv V G \<sigma> \<longleftrightarrow> (\<forall>h. tokens h \<sigma> =
     (if h \<in> V \<and> h \<notin> set (executed \<sigma>) \<and> remaining V G (prog \<sigma>) h = 0 then 1 else 0))"

definition leftover_inv :: "'v system \<Rightarrow> bool" where
  "leftover_inv \<sigma> \<longleftrightarrow> (\<forall>h. leftovers h \<sigma> =
     (if h \<in> set (executed \<sigma>) \<and> task_state_of h (ex \<sigma>) \<noteq> None then 1 else 0))"

definition progress_inv :: "(nat \<Rightarrow> nat list) \<Rightarrow> 'v system \<Rightarrow> bool" where
  "progress_inv G \<sigma> \<longleftrightarrow>
     (\<forall>h. h \<notin> set (executed \<sigma>) \<longrightarrow> prog \<sigma> h = 0)
   \<and> (\<forall>w<length (workers \<sigma>). \<forall>h i. workers \<sigma> ! w = WScheduling h i \<longrightarrow> h \<in> set (executed \<sigma>) \<and> prog \<sigma> h = i \<and> i \<le> length (G h))
   \<and> (\<forall>h. h \<in> set (executed \<sigma>) \<and> filter (schedules h) (workers \<sigma>) = [] \<longrightarrow> prog \<sigma> h = length (G h))"

definition trace_inv :: "nat set \<Rightarrow> (nat \<Rightarrow> nat list) \<Rightarrow> 'v system \<Rightarrow> bool" where
  "trace_inv V G \<sigma> \<longleftrightarrow> distinct (executed \<sigma>) \<and> set (executed \<sigma>) \<subseteq> V
     \<and> (\<forall>h\<in>set (executed \<sigma>). remaining V G (prog \<sigma>) h = 0)
     \<and> (\<forall>xs h ys. executed \<sigma> = xs @ h # ys \<longrightarrow> (\<forall>a\<in>V. h \<in> set (G a) \<longrightarrow> a \<in> set xs))"

definition system_inv :: "nat set \<Rightarrow> (nat \<Rightarrow> nat list) \<Rightarrow> 'v system \<Rightarrow> bool" where
  "system_inv V G \<sigma> \<longleftrightarrow> static_graph V G \<and> store_inv (ex \<sigma>) \<and> latch_inv V G \<sigma> \<and> token_inv V G \<sigma>
     \<and> leftover_inv \<sigma> \<and> progress_inv G \<sigma> \<and> trace_inv V G \<sigma>
     \<and> readyQueueSize (ex \<sigma>) = of_nat (length (readyQueue (ex \<sigma>)))"

lemmas system_inv_defs = system_inv_def store_inv_def latch_inv_def token_inv_def leftover_inv_def
  progress_inv_def trace_inv_def

section \<open>Lemmas about the parts of a step\<close>

lemma kTaskPoolSize_small: "kTaskPoolSize < 2 ^ 31"
  by (simp add: kTaskPoolSize_def)

lemma valid_handle: "h < kTaskPoolSize \<Longrightarrow> MinSizeIndex_bool kTaskPoolSize \<lparr> msi_value = h \<rparr>"
  using index_below_invalid(1) [OF kTaskPoolSize_small] by (auto simp: MinSizeIndex_bool_def)

lemma InternalHandleToPtr_ok: "h < kTaskPoolSize \<Longrightarrow> InternalHandleToPtr h = Inr h"
  by (simp add: InternalHandleToPtr_def valid_handle)

lemma InternalPtrToHandle_ok: "h < kTaskPoolSize \<Longrightarrow> InternalPtrToHandle h = Inr h"
  by (simp add: InternalPtrToHandle_def valid_handle)

lemma task_state_ofD:
  assumes "task_state_of h s = Some (i, st)"
  obtains t where "task_at h s = Inr t" "t_state t = Some i" "deref_state (Some i) s = Inr (i, st)"
  using assms by (auto simp: task_state_of_def task_at_def deref_state_def split: option.splits)

lemma task_state_of_set:
  assumes "store_inv s" "task_state_of h s = Some (i, st)"
  shows "task_state_of g (set_state i st' s) = (if g = h then Some (i, st') else task_state_of g s)"
proof (cases "g = h")
  case True
  then show ?thesis using assms(2)
    by (auto simp: task_state_of_def set_state_def split: option.splits)
next
  case False
  have "task_state_of g s \<noteq> Some (i, st)" using assms False unfolding store_inv_def by blast
  moreover have "states s i = Some st" using assms(2) by (auto simp: task_state_of_def split: option.splits)
  ultimately show ?thesis using False
    by (auto simp: task_state_of_def set_state_def split: option.splits)
qed

lemma store_inv_set:
  assumes "store_inv s" "task_state_of h s = Some (i, st)"
  shows "store_inv (set_state i st' s)"
proof -
  have "task_pool (set_state i st' s) = task_pool s" by (simp add: set_state_def)
  then show ?thesis using assms(1,2)
    unfolding store_inv_def task_state_of_set [OF assms] by (auto split: if_splits)
qed

lemma remaining_signal:
  assumes "finite V" "h \<in> V" "pr h < length (G h)"
  shows "remaining V G pr x = remaining V G (pr(h := pr h + 1)) x + (if x = G h ! pr h then 1 else 0)"
proof -
  have d: "drop (pr h) (G h) = (G h ! pr h) # drop (pr h + 1) (G h)"
    using assms(3) by (simp add: Cons_nth_drop_Suc)
  have "(\<Sum>a\<in>V - {h}. count_list (drop (pr a) (G a)) x) = (\<Sum>a\<in>V - {h}. count_list (drop ((pr(h := pr h + 1)) a) (G a)) x)"
    by (rule sum.cong) auto
  then show ?thesis
    unfolding remaining_def sum.remove [OF assms(1,2)] by (simp add: d)
qed

lemma remaining_edge:
  assumes "finite V" "a \<in> V" "remaining V G pr h = 0" "h \<in> set (G a)"
  shows "pr a \<noteq> 0"
proof
  assume "pr a = 0"
  have "count_list (drop (pr a) (G a)) h = 0"
    using assms(1-3) by (simp add: remaining_def)
  then show False using assms(4) \<open>pr a = 0\<close> by (simp add: count_list_0_iff)
qed

lemma count_list_erase_at:
  "i < length xs \<Longrightarrow> count_list xs h = count_list (erase_at i xs) h + (if xs ! i = h then 1 else 0)"
proof -
  assume "i < length xs"
  then have "xs = take i xs @ xs ! i # drop (Suc i) xs" by (rule id_take_nth_drop)
  then have "count_list xs h = count_list (take i xs @ xs ! i # drop (Suc i) xs) h" by simp
  then show ?thesis by (simp add: erase_at_def)
qed

text \<open>The number of workers of a kind when one worker moves.\<close>

lemma workers_move:
  "w < length ws \<Longrightarrow> length (filter P (ws[w := x])) + (if P (ws ! w) then 1 else 0)
     = length (filter P ws) + (if P x then 1 else 0)"
  by (rule filter_update_length)

lemma filter_update_same:
  assumes "w < length ws" "\<not> P (ws ! w)" "\<not> P x"
  shows "filter P (ws[w := x]) = filter P ws"
proof -
  have "ws = take w ws @ ws ! w # drop (Suc w) ws" using assms(1) by (rule id_take_nth_drop)
  then have "filter P ws = filter P (take w ws) @ filter P (drop (Suc w) ws)"
    using assms(2) by (metis filter.simps(2) filter_append)
  then show ?thesis using assms(1,3) by (simp add: upd_conv_take_nth_drop)
qed

lemma token_task:
  assumes "system_inv V G \<sigma>" "tokens h \<sigma> \<noteq> 0"
  shows "h \<in> V" "h \<notin> set (executed \<sigma>)" "remaining V G (prog \<sigma>) h = 0" "tokens h \<sigma> = 1"
  using assms by (auto simp: system_inv_def token_inv_def split: if_splits)

lemma leftover_eq:
  "system_inv V G \<sigma> \<Longrightarrow> leftovers h \<sigma> = (if h \<in> set (executed \<sigma>) \<and> task_state_of h (ex \<sigma>) \<noteq> None then 1 else 0)"
  unfolding system_inv_def leftover_inv_def by blast

lemma latch_at:
  "system_inv V G \<sigma> \<Longrightarrow> h \<in> V \<Longrightarrow> case task_state_of h (ex \<sigma>) of
     None \<Rightarrow> h \<in> set (executed \<sigma>)
   | Some (i, st) \<Rightarrow> successors st = G h
       \<and> unat (latch st) = (if h \<in> set (executed \<sigma>) then 0 else 1 + remaining V G (prog \<sigma>) h)"
  unfolding system_inv_def latch_inv_def by blast

lemma unran_state:
  assumes "system_inv V G \<sigma>" "h \<in> V" "h \<notin> set (executed \<sigma>)"
  obtains i st where "task_state_of h (ex \<sigma>) = Some (i, st)" "successors st = G h"
    "unat (latch st) = 1 + remaining V G (prog \<sigma>) h"
  using assms by (cases "task_state_of h (ex \<sigma>)") (auto simp: system_inv_def latch_inv_def)

section \<open>Every step succeeds and keeps the invariant\<close>

definition quiet_runner :: "'v runner \<Rightarrow> bool" where
  "quiet_runner run \<longleftrightarrow> (\<forall>c s. \<exists>v. run c s = Inr (v, s))"

lemma holds_workers_zero: "tokens h \<sigma> = 0 \<Longrightarrow> w < length (workers \<sigma>) \<Longrightarrow> \<not> holds h (workers \<sigma> ! w)"
  by (auto simp: tokens_def filter_empty_conv)

lemma holder_token: "w < length (workers \<sigma>) \<Longrightarrow> holds h (workers \<sigma> ! w) \<Longrightarrow> tokens h \<sigma> \<noteq> 0"
  using holds_workers_zero by blast

lemma task_state_of_cong:
  assumes "slots s' = slots s" "states s' = states s"
  shows "task_state_of h s' = task_state_of h s"
  unfolding task_state_of_def assms ..

lemma store_inv_cong:
  assumes "slots s' = slots s" "states s' = states s" "task_pool s' = task_pool s" "store_inv s"
  shows "store_inv s'"
  using assms(4) unfolding store_inv_def task_state_of_cong [OF assms(1,2)] assms(3) .

text \<open>Steps that leave the task store, the ghost fields and the counts alone.\<close>

lemma system_inv_frame:
  assumes inv: "system_inv V G \<sigma>"
    and same: "slots (ex \<sigma>') = slots (ex \<sigma>)" "states (ex \<sigma>') = states (ex \<sigma>)"
      "task_pool (ex \<sigma>') = task_pool (ex \<sigma>)" "executed \<sigma>' = executed \<sigma>" "prog \<sigma>' = prog \<sigma>"
      "\<And>h. tokens h \<sigma>' = tokens h \<sigma>" "\<And>h. leftovers h \<sigma>' = leftovers h \<sigma>"
    and "progress_inv G \<sigma>'" "readyQueueSize (ex \<sigma>') = of_nat (length (readyQueue (ex \<sigma>')))"
  shows "system_inv V G \<sigma>'"
proof -
  have "store_inv (ex \<sigma>')" using inv
    unfolding system_inv_def store_inv_def task_state_of_cong [OF same(1,2)] same(3) by blast
  moreover have "latch_inv V G \<sigma>'" "token_inv V G \<sigma>'" "leftover_inv \<sigma>'" "trace_inv V G \<sigma>'" using inv
    unfolding system_inv_def latch_inv_def token_inv_def leftover_inv_def trace_inv_def
      task_state_of_cong [OF same(1,2)] same by blast+
  ultimately show ?thesis using inv assms(9,10) by (simp add: system_inv_def)
qed

lemma step_dequeue_ok:
  assumes inv: "system_inv V G \<sigma>" and w: "w < length (workers \<sigma>)" "workers \<sigma> ! w = WIdle"
    and st: "step_dequeue w i \<sigma> = Some r"
  shows "\<exists>\<sigma>'. r = Inr \<sigma>' \<and> system_inv V G \<sigma>' \<and> length (workers \<sigma>') = length (workers \<sigma>)"
proof -
  let ?q = "readyQueue (ex \<sigma>)"
  let ?\<sigma> = "\<sigma>\<lparr> ex := (ex \<sigma>)\<lparr> readyQueue := erase_at i ?q, readyQueueSize := readyQueueSize (ex \<sigma>) - 1 \<rparr>,
    workers := (workers \<sigma>)[w := WCalled (?q ! i)] \<rparr>"
  have i: "i < length ?q" and r: "r = Inr ?\<sigma>" using st by (auto simp: step_dequeue_def Let_def split: if_splits)
  have tok: "tokens h ?\<sigma> = tokens h \<sigma>" for h
    using workers_move [OF w(1), of "holds h" "WCalled (?q ! i)"] w(2) count_list_erase_at [OF i, of h]
    by (simp add: tokens_def split: if_splits)
  have sch: "filter (schedules h) (workers ?\<sigma>) = filter (schedules h) (workers \<sigma>)" for h
    using w by (simp add: filter_update_same)
  have "readyQueueSize (ex ?\<sigma>) = of_nat (length (readyQueue (ex ?\<sigma>)))"
    using inv i by (simp add: system_inv_def of_nat_diff)
  moreover have "progress_inv G ?\<sigma>"
    using inv sch w by (auto simp: system_inv_def progress_inv_def nth_list_update)
  ultimately have "system_inv V G ?\<sigma>"
    using tok sch by (intro system_inv_frame [OF inv]) (simp_all add: leftovers_def)
  then show ?thesis using r by simp
qed

lemma held_task:
  assumes inv: "system_inv V G \<sigma>" and w: "w < length (workers \<sigma>)" "holds h (workers \<sigma> ! w)"
  obtains i st where "h \<in> V" "h < kTaskPoolSize" "h \<notin> set (executed \<sigma>)" "remaining V G (prog \<sigma>) h = 0" "tokens h \<sigma> = 1"
    "task_state_of h (ex \<sigma>) = Some (i, st)" "successors st = G h" "latch st = 1"
proof -
  note t = token_task [OF inv holder_token [OF w]]
  obtain i st where st: "task_state_of h (ex \<sigma>) = Some (i, st)" "successors st = G h"
    "unat (latch st) = 1 + remaining V G (prog \<sigma>) h"
    using unran_state [OF inv t(1,2)] .
  then have "latch st = 1" using t(3) by (simp add: word_unat_eq_iff)
  moreover have "h < kTaskPoolSize" using t(1) inv by (auto simp: system_inv_def static_graph_def)
  ultimately show ?thesis using that t st by blast
qed

lemma step_guard_ok:
  assumes inv: "system_inv V G \<sigma>" and w: "w < length (workers \<sigma>)" "workers \<sigma> ! w = WCalled h"
  shows "\<exists>\<sigma>'. step_guard w h \<sigma> = Inr \<sigma>' \<and> system_inv V G \<sigma>' \<and> length (workers \<sigma>') = length (workers \<sigma>)"
proof -
  let ?\<sigma> = "\<sigma>\<lparr> workers := (workers \<sigma>)[w := WRunning h] \<rparr>"
  obtain i st where h: "h < kTaskPoolSize" "task_state_of h (ex \<sigma>) = Some (i, st)" "latch st = 1"
    by (rule held_task [OF inv w(1), of h]) (simp_all add: w(2))
  obtain t where "task_at h (ex \<sigma>) = Inr t" "t_state t = Some i" "deref_state (Some i) (ex \<sigma>) = Inr (i, st)"
    using task_state_ofD [OF h(2)] .
  then have run: "step_guard w h \<sigma> = Inr ?\<sigma>"
    using h by (simp add: step_guard_def call_guard_def InternalHandleToPtr_ok)
  have tok: "tokens g ?\<sigma> = tokens g \<sigma>" for g
    using workers_move [OF w(1), of "holds g" "WRunning h"] w(2) by (simp add: tokens_def split: if_splits)
  have sch: "filter (schedules g) (workers ?\<sigma>) = filter (schedules g) (workers \<sigma>)" for g
    using w by (simp add: filter_update_same)
  have "progress_inv G ?\<sigma>"
    using inv sch w by (auto simp: system_inv_def progress_inv_def nth_list_update)
  then have "system_inv V G ?\<sigma>"
    using tok sch inv by (intro system_inv_frame [OF inv]) (simp_all add: leftovers_def system_inv_def)
  then show ?thesis using run by simp
qed

lemma token_inv_ran:
  assumes "token_inv V G \<sigma>" "\<And>g. g \<noteq> h \<Longrightarrow> tokens g \<sigma>' = tokens g \<sigma>" "tokens h \<sigma>' = 0"
    "executed \<sigma>' = executed \<sigma> @ [h]" "prog \<sigma>' = prog \<sigma>"
  shows "token_inv V G \<sigma>'"
  unfolding token_inv_def
proof
  fix g
  show "tokens g \<sigma>' = (if g \<in> V \<and> g \<notin> set (executed \<sigma>') \<and> remaining V G (prog \<sigma>') g = 0 then 1 else 0)"
    using assms by (cases "g = h") (simp_all add: token_inv_def)
qed

lemma trace_inv_ran:
  assumes "trace_inv V G \<sigma>" "static_graph V G" "h \<in> V" "h \<notin> set (executed \<sigma>)" "remaining V G (prog \<sigma>) h = 0"
    "\<And>a. a \<notin> set (executed \<sigma>) \<Longrightarrow> prog \<sigma> a = 0" "executed \<sigma>' = executed \<sigma> @ [h]" "prog \<sigma>' = prog \<sigma>"
  shows "trace_inv V G \<sigma>'"
proof -
  have pred: "a \<in> set (executed \<sigma>)" if "a \<in> V" "h \<in> set (G a)" for a
    using remaining_edge [OF _ that(1) assms(5) that(2)] assms(2) assms(6) [of a]
    by (cases "a \<in> set (executed \<sigma>)") (auto simp: static_graph_def)
  have "a \<in> set xs" if "executed \<sigma> @ [h] = xs @ g # ys" "a \<in> V" "g \<in> set (G a)" for xs g ys a
  proof (cases ys rule: rev_cases)
    case Nil
    then show ?thesis using that pred by auto
  next
    case (snoc zs z)
    then have "executed \<sigma> = xs @ g # zs" using that(1) by simp
    then show ?thesis using assms(1) that(2,3) by (auto simp: trace_inv_def)
  qed
  then show ?thesis using assms by (auto simp: trace_inv_def)
qed

lemma step_invoke_ok:
  assumes inv: "system_inv V G \<sigma>" and w: "w < length (workers \<sigma>)" "workers \<sigma> ! w = WRunning h"
    and run: "quiet_runner run"
  shows "\<exists>\<sigma>'. step_invoke run w h \<sigma> = Inr \<sigma>' \<and> system_inv V G \<sigma>' \<and> length (workers \<sigma>') = length (workers \<sigma>)"
proof -
  obtain i st where h: "h \<in> V" "h \<notin> set (executed \<sigma>)" "remaining V G (prog \<sigma>) h = 0" "tokens h \<sigma> = 1"
    "task_state_of h (ex \<sigma>) = Some (i, st)" "successors st = G h" "latch st = 1"
    by (rule held_task [OF inv w(1), of h]) (simp_all add: w(2))
  obtain t where t: "task_at h (ex \<sigma>) = Inr t" "t_state t = Some i" "deref_state (Some i) (ex \<sigma>) = Inr (i, st)"
    using task_state_ofD [OF h(5)] .
  obtain v where v: "run (t_callable t) (ex \<sigma>) = Inr (v, ex \<sigma>)" using run by (auto simp: quiet_runner_def)
  let ?st = "st\<lparr> fvalue := Some v, latch := 0 \<rparr>"
  let ?\<sigma> = "\<sigma>\<lparr> ex := set_state i ?st (ex \<sigma>), workers := (workers \<sigma>)[w := WScheduling h 0], executed := executed \<sigma> @ [h] \<rparr>"
  have step: "step_invoke run w h \<sigma> = Inr ?\<sigma>"
    using t v h(7) by (simp add: step_invoke_def Task_call_def InternalInvoke_def Let_def)
  have store: "store_inv (ex \<sigma>)" using inv by (simp add: system_inv_def)
  have ts: "task_state_of g (ex ?\<sigma>) = (if g = h then Some (i, ?st) else task_state_of g (ex \<sigma>))" for g
    by (simp add: task_state_of_set [OF store h(5)])
  have q: "readyQueue (ex ?\<sigma>) = readyQueue (ex \<sigma>)" "deletionQueue (ex ?\<sigma>) = deletionQueue (ex \<sigma>)"
    "readyQueueSize (ex ?\<sigma>) = readyQueueSize (ex \<sigma>)" by (simp_all add: set_state_def)
  have tok: "tokens g ?\<sigma> = (if g = h then 0 else tokens g \<sigma>)" for g
    using workers_move [OF w(1), of "holds g" "WScheduling h 0"] w(2) h(4) q
    by (simp add: tokens_def split: if_splits del: length_0_conv)
  have z: "leftovers h \<sigma> = 0" using leftover_eq [OF inv, of h] h(2) by simp
  have lo: "leftovers g ?\<sigma> = (if g = h then 1 else leftovers g \<sigma>)" for g
    using workers_move [OF w(1), of "schedules g" "WScheduling h 0"] w(2) z q
    by (simp add: leftovers_def split: if_splits)
  have p0: "\<And>a. a \<notin> set (executed \<sigma>) \<Longrightarrow> prog \<sigma> a = 0" using inv by (simp add: system_inv_def progress_inv_def)
  have "latch_inv V G ?\<sigma>"
  proof (unfold latch_inv_def, intro ballI)
    fix g assume "g \<in> V"
    from latch_at [OF inv this]
    show "case task_state_of g (ex ?\<sigma>) of None \<Rightarrow> g \<in> set (executed ?\<sigma>)
      | Some (i, su) \<Rightarrow> successors su = G g
         \<and> unat (latch su) = (if g \<in> set (executed ?\<sigma>) then 0 else 1 + remaining V G (prog ?\<sigma>) g)"
      unfolding ts using h(6) by (cases "g = h") (auto simp: successors_def split: option.splits)
  qed
  moreover have "token_inv V G ?\<sigma>"
    using inv tok by (intro token_inv_ran [of V G \<sigma> h ?\<sigma>]) (simp_all add: system_inv_def)
  moreover have "leftover_inv ?\<sigma>"
  proof (unfold leftover_inv_def, intro allI)
    fix g
    show "leftovers g ?\<sigma> = (if g \<in> set (executed ?\<sigma>) \<and> task_state_of g (ex ?\<sigma>) \<noteq> None then 1 else 0)"
      using leftover_eq [OF inv, of g] unfolding lo ts by (cases "g = h") simp_all
  qed
  moreover have "trace_inv V G ?\<sigma>"
    using inv h p0 by (intro trace_inv_ran [of V G \<sigma> h ?\<sigma>]) (simp_all add: system_inv_def)
  moreover have "progress_inv G ?\<sigma>"
    unfolding progress_inv_def
  proof (intro conjI allI impI)
    fix g assume "g \<in> set (executed ?\<sigma>) \<and> filter (schedules g) (workers ?\<sigma>) = []"
    moreover from this have "g \<noteq> h"
      using w(1) by (auto simp: filter_empty_conv dest!: bspec [OF _ set_update_memI [OF w(1)]])
    ultimately show "prog ?\<sigma> g = length (G g)"
      using inv w by (simp add: system_inv_def progress_inv_def filter_update_same)
  qed (use inv p0 h(2) w in \<open>auto simp: system_inv_def progress_inv_def nth_list_update split: if_splits\<close>)
  ultimately have "system_inv V G ?\<sigma>"
    using inv q store_inv_set [OF store h(5)] by (simp add: system_inv_def)
  then show ?thesis using step by simp
qed

lemma scheduling_task:
  assumes inv: "system_inv V G \<sigma>" and w: "w < length (workers \<sigma>)" "workers \<sigma> ! w = WScheduling h i"
  obtains k st where "h \<in> V" "h \<in> set (executed \<sigma>)" "prog \<sigma> h = i" "i \<le> length (G h)" "leftovers h \<sigma> = 1"
    "task_state_of h (ex \<sigma>) = Some (k, st)" "successors st = G h"
proof -
  have p: "h \<in> set (executed \<sigma>)" "prog \<sigma> h = i" "i \<le> length (G h)"
    using inv w by (auto simp: system_inv_def progress_inv_def)
  have "h \<in> V" using p(1) inv by (auto simp: system_inv_def trace_inv_def)
  have "0 < length (filter (schedules h) (workers \<sigma>))"
    by (rule filter_length_pos [OF w(1)]) (simp add: w(2))
  then have "1 \<le> leftovers h \<sigma>" unfolding leftovers_def by linarith
  then have l: "leftovers h \<sigma> = 1" "task_state_of h (ex \<sigma>) \<noteq> None"
    using leftover_eq [OF inv, of h] by (auto split: if_splits)
  then obtain k st where "task_state_of h (ex \<sigma>) = Some (k, st)" by auto
  then show ?thesis using that p l(1) \<open>h \<in> V\<close> inv by (auto simp: system_inv_def latch_inv_def)
qed

text \<open>Signalling one adjacent task that has not run.\<close>

definition signalled :: "nat \<Rightarrow> nat \<Rightarrow> 'v task_state \<Rightarrow> 'v executor \<Rightarrow> 'v executor" where
  "signalled g k st s = (let s1 = set_state k (st\<lparr> latch := latch st - 1 \<rparr>) s in
     if latch st = 2 then Submit [g] (\<not> continuation st) s1 else s1)"

lemma signalled_simps [simp]:
  "slots (signalled g k st s) = slots s"
  "states (signalled g k st s) = states (set_state k (st\<lparr> latch := latch st - 1 \<rparr>) s)"
  "task_pool (signalled g k st s) = task_pool s" "deletionQueue (signalled g k st s) = deletionQueue s"
  "readyQueue (signalled g k st s) = readyQueue s @ (if latch st = 2 then [g] else [])"
  "readyQueueSize (signalled g k st s) = readyQueueSize s + (if latch st = 2 then 1 else 0)"
  by (simp_all add: signalled_def Submit_def InternalSubmit_def Let_def set_state_def)

lemma schedule_adjacent_one_ok:
  assumes "g < kTaskPoolSize" "task_state_of g s = Some (k, st)"
  shows "schedule_adjacent_one g s = Inr (signalled g k st s)"
proof -
  obtain t where t: "task_at g s = Inr t" "t_state t = Some k" "deref_state (Some k) s = Inr (k, st)"
    using task_state_ofD [OF assms(2)] .
  have "uint (latch st) - 1 = 1 \<longleftrightarrow> latch st = 2"
    unfolding word_uint_eq_iff by auto
  then show ?thesis using t assms(1)
    by (simp add: schedule_adjacent_one_def InternalHandleToPtr_ok signalled_def Let_def)
qed

lemma step_schedule_edge_ok:
  assumes inv: "system_inv V G \<sigma>" and w: "w < length (workers \<sigma>)" "workers \<sigma> ! w = WScheduling h i"
    and i: "i < length (G h)"
  shows "\<exists>\<sigma>'. step_schedule w h i \<sigma> = Inr \<sigma>' \<and> system_inv V G \<sigma>' \<and> length (workers \<sigma>') = length (workers \<sigma>)"
proof -
  let ?g = "G h ! i"
  obtain kh sh where h: "h \<in> V" "h \<in> set (executed \<sigma>)" "prog \<sigma> h = i" "i \<le> length (G h)"
    "leftovers h \<sigma> = 1" "task_state_of h (ex \<sigma>) = Some (kh, sh)" "successors sh = G h"
    using scheduling_task [OF inv w] .
  obtain th where th: "task_at h (ex \<sigma>) = Inr th" "t_state th = Some kh" "deref_state (Some kh) (ex \<sigma>) = Inr (kh, sh)"
    using task_state_ofD [OF h(6)] .
  have fin: "finite V" "V \<subseteq> {..<kTaskPoolSize}" "set (G h) \<subseteq> V"
    using inv h(1) by (simp_all add: system_inv_def static_graph_def)
  have gV: "?g \<in> V" using nth_mem [OF i] fin(3) by blast
  then have gp: "?g < kTaskPoolSize" using fin(2) by blast
  have rem: "remaining V G (prog \<sigma>) x = remaining V G ((prog \<sigma>)(h := i + 1)) x + (if x = ?g then 1 else 0)" for x
    using remaining_signal [OF fin(1) h(1), of "prog \<sigma>" G x] h(3) i by simp
  have g: "?g \<notin> set (executed \<sigma>)"
    using rem [of ?g] inv by (auto simp: system_inv_def trace_inv_def)
  obtain k st where st: "task_state_of ?g (ex \<sigma>) = Some (k, st)" "successors st = G ?g"
    "unat (latch st) = 1 + remaining V G (prog \<sigma>) ?g"
    using unran_state [OF inv gV g] .
  let ?st = "st\<lparr> latch := latch st - 1 \<rparr>" and ?r = "remaining V G ((prog \<sigma>)(h := i + 1)) ?g"
  have lat: "unat (latch st - 1) = 1 + ?r" "latch st = 2 \<longleftrightarrow> ?r = 0"
    using st(3) rem [of ?g] by (auto simp: unat_sub word_le_nat_alt word_unat_eq_iff)
  let ?\<sigma> = "\<sigma>\<lparr> ex := signalled ?g k st (ex \<sigma>), workers := (workers \<sigma>)[w := WScheduling h (i + 1)],
    prog := (prog \<sigma>)(h := i + 1) \<rparr>"
  have step: "step_schedule w h i \<sigma> = Inr ?\<sigma>"
    using th h(7) i schedule_adjacent_one_ok [OF gp st(1)] by (simp add: step_schedule_def Let_def)
  have store: "store_inv (ex \<sigma>)" using inv by (simp add: system_inv_def)
  have ts: "task_state_of x (ex ?\<sigma>) = (if x = ?g then Some (k, ?st) else task_state_of x (ex \<sigma>))" for x
  proof -
    have "task_state_of x (ex ?\<sigma>) = task_state_of x (set_state k ?st (ex \<sigma>))"
      by (rule task_state_of_cong) (simp_all add: set_state_def)
    then show ?thesis unfolding task_state_of_set [OF store st(1)] .
  qed
  have sch: "length (filter (schedules x) (workers ?\<sigma>)) = length (filter (schedules x) (workers \<sigma>))" for x
    using workers_move [OF w(1), of "schedules x" "WScheduling h (i + 1)"] w(2) by (simp split: if_splits)
  have hol: "filter (holds x) (workers ?\<sigma>) = filter (holds x) (workers \<sigma>)" for x
    using w by (simp add: filter_update_same)
  have "latch_inv V G ?\<sigma>"
  proof (unfold latch_inv_def, intro ballI)
    fix x assume "x \<in> V"
    from latch_at [OF inv this] rem [of x]
    show "case task_state_of x (ex ?\<sigma>) of None \<Rightarrow> x \<in> set (executed ?\<sigma>)
      | Some (i, su) \<Rightarrow> successors su = G x
         \<and> unat (latch su) = (if x \<in> set (executed ?\<sigma>) then 0 else 1 + remaining V G (prog ?\<sigma>) x)"
      unfolding ts using st(2) lat(1) g by (cases "x = ?g") (auto simp: successors_def split: option.splits)
  qed
  moreover have "token_inv V G ?\<sigma>"
  proof (unfold token_inv_def, intro allI)
    fix x
    have "tokens x \<sigma> = (if x \<in> V \<and> x \<notin> set (executed \<sigma>) \<and> remaining V G (prog \<sigma>) x = 0 then 1 else 0)"
      using inv by (simp add: system_inv_def token_inv_def)
    then show "tokens x ?\<sigma> = (if x \<in> V \<and> x \<notin> set (executed ?\<sigma>) \<and> remaining V G (prog ?\<sigma>) x = 0 then 1 else 0)"
      using rem [of x] hol lat(2) gV g by (cases "x = ?g") (auto simp: tokens_def)
  qed
  moreover have "leftover_inv ?\<sigma>"
  proof (unfold leftover_inv_def, intro allI)
    fix x
    have "leftovers x ?\<sigma> = leftovers x \<sigma>" using sch [of x] by (simp add: leftovers_def)
    then show "leftovers x ?\<sigma> = (if x \<in> set (executed ?\<sigma>) \<and> task_state_of x (ex ?\<sigma>) \<noteq> None then 1 else 0)"
      using leftover_eq [OF inv, of x] st(1) unfolding ts by (cases "x = ?g") simp_all
  qed
  moreover have "trace_inv V G ?\<sigma>"
    using inv rem unfolding system_inv_def trace_inv_def by simp
  moreover have "progress_inv G ?\<sigma>"
  proof -
    have a: "x \<in> set (executed ?\<sigma>) \<and> prog ?\<sigma> x = j \<and> j \<le> length (G x)"
      if v: "v < length (workers ?\<sigma>)" "workers ?\<sigma> ! v = WScheduling x j" for v x j
    proof (cases "v = w")
      case True
      then show ?thesis using v w(1) h(2) i by simp
    next
      case False
      then have v': "v < length (workers \<sigma>)" "workers \<sigma> ! v = WScheduling x j" using v by simp_all
      have "x \<noteq> h"
        using filter_length_two [of v "workers \<sigma>" w "schedules h"] v' w False h(5) by (auto simp: leftovers_def)
      then show ?thesis using v' inv by (auto simp: system_inv_def progress_inv_def)
    qed
    have b: "prog ?\<sigma> x = length (G x)"
      if x: "x \<in> set (executed ?\<sigma>) \<and> filter (schedules x) (workers ?\<sigma>) = []" for x
    proof -
      have "filter (schedules x) (workers \<sigma>) = []" using sch [of x] x by simp
      moreover from this have "x \<noteq> h" using filter_length_pos [of w "workers \<sigma>" "schedules h", OF w(1)] w(2) by auto
      ultimately show ?thesis using x inv by (simp add: system_inv_def progress_inv_def)
    qed
    have c: "prog ?\<sigma> x = 0" if "x \<notin> set (executed ?\<sigma>)" for x
      using that inv h(2) by (auto simp: system_inv_def progress_inv_def)
    show ?thesis unfolding progress_inv_def using a b c by blast
  qed
  moreover have "store_inv (ex ?\<sigma>)"
    by (rule store_inv_cong [OF _ _ _ store_inv_set [OF store st(1), of ?st]]) (simp_all add: set_state_def)
  ultimately have "system_inv V G ?\<sigma>"
    using inv by (simp add: system_inv_def)
  then show ?thesis using step by simp
qed

lemma step_schedule_finish_ok:
  assumes inv: "system_inv V G \<sigma>" and w: "w < length (workers \<sigma>)" "workers \<sigma> ! w = WScheduling h i"
    and i: "\<not> i < length (G h)"
  shows "\<exists>\<sigma>'. step_schedule w h i \<sigma> = Inr \<sigma>' \<and> system_inv V G \<sigma>' \<and> length (workers \<sigma>') = length (workers \<sigma>)"
proof -
  obtain kh sh where h: "prog \<sigma> h = i" "i \<le> length (G h)" "leftovers h \<sigma> = 1"
    "task_state_of h (ex \<sigma>) = Some (kh, sh)" "successors sh = G h"
    using scheduling_task [OF inv w] .
  obtain th where th: "task_at h (ex \<sigma>) = Inr th" "t_state th = Some kh" "deref_state (Some kh) (ex \<sigma>) = Inr (kh, sh)"
    using task_state_ofD [OF h(4)] .
  let ?\<sigma> = "\<sigma>\<lparr> ex := enqueue_deletion h (ex \<sigma>), workers := (workers \<sigma>)[w := WIdle] \<rparr>"
  have step: "step_schedule w h i \<sigma> = Inr ?\<sigma>" using th h(5) i by (simp add: step_schedule_def Let_def)
  have hol: "filter (holds x) (workers ?\<sigma>) = filter (holds x) (workers \<sigma>)" for x
    using w by (simp add: filter_update_same)
  have lo: "leftovers x ?\<sigma> = leftovers x \<sigma>" for x
    using workers_move [OF w(1), of "schedules x" WIdle] w(2)
    by (simp add: leftovers_def enqueue_deletion_def split: if_splits)
  have gone: "filter (schedules x) (workers ?\<sigma>) = [] \<Longrightarrow> x \<noteq> h \<Longrightarrow> filter (schedules x) (workers \<sigma>) = []" for x
    using w by (simp add: filter_update_same)
  have "progress_inv G ?\<sigma>"
    unfolding progress_inv_def
  proof (intro conjI allI impI)
    fix x assume x: "x \<in> set (executed ?\<sigma>) \<and> filter (schedules x) (workers ?\<sigma>) = []"
    show "prog ?\<sigma> x = length (G x)"
      using x gone [of x] h(1,2) i inv by (cases "x = h") (simp_all add: system_inv_def progress_inv_def)
  qed (use inv w in \<open>auto simp: system_inv_def progress_inv_def nth_list_update split: if_splits\<close>)
  then have "system_inv V G ?\<sigma>"
    using hol lo inv by (intro system_inv_frame [OF inv]) (simp_all add: tokens_def enqueue_deletion_def system_inv_def)
  then show ?thesis using step by simp
qed

lemma set_count_list_pos: "i < length xs \<Longrightarrow> 1 \<le> count_list xs (xs ! i)"
  using count_list_erase_at [of i xs "xs ! i"] by simp

lemma step_purge_ok:
  assumes inv: "system_inv V G \<sigma>" and st: "step_purge i \<sigma> = Some r"
  shows "\<exists>s. r = Inr (\<sigma>\<lparr> ex := s \<rparr>) \<and> system_inv V G (\<sigma>\<lparr> ex := s \<rparr>)
    \<and> readyQueue s = readyQueue (ex \<sigma>) \<and> deletionQueue s = erase_at i (deletionQueue (ex \<sigma>))
    \<and> deletionQueue (ex \<sigma>) ! i \<in> V
    \<and> slots s = (slots (ex \<sigma>))(deletionQueue (ex \<sigma>) ! i := None) \<and> states s = states (ex \<sigma>)
    \<and> free_set (task_pool s) = insert (deletionQueue (ex \<sigma>) ! i) (free_set (task_pool (ex \<sigma>)))"
proof -
  let ?q = "deletionQueue (ex \<sigma>)"
  have i: "i < length ?q" using st by (auto simp: step_purge_def Let_def split: if_splits)
  define h where "h = ?q ! i"
  have "1 \<le> leftovers h \<sigma>" using set_count_list_pos [OF i] unfolding leftovers_def h_def by linarith
  then have l: "leftovers h \<sigma> = 1" "h \<in> set (executed \<sigma>)" "task_state_of h (ex \<sigma>) \<noteq> None"
    using leftover_eq [OF inv, of h] by (auto split: if_splits)
  then obtain k su where su: "task_state_of h (ex \<sigma>) = Some (k, su)" by auto
  have V: "h \<in> V" using l(2) inv by (auto simp: system_inv_def trace_inv_def)
  then have hp: "h < kTaskPoolSize" using inv by (auto simp: system_inv_def static_graph_def)
  have la: "latch su = 0" using latch_at [OF inv V] l(2) su by (simp add: word_unat_eq_iff)
  obtain t where t: "task_at h (ex \<sigma>) = Inr t" "t_state t = Some k" "deref_state (Some k) (ex \<sigma>) = Inr (k, su)"
    using task_state_ofD [OF su] .
  have pi: "pool_inv kTaskPoolSize (task_pool (ex \<sigma>))" "h \<notin> free_set (task_pool (ex \<sigma>))"
    using inv su by (auto simp: system_inv_def store_inv_def)
  obtain p where p: "Free std_push_heap kTaskPoolSize (MinSizeIndex_of kTaskPoolSize h) (task_pool (ex \<sigma>)) = Inr p"
    "pool_inv kTaskPoolSize p" "free_set p = insert h (free_set (task_pool (ex \<sigma>)))"
    using heap.pool_free_ok [OF pi(1) hp pi(2)] by blast
  have hm: "MinSizeIndex_of kTaskPoolSize h = \<lparr> msi_value = h \<rparr>"
    using index_below_invalid(2) [OF kTaskPoolSize_small hp] by (simp add: MinSizeIndex_of_def)
  let ?s = "(ex \<sigma>)\<lparr> deletionQueue := erase_at i ?q, slots := (slots (ex \<sigma>))(h := None), task_pool := p \<rparr>"
  let ?\<sigma> = "\<sigma>\<lparr> ex := ?s \<rparr>"
  have r: "r = Inr ?\<sigma>"
    using st i t la hp p(1) hm valid_handle [OF hp]
    by (simp add: step_purge_def Let_def h_def [symmetric] InternalTryDelete_def InternalHandleToPtr_ok InternalFree_def
        Task_destroy_def task_at_def deref_state_def split: option.splits)
  have ts: "task_state_of x ?s = (if x = h then None else task_state_of x (ex \<sigma>))" for x
    by (auto simp: task_state_of_def split: option.splits)
  have "store_inv ?s"
    using inv p unfolding system_inv_def store_inv_def ts by (auto split: if_splits)
  moreover have "latch_inv V G ?\<sigma>"
  proof (unfold latch_inv_def, intro ballI)
    fix x assume "x \<in> V"
    from latch_at [OF inv this]
    show "case task_state_of x (ex ?\<sigma>) of None \<Rightarrow> x \<in> set (executed ?\<sigma>)
      | Some (i, su) \<Rightarrow> successors su = G x
         \<and> unat (latch su) = (if x \<in> set (executed ?\<sigma>) then 0 else 1 + remaining V G (prog ?\<sigma>) x)"
      using l(2) ts [of x] by (cases "x = h") (auto split: option.splits)
  qed
  moreover have "token_inv V G ?\<sigma>"
    using inv by (simp add: system_inv_def token_inv_def tokens_def)
  moreover have "leftover_inv ?\<sigma>"
  proof (unfold leftover_inv_def, intro allI)
    fix x
    have "leftovers x \<sigma> = leftovers x ?\<sigma> + (if h = x then 1 else 0)"
      using count_list_erase_at [OF i, of x] by (simp add: leftovers_def h_def)
    then show "leftovers x ?\<sigma> = (if x \<in> set (executed ?\<sigma>) \<and> task_state_of x (ex ?\<sigma>) \<noteq> None then 1 else 0)"
      using leftover_eq [OF inv, of x] l(1) ts [of x] by (cases "x = h") simp_all
  qed
  ultimately have "system_inv V G ?\<sigma>"
    using inv by (simp add: system_inv_def progress_inv_def trace_inv_def)
  then show ?thesis using r V p(3) by (intro exI [of _ ?s]) (simp add: h_def)
qed

lemma worker_step_ok:
  assumes "system_inv V G \<sigma>" "quiet_runner run" "worker_step run w ch \<sigma> = Some r"
  shows "\<exists>\<sigma>'. r = Inr \<sigma>' \<and> system_inv V G \<sigma>' \<and> length (workers \<sigma>') = length (workers \<sigma>)"
proof -
  have w: "w < length (workers \<sigma>)" using assms(3) by (simp add: worker_step_def split: if_splits)
  show ?thesis
  proof (cases "workers \<sigma> ! w")
    case WIdle
    then show ?thesis using assms w step_dequeue_ok [OF assms(1) w] step_purge_ok [OF assms(1)]
      by (cases ch) (force simp: worker_step_def)+
  next
    case (WCalled h)
    then show ?thesis using assms(3) w step_guard_ok [OF assms(1) w] by (cases ch) (auto simp: worker_step_def)
  next
    case (WRunning h)
    then show ?thesis using assms(3) w step_invoke_ok [OF assms(1) w _ assms(2)]
      by (cases ch) (auto simp: worker_step_def)
  next
    case (WScheduling h i)
    then show ?thesis
      using assms(3) w step_schedule_edge_ok [OF assms(1) w] step_schedule_finish_ok [OF assms(1) w]
      by (cases ch; cases "i < length (G h)") (auto simp: worker_step_def)
  qed
qed

section \<open>Runs, their length and their end\<close>

fun worker_run :: "'v runner \<Rightarrow> (nat \<times> worker_choice) list \<Rightarrow> 'v system \<Rightarrow> 'v system res option" where
  "worker_run run [] \<sigma> = Some (Inr \<sigma>)"
| "worker_run run ((w, ch) # cs) \<sigma> = (case worker_step run w ch \<sigma> of
     None \<Rightarrow> None | Some (Inl e) \<Rightarrow> Some (Inl e) | Some (Inr \<sigma>') \<Rightarrow> worker_run run cs \<sigma>')"

lemma worker_run_ok:
  assumes "quiet_runner run" "system_inv V G \<sigma>" "worker_run run cs \<sigma> = Some r"
  shows "\<exists>\<sigma>'. r = Inr \<sigma>' \<and> system_inv V G \<sigma>' \<and> length (workers \<sigma>') = length (workers \<sigma>)"
  using assms(2,3)
proof (induction cs arbitrary: \<sigma>)
  case (Cons c cs)
  obtain w ch where c: "c = (w, ch)" by (cases c)
  obtain q where q: "worker_step run w ch \<sigma> = Some q"
    using Cons.prems(2) c by (cases "worker_step run w ch \<sigma>") auto
  obtain \<sigma>' where s: "q = Inr \<sigma>'" "system_inv V G \<sigma>'" "length (workers \<sigma>') = length (workers \<sigma>)"
    using worker_step_ok [OF Cons.prems(1) assms(1) q] by blast
  then have "worker_run run cs \<sigma>' = Some r" using Cons.prems(2) c q by simp
  then show ?case using Cons.IH [OF s(2)] s(3) by simp
qed auto

text \<open>Slots: a task of the graph fills its slot until it is deleted, and the pool's free slots are those that were
  free before the run and those of the deleted tasks. Only a purge changes that balance; every other step keeps
  the slots and the pool.\<close>

definition slot_balance :: "nat set \<Rightarrow> nat set \<Rightarrow> 'v executor \<Rightarrow> bool" where
  "slot_balance V F s \<longleftrightarrow> free_set (task_pool s) = F \<union> {h \<in> V. slots s h = None}
     \<and> (\<forall>h\<in>V. slots s h \<noteq> None \<longrightarrow> task_state_of h s \<noteq> None)"

definition keeps_slots :: "'v executor \<Rightarrow> 'v executor \<Rightarrow> bool" where
  "keeps_slots s s' \<longleftrightarrow> slots s' = slots s \<and> task_pool s' = task_pool s \<and> dom (states s) \<subseteq> dom (states s')"

lemma keeps_slots_state: "keeps_slots s s' \<Longrightarrow> task_state_of h s \<noteq> None \<Longrightarrow> task_state_of h s' \<noteq> None"
  by (fastforce simp: keeps_slots_def task_state_of_def split: option.splits)

lemma slot_balance_keeps: "slot_balance V F s \<Longrightarrow> keeps_slots s s' \<Longrightarrow> slot_balance V F s'"
  using keeps_slots_state [of s s'] by (simp add: slot_balance_def keeps_slots_def)

lemma slot_balance_freed:
  assumes "slot_balance V F s" "h \<in> V" "slots s' = (slots s)(h := None)" "states s' = states s"
    "free_set (task_pool s') = insert h (free_set (task_pool s))"
  shows "slot_balance V F s'"
proof -
  have "task_state_of g s' = task_state_of g s" if "g \<noteq> h" for g
    using that assms(3,4) by (simp add: task_state_of_def cong: option.case_cong)
  moreover have "{g \<in> V. slots s' g = None} = insert h {g \<in> V. slots s g = None}" using assms(2,3) by auto
  ultimately show ?thesis using assms(1,3,5) by (simp add: slot_balance_def)
qed

lemma Task_call_keeps_slots:
  assumes "quiet_runner run" "Task_call run p s = Inr s'"
  shows "keeps_slots s s'"
proof -
  obtain c k where "InternalInvoke run c k s = Inr s'"
    using assms(2) by (auto simp: Task_call_def bind_res_Inr split: if_splits)
  moreover obtain v where "run c s = Inr (v, s)" using assms(1) by (auto simp: quiet_runner_def)
  ultimately show ?thesis
    by (auto simp: InternalInvoke_def bind_res_Inr Let_def set_state_def keeps_slots_def split: if_splits)
qed

lemma keeps_slots_set_state: "keeps_slots s (set_state i st s)"
  by (auto simp: keeps_slots_def set_state_def)

lemma keeps_slots_Submit: "keeps_slots s s' \<Longrightarrow> keeps_slots s (Submit hs b s')"
  by (simp add: keeps_slots_def Submit_def InternalSubmit_def Let_def)

lemma schedule_adjacent_one_keeps_slots: "schedule_adjacent_one g s = Inr s' \<Longrightarrow> keeps_slots s s'"
  unfolding schedule_adjacent_one_def Let_def bind_res_Inr
  by (auto split: if_splits intro: keeps_slots_set_state keeps_slots_Submit)

lemma step_schedule_keeps_slots: "step_schedule w h i \<sigma> = Inr \<sigma>' \<Longrightarrow> keeps_slots (ex \<sigma>) (ex \<sigma>')"
  using schedule_adjacent_one_keeps_slots
  by (fastforce simp: step_schedule_def Let_def bind_res_Inr keeps_slots_def enqueue_deletion_def split: if_splits)

lemma worker_step_slot_balance:
  assumes "system_inv V G \<sigma>" "quiet_runner run" "worker_step run w ch \<sigma> = Some (Inr \<sigma>')" "slot_balance V F (ex \<sigma>)"
  shows "slot_balance V F (ex \<sigma>')"
proof (cases "\<exists>i. step_purge i \<sigma> = Some (Inr \<sigma>')")
  case True
  then obtain i where st: "step_purge i \<sigma> = Some (Inr \<sigma>')" ..
  obtain s where s: "\<sigma>' = \<sigma>\<lparr> ex := s \<rparr>" "deletionQueue (ex \<sigma>) ! i \<in> V"
    "slots s = (slots (ex \<sigma>))(deletionQueue (ex \<sigma>) ! i := None)" "states s = states (ex \<sigma>)"
    "free_set (task_pool s) = insert (deletionQueue (ex \<sigma>) ! i) (free_set (task_pool (ex \<sigma>)))"
    using step_purge_ok [OF assms(1) st] by auto
  then show ?thesis using slot_balance_freed [OF assms(4) s(2-5)] by simp
next
  case False
  have "keeps_slots (ex \<sigma>) (ex \<sigma>')"
  proof (cases "workers \<sigma> ! w")
    case WIdle
    then show ?thesis using assms(3) False
      by (cases ch) (auto simp: worker_step_def step_dequeue_def Let_def keeps_slots_def split: if_splits)
  next
    case (WCalled h)
    then show ?thesis using assms(3)
      by (cases ch) (auto simp: worker_step_def step_guard_def bind_res_Inr keeps_slots_def split: if_splits)
  next
    case (WRunning h)
    then show ?thesis using assms(3) Task_call_keeps_slots [OF assms(2)]
      by (cases ch) (auto simp: worker_step_def step_invoke_def bind_res_Inr split: if_splits)
  next
    case (WScheduling h i)
    then show ?thesis using assms(3) step_schedule_keeps_slots
      by (cases ch) (auto simp: worker_step_def split: if_splits)
  qed
  then show ?thesis by (rule slot_balance_keeps [OF assms(4)])
qed

lemma worker_run_slot_balance:
  assumes "quiet_runner run" "system_inv V G \<sigma>" "worker_run run cs \<sigma> = Some (Inr \<sigma>')" "slot_balance V F (ex \<sigma>)"
  shows "slot_balance V F (ex \<sigma>')"
  using assms(2-4)
proof (induction cs arbitrary: \<sigma>)
  case (Cons c cs)
  obtain w ch where c: "c = (w, ch)" by (cases c)
  obtain q where q: "worker_step run w ch \<sigma> = Some q"
    using Cons.prems(2) c by (cases "worker_step run w ch \<sigma>") auto
  obtain \<tau> where s: "q = Inr \<tau>" "system_inv V G \<tau>" using worker_step_ok [OF Cons.prems(1) assms(1) q] by blast
  then have "worker_run run cs \<tau> = Some (Inr \<sigma>')" using Cons.prems(2) c q by simp
  then show ?case using Cons.IH [OF s(2)] worker_step_slot_balance [OF Cons.prems(1) assms(1) _ Cons.prems(3)] q s(1)
    by blast
qed simp

text \<open>What is left to do: a step of any worker decreases it.\<close>

fun worker_weight :: "(nat \<Rightarrow> nat list) \<Rightarrow> worker \<Rightarrow> nat" where
  "worker_weight G WIdle = 0"
| "worker_weight G (WCalled h) = 2"
| "worker_weight G (WRunning h) = 1"
| "worker_weight G (WScheduling h i) = 4 * (length (G h) - i) + 2"

definition work_left :: "nat set \<Rightarrow> (nat \<Rightarrow> nat list) \<Rightarrow> 'v system \<Rightarrow> nat" where
  "work_left V G \<sigma> = (\<Sum>h\<in>V - set (executed \<sigma>). 4 * length (G h) + 2)
     + sum_list (map (worker_weight G) (workers \<sigma>))
     + 3 * length (readyQueue (ex \<sigma>)) + length (deletionQueue (ex \<sigma>))"

lemma worker_weight_update:
  "w < length ws \<Longrightarrow> sum_list (map f (ws[w := x])) + f (ws ! w) = sum_list (map f ws) + (f x :: nat)"
proof (induction ws arbitrary: w)
  case (Cons y ys)
  then show ?case by (cases w) auto
qed simp

text \<open>What the parts of a step do to the queues.\<close>

lemma Task_call_queues:
  assumes "quiet_runner run" "Task_call run p s = Inr s'"
  shows "readyQueue s' = readyQueue s" "deletionQueue s' = deletionQueue s"
proof -
  obtain c k where "InternalInvoke run c k s = Inr s'"
    using assms(2) by (auto simp: Task_call_def bind_res_Inr split: if_splits)
  moreover obtain v where "run c s = Inr (v, s)" using assms(1) by (auto simp: quiet_runner_def)
  ultimately show "readyQueue s' = readyQueue s" "deletionQueue s' = deletionQueue s"
    by (auto simp: InternalInvoke_def bind_res_Inr Let_def set_state_def split: if_splits)
qed

lemma InternalTryDelete_queues:
  "InternalTryDelete h s = Inr (gone, s') \<Longrightarrow>
     readyQueue s' = readyQueue s \<and> deletionQueue s' = deletionQueue s"
  by (auto simp: InternalTryDelete_def bind_res_Inr InternalFree_def Task_destroy_def split: if_splits)

lemma work_left_dequeue:
  assumes "step_dequeue w i \<sigma> = Some (Inr \<sigma>')" "w < length (workers \<sigma>)" "workers \<sigma> ! w = WIdle"
  shows "work_left V G \<sigma>' < work_left V G \<sigma>"
  using assms worker_weight_update [OF assms(2), of "worker_weight G" "WCalled (readyQueue (ex \<sigma>) ! i)"]
  by (auto simp: step_dequeue_def Let_def work_left_def split: if_splits)

lemma work_left_guard:
  assumes "step_guard w h \<sigma> = Inr \<sigma>'" "w < length (workers \<sigma>)" "workers \<sigma> ! w = WCalled h"
  shows "work_left V G \<sigma>' < work_left V G \<sigma>"
  using assms worker_weight_update [OF assms(2), of "worker_weight G" "WRunning h"]
  by (auto simp: step_guard_def bind_res_Inr work_left_def)

lemma work_left_invoke:
  assumes "step_invoke run w h \<sigma> = Inr \<sigma>'" "w < length (workers \<sigma>)" "workers \<sigma> ! w = WRunning h"
    and "quiet_runner run" "finite V" "h \<in> V" "h \<notin> set (executed \<sigma>)"
  shows "work_left V G \<sigma>' < work_left V G \<sigma>"
proof -
  obtain s where s: "Task_call run h (ex \<sigma>) = Inr s"
    "\<sigma>' = \<sigma>\<lparr> ex := s, workers := (workers \<sigma>)[w := WScheduling h 0], executed := executed \<sigma> @ [h] \<rparr>"
    using assms(1) by (auto simp: step_invoke_def bind_res_Inr)
  have "V - set (executed \<sigma>') = V - set (executed \<sigma>) - {h}" using s(2) by auto
  moreover have "h \<in> V - set (executed \<sigma>)" "finite (V - set (executed \<sigma>))" using assms(5-7) by auto
  ultimately show ?thesis
    using s(2) Task_call_queues [OF assms(4) s(1)] assms(3)
      worker_weight_update [OF assms(2), of "worker_weight G" "WScheduling h 0"]
      sum.remove [of "V - set (executed \<sigma>)" h "\<lambda>h. 4 * length (G h) + 2"]
    by (simp add: work_left_def)
qed

lemma work_left_schedule:
  assumes "step_schedule w h i \<sigma> = Inr \<sigma>'" "w < length (workers \<sigma>)" "workers \<sigma> ! w = WScheduling h i"
    and st: "task_state_of h (ex \<sigma>) = Some (k, st)" "successors st = G h" "i \<le> length (G h)"
    and g: "i < length (G h) \<Longrightarrow> G h ! i < kTaskPoolSize \<and> task_state_of (G h ! i) (ex \<sigma>) \<noteq> None"
  shows "work_left V G \<sigma>' < work_left V G \<sigma>"
proof -
  obtain t where t: "task_at h (ex \<sigma>) = Inr t" "t_state t = Some k" "deref_state (Some k) (ex \<sigma>) = Inr (k, st)"
    using task_state_ofD [OF st(1)] .
  show ?thesis
  proof (cases "i < length (G h)")
    case True
    then obtain s where s: "schedule_adjacent_one (G h ! i) (ex \<sigma>) = Inr s"
      "\<sigma>' = \<sigma>\<lparr> ex := s, workers := (workers \<sigma>)[w := WScheduling h (i + 1)], prog := (prog \<sigma>)(h := i + 1) \<rparr>"
      using assms(1) t st(2) by (auto simp: step_schedule_def Let_def bind_res_Inr)
    obtain k' st' where "task_state_of (G h ! i) (ex \<sigma>) = Some (k', st')" using g [OF True] by auto
    then have s': "s = signalled (G h ! i) k' st' (ex \<sigma>)"
      using schedule_adjacent_one_ok [of "G h ! i" "ex \<sigma>" k' st'] g [OF True] s(1) by simp
    have "4 * (length (G h) - (i + 1)) + 4 = 4 * (length (G h) - i)" using True by simp
    then show ?thesis using s(2) s' assms(3)
        worker_weight_update [OF assms(2), of "worker_weight G" "WScheduling h (i + 1)"]
      by (simp add: work_left_def)
  next
    case False
    then have "\<sigma>' = \<sigma>\<lparr> ex := enqueue_deletion h (ex \<sigma>), workers := (workers \<sigma>)[w := WIdle] \<rparr>"
      using assms(1) t st(2) by (simp add: step_schedule_def Let_def)
    then show ?thesis using assms(3) worker_weight_update [OF assms(2), of "worker_weight G" WIdle]
      by (simp add: work_left_def enqueue_deletion_def)
  qed
qed

lemma work_left_purge:
  assumes inv: "system_inv V G \<sigma>" and st: "step_purge i \<sigma> = Some (Inr \<sigma>')"
  shows "work_left V G \<sigma>' < work_left V G \<sigma>"
proof -
  have i: "i < length (deletionQueue (ex \<sigma>))" using st by (auto simp: step_purge_def Let_def split: if_splits)
  obtain s where s: "\<sigma>' = \<sigma>\<lparr> ex := s \<rparr>" "readyQueue s = readyQueue (ex \<sigma>)"
    "deletionQueue s = erase_at i (deletionQueue (ex \<sigma>))"
    using step_purge_ok [OF inv st] by auto
  then show ?thesis using i by (auto simp: work_left_def)
qed

lemma work_left_decreases:
  assumes inv: "system_inv V G \<sigma>" and run: "quiet_runner run"
    and st: "worker_step run w ch \<sigma> = Some (Inr \<sigma>')"
  shows "work_left V G \<sigma>' < work_left V G \<sigma>"
proof -
  have w: "w < length (workers \<sigma>)" using st by (simp add: worker_step_def split: if_splits)
  have fin: "finite V" using inv by (simp add: system_inv_def static_graph_def)
  show ?thesis
  proof (cases "workers \<sigma> ! w")
    case WIdle
    show ?thesis
    proof (cases ch)
      case (Purge i)
      then show ?thesis using st w WIdle work_left_purge [OF inv, of i \<sigma>'] by (simp add: worker_step_def)
    qed (use st w WIdle work_left_dequeue in \<open>auto simp: worker_step_def\<close>)
  next
    case (WCalled h)
    then show ?thesis using st w work_left_guard by (cases ch) (auto simp: worker_step_def)
  next
    case (WRunning h)
    have "h \<in> V" "h \<notin> set (executed \<sigma>)"
      by (rule held_task [OF inv w, of h]; simp add: WRunning)+
    then show ?thesis using WRunning st w work_left_invoke [OF _ w _ run fin]
      by (cases ch) (auto simp: worker_step_def)
  next
    case (WScheduling h i)
    obtain k sh where h: "h \<in> V" "prog \<sigma> h = i" "i \<le> length (G h)"
      "task_state_of h (ex \<sigma>) = Some (k, sh)" "successors sh = G h"
      using scheduling_task [OF inv w WScheduling] .
    have "G h ! i < kTaskPoolSize \<and> task_state_of (G h ! i) (ex \<sigma>) \<noteq> None" if i: "i < length (G h)"
    proof -
      have "set (G h) \<subseteq> V" "V \<subseteq> {..<kTaskPoolSize}" using inv h(1) by (simp_all add: system_inv_def static_graph_def)
      then have g: "G h ! i \<in> V" "G h ! i < kTaskPoolSize" using nth_mem [OF i] by auto
      have "0 < remaining V G (prog \<sigma>) (G h ! i)"
        using remaining_signal [OF fin h(1), of "prog \<sigma>" G "G h ! i"] h(2) i by simp
      then have "G h ! i \<notin> set (executed \<sigma>)" using inv by (auto simp: system_inv_def trace_inv_def)
      then show ?thesis using unran_state [OF inv g(1)] g(2) by (metis option.distinct(1))
    qed
    then show ?thesis using WScheduling st w work_left_schedule [where G = G, OF _ w WScheduling h(4,5,3)]
      by (cases ch) (auto simp: worker_step_def)
  qed
qed

end
