(* ===== verification/Task_Graph.thy ===== *)
theory Task_Graph
imports Task_Interleaving
begin

text \<open>
  Building a task graph with \<open>CreateTask\<close>, \<open>AddDependency\<close> and \<open>Submit\<close> (\<open>core/task.{inl,cpp}\<close>,
  \<open>core/taskexecutor.cpp\<close>), and what the worker threads of \<open>Task_Interleaving\<close> make of it: every task runs
  exactly once and after the tasks it depends on.
\<close>

section \<open>A graph that has been built\<close>

definition indegree :: "nat set \<Rightarrow> (nat \<Rightarrow> nat list) \<Rightarrow> nat \<Rightarrow> nat" where
  "indegree V G h = (\<Sum>a\<in>V. count_list (G a) h)"

definition built_task :: "nat set \<Rightarrow> (nat \<Rightarrow> nat list) \<Rightarrow> nat \<Rightarrow> 'v task_state \<Rightarrow> bool" where
  "built_task V G h st \<longleftrightarrow> length (adjacencies st) = 128 \<and> adjacenciesCount st = length (G h)
     \<and> length (G h) \<le> 127 \<and> take (length (G h)) (adjacencies st) = G h \<and> unat (latch st) = 1 + indegree V G h"

definition graph_built :: "nat set \<Rightarrow> (nat \<Rightarrow> nat list) \<Rightarrow> 'v executor \<Rightarrow> bool" where
  "graph_built V G s \<longleftrightarrow> static_graph V G \<and> store_inv s
     \<and> (\<forall>h t i. slots s h = Some t \<longrightarrow> t_state t = Some i \<longrightarrow> i < next_state s)
     \<and> (\<forall>h\<in>V. \<exists>i st. task_state_of h s = Some (i, st) \<and> built_task V G h st)"

lemma remaining_0: "remaining V G (\<lambda>_. 0) h = indegree V G h"
  by (simp add: remaining_def indegree_def)

lemma graph_built_task:
  assumes "graph_built V G s" "h \<in> V"
  obtains i st where "task_state_of h s = Some (i, st)" "built_task V G h st" "h < kTaskPoolSize"
  using assms unfolding graph_built_def static_graph_def by blast

lemma indegree_add_edge:
  assumes "finite V" "a \<in> V"
  shows "indegree V (G(a := G a @ [b])) h = indegree V G h + (if h = b then 1 else 0)"
proof -
  have "(\<Sum>x\<in>V - {a}. count_list ((G(a := G a @ [b])) x) h) = (\<Sum>x\<in>V - {a}. count_list (G x) h)"
    by (rule sum.cong) auto
  then show ?thesis unfolding indegree_def sum.remove [OF assms] by simp
qed

lemma AddDependency_ok:
  assumes g: "graph_built V G s" and ab: "a \<in> V" "b \<in> V" "a \<noteq> b" "length (G a) < 127" "indegree V G b + 2 < 2 ^ 16"
  shows "\<exists>s'. AddDependency a b c s = Inr s' \<and> graph_built V (G(a := G a @ [b])) s'
    \<and> readyQueue s' = readyQueue s \<and> deletionQueue s' = deletionQueue s \<and> readyQueueSize s' = readyQueueSize s"
proof -
  obtain ia sa where A: "task_state_of a s = Some (ia, sa)" "built_task V G a sa" "a < kTaskPoolSize"
    using graph_built_task [OF g ab(1)] .
  obtain ib sb where B: "task_state_of b s = Some (ib, sb)" "built_task V G b sb" "b < kTaskPoolSize"
    using graph_built_task [OF g ab(2)] .
  have store: "store_inv s" and V: "static_graph V G" using g by (simp_all add: graph_built_def)
  let ?sa = "sa\<lparr> adjacencies := (adjacencies sa)[adjacenciesCount sa := b], adjacenciesCount := length (G a) + 1 \<rparr>"
  let ?sb = "sb\<lparr> latch := latch sb + 1, continuation := c \<rparr>"
  let ?s1 = "set_state ia ?sa s" and ?G = "G(a := G a @ [b])"
  have store1: "store_inv ?s1" by (rule store_inv_set [OF store A(1)])
  have B1: "task_state_of b ?s1 = Some (ib, sb)" using task_state_of_set [OF store A(1)] ab(3) B(1) by simp
  let ?s2 = "set_state ib ?sb ?s1"
  obtain ta where ta: "task_at a s = Inr ta" "t_state ta = Some ia" "deref_state (Some ia) s = Inr (ia, sa)"
    using task_state_ofD [OF A(1)] .
  obtain tb where tb: "task_at b ?s1 = Inr tb" "t_state tb = Some ib" "deref_state (Some ib) ?s1 = Inr (ib, sb)"
    using task_state_ofD [OF B1] .
  have tb': "task_at b s = Inr tb" using tb(1) by (simp add: task_at_def set_state_def)
  have run: "AddDependency a b c s = Inr ?s2"
    using ta tb tb' A(2,3) B(3) ab(3,4)
    by (simp add: AddDependency_def Task_AddDependency_def valid_handle InternalHandleToPtr_ok InternalPtrToHandle_ok built_task_def)
  have ts: "task_state_of h ?s2 = (if h = b then Some (ib, ?sb) else if h = a then Some (ia, ?sa) else task_state_of h s)" for h
    using task_state_of_set [OF store1 B1] task_state_of_set [OF store A(1)] by simp
  have ind: "indegree V ?G h = indegree V G h + (if h = b then 1 else 0)" for h
    using V ab(1) by (simp add: indegree_add_edge static_graph_def)
  have ba: "built_task V ?G a ?sa"
    using A(2) ab(3,4) ind [of a] by (auto simp: built_task_def take_Suc_conv_app_nth)
  have bb: "built_task V ?G b ?sb"
    using B(2) ab(3,5) ind [of b] by (auto simp: built_task_def unat_word_ariths)
  have bo: "built_task V ?G h st" if "built_task V G h st" "h \<noteq> a" "h \<noteq> b" for h st
    using that ind [of h] by (simp add: built_task_def)
  have "\<exists>i st. task_state_of h ?s2 = Some (i, st) \<and> built_task V ?G h st" if hV: "h \<in> V" for h
  proof -
    obtain i st where "task_state_of h s = Some (i, st)" "built_task V G h st" using graph_built_task [OF g hV] .
    then show ?thesis unfolding ts using ba bb bo [of h st] by (cases "h = b"; cases "h = a") simp_all
  qed
  moreover have "\<forall>h t i. slots ?s2 h = Some t \<longrightarrow> t_state t = Some i \<longrightarrow> i < next_state ?s2"
    using g by (simp add: graph_built_def set_state_def)
  moreover have "static_graph V ?G" using V ab by (auto simp: static_graph_def)
  ultimately have "graph_built V ?G ?s2"
    using store_inv_set [OF store1 B1] unfolding graph_built_def by blast
  then show ?thesis using run by (simp add: set_state_def)
qed

lemma indegree_new_task:
  assumes "static_graph V G" "h \<notin> V"
  shows "indegree (insert h V) (G(h := [])) x = (if x = h then 0 else indegree V G x)"
proof -
  have fin: "finite V" and cl: "\<And>a. a \<in> V \<Longrightarrow> h \<notin> set (G a)" using assms by (auto simp: static_graph_def)
  have "(\<Sum>a\<in>V. count_list ((G(h := [])) a) x) = (\<Sum>a\<in>V. count_list (G a) x)"
    by (rule sum.cong) (use assms(2) in auto)
  then show ?thesis using fin assms(2) cl by (simp add: indegree_def count_list_0_iff)
qed

lemma CreateTask_ok:
  assumes g: "graph_built V G s" and av: "0 < available (task_pool s)"
  shows "\<exists>h f s'. CreateTask c s = Inr (h, f, s') \<and> h \<notin> V \<and> graph_built (insert h V) (G(h := [])) s'
    \<and> readyQueue s' = readyQueue s \<and> deletionQueue s' = deletionQueue s \<and> readyQueueSize s' = readyQueueSize s"
proof -
  have store: "store_inv s" and V: "static_graph V G" using g by (simp_all add: graph_built_def)
  have pi: "pool_inv kTaskPoolSize (task_pool s)" using store by (simp add: store_inv_def)
  let ?h = "Min (free_set (task_pool s))"
  obtain p where p: "Allocate std_pop_heap kTaskPoolSize (task_pool s) = Inr (MinSizeIndex_of kTaskPoolSize ?h, p)"
    "pool_inv kTaskPoolSize p" "free_set p = free_set (task_pool s) - {?h}"
    using heap.pool_allocate_ok [OF pi av] by blast
  have "free_set (task_pool s) \<noteq> {}" using av free_set_card [OF pi] by auto
  then have hf: "?h \<in> free_set (task_pool s)" by (rule Min_in [OF free_set_finite])
  then have hl: "?h < kTaskPoolSize" using pi by (auto simp: pool_inv_def)
  have none: "task_state_of ?h s = None" using store hf unfolding store_inv_def by blast
  then have hV: "?h \<notin> V" using g by (auto simp: graph_built_def)
  have hm: "MinSizeIndex_of kTaskPoolSize ?h = \<lparr> msi_value = ?h \<rparr>"
    using index_below_invalid(2) [OF kTaskPoolSize_small hl] by (simp add: MinSizeIndex_of_def)
  let ?s = "Task_construct ?h c (s\<lparr> task_pool := p \<rparr>)"
  have run: "CreateTask c s = Inr (?h, Some (next_state s), ?s)"
    using p(1) hm hl valid_handle [OF hl]
    by (simp add: CreateTask_def InternalAllocate_def InternalHandleToPtr_ok Task_construct_def task_at_def Let_def)
  have below: "\<forall>h t i. slots s h = Some t \<longrightarrow> t_state t = Some i \<longrightarrow> i < next_state s"
    using g by (simp add: graph_built_def)
  have ts: "task_state_of h ?s = (if h = ?h then Some (next_state s, fresh_state) else task_state_of h s)" for h
    using below by (auto simp: task_state_of_def Task_construct_def Let_def split: option.splits)
  have lt: "i < next_state s" if "task_state_of h s = Some (i, st)" for h i st
    using that below by (auto simp: task_state_of_def split: option.splits)
  have "store_inv ?s"
    unfolding store_inv_def ts
  proof (intro conjI allI impI)
    show "pool_inv kTaskPoolSize (task_pool ?s)" using p(2) by (simp add: Task_construct_def Let_def)
    show "h \<notin> free_set (task_pool ?s)" if "(if h = ?h then Some (next_state s, fresh_state) else task_state_of h s) \<noteq> None" for h
      using that store p(3) by (auto simp: Task_construct_def Let_def store_inv_def split: if_splits)
    show "h = g'" if "(if h = ?h then Some (next_state s, fresh_state) else task_state_of h s) = Some (i, st)"
      "(if g' = ?h then Some (next_state s, fresh_state) else task_state_of g' s) = Some (i, su)" for h g' i st su
      using that store lt [of h i st] lt [of g' i su] unfolding store_inv_def by (auto split: if_splits)
  qed
  moreover have "static_graph (insert ?h V) (G(?h := []))" using V hl hV by (auto simp: static_graph_def)
  moreover have "\<exists>i st. task_state_of x ?s = Some (i, st) \<and> built_task (insert ?h V) (G(?h := [])) x st"
    if "x \<in> insert ?h V" for x
  proof (cases "x = ?h")
    case True
    then show ?thesis unfolding ts using indegree_new_task [OF V hV]
      by (simp add: built_task_def fresh_state_def)
  next
    case False
    then obtain i st where "task_state_of x s = Some (i, st)" "built_task V G x st"
      using graph_built_task [OF g] \<open>x \<in> insert ?h V\<close> by blast
    then show ?thesis unfolding ts using False indegree_new_task [OF V hV, of x] by (simp add: built_task_def)
  qed
  moreover have "\<forall>h t i. slots ?s h = Some t \<longrightarrow> t_state t = Some i \<longrightarrow> i < next_state ?s"
    using below by (auto simp: Task_construct_def Let_def less_Suc_eq)
  ultimately have "graph_built (insert ?h V) (G(?h := [])) ?s" unfolding graph_built_def by blast
  then show ?thesis using run hV by (auto simp: Task_construct_def Let_def)
qed

lemma CreateTask_available:
  assumes "graph_built V G s" "0 < available (task_pool s)" "CreateTask c s = Inr (h, f, s')"
  shows "available (task_pool s') = available (task_pool s) - 1"
proof -
  have "pool_inv kTaskPoolSize (task_pool s)" using assms(1) by (simp add: graph_built_def store_inv_def)
  then obtain p where "Allocate std_pop_heap kTaskPoolSize (task_pool s)
      = Inr (MinSizeIndex_of kTaskPoolSize (Min (free_set (task_pool s))), p)" "available p = available (task_pool s) - 1"
    using heap.pool_allocate_ok assms(2) by blast
  then show ?thesis using assms(3)
    by (auto simp: CreateTask_def InternalAllocate_def Task_construct_def Let_def bind_res_Inr split: if_splits)
qed

section \<open>Starting the workers\<close>

text \<open>\<open>TaskExecutor(threadCount)\<close> over a fresh task pool.\<close>

definition TaskExecutor_init :: "nat \<Rightarrow> 'v executor res" where
  "TaskExecutor_init threadCount = bind_res (ensure (threadCount > 0)) (\<lambda>_.
     bind_res (MemoryPool_init std_make_heap kTaskPoolSize) (\<lambda>p.
       Inr \<lparr> slots = (\<lambda>_. None), states = (\<lambda>_. None), next_state = 0, task_pool = p,
             thread_count = threadCount, readyQueue = [], readyQueueSize = 0, deletionQueue = [], signals = [] \<rparr>))"

definition start_system :: "nat \<Rightarrow> 'v executor \<Rightarrow> 'v system" where
  "start_system n s = \<lparr> ex = s, workers = replicate n WIdle, executed = [], prog = (\<lambda>_. 0) \<rparr>"

definition empty_queues :: "'v executor \<Rightarrow> bool" where
  "empty_queues s \<longleftrightarrow> readyQueue s = [] \<and> deletionQueue s = [] \<and> readyQueueSize s = 0"

definition root_tasks :: "nat set \<Rightarrow> (nat \<Rightarrow> nat list) \<Rightarrow> nat list \<Rightarrow> bool" where
  "root_tasks V G roots \<longleftrightarrow> distinct roots \<and> set roots = {h \<in> V. indegree V G h = 0}"

lemma Submit_queues [simp]:
  "slots (Submit hs b s) = slots s" "states (Submit hs b s) = states s" "task_pool (Submit hs b s) = task_pool s"
  "readyQueue (Submit hs b s) = readyQueue s @ hs" "deletionQueue (Submit hs b s) = deletionQueue s"
  "readyQueueSize (Submit hs b s) = readyQueueSize s + of_nat (length hs)"
  by (simp_all add: Submit_def InternalSubmit_def Let_def)

lemma TaskExecutor_init_ok:
  assumes "0 < n"
  shows "\<exists>s. TaskExecutor_init n = Inr s \<and> graph_built {} G s \<and> empty_queues s \<and> available (task_pool s) = kTaskPoolSize"
proof -
  obtain p where p: "MemoryPool_init std_make_heap kTaskPoolSize = Inr p" "pool_inv kTaskPoolSize p"
    "free_set p = {..<kTaskPoolSize}"
    using heap.pool_init_ok [OF kTaskPoolSize_small] by blast
  moreover have "available p = kTaskPoolSize" using free_set_card [OF p(2)] p(3) by simp
  ultimately show ?thesis using assms
    by (simp add: TaskExecutor_init_def graph_built_def static_graph_def store_inv_def task_state_of_def empty_queues_def)
qed

lemma start_system_inv:
  assumes g: "graph_built V G s" and q: "empty_queues s" and r: "root_tasks V G roots"
  shows "system_inv V G (start_system n (Submit roots wakeThreads s))"
proof -
  let ?\<sigma> = "start_system n (Submit roots wakeThreads s)"
  have ts: "task_state_of h (Submit roots wakeThreads s) = task_state_of h s" for h
    by (rule task_state_of_cong) simp_all
  have none: "filter (holds h) (workers ?\<sigma>) = []" "filter (schedules h) (workers ?\<sigma>) = []" for h
    by (simp_all add: start_system_def)
  have st: "static_graph V G" "store_inv s" using g by (simp_all add: graph_built_def)
  have "store_inv (ex ?\<sigma>)"
    using store_inv_cong [OF _ _ _ st(2)] by (simp add: start_system_def)
  moreover have "latch_inv V G ?\<sigma>"
  proof (unfold latch_inv_def, intro ballI)
    fix h assume "h \<in> V"
    then obtain i su where "task_state_of h s = Some (i, su)" "built_task V G h su"
      using graph_built_task [OF g] by blast
    then show "case task_state_of h (ex ?\<sigma>) of None \<Rightarrow> h \<in> set (executed ?\<sigma>)
      | Some (i, su) \<Rightarrow> successors su = G h
         \<and> unat (latch su) = (if h \<in> set (executed ?\<sigma>) then 0 else 1 + remaining V G (prog ?\<sigma>) h)"
      using ts [of h] by (simp add: start_system_def built_task_def successors_def remaining_0)
  qed
  moreover have "token_inv V G ?\<sigma>"
    using r q none by (simp add: token_inv_def tokens_def start_system_def remaining_0 root_tasks_def
        empty_queues_def distinct_count_list count_list_0_iff)
  moreover have "leftover_inv ?\<sigma>"
    using q by (simp add: leftover_inv_def leftovers_def start_system_def empty_queues_def)
  moreover have "progress_inv G ?\<sigma>" "trace_inv V G ?\<sigma>"
    by (simp_all add: progress_inv_def trace_inv_def start_system_def)
  moreover have "readyQueueSize (ex ?\<sigma>) = of_nat (length (readyQueue (ex ?\<sigma>)))"
    using q by (simp add: start_system_def empty_queues_def)
  ultimately show ?thesis using st(1) by (simp add: system_inv_def)
qed

lemma start_slot_balance:
  assumes "graph_built V G s"
  shows "slot_balance V (free_set (task_pool s)) (ex (start_system n (Submit roots wakeThreads s)))"
proof -
  let ?s = "Submit roots wakeThreads s"
  have "task_state_of h s \<noteq> None" if "h \<in> V" for h using assms that by (auto simp: graph_built_def)
  moreover have "task_state_of h ?s = task_state_of h s" for h by (rule task_state_of_cong) simp_all
  moreover have "slots s h \<noteq> None" if "task_state_of h s \<noteq> None" for h
    using that by (auto simp: task_state_of_def split: option.splits)
  ultimately have "{h \<in> V. slots s h = None} = {}" "\<forall>h\<in>V. task_state_of h ?s \<noteq> None" by auto
  moreover have "slots ?s = slots s" "task_pool ?s = task_pool s" by simp_all
  ultimately show ?thesis by (simp only: slot_balance_def start_system_def system.simps Un_empty_right) blast
qed

section \<open>The end of a run\<close>

definition stuck :: "'v runner \<Rightarrow> 'v system \<Rightarrow> bool" where
  "stuck run \<sigma> \<longleftrightarrow> (\<forall>w ch. worker_step run w ch \<sigma> = None)"

lemma runs_reach_stuck:
  assumes "system_inv V G \<sigma>" "quiet_runner run"
  shows "\<exists>cs \<sigma>'. worker_run run cs \<sigma> = Some (Inr \<sigma>') \<and> stuck run \<sigma>'"
  using assms(1)
proof (induction "work_left V G \<sigma>" arbitrary: \<sigma> rule: less_induct)
  case less
  show ?case
  proof (cases "stuck run \<sigma>")
    case True
    then show ?thesis by (intro exI [of _ "[]"]) simp
  next
    case False
    then obtain w ch r where r: "worker_step run w ch \<sigma> = Some r" by (auto simp: stuck_def)
    obtain \<tau> where s: "r = Inr \<tau>" "system_inv V G \<tau>" using worker_step_ok [OF less.prems assms(2) r] by blast
    have "work_left V G \<tau> < work_left V G \<sigma>" by (rule work_left_decreases [OF less.prems assms(2)]) (use r s(1) in simp)
    then obtain cs \<sigma>' where "worker_run run cs \<tau> = Some (Inr \<sigma>')" "stuck run \<sigma>'"
      using less.hyps s(2) by blast
    then show ?thesis using r s(1) by (intro exI [of _ "(w, ch) # cs"]) auto
  qed
qed

lemma stuck_idle:
  assumes "stuck run \<sigma>" "0 < length (workers \<sigma>)"
  shows "\<forall>w<length (workers \<sigma>). workers \<sigma> ! w = WIdle" "readyQueue (ex \<sigma>) = []" "deletionQueue (ex \<sigma>) = []"
proof -
  show idle: "\<forall>w<length (workers \<sigma>). workers \<sigma> ! w = WIdle"
  proof (intro allI impI)
    fix w assume w: "w < length (workers \<sigma>)"
    have "worker_step run w Advance \<sigma> = None" using assms(1) by (simp add: stuck_def)
    then show "workers \<sigma> ! w = WIdle" using w by (cases "workers \<sigma> ! w") (auto simp: worker_step_def)
  qed
  have "worker_step run 0 (Dequeue 0) \<sigma> = None" "worker_step run 0 (Purge 0) \<sigma> = None"
    using assms(1) by (simp_all add: stuck_def)
  then show "readyQueue (ex \<sigma>) = []" "deletionQueue (ex \<sigma>) = []"
    using idle assms(2) by (auto simp: worker_step_def step_dequeue_def step_purge_def Let_def split: if_splits)
qed

lemma stuck_all_executed:
  assumes inv: "system_inv V G \<sigma>" and st: "stuck run \<sigma>" "0 < length (workers \<sigma>)"
    and acyclic: "\<forall>a\<in>V. \<forall>h\<in>set (G a). rank a < (rank h :: nat)"
  shows "set (executed \<sigma>) = V"
proof (rule ccontr)
  assume ne: "set (executed \<sigma>) \<noteq> V"
  have sub: "set (executed \<sigma>) \<subseteq> V" using inv by (simp add: system_inv_def trace_inv_def)
  note idle = stuck_idle [OF st]
  have sched: "filter (schedules h) (workers \<sigma>) = []" and hold: "filter (holds h) (workers \<sigma>) = []" for h
    using idle(1) by (auto simp: filter_empty_conv in_set_conv_nth)
  obtain g where "g \<in> V \<and> g \<notin> set (executed \<sigma>)" using ne sub by blast
  then obtain h where h: "h \<in> V" "h \<notin> set (executed \<sigma>)"
    "\<And>g. g \<in> V \<Longrightarrow> g \<notin> set (executed \<sigma>) \<Longrightarrow> rank h \<le> rank g"
    using ex_has_least_nat [of "\<lambda>h. h \<in> V \<and> h \<notin> set (executed \<sigma>)" g rank] by blast
  have "count_list (drop (prog \<sigma> a) (G a)) h = 0" if a: "a \<in> V" for a
  proof (cases "h \<in> set (G a)")
    case True
    then have "rank a < rank h" using acyclic a by blast
    then have "a \<in> set (executed \<sigma>)" using h(3) [OF a] by force
    then have "prog \<sigma> a = length (G a)" using inv sched by (simp add: system_inv_def progress_inv_def)
    then show ?thesis by simp
  next
    case False
    then show ?thesis by (auto simp: count_list_0_iff dest: in_set_dropD)
  qed
  then have "remaining V G (prog \<sigma>) h = 0" by (simp add: remaining_def)
  then have "tokens h \<sigma> = 1" using inv h(1,2) by (simp add: system_inv_def token_inv_def)
  moreover have "tokens h \<sigma> = 0" using idle(2) hold by (simp add: tokens_def)
  ultimately show False by simp
qed

lemma worker_run_work_left:
  assumes "system_inv V G \<sigma>" "quiet_runner run" "worker_run run cs \<sigma> = Some (Inr \<sigma>')"
  shows "length cs + work_left V G \<sigma>' \<le> work_left V G \<sigma>"
  using assms(1,3)
proof (induction cs arbitrary: \<sigma>)
  case (Cons c cs)
  obtain w ch where c: "c = (w, ch)" by (cases c)
  obtain \<tau> where t: "worker_step run w ch \<sigma> = Some (Inr \<tau>)" "worker_run run cs \<tau> = Some (Inr \<sigma>')"
    using Cons.prems(2) c by (auto split: option.splits sum.splits)
  have "system_inv V G \<tau>" using worker_step_ok [OF Cons.prems(1) assms(2) t(1)] by auto
  from Cons.IH [OF this t(2)] show ?case using work_left_decreases [OF Cons.prems(1) assms(2) t(1)] by simp
qed simp

section \<open>An example graph\<close>

text \<open>Two tasks, the second depending on the first: used to show that the hypotheses below can hold.\<close>

lemma two_task_graph:
  "\<exists>(s :: nat executor) V G a b. graph_built V G s \<and> empty_queues s \<and> V = {a, b} \<and> a \<noteq> b
     \<and> G a = [b] \<and> G b = [] \<and> root_tasks V G [a]"
proof -
  let ?G0 = "\<lambda>_ :: nat. [] :: nat list"
  obtain s0 :: "nat executor" where s0: "graph_built {} ?G0 s0" "empty_queues s0" "available (task_pool s0) = kTaskPoolSize"
    using TaskExecutor_init_ok [of 1 ?G0] by auto
  have av: "0 < available (task_pool s0)" using s0(3) by (simp add: kTaskPoolSize_def)
  obtain a fa s1 where s1: "CreateTask 0 s0 = Inr (a, fa, s1)" "graph_built {a} (?G0(a := [])) s1"
    "readyQueue s1 = readyQueue s0" "deletionQueue s1 = deletionQueue s0" "readyQueueSize s1 = readyQueueSize s0"
    using CreateTask_ok [OF s0(1) av, of 0] by auto
  have "available (task_pool s1) = kTaskPoolSize - 1"
    using CreateTask_available [OF s0(1) av s1(1)] s0(3) by simp
  then have av1: "0 < available (task_pool s1)" by (simp add: kTaskPoolSize_def)
  obtain b fb s2 where "CreateTask 1 s1 = Inr (b, fb, s2)" and s2: "b \<notin> {a}" "graph_built (insert b {a}) ((?G0(a := []))(b := [])) s2"
    "readyQueue s2 = readyQueue s1" "deletionQueue s2 = deletionQueue s1" "readyQueueSize s2 = readyQueueSize s1"
    using CreateTask_ok [OF s1(2) av1, of 1] by blast
  let ?V = "insert b {a}" and ?G = "(?G0(a := []))(b := [])"
  have e: "a \<in> ?V" "b \<in> ?V" "a \<noteq> b" "length (?G a) < 127" "indegree ?V ?G b + 2 < 2 ^ 16"
    using s2(1) by (simp_all add: indegree_def)
  obtain s3 :: "nat executor" where s3: "graph_built ?V (?G(a := ?G a @ [b])) s3" "readyQueue s3 = readyQueue s2"
    "deletionQueue s3 = deletionQueue s2" "readyQueueSize s3 = readyQueueSize s2"
    using AddDependency_ok [OF s2(2) e, of False] by blast
  have "root_tasks ?V (?G(a := ?G a @ [b])) [a]"
    using s2(1) by (auto simp: root_tasks_def indegree_def)
  moreover have "empty_queues s3" using s0(2) s1 s2 s3 by (simp add: empty_queues_def)
  moreover have "?V = {a, b}" "a \<noteq> b" "(?G(a := ?G a @ [b])) a = [b]" "(?G(a := ?G a @ [b])) b = []" using s2(1) by auto
  ultimately show ?thesis using s3(1) by blast
qed

text \<open>The same two tasks with the dependency added \<open>k\<close> times.\<close>

lemma many_edges_graph:
  "1 \<le> k \<Longrightarrow> k \<le> 127 \<Longrightarrow> \<exists>(s :: nat executor) V G a b. graph_built V G s \<and> V = {a, b} \<and> a \<noteq> b
     \<and> length (G a) = k \<and> indegree V G b \<le> k \<and> G b = []"
proof (induction k rule: nat_induct_at_least)
  case base
  obtain s :: "nat executor" and V G a b where g: "graph_built V G s" "V = {a, b}" "a \<noteq> b" "G a = [b]" "G b = []"
    using two_task_graph by blast
  then have "indegree V G b \<le> 1" by (simp add: indegree_def)
  moreover have "length (G a) = 1" using g(4) by simp
  ultimately show ?case using g(1,2,3,5) by blast
next
  case (Suc k)
  obtain s :: "nat executor" and V G a b where g: "graph_built V G s" "V = {a, b}" "a \<noteq> b" "length (G a) = k"
    "indegree V G b \<le> k" "G b = []"
    using Suc by auto
  have c: "a \<in> V" "b \<in> V" "length (G a) < 127" "indegree V G b + 2 < 2 ^ 16" using g Suc.prems by auto
  obtain s' :: "nat executor" where s': "graph_built V (G(a := G a @ [b])) s'"
    using AddDependency_ok [OF g(1) c(1,2) g(3) c(3,4), of False] by blast
  have "indegree V (G(a := G a @ [b])) b \<le> Suc k"
    using indegree_add_edge [of V a G b b] g by simp
  moreover have "length ((G(a := G a @ [b])) a) = Suc k" "(G(a := G a @ [b])) b = []" using g by simp_all
  ultimately show ?case using s' g(2,3) by blast
qed

section \<open>Values through futures\<close>

lemma schedule_adjacent_from_ok:
  assumes "store_inv s" "\<forall>g\<in>set hs. g < kTaskPoolSize \<and> g \<noteq> h \<and> task_state_of g s \<noteq> None"
  shows "\<exists>s'. schedule_adjacent_from hs s = Inr s' \<and> store_inv s' \<and> task_state_of h s' = task_state_of h s"
  using assms
proof (induction hs arbitrary: s)
  case (Cons g hs)
  obtain k st where g: "task_state_of g s = Some (k, st)" "g < kTaskPoolSize" "g \<noteq> h" using Cons.prems(2) by auto
  let ?s1 = "set_state k (st\<lparr> latch := latch st - 1 \<rparr>) s" and ?s2 = "signalled g k st s"
  have ts: "task_state_of x ?s2 = task_state_of x ?s1" for x
    by (rule task_state_of_cong) (simp_all add: set_state_def)
  have "store_inv ?s2"
    by (rule store_inv_cong [OF _ _ _ store_inv_set [OF Cons.prems(1) g(1)]]) (simp_all add: set_state_def)
  moreover have "\<forall>x\<in>set hs. x < kTaskPoolSize \<and> x \<noteq> h \<and> task_state_of x ?s2 \<noteq> None"
    using Cons.prems(2) unfolding ts task_state_of_set [OF Cons.prems(1) g(1)] by auto
  moreover have "task_state_of h ?s2 = task_state_of h s"
    unfolding ts task_state_of_set [OF Cons.prems(1) g(1)] using g(3) by simp
  ultimately show ?case using Cons.IH [of ?s2] schedule_adjacent_one_ok [OF g(2,1)] by auto
qed simp

lemma task_state_of_states: "task_state_of h s = Some (i, st) \<Longrightarrow> states s i = Some st"
  by (auto simp: task_state_of_def split: option.splits)

lemma Future_Get_ready:
  "states s i = Some st \<Longrightarrow> latch st = 0 \<Longrightarrow> Future_Get (Some i) s = Some (Inr (fvalue st))"
  by (simp add: Future_Get_def Future_Wait_def Future_Valid_def deref_state_def)

lemma InternalCall_ok:
  assumes st: "task_state_of h s = Some (i, st)" "latch st = 1" and inv: "store_inv s" and h: "h < kTaskPoolSize"
    and adj: "\<forall>g\<in>set (successors st). g < kTaskPoolSize \<and> g \<noteq> h \<and> task_state_of g s \<noteq> None"
    and run: "\<forall>c. run c s = Inr (f c, s)"
  shows "\<exists>s' v. InternalCall run h s = Inr s' \<and> slots s h \<noteq> None \<and> v = f (t_callable (the (slots s h))) \<and> store_inv s'
    \<and> task_state_of h s' = Some (i, st\<lparr> fvalue := Some v, latch := 0 \<rparr>)"
proof -
  obtain t where t: "task_at h s = Inr t" "t_state t = Some i" "deref_state (Some i) s = Inr (i, st)"
    using task_state_ofD [OF st(1)] .
  have slot: "slots s h = Some t" using t(1) by (simp add: task_at_def split: option.splits)
  let ?v = "f (t_callable t)"
  let ?st = "st\<lparr> fvalue := Some ?v, latch := 0 \<rparr>"
  let ?s1 = "set_state i ?st s"
  have call: "Task_call run h s = Inr ?s1"
    using t run st(2) by (simp add: Task_call_def InternalInvoke_def Let_def)
  have ts: "task_state_of g ?s1 = (if g = h then Some (i, ?st) else task_state_of g s)" for g
    by (rule task_state_of_set [OF inv st(1)])
  have inv1: "store_inv ?s1" by (rule store_inv_set [OF inv st(1)])
  obtain s2 where s2: "schedule_adjacent_from (successors st) ?s1 = Inr s2" "store_inv s2"
    "task_state_of h s2 = task_state_of h ?s1"
    using schedule_adjacent_from_ok [OF inv1, of "successors st" h] adj ts by auto
  have "task_at h ?s1 = Inr t" using t(1) by (simp add: task_at_def set_state_def)
  moreover have "deref_state (Some i) ?s1 = Inr (i, ?st)" by (simp add: deref_state_def set_state_def)
  ultimately have "InternalScheduleAdjacent h ?s1 = Inr s2"
    using t(2) s2(1) by (simp add: InternalScheduleAdjacent_def successors_def)
  then have "InternalCall run h s = Inr (enqueue_deletion h s2)"
    using t st(2) h call by (simp add: InternalCall_def call_guard_def InternalHandleToPtr_ok)
  moreover have "task_state_of h (enqueue_deletion h s2) = Some (i, ?st)"
    using s2(3) ts [of h] task_state_of_cong [of "enqueue_deletion h s2" s2 h] by (simp add: enqueue_deletion_def)
  moreover have "store_inv (enqueue_deletion h s2)"
    by (rule store_inv_cong [OF _ _ _ s2(2)]) (simp_all add: enqueue_deletion_def)
  ultimately show ?thesis using slot by auto
qed

section \<open>Properties\<close>

text \<open>C2: On a graph built with \<open>CreateTask\<close> and \<open>AddDependency\<close> whose root tasks have been submitted, no
  interleaving of the worker threads traps or touches a destroyed task; every task runs at most once, and a
  task runs only after every task it depends on has run. The concurrent queue may deliver ready tasks in any
  order.\<close>

theorem tasks_run_once_in_order:
  assumes "graph_built V G s" "empty_queues s" "root_tasks V G roots" "quiet_runner run"
    "worker_run run cs (start_system n (Submit roots wakeThreads s)) = Some r"
  shows "\<exists>\<sigma>. r = Inr \<sigma> \<and> distinct (executed \<sigma>) \<and> set (executed \<sigma>) \<subseteq> V
    \<and> (\<forall>xs h ys a. executed \<sigma> = xs @ h # ys \<and> a \<in> V \<and> h \<in> set (G a) \<longrightarrow> a \<in> set xs)"
proof -
  obtain \<sigma> where "r = Inr \<sigma>" "system_inv V G \<sigma>"
    using worker_run_ok [OF assms(4) start_system_inv [OF assms(1-3)] assms(5)] by blast
  then show ?thesis by (auto simp: system_inv_def trace_inv_def)
qed

theorem tasks_run_once_in_order_witness:
  "\<exists>(s :: nat executor) V G roots run cs \<sigma>. graph_built V G s \<and> empty_queues s \<and> root_tasks V G roots \<and> quiet_runner run
    \<and> worker_run run cs (start_system 1 (Submit roots True s)) = Some (Inr \<sigma>) \<and> cs \<noteq> []
    \<and> distinct (executed \<sigma>) \<and> set (executed \<sigma>) \<subseteq> V"
proof -
  let ?run = "\<lambda>c (s :: nat executor). Inr (c, s) :: (nat \<times> nat executor) res"
  obtain s :: "nat executor" and V G a where g: "graph_built V G s" "empty_queues s" "root_tasks V G [a]"
    using two_task_graph by blast
  have run: "quiet_runner ?run" by (simp add: quiet_runner_def)
  have len: "0 < length (readyQueue (ex (start_system 1 (Submit [a] True s))))" by (simp add: start_system_def)
  then obtain r where r: "worker_run ?run [(0, Dequeue 0)] (start_system 1 (Submit [a] True s)) = Some r"
    by (simp add: worker_step_def step_dequeue_def Let_def start_system_def)
  from tasks_run_once_in_order [OF g run r] show ?thesis using g run r by blast
qed

text \<open>C6: Liveness of the executor: on an acyclic graph a run of the workers is at most as long as the work
  that was left at its start, and when no worker can take another step every task of the graph has run,
  the queues are empty, every task object of the graph has been destroyed, and the task pool's free slots are
  exactly those that were free before and the slots of the graph's tasks.\<close>

theorem tasks_all_complete:
  assumes "graph_built V G s" "empty_queues s" "root_tasks V G roots" "quiet_runner run" "0 < n"
    "\<forall>a\<in>V. \<forall>h\<in>set (G a). rank a < (rank h :: nat)"
    "worker_run run cs (start_system n (Submit roots wakeThreads s)) = Some (Inr \<sigma>)"
  shows "length cs \<le> (\<Sum>h\<in>V. 4 * length (G h) + 2) + 3 * length roots
    \<and> (stuck run \<sigma> \<longrightarrow> set (executed \<sigma>) = V \<and> readyQueue (ex \<sigma>) = [] \<and> deletionQueue (ex \<sigma>) = []
        \<and> (\<forall>h\<in>V. task_state_of h (ex \<sigma>) = None \<and> slots (ex \<sigma>) h = None)
        \<and> free_set (task_pool (ex \<sigma>)) = free_set (task_pool s) \<union> V)"
proof -
  note i = start_system_inv [OF assms(1-3)]
  have inv: "system_inv V G \<sigma>" and len: "length (workers \<sigma>) = n"
    using worker_run_ok [OF assms(4) i assms(7)] by (auto simp: start_system_def)
  have "work_left V G (start_system n (Submit roots wakeThreads s)) = (\<Sum>h\<in>V. 4 * length (G h) + 2) + 3 * length roots"
    using assms(2) by (simp add: work_left_def start_system_def empty_queues_def sum_list_replicate)
  then have "length cs \<le> (\<Sum>h\<in>V. 4 * length (G h) + 2) + 3 * length roots"
    using worker_run_work_left [OF i assms(4,7)] by simp
  have bal: "slot_balance V (free_set (task_pool s)) (ex \<sigma>)"
    by (rule worker_run_slot_balance [OF assms(4) i assms(7) start_slot_balance [OF assms(1)]])
  have gone: "task_state_of h (ex \<sigma>) = None" if st: "stuck run \<sigma>" and h: "h \<in> V" for h
  proof -
    note idle = stuck_idle [OF st] and ex = stuck_all_executed [OF inv st _ assms(6)]
    have "filter (schedules h) (workers \<sigma>) = []"
      using idle(1) assms(5) len by (auto simp: filter_empty_conv in_set_conv_nth)
    then have "leftovers h \<sigma> = 0" using idle(3) assms(5) len by (simp add: leftovers_def)
    then show ?thesis using leftover_eq [OF inv, of h] ex h assms(5) len
      by (cases "task_state_of h (ex \<sigma>)") (auto split: if_splits)
  qed
  have free: "slots (ex \<sigma>) h = None" if "stuck run \<sigma>" "h \<in> V" for h
    using gone [OF that] bal that(2) unfolding slot_balance_def by blast
  have "free_set (task_pool (ex \<sigma>)) = free_set (task_pool s) \<union> V" if "stuck run \<sigma>"
    using free [OF that] bal unfolding slot_balance_def by auto
  with \<open>length cs \<le> (\<Sum>h\<in>V. 4 * length (G h) + 2) + 3 * length roots\<close> gone free show ?thesis
    using stuck_all_executed [OF inv _ _ assms(6)] stuck_idle [of run \<sigma>] assms(5) len by simp
qed

theorem tasks_all_complete_witness:
  "\<exists>(s :: nat executor) V G roots (run :: nat runner) cs \<sigma>. graph_built V G s \<and> empty_queues s \<and> root_tasks V G roots
    \<and> quiet_runner run \<and> worker_run run cs (start_system 1 (Submit roots True s)) = Some (Inr \<sigma>) \<and> card V = 2
    \<and> stuck run \<sigma> \<and> set (executed \<sigma>) = V \<and> free_set (task_pool (ex \<sigma>)) = free_set (task_pool s) \<union> V"
proof -
  let ?run = "\<lambda>c (s :: nat executor). Inr (c, s) :: (nat \<times> nat executor) res"
  obtain s :: "nat executor" and V G a b where g: "graph_built V G s" "empty_queues s" "root_tasks V G [a]"
    and V: "V = {a, b}" "a \<noteq> b" "G a = [b]" "G b = []"
    using two_task_graph by blast
  have run: "quiet_runner ?run" by (simp add: quiet_runner_def)
  have rank: "\<forall>x\<in>V. \<forall>h\<in>set (G x). (if x = a then 0 else 1) < (if h = a then 0 else (1::nat))" using V by auto
  obtain cs \<sigma> where r: "worker_run ?run cs (start_system 1 (Submit [a] True s)) = Some (Inr \<sigma>)" "stuck ?run \<sigma>"
    using runs_reach_stuck [OF start_system_inv [OF g] run] by blast
  have "card V = 2" using V by simp
  then show ?thesis using tasks_all_complete [OF g run zero_less_one rank r(1)] g run r by blast
qed

text \<open>Adding a dependency to a built graph extends it by exactly that edge: it never traps, the new adjacency
  is appended, and every latch is again one more than the number of dependencies of its task.\<close>

theorem AddDependency_extends_graph:
  assumes "graph_built V G s" "a \<in> V" "b \<in> V" "a \<noteq> b" "length (G a) < 127" "indegree V G b + 2 < 2 ^ 16"
  shows "\<exists>s'. AddDependency a b isContinuation s = Inr s' \<and> graph_built V (G(a := G a @ [b])) s'"
  using AddDependency_ok [OF assms] by blast

theorem AddDependency_extends_graph_witness:
  "\<exists>(s :: nat executor) V G a b s'. graph_built V G s \<and> AddDependency a b True s = Inr s'
    \<and> graph_built V (G(a := G a @ [b])) s'"
proof -
  obtain s :: "nat executor" and V G a b where g: "graph_built V G s" and V: "V = {a, b}" "a \<noteq> b" "G a = [b]" "G b = []"
    using two_task_graph by blast
  have "length (G a) < 127" "indegree V G b + 2 < 2 ^ 16" using V by (simp_all add: indegree_def)
  then show ?thesis using AddDependency_extends_graph [OF g, of a b True] V g by blast
qed

text \<open>The adjacency count has seven bits: the 128th dependency of a task wraps it to zero, and the task forgets
  all its dependents, whose latches were incremented and will not be decremented.\<close>

theorem AddDependency_overflow:
  assumes "graph_built V G s" "a \<in> V" "b \<in> V" "a \<noteq> b" "length (G a) = 127" "indegree V G b + 2 < 2 ^ 16"
  shows "\<exists>s' i st j su. AddDependency a b isContinuation s = Inr s' \<and> task_state_of a s' = Some (i, st) \<and> successors st = []
    \<and> task_state_of b s' = Some (j, su) \<and> unat (latch su) = indegree V G b + 2"
proof -
  obtain ia sa where A: "task_state_of a s = Some (ia, sa)" "built_task V G a sa" "a < kTaskPoolSize"
    using graph_built_task [OF assms(1,2)] .
  obtain ib sb where B: "task_state_of b s = Some (ib, sb)" "built_task V G b sb" "b < kTaskPoolSize"
    using graph_built_task [OF assms(1,3)] .
  have store: "store_inv s" using assms(1) by (simp add: graph_built_def)
  let ?sa = "sa\<lparr> adjacencies := (adjacencies sa)[adjacenciesCount sa := b], adjacenciesCount := 0 \<rparr>"
  let ?sb = "sb\<lparr> latch := latch sb + 1, continuation := isContinuation \<rparr>"
  let ?s1 = "set_state ia ?sa s"
  have store1: "store_inv ?s1" by (rule store_inv_set [OF store A(1)])
  have B1: "task_state_of b ?s1 = Some (ib, sb)" using task_state_of_set [OF store A(1)] assms(4) B(1) by simp
  obtain ta where ta: "task_at a s = Inr ta" "t_state ta = Some ia" "deref_state (Some ia) s = Inr (ia, sa)"
    using task_state_ofD [OF A(1)] .
  obtain tb where tb: "task_at b ?s1 = Inr tb" "t_state tb = Some ib" "deref_state (Some ib) ?s1 = Inr (ib, sb)"
    using task_state_ofD [OF B1] .
  have "task_at b s = Inr tb" using tb(1) by (simp add: task_at_def set_state_def)
  then have "AddDependency a b isContinuation s = Inr (set_state ib ?sb ?s1)"
    using ta tb A(2,3) B(3) assms(4,5)
    by (simp add: AddDependency_def Task_AddDependency_def valid_handle InternalHandleToPtr_ok InternalPtrToHandle_ok built_task_def)
  moreover have "unat (latch ?sb) = indegree V G b + 2"
    using B(2) assms(6) by (simp add: built_task_def unat_word_ariths)
  ultimately show ?thesis using assms(4)
    by (auto simp: task_state_of_set [OF store1 B1] task_state_of_set [OF store A(1)] successors_def)
qed

theorem AddDependency_overflow_witness:
  "\<exists>(s :: nat executor) V G a b s' i st. graph_built V G s \<and> length (G a) = 127
    \<and> AddDependency a b False s = Inr s' \<and> task_state_of a s' = Some (i, st) \<and> successors st = []"
proof -
  obtain s :: "nat executor" and V G a b where g: "graph_built V G s" "V = {a, b}" "a \<noteq> b" "length (G a) = 127"
    "indegree V G b \<le> 127"
    using many_edges_graph [of 127] by auto
  then have "a \<in> V" "b \<in> V" "indegree V G b + 2 < 2 ^ 16" by auto
  from AddDependency_overflow [OF g(1) this(1,2) g(3,4) this(3), of False] show ?thesis using g by blast
qed

text \<open>A task's value reaches its future: when a worker calls a ready task whose dependents exist, the call succeeds and
  the future then delivers the callable's result, before and after the task object has been deleted.\<close>

theorem future_delivers_value:
  assumes "task_state_of h s = Some (i, st)" "latch st = 1" "store_inv s" "h < kTaskPoolSize"
    "\<forall>g\<in>set (successors st). g < kTaskPoolSize \<and> g \<noteq> h \<and> task_state_of g s \<noteq> None"
    "\<forall>c. run c s = Inr (f c, s)"
  shows "\<exists>s' s'' v. InternalCall run h s = Inr s' \<and> v = f (t_callable (the (slots s h)))
    \<and> Future_IsReady (Some i) s = Inr False \<and> Future_IsReady (Some i) s' = Inr True
    \<and> Future_Get (Some i) s' = Some (Inr (Some v))
    \<and> InternalTryDelete h s' = Inr (True, s'') \<and> slots s'' h = None \<and> Future_Get (Some i) s'' = Some (Inr (Some v))"
proof -
  obtain s' v where s': "InternalCall run h s = Inr s'" "v = f (t_callable (the (slots s h)))" "store_inv s'"
    "task_state_of h s' = Some (i, st\<lparr> fvalue := Some v, latch := 0 \<rparr>)"
    using InternalCall_ok [where run = run and f = f, OF assms] by blast
  obtain t where t: "task_at h s' = Inr t" "t_state t = Some i"
    "deref_state (Some i) s' = Inr (i, st\<lparr> fvalue := Some v, latch := 0 \<rparr>)"
    using task_state_ofD [OF s'(4)] .
  have pi: "pool_inv kTaskPoolSize (task_pool s')" "h \<notin> free_set (task_pool s')"
    using s'(3,4) by (auto simp: store_inv_def)
  obtain p where p: "Free std_push_heap kTaskPoolSize (MinSizeIndex_of kTaskPoolSize h) (task_pool s') = Inr p"
    using heap.pool_free_ok [OF pi(1) assms(4) pi(2)] by blast
  have hm: "MinSizeIndex_of kTaskPoolSize h = \<lparr> msi_value = h \<rparr>"
    using index_below_invalid(2) [OF kTaskPoolSize_small assms(4)] by (simp add: MinSizeIndex_of_def)
  let ?s = "(Task_destroy h s')\<lparr> task_pool := p \<rparr>"
  have "InternalTryDelete h s' = Inr (True, ?s)"
    using t p hm assms(4) valid_handle [OF assms(4)]
    by (simp add: InternalTryDelete_def InternalHandleToPtr_ok InternalFree_def Task_destroy_def)
  moreover have "states ?s i = states s' i" by (simp add: Task_destroy_def)
  moreover have "states s i = Some st" "states s' i = Some (st\<lparr> fvalue := Some v, latch := 0 \<rparr>)"
    using task_state_of_states assms(1) s'(4) by blast+
  ultimately show ?thesis using s'(1,2) assms(2)
    by (intro exI [of _ s'] exI [of _ ?s] exI [of _ v])
      (simp add: Future_Get_ready Future_IsReady_def Future_Valid_def deref_state_def Task_destroy_def)
qed

theorem future_delivers_value_witness:
  "\<exists>(s :: nat executor) h i s' v. InternalCall (\<lambda>c s. Inr (c + 7, s)) h s = Inr s'
    \<and> Future_IsReady (Some i) s = Inr False \<and> Future_Get (Some i) s' = Some (Inr (Some v))"
proof -
  obtain s :: "nat executor" and V G a b where g: "graph_built V G s" "root_tasks V G [a]"
    and V: "V = {a, b}" "a \<noteq> b" "G a = [b]"
    using two_task_graph by blast
  have aV: "a \<in> V" "b \<in> V" using V by auto
  obtain i st where A: "task_state_of a s = Some (i, st)" "built_task V G a st" "a < kTaskPoolSize"
    using graph_built_task [OF g(1) aV(1)] .
  obtain j su where B: "task_state_of b s = Some (j, su)" "b < kTaskPoolSize"
    using graph_built_task [OF g(1) aV(2)] .
  have "indegree V G a = 0" using g(2) by (auto simp: root_tasks_def)
  then have "latch st = 1" using A(2) by (simp add: built_task_def word_unat_eq_iff)
  moreover have "store_inv s" using g(1) by (simp add: graph_built_def)
  moreover have "\<forall>g\<in>set (successors st). g < kTaskPoolSize \<and> g \<noteq> a \<and> task_state_of g s \<noteq> None"
    using A(2) V B by (simp add: successors_def built_task_def)
  ultimately obtain s' v where "InternalCall (\<lambda>c s. Inr (c + 7, s)) a s = Inr s'"
    "Future_IsReady (Some i) s = Inr False" "Future_Get (Some i) s' = Some (Inr (Some (v :: nat)))"
    using future_delivers_value [OF A(1) _ _ A(3), of "\<lambda>c s. Inr (c + 7, s)" "\<lambda>c. c + 7"] by auto
  then show ?thesis by blast
qed

end
