(* ===== verification/Queue_Properties.thy ===== *)
theory Queue_Properties
imports Queue_Execute
begin

text \<open>
  What the queue promises its clients: the driver is only asked for what the command buffer
  lifecycle allows, primary command buffers reach the device once and in order, and callbacks wait
  for the timeline. The remaining theorems show what happens when the client leaves the protocol,
  or when the code does not do what its comments say.
\<close>

definition ex_sync :: sync_info where
  "ex_sync = empty_sync\<lparr> signalSemaphores := [7], signalSemaphoreValues := [1], callbacks := [5] \<rparr>"

definition ex_ops :: "qop list" where
  "ex_ops = [QCommands (scope_desc_default True), QDrop 0, QEnqueueSubmit [ex_sync], QSubmit,
     QCompleted [(0, 0, 0)], QSwapAndResetPool, QSwapAndResetPool]"

lemmas queue_eval = ex_ops_def ex_sync_def q_init_def Queue_create_def CommandPool_create_def vkctx0_def emit_def
  scope_desc_default_def no_inheritance_def Commands_def with_level_def InternalBeginScope_def needs_array_def
  InternalEnqueueOnePending_def array_create_def put_array_def scope_construct_def array_Begin_def with_array_def
  array_Recording_bit array_Full_def array_Head_def kCommandBufferCount_def cb_of_def destroy_opt_def scope_copy_def
  scope_destroy_def array_End_def erase_at_def InternalPrepareSubmit_def InternalEndCommands_def array_Data_def
  InternalEnqueueSubmitted_def Queue_Submit_def SwapAndResetPool_def CommandPool_Reset_def array_Reset_def empty_sync_def
  empty_present_def empty_submit_def sync_info.defs submit_info.defs life0_def set_status_def resettable_def pool_idle_def
  VK_COMMAND_POOL_CREATE_RESET_COMMAND_BUFFER_BIT_def Let_def at_res_def bit_simps numeral_eq_Suc

text \<open>C3: Whatever a client of a queue does, as long as it keeps the protocol (\<open>qop_ok\<close>), the command
  buffers go through their lifecycle: no \<open>vkBegin\<close>, \<open>vkEnd\<close>, \<open>vkQueueSubmit\<close>, \<open>vkResetCommandPool\<close> is
  ever issued in a state the Vulkan specification forbids. The pools are created with the reset flag.\<close>
theorem queue_respects_lifecycle:
  assumes "fl AND VK_COMMAND_POOL_CREATE_RESET_COMMAND_BUFFER_BIT \<noteq> 0"
    and "q_protocol ops (q_init fl levels)" and "qruns ops (q_init fl levels) = Inr s"
  shows "life_run (calls (qs_ctx s)) life0 \<noteq> None"
proof -
  from q_init_inv [OF assms(1)] obtain st where "q_inv (qs_queue (q_init fl levels)) (qs_ctx (q_init fl levels)) st" by blast
  from qruns_inv [OF this assms(2,3)] show ?thesis by (auto simp: q_inv_def)
qed

lemma ex_run: "\<exists>s. qruns ex_ops (q_init 2 1) = Inr s"
  by (simp add: queue_eval)

lemma ex_protocol: "q_protocol ex_ops (q_init 2 1)"
  by (simp add: queue_eval)

lemma flag_two: "(2 :: u32) AND VK_COMMAND_POOL_CREATE_RESET_COMMAND_BUFFER_BIT \<noteq> 0"
  by (simp add: VK_COMMAND_POOL_CREATE_RESET_COMMAND_BUFFER_BIT_def)

theorem queue_respects_lifecycle_witness:
  "\<exists>s. qruns ex_ops (q_init 2 1) = Inr s \<and> life_run (calls (qs_ctx s)) life0 \<noteq> None"
  using ex_run queue_respects_lifecycle [OF flag_two ex_protocol] by blast

text \<open>C9: At any moment of a client that keeps the protocol, the primary command buffers begun so far
  are, in order: those handed to \<open>vkQueueSubmit\<close>, those in enqueued batches, and those recorded in the
  current pool. So each is submitted once, in the order it was begun, and none is lost.\<close>
theorem primary_submitted_in_order:
  assumes "fl AND VK_COMMAND_POOL_CREATE_RESET_COMMAND_BUFFER_BIT \<noteq> 0"
    and "q_protocol ops (q_init fl levels)" and "qruns ops (q_init fl levels) = Inr s"
  shows "primary_begun (calls (qs_ctx s)) = handed_over (calls (qs_ctx s))
           @ concat (map commandBuffers (pendingSubmits (qs_queue s)))
           @ recorded_in (qs_ctx s) (cp_pending (pool0 (qs_queue s)) 0)"
proof -
  from q_init_inv [OF assms(1)] obtain st where "q_inv (qs_queue (q_init fl levels)) (qs_ctx (q_init fl levels)) st" by blast
  from qruns_inv [OF this assms(2,3)] show ?thesis by (auto simp: q_inv_def order_ok_def queued_def)
qed

definition ex_ops2 :: "qop list" where
  "ex_ops2 = [QCommands (scope_desc_default True), QCopy 0, QDrop 0, QDrop 0, QEnqueueSubmit [ex_sync], QSubmit,
     QCommands (scope_desc_default True)]"

theorem primary_submitted_in_order_witness:
  "\<exists>s. qruns ex_ops2 (q_init 2 1) = Inr s \<and> primary_begun (calls (qs_ctx s)) = [(0, 0, 0), (0, 1, 0)]
     \<and> handed_over (calls (qs_ctx s)) = [(0, 0, 0)]
     \<and> primary_begun (calls (qs_ctx s)) = handed_over (calls (qs_ctx s))
           @ concat (map commandBuffers (pendingSubmits (qs_queue s)))
           @ recorded_in (qs_ctx s) (cp_pending (pool0 (qs_queue s)) 0)"
proof -
  have p: "q_protocol ex_ops2 (q_init 2 1)" by (simp add: ex_ops2_def queue_eval)
  obtain s where s: "qruns ex_ops2 (q_init 2 1) = Inr s" "primary_begun (calls (qs_ctx s)) = [(0, 0, 0), (0, 1, 0)]"
    "handed_over (calls (qs_ctx s)) = [(0, 0, 0)]"
    by (simp add: ex_ops2_def queue_eval primary_begun_def handed_over_def)
  from s primary_submitted_in_order [OF flag_two p s(1)] show ?thesis by blast
qed

text \<open>With a pool created without the reset flag the same client gets an invalid driver call:
  \<open>CommandPool::Reset\<close> then resets the buffers one by one, which Vulkan allows only with the flag, and
  \<open>vkResetCommandPool\<close>, which needs no flag, is issued only with it.\<close>
theorem pool_without_reset_flag_invalid:
  "\<exists>s. q_protocol ex_ops (q_init 0 1) \<and> qruns ex_ops (q_init 0 1) = Inr s
     \<and> life_run (calls (qs_ctx s)) life0 = None
     \<and> VkResetCommandBuffer (0, 0, 0) True \<in> set (calls (qs_ctx s))"
  by (simp add: queue_eval)

text \<open>\<open>SwapAndResetPool\<close> does not check that the pool it resets has nothing recorded: a client that
  swaps twice with commands recorded but not enqueued, and enqueues them later, submits command
  buffers that the reset has put back in the initial state.\<close>
theorem swap_with_recorded_commands_invalid:
  "\<exists>s. qruns [QCommands (scope_desc_default True), QDrop 0, QSwapAndResetPool, QSwapAndResetPool,
       QEnqueueSubmit [ex_sync], QSubmit] (q_init 2 1) = Inr s
     \<and> life_run (calls (qs_ctx s)) life0 = None \<and> handed_over (calls (qs_ctx s)) = [(0, 0, 0)]"
  by (simp add: queue_eval handed_over_def)

text \<open>A batch enqueued while nothing is recorded loses everything its client asked for: the
  semaphores to wait for and to signal, their values and the callbacks.\<close>
theorem empty_batch_drops_sync_info:
  "case cp_recording (pool0 q) 0 of Some _ \<Rightarrow> True | None \<Rightarrow>
     (if cp_pending (pool0 q) 0 = [] \<and> 0 < cp_levels (pool0 q)
      then \<exists>q'. EnqueueSubmit [si] q x = Inr (q', x) \<and> pendingSubmits q' = pendingSubmits q @ [empty_submit]
      else True)"
  by (auto simp: InternalPrepareSubmit_def InternalEndCommands_def with_level_def destroy_opt_def split: option.splits)

section \<open>Callbacks\<close>

fun running_max :: "u64 \<Rightarrow> u64 list \<Rightarrow> u64 list" where
  "running_max m [] = []"
| "running_max m (v # vs) = max m v # running_max (max m v) vs"

lemma enqueue_callbacks_eq:
  "enqueue_callbacks m ss cq = (foldl max m (map timelineValue ss),
     cq @ zip (map callbacks ss) (running_max m (map timelineValue ss)))"
  by (induction ss arbitrary: m cq) (simp_all add: Let_def)

lemma running_max_props:
  "length (running_max m vs) = length vs" "sorted (m # running_max m vs)"
  "\<forall>i<length vs. vs ! i \<le> running_max m vs ! i"
proof -
  show "length (running_max m vs) = length vs" by (induction vs arbitrary: m) simp_all
  show "sorted (m # running_max m vs)" by (induction vs arbitrary: m) (simp_all, fastforce)
  show "\<forall>i<length vs. vs ! i \<le> running_max m vs ! i"
    by (induction vs arbitrary: m) (auto simp: nth_Cons split: nat.splits)
qed

lemma dequeue_callbacks_eq:
  "dequeue_callbacks t cq = (map fst (filter (\<lambda>(cs, v). v < t) cq), filter (\<lambda>(cs, v). \<not> v < t) cq)"
  by (induction t cq rule: dequeue_callbacks.induct) (auto simp: not_less)

text \<open>The callbacks of submitted batches queue up in submission order, each under a timeline value
  no smaller than its own batch's and no smaller than any earlier batch's, and \<open>Queue_Submit\<close> returns the
  greatest of them.\<close>
theorem Submit_queues_callbacks:
  "case Queue_Submit q x of (h, q', x') \<Rightarrow> \<exists>vs. timelineCallbacks q' = timelineCallbacks q @ zip (map callbacks (pendingSubmits q)) vs
     \<and> length vs = length (pendingSubmits q) \<and> sorted vs
     \<and> list_all2 (\<lambda>s v. timelineValue s \<le> v) (pendingSubmits q) vs
     \<and> maxTimelineValue h = foldl max 0 (map timelineValue (pendingSubmits q)) \<and> pendingSubmits q' = []"
proof (cases "pendingSubmits q = []")
  case True then show ?thesis by (simp add: Queue_Submit_def)
next
  case False
  let ?vs = "running_max 0 (map timelineValue (pendingSubmits q))"
  have "list_all2 (\<lambda>s v. timelineValue s \<le> v) (pendingSubmits q) ?vs" "length ?vs = length (pendingSubmits q)" "sorted ?vs"
    using running_max_props [where m = 0 and vs = "map timelineValue (pendingSubmits q)"] by (auto simp: list_all2_conv_all_nth)
  then show ?thesis using False by (auto simp: Queue_Submit_def enqueue_callbacks_eq)
qed

text \<open>\<open>SubmitCallbacks\<close> hands over, in order, exactly the callbacks queued under a value strictly
  below the timeline, once each, and keeps the others in order.\<close>
theorem SubmitCallbacks_strictly_below:
  "SubmitCallbacks t q = (map fst (filter (\<lambda>(cs, v). v < t) (timelineCallbacks q)),
     q\<lparr> timelineCallbacks := filter (\<lambda>(cs, v). \<not> v < t) (timelineCallbacks q) \<rparr>)"
  by (simp add: SubmitCallbacks_def dequeue_callbacks_eq)

text \<open>The callbacks of a batch are not run when the timeline reaches the batch's own value, that is
  when the device has finished it: they wait for some later batch to finish as well.\<close>
theorem callbacks_wait_for_later_batch:
  "case Queue_Submit q x of (h, q', x') \<Rightarrow> (if pendingSubmits q = [b] \<and> timelineCallbacks q = []
     then SubmitCallbacks (timelineValue b) q' = ([], q') else True)"
  by (auto simp: Queue_Submit_def enqueue_callbacks_eq SubmitCallbacks_def dequeue_callbacks_eq)

text \<open>The move constructor leaves the callbacks and the pending present behind.\<close>
lemma Queue_move_loses_callbacks:
  "SubmitCallbacks t (Queue_move q) = ([], Queue_move q) \<and> pendingPresent (Queue_move q) = empty_present"
  by (simp add: SubmitCallbacks_def Queue_move_def)

end
