(* ===== verification/Image_Loading.thy ===== *)
theory Image_Loading
imports Image_Model "HOL-Library.Multiset"
begin

text \<open>
  The mip chain and the block compression of loaded images: where each level lies in the staging
  buffer, where its blocks are written, and that the threads compress each block exactly once.
\<close>

section \<open>Sizes without wrap-around\<close>

lemma wrap32_id [simp]: "x < 2 ^ 32 \<Longrightarrow> wrap32 x = x"
  by (simp add: wrap32_def)

definition up4 :: "nat \<Rightarrow> nat" where
  "up4 n = 4 * ((n + 3) div 4)"

lemma RoundUp_4: "n \<le> 16384 \<Longrightarrow> RoundUp n 4 = up4 n"
proof -
  assume n: "n \<le> 16384"
  define q r where "q = n div 4" and "r = n mod 4"
  have e: "n = 4 * q + r" "r < 4" by (simp_all add: q_def r_def)
  show ?thesis
  proof (cases "r = 0")
    case True
    then show ?thesis using e by (simp add: RoundUp_def up4_def)
  next
    case False
    then have "(n + 3) div 4 = q + 1" using e by (simp add: div_nat_eqI)
    moreover have "n mod 4 = r" by (simp add: r_def)
    ultimately show ?thesis using e False n by (simp add: RoundUp_def up4_def)
  qed
qed

lemma up4_le: "n \<le> 16384 \<Longrightarrow> up4 n \<le> 16384"
  by (simp add: up4_def)

lemma up4_ge: "4 * (n div 4) \<le> up4 n" "n \<le> up4 n"
  by (simp_all add: up4_def)

lemma up4_eq: "4 * (n div 4) = up4 n \<longleftrightarrow> 4 dvd n"
  by (simp add: up4_def) presburger

lemma up4_0 [simp]: "up4 n = 0 \<longleftrightarrow> n = 0"
  unfolding up4_def by presburger

lemma shr_le: "(n :: nat) \<le> 16384 \<Longrightarrow> n div 2 ^ i \<le> 16384"
  using div_le_dividend [of n "2 ^ i"] by linarith

definition mip_bytes :: "bool \<Rightarrow> nat \<Rightarrow> nat \<Rightarrow> nat" where
  "mip_bytes hasAlpha w h = (up4 w * up4 h) div (if hasAlpha then 1 else 2)"

lemma mip_size_bytes:
  assumes "w \<le> 16384" "h \<le> 16384"
  shows "mip_size hasAlpha w h = mip_bytes hasAlpha w h" "mip_bytes hasAlpha w h \<le> 2 ^ 28"
proof -
  have "up4 w * up4 h \<le> 16384 * 16384" using assms by (intro mult_le_mono up4_le)
  then have u: "up4 w * up4 h \<le> 2 ^ 28" by simp
  then show "mip_size hasAlpha w h = mip_bytes hasAlpha w h"
    using assms by (simp add: mip_size_def mip_bytes_def RoundUp_4 Let_def)
  show "mip_bytes hasAlpha w h \<le> 2 ^ 28" unfolding mip_bytes_def by (rule order.trans [OF div_le_dividend u])
qed

lemma floor_log2_bounds: "0 < n \<Longrightarrow> 2 ^ floor_log2 n \<le> n \<and> n < 2 ^ Suc (floor_log2 n)"
proof (induction n rule: floor_log2.induct)
  case (1 n)
  show ?case
  proof (cases "n < 2")
    case True
    then show ?thesis using "1.prems" by (simp add: floor_log2.simps)
  next
    case False
    then have "2 ^ floor_log2 (n div 2) \<le> n div 2 \<and> n div 2 < 2 ^ Suc (floor_log2 (n div 2))"
      using "1.IH" by simp
    moreover have "floor_log2 n = Suc (floor_log2 (n div 2))" using False by (simp add: floor_log2.simps)
    ultimately show ?thesis by (simp, linarith)
  qed
qed

lemma mip_count_le: "0 < w \<Longrightarrow> w \<le> 16384 \<Longrightarrow> h \<le> 16384 \<Longrightarrow> mip_count w h \<le> 15"
proof -
  assume a: "0 < w" "w \<le> 16384" "h \<le> 16384"
  have m: "0 < max w h" "max w h \<le> 16384" using a by simp_all
  have "2 ^ floor_log2 (max w h) \<le> max w h" using floor_log2_bounds [OF m(1)] by blast
  also have "max w h \<le> 2 ^ 14" using m(2) by simp
  finally have "2 ^ floor_log2 (max w h) \<le> (2 :: nat) ^ 14" .
  then have "floor_log2 (max w h) \<le> 14" by (rule power_le_imp_le_exp [rotated]) simp
  then show ?thesis by (simp add: mip_count_def)
qed

section \<open>The mip chain\<close>

definition level_bytes :: "bool \<Rightarrow> nat \<Rightarrow> nat \<Rightarrow> nat \<Rightarrow> nat" where
  "level_bytes hasAlpha w h i = mip_bytes hasAlpha (w div 2 ^ i) (h div 2 ^ i)"

definition level_at :: "bool \<Rightarrow> nat \<Rightarrow> nat \<Rightarrow> nat \<Rightarrow> nat \<Rightarrow> mip_level" where
  "level_at hasAlpha w h o' i = \<lparr> ml_width = w div 2 ^ i, ml_height = h div 2 ^ i, ml_size = level_bytes hasAlpha w h i,
     ml_offset = o' \<rparr>"

lemma mip_levels_spec:
  assumes "w \<le> 16384" "h \<le> 16384"
  shows "k + length its \<le> 15 \<Longrightarrow> o' \<le> k * 2 ^ 28 \<Longrightarrow> mip_levels hasAlpha w h o' its =
     (map (\<lambda>j. level_at hasAlpha w h (o' + sum_list (map (level_bytes hasAlpha w h) (take j its))) (its ! j)) [0..<length its],
      o' + sum_list (map (level_bytes hasAlpha w h) its))"
proof (induction its arbitrary: k o')
  case (Cons i its)
  have s: "mip_size hasAlpha (w div 2 ^ i) (h div 2 ^ i) = level_bytes hasAlpha w h i"
    and b: "level_bytes hasAlpha w h i \<le> 2 ^ 28"
    using mip_size_bytes [OF shr_le shr_le, OF assms] by (simp_all add: level_bytes_def)
  have k: "k < 15" using Cons.prems(1) by simp
  have "o' + level_bytes hasAlpha w h i \<le> Suc k * 2 ^ 28" using b Cons.prems(2) by simp
  moreover have "Suc k * 2 ^ 28 \<le> (15 :: nat) * 2 ^ 28" using k by (intro mult_le_mono1) simp
  ultimately have "o' + level_bytes hasAlpha w h i < 2 ^ 32" by simp
  then have "wrap32 (o' + level_bytes hasAlpha w h i) = o' + level_bytes hasAlpha w h i" by simp
  moreover have m: "map f [0..<Suc n] = f 0 # map (\<lambda>j. f (Suc j)) [0..<n]" for f :: "nat \<Rightarrow> mip_level" and n
    by (simp only: map_upt_Suc)
  ultimately show ?case
    using Cons.IH [of "Suc k" "o' + level_bytes hasAlpha w h i"] Cons.prems b
    by (simp add: s Let_def m level_at_def add.assoc del: upt_Suc)
qed simp

lemma load_levels_spec:
  assumes "0 < w" "w \<le> 16384" "h \<le> 16384"
  shows "load_levels hasAlpha w h =
     (map (\<lambda>j. level_at hasAlpha w h (\<Sum>i<j. level_bytes hasAlpha w h i) j) [0..<mip_count w h],
      \<Sum>i<mip_count w h. level_bytes hasAlpha w h i)"
proof -
  have s: "sum_list (map f [0..<n]) = (\<Sum>i<n. f i)" for f :: "nat \<Rightarrow> nat" and n
    by (simp add: interv_sum_list_conv_sum_set_nat atLeast0LessThan)
  have "sum_list (map (level_bytes hasAlpha w h) (take j [0..<mip_count w h])) = (\<Sum>i<j. level_bytes hasAlpha w h i)"
    if "j < mip_count w h" for j
    using that by (simp add: take_upt s del: upt_Suc)
  then show ?thesis
    using mip_levels_spec [OF assms(2,3), of 0 "[0..<mip_count w h]" 0 hasAlpha] mip_count_le [OF assms]
    by (simp add: load_levels_def s del: upt_Suc)
qed

section \<open>Where the blocks of a level lie\<close>

definition level_ok :: "mip_level \<Rightarrow> bool" where
  "level_ok l \<longleftrightarrow> ml_width l \<le> 16384 \<and> ml_height l \<le> 16384"

definition block_bytes :: "bool \<Rightarrow> mip_level \<Rightarrow> nat" where
  "block_bytes hasAlpha l = (4 * (ml_width l div 4)) * (4 * (ml_height l div 4)) div (if hasAlpha then 1 else 2)"

lemma block_count_bytes:
  assumes "level_ok l"
  shows "block_count l = (ml_height l div 4) * (ml_width l div 4)"
    and "block_count l * compressed_block_size hasAlpha = block_bytes hasAlpha l"
    and "block_bytes hasAlpha l < 2 ^ 32"
proof -
  have d: "n div 4 \<le> 4096" if "n \<le> 16384" for n :: nat using that by linarith
  have "(ml_height l div 4) * (ml_width l div 4) \<le> 4096 * 4096"
    using assms by (intro mult_le_mono d) (simp_all add: level_ok_def)
  then have b: "(ml_height l div 4) * (ml_width l div 4) \<le> 2 ^ 24" by simp
  then show c: "block_count l = (ml_height l div 4) * (ml_width l div 4)" by (simp add: block_count_def)
  have "(4 * (ml_width l div 4)) * (4 * (ml_height l div 4)) = 16 * ((ml_height l div 4) * (ml_width l div 4))" by simp
  then show e: "block_count l * compressed_block_size hasAlpha = block_bytes hasAlpha l"
    unfolding block_bytes_def c compressed_block_size_def by simp
  show "block_bytes hasAlpha l < 2 ^ 32" using b unfolding e [symmetric] c compressed_block_size_def by simp
qed

lemma block_bytes_mip_bytes:
  "block_bytes hasAlpha l \<le> mip_bytes hasAlpha (ml_width l) (ml_height l)"
  "block_bytes hasAlpha l = mip_bytes hasAlpha (ml_width l) (ml_height l) \<longleftrightarrow>
     ml_width l = 0 \<or> ml_height l = 0 \<or> 4 dvd ml_width l \<and> 4 dvd ml_height l"
proof -
  define A B U V where d: "A = 4 * (ml_width l div 4)" "B = 4 * (ml_height l div 4)"
    "U = up4 (ml_width l)" "V = up4 (ml_height l)"
  have le: "A \<le> U" "B \<le> V" using up4_ge(1) by (simp_all add: d)
  have ev: "even (A * B)" "even (U * V)" by (simp_all add: d up4_def)
  have half: "x div (if hasAlpha then 1 else 2) = y div (if hasAlpha then 1 else 2) \<longleftrightarrow> x = y"
    if "even x" "even y" for x y :: nat using that by auto
  have z: "block_bytes hasAlpha l = A * B div (if hasAlpha then 1 else 2)"
    "mip_bytes hasAlpha (ml_width l) (ml_height l) = U * V div (if hasAlpha then 1 else 2)"
    by (simp_all add: block_bytes_def mip_bytes_def d)
  show "block_bytes hasAlpha l \<le> mip_bytes hasAlpha (ml_width l) (ml_height l)"
    unfolding z by (intro div_le_mono mult_le_mono le)
  have "A * B = U * V \<longleftrightarrow> U = 0 \<or> V = 0 \<or> A = U \<and> B = V"
  proof
    assume e: "A * B = U * V"
    show "U = 0 \<or> V = 0 \<or> A = U \<and> B = V"
    proof (rule ccontr)
      assume n: "\<not> (U = 0 \<or> V = 0 \<or> A = U \<and> B = V)"
      then consider "A < U" | "B < V" using le by linarith
      then have "A * B < U * V"
      proof cases
        case 1
        have "A * B \<le> A * V" using le(2) by simp
        also have "\<dots> < U * V" using 1 n by simp
        finally show ?thesis .
      next
        case 2
        have "A * B \<le> U * B" using le(1) by simp
        also have "\<dots> < U * V" using 2 n by simp
        finally show ?thesis .
      qed
      then show False using e by simp
    qed
  next
    assume "U = 0 \<or> V = 0 \<or> A = U \<and> B = V"
    then show "A * B = U * V" using le by auto
  qed
  moreover have "A = U \<longleftrightarrow> 4 dvd ml_width l" "B = V \<longleftrightarrow> 4 dvd ml_height l" "U = 0 \<longleftrightarrow> ml_width l = 0"
    "V = 0 \<longleftrightarrow> ml_height l = 0" by (simp_all add: d up4_eq)
  ultimately show "block_bytes hasAlpha l = mip_bytes hasAlpha (ml_width l) (ml_height l) \<longleftrightarrow>
     ml_width l = 0 \<or> ml_height l = 0 \<or> 4 dvd ml_width l \<and> 4 dvd ml_height l"
    unfolding z half [OF ev] by simp
qed

section \<open>Compressing one level\<close>

lemma block_in_source:
  assumes "level_ok l" "b < block_count l" "ml_width l * ml_height l * 4 \<le> length src"
  shows "\<exists>block. extractBlock src (src_offset l b) (ml_width l) = Inr block"
proof -
  define w h C where d: "w = ml_width l" "h = ml_height l" "C = ml_width l div 4"
  have bc: "b < (h div 4) * C" using assms(2) block_count_bytes(1) [OF assms(1)] by (simp add: d)
  then have C: "0 < C" by (cases C) simp_all
  have r: "b div C < h div 4" using bc C by (simp add: less_mult_imp_div_less)
  have c: "b mod C < C" using C by simp
  have "4 * (b div C) + 4 \<le> h" using r by linarith
  then have "(4 * (b div C) + 4) * w \<le> h * w" by (rule mult_le_mono1)
  then have 1: "4 * (b div C) * w + 4 * w \<le> w * h" by (simp add: algebra_simps)
  have 2: "4 * (b mod C) + 4 \<le> w" using c by (simp add: d)
  define z where "z = 4 * (b div C) * w"
  have z1: "z + 4 * w \<le> w * h" using 1 by (simp add: z_def)
  have "w * h \<le> 16384 * 16384" using assms(1) by (intro mult_le_mono) (simp_all add: level_ok_def d)
  then have lim: "w * h \<le> 268435456" by simp
  have "src_offset l b = wrap32 ((z + 4 * (b mod C)) * 4)" by (simp add: src_offset_def Let_def d z_def)
  also have "\<dots> = (z + 4 * (b mod C)) * 4"
  proof (rule wrap32_id)
    have "z + 4 * (b mod C) \<le> w * h" using z1 2 by linarith
    then have "(z + 4 * (b mod C)) * 4 \<le> 268435456 * 4" using lim by (intro mult_le_mono1) (rule order.trans)
    then show "(z + 4 * (b mod C)) * 4 < 2 ^ 32" by simp
  qed
  finally have o': "src_offset l b = (z + 4 * (b mod C)) * 4" .
  have "src_offset l b + 3 * (w * 4) + 16 \<le> w * h * 4" 
  proof -
    have "(z + 4 * m) * 4 + 3 * (w * 4) + 16 \<le> q * 4" if "z + 4 * w \<le> q" "4 * m + 4 \<le> w" for m q
      using that by (simp add: algebra_simps)
    from this [OF z1 2] show ?thesis unfolding o' .
  qed
  then have "src_offset l b + 3 * (ml_width l * 4) + 16 \<le> length src" using assms(3) by (simp add: d)
  then show ?thesis by (simp add: extractBlock_def)
qed

definition block_of :: "u8 list \<Rightarrow> mip_level \<Rightarrow> nat \<Rightarrow> u8 list" where
  "block_of src l b = (case extractBlock src (src_offset l b) (ml_width l) of Inl e \<Rightarrow> [] | Inr x \<Rightarrow> x)"

lemma div_eq_block: "0 < S \<Longrightarrow> (j :: nat) div S = b \<longleftrightarrow> b * S \<le> j \<and> j < b * S + S"
proof
  assume "0 < S" "j div S = b"
  then have "b * S + j mod S = j" "j mod S < S" using div_mult_mod_eq [of j S] by simp_all
  then show "b * S \<le> j \<and> j < b * S + S" by linarith
qed (intro div_nat_eqI, simp_all add: mult.commute)

lemma compress_block_Inr:
  assumes "level_ok l" "b < block_count l" "ml_width l * ml_height l * 4 \<le> length src"
    "\<And>x. length (dxt hasAlpha x) = compressed_block_size hasAlpha" "dst + block_bytes hasAlpha l \<le> length buf"
  shows "\<exists>buf'. compress_block dxt hasAlpha src l dst b buf = Inr buf' \<and> length buf' = length buf \<and>
     (\<forall>i. buf' ! i = (if dst \<le> i \<and> (i - dst) div compressed_block_size hasAlpha = b
        then Some (dxt hasAlpha (block_of src l b) ! ((i - dst) mod compressed_block_size hasAlpha)) else buf ! i))"
proof -
  obtain x where x: "extractBlock src (src_offset l b) (ml_width l) = Inr x" using block_in_source [OF assms(1-3)] by blast
  define S where "S = compressed_block_size hasAlpha"
  have S: "0 < S" by (simp add: S_def compressed_block_size_def)
  have "(b + 1) * S \<le> block_count l * S" using assms(2) by (intro mult_le_mono1) simp
  then have e: "b * S + S \<le> block_bytes hasAlpha l" using block_count_bytes(2) [OF assms(1)] by (simp add: S_def)
  then have w: "wrap32 (b * S) = b * S" using block_count_bytes(3) [OF assms(1), of hasAlpha] by simp
  define out where "out = map Some (dxt hasAlpha x)"
  have lo: "length out = S" by (simp add: out_def assms(4) S_def)
  define buf' where "buf' = take (dst + b * S) buf @ out @ drop (dst + b * S + S) buf"
  have le: "dst + b * S + S \<le> length buf" using e assms(5) by simp
  have r: "compress_block dxt hasAlpha src l dst b buf = Inr buf'"
    using x w le by (simp add: compress_block_def Let_def S_def [symmetric] assms(4) buf'_def out_def)
  have len: "length buf' = length buf" using le lo by (simp add: buf'_def)
  have "buf' ! i = (if dst \<le> i \<and> (i - dst) div S = b then Some (dxt hasAlpha x ! ((i - dst) mod S)) else buf ! i)" for i
  proof -
    have q: "dst \<le> i \<and> (i - dst) div S = b \<longleftrightarrow> dst + b * S \<le> i \<and> i < dst + b * S + S"
    proof (cases "dst \<le> i")
      case True
      then show ?thesis using div_eq_block [OF S, of "i - dst" b] by linarith
    qed auto
    consider "i < dst + b * S" | "dst + b * S \<le> i" "i < dst + b * S + S" | "dst + b * S + S \<le> i" by linarith
    then show ?thesis
    proof cases
      case 1
      then show ?thesis unfolding q using le by (simp add: buf'_def nth_append)
    next
      case 2
      then have "(i - dst) div S = b" using q by blast
      then have "(i - dst) mod S = i - dst - b * S" by (simp add: minus_div_mult_eq_mod [symmetric])
      moreover have "i - (dst + b * S) < S" using 2 by linarith
      ultimately show ?thesis unfolding q using 2 le lo by (simp add: buf'_def nth_append out_def)
    next
      case 3
      then have "\<not> i - (dst + b * S) < S" by linarith
      with 3 show ?thesis unfolding q using le lo by (simp add: buf'_def nth_append)
    qed
  qed
  then show ?thesis using r len by (simp add: block_of_def x S_def)
qed

lemma compress_in_order_Inr:
  assumes "level_ok l" "ml_width l * ml_height l * 4 \<le> length src"
    "\<And>x. length (dxt hasAlpha x) = compressed_block_size hasAlpha"
  shows "\<forall>b\<in>set bs. b < block_count l \<Longrightarrow> dst + block_bytes hasAlpha l \<le> length buf \<Longrightarrow>
    \<exists>buf'. compress_in_order dxt hasAlpha src l dst bs buf = Inr buf' \<and> length buf' = length buf \<and>
     (\<forall>i. buf' ! i = (if dst \<le> i \<and> (i - dst) div compressed_block_size hasAlpha \<in> set bs
        then Some (dxt hasAlpha (block_of src l ((i - dst) div compressed_block_size hasAlpha))
                     ! ((i - dst) mod compressed_block_size hasAlpha)) else buf ! i))"
proof (induction bs arbitrary: buf)
  case (Cons b bs)
  have b: "b < block_count l" using Cons.prems(1) by simp
  obtain buf1 where 1: "compress_block dxt hasAlpha src l dst b buf = Inr buf1" "length buf1 = length buf"
    "\<And>i. buf1 ! i = (if dst \<le> i \<and> (i - dst) div compressed_block_size hasAlpha = b
        then Some (dxt hasAlpha (block_of src l b) ! ((i - dst) mod compressed_block_size hasAlpha)) else buf ! i)"
    using compress_block_Inr [where dxt = dxt, OF assms(1) b assms(2,3) Cons.prems(2)] by blast
  have "dst + block_bytes hasAlpha l \<le> length buf1" using Cons.prems(2) 1(2) by simp
  then obtain buf2 where 2: "compress_in_order dxt hasAlpha src l dst bs buf1 = Inr buf2" "length buf2 = length buf1"
    "\<And>i. buf2 ! i = (if dst \<le> i \<and> (i - dst) div compressed_block_size hasAlpha \<in> set bs
        then Some (dxt hasAlpha (block_of src l ((i - dst) div compressed_block_size hasAlpha))
                     ! ((i - dst) mod compressed_block_size hasAlpha)) else buf1 ! i)"
    using Cons.IH [of buf1] Cons.prems(1) by auto
  show ?case using 1 2 by (intro exI [of _ buf2]) auto
qed simp

lemma compress_order_irrelevant:
  assumes "level_ok l" "ml_width l * ml_height l * 4 \<le> length src"
    "\<And>x. length (dxt hasAlpha x) = compressed_block_size hasAlpha" "dst + block_bytes hasAlpha l \<le> length buf"
    "set bs = set cs" "\<forall>b\<in>set cs. b < block_count l"
  shows "compress_in_order dxt hasAlpha src l dst bs buf = compress_in_order dxt hasAlpha src l dst cs buf"
proof -
  note c = compress_in_order_Inr [where dxt = dxt, OF assms(1-3)]
  obtain x where x: "compress_in_order dxt hasAlpha src l dst bs buf = Inr x" "length x = length buf"
     "\<forall>i. x ! i = (if dst \<le> i \<and> (i - dst) div compressed_block_size hasAlpha \<in> set bs
        then Some (dxt hasAlpha (block_of src l ((i - dst) div compressed_block_size hasAlpha))
                     ! ((i - dst) mod compressed_block_size hasAlpha)) else buf ! i)"
    using c [of bs dst buf] assms(4-6) by auto
  obtain y where y: "compress_in_order dxt hasAlpha src l dst cs buf = Inr y" "length y = length buf"
     "\<forall>i. y ! i = (if dst \<le> i \<and> (i - dst) div compressed_block_size hasAlpha \<in> set cs
        then Some (dxt hasAlpha (block_of src l ((i - dst) div compressed_block_size hasAlpha))
                     ! ((i - dst) mod compressed_block_size hasAlpha)) else buf ! i)"
    using c [of cs dst buf] assms(4-6) by auto
  have "x = y" using x(2,3) y(2,3) assms(5) by (intro nth_equalityI) simp_all
  then show ?thesis using x(1) y(1) by simp
qed

section \<open>The whole chain\<close>

lemma sum_le_eq_iff:
  "(i :: nat) \<le> n \<Longrightarrow> (\<And>j. j < n \<Longrightarrow> f j \<le> g j) \<Longrightarrow> (\<Sum>j<i. f j) = (\<Sum>j<i. g j :: nat) \<longleftrightarrow> (\<forall>j<i. f j = g j)"
proof (induction i)
  case (Suc i)
  have "(\<Sum>j<i. f j) \<le> (\<Sum>j<i. g j)" using Suc.prems by (intro sum_mono) simp
  moreover have "f i \<le> g i" using Suc.prems by simp
  ultimately have "(\<Sum>j<Suc i. f j) = (\<Sum>j<Suc i. g j) \<longleftrightarrow> (\<Sum>j<i. f j) = (\<Sum>j<i. g j) \<and> f i = g i" by auto
  then show ?case using Suc by (auto simp: less_Suc_eq)
qed simp

definition level_start :: "bool \<Rightarrow> mip_level list \<Rightarrow> nat \<Rightarrow> nat" where
  "level_start hasAlpha ls i = sum_list (map (block_bytes hasAlpha) (take i ls))"

lemma compress_level_all:
  assumes "level_ok l" "ml_width l * ml_height l * 4 \<le> length src"
    "\<And>x. length (dxt hasAlpha x) = compressed_block_size hasAlpha" "dst + block_bytes hasAlpha l \<le> length buf"
  shows "\<exists>b. compress_in_order dxt hasAlpha src l dst [0..<block_count l] buf = Inr b \<and> length b = length buf
     \<and> (\<forall>i. dst + block_bytes hasAlpha l \<le> i \<longrightarrow> b ! i = buf ! i)"
proof -
  obtain b where b: "compress_in_order dxt hasAlpha src l dst [0..<block_count l] buf = Inr b" "length b = length buf"
     "\<forall>i. b ! i = (if dst \<le> i \<and> (i - dst) div compressed_block_size hasAlpha \<in> {0..<block_count l}
        then Some (dxt hasAlpha (block_of src l ((i - dst) div compressed_block_size hasAlpha))
                     ! ((i - dst) mod compressed_block_size hasAlpha)) else buf ! i)"
    using compress_in_order_Inr [where dxt = dxt and bs = "[0..<block_count l]", OF assms(1-3) _ assms(4)] by auto
  have S: "0 < compressed_block_size hasAlpha" by (simp add: compressed_block_size_def)
  have "b ! i = buf ! i" if "dst + block_bytes hasAlpha l \<le> i" for i
  proof -
    have "block_count l * compressed_block_size hasAlpha \<le> i - dst"
      using that block_count_bytes(2) [OF assms(1), of hasAlpha] by simp
    then have "block_count l \<le> (i - dst) div compressed_block_size hasAlpha" using S by (simp add: less_eq_div_iff_mult_less_eq)
    then show ?thesis using b(3) by simp
  qed
  then show ?thesis using b(1,2) by blast
qed

declare compress_levels.simps [simp del]

lemma compress_levels_Inr:
  assumes "\<And>x. length (dxt hasAlpha x) = compressed_block_size hasAlpha"
    "\<And>x k k'. length (resize x k k') = mip_buffer_size k'"
  shows "\<forall>k\<in>set (l # ls). level_ok k \<Longrightarrow> ml_width l * ml_height l * 4 \<le> length src \<Longrightarrow>
    dst + sum_list (map (block_bytes hasAlpha) (l # ls)) \<le> length buf \<Longrightarrow>
    \<exists>buf'. compress_levels dxt resize hasAlpha src l ls dst buf
        = Inr (dst + sum_list (map (block_bytes hasAlpha) (l # ls)), buf') \<and> length buf' = length buf \<and>
      (\<forall>i. dst + sum_list (map (block_bytes hasAlpha) (l # ls)) \<le> i \<longrightarrow> buf' ! i = buf ! i)"
proof (induction ls arbitrary: src l dst buf)
  case (Nil src l dst buf)
  then have ok: "level_ok l" and len: "dst + block_bytes hasAlpha l \<le> length buf" by simp_all
  obtain b where "compress_in_order dxt hasAlpha src l dst [0..<block_count l] buf = Inr b" "length b = length buf"
     "\<forall>i. dst + block_bytes hasAlpha l \<le> i \<longrightarrow> b ! i = buf ! i"
    using compress_level_all [where dxt = dxt and hasAlpha = hasAlpha, OF ok Nil.prems(2) assms(1) len] by blast
  then show ?case using block_count_bytes(2,3) [OF ok, of hasAlpha]
    by (simp add: compress_levels.simps [of dxt resize hasAlpha src l "[]"] Let_def)
next
  case (Cons l' ls src l dst buf)
  have ok: "level_ok l" and len: "dst + block_bytes hasAlpha l \<le> length buf" using Cons.prems by simp_all
  obtain b where b: "compress_in_order dxt hasAlpha src l dst [0..<block_count l] buf = Inr b" "length b = length buf"
     "\<forall>i. dst + block_bytes hasAlpha l \<le> i \<longrightarrow> b ! i = buf ! i"
    using compress_level_all [where dxt = dxt and hasAlpha = hasAlpha, OF ok Cons.prems(2) assms(1) len] by blast
  have "ml_width l' * ml_height l' * 4 \<le> length (resize src l l')"
    unfolding assms(2) mip_buffer_size_def by (intro mult_le_mono) simp_all
  then obtain c where c: "compress_levels dxt resize hasAlpha (resize src l l') l' ls (dst + block_bytes hasAlpha l) b
        = Inr (dst + block_bytes hasAlpha l + sum_list (map (block_bytes hasAlpha) (l' # ls)), c)" "length c = length b"
      "\<forall>i. dst + block_bytes hasAlpha l + sum_list (map (block_bytes hasAlpha) (l' # ls)) \<le> i \<longrightarrow> c ! i = b ! i"
    using Cons.IH [of l' "resize src l l'" "dst + block_bytes hasAlpha l" b] Cons.prems b(2) by auto
  have "compress_levels dxt resize hasAlpha src l (l' # ls) dst buf
      = compress_levels dxt resize hasAlpha (resize src l l') l' ls (dst + block_bytes hasAlpha l) b"
    using block_count_bytes(2,3) [OF ok, of hasAlpha]
    by (simp add: compress_levels.simps [of dxt resize hasAlpha src l "l' # ls"] b(1) Let_def)
  then show ?case using b(2,3) c by (intro exI [of _ c]) (simp add: add.assoc)
qed

section \<open>The threads\<close>

fun at_of :: "block_worker \<Rightarrow> nat list" where
  "at_of (WorkerAt b) = [b]"
| "at_of _ = []"

definition at_blocks :: "block_worker list \<Rightarrow> nat multiset" where
  "at_blocks ws = mset (concat (map at_of ws))"

lemma at_blocks_update:
  "t < length ws \<Longrightarrow> at_blocks (ws[t := w]) + mset (at_of (ws ! t)) = at_blocks ws + mset (at_of w)"
proof (induction ws arbitrary: t)
  case (Cons v ws)
  then show ?case by (cases t) (auto simp: at_blocks_def add.left_commute add.assoc)
qed simp

definition done_count :: "block_worker list \<Rightarrow> nat" where
  "done_count ws = length (filter (\<lambda>w. w = WorkerDone) ws)"

definition workers_inv :: "nat \<Rightarrow> nat \<Rightarrow> nat \<Rightarrow> compress_state \<Rightarrow> bool" where
  "workers_inv n T k s \<longleftrightarrow> blockAtomic s = k \<and> length (block_workers s) = T \<and> k = min k n + done_count (block_workers s)
     \<and> mset (compressed s) + at_blocks (block_workers s) = mset [0..<min k n]"

lemma done_count_update: "t < length ws \<Longrightarrow> ws ! t \<noteq> WorkerDone \<Longrightarrow>
    done_count (ws[t := w]) = done_count ws + (if w = WorkerDone then 1 else 0)"
  using filter_update_length [of t ws "\<lambda>w. w = WorkerDone" w] by (simp add: done_count_def)

lemma done_count_less: "t < length ws \<Longrightarrow> ws ! t \<noteq> WorkerDone \<Longrightarrow> done_count ws < length ws"
  unfolding done_count_def by (rule length_filter_less [of "ws ! t"]) simp_all

lemma fetch_block_inv:
  assumes t: "t < T" "n + T < 2 ^ 32" and w: "length (block_workers s) = T" "block_workers s ! t \<noteq> WorkerDone"
    and k: "blockAtomic s = k" "k = min k n + done_count (block_workers s)"
    and m: "mset (compressed s) + at_blocks (block_workers s) = mset [0..<min k n] + mset (at_of (block_workers s ! t))"
  shows "workers_inv n T (Suc k) (fetch_block n t s)" "k < n + T"
proof -
  have "done_count (block_workers s) < T" using done_count_less [of t "block_workers s"] t w by simp
  then show "k < n + T" using k(2) by linarith
  then have wr: "wrap32 (k + 1) = Suc k" using t(2) by simp
  define w' where "w' = (if k < n then WorkerAt k else WorkerDone)"
  have d: "done_count ((block_workers s)[t := w']) = done_count (block_workers s) + (if k < n then 0 else 1)"
    using done_count_update [of t "block_workers s" w'] t w by (simp add: w'_def)
  have "at_blocks ((block_workers s)[t := w']) + mset (at_of (block_workers s ! t)) = at_blocks (block_workers s) + mset (at_of w')"
    using at_blocks_update [of t "block_workers s" w'] t w by simp
  then have "mset (compressed s) + at_blocks ((block_workers s)[t := w']) + mset (at_of (block_workers s ! t))
      = mset [0..<min k n] + mset (at_of w') + mset (at_of (block_workers s ! t))"
    using m by (metis (no_types, lifting) add.assoc add.commute)
  then have "mset (compressed s) + at_blocks ((block_workers s)[t := w']) = mset [0..<min k n] + mset (at_of w')" by simp
  moreover have "mset [0..<min k n] + mset (at_of w') = mset [0..<min (Suc k) n]"
    by (cases "k < n") (simp_all add: w'_def min_def)
  ultimately show "workers_inv n T (Suc k) (fetch_block n t s)"
    using k d w wr by (auto simp: workers_inv_def fetch_block_def w'_def min_def split: if_splits)
qed

lemma block_worker_step_inv:
  assumes "workers_inv n T k s" "n + T < 2 ^ 32" "block_worker_step n t s = Some s'"
  shows "workers_inv n T (Suc k) s'" "k < n + T"
proof -
  have t: "t < T" and i: "length (block_workers s) = T" "blockAtomic s = k" "k = min k n + done_count (block_workers s)"
     "mset (compressed s) + at_blocks (block_workers s) = mset [0..<min k n]"
    using assms(1,3) by (auto simp: workers_inv_def block_worker_step_def split: if_splits)
  have "workers_inv n T (Suc k) s' \<and> k < n + T"
  proof (cases "block_workers s ! t")
    case WorkerStart
    then have "s' = fetch_block n t s" using assms(3) t i by (simp add: block_worker_step_def)
    then show ?thesis using fetch_block_inv [OF t assms(2) i(1) _ i(2,3)] i(4) WorkerStart by simp
  next
    case (WorkerAt b)
    define s1 where "s1 = s\<lparr> compressed := compressed s @ [b] \<rparr>"
    have "s' = fetch_block n t s1" using assms(3) t i WorkerAt by (simp add: block_worker_step_def s1_def)
    moreover have "mset (compressed s1) + at_blocks (block_workers s1) = mset [0..<min k n] + mset (at_of (block_workers s1 ! t))"
      using i(4) WorkerAt by (simp add: s1_def flip: i(4))
    ultimately show ?thesis using fetch_block_inv [OF t assms(2), of s1 k] i WorkerAt by (simp add: s1_def)
  next
    case WorkerDone
    then show ?thesis using assms(3) t i by (simp add: block_worker_step_def)
  qed
  then show "workers_inv n T (Suc k) s'" "k < n + T" by simp_all
qed

lemma block_worker_run_inv:
  "workers_inv n T k s \<Longrightarrow> n + T < 2 ^ 32 \<Longrightarrow> block_worker_run n ts s = Some s' \<Longrightarrow>
     workers_inv n T (k + length ts) s' \<and> (ts \<noteq> [] \<longrightarrow> k + length ts \<le> n + T)"
proof (induction ts arbitrary: k s)
  case (Cons t ts)
  from Cons.prems(3) obtain s1 where s1: "block_worker_step n t s = Some s1" "block_worker_run n ts s1 = Some s'"
    by (auto simp: bind_eq_Some_conv)
  note i = block_worker_step_inv [OF Cons.prems(1,2) s1(1)]
  show ?case using Cons.IH [OF i(1) Cons.prems(2) s1(2)] i(2) by (cases ts) auto
qed simp

lemma compress_start_inv: "workers_inv n T 0 (compress_start T)"
proof -
  have "concat (map at_of (replicate T WorkerStart)) = []" by (induction T) simp_all
  moreover have "filter (\<lambda>w. w = WorkerDone) (replicate T WorkerStart) = []" by (induction T) simp_all
  ultimately show ?thesis by (simp add: workers_inv_def compress_start_def at_blocks_def done_count_def)
qed

lemma all_done_compressed:
  assumes "workers_inv n T k s" "0 < T" "\<forall>w\<in>set (block_workers s). w = WorkerDone"
  shows "k = n + T" "mset (compressed s) = mset [0..<n]"
proof -
  have d: "done_count (block_workers s) = T"
    using assms(1,3) by (auto simp: workers_inv_def done_count_def filter_id_conv)
  have "concat (map at_of (block_workers s)) = []" using assms(3) by auto
  then have a: "at_blocks (block_workers s) = {#}" by (simp add: at_blocks_def)
  show "k = n + T" using assms(1,2) d by (auto simp: workers_inv_def min_def split: if_splits)
  then show "mset (compressed s) = mset [0..<n]" using assms(1) a by (simp add: workers_inv_def)
qed

section \<open>Properties of the loader\<close>

text \<open>C29: For images of up to 16384 by 16384 pixels the mip chain is laid out without wrap-around: each
  level halves the one before, its size is that of its pixels, padded to multiples of four, in the chosen format, its offset
  the sum of the sizes before it, and the last level is one pixel in the longer dimension.\<close>
theorem load_levels_layout:
  assumes "0 < w" "w \<le> 16384" "0 < h" "h \<le> 16384" "load_levels hasAlpha w h = (ls, size')"
    and "f = load_format (if hasAlpha then 4 else 3)"
  shows "length ls = mip_count w h \<and> max w h div 2 ^ (length ls - 1) = 1 \<and> size' = sum_list (map ml_size ls) \<and> size' < 2 ^ 32
    \<and> (\<forall>i<length ls. ml_width (ls ! i) = w div 2 ^ i \<and> ml_height (ls ! i) = h div 2 ^ i \<and>
       ml_offset (ls ! i) = sum_list (map ml_size (take i ls)) \<and>
       ml_size (ls ! i) = RoundUp (w div 2 ^ i) 4 * RoundUp (h div 2 ^ i) 4 * fst (GetFormatSize f) div snd (GetFormatSize f))
    \<and> (\<forall>n \<le> 16384. RoundUp n 4 = (n + 3) div 4 * 4)"
proof -
  define n where "n = mip_count w h"
  have ls: "ls = map (\<lambda>j. level_at hasAlpha w h (\<Sum>i<j. level_bytes hasAlpha w h i) j) [0..<n]"
    and size': "size' = (\<Sum>i<n. level_bytes hasAlpha w h i)"
    using load_levels_spec [OF assms(1,2,4), of hasAlpha] assms(5) by (simp_all add: n_def)
  have bytes: "level_bytes hasAlpha w h i \<le> 2 ^ 28" for i
    unfolding level_bytes_def by (rule mip_size_bytes(2) [OF shr_le shr_le, OF assms(2,4)])
  have "size' \<le> (\<Sum>i<n. 2 ^ 28)" unfolding size' by (rule sum_mono) (rule bytes)
  also have "\<dots> < 2 ^ 32" using mip_count_le [OF assms(1,2,4)] by (simp add: n_def)
  finally have small: "size' < 2 ^ 32" .
  have sizes: "sum_list (map ml_size (take i ls)) = (\<Sum>j<i. level_bytes hasAlpha w h j)" if "i \<le> n" for i
    using that by (simp add: ls take_map take_upt comp_def level_at_def interv_sum_list_conv_sum_set_nat
        atLeast0LessThan del: upt_Suc)
  have size: "ml_size (ls ! i) = RoundUp (w div 2 ^ i) 4 * RoundUp (h div 2 ^ i) 4 * fst (GetFormatSize f) div snd (GetFormatSize f)"
    if "i < n" for i
    using that by (simp add: ls level_at_def level_bytes_def mip_bytes_def load_format_def assms(6)
        RoundUp_4 [OF shr_le [OF assms(2)]] RoundUp_4 [OF shr_le [OF assms(4)]])
  have last: "max w h div 2 ^ (n - 1) = 1"
  proof -
    have "2 ^ (n - 1) \<le> max w h" "max w h < 2 * 2 ^ (n - 1)"
      using floor_log2_bounds [of "max w h"] assms(1) by (simp_all add: n_def mip_count_def del: max_less_iff_conj)
    then show ?thesis by (intro div_nat_eqI) simp_all
  qed
  have len: "length ls = n" by (simp add: ls)
  have tot: "size' = sum_list (map ml_size ls)" using sizes [of n] by (simp add: len size')
  have "ml_width (ls ! i) = w div 2 ^ i \<and> ml_height (ls ! i) = h div 2 ^ i \<and> ml_offset (ls ! i) = sum_list (map ml_size (take i ls))"
    if "i < n" for i using that sizes [of i] by (simp add: ls level_at_def)
  moreover have "\<forall>n \<le> 16384. RoundUp n 4 = (n + 3) div 4 * 4" using RoundUp_4 by (simp add: up4_def)
  ultimately show ?thesis using size last len tot small by (simp add: n_def)
qed

theorem load_levels_layout_witness:
  "\<exists>ls size'. load_levels False 12 8 = (ls, size') \<and> size' < 2 ^ 32 \<and> ml_size (ls ! 0) = 48 \<and> ml_offset (ls ! 1) = ml_size (ls ! 0)"
proof -
  obtain ls size' where e: "load_levels False 12 8 = (ls, size')" by fastforce
  have r: "RoundUp 12 4 = 12" "RoundUp 8 4 = 8" by (simp_all add: RoundUp_def)
  have m: "mip_count 12 8 = 4" by (simp add: mip_count_def floor_log2.simps)
  note l = load_levels_layout [OF _ _ _ _ e refl, simplified, unfolded m]
  have "ml_size (ls ! 0) = 48" using l by (auto simp: load_format_def r)
  moreover have "ml_offset (ls ! 1) = sum_list (map ml_size (take 1 ls))" using l by auto
  then have "ml_offset (ls ! 1) = ml_size (ls ! 0)" using l by (cases ls) simp_all
  ultimately show ?thesis using e l by auto
qed

text \<open>The blocks of a level are written after those of the levels before it, and the level is read
  from its offset: these are the same place exactly when all earlier levels have sizes that are
  multiples of the block size (or zero); otherwise the level is written too early. And for every image
  the loader succeeds but leaves bytes at the end of the staging buffer that are never written.\<close>
theorem compress_image_positions:
  assumes "0 < w" "w \<le> 16384" "0 < h" "h \<le> 16384" "load_levels hasAlpha w h = (ls, size')"
    and "length pixels = w * h * 4" "\<And>x. length (dxt hasAlpha x) = compressed_block_size hasAlpha"
    and "\<And>x k k'. length (resize x k k') = mip_buffer_size k'"
  shows "(\<exists>buf. compress_image dxt resize hasAlpha w h pixels = Inr (level_start hasAlpha ls (length ls), buf)
      \<and> length buf = size' \<and> level_start hasAlpha ls (length ls) < size'
      \<and> (\<forall>i < size'. level_start hasAlpha ls (length ls) \<le> i \<longrightarrow> buf ! i = None))
    \<and> (\<forall>i<length ls. level_start hasAlpha ls i \<le> ml_offset (ls ! i)
      \<and> (level_start hasAlpha ls i = ml_offset (ls ! i) \<longleftrightarrow> (\<forall>j<i. w div 2 ^ j = 0 \<or> h div 2 ^ j = 0
            \<or> 4 dvd w div 2 ^ j \<and> 4 dvd h div 2 ^ j)))"
proof -
  define n where "n = mip_count w h"
  define B where "B = (\<lambda>i. block_bytes hasAlpha (ls ! i))"
  have ls: "ls = map (\<lambda>j. level_at hasAlpha w h (\<Sum>i<j. level_bytes hasAlpha w h i) j) [0..<n]"
    and size': "size' = (\<Sum>i<n. level_bytes hasAlpha w h i)"
    using load_levels_spec [OF assms(1,2,4), of hasAlpha] assms(5) by (simp_all add: n_def)
  have len: "length ls = n" "0 < n" by (simp_all add: ls n_def mip_count_def)
  have ext: "ml_width (ls ! i) = w div 2 ^ i" "ml_height (ls ! i) = h div 2 ^ i"
    "ml_offset (ls ! i) = (\<Sum>j<i. level_bytes hasAlpha w h j)" if "i < n" for i
    using that by (simp_all add: ls level_at_def)
  have ok: "level_ok (ls ! i)" if "i < n" for i
    using ext [OF that] shr_le [OF assms(2)] shr_le [OF assms(4)] by (simp add: level_ok_def)
  have BL: "B i \<le> level_bytes hasAlpha w h i" "B i = level_bytes hasAlpha w h i \<longleftrightarrow>
      w div 2 ^ i = 0 \<or> h div 2 ^ i = 0 \<or> 4 dvd w div 2 ^ i \<and> 4 dvd h div 2 ^ i" if "i < n" for i
    using block_bytes_mip_bytes [of hasAlpha "ls ! i"] ext [OF that] by (simp_all add: B_def level_bytes_def)
  have start: "level_start hasAlpha ls i = (\<Sum>j<i. B j)" if "i \<le> n" for i
  proof -
    have "take i ls = map (\<lambda>j. ls ! j) [0..<i]" using that len by (intro nth_equalityI) simp_all
    then show ?thesis by (simp add: level_start_def B_def comp_def interv_sum_list_conv_sum_set_nat atLeast0LessThan)
  qed
  have le: "(\<Sum>j<i. B j) \<le> (\<Sum>j<i. level_bytes hasAlpha w h j)" if "i \<le> n" for i
    using that by (intro sum_mono BL(1)) simp
  have eq: "(\<Sum>j<i. B j) = (\<Sum>j<i. level_bytes hasAlpha w h j) \<longleftrightarrow> (\<forall>j<i. B j = level_bytes hasAlpha w h j)" if "i \<le> n" for i
    using that by (rule sum_le_eq_iff) (rule BL(1))
  have "level_start hasAlpha ls n < size'"
  proof -
    define k where "k = floor_log2 (min w h)"
    have b: "2 ^ k \<le> min w h" "min w h < 2 ^ Suc k"
      using floor_log2_bounds [of "min w h"] assms(1,3) unfolding k_def by (simp_all del: min_less_iff_conj)
    have one: "min w h div 2 ^ k = 1" using b by (intro div_nat_eqI) simp_all
    have "2 ^ k < (2 :: nat) ^ n"
    proof -
      have "max w h < 2 ^ n" using floor_log2_bounds [of "max w h"] assms(1) unfolding n_def mip_count_def
        by (simp del: max_less_iff_conj)
      moreover have "2 ^ k \<le> max w h" using b(1) by linarith
      ultimately show ?thesis by (rule le_less_trans [rotated])
    qed
    then have kn: "k < n" by simp
    have "w div 2 ^ k = 1 \<or> h div 2 ^ k = 1" using one by (cases "w \<le> h") (simp_all add: min_def)
    moreover have "0 < w div 2 ^ k" "0 < h div 2 ^ k" using b(1) by (simp_all add: div_greater_zero_iff)
    ultimately have "B k \<noteq> level_bytes hasAlpha w h k" using BL(2) [OF kn] by auto
    then show ?thesis using start [of n] le [of n] eq [of n] kn size' by (metis le_less order_refl)
  qed
  moreover obtain l ls' where c: "ls = l # ls'" using len by (cases ls) simp_all
  moreover have "\<exists>buf. compress_levels dxt resize hasAlpha pixels l ls' 0 (replicate size' None)
      = Inr (level_start hasAlpha ls n, buf) \<and> length buf = size' \<and> (\<forall>i. level_start hasAlpha ls n \<le> i \<longrightarrow> buf ! i = replicate size' None ! i)"
  proof -
    have s: "sum_list (map (block_bytes hasAlpha) (l # ls')) = level_start hasAlpha ls n"
      using c len by (simp add: level_start_def)
    have "\<forall>k\<in>set (l # ls'). level_ok k" using ok len unfolding c [symmetric] by (metis in_set_conv_nth)
    moreover have "ml_width l * ml_height l * 4 \<le> length pixels" using ext [of 0] c len assms(6) by simp
    moreover have "0 + level_start hasAlpha ls n \<le> length (replicate size' (None :: u8 option))"
      using start [of n] le [of n] size' by simp
    ultimately show ?thesis
      using compress_levels_Inr [where dxt = dxt and resize = resize and hasAlpha = hasAlpha and l = l and ls = ls' and dst = 0
          and buf = "replicate size' None", OF assms(7,8)] unfolding s by simp
  qed
  ultimately have "\<exists>buf. compress_image dxt resize hasAlpha w h pixels = Inr (level_start hasAlpha ls n, buf) \<and> length buf = size'
      \<and> level_start hasAlpha ls n < size' \<and> (\<forall>i < size'. level_start hasAlpha ls n \<le> i \<longrightarrow> buf ! i = None)"
    unfolding compress_image_def assms(5) by auto
  moreover have "level_start hasAlpha ls i \<le> ml_offset (ls ! i) \<and> (level_start hasAlpha ls i = ml_offset (ls ! i) \<longleftrightarrow>
      (\<forall>j<i. w div 2 ^ j = 0 \<or> h div 2 ^ j = 0 \<or> 4 dvd w div 2 ^ j \<and> 4 dvd h div 2 ^ j))" if "i < n" for i
    using start [of i] le [of i] eq [of i] ext(3) [OF that] BL(2) that by auto
  ultimately show ?thesis unfolding len by blast
qed

theorem compress_image_positions_witness:
  "\<exists>buf. compress_image (\<lambda>a x. replicate (compressed_block_size a) 7) (\<lambda>x k k'. replicate (mip_buffer_size k') 0)
     False 6 4 (replicate 96 9) = Inr (8, buf) \<and> length buf = 32 \<and> (\<forall>i<32. 8 \<le> i \<longrightarrow> buf ! i = None)
     \<and> (\<exists>l. fst (load_levels False 6 4) ! 1 = l \<and> ml_offset l = 16 \<and> level_start False (fst (load_levels False 6 4)) 1 = 8)"
proof -
  have r: "RoundUp 6 4 = 8" "RoundUp 4 4 = 4" "RoundUp 3 4 = 4" "RoundUp 2 4 = 4" "RoundUp (Suc 0) 4 = 4"
    by (simp_all add: RoundUp_def)
  have e: "load_levels False 6 4 = ([\<lparr> ml_width = 6, ml_height = 4, ml_size = 16, ml_offset = 0 \<rparr>,
      \<lparr> ml_width = 3, ml_height = 2, ml_size = 8, ml_offset = 16 \<rparr>, \<lparr> ml_width = 1, ml_height = 1, ml_size = 8, ml_offset = 24 \<rparr>], 32)"
  proof -
    have "mip_count 6 4 = 3" by (simp add: mip_count_def floor_log2.simps)
    moreover have "[0..<3] = [0, 1, 2 :: nat]" by code_simp
    ultimately show ?thesis by (simp add: load_levels_def mip_size_def wrap32_def r Let_def)
  qed
  show ?thesis
    using compress_image_positions [OF _ _ _ _ e, of "replicate 96 9" "\<lambda>a x. replicate (compressed_block_size a) 7"
        "\<lambda>x k k'. replicate (mip_buffer_size k') 0"]
    by (simp add: e level_start_def block_bytes_def)
qed

text \<open>C30: However the threads of the compressor are scheduled, they take at most one step per block and
  per thread; some thread can step until all have stopped; and when they have, the level is in the
  staging buffer as if its blocks had been compressed one after the other.\<close>
theorem compress_workers_finish:
  assumes "level_ok l" "0 < T" "block_count l + T < 2 ^ 32" "block_worker_run (block_count l) ts (compress_start T) = Some s"
    and "ml_width l * ml_height l * 4 \<le> length src" "\<And>x. length (dxt hasAlpha x) = compressed_block_size hasAlpha"
    and "dst + block_bytes hasAlpha l \<le> length buf"
  shows "length ts \<le> block_count l + T
    \<and> ((\<exists>t s'. block_worker_step (block_count l) t s = Some s') \<or>
       length ts = block_count l + T \<and> distinct (compressed s)
       \<and> compress_in_order dxt hasAlpha src l dst (compressed s) buf
           = compress_in_order dxt hasAlpha src l dst [0..<block_count l] buf)"
proof -
  note r = block_worker_run_inv [OF compress_start_inv assms(3,4)]
  then have i: "workers_inv (block_count l) T (length ts) s" by simp
  show ?thesis
  proof (cases "\<exists>t s'. block_worker_step (block_count l) t s = Some s'")
    case True
    then show ?thesis using r by (cases ts) auto
  next
    case False
    have "\<forall>w\<in>set (block_workers s). w = WorkerDone"
    proof
      fix w assume "w \<in> set (block_workers s)"
      then obtain t where "t < length (block_workers s)" "block_workers s ! t = w" by (auto simp: in_set_conv_nth)
      moreover from False have "block_worker_step (block_count l) t s = None" by (metis not_None_eq)
      ultimately show "w = WorkerDone" by (cases w) (simp_all add: block_worker_step_def)
    qed
    note d = all_done_compressed [OF i assms(2) this]
    have s: "set (compressed s) = set [0..<block_count l]" using mset_eq_setD [OF d(2)] .
    have "distinct (compressed s)" using mset_eq_imp_distinct_iff [OF d(2)] by simp
    moreover have "compress_in_order dxt hasAlpha src l dst (compressed s) buf
           = compress_in_order dxt hasAlpha src l dst [0..<block_count l] buf"
      by (rule compress_order_irrelevant [where dxt = dxt and hasAlpha = hasAlpha, OF assms(1,5,6,7) s]) simp
    ultimately show ?thesis using d(1) by simp
  qed
qed

theorem compress_workers_finish_witness:
  "\<exists>s. block_worker_run 1 [1, 0, 1] (compress_start 2) = Some s \<and> compress_in_order (\<lambda>a x. replicate 8 7) False (replicate 64 9)
     \<lparr> ml_width = 4, ml_height = 4, ml_size = 8, ml_offset = 0 \<rparr> 0 (compressed s) (replicate 8 None)
     = compress_in_order (\<lambda>a x. replicate 8 7) False (replicate 64 9)
     \<lparr> ml_width = 4, ml_height = 4, ml_size = 8, ml_offset = 0 \<rparr> 0 [0] (replicate 8 None)"
proof -
  define l where "l = \<lparr> ml_width = 4, ml_height = 4, ml_size = 8, ml_offset = 0 \<rparr>"
  have l: "level_ok l" "block_count l = 1" "block_bytes False l = 8"
    by (simp_all add: l_def level_ok_def block_count_def block_bytes_def)
  define s where "s = \<lparr> blockAtomic = 3, block_workers = [WorkerDone, WorkerDone], compressed = [0] \<rparr>"
  have r2: "replicate 2 WorkerStart = [WorkerStart, WorkerStart]" by (simp add: numeral_2_eq_2)
  have s: "block_worker_run 1 [1, 0, 1] (compress_start 2) = Some s"
    by (simp add: s_def compress_start_def block_worker_step_def fetch_block_def wrap32_def r2)
  have n: "block_worker_step 1 t s = None" for t
    by (cases t) (auto simp: s_def block_worker_step_def nth_Cons split: nat.splits)
  show ?thesis
    using compress_workers_finish [OF l(1), of 2 "[1, 0, 1]" s "replicate 64 9" "\<lambda>a x. replicate 8 7" False 0 "replicate 8 None"] s n
    unfolding l l_def [symmetric] by (simp add: compressed_block_size_def) (simp add: l_def)
qed

end
