(* ===== verification/Layout_Tracking.thy ===== *)
theory Layout_Tracking
imports Swapchain_Model
begin

text \<open>
  What the recorded commands mean for the images: \<open>gpu_run\<close> replays a list of calls and keeps the real
  layout of each image, whether its contents are still there, and the image of each live view. It
  stops at a command that names a layout the image is not in (a barrier may name \<open>UNDEFINED\<close>, which
  discards the contents). The lemmas compare that with the layouts the program tracks.
\<close>

section \<open>Replaying the commands\<close>

record gpu_state =
  gs_layout :: "nat \<Rightarrow> image_layout"
  gs_data :: "nat \<Rightarrow> bool"
  gs_view :: "nat \<Rightarrow> nat option"

definition attachment_in_layout :: "gpu_state \<Rightarrow> attachment_info \<Rightarrow> bool" where
  "attachment_in_layout g ai = (case gs_view g (ai_view ai) of None \<Rightarrow> False | Some img \<Rightarrow> gs_layout g img = ai_layout ai)"

definition rendering_attachments :: "rendering_info \<Rightarrow> attachment_info list" where
  "rendering_attachments info = ri_color info @ (case ri_depth info of None \<Rightarrow> [] | Some a \<Rightarrow> [a])
     @ (case ri_stencil info of None \<Rightarrow> [] | Some a \<Rightarrow> [a])"

definition need :: "bool \<Rightarrow> gpu_state \<Rightarrow> gpu_state option" where
  "need c g = (if c then Some g else None)"

definition gpu_barrier :: "image_barrier \<Rightarrow> gpu_state \<Rightarrow> gpu_state option" where
  "gpu_barrier b g = need (ib_oldLayout b = LAYOUT_UNDEFINED \<or> ib_oldLayout b = gs_layout g (ib_image b))
     (g\<lparr> gs_layout := (gs_layout g)(ib_image b := ib_newLayout b),
         gs_data := (gs_data g)(ib_image b := gs_data g (ib_image b) \<and> ib_oldLayout b \<noteq> LAYOUT_UNDEFINED) \<rparr>)"

fun gpu_exec :: "vk_call \<Rightarrow> gpu_state \<Rightarrow> gpu_state option" where
  "gpu_exec (CreateImageCall info img) g = Some (g\<lparr> gs_layout := (gs_layout g)(img := ii_initialLayout info),
     gs_data := (gs_data g)(img := False) \<rparr>)"
| "gpu_exec (CreateImageViewCall info view) g = Some (g\<lparr> gs_view := (gs_view g)(view \<mapsto> vi_image info) \<rparr>)"
| "gpu_exec (DestroyImageViewCall view) g = Some (g\<lparr> gs_view := (gs_view g)(view := None) \<rparr>)"
| "gpu_exec (CmdPipelineBarrier b) g = gpu_barrier b g"
| "gpu_exec (CmdCopyBufferToImage buf img lay rs) g =
     need (gs_layout g img = lay) (g\<lparr> gs_data := (gs_data g)(img := True) \<rparr>)"
| "gpu_exec (CmdClearColorImage img lay val a) g = need (gs_layout g img = lay) g"
| "gpu_exec (CmdClearDepthStencilImage img lay val a) g = need (gs_layout g img = lay) g"
| "gpu_exec (CmdBlitImage src sl dst dl ss se ds de f) g = need (gs_layout g src = sl \<and> gs_layout g dst = dl) g"
| "gpu_exec (CmdCopyImage src sl dst dl ss ds e) g = need (gs_layout g src = sl \<and> gs_layout g dst = dl) g"
| "gpu_exec (CmdBeginRendering info) g = need (list_all (attachment_in_layout g) (rendering_attachments info)) g"
| "gpu_exec _ g = Some g"

fun gpu_run :: "vk \<Rightarrow> gpu_state \<Rightarrow> gpu_state option" where
  "gpu_run [] g = Some g"
| "gpu_run (c # cs) g = Option.bind (gpu_exec c g) (gpu_run cs)"

lemma gpu_run_append: "gpu_run (xs @ ys) g = Option.bind (gpu_run xs g) (gpu_run ys)"
  by (induction xs arbitrary: g) (auto split: Option.bind_split)

lemma need_Some [simp]: "need c g = Some g' \<longleftrightarrow> c \<and> g' = g"
  by (auto simp: need_def)

lemma need_True [simp]: "need True g = Some g"
  by (simp add: need_def)

section \<open>Images\<close>

lemma TransitionImageLayout_run:
  assumes "gpu_run v g = Some g1" "gs_layout g1 img = old \<or> old = LAYOUT_UNDEFINED"
  shows "gpu_run (TransitionImageLayout img old new n a v) g = Some (g1\<lparr> gs_layout := (gs_layout g1)(img := new),
     gs_data := (gs_data g1)(img := gs_data g1 img \<and> old \<noteq> LAYOUT_UNDEFINED) \<rparr>)"
  using assms by (auto simp: TransitionImageLayout_def Let_def gpu_run_append gpu_barrier_def split: prod.splits)

lemma TransitionImageLayout_fails:
  assumes "gpu_run v g = Some g1" "gs_layout g1 img \<noteq> old" "old \<noteq> LAYOUT_UNDEFINED"
  shows "gpu_run (TransitionImageLayout img old new n a v) g = None"
  using assms by (simp add: TransitionImageLayout_def Let_def gpu_run_append gpu_barrier_def need_def split: prod.splits)

lemma gpu_state_id [simp]: "g\<lparr> gs_layout := gs_layout g, gs_data := gs_data g \<rparr> = g"
  by simp

text \<open>A transition brings the image into the layout that was asked for, keeps its contents unless its
  layout was \<open>UNDEFINED\<close>, and touches no other image.\<close>

definition image_tracked :: "gpu_state \<Rightarrow> image_obj \<Rightarrow> bool" where
  "image_tracked g io \<longleftrightarrow> gs_layout g (io_image io) = io_layout io"

lemma Image_Transition_run:
  assumes "gpu_run v g = Some g1" "image_tracked g1 io" "Image_Transition l a io v = (io', v')"
  shows "\<exists>g2. gpu_run v' g = Some g2 \<and> image_tracked g2 io' \<and> io_image io' = io_image io \<and> io_layout io' = l
    \<and> io_desc io' = io_desc io \<and> (\<forall>i. i \<noteq> io_image io \<longrightarrow> gs_layout g2 i = gs_layout g1 i \<and> gs_data g2 i = gs_data g1 i)
    \<and> gs_view g2 = gs_view g1 \<and> (io_layout io \<noteq> LAYOUT_UNDEFINED \<longrightarrow> gs_data g2 (io_image io) = gs_data g1 (io_image io))"
proof -
  define a' where "a' = (if a = {} then all_aspects (im_format (io_desc io)) else a)"
  show ?thesis
  proof (cases "io_layout io \<noteq> l \<or> io_aspects io \<noteq> a'")
    case True
    then have e: "io' = io\<lparr> io_layout := l, io_aspects := a' \<rparr>"
      "v' = TransitionImageLayout (io_image io) (io_layout io) l (length (mipLevels (io_desc io))) a' v"
      using assms(3) by (auto simp: Image_Transition_def Let_def a'_def)
    then show ?thesis using TransitionImageLayout_run [OF assms(1), of "io_image io" "io_layout io"] assms(2)
      by (simp add: image_tracked_def)
  next
    case False
    then have "io' = io" "v' = v" using assms(3) by (auto simp: Image_Transition_def Let_def a'_def)
    then show ?thesis using assms(1,2) False by auto
  qed
qed

lemma Image_Clear_run:
  assumes "gpu_run v g = Some g1" "image_tracked g1 io" "Image_Clear val rng io k v = Inr (k', v')"
  shows "gpu_run v' g = Some g1"
  using assms by (auto simp: Image_Clear_def Let_def gpu_run_append image_tracked_def split: if_splits)

datatype image_op = TransitionOp image_layout aspects | ClearOp nat "aspects option"

fun image_op_exec :: "image_op \<Rightarrow> image_obj \<times> aspects option \<times> vk \<Rightarrow> (image_obj \<times> aspects option \<times> vk) res" where
  "image_op_exec (TransitionOp l a) (io, k, v) = (let (io', v') = Image_Transition l a io v in Inr (io', k, v'))"
| "image_op_exec (ClearOp val rng) (io, k, v) = bind_res (Image_Clear val rng io k v) (\<lambda>(k', v'). Inr (io, k', v'))"

lemma image_ops_run:
  assumes "\<exists>g1. gpu_run v g = Some g1 \<and> image_tracked g1 io" "fold_res image_op_exec ops (io, k, v) = Inr (io', k', v')"
  shows "\<exists>g2. gpu_run v' g = Some g2 \<and> image_tracked g2 io'"
  using assms
proof (induction ops arbitrary: io k v)
  case (Cons op ops)
  from Cons.prems(1) obtain g1 where g1: "gpu_run v g = Some g1" "image_tracked g1 io" by blast
  show ?case
  proof (cases op)
    case (TransitionOp l a)
    obtain io1 v1 where t: "Image_Transition l a io v = (io1, v1)" by force
    then show ?thesis using Cons.IH [of v1 io1 k] Cons.prems(2) Image_Transition_run [OF g1 t] TransitionOp by auto
  next
    case (ClearOp val rng)
    then obtain k1 v1 where t: "Image_Clear val rng io k v = Inr (k1, v1)" "fold_res image_op_exec ops (io, k1, v1) = Inr (io', k', v')"
      using Cons.prems(2) by (auto simp: bind_res_Inr)
    then show ?thesis using Cons.IH [of v1 io k1] Image_Clear_run [OF g1 t(1)] g1(2) by auto
  qed
qed auto

lemma Image_new_run:
  assumes "Image_new d desc v = Inr (io, v')" "gpu_run v g = Some g1"
  shows "\<exists>g2. gpu_run v' g = Some g2 \<and> image_tracked g2 io"
proof (cases "dv_image d v")
  case (Pair a b)
  then show ?thesis using assms
    by (auto simp: Image_new_def image_CreateImage2D_def CreateImage2D_def bind_res_Inr Let_def gpu_run_append image_tracked_def)
qed

text \<open>C16: For an image created empty, after any history of transitions and clears every recorded command
  names the layout the image really is in, and the layout the object tracks is the real one.\<close>
theorem image_layout_tracked:
  assumes "gpu_run v g = Some g1" "Image_new d desc v = Inr (io, v1)" "fold_res image_op_exec ops (io, k, v1) = Inr (io', k', v')"
  shows "\<exists>g2. gpu_run v' g = Some g2 \<and> gs_layout g2 (io_image io') = io_layout io'"
  using image_ops_run [OF Image_new_run [OF assms(2,1)] assms(3)] by (simp add: image_tracked_def)

definition ex_driver :: driver where
  "ex_driver = \<lparr> dv_buffer = (\<lambda>v. (Suc (length v), Suc (length v))), dv_image = (\<lambda>v. (Suc (length v), Suc (length v))),
     dv_view = (\<lambda>v. Suc (length v)), dv_renderPass = (\<lambda>v. Suc (length v)), dv_framebuffer = (\<lambda>v. Suc (length v)),
     dv_swapchain = (\<lambda>v. Suc (length v)), dv_swapchainImages = (\<lambda>v. [100, 101]) \<rparr>"

definition ex_desc :: image_desc where
  "ex_desc = image_desc_empty\<lparr> mipLevels := [\<lparr> ml_width = 8, ml_height = 8, ml_size = 32, ml_offset = 0 \<rparr>],
     im_format := FORMAT_R8G8B8A8_UNORM, im_aspects := {ColorAspect} \<rparr>"

definition ex_gpu :: gpu_state where
  "ex_gpu = \<lparr> gs_layout = (\<lambda>_. LAYOUT_UNDEFINED), gs_data = (\<lambda>_. False), gs_view = (\<lambda>_. None) \<rparr>"

theorem image_layout_tracked_witness:
  "\<exists>io v1 io' k' v' g2. Image_new ex_driver ex_desc [] = Inr (io, v1)
    \<and> fold_res image_op_exec [TransitionOp LAYOUT_TRANSFER_DST {}, ClearOp 0 None, TransitionOp LAYOUT_SHADER_READ_ONLY {}] (io, None, v1)
        = Inr (io', k', v')
    \<and> gpu_run v' ex_gpu = Some g2 \<and> gs_layout g2 1 = LAYOUT_SHADER_READ_ONLY"
proof -
  obtain io v1 where n: "Image_new ex_driver ex_desc [] = Inr (io, v1)" and io: "io_image io = 1" "io_desc io = ex_desc" "io_aspects io = {ColorAspect}"
    "io_layout io = LAYOUT_UNDEFINED"
    by (simp add: Image_new_def image_CreateImage2D_def first_level_def ex_desc_def CreateImage2D_def ex_driver_def image_desc_empty_def)
  obtain io' k' v' where o': "fold_res image_op_exec [TransitionOp LAYOUT_TRANSFER_DST {}, ClearOp 0 None, TransitionOp LAYOUT_SHADER_READ_ONLY {}]
      (io, None, v1) = Inr (io', k', v')" "io_image io' = 1" "io_layout io' = LAYOUT_SHADER_READ_ONLY"
    using io by (simp add: Let_def Image_Transition_def Image_Clear_def all_aspects_def HasColorComponent_def HasDepthComponent_def
        HasStencilComponent_def ex_desc_def image_desc_empty_def)
  have "gpu_run [] ex_gpu = Some ex_gpu" by simp
  from image_layout_tracked [OF this n o'(1)] n o' show ?thesis by auto
qed

lemma Image_upload_calls:
  assumes "Image_upload d buffer desc v = Inr (io, task, v1)"
  shows "\<exists>img rs info. io_image io = img \<and> io_layout io = im_initialLayout desc \<and> io_desc io = desc
     \<and> v1 = TransitionImageLayout img (im_initialLayout desc) LAYOUT_TRANSFER_DST (length (mipLevels desc)) (im_aspects desc)
             (v @ [CreateImageCall info img]) @ [CmdCopyBufferToImage buffer img LAYOUT_TRANSFER_DST rs]
     \<and> ii_initialLayout info = im_initialLayout desc"
proof -
  obtain img mem' where dv: "dv_image d v = (img, mem')" by force
  from assms obtain lv where lv: "first_level desc = Inr lv"
    by (auto simp: Image_upload_def image_CreateImage2D_staged_def bind_res_Inr)
  define info where "info = \<lparr> ii_width = ml_width lv, ii_height = ml_height lv, ii_mipLevels = length (mipLevels desc),
    ii_format = im_format desc, ii_tiling = im_tiling desc, ii_usage = im_usage desc \<union> {UsageTransferDst},
    ii_initialLayout = im_initialLayout desc, ii_gpuOnly = (DeviceLocal \<in> im_memory desc), ii_required = im_memory desc,
    ii_name = im_name desc \<rparr>"
  obtain rs where "io_image io = img \<and> io_layout io = im_initialLayout desc \<and> io_desc io = desc
     \<and> v1 = TransitionImageLayout img (im_initialLayout desc) LAYOUT_TRANSFER_DST (length (mipLevels desc)) (im_aspects desc)
             (v @ [CreateImageCall info img]) @ [CmdCopyBufferToImage buffer img LAYOUT_TRANSFER_DST rs]
     \<and> ii_initialLayout info = im_initialLayout desc"
    using assms dv lv unfolding info_def
    by (auto simp: Image_upload_def image_CreateImage2D_staged_def CreateImage2D_staged_def CreateImage2D_def CopyBufferToImage_def
        bind_res_Inr Let_def split: if_splits)
  then show ?thesis by blast
qed

text \<open>An image filled from a buffer is left in the transfer layout with its contents, but the object
  tracks the layout it was created in: if that is \<open>UNDEFINED\<close> the first transition throws the contents
  away, and otherwise (unless it is the transfer layout) its barrier names a layout the image is not in.\<close>
theorem uploaded_image_layout_lost:
  assumes "gpu_run v g = Some g1" "Image_upload d buffer desc v = Inr (io, task, v1)"
    and "Image_Transition l a io v1 = (io', v')" "l \<noteq> im_initialLayout desc"
  shows "(\<exists>g2. gpu_run v1 g = Some g2 \<and> gs_layout g2 (io_image io) = LAYOUT_TRANSFER_DST \<and> gs_data g2 (io_image io))
    \<and> io_layout io = im_initialLayout desc
    \<and> (if im_initialLayout desc = LAYOUT_UNDEFINED
       then \<exists>g3. gpu_run v' g = Some g3 \<and> gs_layout g3 (io_image io) = l \<and> \<not> gs_data g3 (io_image io)
       else im_initialLayout desc = LAYOUT_TRANSFER_DST \<or> gpu_run v' g = None)"
proof -
  from Image_upload_calls [OF assms(2)] obtain img rs info where io: "io_image io = img" "io_layout io = im_initialLayout desc"
    "io_desc io = desc" and v1: "v1 = TransitionImageLayout img (im_initialLayout desc) LAYOUT_TRANSFER_DST (length (mipLevels desc))
      (im_aspects desc) (v @ [CreateImageCall info img]) @ [CmdCopyBufferToImage buffer img LAYOUT_TRANSFER_DST rs]"
    and ii: "ii_initialLayout info = im_initialLayout desc" by blast
  have c: "gpu_run (v @ [CreateImageCall info img]) g = Some (g1\<lparr> gs_layout := (gs_layout g1)(img := im_initialLayout desc),
     gs_data := (gs_data g1)(img := False) \<rparr>)" using assms(1) ii by (simp add: gpu_run_append)
  obtain g2 where g2: "gpu_run v1 g = Some g2" "gs_layout g2 img = LAYOUT_TRANSFER_DST" "gs_data g2 img"
    using TransitionImageLayout_run [OF c, of img "im_initialLayout desc" LAYOUT_TRANSFER_DST] by (simp add: v1 gpu_run_append)
  have v': "v' = TransitionImageLayout img (im_initialLayout desc) l (length (mipLevels desc))
      (if a = {} then all_aspects (im_format desc) else a) v1"
    using assms(3,4) io by (cases "a = {}") (simp_all add: Image_Transition_def Let_def)
  show ?thesis
  proof (cases "im_initialLayout desc = LAYOUT_UNDEFINED")
    case True
    then show ?thesis using TransitionImageLayout_run [OF g2(1), of img "im_initialLayout desc" l] g2 io v' by simp
  next
    case False
    have "im_initialLayout desc = LAYOUT_TRANSFER_DST \<or> gpu_run v' g = None"
    proof (cases "im_initialLayout desc = LAYOUT_TRANSFER_DST")
      case False
      then have "gs_layout g2 img \<noteq> im_initialLayout desc" using g2(2) by simp
      from TransitionImageLayout_fails [OF g2(1) this \<open>im_initialLayout desc \<noteq> LAYOUT_UNDEFINED\<close>] show ?thesis
        unfolding v' by simp
    qed simp
    then show ?thesis using False g2 io by simp
  qed
qed

theorem uploaded_image_layout_lost_witness:
  "\<exists>io task v1 io' v' g3. Image_upload ex_driver 7 ex_desc [] = Inr (io, task, v1)
    \<and> Image_Transition LAYOUT_SHADER_READ_ONLY {} io v1 = (io', v')
    \<and> gpu_run v' ex_gpu = Some g3 \<and> \<not> gs_data g3 (io_image io)"
proof -
  obtain io task v1 where n: "Image_upload ex_driver 7 ex_desc [] = Inr (io, task, v1)"
    by (simp add: Image_upload_def image_CreateImage2D_staged_def CreateImage2D_staged_def CreateImage2D_def CopyBufferToImage_def
      first_level_def ex_desc_def ex_driver_def image_desc_empty_def shr32_def level_words_def Let_def TransitionImageLayout_def)
  obtain io' v' where t: "Image_Transition LAYOUT_SHADER_READ_ONLY {} io v1 = (io', v')" by force
  have "gpu_run [] ex_gpu = Some ex_gpu" by simp
  from uploaded_image_layout_lost [OF this n t] n t show ?thesis by (auto simp: ex_desc_def image_desc_empty_def)
qed

end
