(* ===== verification/Render_Properties.thy ===== *)
theory Render_Properties
imports Layout_Tracking "HOL-Library.Multiset"
begin

text \<open>
  What holds along every history of a set of render images: its vectors stay in step, each image view
  is freed exactly once, and the layouts it tracks and renders with are the real ones, as long as a
  pass is only ended when its images are in their final layouts.
\<close>

section \<open>Histories\<close>

datatype render_op =
    RoTransition image_layout aspects nat
  | RoSetLoadOp load_op nat load_op
  | RoSetStoreOp store_op nat store_op
  | RoBegin subpass_contents
  | RoEnd
  | RoClear nat nat
  | RoClearAll "nat list"

fun render_op_exec :: "driver \<Rightarrow> (pass_key \<Rightarrow> u64) \<Rightarrow> render_op \<Rightarrow> image_set \<times> vk \<Rightarrow> (image_set \<times> vk) res" where
  "render_op_exec d hash (RoTransition l a i) s = RenderImageSet_Transition d l a i s"
| "render_op_exec d hash (RoSetLoadOp l i sl) s = bind_res (SetLoadOp (is_desc (fst s)) l i sl (is_target (fst s)))
     (\<lambda>rt. Inr ((fst s)\<lparr> is_target := rt \<rparr>, snd s))"
| "render_op_exec d hash (RoSetStoreOp l i sl) s = bind_res (SetStoreOp (is_desc (fst s)) l i sl (is_target (fst s)))
     (\<lambda>rt. Inr ((fst s)\<lparr> is_target := rt \<rparr>, snd s))"
| "render_op_exec d hash (RoBegin c) s = RenderImageSet_Begin d hash c s"
| "render_op_exec d hash RoEnd s = RenderImageSet_End s"
| "render_op_exec d hash (RoClear val i) s = Clear (image_set_class d) val i s"
| "render_op_exec d hash (RoClearAll vals) s = bind_res (ClearAll (is_desc (fst s)) vals (snd s)) (\<lambda>v. Inr (fst s, v))"

section \<open>Views\<close>

fun created_view :: "vk_call \<Rightarrow> nat list" where
  "created_view (CreateImageViewCall info view) = [view]"
| "created_view _ = []"

fun destroyed_view :: "vk_call \<Rightarrow> nat list" where
  "destroyed_view (DestroyImageViewCall view) = [view]"
| "destroyed_view _ = []"

definition views_created :: "vk \<Rightarrow> nat multiset" where
  "views_created v = mset (concat (map created_view v))"

definition views_destroyed :: "vk \<Rightarrow> nat multiset" where
  "views_destroyed v = mset (concat (map destroyed_view v))"

lemma views_append [simp]: "views_created (v @ w) = views_created v + views_created w"
  "views_destroyed (v @ w) = views_destroyed v + views_destroyed w"
  by (simp_all add: views_created_def views_destroyed_def)

lemma views_simps [simp]: "views_created [] = {#}" "views_destroyed [] = {#}"
  "views_created (c # v) = mset (created_view c) + views_created v"
  "views_destroyed (c # v) = mset (destroyed_view c) + views_destroyed v"
  by (simp_all add: views_created_def views_destroyed_def)

text \<open>A driver that never answers with the null handle.\<close>

definition views_not_null :: "driver \<Rightarrow> bool" where
  "views_not_null d \<longleftrightarrow> (\<forall>v. dv_view d v \<noteq> 0)"

lemma views_not_nullD [simp]: "views_not_null d \<Longrightarrow> dv_view d v \<noteq> 0" "views_not_null d \<Longrightarrow> 0 < dv_view d v"
  by (simp_all add: views_not_null_def)

text \<open>A driver that never answers with the handle of a view that is still live.\<close>

definition views_fresh :: "driver \<Rightarrow> bool" where
  "views_fresh d \<longleftrightarrow> views_not_null d \<and> (\<forall>v. dv_view d v \<notin># views_created v - views_destroyed v)"

definition owns_views :: "render_target \<times> vk \<Rightarrow> bool" where
  "owns_views = (\<lambda>(rt, v). views_created v = views_destroyed v + mset (attachments rt) \<and> 0 \<notin> set (attachments rt))"

definition rt_sized :: "nat \<Rightarrow> render_target \<Rightarrow> bool" where
  "rt_sized n rt \<longleftrightarrow> length (attachments rt) = n \<and> length (attachmentDescs rt) = n \<and> length (attachmentRefs rt) = n"

definition rt_ok :: "nat \<Rightarrow> render_target \<times> vk \<Rightarrow> bool" where
  "rt_ok n = (\<lambda>(rt, v). rt_sized n rt \<and> owns_views (rt, v))"

lemma mset_replace: "i < length xs \<Longrightarrow> mset (xs[i := x]) + {# xs ! i #} = mset xs + {# x #}"
  by (simp add: mset_update in_multiset_in_set)

lemma init_attachment_ok:
  assumes "views_not_null d" "rt_ok n (rt, v)" "init_attachment d desc i (rt, v) = Inr (rt', v')"
  shows "rt_ok (Suc n) (rt', v')"
  using assms views_not_nullD(1) [OF assms(1), of v]
  by (auto simp: init_attachment_def bind_res_Inr Let_def CreateImageView2D_def rt_ok_def rt_sized_def
      owns_views_def split: prod.splits)

lemma init_attachments_ok:
  assumes "views_not_null d" "rt_ok n s" "fold_res (init_attachment d desc) is s = Inr s'"
  shows "rt_ok (n + length is) s'"
  using assms(2,3)
proof (induction "is" arbitrary: n s)
  case (Cons i "is")
  obtain rt v where s: "s = (rt, v)" by force
  then obtain rt1 v1 where 1: "init_attachment d desc i (rt, v) = Inr (rt1, v1)" "fold_res (init_attachment d desc) is (rt1, v1) = Inr s'"
    using Cons.prems(2) by (auto simp: bind_res_Inr)
  then show ?case using Cons.IH [OF init_attachment_ok [OF assms(1) _ 1(1)] 1(2)] Cons.prems(1) s by simp
qed simp

lemma update_view_ok:
  assumes "views_not_null d" "rt_ok n (rt, v)" "update_view d img fmt asp i (rt, v) = Inr (rt', v')"
  shows "rt_ok n (rt', v')"
proof (cases "asp \<noteq> ar_aspects (attachmentRefs rt ! i)")
  case True
  then have i: "i < length (attachments rt)" using assms(3) by (auto simp: update_view_def Let_def bind_res_Inr idx_Inr)
  have "0 \<notin> set (attachments rt)" using assms(2) by (simp add: rt_ok_def owns_views_def)
  then have "attachments rt ! i \<noteq> 0" using nth_mem [OF i] by metis
  then have r: "attachments rt' = (attachments rt)[i := dv_view d (v @ [DestroyImageViewCall (attachments rt ! i)])]"
    "attachmentDescs rt' = attachmentDescs rt" "length (attachmentRefs rt') = length (attachmentRefs rt)"
    "views_created v' = views_created v + {# dv_view d (v @ [DestroyImageViewCall (attachments rt ! i)]) #}"
    "views_destroyed v' = views_destroyed v + {# attachments rt ! i #}"
    using True assms(3) i by (auto simp: update_view_def Let_def bind_res_Inr CreateImageView2D_def)
  have nz: "0 \<notin> set ((attachments rt)[i := dv_view d (v @ [DestroyImageViewCall (attachments rt ! i)])])"
    using \<open>0 \<notin> set (attachments rt)\<close> views_not_nullD(2) [OF assms(1)] set_update_subset_insert by (metis insertE neq0_conv subsetD)
  show ?thesis using assms(1,2) r mset_replace [OF i, of "dv_view d (v @ [DestroyImageViewCall (attachments rt ! i)])"] nz
    by (auto simp: rt_ok_def rt_sized_def owns_views_def add.assoc add.commute)
next
  case False
  then show ?thesis using assms(2,3) by (simp add: update_view_def)
qed

lemma update_layout_ok: "rt_ok n (update_layout l i rt, v) = rt_ok n (rt, v)"
  by (simp add: update_layout_def Let_def rt_ok_def rt_sized_def owns_views_def)

lemma update_attachment_ok:
  assumes "views_not_null d" "rt_ok n s" "update_attachment d getLayout desc i s = Inr s'"
  shows "rt_ok n s'"
proof -
  obtain rt v where s: "s = (rt, v)" by force
  obtain rt' v' where s': "s' = (rt', v')" by force
  from assms(3) obtain l img fmt asp where "update_view d img fmt asp i (update_layout l i rt, v) = Inr (rt', v')"
    unfolding s s' by (auto simp: update_attachment_def bind_res_Inr)
  from update_view_ok [OF assms(1) _ this] show ?thesis using assms(2) unfolding s s' by (simp add: update_layout_ok)
qed

definition same_attachments :: "render_target \<Rightarrow> render_target \<Rightarrow> bool" where
  "same_attachments rt rt' \<longleftrightarrow> attachments rt' = attachments rt \<and> attachmentDescs rt' = attachmentDescs rt
     \<and> attachmentRefs rt' = attachmentRefs rt \<and> beginInfo rt' = beginInfo rt \<and> passCache rt' = passCache rt"

lemma same_attachments_refl [simp]: "same_attachments rt rt"
  by (simp add: same_attachments_def)

lemma same_attachments_ok: "same_attachments rt rt' \<Longrightarrow> rt_ok n (rt', v) = rt_ok n (rt, v)"
  by (simp add: same_attachments_def rt_ok_def rt_sized_def owns_views_def)

lemma update_info_same: "update_info getLayout desc i rt = Inr rt' \<Longrightarrow> same_attachments rt rt'"
  by (auto simp: update_info_def bind_res_Inr same_attachments_def Let_def split: if_splits)

lemma update_infos_same: "update_infos getLayout desc rt = Inr rt' \<Longrightarrow> same_attachments rt rt'"
proof -
  assume "update_infos getLayout desc rt = Inr rt'"
  then obtain rt1 where r: "fold_res (update_info getLayout desc) [0..<length (attachments rt)] (clear_infos rt) = Inr rt1"
    "rt' = set_pipeline_info rt1" by (auto simp: update_infos_def bind_res_Inr split: if_splits)
  have "same_attachments rt rt1"
    by (rule fold_res_inv [where P = "same_attachments rt", OF r(1)]) (auto simp: clear_infos_def same_attachments_def dest!: update_info_same)
  then show ?thesis using r(2) by (simp add: set_pipeline_info_def same_attachments_def)
qed

lemma InternalUpdateAttachments_ok:
  assumes "views_not_null d" "rt_ok n s" "InternalUpdateAttachments d getLayout desc s = Inr s'"
  shows "rt_ok n s'"
proof -
  obtain rt v where r: "fold_res (update_attachment d getLayout desc) [0..<length (rtd_images desc)] s = Inr (rt, v)"
    and r': "(if useDynamicRendering desc then bind_res (update_infos getLayout desc rt) (\<lambda>rt1. Inr (rt1, v)) else Inr (rt, v)) = Inr s'"
    using assms(3) by (auto simp: InternalUpdateAttachments_def bind_res_Inr)
  have "rt_ok n (rt, v)" by (rule fold_res_inv [where P = "rt_ok n", OF r assms(2)]) (rule update_attachment_ok [OF assms(1)])
  then show ?thesis using r' by (auto simp: bind_res_Inr same_attachments_ok dest!: update_infos_same split: if_splits)
qed

section \<open>Sets of images stay in step\<close>

definition set_sized :: "nat \<Rightarrow> image_set \<Rightarrow> bool" where
  "set_sized n s \<longleftrightarrow> length (is_images s) = n \<and> rtd_images (is_desc s) = map io_image (is_images s)
     \<and> length (imageAspectFlags (is_desc s)) = n \<and> length (imageFormats (is_desc s)) = n \<and> useDynamicRendering (is_desc s)"

definition set_ok :: "nat \<Rightarrow> image_set \<times> vk \<Rightarrow> bool" where
  "set_ok n = (\<lambda>(s, v). set_sized n s \<and> rt_ok n (is_target s, v))"

lemma rt_ok_quiet: "created_view c = [] \<Longrightarrow> destroyed_view c = [] \<Longrightarrow> rt_ok n (rt, v @ [c]) = rt_ok n (rt, v)"
  by (simp add: rt_ok_def owns_views_def)

lemma rt_ok_begin [simp]: "rt_ok n (rt\<lparr> beginInfo := b \<rparr>, v) = rt_ok n (rt, v)"
  by (simp add: rt_ok_def owns_views_def rt_sized_def)

lemma Image_Transition_quiet:
  assumes "Image_Transition l a io v = (io', v')"
  shows "io_image io' = io_image io" "rt_ok n (rt, v') = rt_ok n (rt, v)"
  using assms by (auto simp: Image_Transition_def Let_def TransitionImageLayout_def rt_ok_quiet split: if_splits prod.splits)

lemma RenderImageSet_Transition_cases:
  assumes "RenderImageSet_Transition d l a i (s, v) = Inr (s', v')"
  obtains io' v1 rt where "i < length (is_images s)" "i < length (imageAspectFlags (is_desc s))"
    "Image_Transition l a (is_images s ! i) v = (io', v1)"
    "s' = s\<lparr> is_images := (is_images s)[i := io'],
        is_desc := (is_desc s)\<lparr> imageAspectFlags := (imageAspectFlags (is_desc s))[i := a] \<rparr>, is_target := rt \<rparr>"
    "InternalUpdateAttachments d (RenderImageSet_GetLayout (s\<lparr> is_images := (is_images s)[i := io'],
        is_desc := (is_desc s)\<lparr> imageAspectFlags := (imageAspectFlags (is_desc s))[i := a] \<rparr> \<rparr>))
       ((is_desc s)\<lparr> imageAspectFlags := (imageAspectFlags (is_desc s))[i := a] \<rparr>) (is_target s, v1) = Inr (rt, v')"
proof -
  obtain io' v1 where t: "Image_Transition l a (is_images s ! i) v = (io', v1)" by force
  show ?thesis
    by (rule that [of io' v1 "is_target s'"])
       (use assms t in \<open>auto simp: RenderImageSet_Transition_def bind_res_Inr idx_Inr Let_def\<close>)
qed

lemma map_update_same: "f x = f (xs ! i) \<Longrightarrow> map f (xs[i := x]) = map f xs"
  by (cases "i < length xs") (simp_all add: map_update list_update_same_conv list_update_beyond)

lemma RenderImageSet_Transition_ok:
  assumes "views_not_null d" "set_ok n (s, v)" "RenderImageSet_Transition d l a i (s, v) = Inr (s', v')"
  shows "set_ok n (s', v')"
  using assms(3)
proof (rule RenderImageSet_Transition_cases)
  fix io' v1 rt
  assume a: "Image_Transition l a (is_images s ! i) v = (io', v1)"
    "s' = s\<lparr> is_images := (is_images s)[i := io'],
        is_desc := (is_desc s)\<lparr> imageAspectFlags := (imageAspectFlags (is_desc s))[i := a] \<rparr>, is_target := rt \<rparr>"
    and u: "InternalUpdateAttachments d (RenderImageSet_GetLayout (s\<lparr> is_images := (is_images s)[i := io'],
        is_desc := (is_desc s)\<lparr> imageAspectFlags := (imageAspectFlags (is_desc s))[i := a] \<rparr> \<rparr>))
       ((is_desc s)\<lparr> imageAspectFlags := (imageAspectFlags (is_desc s))[i := a] \<rparr>) (is_target s, v1) = Inr (rt, v')"
  have "rt_ok n (is_target s, v1)" using assms(2) Image_Transition_quiet(2) [OF a(1)] by (simp add: set_ok_def)
  from InternalUpdateAttachments_ok [OF assms(1) this u] have "rt_ok n (rt, v')" .
  moreover have "map io_image ((is_images s)[i := io']) = map io_image (is_images s)"
    by (rule map_update_same) (rule Image_Transition_quiet(1) [OF a(1)])
  ultimately show ?thesis using assms(2) a(2) by (simp add: set_ok_def set_sized_def)
qed

lemma set_op_same:
  "SetLoadOp desc l i sl rt = Inr rt' \<Longrightarrow> rt_ok n (rt', v) = rt_ok n (rt, v)"
  "SetStoreOp desc st i sst rt = Inr rt' \<Longrightarrow> rt_ok n (rt', v) = rt_ok n (rt, v)"
  by (auto simp: SetLoadOp_def SetStoreOp_def bind_res_Inr Let_def rt_ok_def owns_views_def rt_sized_def)

lemma set_final_layout_cases:
  assumes "set_final_layout i s = Inr s'"
  shows "i < length (is_images s)" "i < length (attachmentDescs (is_target s))"
    "s' = s\<lparr> is_images := (is_images s)[i := (is_images s ! i)\<lparr> io_layout := ad_finalLayout (attachmentDescs (is_target s) ! i) \<rparr>] \<rparr>"
  using assms by (auto simp: set_final_layout_def bind_res_Inr idx_Inr)

definition final_images :: "image_set \<Rightarrow> image_obj list" where
  "final_images s = map (\<lambda>i. (is_images s ! i)\<lparr> io_layout := ad_finalLayout (attachmentDescs (is_target s) ! i) \<rparr>) [0..<length (is_images s)]"

lemma fold_set_final_layout:
  "k \<le> length (is_images s) \<Longrightarrow> fold_res set_final_layout [0..<k] s = Inr s' \<Longrightarrow>
     s' = s\<lparr> is_images := take k (final_images s) @ drop k (is_images s) \<rparr>"
proof (induction k arbitrary: s')
  case (Suc k)
  then obtain s1 where s1: "fold_res set_final_layout [0..<k] s = Inr s1" "set_final_layout k s1 = Inr s'"
    by (auto simp: fold_res_append bind_res_Inr)
  have e: "s1 = s\<lparr> is_images := take k (final_images s) @ drop k (is_images s) \<rparr>" using Suc s1(1) by simp
  have l: "length (final_images s) = length (is_images s)" "final_images s ! k
     = (is_images s ! k)\<lparr> io_layout := ad_finalLayout (attachmentDescs (is_target s) ! k) \<rparr>"
    using Suc.prems(1) by (simp_all add: final_images_def)
  have "drop k (is_images s) = is_images s ! k # drop (Suc k) (is_images s)" using Suc.prems(1) by (simp add: Cons_nth_drop_Suc)
  then show ?case using set_final_layout_cases(3) [OF s1(2)] Suc.prems(1) l
    by (simp add: e nth_append list_update_append take_Suc_conv_app_nth)
qed simp

lemma final_images_same:
  "(\<forall>i<length (is_images s). io_layout (final_images s ! i) = io_layout (is_images s ! i)) \<longleftrightarrow> final_images s = is_images s"
proof
  assume a: "\<forall>i<length (is_images s). io_layout (final_images s ! i) = io_layout (is_images s ! i)"
  show "final_images s = is_images s"
  proof (rule nth_equalityI)
    fix i assume "i < length (final_images s)"
    then have i: "i < length (is_images s)" by (simp add: final_images_def)
    then have "ad_finalLayout (attachmentDescs (is_target s) ! i) = io_layout (is_images s ! i)" using a by (simp add: final_images_def)
    then show "final_images s ! i = is_images s ! i" using i by (simp add: final_images_def)
  qed (simp add: final_images_def)
qed simp

lemma RenderImageSet_End_cases:
  assumes "RenderImageSet_End (s, v) = Inr (s', v')" "useDynamicRendering (is_desc s)"
  shows "s' = s\<lparr> is_target := (is_target s)\<lparr> beginInfo := None \<rparr>, is_images := final_images s \<rparr>" "v' = v @ [CmdEndRendering]"
proof -
  define s0 where "s0 = s\<lparr> is_target := (is_target s)\<lparr> beginInfo := None \<rparr> \<rparr>"
  have f: "fold_res set_final_layout [0..<length (is_images s0)] s0 = Inr s'" and v': "v' = v @ [CmdEndRendering]"
    using assms by (auto simp: RenderImageSet_End_def RenderTarget_End_def bind_res_Inr s0_def split: if_splits)
  have "final_images s0 = final_images s" by (simp add: final_images_def s0_def)
  then show "s' = s\<lparr> is_target := (is_target s)\<lparr> beginInfo := None \<rparr>, is_images := final_images s \<rparr>"
    using fold_set_final_layout [OF order_refl f] by (simp add: s0_def final_images_def)
  show "v' = v @ [CmdEndRendering]" by (rule v')
qed

lemma final_images_image [simp]: "map io_image (final_images s) = map io_image (is_images s)"
  by (rule nth_equalityI) (simp_all add: final_images_def)

lemma render_op_ok:
  assumes "views_not_null d" "set_ok n s" "render_op_exec d hash op s = Inr s'"
  shows "set_ok n s'"
proof -
  obtain t v where s: "s = (t, v)" by force
  obtain t' v' where s': "s' = (t', v')" by force
  note a = assms(2,3) [unfolded s s']
  have dyn: "useDynamicRendering (is_desc t)" using a(1) by (simp add: set_ok_def set_sized_def)
  show ?thesis
  proof (cases op)
    case (RoTransition l asp i)
    then show ?thesis using RenderImageSet_Transition_ok [OF assms(1) a(1)] a(2) s' by simp
  next
    case (RoSetLoadOp l i sl)
    then show ?thesis using a s' by (auto simp: bind_res_Inr set_ok_def set_sized_def set_op_same)
  next
    case (RoSetStoreOp l i sl)
    then show ?thesis using a s' by (auto simp: bind_res_Inr set_ok_def set_sized_def set_op_same)
  next
    case (RoBegin c)
    then show ?thesis using a s' dyn
      by (auto simp: RenderImageSet_Begin_def RenderTarget_Begin_def bind_res_Inr set_ok_def set_sized_def Let_def rt_ok_quiet split: if_splits)
  next
    case RoEnd
    then have "RenderImageSet_End (t, v) = Inr (t', v')" using a(2) by simp
    from RenderImageSet_End_cases [OF this dyn] show ?thesis using a(1) s'
      by (simp add: set_ok_def set_sized_def rt_ok_quiet) (simp add: final_images_def)
  next
    case (RoClear val i)
    then obtain fmt t1 v1 c where "RenderImageSet_Transition d LAYOUT_TRANSFER_DST (all_aspects fmt) i (t, v) = Inr (t1, v1)"
      "t' = t1" "v' = v1 @ [c]" "created_view c = []" "destroyed_view c = []"
      using a(2) by (auto simp: Clear_def image_set_class_def bind_res_Inr)
    then show ?thesis using RenderImageSet_Transition_ok [OF assms(1) a(1)] s' by (auto simp: set_ok_def rt_ok_quiet)
  next
    case (RoClearAll vals)
    then show ?thesis using a s' by (auto simp: ClearAll_def bind_res_Inr set_ok_def rt_ok_quiet)
  qed
qed

lemma add_images:
  assumes "fold_res add_image ios desc = Inr desc'"
  shows "rtd_images desc' = rtd_images desc @ map io_image ios \<and> length (imageFormats desc') = length (imageFormats desc) + length ios
    \<and> length (imageAspectFlags desc') = length (imageAspectFlags desc) + length ios
    \<and> imageFormats desc' = imageFormats desc @ map (im_format \<circ> io_desc) ios
    \<and> imageLayouts desc' = imageLayouts desc @ map io_layout ios
    \<and> clearValues desc' = clearValues desc"
  using assms by (induction ios arbitrary: desc) (auto simp: add_image_def bind_res_Inr split: if_splits)

lemma CreateRenderTargetCreateDesc_Inr:
  assumes "CreateRenderTargetCreateDesc ios = Inr desc"
  shows "rtd_images desc = map io_image ios" "length (imageFormats desc) = length ios" "length (imageAspectFlags desc) = length ios"
    "useDynamicRendering desc"
proof -
  obtain io r where i: "ios = io # r" using assms by (cases ios) (simp_all add: CreateRenderTargetCreateDesc_def)
  then obtain l where l: "first_level (io_desc io) = Inr l"
    using assms by (auto simp: CreateRenderTargetCreateDesc_def bind_res_Inr)
  then obtain desc0 where r: "fold_res add_image ios (rt_desc_default\<lparr> rtd_width := ml_width l, rtd_height := ml_height l \<rparr>) = Inr desc0"
    "desc = desc0\<lparr> layerCount := 1, useDynamicRendering := True \<rparr>"
    using assms i by (auto simp: CreateRenderTargetCreateDesc_def bind_res_Inr simp del: fold_res.simps)
  from add_images [OF r(1)] r(2) show "rtd_images desc = map io_image ios" "length (imageFormats desc) = length ios"
    "length (imageAspectFlags desc) = length ios" "useDynamicRendering desc"
    by (simp_all add: rt_desc_default_def)
qed

lemma RenderImageSet_new_ok:
  assumes "views_not_null d" "views_created v = views_destroyed v" "RenderImageSet_new d hash ios v = Inr (s, v')"
  shows "set_ok (length ios) (s, v')" "is_images s = ios"
proof -
  obtain desc rt where r: "CreateRenderTargetCreateDesc ios = Inr desc" "RenderTarget_new d hash desc v = Inr (rt, v')"
    "s = \<lparr> is_target = rt, is_desc = desc, is_images = ios \<rparr>"
    using assms(3) by (auto simp: RenderImageSet_new_def bind_res_Inr)
  note c = CreateRenderTargetCreateDesc_Inr [OF r(1)]
  have f: "fold_res (init_attachment d desc) [0..<length (rtd_images desc)] (render_target_empty\<lparr> attachments := [] \<rparr>, v) = Inr (rt, v')"
    using r(2) c(4) by (auto simp: RenderTarget_new_def InternalInitializeAttachments_def bind_res_Inr split: if_splits)
  have "rt_ok 0 (render_target_empty\<lparr> attachments := [] \<rparr>, v)"
    using assms(2) by (simp add: rt_ok_def rt_sized_def owns_views_def render_target_empty_def)
  from init_attachments_ok [OF assms(1) this f] show "set_ok (length ios) (s, v')"
    using c r(3) by (simp add: set_ok_def set_sized_def)
  show "is_images s = ios" by (simp add: r(3))
qed

lemma render_ops_ok:
  assumes "views_not_null d" "set_ok n s" "fold_res (render_op_exec d hash) ops s = Inr s'"
  shows "set_ok n s'"
  by (rule fold_res_inv [where P = "set_ok n", OF assms(3,2)]) (rule render_op_ok [OF assms(1)])

lemma destroy_views:
  assumes "RenderTarget_destroy rt v = Inr v'"
  shows "views_created v' = views_created v" "views_destroyed v' = views_destroyed v + mset (attachments rt)"
proof -
  have c: "concat (map created_view (concat (map (\<lambda>(_, rp, fb). [DestroyRenderPassCall rp, DestroyFramebufferCall fb]) pc))) = []"
    "concat (map destroyed_view (concat (map (\<lambda>(_, rp, fb). [DestroyRenderPassCall rp, DestroyFramebufferCall fb]) pc))) = []"
    for pc :: "(u64 \<times> nat \<times> nat) list" by (induction pc) auto
  have m: "concat (map created_view (map DestroyImageViewCall xs)) = []" "concat (map destroyed_view (map DestroyImageViewCall xs)) = xs" for xs
    by (induction xs) simp_all
  have v': "v' = v @ concat (map (\<lambda>(_, rp, fb). [DestroyRenderPassCall rp, DestroyFramebufferCall fb]) (passCache rt))
      @ map DestroyImageViewCall (attachments rt)"
    using assms by (auto simp: RenderTarget_destroy_def bind_res_Inr split: if_splits)
  show "views_created v' = views_created v" "views_destroyed v' = views_destroyed v + mset (attachments rt)"
    unfolding v' views_append by (simp_all add: views_created_def views_destroyed_def c m del: map_map)
qed

section \<open>An example history\<close>

definition ex_view_driver :: driver where
  "ex_view_driver = ex_driver\<lparr> dv_view := (\<lambda>v. Suc (sum_list (concat (map created_view v)))) \<rparr>"

lemma ex_view_driver_fresh: "views_fresh ex_view_driver"
proof -
  have "x \<le> sum_list (concat (map created_view v))" if "x \<in># views_created v" for x v
    using that member_le_sum_list [of x "concat (map created_view v)"] by (simp add: views_created_def)
  then have "Suc (sum_list (concat (map created_view v))) \<notin># views_created v" for v by fastforce
  then show ?thesis by (auto simp: views_fresh_def views_not_null_def ex_view_driver_def dest: in_diffD)
qed

definition ex_color_image :: image_obj where
  "ex_color_image = \<lparr> io_image = 1, io_memory = 1, io_layout = LAYOUT_UNDEFINED, io_aspects = {ColorAspect}, io_desc = ex_desc \<rparr>"

definition ex_depth_image :: image_obj where
  "ex_depth_image = \<lparr> io_image = 2, io_memory = 2, io_layout = LAYOUT_DEPTH_STENCIL_ATTACHMENT, io_aspects = {DepthAspect},
     io_desc = ex_desc\<lparr> im_format := FORMAT_D32_SFLOAT \<rparr> \<rparr>"

definition ex_render_ops :: "render_op list" where
  "ex_render_ops = [RoTransition LAYOUT_COLOR_ATTACHMENT {ColorAspect} 0, RoBegin ContentsInline, RoEnd]"

lemmas render_defs = RenderImageSet_new_def CreateRenderTargetCreateDesc_def add_image_def first_level_def ex_desc_def
  image_desc_empty_def rt_desc_default_def RenderTarget_new_def InternalInitializeAttachments_def init_attachment_def
  CreateImageView2D_def HasColorComponent_def HasDepthComponent_def HasStencilComponent_def depth_only_def Let_def
  render_target_empty_def RenderImageSet_Transition_def Image_Transition_def InternalUpdateAttachments_def
  update_attachment_def update_layout_def update_view_def RenderImageSet_GetLayout_def update_infos_def update_info_def
  clear_infos_def set_pipeline_info_def RenderImageSet_Begin_def RenderTarget_Begin_def RenderImageSet_End_def
  RenderTarget_End_def set_final_layout_def idx_def ex_color_image_def ex_depth_image_def ex_render_ops_def numeral_2_eq_2

lemma ex_render_run: "\<exists>s v s' v'. RenderImageSet_new ex_view_driver hash [ex_color_image, ex_depth_image] [] = Inr (s, v)
    \<and> fold_res (render_op_exec ex_view_driver hash) ex_render_ops (s, v) = Inr (s', v') \<and> beginInfo (is_target s') = None"
  by (simp add: render_defs)

text \<open>C31: Along every history of a set of render images its attachments, descriptions and references stay
  as many as its images and name the same images, the views it created are the freed ones and the ones
  it holds, and once it is destroyed every view was freed exactly once.\<close>
theorem render_image_set_in_step:
  assumes "views_not_null d" "RenderImageSet_new d hash ios [] = Inr (s, v)" "fold_res (render_op_exec d hash) ops (s, v) = Inr (s', v')"
  shows "length (attachments (is_target s')) = length ios \<and> length (attachmentDescs (is_target s')) = length ios
    \<and> length (attachmentRefs (is_target s')) = length ios \<and> rtd_images (is_desc s') = map io_image (is_images s')
    \<and> length (is_images s') = length ios
    \<and> views_created v' = views_destroyed v' + mset (attachments (is_target s'))
    \<and> (case RenderTarget_destroy (is_target s') v' of Inl e \<Rightarrow> beginInfo (is_target s') \<noteq> None
       | Inr v'' \<Rightarrow> views_created v'' = views_destroyed v'')"
proof -
  have "views_created [] = views_destroyed []" by simp
  from render_ops_ok [OF assms(1) RenderImageSet_new_ok(1) [OF assms(1) this assms(2)] assms(3)]
  have ok: "set_ok (length ios) (s', v')" .
  show ?thesis
  proof (cases "RenderTarget_destroy (is_target s') v'")
    case (Inl e)
    then show ?thesis using ok by (auto simp: set_ok_def set_sized_def rt_ok_def rt_sized_def owns_views_def RenderTarget_destroy_def split: if_splits)
  next
    case (Inr v'')
    then show ?thesis using ok destroy_views [OF Inr] by (simp add: set_ok_def set_sized_def rt_ok_def rt_sized_def owns_views_def)
  qed
qed

theorem render_image_set_in_step_witness:
  "\<exists>s v s' v' v''. RenderImageSet_new ex_view_driver (\<lambda>_. 0) [ex_color_image, ex_depth_image] [] = Inr (s, v)
    \<and> fold_res (render_op_exec ex_view_driver (\<lambda>_. 0)) ex_render_ops (s, v) = Inr (s', v')
    \<and> RenderTarget_destroy (is_target s') v' = Inr v'' \<and> views_created v'' = views_destroyed v''
    \<and> length (attachments (is_target s')) = 2"
proof -
  from ex_render_run obtain s v s' v' where r: "RenderImageSet_new ex_view_driver (\<lambda>_. 0) [ex_color_image, ex_depth_image] [] = Inr (s, v)"
    "fold_res (render_op_exec ex_view_driver (\<lambda>_. 0)) ex_render_ops (s, v) = Inr (s', v')" "beginInfo (is_target s') = None" by blast
  have "views_not_null ex_view_driver" using ex_view_driver_fresh by (simp add: views_fresh_def)
  note t = render_image_set_in_step [OF this r(1,2)]
  then show ?thesis using r by (cases "RenderTarget_destroy (is_target s') v'") auto
qed

section \<open>The layouts a pass renders with\<close>

lemma fresh_view: "views_fresh d \<Longrightarrow> owns_views (rt, v) \<Longrightarrow> dv_view d v \<notin> set (attachments rt)"
  by (simp add: views_fresh_def owns_views_def) (metis add_diff_cancel_left' set_mset_mset)

lemma fresh_view_destroyed:
  assumes "views_fresh d" "owns_views (rt, v)" "i < length (attachments rt)" "j < length (attachments rt)" "j \<noteq> i"
    "distinct (attachments rt)"
  shows "dv_view d (v @ [DestroyImageViewCall (attachments rt ! i)]) \<noteq> attachments rt ! j"
proof -
  have "views_created v - (views_destroyed v + {# attachments rt ! i #}) = mset (attachments rt) - {# attachments rt ! i #}"
    using assms(2) by (simp add: owns_views_def)
  moreover have "attachments rt ! j \<in># mset (attachments rt) - {# attachments rt ! i #}"
    using assms(3-6) by (simp add: in_diff_count nth_eq_iff_index_eq)
  ultimately have "attachments rt ! j \<in># views_created (v @ [DestroyImageViewCall (attachments rt ! i)])
      - views_destroyed (v @ [DestroyImageViewCall (attachments rt ! i)])" by simp
  then show ?thesis using assms(1) unfolding views_fresh_def by metis
qed

definition views_show :: "nat list \<Rightarrow> gpu_state \<Rightarrow> render_target \<Rightarrow> bool" where
  "views_show imgs g rt \<longleftrightarrow> distinct (attachments rt) \<and> (\<forall>i<length imgs. gs_view g (attachments rt ! i) = Some (imgs ! i))"

text \<open>The replay reaches a state with the layouts \<open>L\<close>, where each attachment shows its image.\<close>

definition shows_images :: "driver \<Rightarrow> gpu_state \<Rightarrow> (nat \<Rightarrow> image_layout) \<Rightarrow> nat list \<Rightarrow> render_target \<times> vk \<Rightarrow> bool" where
  "shows_images d g0 L imgs = (\<lambda>(rt, v). rt_ok (length imgs) (rt, v)
     \<and> (\<exists>g. gpu_run v g0 = Some g \<and> gs_layout g = L \<and> views_show imgs g rt))"

lemma update_view_shows:
  assumes "views_fresh d" "shows_images d g0 L imgs (rt, v)" "i < length imgs" "img = imgs ! i"
    "update_view d img fmt asp i (rt, v) = Inr (rt', v')"
  shows "shows_images d g0 L imgs (rt', v')"
proof (cases "asp \<noteq> ar_aspects (attachmentRefs rt ! i)")
  case True
  have nn: "views_not_null d" using assms(1) by (simp add: views_fresh_def)
  have ok: "rt_ok (length imgs) (rt, v)" and ow: "owns_views (rt, v)" and len: "length (attachments rt) = length imgs"
    using assms(2) by (simp_all add: shows_images_def rt_ok_def rt_sized_def)
  obtain g where g: "gpu_run v g0 = Some g" "gs_layout g = L" "distinct (attachments rt)"
    "\<And>j. j < length imgs \<Longrightarrow> gs_view g (attachments rt ! j) = Some (imgs ! j)"
    using assms(2) by (auto simp: shows_images_def views_show_def)
  define old where "old = attachments rt ! i"
  define w where "w = dv_view d (v @ [DestroyImageViewCall old])"
  have o': "old \<noteq> 0"
  proof -
    have "0 \<notin> set (attachments rt)" using ow by (simp add: owns_views_def)
    moreover have "old \<in> set (attachments rt)" using assms(3) len by (simp add: old_def)
    ultimately show ?thesis by metis
  qed
  have r: "attachments rt' = (attachments rt)[i := w]" "\<exists>info. vi_image info = img \<and> v' = v @ [DestroyImageViewCall old, CreateImageViewCall info w]"
    using True assms(3,5) len o' by (auto simp: update_view_def Let_def bind_res_Inr CreateImageView2D_def old_def w_def)
  then obtain info where info: "vi_image info = img" "v' = v @ [DestroyImageViewCall old, CreateImageViewCall info w]" by blast
  have run: "gpu_run v' g0 = Some (g\<lparr> gs_view := (gs_view g)(old := None, w \<mapsto> img) \<rparr>)"
    using g(1) info by (simp add: gpu_run_append)
  have new: "w \<noteq> attachments rt ! j" if "j < length imgs" "j \<noteq> i" for j
    using fresh_view_destroyed [OF assms(1) ow _ _ that(2) g(3)] assms(3) that(1) len by (simp add: w_def old_def)
  have old: "old \<noteq> attachments rt ! j" if "j < length imgs" "j \<noteq> i" for j
    using that g(3) assms(3) len by (simp add: old_def nth_eq_iff_index_eq)
  have "distinct ((attachments rt)[i := w])" using g(3) new len
    by (intro distinct_list_update) (auto simp: in_set_conv_nth)
  moreover have "((gs_view g)(old := None, w \<mapsto> img)) ((attachments rt)[i := w] ! j) = Some (imgs ! j)" if "j < length imgs" for j
    using that new [of j] old [of j] g(4) [of j] assms(3,4) len by (cases "j = i") (auto simp: nth_list_update)
  ultimately show ?thesis using update_view_ok [OF nn ok assms(5)] run r(1) g(2)
    by (simp add: shows_images_def views_show_def)
next
  case False
  then show ?thesis using assms(2,5) by (simp add: update_view_def)
qed

lemma update_attachment_shows:
  assumes "views_fresh d" "shows_images d g0 L imgs s" "i < length imgs" "rtd_images desc = imgs"
    "update_attachment d getLayout desc i s = Inr s'"
  shows "shows_images d g0 L imgs s'"
proof -
  obtain rt v where s: "s = (rt, v)" by force
  obtain rt' v' where s': "s' = (rt', v')" by force
  from assms(5) obtain l img fmt asp where u: "update_view d img fmt asp i (update_layout l i rt, v) = Inr (rt', v')" and i: "img = imgs ! i"
    unfolding s s' by (auto simp: update_attachment_def bind_res_Inr idx_Inr assms(4))
  have "shows_images d g0 L imgs (update_layout l i rt, v)" using assms(2)
    by (simp add: s shows_images_def update_layout_ok views_show_def) (simp add: update_layout_def Let_def)
  from update_view_shows [OF assms(1) this assms(3) i u] show ?thesis unfolding s' .
qed

definition option_list :: "'a option \<Rightarrow> 'a list" where
  "option_list x = (case x of None \<Rightarrow> [] | Some a \<Rightarrow> [a])"

definition infos_of :: "render_target \<Rightarrow> attachment_info list" where
  "infos_of rt = colorInfos rt @ option_list (depthInfo rt) @ option_list (stencilInfo rt)"

lemma update_info_in_layout:
  assumes "update_info getLayout desc i rt = Inr rt'" "list_all (attachment_in_layout g) (infos_of rt)"
    "\<And>l. getLayout i = Inr l \<Longrightarrow> gs_view g (attachments rt ! i) = Some img \<and> gs_layout g img = l"
  shows "list_all (attachment_in_layout g) (infos_of rt')"
proof -
  from assms(1) obtain ad clear l where l: "getLayout i = Inr l" and r: "(let info = attachment_info_of (attachments rt ! i) l ad clear in
       if HasColorComponent (ad_format ad)
       then Inr (rt\<lparr> colorInfos := colorInfos rt @ [info], colorFormats := colorFormats rt @ [ad_format ad] \<rparr>)
       else if HasDepthComponent (ad_format ad)
       then Inr (rt\<lparr> depthInfo := Some info, depthFormat := Some (ad_format ad) \<rparr>)
       else if HasStencilComponent (ad_format ad)
       then Inr (rt\<lparr> stencilInfo := Some info, stencilFormat := Some (ad_format ad) \<rparr>)
       else Inr rt) = (Inr rt' :: render_target res)"
    by (auto simp: update_info_def bind_res_Inr idx_Inr Let_def simp del: HasColorComponent_def)
  have "attachment_in_layout g (attachment_info_of (attachments rt ! i) l ad clear)"
    using assms(3) [OF l] by (simp add: attachment_in_layout_def attachment_info_of_def)
  then show ?thesis using r assms(2) by (auto simp: Let_def infos_of_def option_list_def split: if_splits option.splits)
qed

lemma update_infos_in_layout:
  assumes "update_infos getLayout desc rt = Inr rt'" "length (attachments rt) = length imgs" "views_show imgs g rt"
    "\<And>i l. i < length imgs \<Longrightarrow> getLayout i = Inr l \<Longrightarrow> gs_layout g (imgs ! i) = l"
  shows "list_all (attachment_in_layout g) (infos_of rt')"
proof -
  obtain rt1 where r: "fold_res (update_info getLayout desc) [0..<length (attachments rt)] (clear_infos rt) = Inr rt1"
    "rt' = set_pipeline_info rt1" using assms(1) by (auto simp: update_infos_def bind_res_Inr split: if_splits)
  have "list_all (attachment_in_layout g) (infos_of rt1) \<and> attachments rt1 = attachments rt"
  proof (rule fold_res_inv [where P = "\<lambda>x. list_all (attachment_in_layout g) (infos_of x) \<and> attachments x = attachments rt", OF r(1)])
    show "list_all (attachment_in_layout g) (infos_of (clear_infos rt)) \<and> attachments (clear_infos rt) = attachments rt"
      by (simp add: clear_infos_def infos_of_def option_list_def)
    fix i x y
    assume i: "i \<in> set [0..<length (attachments rt)]" and x: "list_all (attachment_in_layout g) (infos_of x) \<and> attachments x = attachments rt"
      and u: "update_info getLayout desc i x = Inr y"
    have "list_all (attachment_in_layout g) (infos_of y)"
      by (rule update_info_in_layout [OF u, where img = "imgs ! i"]) (use x i assms(2-4) in \<open>auto simp: views_show_def\<close>)
    then show "list_all (attachment_in_layout g) (infos_of y) \<and> attachments y = attachments rt"
      using x update_info_same [OF u] by (simp add: same_attachments_def)
  qed
  then show ?thesis using r(2) by (simp add: set_pipeline_info_def infos_of_def)
qed

lemma InternalUpdateAttachments_shows:
  assumes "views_fresh d" "shows_images d g0 L imgs s" "rtd_images desc = imgs" "useDynamicRendering desc"
    "\<And>i l. i < length imgs \<Longrightarrow> getLayout i = Inr l \<Longrightarrow> L (imgs ! i) = l"
    "InternalUpdateAttachments d getLayout desc s = Inr (rt', v')"
  shows "shows_images d g0 L imgs (rt', v')" "\<exists>g. gpu_run v' g0 = Some g \<and> list_all (attachment_in_layout g) (infos_of rt')"
proof -
  obtain rt where r: "fold_res (update_attachment d getLayout desc) [0..<length imgs] s = Inr (rt, v')"
    and u: "update_infos getLayout desc rt = Inr rt'"
    using assms(3,4,6) by (auto simp: InternalUpdateAttachments_def bind_res_Inr)
  have sh: "shows_images d g0 L imgs (rt, v')"
    by (rule fold_res_inv [where P = "shows_images d g0 L imgs", OF r assms(2)])
       (rule update_attachment_shows [OF assms(1) _ _ assms(3)], auto)
  then obtain g where g: "gpu_run v' g0 = Some g" "gs_layout g = L" "views_show imgs g rt" by (auto simp: shows_images_def)
  have len: "length (attachments rt) = length imgs" using sh by (simp add: shows_images_def rt_ok_def rt_sized_def)
  note same = update_infos_same [OF u]
  show "shows_images d g0 L imgs (rt', v')" using sh same
    by (simp add: shows_images_def same_attachments_ok) (simp add: views_show_def same_attachments_def)
  show "\<exists>g. gpu_run v' g0 = Some g \<and> list_all (attachment_in_layout g) (infos_of rt')"
    using g update_infos_in_layout [OF u len g(3)] assms(5) by blast
qed

section \<open>Histories with real layouts\<close>

definition all_tracked :: "gpu_state \<Rightarrow> image_set \<Rightarrow> bool" where
  "all_tracked g s \<longleftrightarrow> (\<forall>io\<in>set (is_images s). image_tracked g io)"

definition set_tracked :: "driver \<Rightarrow> gpu_state \<Rightarrow> nat list \<Rightarrow> image_set \<times> vk \<Rightarrow> bool" where
  "set_tracked d g0 imgs = (\<lambda>(s, v). set_ok (length imgs) (s, v) \<and> map io_image (is_images s) = imgs \<and> distinct imgs
     \<and> (\<exists>g. gpu_run v g0 = Some g \<and> views_show imgs g (is_target s) \<and> list_all (attachment_in_layout g) (infos_of (is_target s))
          \<and> all_tracked g s))"

lemma tracked_nth:
  "map io_image (is_images s) = imgs \<Longrightarrow> all_tracked g s \<longleftrightarrow> (\<forall>i<length imgs. gs_layout g (imgs ! i) = io_layout (is_images s ! i))"
  by (auto simp: all_tracked_def image_tracked_def all_set_conv_all_nth)

lemma RenderImageSet_Transition_tracked:
  assumes "views_fresh d" "set_tracked d g0 imgs (s, v)" "RenderImageSet_Transition d l a i (s, v) = Inr (s', v')"
  shows "set_tracked d g0 imgs (s', v')" "i < length imgs" "io_layout (is_images s' ! i) = l"
proof -
  have nn: "views_not_null d" using assms(1) by (simp add: views_fresh_def)
  have ok: "set_ok (length imgs) (s, v)" and im: "map io_image (is_images s) = imgs" and di: "distinct imgs"
    using assms(2) by (simp_all add: set_tracked_def)
  obtain g where g: "gpu_run v g0 = Some g" "views_show imgs g (is_target s)" "all_tracked g s"
    using assms(2) by (auto simp: set_tracked_def)
  obtain io' v1 rt where c: "i < length (is_images s)" "Image_Transition l a (is_images s ! i) v = (io', v1)"
    "s' = s\<lparr> is_images := (is_images s)[i := io'],
        is_desc := (is_desc s)\<lparr> imageAspectFlags := (imageAspectFlags (is_desc s))[i := a] \<rparr>, is_target := rt \<rparr>"
    "InternalUpdateAttachments d (RenderImageSet_GetLayout (s\<lparr> is_images := (is_images s)[i := io'],
        is_desc := (is_desc s)\<lparr> imageAspectFlags := (imageAspectFlags (is_desc s))[i := a] \<rparr> \<rparr>))
       ((is_desc s)\<lparr> imageAspectFlags := (imageAspectFlags (is_desc s))[i := a] \<rparr>) (is_target s, v1) = Inr (rt, v')"
    by (rule RenderImageSet_Transition_cases [OF assms(3)])
  have len: "length (is_images s) = length imgs" using im by auto
  have t: "image_tracked g (is_images s ! i)" using g(3) c(1) by (simp add: all_tracked_def)
  obtain g2 where g2: "gpu_run v1 g0 = Some g2" "image_tracked g2 io'" "io_image io' = io_image (is_images s ! i)" "io_layout io' = l"
    "\<forall>j. j \<noteq> io_image (is_images s ! i) \<longrightarrow> gs_layout g2 j = gs_layout g j" "gs_view g2 = gs_view g"
    using Image_Transition_run [OF g(1) t c(2)] by blast
  have lay: "gs_layout g2 (imgs ! j) = io_layout ((is_images s)[i := io'] ! j)" if "j < length imgs" for j
  proof (cases "j = i")
    case True
    moreover have "imgs ! i = io_image (is_images s ! i)" unfolding im [symmetric] using c(1) by simp
    ultimately show ?thesis using g2(2,3) c(1) by (simp add: image_tracked_def)
  next
    case False
    then have "imgs ! j \<noteq> io_image (is_images s ! i)" using that di c(1) len im by (metis nth_eq_iff_index_eq nth_map)
    then show ?thesis using g2(5) g(3) that False tracked_nth [OF im] by simp
  qed
  have "rt_ok (length imgs) (is_target s, v1)"
    using ok Image_Transition_quiet(2) [OF c(2)] by (simp add: set_ok_def)
  then have sh: "shows_images d g0 (gs_layout g2) imgs (is_target s, v1)"
    using g(2) g2(1,6) by (simp add: shows_images_def views_show_def)
  have gl: "gs_layout g2 (imgs ! j) = y" if "j < length imgs" "RenderImageSet_GetLayout (s\<lparr> is_images := (is_images s)[i := io'],
        is_desc := (is_desc s)\<lparr> imageAspectFlags := (imageAspectFlags (is_desc s))[i := a] \<rparr> \<rparr>) j = Inr y" for j y
    using that lay by (auto simp: RenderImageSet_GetLayout_def bind_res_Inr idx_Inr)
  have d: "rtd_images ((is_desc s)\<lparr> imageAspectFlags := (imageAspectFlags (is_desc s))[i := a] \<rparr>) = imgs"
    "useDynamicRendering ((is_desc s)\<lparr> imageAspectFlags := (imageAspectFlags (is_desc s))[i := a] \<rparr>)"
    using ok im by (simp_all add: set_ok_def set_sized_def)
  note u = InternalUpdateAttachments_shows [OF assms(1) sh d gl c(4)]
  obtain g3 where g3: "gpu_run v' g0 = Some g3" "gs_layout g3 = gs_layout g2" "views_show imgs g3 rt"
    "list_all (attachment_in_layout g3) (infos_of rt)"
    using u by (auto simp: shows_images_def)
  have im': "map io_image (is_images s') = imgs" unfolding c(3) using im g2(3) c(1) by (simp add: map_update_same)
  have "is_images s' = (is_images s)[i := io']" by (simp add: c(3))
  then have "all_tracked g3 s'" using lay unfolding tracked_nth [OF im'] g3(2) by simp
  then show "set_tracked d g0 imgs (s', v')"
    using g3 im' di RenderImageSet_Transition_ok [OF nn ok assms(3)] c(3) by (auto simp: set_tracked_def)
  show "i < length imgs" using c(1) len by simp
  show "io_layout (is_images s' ! i) = l" using c(1,3) g2(4) by simp
qed

lemma gpu_exec_quiet:
  "gpu_run v g0 = Some g \<Longrightarrow> gpu_exec c g = Some g \<Longrightarrow> gpu_run (v @ [c]) g0 = Some g"
  by (simp add: gpu_run_append)

lemma set_tracked_quiet:
  assumes "set_tracked d g0 imgs (s, v)" "set_ok (length imgs) (s', v @ [c])" "is_images s' = is_images s"
    "attachments (is_target s') = attachments (is_target s)" "infos_of (is_target s') = infos_of (is_target s)"
    "\<And>g. gpu_run v g0 = Some g \<Longrightarrow> list_all (attachment_in_layout g) (infos_of (is_target s)) \<Longrightarrow> all_tracked g s \<Longrightarrow> gpu_exec c g = Some g"
  shows "set_tracked d g0 imgs (s', v @ [c])"
proof -
  obtain g where g: "gpu_run v g0 = Some g" "views_show imgs g (is_target s)" "list_all (attachment_in_layout g) (infos_of (is_target s))"
    "all_tracked g s" using assms(1) by (auto simp: set_tracked_def)
  have "gpu_run (v @ [c]) g0 = Some g" by (rule gpu_exec_quiet [OF g(1) assms(6) [OF g(1,3,4)]])
  then show ?thesis using assms(1-5) g by (auto simp: set_tracked_def views_show_def all_tracked_def)
qed

fun ends_final :: "driver \<Rightarrow> (pass_key \<Rightarrow> u64) \<Rightarrow> render_op list \<Rightarrow> image_set \<times> vk \<Rightarrow> bool" where
  "ends_final d hash [] s = True"
| "ends_final d hash (op # ops) s = ((op = RoEnd \<longrightarrow> final_images (fst s) = is_images (fst s))
     \<and> (case render_op_exec d hash op s of Inl e \<Rightarrow> True | Inr s' \<Rightarrow> ends_final d hash ops s'))"

lemma set_op_infos:
  "SetLoadOp desc l i sl rt = Inr rt' \<Longrightarrow> infos_of rt' = infos_of rt \<and> attachments rt' = attachments rt"
  "SetStoreOp desc st i sst rt = Inr rt' \<Longrightarrow> infos_of rt' = infos_of rt \<and> attachments rt' = attachments rt"
  by (auto simp: SetLoadOp_def SetStoreOp_def bind_res_Inr Let_def infos_of_def)

lemma ClearAll_cases: "ClearAll desc vals v = Inr v' \<Longrightarrow> \<exists>c. v' = v @ [c] \<and> (\<forall>g. gpu_exec c g = Some g)"
  by (auto simp: ClearAll_def bind_res_Inr)

lemma Clear_cases:
  assumes "Clear (image_set_class d) val i (s, v) = Inr (s', v')"
  shows "\<exists>fmt v1 lay c. RenderImageSet_Transition d LAYOUT_TRANSFER_DST (all_aspects fmt) i (s, v) = Inr (s', v1)
    \<and> i < length (rtd_images (is_desc s')) \<and> RenderImageSet_GetLayout s' i = Inr lay \<and> v' = v1 @ [c]
    \<and> (\<forall>g. gpu_exec c g = need (gs_layout g (rtd_images (is_desc s') ! i) = lay) g)"
proof -
  from assms obtain fmt v1 lay where r: "RenderImageSet_Transition d LAYOUT_TRANSFER_DST (all_aspects fmt) i (s, v) = Inr (s', v1)"
    "i < length (rtd_images (is_desc s'))" "RenderImageSet_GetLayout s' i = Inr lay"
    "v' = v1 @ [if HasColorComponent fmt then CmdClearColorImage (rtd_images (is_desc s') ! i) lay val (all_aspects fmt)
                else CmdClearDepthStencilImage (rtd_images (is_desc s') ! i) lay val (all_aspects fmt)]"
    by (auto simp: Clear_def image_set_class_def bind_res_Inr idx_Inr)
  show ?thesis using r by (cases "HasColorComponent fmt") auto
qed

lemma render_op_tracked:
  assumes "views_fresh d" "set_tracked d g0 imgs s" "render_op_exec d hash op s = Inr s'"
    "op = RoEnd \<Longrightarrow> final_images (fst s) = is_images (fst s)"
  shows "set_tracked d g0 imgs s'"
proof -
  obtain t v where s: "s = (t, v)" by force
  obtain t' v' where s': "s' = (t', v')" by force
  note a = assms(2,3) [unfolded s s']
  have nn: "views_not_null d" using assms(1) by (simp add: views_fresh_def)
  have "set_ok (length imgs) s" using assms(2) by (simp add: s set_tracked_def)
  from render_op_ok [OF nn this assms(3)] have ok': "set_ok (length imgs) (t', v')" by (simp add: s')
  have dyn: "useDynamicRendering (is_desc t)" and im: "map io_image (is_images t) = imgs" and ri: "rtd_images (is_desc t) = imgs"
    using a(1) by (simp_all add: set_tracked_def set_ok_def set_sized_def)
  show ?thesis
  proof (cases op)
    case (RoTransition l asp i)
    then show ?thesis using RenderImageSet_Transition_tracked(1) [OF assms(1) a(1)] a(2) s' by simp
  next
    case (RoSetLoadOp l i sl)
    then show ?thesis using a s' ok' by (auto simp: bind_res_Inr set_tracked_def views_show_def all_tracked_def dest!: set_op_infos(1))
  next
    case (RoSetStoreOp l i sl)
    then show ?thesis using a s' ok' by (auto simp: bind_res_Inr set_tracked_def views_show_def all_tracked_def dest!: set_op_infos(2))
  next
    case (RoBegin c)
    then obtain b where b: "v' = v @ [CmdBeginRendering (dynamic_info (is_desc t) c (is_target t))]"
      "t' = t\<lparr> is_target := (is_target t)\<lparr> beginInfo := b \<rparr> \<rparr>"
      using a dyn by (auto simp: RenderImageSet_Begin_def RenderTarget_Begin_def bind_res_Inr Let_def split: if_splits)
    have r: "rendering_attachments (dynamic_info (is_desc t) c (is_target t)) = infos_of (is_target t)"
      by (simp add: rendering_attachments_def dynamic_info_def infos_of_def option_list_def)
    show ?thesis unfolding s' b(1)
      by (rule set_tracked_quiet [OF a(1)]) (use ok' b r in \<open>simp_all add: infos_of_def\<close>)
  next
    case RoEnd
    then have e: "RenderImageSet_End (t, v) = Inr (t', v')" using a(2) by simp
    note c = RenderImageSet_End_cases [OF e dyn]
    show ?thesis unfolding s' c(2)
      by (rule set_tracked_quiet [OF a(1)]) (use ok' c assms(4) [OF RoEnd] s in \<open>simp_all add: infos_of_def\<close>)
  next
    case (RoClear val i)
    then have "Clear (image_set_class d) val i (t, v) = Inr (t', v')" using a(2) by simp
    from Clear_cases [OF this] obtain fmt v1 lay c
      where 1: "RenderImageSet_Transition d LAYOUT_TRANSFER_DST (all_aspects fmt) i (t, v) = Inr (t', v1)"
        "i < length (rtd_images (is_desc t'))" "RenderImageSet_GetLayout t' i = Inr lay" "v' = v1 @ [c]"
        "\<And>g. gpu_exec c g = need (gs_layout g (rtd_images (is_desc t') ! i) = lay) g" by blast
    note t = RenderImageSet_Transition_tracked(1) [OF assms(1) a(1) 1(1)]
    have i: "map io_image (is_images t') = imgs" "rtd_images (is_desc t') = imgs"
      using t by (simp_all add: set_tracked_def set_ok_def set_sized_def)
    have l: "io_layout (is_images t' ! i) = lay" using 1(3) by (auto simp: RenderImageSet_GetLayout_def bind_res_Inr idx_Inr)
    have q: "gpu_exec c g = Some g" if "all_tracked g t'" for g
      using that 1(2) l unfolding tracked_nth [OF i(1)] 1(5) i(2) by simp
    show ?thesis unfolding s' 1(4) by (rule set_tracked_quiet [OF t]) (use ok' 1(4) q in simp_all)
  next
    case (RoClearAll vals)
    then have "ClearAll (is_desc t) vals v = Inr v'" "t' = t" using a(2) by (auto simp: bind_res_Inr)
    then obtain c where b: "v' = v @ [c]" "\<And>g. gpu_exec c g = Some g" "t' = t" using ClearAll_cases by blast
    show ?thesis unfolding s' b(1) by (rule set_tracked_quiet [OF a(1)]) (use ok' b in simp_all)
  qed
qed

lemma render_ops_tracked:
  assumes "views_fresh d"
  shows "set_tracked d g0 imgs s \<Longrightarrow> fold_res (render_op_exec d hash) ops s = Inr s' \<Longrightarrow> ends_final d hash ops s \<Longrightarrow> set_tracked d g0 imgs s'"
proof (induction ops arbitrary: s)
  case (Cons op ops)
  then obtain s1 where s1: "render_op_exec d hash op s = Inr s1" "fold_res (render_op_exec d hash) ops s1 = Inr s'"
    by (auto simp: bind_res_Inr)
  have "set_tracked d g0 imgs s1" by (rule render_op_tracked [OF assms Cons.prems(1) s1(1)]) (use Cons.prems(3) in simp)
  then show ?case using Cons.IH [OF _ s1(2)] Cons.prems(3) s1(1) by simp
qed simp

lemma init_attachment_shows:
  assumes "views_fresh d" "shows_images d g0 L imgs (rt, v)" "rtd_images desc ! length imgs = img"
    "init_attachment d desc (length imgs) (rt, v) = Inr (rt', v')" "infos_of rt = []"
  shows "shows_images d g0 L (imgs @ [img]) (rt', v')" "infos_of rt' = []"
proof -
  have nn: "views_not_null d" using assms(1) by (simp add: views_fresh_def)
  have ok: "rt_ok (length imgs) (rt, v)" and ow: "owns_views (rt, v)" and len: "length (attachments rt) = length imgs"
    using assms(2) by (simp_all add: shows_images_def rt_ok_def rt_sized_def)
  obtain g where g: "gpu_run v g0 = Some g" "gs_layout g = L" "distinct (attachments rt)"
    "\<And>j. j < length imgs \<Longrightarrow> gs_view g (attachments rt ! j) = Some (imgs ! j)"
    using assms(2) by (auto simp: shows_images_def views_show_def)
  have r: "attachments rt' = attachments rt @ [dv_view d v]" "infos_of rt' = infos_of rt"
    "\<exists>info. vi_image info = img \<and> v' = v @ [CreateImageViewCall info (dv_view d v)]"
    using assms(3,4) by (auto simp: init_attachment_def bind_res_Inr idx_Inr Let_def CreateImageView2D_def infos_of_def)
  then obtain info where info: "vi_image info = img" "v' = v @ [CreateImageViewCall info (dv_view d v)]" by blast
  have new: "dv_view d v \<notin> set (attachments rt)" by (rule fresh_view [OF assms(1) ow])
  have run: "gpu_run v' g0 = Some (g\<lparr> gs_view := (gs_view g)(dv_view d v \<mapsto> img) \<rparr>)" using g(1) info by (simp add: gpu_run_append)
  have "((gs_view g)(dv_view d v \<mapsto> img)) ((attachments rt @ [dv_view d v]) ! j) = Some ((imgs @ [img]) ! j)"
    if "j < Suc (length imgs)" for j
  proof (cases "j < length imgs")
    case True
    then have "attachments rt ! j \<noteq> dv_view d v" using new len by (metis nth_mem)
    then show ?thesis using True g(4) len by (simp add: nth_append)
  next
    case False
    then show ?thesis using that len by (simp add: nth_append)
  qed
  then show "shows_images d g0 L (imgs @ [img]) (rt', v')" using run g(2,3) new r(1) init_attachment_ok [OF nn ok assms(4)]
    by (simp add: shows_images_def views_show_def)
  show "infos_of rt' = []" using r(2) assms(5) by simp
qed

lemma init_attachments_shows:
  assumes "views_fresh d" "shows_images d g0 L [] (rt, v)" "infos_of rt = []"
  shows "k \<le> length (rtd_images desc) \<Longrightarrow> fold_res (init_attachment d desc) [0..<k] (rt, v) = Inr (rt', v') \<Longrightarrow>
     shows_images d g0 L (take k (rtd_images desc)) (rt', v') \<and> infos_of rt' = []"
proof (induction k arbitrary: rt' v')
  case (Suc k)
  then obtain rt1 v1 where 1: "fold_res (init_attachment d desc) [0..<k] (rt, v) = Inr (rt1, v1)"
    "init_attachment d desc k (rt1, v1) = Inr (rt', v')" by (auto simp: fold_res_append bind_res_Inr)
  have ih: "shows_images d g0 L (take k (rtd_images desc)) (rt1, v1)" "infos_of rt1 = []" using Suc 1(1) by simp_all
  have k: "length (take k (rtd_images desc)) = k" using Suc.prems(1) by simp
  from init_attachment_shows [OF assms(1) ih(1), of desc "rtd_images desc ! k"] ih(2) 1(2) k
  show ?case using Suc.prems(1) by (simp add: take_Suc_conv_app_nth)
qed (use assms in simp)

lemma RenderImageSet_new_tracked:
  assumes "views_fresh d" "RenderImageSet_new d hash ios [] = Inr (s, v)" "distinct (map io_image ios)"
    "\<forall>io\<in>set ios. image_tracked g0 io"
  shows "set_tracked d g0 (map io_image ios) (s, v)"
proof -
  have nn: "views_not_null d" using assms(1) by (simp add: views_fresh_def)
  have e: "views_created [] = views_destroyed []" by simp
  note ok = RenderImageSet_new_ok [OF nn e assms(2)]
  obtain desc rt where r: "CreateRenderTargetCreateDesc ios = Inr desc" "RenderTarget_new d hash desc [] = Inr (rt, v)"
    "s = \<lparr> is_target = rt, is_desc = desc, is_images = ios \<rparr>"
    using assms(2) by (auto simp: RenderImageSet_new_def bind_res_Inr)
  note c = CreateRenderTargetCreateDesc_Inr [OF r(1)]
  have f: "fold_res (init_attachment d desc) [0..<length (rtd_images desc)] (render_target_empty\<lparr> attachments := [] \<rparr>, []) = Inr (rt, v)"
    using r(2) c(4) by (auto simp: RenderTarget_new_def InternalInitializeAttachments_def bind_res_Inr split: if_splits)
  have "shows_images d g0 (gs_layout g0) [] (render_target_empty\<lparr> attachments := [] \<rparr>, [])"
    by (simp add: shows_images_def rt_ok_def rt_sized_def owns_views_def render_target_empty_def views_show_def)
  moreover have "infos_of (render_target_empty\<lparr> attachments := [] \<rparr>) = []"
    by (simp add: infos_of_def render_target_empty_def option_list_def)
  ultimately have "shows_images d g0 (gs_layout g0) (rtd_images desc) (rt, v) \<and> infos_of rt = []"
    using init_attachments_shows [OF assms(1) _ _ order_refl f] by simp
  then show ?thesis using ok assms(3,4) r(3) c(1)
    by (auto simp: set_tracked_def shows_images_def all_tracked_def image_tracked_def)
qed

text \<open>C17: Along every history of a set of render images that ends its passes only when each image is in
  the final layout of its attachment, every barrier, clear and attachment names the layout the image
  really is in. Ending a pass is what can break this: dynamic rendering changes no layout, but the set
  then tracks the final layouts, which is right exactly when they were the layouts before.\<close>
theorem render_layouts_real:
  assumes "views_fresh d" "RenderImageSet_new d hash ios [] = Inr (s, v)" "distinct (map io_image ios)"
    "\<forall>io\<in>set ios. gs_layout g0 (io_image io) = io_layout io"
    "fold_res (render_op_exec d hash) ops (s, v) = Inr (s', v')" "ends_final d hash ops (s, v)"
  shows "\<exists>g. gpu_run v' g0 = Some g \<and> all_tracked g s' \<and> (case RenderImageSet_End (s', v') of Inl e \<Rightarrow> True
    | Inr (s'', v'') \<Rightarrow> gpu_run v'' g0 = Some g \<and> (all_tracked g s'' \<longleftrightarrow> final_images s' = is_images s'))"
proof -
  have "\<forall>io\<in>set ios. image_tracked g0 io" using assms(4) by (simp add: image_tracked_def)
  from render_ops_tracked [OF assms(1) RenderImageSet_new_tracked [OF assms(1-3) this] assms(5,6)]
  have t: "set_tracked d g0 (map io_image ios) (s', v')" .
  then obtain g where g: "gpu_run v' g0 = Some g" "all_tracked g s'" by (auto simp: set_tracked_def)
  have im: "map io_image (is_images s') = map io_image ios" and dyn: "useDynamicRendering (is_desc s')"
    using t by (simp_all add: set_tracked_def set_ok_def set_sized_def)
  have len: "length (is_images s') = length ios" using map_eq_imp_length_eq [OF im] .
  have "gpu_run v'' g0 = Some g \<and> (all_tracked g s'' \<longleftrightarrow> final_images s' = is_images s')"
    if e: "RenderImageSet_End (s', v') = Inr (s'', v'')" for s'' v''
  proof -
    note c = RenderImageSet_End_cases [OF e dyn]
    have im2: "map io_image (is_images s'') = map io_image ios" using im by (simp add: c(1))
    have "all_tracked g s'' \<longleftrightarrow> (\<forall>i<length ios. io_layout (is_images s'' ! i) = io_layout (is_images s' ! i))"
    proof -
      have "gs_layout g (map io_image ios ! i) = io_layout (is_images s' ! i)" if "i < length ios" for i
        using g(2) that unfolding tracked_nth [OF im] by (simp del: nth_map)
      then show ?thesis unfolding tracked_nth [OF im2] by (metis length_map)
    qed
    also have "\<dots> \<longleftrightarrow> final_images s' = is_images s'"
    proof -
      have "is_images s'' = final_images s'" unfolding c(1) by simp
      then show ?thesis unfolding final_images_same [symmetric] by (simp only: len)
    qed
    finally show ?thesis using gpu_exec_quiet [OF g(1), of CmdEndRendering] c(2) by simp
  qed
  then show ?thesis using g by (intro exI [of _ g]) (simp split: sum.splits)
qed

lemma ex_render_ends_final: "\<exists>s v s' v'. RenderImageSet_new ex_view_driver hash [ex_color_image, ex_depth_image] [] = Inr (s, v)
    \<and> fold_res (render_op_exec ex_view_driver hash) ex_render_ops (s, v) = Inr (s', v')
    \<and> ends_final ex_view_driver hash ex_render_ops (s, v)"
  by (simp add: render_defs final_images_def)

theorem render_layouts_real_witness:
  "\<exists>s v s' v' g. RenderImageSet_new ex_view_driver (\<lambda>_. 0) [ex_color_image, ex_depth_image] [] = Inr (s, v)
    \<and> fold_res (render_op_exec ex_view_driver (\<lambda>_. 0)) ex_render_ops (s, v) = Inr (s', v')
    \<and> gpu_run v' (ex_gpu\<lparr> gs_layout := (\<lambda>i. if i = 2 then LAYOUT_DEPTH_STENCIL_ATTACHMENT else LAYOUT_UNDEFINED) \<rparr>) = Some g
    \<and> all_tracked g s'"
proof -
  from ex_render_ends_final obtain s v s' v' where r: "RenderImageSet_new ex_view_driver (\<lambda>_. 0) [ex_color_image, ex_depth_image] [] = Inr (s, v)"
    "fold_res (render_op_exec ex_view_driver (\<lambda>_. 0)) ex_render_ops (s, v) = Inr (s', v')"
    "ends_final ex_view_driver (\<lambda>_. 0) ex_render_ops (s, v)" by blast
  have "distinct (map io_image [ex_color_image, ex_depth_image])" by (simp add: ex_color_image_def ex_depth_image_def)
  moreover have "\<forall>io\<in>set [ex_color_image, ex_depth_image]. gs_layout
      (ex_gpu\<lparr> gs_layout := (\<lambda>i. if i = 2 then LAYOUT_DEPTH_STENCIL_ATTACHMENT else LAYOUT_UNDEFINED) \<rparr>) (io_image io) = io_layout io"
    by (simp add: ex_color_image_def ex_depth_image_def)
  ultimately show ?thesis
    using render_layouts_real [OF ex_view_driver_fresh r(1) _ _ r(2) r(3)] r by blast
qed

end
